(* ===== verification/Hub_Prelude.thy ===== *)
theory Hub_Prelude
  imports Complex_Main "HOL-Library.AList" "HOL-Library.Char_ord" "HOL-Library.List_Lexorder"
    "HOL-Library.Product_Lexorder"
begin

text \<open>
  The vocabulary the component theories share: Python values and exceptions, dictionaries as
  maps and as insertion-ordered association lists, bounded queues, and the generic argument
  that lifts an invariant from single steps to every reachable state.

  A Python \<open>str\<close> is a \<^typ>\<open>string\<close> whose characters are the code points 0 to 255.
  A Python \<open>int\<close> is an \<^typ>\<open>int\<close> and a finite \<open>float\<close> the rational it
  denotes; rounding of float arithmetic is not modelled.
\<close>

section \<open>Python values\<close>

datatype pyval =
    PyNone
  | PyBool bool
  | PyInt int
  | PyFloat rat
  | PyNonFinite \<comment> \<open>an infinity or a NaN\<close>
  | PyStr string
  | PyList "pyval list"
  | PyDict "(string \<times> pyval) list"

section \<open>Exceptions (errors.py)\<close>

datatype error_category =
    INPUT | REFERENCE | POLICY | APPROVAL | BUDGET | CONFLICT | PROVIDER | DEPENDENCY
  | TIMEOUT | CANCELLED | INTERNAL

text \<open>
  \<open>HubError\<close> is \<open>CapabilityHubError\<close> with its code, category, retryable flag and
  details; the fixed message text that belongs to a code is left out. The other constructors
  are the built-in exceptions the modelled code raises. \<open>BadReference\<close> marks an object
  identifier outside the modelled heap, which no Python program state has.
\<close>

datatype exn =
    HubError (err_code: string) (err_category: error_category) (err_retryable: bool)
      (err_details: "(string \<times> pyval) list")
  | ValueError
  | TypeError
  | KeyError
  | RuntimeError
  | OverflowError
  | DatabaseError \<comment> \<open>\<open>sqlite3.Error\<close>\<close>
  | OSError
  | PermissionError
  | GrantPolicyConflictError
  | BadReference

type_synonym 'a result = "exn + 'a"

fun category_value :: "error_category \<Rightarrow> string" where
  "category_value INPUT = ''input''"
| "category_value REFERENCE = ''reference''"
| "category_value POLICY = ''policy''"
| "category_value APPROVAL = ''approval''"
| "category_value BUDGET = ''budget''"
| "category_value CONFLICT = ''conflict''"
| "category_value PROVIDER = ''provider''"
| "category_value DEPENDENCY = ''dependency''"
| "category_value TIMEOUT = ''timeout''"
| "category_value CANCELLED = ''cancelled''"
| "category_value INTERNAL = ''internal''"

text \<open>An operation either raises (\<open>Inl\<close>) or returns (\<open>Inr\<close>).\<close>

definition rbind :: "'a result \<Rightarrow> ('a \<Rightarrow> 'b result) \<Rightarrow> 'b result" where
  "rbind r k = (case r of Inl e \<Rightarrow> Inl e | Inr x \<Rightarrow> k x)"

lemma rbind_simps [simp]:
  "rbind (Inl e) k = Inl e"
  "rbind (Inr x) k = k x"
  by (simp_all add: rbind_def)

lemma rbind_eq_Inr: "rbind r k = Inr y \<longleftrightarrow> (\<exists>x. r = Inr x \<and> k x = Inr y)"
  by (cases r) simp_all

lemma rbind_eq_Inl: "rbind r k = Inl e \<longleftrightarrow> r = Inl e \<or> (\<exists>x. r = Inr x \<and> k x = Inl e)"
  by (cases r) simp_all

section \<open>Dictionaries\<close>

text \<open>
  Where only lookups matter a \<open>dict\<close> is a map; \<open>getd\<close> is \<open>d.get(k, 0)\<close>. Where the
  code iterates, a \<open>dict\<close> is an association list in insertion order with distinct keys:
  \<open>AList.update\<close> replaces a value in place or appends, \<open>AList.delete\<close> is \<open>pop\<close>.
\<close>

definition getd :: "('k \<rightharpoonup> int) \<Rightarrow> 'k \<Rightarrow> int" where
  "getd m k = (case m k of None \<Rightarrow> 0 | Some v \<Rightarrow> v)"

lemma getd_upd [simp]: "getd (m(k \<mapsto> v)) k' = (if k' = k then v else getd m k')"
  by (simp add: getd_def)

lemma getd_del [simp]: "getd (m(k := None)) k' = (if k' = k then 0 else getd m k')"
  by (simp add: getd_def)

lemma getd_empty [simp]: "getd Map.empty k = 0" "getd (\<lambda>_. None) k = 0"
  by (simp_all add: getd_def)

definition amt :: "('k \<times> int) list \<Rightarrow> 'k \<Rightarrow> int" where
  "amt xs k = getd (map_of xs) k"

lemma amt_Nil [simp]: "amt [] k = 0"
  by (simp add: amt_def)

lemma amt_Cons [simp]: "amt ((c, v) # xs) k = (if k = c then v else amt xs k)"
  by (simp add: amt_def getd_def)

lemma amt_notin: "k \<notin> fst ` set xs \<Longrightarrow> amt xs k = 0"
  by (induction xs) auto

lemma amt_nonneg: "\<forall>(c, v) \<in> set xs. 0 \<le> v \<Longrightarrow> 0 \<le> amt xs k"
  by (induction xs) auto

lemma fst_memI: "(a, b) \<in> set xs \<Longrightarrow> a \<in> fst ` set xs"
  by force

abbreviation dict_ok :: "('k \<times> 'v) list \<Rightarrow> bool" where
  "dict_ok d \<equiv> distinct (map fst d)"

lemma dict_ok_update [simp]: "dict_ok d \<Longrightarrow> dict_ok (AList.update k v d)"
  by (rule distinct_update)

lemma dict_ok_delete [simp]: "dict_ok d \<Longrightarrow> dict_ok (AList.delete k d)"
  by (rule distinct_delete)

lemma map_of_dict_update [simp]: "map_of (AList.update k v d) = (map_of d)(k \<mapsto> v)"
  by (rule update_conv')

lemma map_of_dict_delete [simp]: "map_of (AList.delete k d) = (map_of d)(k := None)"
  by (rule delete_conv')

lemma dict_mem_iff: "dict_ok d \<Longrightarrow> (k, v) \<in> set d \<longleftrightarrow> map_of d k = Some v"
  by (simp add: map_of_eq_Some_iff)

lemma length_dict: "dict_ok d \<Longrightarrow> length d = card (dom (map_of d))"
  by (metis distinct_card dom_map_of_conv_image_fst length_map list.set_map)

lemma finite_dom_dict [simp]: "finite (dom (map_of d))"
  by (rule finite_dom_map_of)

lemma update_fresh: "k \<notin> fst ` set d \<Longrightarrow> AList.update k v d = d @ [(k, v)]"
  by (induction d) auto

lemma dict_ok_sort_key [simp]: "dict_ok (sort_key f d) = dict_ok d"
  by (simp add: distinct_map)

lemma map_of_sort_key: "dict_ok d \<Longrightarrow> map_of (sort_key f d) = map_of d"
  by (intro map_of_inject_set [THEN iffD2]) simp_all

lemma dict_update_map:
  assumes "dict_ok d" "map_of d k = Some x"
  shows "AList.update k v d = map (\<lambda>(q, y). if q = k then (q, v) else (q, y)) d"
  using assms
proof (induction d)
  case (Cons p d)
  show ?case
  proof (cases "fst p = k")
    case True
    with Cons.prems have "map (\<lambda>(q, y). if q = k then (q, v) else (q, y)) d = d"
      by (intro map_idI) (auto split: prod.split dest: fst_memI)
    with True show ?thesis by (cases p) simp
  next
    case False
    with Cons show ?thesis by (cases p) auto
  qed
qed simp

lemma map_of_update_in: "map_of d k = Some x \<Longrightarrow> dict_ok d \<Longrightarrow>
  \<exists>pre post. d = pre @ (k, x) # post \<and> AList.update k v d = pre @ (k, v) # post \<and>
    AList.delete k d = pre @ post \<and> k \<notin> fst ` set pre \<union> fst ` set post"
proof (induction d)
  case (Cons p d)
  show ?case
  proof (cases "fst p = k")
    case True
    with Cons.prems show ?thesis by (intro exI [of _ "[]"] exI [of _ d]) (cases p, auto)
  next
    case False
    with Cons obtain pre post where "d = pre @ (k, x) # post" "AList.update k v d = pre @ (k, v) # post"
      "AList.delete k d = pre @ post" "k \<notin> fst ` set pre \<union> fst ` set post"
      by auto
    with False show ?thesis by (intro exI [of _ "p # pre"] exI [of _ post]) (cases p, auto)
  qed
qed simp

lemma length_dict_update: "dict_ok d \<Longrightarrow>
  length (AList.update k v d) = (if map_of d k = None then Suc (length d) else length d)"
  by (simp add: length_dict domIff card_insert_if insert_absorb)

lemma length_dict_delete: "dict_ok d \<Longrightarrow>
  length (AList.delete k d) = (if map_of d k = None then length d else length d - 1)"
  by (auto simp: length_dict card_Diff_singleton_if domIff simp del: map_of_eq_Some_iff)

lemma set_dict_update: "snd ` set (AList.update k v d) \<subseteq> insert v (snd ` set d)"
  by (induction d) auto

lemma set_dict_delete: "set (AList.delete k d) \<subseteq> set d"
  by (auto simp: AList.delete_eq)

lemma sum_list_update_int:
  fixes xs :: "int list"
  shows "k < length xs \<Longrightarrow> sum_list (xs[k := x]) = sum_list xs + x - xs ! k"
  by (induction xs arbitrary: k) (auto split: nat.splits)

section \<open>Bounded queues\<close>

text \<open>\<open>deque(maxlen=n).append\<close>: the oldest entries are dropped once \<open>n\<close> is exceeded.\<close>

definition deque_append :: "nat \<Rightarrow> 'a list \<Rightarrow> 'a \<Rightarrow> 'a list" where
  "deque_append n xs x = drop (length (xs @ [x]) - n) (xs @ [x])"

lemma length_deque_append: "length (deque_append n xs x) = min n (Suc (length xs))"
  by (simp add: deque_append_def)

lemma last_deque_append: "0 < n \<Longrightarrow> deque_append n xs x \<noteq> [] \<and> last (deque_append n xs x) = x"
  by (auto simp: deque_append_def last_drop)

lemma set_deque_append: "set (deque_append n xs x) \<subseteq> insert x (set xs)"
  using set_drop_subset [of "length (xs @ [x]) - n" "xs @ [x]"] by (auto simp: deque_append_def)

section \<open>Invariants of step systems\<close>

text \<open>
  Every component with state is a transition system: initial states, a step relation with one
  rule per operation of the code, and an invariant. The locale proves once that the invariant
  holds in every reachable state; each component interprets it on its own relation.
\<close>

inductive reach :: "('s \<Rightarrow> bool) \<Rightarrow> ('s \<Rightarrow> 's \<Rightarrow> bool) \<Rightarrow> 's \<Rightarrow> bool"
  for init :: "'s \<Rightarrow> bool" and step :: "'s \<Rightarrow> 's \<Rightarrow> bool" where
  reach_init: "init s \<Longrightarrow> reach init step s"
| reach_step: "reach init step s \<Longrightarrow> step s t \<Longrightarrow> reach init step t"

lemma reach_run: "reach init step s \<Longrightarrow> step\<^sup>*\<^sup>* s t \<Longrightarrow> reach init step t"
  by (rotate_tac, induction rule: rtranclp_induct) (auto intro: reach_step)

locale step_system =
  fixes init :: "'s \<Rightarrow> bool" and step :: "'s \<Rightarrow> 's \<Rightarrow> bool" and inv :: "'s \<Rightarrow> bool"
  assumes inv_init: "init s \<Longrightarrow> inv s"
    and inv_step: "inv s \<Longrightarrow> step s t \<Longrightarrow> inv t"
begin

lemma reachable_inv: "reach init step s \<Longrightarrow> inv s"
proof (induction rule: reach.induct)
  case (reach_init s)
  then show ?case by (rule inv_init)
next
  case (reach_step s t)
  then show ?case by (blast intro: inv_step)
qed

lemma run_inv:
  assumes "inv s" "step\<^sup>*\<^sup>* s t"
  shows "inv t"
  using assms(2,1) by (induction rule: rtranclp_induct) (auto intro: inv_step)

end

text \<open>
  A quantity that no step lowers (a sequence number, a generation, a charge) never decreases
  along a run.
\<close>

locale monotone_system = step_system init step inv
  for init :: "'s \<Rightarrow> bool" and step and inv +
  fixes progress :: "'s \<Rightarrow> 's \<Rightarrow> bool"
  assumes progress_refl: "progress s s"
    and progress_trans: "progress s t \<Longrightarrow> progress t u \<Longrightarrow> progress s u"
    and progress_step: "inv s \<Longrightarrow> step s t \<Longrightarrow> progress s t"
begin

lemma run_progress:
  assumes "inv s" "step\<^sup>*\<^sup>* s t"
  shows "progress s t"
  using assms(2)
proof (induction rule: rtranclp_induct)
  case base
  show ?case by (rule progress_refl)
next
  case (step t u)
  from assms(1) step.hyps(1) have "inv t" by (rule run_inv)
  with step show ?case by (blast intro: progress_step progress_trans)
qed

end

end
