(* ===== verification/Models.thy ===== *)
theory Models
  imports Hub_Prelude
begin

text \<open>
  The provider-neutral data of \<open>src/src/capabilityhub/models.py\<close> that the modelled components
  share. The side effects and the reasoning tiers are linearly ordered, as the tables
  \<open>order\<close> of \<open>maximum_side_effect\<close> and \<open>_TIER_ORDER\<close> of the router order them.
\<close>

datatype capability_kind = SKILL | MCP | CLI | API | RAG

datatype operation_type = EXPAND | EXECUTE | RETRIEVE

datatype side_effect = NONE | READ | REVERSIBLE_WRITE | IRREVERSIBLE

datatype reasoning_tier = LOW | MEDIUM | HIGH

record capability_identity =
  ci_namespace :: string
  ci_name :: string
  ci_version :: string
  ci_digest :: string

definition coordinate_of :: "capability_identity \<Rightarrow> string" where
  "coordinate_of i = ci_namespace i @ ''/'' @ ci_name i"

definition revision_of :: "capability_identity \<Rightarrow> string" where
  "revision_of i = coordinate_of i @ ''@'' @ ci_version i @ ''#'' @ ci_digest i"

record operation_spec =
  op_name :: string
  op_type :: operation_type
  op_input_schema :: "(string \<times> pyval) list"
  op_output_schema :: "(string \<times> pyval) list"
  op_side_effect :: side_effect
  op_requires_approval :: bool

record execution_request =
  rq_execution_ref :: string
  rq_operation :: string
  rq_arguments :: "(string \<times> pyval) list"
  rq_task_id :: string
  rq_approval_ref :: "string option"
  rq_idempotency_key :: "string option"

record reasoning_decision =
  rd_tier :: reasoning_tier
  rd_reasons :: "string list"
  rd_escalations :: int
  rd_policy_revision :: string

section \<open>The order of the side effects\<close>

fun effect_rank :: "side_effect \<Rightarrow> nat" where
  "effect_rank NONE = 0"
| "effect_rank READ = 1"
| "effect_rank REVERSIBLE_WRITE = 2"
| "effect_rank IRREVERSIBLE = 3"

lemma effect_rank_inj: "effect_rank s = effect_rank t \<Longrightarrow> s = t"
  by (cases s; cases t) simp_all

instantiation side_effect :: linorder
begin

definition less_eq_side_effect :: "side_effect \<Rightarrow> side_effect \<Rightarrow> bool" where
  "less_eq_side_effect s t \<longleftrightarrow> effect_rank s \<le> effect_rank t"

definition less_side_effect :: "side_effect \<Rightarrow> side_effect \<Rightarrow> bool" where
  "less_side_effect s t \<longleftrightarrow> effect_rank s < effect_rank t"

instance
  by standard (auto simp: less_eq_side_effect_def less_side_effect_def effect_rank_inj)

end

fun side_effect_value :: "side_effect \<Rightarrow> string" where
  "side_effect_value NONE = ''none''"
| "side_effect_value READ = ''read''"
| "side_effect_value REVERSIBLE_WRITE = ''reversible_write''"
| "side_effect_value IRREVERSIBLE = ''irreversible''"

text \<open>\<open>max(.., key=order.__getitem__)\<close> keeps the first of equal ranks; ranks are distinct.\<close>

fun maximum_side_effect :: "operation_spec list \<Rightarrow> side_effect" where
  "maximum_side_effect [] = NONE"
| "maximum_side_effect (op # ops) = fold (\<lambda>o' m. max m (op_side_effect o')) ops (op_side_effect op)"

lemma maximum_side_effect_covers: "op \<in> set ops \<Longrightarrow> op_side_effect op \<le> maximum_side_effect ops"
proof -
  have ge: "m \<le> fold (\<lambda>o' m. max m (op_side_effect o')) xs m" for m xs
    by (induction xs arbitrary: m) (auto intro: order_trans [OF max.cobounded1])
  have mem: "x \<in> set xs \<Longrightarrow> op_side_effect x \<le> fold (\<lambda>o' m. max m (op_side_effect o')) xs m" for x m xs
    by (induction xs arbitrary: m) (auto intro: order_trans [OF max.cobounded2 ge])
  show "op \<in> set ops \<Longrightarrow> op_side_effect op \<le> maximum_side_effect ops"
    by (cases ops) (auto simp: ge mem)
qed

section \<open>The order of the reasoning tiers\<close>

fun tier_rank :: "reasoning_tier \<Rightarrow> nat" where
  "tier_rank LOW = 0"
| "tier_rank MEDIUM = 1"
| "tier_rank HIGH = 2"

lemma tier_rank_inj: "tier_rank s = tier_rank t \<Longrightarrow> s = t"
  by (cases s; cases t) simp_all

instantiation reasoning_tier :: linorder
begin

definition less_eq_reasoning_tier :: "reasoning_tier \<Rightarrow> reasoning_tier \<Rightarrow> bool" where
  "less_eq_reasoning_tier s t \<longleftrightarrow> tier_rank s \<le> tier_rank t"

definition less_reasoning_tier :: "reasoning_tier \<Rightarrow> reasoning_tier \<Rightarrow> bool" where
  "less_reasoning_tier s t \<longleftrightarrow> tier_rank s < tier_rank t"

instance
  by standard (auto simp: less_eq_reasoning_tier_def less_reasoning_tier_def tier_rank_inj)

end

lemma tier_order [simp]: "LOW \<le> t" "t \<le> HIGH" "\<not> t < LOW" "\<not> HIGH < t"
  by (cases t; simp add: less_eq_reasoning_tier_def less_reasoning_tier_def)+

fun tier_value :: "reasoning_tier \<Rightarrow> string" where
  "tier_value LOW = ''low''"
| "tier_value MEDIUM = ''medium''"
| "tier_value HIGH = ''high''"

end
