(* ===== verification/Python_Text.thy ===== *)
theory Python_Text
  imports Hub_Prelude "HOL-Library.Word"
begin

text \<open>
  The parts of Python's text and hashing library the components use: \<open>str.strip\<close>, the Unicode
  categories of the first 256 code points, UTF-8, numbers converted by \<open>float\<close>, and SHA-256 with
  its hexadecimal digest. Strings in these code points are already in normal form NFC, so
  \<open>unicodedata.normalize("NFC", s)\<close> is \<open>s\<close>.
\<close>

unbundle bit_operations_syntax

section \<open>Characters and identifiers\<close>

abbreviation code_point :: "char \<Rightarrow> nat" where
  "code_point c \<equiv> of_char c"

text \<open>\<open>str.isspace\<close> of a character.\<close>

definition is_space :: "char \<Rightarrow> bool" where
  "is_space c = (let n = code_point c in
     9 \<le> n \<and> n \<le> 13 \<or> 28 \<le> n \<and> n \<le> 32 \<or> n = 133 \<or> n = 160)"

definition strip :: "string \<Rightarrow> string" where
  "strip s = rev (dropWhile is_space (rev (dropWhile is_space s)))"

text \<open>\<open>unicodedata.category(c).startswith("C")\<close>: the controls and the soft hyphen.\<close>

definition is_control :: "char \<Rightarrow> bool" where
  "is_control c = (let n = code_point c in n < 32 \<or> 127 \<le> n \<and> n < 160 \<or> n = 173)"

definition is_lower :: "char \<Rightarrow> bool" where
  "is_lower c = (let n = code_point c in 97 \<le> n \<and> n \<le> 122)"

definition is_digit :: "char \<Rightarrow> bool" where
  "is_digit c = (let n = code_point c in 48 \<le> n \<and> n \<le> 57)"

definition is_upper :: "char \<Rightarrow> bool" where
  "is_upper c = (let n = code_point c in 65 \<le> n \<and> n \<le> 90)"

text \<open>
  The helper many components repeat: normalize, strip, then refuse empty, too long or
  unprintable text.
\<close>

definition clean_text :: "nat \<Rightarrow> string \<Rightarrow> string option" where
  "clean_text limit s = (let t = strip s in
     if t = [] \<or> limit < length t \<or> list_ex is_control t then None else Some t)"

lemma dropWhile_hd: "dropWhile P xs \<noteq> [] \<Longrightarrow> \<not> P (hd (dropWhile P xs))"
  by (induction xs) auto

lemma strip_idem [simp]: "strip (strip s) = strip s"
proof -
  define t where "t = dropWhile is_space s"
  have rt: "strip s = rev (dropWhile is_space (rev t))" by (simp add: strip_def t_def)
  show ?thesis
  proof (cases "dropWhile is_space (rev t) = []")
    case False
    obtain pre where pre: "rev t = pre @ dropWhile is_space (rev t)"
      by (metis takeWhile_dropWhile_id)
    then have t: "t = strip s @ rev pre" by (metis rt rev_append rev_rev_ident)
    from False have ne: "strip s \<noteq> []" by (simp add: rt)
    with t have "t \<noteq> []" by auto
    then have "\<not> is_space (hd t)" unfolding t_def by (rule dropWhile_hd)
    with t ne have "\<not> is_space (hd (strip s))" by simp
    with ne have 1: "dropWhile is_space (strip s) = strip s" by (cases "strip s") auto
    from False have "\<not> is_space (hd (dropWhile is_space (rev t)))" by (rule dropWhile_hd)
    with False have "dropWhile is_space (dropWhile is_space (rev t)) = dropWhile is_space (rev t)"
      by (cases "dropWhile is_space (rev t)") auto
    with 1 show ?thesis by (subst strip_def) (simp add: rt)
  next
    case True
    then have "strip s = []" unfolding rt by (simp only: rev.simps)
    moreover have "strip [] = []" by (simp add: strip_def)
    ultimately show ?thesis by (simp only:)
  qed
qed

lemma clean_text_idem: "clean_text n s = Some t \<Longrightarrow> clean_text n t = Some t"
  by (auto simp: clean_text_def Let_def split: if_splits)

lemma clean_text_bounds: "clean_text n s = Some t \<Longrightarrow> t \<noteq> [] \<and> length t \<le> n"
  by (auto simp: clean_text_def Let_def split: if_splits)

section \<open>Numbers\<close>

text \<open>
  \<open>float(value)\<close> of a number that is not a \<open>bool\<close>, kept only when it is finite and not
  negative; \<open>float\<close> of an integer that rounds to \<open>2 ** 1024\<close> raises \<open>OverflowError\<close>.
\<close>

fun nonneg_time :: "pyval \<Rightarrow> rat result" where
  "nonneg_time (PyInt n) =
     (if 2 ^ 1024 - 2 ^ 970 \<le> \<bar>n\<bar> then Inl OverflowError
      else if n < 0 then Inl ValueError else Inr (of_int n))"
| "nonneg_time (PyFloat x) = (if x < 0 then Inl ValueError else Inr x)"
| "nonneg_time _ = Inl ValueError"

section \<open>UTF-8 and SHA-256\<close>

definition utf8 :: "string \<Rightarrow> nat list" where
  "utf8 s = concat (map (\<lambda>c. let n = code_point c in
     if n < 128 then [n] else [192 + n div 64, 128 + n mod 64]) s)"

text \<open>The round constants and the initial state of SHA-256, in decimal.\<close>

definition sha_constants :: "32 word list" where
  "sha_constants =
    [1116352408, 1899447441, 3049323471, 3921009573, 961987163, 1508970993,
     2453635748, 2870763221, 3624381080, 310598401, 607225278, 1426881987,
     1925078388, 2162078206, 2614888103, 3248222580, 3835390401, 4022224774,
     264347078, 604807628, 770255983, 1249150122, 1555081692, 1996064986,
     2554220882, 2821834349, 2952996808, 3210313671, 3336571891, 3584528711,
     113926993, 338241895, 666307205, 773529912, 1294757372, 1396182291,
     1695183700, 1986661051, 2177026350, 2456956037, 2730485921, 2820302411,
     3259730800, 3345764771, 3516065817, 3600352804, 4094571909, 275423344,
     430227734, 506948616, 659060556, 883997877, 958139571, 1322822218,
     1537002063, 1747873779, 1955562222, 2024104815, 2227730452, 2361852424,
     2428436474, 2756734187, 3204031479, 3329325298]"

definition sha_initial :: "32 word list" where
  "sha_initial =
    [1779033703, 3144134277, 1013904242, 2773480762, 1359893119, 2600822924,
     528734635, 1541459225]"

definition sha_rotate :: "nat \<Rightarrow> 32 word \<Rightarrow> 32 word" where
  "sha_rotate n x = drop_bit n x OR push_bit (32 - n) x"

fun big_endian :: "nat list \<Rightarrow> 32 word list" where
  "big_endian (a # b # c # d # bs) =
     of_nat (((a * 256 + b) * 256 + c) * 256 + d) # big_endian bs"
| "big_endian _ = []"

definition sha_pad :: "nat list \<Rightarrow> nat list" where
  "sha_pad m = m @ [128] @ replicate ((119 - length m mod 64) mod 64) 0 @
     map (\<lambda>i. (8 * length m) div 256 ^ i mod 256) [7, 6, 5, 4, 3, 2, 1, 0]"

text \<open>The message schedule, newest word first.\<close>

fun sha_schedule :: "nat \<Rightarrow> 32 word list \<Rightarrow> 32 word list" where
  "sha_schedule 0 w = w"
| "sha_schedule (Suc n) w =
     (let x = w ! 14; y = w ! 1;
          s0 = sha_rotate 7 x XOR sha_rotate 18 x XOR drop_bit 3 x;
          s1 = sha_rotate 17 y XOR sha_rotate 19 y XOR drop_bit 10 y
      in sha_schedule n ((w ! 15 + s0 + w ! 6 + s1) # w))"

fun sha_round :: "32 word list \<Rightarrow> 32 word \<times> 32 word \<Rightarrow> 32 word list" where
  "sha_round [a, b, c, d, e, f, g, h] (k, w) =
     (let s1 = sha_rotate 6 e XOR sha_rotate 11 e XOR sha_rotate 25 e;
          ch = (e AND f) XOR (NOT e AND g);
          t1 = h + s1 + ch + k + w;
          s0 = sha_rotate 2 a XOR sha_rotate 13 a XOR sha_rotate 22 a;
          maj = (a AND b) XOR (a AND c) XOR (b AND c)
      in [t1 + s0 + maj, a, b, c, d + t1, e, f, g])"
| "sha_round hs _ = hs"

definition sha_block :: "32 word list \<Rightarrow> 32 word list \<Rightarrow> 32 word list" where
  "sha_block hs block =
     (let w = rev (sha_schedule 48 (rev block))
      in map (\<lambda>(x, y). x + y) (zip hs (foldl sha_round hs (zip sha_constants w))))"

fun sha_blocks :: "nat \<Rightarrow> 32 word list \<Rightarrow> 32 word list \<Rightarrow> 32 word list" where
  "sha_blocks 0 hs ws = hs"
| "sha_blocks (Suc n) hs ws = sha_blocks n (sha_block hs (take 16 ws)) (drop 16 ws)"

definition hex_digit :: "nat \<Rightarrow> char" where
  "hex_digit n = (if n < 10 then char_of (48 + n) else char_of (87 + n))"

definition word_hex :: "32 word \<Rightarrow> string" where
  "word_hex w = map (\<lambda>i. hex_digit (unat w div 16 ^ i mod 16)) [7, 6, 5, 4, 3, 2, 1, 0]"

definition sha256_words :: "nat list \<Rightarrow> 32 word list" where
  "sha256_words m =
     (let ws = big_endian (sha_pad m) in sha_blocks (length ws div 16) sha_initial ws)"

text \<open>\<open>hashlib.sha256(text.encode()).hexdigest()\<close>.\<close>

definition sha256_hex :: "string \<Rightarrow> string" where
  "sha256_hex s = concat (map word_hex (sha256_words (utf8 s)))"

text \<open>\<open>hmac.new(key, digestmod=hashlib.sha256)\<close> over a message: bytes are numbers below 256.\<close>

definition word_bytes :: "32 word \<Rightarrow> nat list" where
  "word_bytes w = map (\<lambda>i. unat w div 256 ^ i mod 256) [3, 2, 1, 0]"

definition sha256_bytes :: "nat list \<Rightarrow> nat list" where
  "sha256_bytes m = concat (map word_bytes (sha256_words m))"

definition hmac_words :: "nat list \<Rightarrow> nat list \<Rightarrow> 32 word list" where
  "hmac_words key m =
     (let k = (if 64 < length key then sha256_bytes key else key);
          block = k @ replicate (64 - length k) 0
      in sha256_words (map (\<lambda>b. b XOR 92) block @ sha256_bytes (map (\<lambda>b. b XOR 54) block @ m)))"

definition hmac_hex :: "nat list \<Rightarrow> nat list \<Rightarrow> string" where
  "hmac_hex key m = concat (map word_hex (hmac_words key m))"

definition hmac_bytes :: "nat list \<Rightarrow> nat list \<Rightarrow> nat list" where
  "hmac_bytes key m = concat (map word_bytes (hmac_words key m))"

lemma length_word_hex [simp]: "length (word_hex w) = 8"
  by (simp add: word_hex_def)

lemma length_sha_round: "length hs = 8 \<Longrightarrow> length (sha_round hs p) = 8"
  by (cases "(hs, p)" rule: sha_round.cases) (auto simp: Let_def)

lemma length_sha_rounds: "length hs = 8 \<Longrightarrow> length (foldl sha_round hs ps) = 8"
  by (induction ps arbitrary: hs) (auto simp: length_sha_round)

lemma length_sha_blocks: "length hs = 8 \<Longrightarrow> length (sha_blocks n hs ws) = 8"
  by (induction n arbitrary: hs ws) (auto simp: sha_block_def Let_def length_sha_rounds)

lemma length_sha256_words: "length (sha256_words m) = 8"
  by (simp add: sha256_words_def Let_def length_sha_blocks sha_initial_def)

lemma length_sha256_hex: "length (sha256_hex s) = 64"
  by (simp add: sha256_hex_def length_concat comp_def sum_list_triv length_sha256_words)

lemma length_hmac_hex: "length (hmac_hex key m) = 64"
  by (simp add: hmac_hex_def hmac_words_def length_concat comp_def sum_list_triv length_sha256_words Let_def)

end
