(* ===== verification/Json.thy ===== *)
theory Json
  imports Python_Text
begin

text \<open>
  \<open>json.dumps\<close> as the components call it: no whitespace, optionally sorted keys and optionally
  escaping everything outside printable ASCII, over the JSON values of \<^typ>\<open>pyval\<close>. How Python
  prints a float is the argument \<open>fr\<close> (\<open>float.__repr__\<close>), which is applied to float values only.
\<close>

section \<open>Numbers and strings\<close>

text \<open>\<open>str(n)\<close> of an integer.\<close>

fun show_nat :: "nat \<Rightarrow> string" where
  "show_nat n = (if n < 10 then [hex_digit n] else show_nat (n div 10) @ [hex_digit (n mod 10)])"

definition show_int :: "int \<Rightarrow> string" where
  "show_int n = (if n < 0 then ''-'' @ show_nat (nat (- n)) else show_nat (nat n))"

definition json_unicode :: "nat \<Rightarrow> string" where
  "json_unicode n = [CHR 92, CHR ''u'', CHR ''0'', CHR ''0'', hex_digit (n div 16), hex_digit (n mod 16)]"

definition json_char :: "bool \<Rightarrow> char \<Rightarrow> string" where
  "json_char ascii c = (let n = code_point c in
     if n = 34 then [CHR 92, c]
     else if n = 92 then [CHR 92, c]
     else if n = 10 then [CHR 92, CHR ''n'']
     else if n = 13 then [CHR 92, CHR ''r'']
     else if n = 9 then [CHR 92, CHR ''t'']
     else if n = 12 then [CHR 92, CHR ''f'']
     else if n = 8 then [CHR 92, CHR ''b'']
     else if n < 32 \<or> ascii \<and> 127 \<le> n then json_unicode n
     else [c])"

definition json_string :: "bool \<Rightarrow> string \<Rightarrow> string" where
  "json_string ascii s = [CHR 34] @ concat (map (json_char ascii) s) @ [CHR 34]"

fun comma_sep :: "string list \<Rightarrow> string" where
  "comma_sep [] = []"
| "comma_sep [s] = s"
| "comma_sep (s # t # ss) = s @ '','' @ comma_sep (t # ss)"

section \<open>Values\<close>

definition order_keys :: "bool \<Rightarrow> (string \<times> 'v) list \<Rightarrow> (string \<times> 'v) list" where
  "order_keys srt d = (if srt then sort_key fst d else d)"

text \<open>Each item is printed first and the printed items are ordered by their keys.\<close>

function json_dumps :: "bool \<Rightarrow> bool \<Rightarrow> (pyval \<Rightarrow> string) \<Rightarrow> pyval \<Rightarrow> string" where
  "json_dumps srt ascii fr PyNone = ''null''"
| "json_dumps srt ascii fr (PyBool b) = (if b then ''true'' else ''false'')"
| "json_dumps srt ascii fr (PyInt n) = show_int n"
| "json_dumps srt ascii fr (PyFloat x) = fr (PyFloat x)"
| "json_dumps srt ascii fr PyNonFinite = fr PyNonFinite"
| "json_dumps srt ascii fr (PyStr s) = json_string ascii s"
| "json_dumps srt ascii fr (PyList vs) =
     ''['' @ comma_sep (map (json_dumps srt ascii fr) vs) @ '']''"
| "json_dumps srt ascii fr (PyDict d) =
     ''{'' @ comma_sep (map (\<lambda>(k, s). json_string ascii k @ '':'' @ s)
        (order_keys srt (map (\<lambda>(k, v). (k, json_dumps srt ascii fr v)) d))) @ ''}''"
  by pat_completeness auto

termination
  by (relation "measure (\<lambda>(_, _, _, v). size v)")
    (auto simp: less_Suc_eq_le intro: size_list_estimation')

text \<open>\<open>sha256(json.dumps(value, sort_keys=True, ensure_ascii=False, ..).encode())\<close>, in hexadecimal.\<close>

definition json_digest :: "(pyval \<Rightarrow> string) \<Rightarrow> pyval \<Rightarrow> string" where
  "json_digest fr v = sha256_hex (json_dumps True False fr v)"

section \<open>Canonical JSON determines its strings\<close>

definition hex_value :: "char \<Rightarrow> nat" where
  "hex_value c = (if code_point c < 58 then code_point c - 48 else code_point c - 87)"

fun json_uncons :: "string \<Rightarrow> char \<times> string" where
  "json_uncons (a # b # x) =
     (if code_point a \<noteq> 92 then (a, b # x)
      else if b = CHR ''n'' then (char_of (10 :: nat), x)
      else if b = CHR ''r'' then (char_of (13 :: nat), x)
      else if b = CHR ''t'' then (char_of (9 :: nat), x)
      else if b = CHR ''f'' then (char_of (12 :: nat), x)
      else if b = CHR ''b'' then (char_of (8 :: nat), x)
      else if b = CHR ''u'' then (char_of (16 * hex_value (x ! 2) + hex_value (x ! 3)), drop 4 x)
      else (b, x))"
| "json_uncons [a] = (a, [])"
| "json_uncons [] = (CHR ''?'', [])"

lemma hex_value_digit [simp]: "n < 16 \<Longrightarrow> hex_value (hex_digit n) = n"
  by (auto simp: hex_digit_def hex_value_def)

lemma quote_chars: "char_of (34 :: nat) = CHR 0x22" "char_of (92 :: nat) = CHR 0x5C"
  by code_simp+

lemma json_uncons_char: "x \<noteq> [] \<Longrightarrow> json_uncons (json_char a c @ x) = (c, x)"
proof -
  assume x: "x \<noteq> []"
  define n where "n = code_point c"
  have c: "c = char_of n" by (simp add: n_def)
  consider "n = 34" | "n = 92" | "n = 10" | "n = 13" | "n = 9" | "n = 12" | "n = 8"
    | "n < 32 \<or> a \<and> 127 \<le> n" "n \<notin> {34, 92, 10, 13, 9, 12, 8}"
    | "32 \<le> n" "\<not> (a \<and> 127 \<le> n)" "n \<noteq> 34" "n \<noteq> 92" by force
  then show ?thesis
  proof cases
    case 8
    have "n < 256" unfolding n_def by (rule nat_of_char_less_256)
    with 8 have "16 * (n div 16) + n mod 16 = n" "n div 16 < 16" "n mod 16 < 16" by simp_all
    with 8 show ?thesis
      by (simp add: json_char_def json_unicode_def flip: n_def) (simp add: c)
  next
    case 9
    with x show ?thesis by (cases x) (auto simp: json_char_def Let_def simp flip: n_def)
  qed (simp_all add: json_char_def c quote_chars)
qed

lemma json_chars_inj:
  "concat (map (json_char a) s) @ CHR 34 # x = concat (map (json_char a) t) @ CHR 34 # y \<Longrightarrow> s = t \<and> x = y"
proof (induction s arbitrary: t)
  case Nil
  show ?case
  proof (cases t)
    case (Cons c t')
    have "json_char a c \<noteq> [] \<and> hd (json_char a c) \<noteq> CHR 34"
      by (auto simp: json_char_def json_unicode_def Let_def)
    with Nil Cons show ?thesis by (cases "json_char a c") auto
  qed (use Nil in simp)
next
  case (Cons c s)
  show ?case
  proof (cases t)
    case Nil
    have "json_char a c \<noteq> [] \<and> hd (json_char a c) \<noteq> CHR 34"
      by (auto simp: json_char_def json_unicode_def Let_def)
    with Nil Cons.prems show ?thesis by (cases "json_char a c") auto
  next
    case (Cons d t')
    let ?u = "concat (map (json_char a) s) @ CHR 34 # x" and ?v = "concat (map (json_char a) t') @ CHR 34 # y"
    have "json_char a c @ ?u = json_char a d @ ?v" using Cons.prems Cons by simp
    then have "json_uncons (json_char a c @ ?u) = json_uncons (json_char a d @ ?v)" by (rule arg_cong)
    then have "c = d \<and> ?u = ?v" by (simp add: json_uncons_char)
    with Cons.IH Cons show ?thesis by blast
  qed
qed

lemma json_string_eq [simp]: "json_string a s @ x = json_string a t @ y \<longleftrightarrow> s = t \<and> x = y"
  using json_chars_inj [of a s x t y] by (auto simp: json_string_def)

lemma json_string_inj [simp]: "json_string a s = json_string a t \<longleftrightarrow> s = t"
  using json_string_eq [of a s "[]" t "[]"] by simp

lemma utf8_inj [simp]: "utf8 s = utf8 t \<longleftrightarrow> s = t"
proof (induction s arbitrary: t)
  case Nil
  then show ?case by (cases t) (auto simp: utf8_def Let_def)
next
  case (Cons c s)
  show ?case
  proof (cases t)
    case Nil
    then show ?thesis by (auto simp: utf8_def Let_def)
  next
    case (Cons d t')
    have split: "utf8 (e # r) = (if code_point e < 128 then [code_point e]
        else [192 + code_point e div 64, 128 + code_point e mod 64]) @ utf8 r" for e r
      by (simp add: utf8_def Let_def)
    have "c = d" if "code_point c div 64 = code_point d div 64" "code_point c mod 64 = code_point d mod 64"
      using that by (metis div_mult_mod_eq of_char_eq_iff)
    with Cons.IH [of t'] Cons show ?thesis by (auto simp: split)
  qed
qed

end
