(* ===== verification/Capabilities.thy ===== *)
theory Capabilities
  imports Models Json
begin

text \<open>
  Capability manifests, what a load answers and what an execution returns: the rest of
  \<open>src/src/capabilityhub/models.py\<close>, and the payload measures of \<open>metering.py\<close>. Tuples are
  lists; the freezing of mappings and \<open>__reduce__\<close> have no counterpart in HOL, where values
  are immutable.
\<close>

section \<open>Manifests\<close>

fun kind_value :: "capability_kind \<Rightarrow> string" where
  "kind_value SKILL = ''skill''"
| "kind_value MCP = ''mcp''"
| "kind_value CLI = ''cli''"
| "kind_value API = ''api''"
| "kind_value RAG = ''rag''"

fun operation_type_value :: "operation_type \<Rightarrow> string" where
  "operation_type_value EXPAND = ''expand''"
| "operation_type_value EXECUTE = ''execute''"
| "operation_type_value RETRIEVE = ''retrieve''"

record section_descriptor =
  sd_name :: string
  sd_media_type :: string
  sd_content :: string
  sd_portable_tokens :: int
  sd_sensitive :: bool

record dependency_spec =
  dp_coordinate :: string
  dp_constraint :: string
  dp_optional :: bool

record conflict_spec =
  cf_type :: string
  cf_value :: string

record capability_manifest =
  cm_identity :: capability_identity
  cm_kind :: capability_kind
  cm_summary :: string
  cm_provider :: string
  cm_operations :: "operation_spec list"
  cm_sections :: "section_descriptor list"
  cm_permissions :: "string list"
  cm_dependencies :: "dependency_spec list"
  cm_conflicts :: "conflict_spec list"
  cm_tags :: "string list"
  cm_trust_tier :: string
  cm_source :: string
  cm_metadata :: "(string \<times> pyval) list"

abbreviation manifest_coordinate :: "capability_manifest \<Rightarrow> string" where
  "manifest_coordinate m \<equiv> coordinate_of (cm_identity m)"

abbreviation manifest_revision :: "capability_manifest \<Rightarrow> string" where
  "manifest_revision m \<equiv> revision_of (cm_identity m)"

definition manifest_section :: "capability_manifest \<Rightarrow> string \<Rightarrow> section_descriptor option" where
  "manifest_section m name = find (\<lambda>s. sd_name s = name) (cm_sections m)"

definition manifest_operation :: "capability_manifest \<Rightarrow> string \<Rightarrow> operation_spec option" where
  "manifest_operation m name = find (\<lambda>p. op_name p = name) (cm_operations m)"

lemma manifest_operation_Some:
  "manifest_operation m name = Some p \<Longrightarrow> p \<in> set (cm_operations m) \<and> op_name p = name"
  by (auto simp: manifest_operation_def find_Some_iff)

section \<open>Answers\<close>

datatype omission_kind = Omitted_Section | Omitted_Operation

fun omission_value :: "omission_kind \<Rightarrow> string" where
  "omission_value Omitted_Section = ''section''"
| "omission_value Omitted_Operation = ''operation''"

record capability_notice =
  no_kind :: string
  no_code :: string
  no_attributes :: "(string \<times> pyval) list"

record rehydration_handle =
  rh_kind :: omission_kind
  rh_selector :: string
  rh_reference :: string
  rh_expires :: int

text \<open>\<open>removeprefix\<close> and the checks of \<open>RehydrationHandle.__post_init__\<close>.\<close>

definition remove_prefix :: "string \<Rightarrow> string \<Rightarrow> string" where
  "remove_prefix p s = (if take (length p) s = p then drop (length p) s else s)"

definition hex_char_set :: "string" where
  "hex_char_set = ''0123456789abcdef''"

definition make_handle :: "omission_kind \<Rightarrow> string \<Rightarrow> string \<Rightarrow> int \<Rightarrow> rehydration_handle result" where
  "make_handle kind selector reference expires =
     (let digest = remove_prefix ''sha256:'' selector in
      if length digest \<noteq> 64 \<or> \<not> set digest \<subseteq> set hex_char_set \<or> reference = [] \<or> expires \<le> 0
      then Inl ValueError
      else Inr \<lparr>rh_kind = kind, rh_selector = selector, rh_reference = reference, rh_expires = expires\<rparr>)"

record loaded_capability =
  ld_revision :: string
  ld_sections :: "section_descriptor list"
  ld_operations :: "operation_spec list"
  ld_permissions :: "string list"
  ld_portable_tokens :: int
  ld_execution_ref :: string
  ld_omitted_sections :: "string list"
  ld_omitted_operations :: "string list"
  ld_notices :: "capability_notice list"
  ld_handles :: "rehydration_handle list"
  ld_omitted_section_count :: int
  ld_omitted_operation_count :: int
  ld_omitted_notice_count :: int
  ld_unhandled_omission_count :: int

record execution_result =
  ex_revision :: string
  ex_operation :: string
  ex_output :: pyval
  ex_provider :: string
  ex_portable_tokens :: int
  ex_audit_id :: string

section \<open>Payload measures\<close>

text \<open>
  \<open>fr\<close> renders floats, as \<open>repr\<close> does. Canonical JSON never contains a newline, so the
  normalisation of line ends matters for other texts only.
\<close>

definition canonical_json :: "(pyval \<Rightarrow> string) \<Rightarrow> pyval \<Rightarrow> string" where
  "canonical_json fr v = json_dumps True False fr v"

fun normalize_newlines :: "string \<Rightarrow> string" where
  "normalize_newlines (a # b # s) =
     (if a = CHR 0x0D \<and> b = CHR 0x0A then b # normalize_newlines s else a # normalize_newlines (b # s))"
| "normalize_newlines s = s"

definition portable_tokens :: "string \<Rightarrow> int" where
  "portable_tokens s = (int (length (utf8 (normalize_newlines s))) + 3) div 4"

record payload_measurement =
  pm_utf8_bytes :: int
  pm_portable_tokens :: int

definition measure_text :: "string \<Rightarrow> payload_measurement" where
  "measure_text s = (let normalized = normalize_newlines s in
     \<lparr>pm_utf8_bytes = int (length (utf8 normalized)), pm_portable_tokens = portable_tokens normalized\<rparr>)"

lemma portable_tokens_nonneg [simp]: "0 \<le> portable_tokens s"
  by (simp add: portable_tokens_def)

lemma measure_nonneg [simp]: "0 \<le> pm_utf8_bytes (measure_text s)" "0 \<le> pm_portable_tokens (measure_text s)"
  by (simp_all add: measure_text_def Let_def)

end
