(* ===== verification/Projections.thy ===== *)
theory Projections
  imports Capabilities
begin

text \<open>
  \<open>projections.py\<close>: the claims of a manifest on names and resources, their collisions across
  coordinates and the strategies that settle them. The normalised claims of a driver's
  configuration (ports, file-system roots, HTTP routes: \<open>_driver_claims\<close>) are a parameter of the
  extraction. Normalised texts are kept as the UTF-8 bytes that are hashed.
\<close>

datatype projection_strategy = By_Denial | By_Namespace | By_Isolation | By_Selection

datatype projection_action = Act_Allow | Act_Namespace | Act_Isolate | Act_Selected | Act_Excluded

fun strategy_value :: "projection_strategy \<Rightarrow> string" where
  "strategy_value By_Denial = ''deny''"
| "strategy_value By_Namespace = ''namespace''"
| "strategy_value By_Isolation = ''isolate''"
| "strategy_value By_Selection = ''select-one''"

fun action_value :: "projection_action \<Rightarrow> string" where
  "action_value Act_Allow = ''allow''"
| "action_value Act_Namespace = ''namespace''"
| "action_value Act_Isolate = ''isolate''"
| "action_value Act_Selected = ''selected''"
| "action_value Act_Excluded = ''excluded''"

record projection_policy =
  pp_strategy :: projection_strategy
  pp_selected :: "string option"

record projection_claim =
  pj_type :: string
  pj_resource :: string
  pj_coordinate :: string
  pj_revision :: string
  pj_kind :: string

record projection_collision =
  pc_type :: string
  pc_resource :: string
  pc_coordinates :: "string list"

record projection_decision =
  pd_claim :: projection_claim
  pd_action :: projection_action
  pd_effective :: string

record projection_resolution =
  pr_strategy :: projection_strategy
  pr_claims :: "projection_claim list"
  pr_collisions :: "projection_collision list"
  pr_decisions :: "projection_decision list"

definition projection_error :: "string \<Rightarrow> string option \<Rightarrow> exn" where
  "projection_error code claim_type = HubError code CONFLICT False
     (case claim_type of None \<Rightarrow> [] | Some t \<Rightarrow> [(''claim_type'', PyStr t)])"

definition make_projection_policy :: "projection_strategy \<Rightarrow> string option \<Rightarrow> projection_policy result" where
  "make_projection_policy strategy selected =
     (if strategy = By_Selection
      then if selected = None \<or> selected = Some [] then Inl ValueError
           else Inr \<lparr>pp_strategy = strategy, pp_selected = selected\<rparr>
      else if selected \<noteq> None then Inl ValueError
      else Inr \<lparr>pp_strategy = strategy, pp_selected = None\<rparr>)"

section \<open>Claims\<close>

text \<open>
  \<open>str.casefold\<close> of a code point below 256, in UTF-8: the sharp s becomes two letters, the micro
  sign the Greek letter.
\<close>

definition casefold_char :: "char \<Rightarrow> nat list" where
  "casefold_char c = (let n = code_point c in
     if n = 223 then [115, 115] else if n = 181 then [206, 188]
     else if 65 \<le> n \<and> n \<le> 90 \<or> 192 \<le> n \<and> n \<le> 222 \<and> n \<noteq> 215 then utf8 [char_of (n + 32)]
     else utf8 [c])"

definition casefold_utf8 :: "string \<Rightarrow> nat list" where
  "casefold_utf8 s = concat (map casefold_char s)"

definition sha256_hex_bytes :: "nat list \<Rightarrow> string" where
  "sha256_hex_bytes bs = concat (map word_hex (sha256_words bs))"

definition resource_id :: "string \<Rightarrow> nat list \<Rightarrow> string" where
  "resource_id claim_type normalized =
     ''sha256:'' @ sha256_hex_bytes (utf8 ''capabilityhub-projection-v1'' @ 0 # utf8 claim_type @ 0 # normalized)"

definition derived_resource_id :: "string \<Rightarrow> projection_claim \<Rightarrow> string" where
  "derived_resource_id action c =
     resource_id (action @ '':'' @ pj_type c) (utf8 (pj_resource c) @ 0 # utf8 (pj_coordinate c))"

text \<open>\<open>drivers name config\<close> stands for \<open>_driver_claims\<close>.\<close>

type_synonym driver_claims = "string \<Rightarrow> (string \<times> pyval) list \<Rightarrow> (string \<times> nat list) list result"

definition manifest_driver_claims :: "driver_claims \<Rightarrow> capability_manifest \<Rightarrow> (string \<times> nat list) list result" where
  "manifest_driver_claims drivers m =
     (case map_of (cm_metadata m) ''driver'' of
        None \<Rightarrow> Inr []
      | Some PyNone \<Rightarrow> Inr []
      | Some (PyDict d) \<Rightarrow>
          (case (map_of d ''name'', map_of d ''config'') of
             (Some (PyStr name), None) \<Rightarrow>
               if name = [] then Inl (projection_error ''invalid_projection_driver'' None) else drivers name []
           | (Some (PyStr name), Some (PyDict config)) \<Rightarrow>
               if name = [] then Inl (projection_error ''invalid_projection_driver'' None) else drivers name config
           | _ \<Rightarrow> Inl (projection_error ''invalid_projection_driver'' None))
      | Some _ \<Rightarrow> Inl (projection_error ''invalid_projection_driver'' None))"

definition extract_claims :: "driver_claims \<Rightarrow> capability_manifest \<Rightarrow> projection_claim list result" where
  "extract_claims drivers m =
     rbind (manifest_driver_claims drivers m) (\<lambda>extra.
       (let values = (''identity'', casefold_utf8 (manifest_coordinate m))
              # map (\<lambda>p. (''projection_name'', casefold_utf8 (op_name p))) (cm_operations m)
              @ map (\<lambda>p. (''permission_namespace'', casefold_utf8 p)) (cm_permissions m) @ extra
        in Inr (map (\<lambda>(t, v). \<lparr>pj_type = t, pj_resource = resource_id t v, pj_coordinate = manifest_coordinate m,
             pj_revision = manifest_revision m, pj_kind = kind_value (cm_kind m)\<rparr>) (sort (remdups values)))))"

fun extract_all :: "driver_claims \<Rightarrow> capability_manifest list \<Rightarrow> projection_claim list result" where
  "extract_all drivers [] = Inr []"
| "extract_all drivers (m # ms) = rbind (extract_claims drivers m) (\<lambda>cs.
     rbind (extract_all drivers ms) (\<lambda>rest. Inr (cs @ rest)))"

section \<open>Resolution\<close>

definition claim_order :: "projection_claim \<Rightarrow> string \<times> string \<times> string \<times> string" where
  "claim_order c = (pj_type c, pj_resource c, pj_coordinate c, pj_revision c)"

definition claim_key :: "projection_claim \<Rightarrow> string \<times> string" where
  "claim_key c = (pj_type c, pj_resource c)"

definition collision_key :: "projection_collision \<Rightarrow> string \<times> string" where
  "collision_key x = (pc_type x, pc_resource x)"

definition claimants :: "projection_claim list \<Rightarrow> string \<times> string \<Rightarrow> string list" where
  "claimants cs k = sort (remdups (map pj_coordinate (filter (\<lambda>c. claim_key c = k) cs)))"

definition find_collisions :: "projection_claim list \<Rightarrow> projection_collision list" where
  "find_collisions cs =
     map (\<lambda>(t, r). \<lparr>pc_type = t, pc_resource = r, pc_coordinates = claimants cs (t, r)\<rparr>)
       (filter (\<lambda>k. 1 < length (claimants cs k)) (sort (remdups (map claim_key cs))))"

definition namespaceable :: "string list" where
  "namespaceable = [''identity'', ''projection_name'', ''permission_namespace'']"

definition decide_claim ::
  "projection_policy \<Rightarrow> projection_collision list \<Rightarrow> projection_claim \<Rightarrow> projection_decision" where
  "decide_claim policy collisions c =
     (if claim_key c \<notin> collision_key ` set collisions
      then \<lparr>pd_claim = c, pd_action = Act_Allow, pd_effective = pj_resource c\<rparr>
      else if pp_strategy policy = By_Namespace
      then \<lparr>pd_claim = c, pd_action = Act_Namespace, pd_effective = derived_resource_id ''namespace'' c\<rparr>
      else if pp_strategy policy = By_Isolation
      then \<lparr>pd_claim = c, pd_action = Act_Isolate, pd_effective = derived_resource_id ''isolate'' c\<rparr>
      else if Some (pj_coordinate c) = pp_selected policy
      then \<lparr>pd_claim = c, pd_action = Act_Selected, pd_effective = pj_resource c\<rparr>
      else \<lparr>pd_claim = c, pd_action = Act_Excluded, pd_effective = derived_resource_id ''excluded'' c\<rparr>)"

definition resolve_projections ::
  "driver_claims \<Rightarrow> projection_policy \<Rightarrow> capability_manifest list \<Rightarrow> projection_resolution result" where
  "resolve_projections drivers policy manifests =
     rbind (extract_all drivers (sort_key (\<lambda>m. (manifest_coordinate m, manifest_revision m)) manifests)) (\<lambda>raw.
       (let claims = sort_key claim_order raw;
            collisions = find_collisions claims;
            blocked = find (\<lambda>x. pc_type x \<notin> set namespaceable) collisions
        in if collisions \<noteq> [] \<and> pp_strategy policy = By_Denial
           then Inl (projection_error ''projection_conflict'' (Some (pc_type (hd collisions))))
           else if pp_strategy policy = By_Namespace \<and> blocked \<noteq> None
           then Inl (projection_error ''projection_not_namespaceable'' (map_option pc_type blocked))
           else if pp_strategy policy = By_Selection \<and>
             (\<exists>x \<in> set collisions. \<forall>c \<in> set (pc_coordinates x). Some c \<noteq> pp_selected policy)
           then Inl (projection_error ''selected_coordinate_not_claimant'' None)
           else Inr \<lparr>pr_strategy = pp_strategy policy, pr_claims = claims, pr_collisions = collisions,
             pr_decisions = map (decide_claim policy collisions) claims\<rparr>))"

definition excluded_coordinates :: "projection_resolution \<Rightarrow> string set" where
  "excluded_coordinates r =
     set (map (pj_coordinate \<circ> pd_claim) (filter (\<lambda>d. pd_action d = Act_Excluded) (pr_decisions r)))"

text \<open>The digest prints the decisions with \<open>ensure_ascii\<close>.\<close>

definition resolution_digest :: "projection_resolution \<Rightarrow> string" where
  "resolution_digest r = ''sha256:'' @ sha256_hex (json_dumps False True (\<lambda>_. [])
     (PyList (map (\<lambda>d. PyList [PyStr (pj_type (pd_claim d)), PyStr (pj_resource (pd_claim d)),
        PyStr (pj_coordinate (pd_claim d)), PyStr (action_value (pd_action d)), PyStr (pd_effective d)])
      (pr_decisions r))))"

section \<open>What a resolution leaves\<close>

lemma collision_keys: "collision_key ` set (find_collisions cs) = {k \<in> claim_key ` set cs. 1 < length (claimants cs k)}"
  by (force simp: find_collisions_def collision_key_def)

lemma length_claimants: "length (claimants cs k) = card (pj_coordinate ` {c \<in> set cs. claim_key c = k})"
  by (simp add: claimants_def length_remdups_card_conv)

text \<open>A claim collides exactly when another coordinate claims the same resource.\<close>

lemma collides_iff:
  assumes "c \<in> set cs"
  shows "claim_key c \<in> collision_key ` set (find_collisions cs) \<longleftrightarrow>
    (\<exists>d \<in> set cs. claim_key d = claim_key c \<and> pj_coordinate d \<noteq> pj_coordinate c)"
proof -
  let ?A = "pj_coordinate ` {d \<in> set cs. claim_key d = claim_key c}"
  have fin: "finite ?A" and mem: "pj_coordinate c \<in> ?A" using assms by auto
  have "1 < card ?A \<longleftrightarrow> (\<exists>x \<in> ?A. x \<noteq> pj_coordinate c)"
  proof
    assume "1 < card ?A"
    then have "\<not> ?A \<subseteq> {pj_coordinate c}" by (metis card_mono finite.emptyI finite_insert is_singletonI is_singleton_altdef not_le)
    then show "\<exists>x \<in> ?A. x \<noteq> pj_coordinate c" by blast
  next
    assume "\<exists>x \<in> ?A. x \<noteq> pj_coordinate c"
    then obtain x where "x \<in> ?A" "x \<noteq> pj_coordinate c" by blast
    with mem have "{x, pj_coordinate c} \<subseteq> ?A" "card {x, pj_coordinate c} = 2" by auto
    with fin show "1 < card ?A" by (metis card_mono numeral_2_eq_2 Suc_le_eq One_nat_def)
  qed
  with assms show ?thesis
    unfolding collision_keys by (auto simp: length_claimants)
qed

text \<open>
  The contract of a resolution: two coordinates never hold the same resource of the same kind.
  Whatever two claims on one resource of different coordinates are decided, at most one keeps it.
\<close>

lemma resolution_unshared:
  assumes r: "resolve_projections drivers policy ms = Inr r"
    and mem: "d \<in> set (pr_decisions r)" "e \<in> set (pr_decisions r)"
    and same: "claim_key (pd_claim d) = claim_key (pd_claim e)"
    and differ: "pj_coordinate (pd_claim d) \<noteq> pj_coordinate (pd_claim e)"
  shows "\<not> (pd_action d \<in> {Act_Allow, Act_Selected} \<and> pd_action e \<in> {Act_Allow, Act_Selected})"
proof -
  from r obtain claims where c: "pr_claims r = claims" "pr_decisions r = map (decide_claim policy (find_collisions claims)) claims"
    by (auto simp: resolve_projections_def rbind_eq_Inr Let_def split: if_splits)
  have dec: "pd_claim (decide_claim policy xs y) = y" for xs y by (simp add: decide_claim_def)
  from c mem have "pd_claim d \<in> set claims" "pd_claim e \<in> set claims"
    and de: "d = decide_claim policy (find_collisions claims) (pd_claim d)" "e = decide_claim policy (find_collisions claims) (pd_claim e)"
    by (auto simp: dec)
  then have "claim_key (pd_claim d) \<in> collision_key ` set (find_collisions claims)"
    "claim_key (pd_claim e) \<in> collision_key ` set (find_collisions claims)"
    using same differ by (subst collides_iff; auto)+
  with de have
    "pd_action d \<in> {Act_Allow, Act_Selected} \<Longrightarrow> Some (pj_coordinate (pd_claim d)) = pp_selected policy"
    "pd_action e \<in> {Act_Allow, Act_Selected} \<Longrightarrow> Some (pj_coordinate (pd_claim e)) = pp_selected policy"
    by (metis (no_types, lifting) decide_claim_def insertE projection_action.distinct projection_decision.select_convs(2) singletonD)+
  with differ show ?thesis by (metis option.inject)
qed

text \<open>With the strategy that denies, a resolution exists only without any collision.\<close>

lemma denial_resolves_iff:
  assumes "pp_strategy policy = By_Denial"
    and "extract_all drivers (sort_key (\<lambda>m. (manifest_coordinate m, manifest_revision m)) ms) = Inr raw"
  shows "(\<exists>r. resolve_projections drivers policy ms = Inr r) \<longleftrightarrow>
    (\<forall>c \<in> set raw. \<forall>d \<in> set raw. claim_key c = claim_key d \<longrightarrow> pj_coordinate c = pj_coordinate d)"
proof -
  have "find_collisions (sort_key claim_order raw) = [] \<longleftrightarrow> collision_key ` set (find_collisions (sort_key claim_order raw)) = {}"
    by simp
  also have "\<dots> \<longleftrightarrow> (\<forall>c \<in> set raw. claim_key c \<notin> collision_key ` set (find_collisions (sort_key claim_order raw)))"
    unfolding collision_keys by fastforce
  also have "\<dots> \<longleftrightarrow> (\<forall>c \<in> set raw. \<forall>d \<in> set raw. claim_key d = claim_key c \<longrightarrow> pj_coordinate d = pj_coordinate c)"
    by (rule ball_cong [OF refl]) (subst collides_iff, auto)
  finally have "find_collisions (sort_key claim_order raw) = [] \<longleftrightarrow>
    (\<forall>c \<in> set raw. \<forall>d \<in> set raw. claim_key d = claim_key c \<longrightarrow> pj_coordinate d = pj_coordinate c)" .
  moreover have "(\<exists>r. resolve_projections drivers policy ms = Inr r) \<longleftrightarrow> find_collisions (sort_key claim_order raw) = []"
    using assms by (simp add: resolve_projections_def Let_def)
  ultimately show ?thesis by metis
qed

text \<open>Isolation, the registry's default, settles every collision.\<close>

lemma isolation_resolves:
  assumes "pp_strategy policy = By_Isolation"
    and "extract_all drivers (sort_key (\<lambda>m. (manifest_coordinate m, manifest_revision m)) ms) = Inr raw"
  shows "\<exists>r. resolve_projections drivers policy ms = Inr r \<and> excluded_coordinates r = {}"
proof -
  have "pd_action (decide_claim policy cs c) \<noteq> Act_Excluded" for cs c
    using assms(1) by (simp add: decide_claim_def)
  then show ?thesis
    using assms by (auto simp: resolve_projections_def Let_def excluded_coordinates_def)
qed

end
