(* ===== verification/Registry.thy ===== *)
theory Registry
  imports Projections "HOL-Library.Option_ord"
begin

text \<open>
  \<open>registry.py\<close>: immutable capability revisions, activation pointers, and the validation of the
  dependency graph. Dictionaries are association lists in insertion order; the driver claims of the
  projections are the parameter \<open>drivers\<close>. Python's limits on the recursion depth and on the digits
  \<open>int\<close> reads are not modelled.
\<close>

record registry =
  rg_revisions :: "(string \<times> capability_manifest) list"
  rg_by_coordinate :: "(string \<times> string list) list"
  rg_active :: "(string \<times> string) list"
  rg_by_kind :: "capability_kind \<Rightarrow> string set"
  rg_frozen :: bool
  rg_policy :: projection_policy
  rg_resolution :: projection_resolution

definition reg_input :: "string \<Rightarrow> exn" where
  "reg_input code = HubError code INPUT False []"

definition reg_reference :: "string \<Rightarrow> (string \<times> pyval) list \<Rightarrow> exn" where
  "reg_reference code details = HubError code REFERENCE False details"

definition reg_dependency :: "string \<Rightarrow> (string \<times> pyval) list \<Rightarrow> exn" where
  "reg_dependency code details = HubError code DEPENDENCY False details"

definition reg_conflict :: "string \<Rightarrow> (string \<times> pyval) list \<Rightarrow> exn" where
  "reg_conflict code details = HubError code CONFLICT False details"

section \<open>Versions\<close>

text \<open>The pattern \<open>_SEMVER_RE\<close>: digits, up to two further groups after dots, a suffix.\<close>

definition read_digits :: "string \<Rightarrow> string \<times> string" where
  "read_digits s = (takeWhile is_digit s, dropWhile is_digit s)"

definition decimal :: "string \<Rightarrow> int" where
  "decimal ds = foldl (\<lambda>n c. 10 * n + int (code_point c - 48)) 0 ds"

fun dot_group :: "string \<Rightarrow> int \<times> string" where
  "dot_group [] = (0, [])"
| "dot_group (c # s) =
     (if c = CHR ''.'' \<and> takeWhile is_digit s \<noteq> []
      then (decimal (takeWhile is_digit s), dropWhile is_digit s) else (0, c # s))"

definition version_suffix :: "string \<Rightarrow> bool" where
  "version_suffix s \<longleftrightarrow> s = [] \<or> (hd s = CHR ''-'' \<or> hd s = CHR ''+'') \<and> CHR 0x0A \<notin> set s"

definition version_number :: "string \<Rightarrow> (int \<times> int \<times> int) option" where
  "version_number s =
     (let (major, r) = read_digits s; (minor, r') = dot_group r;
          (patch, r'') = (if r' = r then (0, r') else dot_group r')
      in if major = [] \<or> \<not> version_suffix r'' then None else Some (decimal major, minor, patch))"

definition revision_order :: "capability_manifest \<Rightarrow> (int \<times> int \<times> int \<times> string) \<times> string" where
  "revision_order m =
     (let version = ci_version (cm_identity m) in
      ((case version_number version of None \<Rightarrow> (-1, -1, -1, version)
        | Some (a, b, c) \<Rightarrow> (a, b, c, version)), manifest_revision m))"

text \<open>\<open>max\<close> keeps the first of equal elements.\<close>

fun max_by :: "('a \<Rightarrow> 'k::linorder) \<Rightarrow> 'a \<Rightarrow> 'a list \<Rightarrow> 'a" where
  "max_by f x [] = x"
| "max_by f x (y # ys) = max_by f (if f x < f y then y else x) ys"

text \<open>\<open>str.split()\<close>.\<close>

fun split_words :: "string \<Rightarrow> string \<Rightarrow> string list" where
  "split_words acc [] = (if acc = [] then [] else [acc])"
| "split_words acc (c # s) =
     (if is_space c then (if acc = [] then split_words [] s else acc # split_words [] s)
      else split_words (acc @ [c]) s)"

fun version_expression :: "int \<times> int \<times> int \<Rightarrow> string \<Rightarrow> bool" where
  "version_expression (a, b, c) e =
     (case e of
        [] \<Rightarrow> False
      | x # r \<Rightarrow>
        if x = CHR ''^'' then
          (case version_number r of None \<Rightarrow> False | Some (l1, l2, l3) \<Rightarrow> \<not> (a, b, c) < (l1, l2, l3) \<and> a = l1)
        else if x = CHR ''~'' then
          (case version_number r of None \<Rightarrow> False
           | Some (l1, l2, l3) \<Rightarrow> \<not> (a, b, c) < (l1, l2, l3) \<and> a = l1 \<and> b = l2)
        else if take 2 e = ''>='' then
          (case version_number (drop 2 e) of None \<Rightarrow> False | Some t \<Rightarrow> t \<le> (a, b, c))
        else if take 2 e = ''<='' then
          (case version_number (drop 2 e) of None \<Rightarrow> False | Some t \<Rightarrow> (a, b, c) \<le> t)
        else if x = CHR ''>'' then
          (case version_number r of None \<Rightarrow> False | Some t \<Rightarrow> t < (a, b, c))
        else if x = CHR ''<'' then
          (case version_number r of None \<Rightarrow> False | Some t \<Rightarrow> (a, b, c) < t)
        else version_number e = Some (a, b, c))"

definition satisfies :: "string \<Rightarrow> dependency_spec \<Rightarrow> bool" where
  "satisfies version d =
     (let constraint = strip (dp_constraint d) in
      if constraint = [] \<or> constraint = ''*'' then True
      else case version_number version of
        None \<Rightarrow> constraint = version
      | Some candidate \<Rightarrow> list_all (version_expression candidate) (split_words [] constraint))"

section \<open>Cycles\<close>

text \<open>
  \<open>_raise_on_cycle\<close>. \<open>path\<close> is both \<open>path\<close> and \<open>visiting\<close>; the targets are visited in order, and
  a node the graph does not have raises \<open>KeyError\<close>.
\<close>

definition cycle_from :: "string list \<Rightarrow> string \<Rightarrow> exn" where
  "cycle_from path node = reg_dependency ''dependency_cycle''
     [(''cycle'', PyList (map PyStr (dropWhile (\<lambda>x. x \<noteq> node) path @ [node])))]"

function visit_all ::
  "(string \<times> string list) list \<Rightarrow> string list \<Rightarrow> string set \<Rightarrow> string list \<Rightarrow> string set result" where
  "visit_all graph path visited [] = Inr visited"
| "visit_all graph path visited (node # nodes) =
     (if node \<in> set path then Inl (cycle_from path node)
      else if node \<in> visited then visit_all graph path visited nodes
      else (case map_of graph node of
          None \<Rightarrow> Inl KeyError
        | Some targets \<Rightarrow>
            (case visit_all graph (path @ [node]) visited targets of
               Inl e \<Rightarrow> Inl e
             | Inr visited' \<Rightarrow> visit_all graph path (insert node visited') nodes)))"
  by pat_completeness auto

termination
proof (relation "measures [\<lambda>(graph, path, visited, nodes). card (fst ` set graph - set path),
      \<lambda>(graph, path, visited, nodes). length nodes]", goal_cases)
  case (3 graph path visited node nodes targets)
  then have "node \<in> fst ` set graph" by (metis domI dom_map_of_conv_image_fst)
  with 3 have "fst ` set graph - set (path @ [node]) \<subset> fst ` set graph - set path" by auto
  then have "card (fst ` set graph - set (path @ [node])) < card (fst ` set graph - set path)"
    by (rule psubset_card_mono [rotated]) simp
  then show ?case by simp
qed auto

definition raise_on_cycle :: "(string \<times> string list) list \<Rightarrow> unit result" where
  "raise_on_cycle graph = rbind (visit_all graph [] {} (sort (map fst graph))) (\<lambda>_. Inr ())"

section \<open>Validation\<close>

fun dependency_targets ::
  "bool \<Rightarrow> (string \<times> capability_manifest) list \<Rightarrow> string \<Rightarrow> dependency_spec list \<Rightarrow> string list result" where
  "dependency_targets require_active selected coordinate [] = Inr []"
| "dependency_targets require_active selected coordinate (d # ds) =
     (case map_of selected (dp_coordinate d) of
        None \<Rightarrow>
          if dp_optional d then dependency_targets require_active selected coordinate ds
          else Inl (reg_dependency ''missing_dependency''
            [(''capability'', PyStr coordinate), (''dependency'', PyStr (dp_coordinate d))])
      | Some target \<Rightarrow>
          if \<not> satisfies (ci_version (cm_identity target)) d then
            (if dp_optional d then dependency_targets require_active selected coordinate ds
             else Inl (reg_dependency ''unsatisfied_dependency_version''
               [(''capability'', PyStr coordinate), (''dependency'', PyStr (dp_coordinate d)),
                (''constraint'', PyStr (dp_constraint d)), (''found'', PyStr (ci_version (cm_identity target)))]))
          else rbind (dependency_targets require_active selected coordinate ds)
            (\<lambda>ts. Inr (dp_coordinate d # ts)))"

fun dependency_graph ::
  "bool \<Rightarrow> (string \<times> capability_manifest) list \<Rightarrow> (string \<times> capability_manifest) list \<Rightarrow>
   (string \<times> string list) list result" where
  "dependency_graph require_active selected [] = Inr []"
| "dependency_graph require_active selected ((coordinate, m) # rest) =
     rbind (dependency_targets require_active selected coordinate (sort_key dp_coordinate (cm_dependencies m))) (\<lambda>ts.
       rbind (dependency_graph require_active selected rest) (\<lambda>g. Inr ((coordinate, ts) # g)))"

definition validate_dependencies :: "bool \<Rightarrow> (string \<times> capability_manifest) list \<Rightarrow> unit result" where
  "validate_dependencies require_active selected =
     rbind (dependency_graph require_active selected (sort_key fst selected)) raise_on_cycle"

definition safe_conflict_digest :: "string \<Rightarrow> string \<Rightarrow> string" where
  "safe_conflict_digest t v = ''sha256:'' @ sha256_hex_bytes
     (utf8 ''capabilityhub-conflict-v1'' @ 0 # utf8 t @ 0 # utf8 v)"

fun claim_conflicts ::
  "string \<Rightarrow> conflict_spec list \<Rightarrow> (string \<times> string \<rightharpoonup> string) \<Rightarrow> (string \<times> string \<rightharpoonup> string) result" where
  "claim_conflicts coordinate [] claims = Inr claims"
| "claim_conflicts coordinate (c # cs) claims =
     (case claims (cf_type c, cf_value c) of
        Some previous \<Rightarrow>
          if previous \<noteq> coordinate then Inl (reg_conflict ''capability_conflict''
            [(''conflict_type'', PyStr (cf_type c)), (''value_digest'', PyStr (safe_conflict_digest (cf_type c) (cf_value c))),
             (''coordinates'', PyList [PyStr previous, PyStr coordinate])])
          else claim_conflicts coordinate cs (claims((cf_type c, cf_value c) \<mapsto> coordinate))
      | None \<Rightarrow> claim_conflicts coordinate cs (claims((cf_type c, cf_value c) \<mapsto> coordinate)))"

fun claim_all_conflicts ::
  "(string \<times> capability_manifest) list \<Rightarrow> (string \<times> string \<rightharpoonup> string) \<Rightarrow> (string \<times> string \<rightharpoonup> string) result" where
  "claim_all_conflicts [] claims = Inr claims"
| "claim_all_conflicts ((coordinate, m) # rest) claims =
     rbind (claim_conflicts coordinate (sort_key (\<lambda>c. (cf_type c, cf_value c)) (cm_conflicts m)) claims)
       (claim_all_conflicts rest)"

definition validate_conflicts :: "(string \<times> capability_manifest) list \<Rightarrow> unit result" where
  "validate_conflicts selected = rbind (claim_all_conflicts (sort_key fst selected) Map.empty) (\<lambda>_. Inr ())"

section \<open>Operations\<close>

definition find_revision :: "registry \<Rightarrow> string \<Rightarrow> capability_manifest result" where
  "find_revision rg revision =
     (case map_of (rg_revisions rg) revision of
        Some m \<Rightarrow> Inr m
      | None \<Rightarrow> Inl (reg_reference ''unknown_revision'' [(''revision'', PyStr revision)]))"

fun find_all :: "registry \<Rightarrow> (string \<times> string) list \<Rightarrow> (string \<times> capability_manifest) list result" where
  "find_all rg [] = Inr []"
| "find_all rg ((coordinate, revision) # rest) =
     rbind (find_revision rg revision) (\<lambda>m. rbind (find_all rg rest) (\<lambda>ms. Inr ((coordinate, m) # ms)))"

definition active_manifest :: "registry \<Rightarrow> string \<Rightarrow> capability_manifest result" where
  "active_manifest rg coordinate =
     (case Option.bind (map_of (rg_active rg) coordinate) (map_of (rg_revisions rg)) of
        Some m \<Rightarrow> Inr m
      | None \<Rightarrow> Inl (reg_reference ''inactive_capability'' [(''coordinate'', PyStr coordinate)]))"

definition revisions_for :: "registry \<Rightarrow> string \<Rightarrow> capability_manifest list" where
  "revisions_for rg coordinate =
     List.map_filter (map_of (rg_revisions rg))
       (case map_of (rg_by_coordinate rg) coordinate of None \<Rightarrow> [] | Some rs \<Rightarrow> rs)"

definition by_kind :: "registry \<Rightarrow> capability_kind \<Rightarrow> capability_manifest list" where
  "by_kind rg kind = List.map_filter (map_of (rg_revisions rg))
     (sort (filter (\<lambda>r. r \<in> rg_by_kind rg kind) (map fst (rg_revisions rg))))"

definition active_digest :: "registry \<Rightarrow> string" where
  "active_digest rg = ''sha256:'' @ sha256_hex (json_dumps True True (\<lambda>_. [])
     (PyDict (map (\<lambda>(c, r). (c, PyStr r)) (rg_active rg))))"

definition group_by_coordinate :: "capability_manifest list \<Rightarrow> (string \<times> capability_manifest list) list" where
  "group_by_coordinate ms =
     map (\<lambda>c. (c, filter (\<lambda>m. manifest_coordinate m = c) ms)) (sort (remdups (map manifest_coordinate ms)))"

fun best_revision :: "capability_manifest list \<Rightarrow> capability_manifest option" where
  "best_revision [] = None"
| "best_revision (m # ms) = Some (max_by revision_order m ms)"

definition selected_manifests :: "capability_manifest list \<Rightarrow> (string \<times> capability_manifest) list" where
  "selected_manifests ms = List.map_filter (\<lambda>(c, xs). map_option (Pair c) (best_revision xs)) (group_by_coordinate ms)"

text \<open>\<open>_rebuild_indexes\<close>: coordinates in the order of their first revision.\<close>

definition index_coordinates :: "(string \<times> capability_manifest) list \<Rightarrow> (string \<times> string list) list" where
  "index_coordinates revisions =
     map (\<lambda>c. (c, map fst (sort_key (\<lambda>p. revision_order (snd p)) (filter (\<lambda>p. manifest_coordinate (snd p) = c) revisions))))
       (rev (remdups (rev (map (\<lambda>p. manifest_coordinate (snd p)) revisions))))"

definition rebuild_indexes :: "registry \<Rightarrow> registry" where
  "rebuild_indexes rg = rg\<lparr>rg_by_coordinate := index_coordinates (rg_revisions rg),
     rg_by_kind := (\<lambda>k. {r. \<exists>m. (r, m) \<in> set (rg_revisions rg) \<and> cm_kind m = k})\<rparr>"

definition new_registry :: "driver_claims \<Rightarrow> projection_policy option \<Rightarrow> registry result" where
  "new_registry drivers policy =
     (let p = (case policy of Some p \<Rightarrow> p | None \<Rightarrow> \<lparr>pp_strategy = By_Isolation, pp_selected = None\<rparr>)
      in rbind (resolve_projections drivers p []) (\<lambda>r.
        Inr \<lparr>rg_revisions = [], rg_by_coordinate = [], rg_active = [], rg_by_kind = (\<lambda>_. {}), rg_frozen = False,
          rg_policy = p, rg_resolution = r\<rparr>))"

definition freeze_registry :: "registry \<Rightarrow> registry" where
  "freeze_registry rg = rg\<lparr>rg_frozen := True\<rparr>"

definition ensure_mutable :: "registry \<Rightarrow> unit result" where
  "ensure_mutable rg = (if rg_frozen rg then Inl (reg_conflict ''registry_frozen'' []) else Inr ())"

fun stage_revisions ::
  "capability_manifest list \<Rightarrow> (string \<times> capability_manifest) list \<Rightarrow> (string \<times> capability_manifest) list result" where
  "stage_revisions [] staged = Inr staged"
| "stage_revisions (m # ms) staged =
     (case map_of staged (manifest_revision m) of
        Some existing \<Rightarrow>
          if existing \<noteq> m
          then Inl (reg_conflict ''duplicate_revision'' [(''revision'', PyStr (manifest_revision m))])
          else stage_revisions ms (AList.update (manifest_revision m) m staged)
      | None \<Rightarrow> stage_revisions ms (AList.update (manifest_revision m) m staged))"

definition register_many ::
  "driver_claims \<Rightarrow> registry \<Rightarrow> capability_manifest list \<Rightarrow> capability_manifest list result \<times> registry" where
  "register_many drivers rg additions =
     (case rbind (ensure_mutable rg) (\<lambda>_. rbind (stage_revisions additions (rg_revisions rg)) (\<lambda>staged.
        rbind (resolve_projections drivers (rg_policy rg) (map snd (selected_manifests (map snd staged))))
          (\<lambda>r. Inr (staged, r)))) of
        Inl e \<Rightarrow> (Inl e, rg)
      | Inr (staged, r) \<Rightarrow>
          (Inr additions, (rebuild_indexes (rg\<lparr>rg_revisions := staged\<rparr>))\<lparr>rg_resolution := r\<rparr>))"

definition validate_pointers ::
  "driver_claims \<Rightarrow> registry \<Rightarrow> (string \<times> string) list \<Rightarrow> unit result" where
  "validate_pointers drivers rg active =
     rbind (find_all rg active) (\<lambda>selected.
     rbind (validate_dependencies True selected) (\<lambda>_.
     rbind (validate_conflicts selected) (\<lambda>_.
     rbind (resolve_projections drivers (rg_policy rg) (map snd selected)) (\<lambda>_. Inr ()))))"

definition active_candidate :: "registry \<Rightarrow> string \<Rightarrow> string result" where
  "active_candidate rg coordinate =
     (case map_of (rg_by_coordinate rg) coordinate of
        Some (r # rs) \<Rightarrow>
          Inr (max_by (\<lambda>x. map_option revision_order (map_of (rg_revisions rg) x)) r rs)
      | _ \<Rightarrow> Inl (reg_reference ''unknown_coordinate'' [(''coordinate'', PyStr coordinate)]))"

definition activate_pointer ::
  "driver_claims \<Rightarrow> registry \<Rightarrow> string \<Rightarrow> string option \<Rightarrow> capability_manifest result \<times> registry" where
  "activate_pointer drivers rg coordinate revision =
     (case rbind (ensure_mutable rg) (\<lambda>_.
        rbind (case revision of None \<Rightarrow> active_candidate rg coordinate | Some r \<Rightarrow> Inr r) (\<lambda>chosen.
        rbind (find_revision rg chosen) (\<lambda>m.
          (if manifest_coordinate m \<noteq> coordinate then Inl (reg_input ''activation_coordinate_mismatch'')
           else if coordinate \<in> excluded_coordinates (rg_resolution rg)
           then Inl (reg_conflict ''projection_coordinate_excluded''
             [(''projection_digest'', PyStr (resolution_digest (rg_resolution rg)))])
           else (let candidate = filter (\<lambda>(c, _). c \<notin> excluded_coordinates (rg_resolution rg))
                   (AList.update coordinate chosen (rg_active rg))
             in rbind (validate_pointers drivers rg candidate) (\<lambda>_. Inr (m, candidate))))))) of
        Inl e \<Rightarrow> (Inl e, rg)
      | Inr (m, candidate) \<Rightarrow> (Inr m, rg\<lparr>rg_active := candidate\<rparr>))"

definition deactivate_pointer :: "driver_claims \<Rightarrow> registry \<Rightarrow> string \<Rightarrow> unit result \<times> registry" where
  "deactivate_pointer drivers rg coordinate =
     (case rbind (ensure_mutable rg) (\<lambda>_.
        (if map_of (rg_active rg) coordinate = None
         then Inl (reg_reference ''inactive_capability'' [(''coordinate'', PyStr coordinate)])
         else validate_pointers drivers rg (AList.delete coordinate (rg_active rg)))) of
        Inl e \<Rightarrow> (Inl e, rg)
      | Inr _ \<Rightarrow> (Inr (), rg\<lparr>rg_active := AList.delete coordinate (rg_active rg)\<rparr>))"

text \<open>\<open>validate_staged\<close>; \<open>None\<close> selects every revision.\<close>

fun find_list :: "registry \<Rightarrow> string list \<Rightarrow> capability_manifest list result" where
  "find_list rg [] = Inr []"
| "find_list rg (r # rs) = rbind (find_revision rg r) (\<lambda>m. rbind (find_list rg rs) (\<lambda>ms. Inr (m # ms)))"

definition validate_staged :: "driver_claims \<Rightarrow> registry \<Rightarrow> string list option \<Rightarrow> unit result" where
  "validate_staged drivers rg revisions =
     rbind (find_list rg (case revisions of None \<Rightarrow> map fst (rg_revisions rg) | Some rs \<Rightarrow> rs)) (\<lambda>ms.
       (let selected = selected_manifests ms in
        rbind (validate_dependencies False selected) (\<lambda>_.
        rbind (validate_conflicts selected) (\<lambda>_.
        rbind (resolve_projections drivers (rg_policy rg) (map snd selected)) (\<lambda>_. Inr ())))))"

definition validate_active :: "driver_claims \<Rightarrow> registry \<Rightarrow> unit result" where
  "validate_active drivers rg = validate_pointers drivers rg (rg_active rg)"

section \<open>The cycle check\<close>

definition edges :: "(string \<times> string list) list \<Rightarrow> (string \<times> string) set" where
  "edges graph = {(a, b). \<exists>ts. map_of graph a = Some ts \<and> b \<in> set ts}"

definition closed_under :: "(string \<times> string) set \<Rightarrow> string set \<Rightarrow> bool" where
  "closed_under E V \<longleftrightarrow> E `` V \<subseteq> V"

lemma closed_trancl: "closed_under E V \<Longrightarrow> x \<in> V \<Longrightarrow> (x, y) \<in> E\<^sup>+ \<Longrightarrow> y \<in> V"
  by (rotate_tac 2, induction rule: trancl_induct) (auto simp: closed_under_def)

lemma visit_sound:
  assumes "visit_all graph path visited nodes = Inr v"
    and "closed_under (edges graph) visited" "\<forall>x \<in> visited. (x, x) \<notin> (edges graph)\<^sup>+" "visited \<inter> set path = {}"
  shows "visited \<subseteq> v \<and> set nodes \<subseteq> v \<and> closed_under (edges graph) v \<and>
    (\<forall>x \<in> v. (x, x) \<notin> (edges graph)\<^sup>+) \<and> v \<inter> set path = {}"
  using assms
proof (induction graph path visited nodes arbitrary: v rule: visit_all.induct)
  case (2 graph path visited node nodes)
  from "2.prems"(1) have new: "node \<notin> set path" by (auto split: if_splits)
  show ?case
  proof (cases "node \<in> visited")
    case True
    with "2.prems" new "2.IH"(1) show ?thesis by auto
  next
    case False
    with "2.prems"(1) new obtain targets v1 where t: "map_of graph node = Some targets"
      and inner: "visit_all graph (path @ [node]) visited targets = Inr v1"
      and outer: "visit_all graph path (insert node v1) nodes = Inr v"
      by (auto simp del: map_of_eq_Some_iff split: option.splits sum.splits)
    have "visited \<inter> set (path @ [node]) = {}" using "2.prems"(4) False by auto
    from "2.IH"(2) [OF new False t inner "2.prems"(2,3) this]
    have v1: "visited \<subseteq> v1" "set targets \<subseteq> v1" "closed_under (edges graph) v1"
      "\<forall>x \<in> v1. (x, x) \<notin> (edges graph)\<^sup>+" "v1 \<inter> set (path @ [node]) = {}"
      by auto
    have step: "(node, y) \<in> edges graph \<Longrightarrow> y \<in> set targets" for y
      using t by (auto simp: edges_def simp del: map_of_eq_Some_iff)
    have closed: "closed_under (edges graph) (insert node v1)"
      using v1(2,3) step by (auto simp: closed_under_def)
    have "(node, node) \<notin> (edges graph)\<^sup>+"
    proof
      assume "(node, node) \<in> (edges graph)\<^sup>+"
      then obtain y where y: "(node, y) \<in> edges graph" "y = node \<or> (y, node) \<in> (edges graph)\<^sup>+"
        by (metis tranclD rtranclD)
      then have "y \<in> v1" using step v1(2) by auto
      with y(2) v1(3) closed_trancl [of "edges graph" v1 y node] have "node \<in> v1" by auto
      with v1(5) show False by simp
    qed
    with v1(4) have free: "\<forall>x \<in> insert node v1. (x, x) \<notin> (edges graph)\<^sup>+" by blast
    have "insert node v1 \<inter> set path = {}" using v1(5) new by auto
    from "2.IH"(3) [OF new False t inner outer closed free this] v1 show ?thesis by auto
  qed
qed simp

lemma visit_complete:
  assumes "acyclic (edges graph)" "Range (edges graph) \<subseteq> fst ` set graph"
    and "set nodes \<subseteq> fst ` set graph" "\<forall>p \<in> set path. \<forall>n \<in> set nodes. (p, n) \<in> (edges graph)\<^sup>+"
  shows "\<exists>v. visit_all graph path visited nodes = Inr v"
  using assms
proof (induction graph path visited nodes rule: visit_all.induct)
  case (2 graph path visited node nodes)
  from "2.prems" have new: "node \<notin> set path" by (auto simp: acyclic_def)
  show ?case
  proof (cases "node \<in> visited")
    case True
    with "2.prems" new "2.IH"(1) show ?thesis by auto
  next
    case False
    from "2.prems"(3) obtain targets where t: "map_of graph node = Some targets"
      by (metis domD dom_map_of_conv_image_fst list.set_intros(1) subsetD)
    then have e: "\<forall>y \<in> set targets. (node, y) \<in> edges graph"
      by (auto simp: edges_def simp del: map_of_eq_Some_iff)
    then have "set targets \<subseteq> fst ` set graph" using "2.prems"(2) by blast
    moreover have "\<forall>p \<in> set (path @ [node]). \<forall>n \<in> set targets. (p, n) \<in> (edges graph)\<^sup>+"
      using e "2.prems"(4) by (auto intro: trancl_into_trancl)
    ultimately obtain v1 where inner: "visit_all graph (path @ [node]) visited targets = Inr v1"
      using "2.IH"(2) [OF new False t] "2.prems"(1,2) by blast
    obtain v where "visit_all graph path (insert node v1) nodes = Inr v"
      using "2.IH"(3) [OF new False t inner] "2.prems" by auto
    with new False t inner show ?thesis by (simp del: map_of_eq_Some_iff)
  qed
qed simp

text \<open>The depth-first search accepts exactly the acyclic graphs.\<close>

lemma raise_on_cycle_iff:
  assumes "Range (edges graph) \<subseteq> fst ` set graph"
  shows "raise_on_cycle graph = Inr () \<longleftrightarrow> acyclic (edges graph)"
proof
  assume "raise_on_cycle graph = Inr ()"
  then obtain v where v: "visit_all graph [] {} (sort (map fst graph)) = Inr v"
    by (auto simp: raise_on_cycle_def rbind_eq_Inr)
  have "fst ` set graph \<subseteq> v" "\<forall>x \<in> v. (x, x) \<notin> (edges graph)\<^sup>+"
    using visit_sound [OF v] by (auto simp: closed_under_def)
  moreover have "(x, x) \<in> (edges graph)\<^sup>+ \<Longrightarrow> x \<in> fst ` set graph" for x
    using assms by (meson Range.intros subsetD tranclD2)
  ultimately show "acyclic (edges graph)" by (meson acyclic_def subsetD)
next
  assume "acyclic (edges graph)"
  then show "raise_on_cycle graph = Inr ()"
    using visit_complete [OF _ assms, of "sort (map fst graph)" "[]" "{}"] by (auto simp: raise_on_cycle_def)
qed

section \<open>What validation accepts\<close>

definition dependencies_met :: "(string \<times> capability_manifest) list \<Rightarrow> bool" where
  "dependencies_met selected \<longleftrightarrow> (\<forall>(c, m) \<in> set selected. \<forall>d \<in> set (cm_dependencies m).
     \<not> dp_optional d \<longrightarrow> (\<exists>t. map_of selected (dp_coordinate d) = Some t \<and> satisfies (ci_version (cm_identity t)) d))"

text \<open>The dependencies that count: on a selected coordinate whose version satisfies the constraint.\<close>

definition depends :: "(string \<times> capability_manifest) list \<Rightarrow> (string \<times> string) set" where
  "depends selected = {(c, dp_coordinate d) |c m d t. (c, m) \<in> set selected \<and> d \<in> set (cm_dependencies m) \<and>
     map_of selected (dp_coordinate d) = Some t \<and> satisfies (ci_version (cm_identity t)) d}"

definition conflict_free :: "(string \<times> capability_manifest) list \<Rightarrow> bool" where
  "conflict_free selected \<longleftrightarrow> (\<forall>(c, m) \<in> set selected. \<forall>(c', m') \<in> set selected. c \<noteq> c' \<longrightarrow>
     set (map (\<lambda>x. (cf_type x, cf_value x)) (cm_conflicts m)) \<inter>
     set (map (\<lambda>x. (cf_type x, cf_value x)) (cm_conflicts m')) = {})"

definition target_ok :: "(string \<times> capability_manifest) list \<Rightarrow> dependency_spec \<Rightarrow> bool" where
  "target_ok selected d \<longleftrightarrow>
     (\<exists>t. map_of selected (dp_coordinate d) = Some t \<and> satisfies (ci_version (cm_identity t)) d)"

lemma dependency_targets_Cons: "\<exists>e. dependency_targets act selected c (d # ds) =
    (if target_ok selected d
     then rbind (dependency_targets act selected c ds) (\<lambda>ts. Inr (dp_coordinate d # ts))
     else if dp_optional d then dependency_targets act selected c ds else Inl e)"
  by (cases "map_of selected (dp_coordinate d)") (simp_all add: target_ok_def del: map_of_eq_Some_iff)

lemma dependency_targets_iff:
  "dependency_targets act selected c ds = Inr ts \<longleftrightarrow>
    (\<forall>d \<in> set ds. dp_optional d \<or> target_ok selected d) \<and> ts = map dp_coordinate (filter (target_ok selected) ds)"
proof (induction ds arbitrary: ts)
  case (Cons d ds)
  obtain e where "dependency_targets act selected c (d # ds) = (if target_ok selected d
     then rbind (dependency_targets act selected c ds) (\<lambda>ts. Inr (dp_coordinate d # ts))
     else if dp_optional d then dependency_targets act selected c ds else Inl e)"
    using dependency_targets_Cons by blast
  then show ?case
    by (simp add: rbind_eq_Inr Cons.IH del: dependency_targets.simps) blast
qed auto

lemma dependency_graph_iff:
  "dependency_graph act selected ms = Inr g \<longleftrightarrow>
    (\<forall>(c, m) \<in> set ms. \<forall>d \<in> set (cm_dependencies m). dp_optional d \<or> target_ok selected d) \<and>
    g = map (\<lambda>(c, m). (c, map dp_coordinate (filter (target_ok selected) (sort_key dp_coordinate (cm_dependencies m))))) ms"
proof (induction ms arbitrary: g)
  case (Cons p ms)
  obtain c m where p: "p = (c, m)" by (cases p)
  show ?case
    unfolding p dependency_graph.simps rbind_eq_Inr dependency_targets_iff Cons.IH set_sort by auto
qed auto

theorem validate_dependencies_iff:
  assumes "dict_ok selected"
  shows "validate_dependencies act selected = Inr () \<longleftrightarrow> dependencies_met selected \<and> acyclic (depends selected)"
proof -
  let ?g = "map (\<lambda>(c, m). (c, map dp_coordinate (filter (target_ok selected) (sort_key dp_coordinate (cm_dependencies m)))))
    (sort_key fst selected)"
  have met: "dependencies_met selected \<longleftrightarrow>
      (\<forall>(c, m) \<in> set (sort_key fst selected). \<forall>d \<in> set (cm_dependencies m). dp_optional d \<or> target_ok selected d)"
    by (auto simp: dependencies_met_def target_ok_def simp del: map_of_eq_Some_iff)
  have "dict_ok ?g" using assms by (simp add: case_prod_beta comp_def)
  have edge: "(a, b) \<in> edges ?g \<longleftrightarrow> (a, b) \<in> depends selected" for a b
  proof -
    have "(a, b) \<in> edges ?g \<longleftrightarrow> (\<exists>ts. (a, ts) \<in> set ?g \<and> b \<in> set ts)"
      unfolding edges_def by (simp only: dict_mem_iff [OF \<open>dict_ok ?g\<close>] mem_Collect_eq prod.case)
    also have "\<dots> \<longleftrightarrow> (\<exists>m d. (a, m) \<in> set selected \<and> d \<in> set (cm_dependencies m) \<and> target_ok selected d \<and> b = dp_coordinate d)"
      by force
    also have "\<dots> \<longleftrightarrow> (a, b) \<in> depends selected"
      by (auto simp: depends_def target_ok_def simp del: map_of_eq_Some_iff)
    finally show ?thesis .
  qed
  then have eq: "edges ?g = depends selected" by auto
  have "Range (depends selected) \<subseteq> fst ` set selected"
    unfolding depends_def by (auto simp del: map_of_eq_Some_iff dest!: map_of_SomeD intro: rev_image_eqI)
  then have "Range (edges ?g) \<subseteq> fst ` set ?g" unfolding eq by (auto simp: image_image case_prod_beta)
  from raise_on_cycle_iff [OF this] show ?thesis
    unfolding validate_dependencies_def rbind_eq_Inr dependency_graph_iff met eq by auto
qed

abbreviation conflict_keys :: "conflict_spec list \<Rightarrow> (string \<times> string) set" where
  "conflict_keys cs \<equiv> (\<lambda>x. (cf_type x, cf_value x)) ` set cs"

lemma claim_conflicts_iff:
  "claim_conflicts c cs claims = Inr claims' \<longleftrightarrow> (\<forall>k \<in> conflict_keys cs. claims k \<in> {None, Some c}) \<and>
    claims' = (\<lambda>k. if k \<in> conflict_keys cs then Some c else claims k)"
proof (induction cs arbitrary: claims)
  case (Cons x cs)
  show ?case
  proof (cases "claims (cf_type x, cf_value x) \<in> {None, Some c}")
    case True
    then have "claim_conflicts c (x # cs) claims = claim_conflicts c cs (claims((cf_type x, cf_value x) \<mapsto> c))"
      by auto
    moreover have "(\<lambda>k. if k \<in> conflict_keys cs then Some c else (claims((cf_type x, cf_value x) \<mapsto> c)) k) =
        (\<lambda>k. if k \<in> conflict_keys (x # cs) then Some c else claims k)"
      by (rule ext) simp
    moreover have "(\<forall>k \<in> conflict_keys cs. (claims((cf_type x, cf_value x) \<mapsto> c)) k \<in> {None, Some c}) \<longleftrightarrow>
        (\<forall>k \<in> conflict_keys (x # cs). claims k \<in> {None, Some c})"
      using True by auto
    ultimately show ?thesis by (simp only: Cons.IH)
  qed (auto split: option.splits)
qed auto

lemma claimed_by_other: "c \<noteq> c' \<Longrightarrow> (\<forall>k \<in> A. (if k \<in> B then Some c else claims k) \<in> {None, Some c'}) \<longleftrightarrow>
    A \<inter> B = {} \<and> (\<forall>k \<in> A. claims k \<in> {None, Some c'})"
  by auto

lemma claim_all_iff:
  assumes "dict_ok ms"
  shows "(\<exists>claims'. claim_all_conflicts ms claims = Inr claims') \<longleftrightarrow> conflict_free ms \<and>
    (\<forall>(c, m) \<in> set ms. \<forall>k \<in> conflict_keys (cm_conflicts m). claims k \<in> {None, Some c})"
  using assms
proof (induction ms arbitrary: claims)
  case Nil
  show ?case by (simp add: conflict_free_def)
next
  case (Cons p ms)
  obtain c m where p: "p = (c, m)" by (cases p)
  let ?K = "conflict_keys (cm_conflicts m)"
  let ?claims = "\<lambda>k. if k \<in> ?K then Some c else claims k"
  have other: "c' \<noteq> c" if "(c', m') \<in> set ms" for c' m'
    using Cons.prems that by (force simp: p)
  have step: "(\<exists>claims'. claim_all_conflicts (p # ms) claims = Inr claims') \<longleftrightarrow>
      (\<forall>k \<in> ?K. claims k \<in> {None, Some c}) \<and> (\<exists>claims'. claim_all_conflicts ms ?claims = Inr claims')"
    unfolding p claim_all_conflicts.simps rbind_eq_Inr claim_conflicts_iff set_sort by auto
  define Q where "Q = (\<lambda>(a :: string, x :: capability_manifest) (b :: string, y :: capability_manifest). a \<noteq> b \<longrightarrow> conflict_keys (cm_conflicts x) \<inter> conflict_keys (cm_conflicts y) = {})"
  have cf: "conflict_free xs \<longleftrightarrow> (\<forall>x \<in> set xs. \<forall>y \<in> set xs. Q x y)" for xs
    by (simp add: conflict_free_def Q_def case_prod_beta)
  have "Q x y \<longleftrightarrow> Q y x" "Q p p" for x y by (auto simp: Q_def split: prod.splits)
  then have "conflict_free (p # ms) \<longleftrightarrow> conflict_free ms \<and> (\<forall>x \<in> set ms. Q x p)"
    unfolding cf by auto
  also have "(\<forall>x \<in> set ms. Q x p) \<longleftrightarrow> (\<forall>(c', m') \<in> set ms. conflict_keys (cm_conflicts m') \<inter> ?K = {})"
    using other by (intro ball_cong [OF refl]) (auto simp: Q_def p)
  finally have free: "conflict_free (p # ms) \<longleftrightarrow> conflict_free ms \<and>
      (\<forall>(c', m') \<in> set ms. conflict_keys (cm_conflicts m') \<inter> ?K = {})" .
  have "(\<forall>(c', m') \<in> set ms. \<forall>k \<in> conflict_keys (cm_conflicts m'). ?claims k \<in> {None, Some c'}) \<longleftrightarrow>
      (\<forall>(c', m') \<in> set ms. conflict_keys (cm_conflicts m') \<inter> ?K = {} \<and>
        (\<forall>k \<in> conflict_keys (cm_conflicts m'). claims k \<in> {None, Some c'}))"
    by (intro ball_cong [OF refl], clarify) (rule claimed_by_other, metis other)
  also have "\<dots> \<longleftrightarrow> (\<forall>(c', m') \<in> set ms. conflict_keys (cm_conflicts m') \<inter> ?K = {}) \<and>
      (\<forall>(c', m') \<in> set ms. \<forall>k \<in> conflict_keys (cm_conflicts m'). claims k \<in> {None, Some c'})"
    unfolding case_prod_beta by (rule ball_conj_distrib)
  finally have later: "(\<exists>claims'. claim_all_conflicts ms ?claims = Inr claims') \<longleftrightarrow> conflict_free ms \<and>
      (\<forall>(c', m') \<in> set ms. conflict_keys (cm_conflicts m') \<inter> ?K = {}) \<and>
      (\<forall>(c', m') \<in> set ms. \<forall>k \<in> conflict_keys (cm_conflicts m'). claims k \<in> {None, Some c'})"
    using Cons.IH [of ?claims] Cons.prems by (simp only: list.map distinct.simps)
  have "(\<forall>(c', m') \<in> set (p # ms). \<forall>k \<in> conflict_keys (cm_conflicts m'). claims k \<in> {None, Some c'}) \<longleftrightarrow>
      (\<forall>k \<in> ?K. claims k \<in> {None, Some c}) \<and>
      (\<forall>(c', m') \<in> set ms. \<forall>k \<in> conflict_keys (cm_conflicts m'). claims k \<in> {None, Some c'})"
    by (simp only: p list.set ball_simps prod.case)
  then show ?case unfolding step free later by (simp only: conj_ac)
qed

theorem validate_conflicts_iff:
  assumes "dict_ok selected"
  shows "validate_conflicts selected = Inr () \<longleftrightarrow> conflict_free selected"
proof -
  have "validate_conflicts selected = Inr () \<longleftrightarrow> (\<exists>claims'. claim_all_conflicts (sort_key fst selected) Map.empty = Inr claims')"
    by (auto simp: validate_conflicts_def rbind_eq_Inr)
  also have "\<dots> \<longleftrightarrow> conflict_free (sort_key fst selected)"
    using assms by (subst claim_all_iff) (auto simp: dict_ok_sort_key)
  also have "\<dots> \<longleftrightarrow> conflict_free selected" by (simp add: conflict_free_def)
  finally show ?thesis .
qed

section \<open>Reachable registries\<close>

lemma find_all_iff:
  "find_all rg ps = Inr selected \<longleftrightarrow>
    list_all2 (\<lambda>(c, r) (c', m). c' = c \<and> map_of (rg_revisions rg) r = Some m) ps selected"
proof (induction ps arbitrary: selected)
  case (Cons p ps)
  obtain c r where "p = (c, r)" by (cases p)
  with Cons show ?case
    by (cases selected) (auto simp: rbind_eq_Inr find_revision_def simp del: map_of_eq_Some_iff split: option.splits)
qed auto

lemma find_all_fst: "find_all rg ps = Inr selected \<Longrightarrow> map fst selected = map fst ps"
  unfolding find_all_iff by (induction rule: list_all2_induct) auto

lemma validate_pointers_iff:
  assumes "dict_ok active"
  shows "validate_pointers drivers rg active = Inr () \<longleftrightarrow> (\<exists>selected res. find_all rg active = Inr selected \<and>
    dependencies_met selected \<and> acyclic (depends selected) \<and> conflict_free selected \<and>
    resolve_projections drivers (rg_policy rg) (map snd selected) = Inr res)"
proof -
  have "dict_ok selected" if "find_all rg active = Inr selected" for selected
    using find_all_fst [OF that] assms by simp
  then show ?thesis
    unfolding validate_pointers_def rbind_eq_Inr
    by (auto simp: validate_dependencies_iff validate_conflicts_iff)
qed

text \<open>
  What holds of the activation pointers: they name registered revisions of their coordinates, every
  required dependency is active in a version its constraint admits, the dependencies that count form
  no cycle and no two active capabilities claim the same conflict value.
\<close>

definition closed_selection :: "(string \<times> capability_manifest) list \<Rightarrow> bool" where
  "closed_selection selected \<longleftrightarrow> (\<forall>(c, m) \<in> set selected. manifest_coordinate m = c) \<and>
     dependencies_met selected \<and> acyclic (depends selected) \<and> conflict_free selected"

definition registry_inv :: "registry \<Rightarrow> bool" where
  "registry_inv rg \<longleftrightarrow> dict_ok (rg_revisions rg) \<and> (\<forall>(r, m) \<in> set (rg_revisions rg). manifest_revision m = r) \<and>
     dict_ok (rg_active rg) \<and> (\<exists>selected. find_all rg (rg_active rg) = Inr selected \<and> closed_selection selected)"

definition registry_init :: "driver_claims \<Rightarrow> registry \<Rightarrow> bool" where
  "registry_init drivers rg \<longleftrightarrow> (\<exists>policy. new_registry drivers policy = Inr rg)"

inductive registry_step :: "driver_claims \<Rightarrow> registry \<Rightarrow> registry \<Rightarrow> bool" for drivers where
  step_register: "registry_step drivers rg (snd (register_many drivers rg ms))"
| step_activate: "registry_step drivers rg (snd (activate_pointer drivers rg coordinate revision))"
| step_deactivate: "registry_step drivers rg (snd (deactivate_pointer drivers rg coordinate))"
| step_freeze: "registry_step drivers rg (freeze_registry rg)"

lemma stage_revisions_keeps:
  assumes "stage_revisions ms staged = Inr staged'" "dict_ok staged" "\<forall>(r, m) \<in> set staged. manifest_revision m = r"
  shows "dict_ok staged' \<and> (\<forall>(r, m) \<in> set staged'. manifest_revision m = r) \<and> map_of staged \<subseteq>\<^sub>m map_of staged'"
  using assms
proof (induction ms arbitrary: staged)
  case (Cons m ms)
  let ?s = "AList.update (manifest_revision m) m staged"
  from Cons.prems(1) have rest: "stage_revisions ms ?s = Inr staged'"
    and old: "map_of staged (manifest_revision m) \<in> {None, Some m}"
    by (auto simp del: map_of_eq_Some_iff map_of_eq_None_iff split: option.splits if_splits)
  have "\<forall>(r, x) \<in> set ?s. manifest_revision x = r"
  proof clarify
    fix r x assume "(r, x) \<in> set ?s"
    then have "map_of ?s r = Some x" using dict_mem_iff [OF dict_ok_update [OF Cons.prems(2)]] by blast
    then consider "r = manifest_revision m" "x = m" | "map_of staged r = Some x"
      by (cases "r = manifest_revision m") (simp_all del: map_of_eq_Some_iff)
    then show "manifest_revision x = r"
    proof cases
      case 2
      then have "(r, x) \<in> set staged" by (rule map_of_SomeD)
      with Cons.prems(3) show ?thesis by blast
    qed simp
  qed
  moreover have "map_of staged \<subseteq>\<^sub>m map_of ?s"
    using old by (auto simp: map_le_def simp del: map_of_eq_Some_iff map_of_eq_None_iff)
  ultimately show ?case
    using Cons.IH [OF rest dict_ok_update [OF Cons.prems(2)]] map_le_trans by blast
qed auto

lemma find_all_mono:
  assumes "map_of (rg_revisions rg) \<subseteq>\<^sub>m map_of (rg_revisions rg')" "find_all rg ps = Inr selected"
  shows "find_all rg' ps = Inr selected"
  using assms(2) unfolding find_all_iff
  by (rule list_all2_mono) (use assms(1) in \<open>auto simp: map_le_def dom_def simp del: map_of_eq_Some_iff\<close>)

lemma coordinates_found:
  assumes "find_all rg ps = Inr selected" and "\<And>c r m. (c, r) \<in> set ps \<Longrightarrow> map_of (rg_revisions rg) r = Some m \<Longrightarrow> manifest_coordinate m = c"
  shows "\<forall>(c, m) \<in> set selected. manifest_coordinate m = c"
  using assms unfolding find_all_iff by (induction rule: list_all2_induct) (auto simp del: map_of_eq_Some_iff)

lemma pointer_coordinates:
  assumes "find_all rg ps = Inr selected" "\<forall>(c, m) \<in> set selected. manifest_coordinate m = c" "(c, r) \<in> set ps"
  shows "\<exists>m. map_of (rg_revisions rg) r = Some m \<and> manifest_coordinate m = c"
  using assms unfolding find_all_iff by (induction rule: list_all2_induct) (auto simp del: map_of_eq_Some_iff)

lemma registry_step_inv:
  assumes inv: "registry_inv rg" and step: "registry_step drivers rg rg'"
  shows "registry_inv rg'"
  using step
proof cases
  case (step_register ms)
  show ?thesis
  proof (cases "fst (register_many drivers rg ms)")
    case (Inl e)
    with step_register inv show ?thesis by (simp add: register_many_def split: sum.splits prod.splits)
  next
    case (Inr x)
    then obtain staged where st: "stage_revisions ms (rg_revisions rg) = Inr staged"
      and rev: "rg_revisions (snd (register_many drivers rg ms)) = staged"
      and act: "rg_active (snd (register_many drivers rg ms)) = rg_active rg"
      by (auto simp: register_many_def rbind_eq_Inr rebuild_indexes_def split: sum.splits prod.splits)
    with step_register inv show ?thesis
      using stage_revisions_keeps [OF st] find_all_mono [of rg "snd (register_many drivers rg ms)"]
      by (auto simp: registry_inv_def)
  qed
next
  case (step_activate coordinate revision)
  show ?thesis
  proof (cases "fst (activate_pointer drivers rg coordinate revision)")
    case (Inl e)
    with step_activate inv show ?thesis by (simp add: activate_pointer_def split: sum.splits prod.splits)
  next
    case (Inr m)
    then obtain chosen candidate where m: "map_of (rg_revisions rg) chosen = Some m" "manifest_coordinate m = coordinate"
      and cand: "candidate = filter (\<lambda>(c, _). c \<notin> excluded_coordinates (rg_resolution rg)) (AList.update coordinate chosen (rg_active rg))"
      and val: "validate_pointers drivers rg candidate = Inr ()"
      and new: "snd (activate_pointer drivers rg coordinate revision) = rg\<lparr>rg_active := candidate\<rparr>"
      by (auto simp: activate_pointer_def rbind_eq_Inr find_revision_def Let_def simp del: map_of_eq_Some_iff
          split: sum.splits prod.splits if_splits option.splits)
    from inv obtain old where o: "dict_ok (rg_active rg)" "find_all rg (rg_active rg) = Inr old"
        "\<forall>(c, m) \<in> set old. manifest_coordinate m = c"
      by (auto simp: registry_inv_def closed_selection_def)
    then have ok: "dict_ok candidate"
      unfolding cand by (intro distinct_map_filter dict_ok_update)
    with val obtain selected where sel: "find_all rg candidate = Inr selected" "dependencies_met selected"
        "acyclic (depends selected)" "conflict_free selected"
      using validate_pointers_iff by blast
    have "\<forall>(c, m) \<in> set selected. manifest_coordinate m = c"
    proof (rule coordinates_found [OF sel(1)])
      fix c r x assume "(c, r) \<in> set candidate" and x: "map_of (rg_revisions rg) r = Some x"
      then have "map_of (AList.update coordinate chosen (rg_active rg)) c = Some r"
        using dict_mem_iff [OF dict_ok_update [OF o(1)]] unfolding cand by auto
      then consider "c = coordinate" "r = chosen" | "map_of (rg_active rg) c = Some r"
        by (cases "c = coordinate") (simp_all del: map_of_eq_Some_iff)
      then show "manifest_coordinate x = c"
      proof cases
        case 1
        with x m show ?thesis by simp
      next
        case 2
        then have "(c, r) \<in> set (rg_active rg)" by (rule map_of_SomeD)
        with pointer_coordinates [OF o(2,3)] x show ?thesis by (metis option.inject)
      qed
    qed
    moreover have "find_all (rg\<lparr>rg_active := candidate\<rparr>) candidate = Inr selected"
      using find_all_mono [of rg "rg\<lparr>rg_active := candidate\<rparr>"] sel(1) by simp
    ultimately show ?thesis using step_activate inv sel ok new by (auto simp: registry_inv_def closed_selection_def)
  qed
next
  case (step_deactivate coordinate)
  show ?thesis
  proof (cases "fst (deactivate_pointer drivers rg coordinate)")
    case (Inl e)
    with step_deactivate inv show ?thesis by (simp add: deactivate_pointer_def split: sum.splits split del: if_split)
  next
    case (Inr u)
    let ?candidate = "AList.delete coordinate (rg_active rg)"
    from Inr have val: "validate_pointers drivers rg ?candidate = Inr ()"
      and new: "snd (deactivate_pointer drivers rg coordinate) = rg\<lparr>rg_active := ?candidate\<rparr>"
      by (auto simp: deactivate_pointer_def rbind_eq_Inr split: sum.splits if_splits)
    from inv obtain old where o: "dict_ok (rg_active rg)" "find_all rg (rg_active rg) = Inr old"
        "\<forall>(c, m) \<in> set old. manifest_coordinate m = c"
      by (auto simp: registry_inv_def closed_selection_def)
    then have ok: "dict_ok ?candidate" by simp
    with val obtain selected where sel: "find_all rg ?candidate = Inr selected" "dependencies_met selected"
        "acyclic (depends selected)" "conflict_free selected"
      using validate_pointers_iff by blast
    have "\<forall>(c, m) \<in> set selected. manifest_coordinate m = c"
    proof (rule coordinates_found [OF sel(1)])
      fix c r x assume "(c, r) \<in> set ?candidate" and x: "map_of (rg_revisions rg) r = Some x"
      then have "(c, r) \<in> set (rg_active rg)" using set_dict_delete by fast
      with pointer_coordinates [OF o(2,3)] x show "manifest_coordinate x = c" by (metis option.inject)
    qed
    moreover have "find_all (rg\<lparr>rg_active := ?candidate\<rparr>) ?candidate = Inr selected"
      using find_all_mono [of rg "rg\<lparr>rg_active := ?candidate\<rparr>"] sel(1) by simp
    ultimately show ?thesis using step_deactivate inv sel ok new by (auto simp: registry_inv_def closed_selection_def)
  qed
next
  case step_freeze
  have "find_all (freeze_registry rg) ps = find_all rg ps" for ps
    by (induction ps) (auto simp: find_revision_def freeze_registry_def)
  with step_freeze inv show ?thesis by (auto simp: registry_inv_def freeze_registry_def)
qed

lemma acyclic_empty [simp]: "acyclic {}"
  by (simp add: acyclic_def)

lemma registry_init_inv: "registry_init drivers rg \<Longrightarrow> registry_inv rg"
  by (auto simp: registry_init_def new_registry_def Let_def rbind_eq_Inr registry_inv_def closed_selection_def
      dependencies_met_def depends_def conflict_free_def)

interpretation catalog: step_system "registry_init drivers" "registry_step drivers" registry_inv for drivers
  by unfold_locales (auto intro: registry_init_inv registry_step_inv)

text \<open>What the library needs of a registry whose projections cannot fail.\<close>

lemma extract_plain:
  assumes "\<forall>m \<in> set ms. map_of (cm_metadata m) ''driver'' = None"
  shows "\<exists>raw. extract_all drivers ms = Inr raw"
  using assms by (induction ms) (auto simp: extract_claims_def manifest_driver_claims_def Let_def
      simp del: map_of_eq_None_iff)

lemma resolve_plain:
  assumes "\<forall>m \<in> set ms. map_of (cm_metadata m) ''driver'' = None" "pp_strategy policy = By_Isolation"
  shows "\<exists>r. resolve_projections drivers policy ms = Inr r \<and> excluded_coordinates r = {}"
proof -
  have "\<exists>raw. extract_all drivers (sort_key (\<lambda>m. (manifest_coordinate m, manifest_revision m)) ms) = Inr raw"
    using assms(1) by (intro extract_plain) (simp del: map_of_eq_None_iff)
  with isolation_resolves [OF assms(2)] show ?thesis by blast
qed

lemma selected_subset: "(c, m) \<in> set (selected_manifests ms) \<Longrightarrow> m \<in> set ms"
proof -
  have max: "max_by f x xs \<in> insert x (set xs)" for f :: "capability_manifest \<Rightarrow> 'b::linorder" and x xs
    by (induction xs arbitrary: x) auto
  have best: "best_revision xs = Some m \<Longrightarrow> m \<in> set xs" for xs
    using max by (cases xs) auto
  assume "(c, m) \<in> set (selected_manifests ms)"
  then show "m \<in> set ms"
    by (auto simp: selected_manifests_def group_by_coordinate_def List.map_filter_def dest!: best split: option.splits)
qed

lemma register_plain:
  assumes "rg_frozen rg = False" "pp_strategy (rg_policy rg) = By_Isolation"
    and "stage_revisions ms (rg_revisions rg) = Inr staged" "\<forall>m \<in> snd ` set staged. map_of (cm_metadata m) ''driver'' = None"
  obtains rg' where "register_many drivers rg ms = (Inr ms, rg')" "rg_revisions rg' = staged" "rg_active rg' = rg_active rg"
    "rg_frozen rg' = False" "rg_policy rg' = rg_policy rg" "excluded_coordinates (rg_resolution rg') = {}"
proof -
  have "\<forall>m \<in> set (map snd (selected_manifests (map snd staged))). map_of (cm_metadata m) ''driver'' = None"
    using assms(4) selected_subset by fastforce
  from resolve_plain [OF this assms(2)] obtain r where
    "resolve_projections drivers (rg_policy rg) (map snd (selected_manifests (map snd staged))) = Inr r"
    "excluded_coordinates r = {}" by blast
  with assms that show ?thesis
    by (simp add: register_many_def ensure_mutable_def rebuild_indexes_def)
qed

lemma activate_plain:
  assumes "rg_frozen rg = False" "find_revision rg r = Inr m" "manifest_coordinate m = c"
    and "excluded_coordinates (rg_resolution rg) = {}" "dict_ok (rg_active rg)"
  shows "activate_pointer drivers rg c (Some r) =
    (case validate_pointers drivers rg (AList.update c r (rg_active rg)) of
       Inl e \<Rightarrow> (Inl e, rg) | Inr _ \<Rightarrow> (Inr m, rg\<lparr>rg_active := AList.update c r (rg_active rg)\<rparr>))"
  using assms by (simp add: activate_pointer_def ensure_mutable_def case_prod_beta split: sum.split)

section \<open>An example catalogue\<close>

text \<open>A tool that needs a base library in a compatible version.\<close>

definition example_manifest :: "string \<Rightarrow> string \<Rightarrow> dependency_spec list \<Rightarrow> capability_manifest" where
  "example_manifest name version dependencies =
     \<lparr>cm_identity = \<lparr>ci_namespace = ''x'', ci_name = name, ci_version = version, ci_digest = ''d''\<rparr>,
       cm_kind = API, cm_summary = [], cm_provider = ''p'', cm_operations = [], cm_sections = [],
       cm_permissions = [], cm_dependencies = dependencies, cm_conflicts = [], cm_tags = [],
       cm_trust_tier = [], cm_source = [], cm_metadata = []\<rparr>"

definition example_base :: capability_manifest where
  "example_base = example_manifest ''base'' ''1.4.0'' []"

definition example_tool :: capability_manifest where
  "example_tool = example_manifest ''tool'' ''2.0.0''
     [\<lparr>dp_coordinate = ''x/base'', dp_constraint = ''^1.2'', dp_optional = False\<rparr>]"

lemma example_coordinates [simp]:
  "manifest_coordinate example_base = ''x/base''" "manifest_coordinate example_tool = ''x/tool''"
  "manifest_revision example_base = ''x/base@1.4.0#d''" "manifest_revision example_tool = ''x/tool@2.0.0#d''"
  by (simp_all add: example_base_def example_tool_def example_manifest_def coordinate_of_def revision_of_def)

definition example_selection :: "(string \<times> capability_manifest) list" where
  "example_selection = [(''x/base'', example_base), (''x/tool'', example_tool)]"

lemma example_satisfied: "satisfies ''1.4.0'' \<lparr>dp_coordinate = ''x/base'', dp_constraint = ''^1.2'', dp_optional = False\<rparr>"
  by code_simp

lemma example_selection_ok:
  "dependencies_met example_selection" "acyclic (depends example_selection)" "conflict_free example_selection"
proof -
  have fields: "cm_dependencies example_base = []" "ci_version (cm_identity example_base) = ''1.4.0''"
    "cm_dependencies example_tool = [\<lparr>dp_coordinate = ''x/base'', dp_constraint = ''^1.2'', dp_optional = False\<rparr>]"
    "cm_conflicts example_base = []" "cm_conflicts example_tool = []"
    by (simp_all add: example_base_def example_tool_def example_manifest_def)
  show "dependencies_met example_selection"
    using example_satisfied by (simp add: dependencies_met_def example_selection_def fields)
  have "depends example_selection \<subseteq> {(''x/tool'', ''x/base'')}"
    by (auto simp: depends_def example_selection_def fields)
  moreover have "acyclic {(''x/tool'', ''x/base'')}" by (simp add: acyclic_insert)
  ultimately show "acyclic (depends example_selection)" by (rule acyclic_subset [rotated])
  show "conflict_free example_selection" by (simp add: conflict_free_def example_selection_def fields)
qed

text \<open>Both registered, the base activated.\<close>

definition no_drivers :: driver_claims where
  "no_drivers name config = Inr []"

lemma example_registry:
  obtains rg where "reach (registry_init no_drivers) (registry_step no_drivers) rg" "rg_frozen rg = False"
    "rg_revisions rg = [(''x/base@1.4.0#d'', example_base), (''x/tool@2.0.0#d'', example_tool)]"
    "rg_active rg = [(''x/base'', ''x/base@1.4.0#d'')]" "pp_strategy (rg_policy rg) = By_Isolation"
    "excluded_coordinates (rg_resolution rg) = {}"
proof -
  have plain: "map_of (cm_metadata example_base) ''driver'' = None" "map_of (cm_metadata example_tool) ''driver'' = None"
    by (simp_all add: example_base_def example_tool_def example_manifest_def)
  obtain r0 where "resolve_projections no_drivers \<lparr>pp_strategy = By_Isolation, pp_selected = None\<rparr> [] = Inr r0"
    "excluded_coordinates r0 = {}"
    using resolve_plain [of "[]" "\<lparr>pp_strategy = By_Isolation, pp_selected = None\<rparr>" no_drivers] by auto
  then obtain rg0 where rg0: "new_registry no_drivers None = Inr rg0" "rg_frozen rg0 = False" "rg_revisions rg0 = []"
    "rg_active rg0 = []" "pp_strategy (rg_policy rg0) = By_Isolation"
    by (auto simp: new_registry_def)
  have staged: "stage_revisions [example_base, example_tool] (rg_revisions rg0) =
      Inr [(''x/base@1.4.0#d'', example_base), (''x/tool@2.0.0#d'', example_tool)]"
    using rg0 by simp
  obtain rg1 where rg1: "register_many no_drivers rg0 [example_base, example_tool] = (Inr [example_base, example_tool], rg1)"
    "rg_revisions rg1 = [(''x/base@1.4.0#d'', example_base), (''x/tool@2.0.0#d'', example_tool)]" "rg_active rg1 = []"
    "rg_frozen rg1 = False" "rg_policy rg1 = rg_policy rg0" "excluded_coordinates (rg_resolution rg1) = {}"
    by (rule register_plain [OF rg0(2,5) staged]) (use plain rg0 in auto)
  let ?act = "[(''x/base'', ''x/base@1.4.0#d'')]"
  have "find_all rg1 ?act = Inr [(''x/base'', example_base)]" by (simp add: find_revision_def rg1)
  moreover have "dependencies_met [(''x/base'', example_base)]" "depends [(''x/base'', example_base)] = {}"
    by (auto simp: dependencies_met_def depends_def example_base_def example_manifest_def)
  moreover have "\<exists>res. resolve_projections no_drivers (rg_policy rg1) [example_base] = Inr res"
    using resolve_plain [of "[example_base]"] plain rg0(5) rg1(5) by fastforce
  moreover have "conflict_free [(''x/base'', example_base)]" by (simp add: conflict_free_def)
  ultimately have "validate_pointers no_drivers rg1 ?act = Inr ()"
    by (subst validate_pointers_iff) auto
  then have "snd (activate_pointer no_drivers rg1 ''x/base'' (Some ''x/base@1.4.0#d'')) = rg1\<lparr>rg_active := ?act\<rparr>"
    by (subst activate_plain [where m = example_base]) (simp_all add: rg1 find_revision_def)
  moreover have "reach (registry_init no_drivers) (registry_step no_drivers) rg1"
    using rg0(1) rg1(1) by (metis reach_init reach_step registry_init_def snd_conv step_register)
  ultimately have "reach (registry_init no_drivers) (registry_step no_drivers) (rg1\<lparr>rg_active := ?act\<rparr>)"
    using step_activate [of no_drivers rg1 "''x/base''" "Some ''x/base@1.4.0#d''"]
      reach_step [of "registry_init no_drivers" "registry_step no_drivers" rg1] by simp
  then show ?thesis by (rule that) (use rg0 rg1 in simp_all)
qed

section \<open>Properties\<close>

text \<open>
  C6. Active capabilities are complete and consistent: in every reachable registry each activation
  pointer names a registered revision of its coordinate, every required dependency is active in a
  version that satisfies the constraint, the dependencies that count form no cycle, and no two active
  capabilities claim the same conflict value.
\<close>

theorem registry_active_closure:
  assumes "reach (registry_init drivers) (registry_step drivers) rg"
  shows "\<exists>selected. find_all rg (rg_active rg) = Inr selected \<and> (\<forall>(c, m) \<in> set selected. manifest_coordinate m = c) \<and>
    dependencies_met selected \<and> acyclic (depends selected) \<and> conflict_free selected"
  using catalog.reachable_inv [OF assms] by (auto simp: registry_inv_def closed_selection_def)

theorem registry_active_closure_witness:
  "\<exists>rg. rg_active rg = [(''x/base'', ''x/base@1.4.0#d'')] \<and>
    (\<exists>selected. find_all rg (rg_active rg) = Inr selected \<and> (\<forall>(c, m) \<in> set selected. manifest_coordinate m = c) \<and>
      dependencies_met selected \<and> acyclic (depends selected) \<and> conflict_free selected)"
proof -
  obtain rg where "reach (registry_init no_drivers) (registry_step no_drivers) rg"
    "rg_active rg = [(''x/base'', ''x/base@1.4.0#d'')]"
    by (rule example_registry)
  with registry_active_closure show ?thesis by blast
qed

text \<open>
  C20. Activation is gated exactly by the declared relations: in a reachable registry, activating a
  coordinate (a given revision, or the preferred one) answers a manifest if and only if the registry
  is not frozen, the projections do not exclude the coordinate, the revision is registered with this
  manifest, which is of this coordinate, and with it the selection without excluded coordinates has
  its required dependencies in admitted versions, no dependency cycle (the depth-first search decides
  this), no shared conflict value, and resolvable projections.
\<close>

theorem activate_accepts_iff:
  assumes "reach (registry_init drivers) (registry_step drivers) rg"
  shows "fst (activate_pointer drivers rg c target) = Inr m \<longleftrightarrow>
    \<not> rg_frozen rg \<and> c \<notin> excluded_coordinates (rg_resolution rg) \<and> manifest_coordinate m = c \<and>
    (\<exists>revision selected res. (case target of None \<Rightarrow> active_candidate rg c = Inr revision | Some r \<Rightarrow> revision = r) \<and>
      find_revision rg revision = Inr m \<and>
      find_all rg (filter (\<lambda>(k, _). k \<notin> excluded_coordinates (rg_resolution rg)) (AList.update c revision (rg_active rg))) =
        Inr selected \<and>
      dependencies_met selected \<and> acyclic (depends selected) \<and> conflict_free selected \<and>
      resolve_projections drivers (rg_policy rg) (map snd selected) = Inr res)"
proof -
  have ok: "dict_ok (rg_active rg)"
    using catalog.reachable_inv [OF assms(1)] by (simp add: registry_inv_def)
  let ?candidate = "\<lambda>revision. filter (\<lambda>(k, _). k \<notin> excluded_coordinates (rg_resolution rg)) (AList.update c revision (rg_active rg))"
  have cand: "dict_ok (?candidate revision)" for revision
    using dict_ok_update [OF ok] by (simp add: distinct_map_filter)
  have "fst (activate_pointer drivers rg c target) = Inr m \<longleftrightarrow>
      \<not> rg_frozen rg \<and> c \<notin> excluded_coordinates (rg_resolution rg) \<and> manifest_coordinate m = c \<and>
      (\<exists>revision. (case target of None \<Rightarrow> active_candidate rg c = Inr revision | Some r \<Rightarrow> revision = r) \<and>
        find_revision rg revision = Inr m \<and> validate_pointers drivers rg (?candidate revision) = Inr ())"
    by (cases target) (auto simp: activate_pointer_def ensure_mutable_def rbind_def Let_def split: sum.splits if_splits)
  then show ?thesis unfolding validate_pointers_iff [OF cand] by blast
qed

theorem activate_accepts_iff_witness:
  "\<exists>rg. rg_active rg = [(''x/base'', ''x/base@1.4.0#d'')] \<and>
    fst (activate_pointer no_drivers rg ''x/tool'' (Some ''x/tool@2.0.0#d'')) = Inr example_tool"
proof -
  obtain rg where rg: "reach (registry_init no_drivers) (registry_step no_drivers) rg" "rg_frozen rg = False"
    "rg_revisions rg = [(''x/base@1.4.0#d'', example_base), (''x/tool@2.0.0#d'', example_tool)]"
    "rg_active rg = [(''x/base'', ''x/base@1.4.0#d'')]" "pp_strategy (rg_policy rg) = By_Isolation"
    "excluded_coordinates (rg_resolution rg) = {}"
    by (rule example_registry)
  have "find_all rg (AList.update ''x/tool'' ''x/tool@2.0.0#d'' (rg_active rg)) = Inr example_selection"
    by (simp add: rg find_revision_def example_selection_def)
  moreover have "\<exists>res. resolve_projections no_drivers (rg_policy rg) (map snd example_selection) = Inr res"
    using resolve_plain [of "map snd example_selection" "rg_policy rg" no_drivers] rg(5)
    by (auto simp: example_selection_def example_base_def example_tool_def example_manifest_def)
  ultimately have "fst (activate_pointer no_drivers rg ''x/tool'' (Some ''x/tool@2.0.0#d'')) = Inr example_tool"
    using example_selection_ok rg by (subst activate_accepts_iff [OF rg(1)]) (auto simp: find_revision_def example_tool_def example_manifest_def coordinate_of_def)
  with rg(4) show ?thesis by blast
qed

section \<open>Pre-releases are preferred\<close>

lemma digits_append: "takeWhile is_digit (s @ CHR ''-'' # t) = takeWhile is_digit s"
  "dropWhile is_digit (s @ CHR ''-'' # t) = dropWhile is_digit s @ CHR ''-'' # t"
  by (induction s) (auto simp: is_digit_def)

lemma dot_group_append: "dot_group (s @ CHR ''-'' # t) = (fst (dot_group s), snd (dot_group s) @ CHR ''-'' # t)"
  by (cases s) (simp_all add: digits_append)

lemma version_suffix_append: "version_suffix s \<Longrightarrow> CHR 0x0A \<notin> set t \<Longrightarrow> version_suffix (s @ CHR ''-'' # t)"
  by (cases s) (auto simp: version_suffix_def)

lemma version_number_prerelease:
  assumes "version_number s = Some n" "CHR 0x0A \<notin> set t"
  shows "version_number (s @ CHR ''-'' # t) = Some n"
  using assms by (auto simp: version_number_def Let_def read_digits_def digits_append dot_group_append
      case_prod_beta version_suffix_append split: if_splits)

text \<open>
  A pre-release is selected over its release: of two revisions of one capability with versions
  that differ only in a pre-release suffix, the selection takes the pre-release, in either order.
\<close>

theorem prerelease_preferred:
  assumes "version_number (ci_version (cm_identity release)) = Some n" "CHR 0x0A \<notin> set suffix"
    and "ci_version (cm_identity prerelease) = ci_version (cm_identity release) @ ''-'' @ suffix"
  shows "best_revision [release, prerelease] = Some prerelease \<and> best_revision [prerelease, release] = Some prerelease"
proof -
  obtain a b c where n: "n = (a, b, c)" by (cases n)
  have "version_number (ci_version (cm_identity prerelease)) = Some n"
    using version_number_prerelease assms by simp
  moreover have "v < v @ CHR ''-'' # suffix" for v :: string
    by (induction v) (simp_all add: Cons_less_Cons)
  ultimately have "revision_order release < revision_order prerelease"
    using assms by (simp add: revision_order_def Let_def n less_prod_def)
  then show ?thesis by auto
qed

theorem prerelease_preferred_witness:
  "best_revision [example_manifest ''lib'' ''1.0.0'' [], example_manifest ''lib'' ''1.0.0-alpha'' []] =
     Some (example_manifest ''lib'' ''1.0.0-alpha'' [])"
proof -
  have "version_number ''1.0.0'' = Some (1, 0, 0)" by code_simp
  then show ?thesis
    using prerelease_preferred [of "example_manifest ''lib'' ''1.0.0'' []" "(1, 0, 0)" "''alpha''"
        "example_manifest ''lib'' ''1.0.0-alpha'' []"]
    by (simp add: example_manifest_def)
qed

end
