(* ===== verification/Json_Parser.thy ===== *)
theory Json_Parser
  imports Json
begin

text \<open>
  \<open>json.loads\<close> as the components call it on texts of the modelled characters: the grammar of
  Python's \<open>json.decoder\<close> with its extensions (\<open>NaN\<close> and the infinities), strict strings and
  dictionaries in which a repeated key keeps its place and takes the last value. An escape for a
  code point beyond the first 256 is refused. A float is the rational its text denotes. The recursion
  is bounded by the length of the text, which is enough, as \<open>loads_dumps\<close> shows for what the
  printer of theory \<open>Json\<close> writes.
\<close>

section \<open>Lexical structure\<close>

definition is_json_space :: "char \<Rightarrow> bool" where
  "is_json_space c = (code_point c \<in> {32, 9, 10, 13})"

definition skip_space :: "string \<Rightarrow> string" where
  "skip_space s = dropWhile is_json_space s"

definition digits_value :: "string \<Rightarrow> nat" where
  "digits_value ds = foldl (\<lambda>n c. 10 * n + (code_point c - 48)) 0 ds"

text \<open>\<open>-?(0|[1-9][0-9]*)\<close>, then optional decimals and exponent.\<close>

definition parse_digits :: "string \<Rightarrow> (string \<times> string) option" where
  "parse_digits s = (let ds = takeWhile is_digit s in
     if ds = [] then None
     else if hd ds = CHR ''0'' then Some (''0'', tl s) else Some (ds, dropWhile is_digit s))"

definition parse_fraction :: "string \<Rightarrow> string option \<times> string" where
  "parse_fraction s = (case s of
     c # r \<Rightarrow> if c = CHR ''.'' \<and> takeWhile is_digit r \<noteq> []
             then (Some (takeWhile is_digit r), dropWhile is_digit r) else (None, s)
   | [] \<Rightarrow> (None, s))"

definition parse_exponent :: "string \<Rightarrow> int option \<times> string" where
  "parse_exponent s = (case s of
     c # r \<Rightarrow>
       if c = CHR ''e'' \<or> c = CHR ''E'' then
         (let (sign, r') = (case r of d # q \<Rightarrow> if d = CHR ''-'' then (-1, q) else if d = CHR ''+'' then (1, q) else (1, r)
                            | [] \<Rightarrow> (1, r))
          in if takeWhile is_digit r' \<noteq> []
             then (Some (sign * int (digits_value (takeWhile is_digit r'))), dropWhile is_digit r') else (None, s))
       else (None, s)
   | [] \<Rightarrow> (None, s))"

definition parse_unsigned :: "int \<Rightarrow> string \<Rightarrow> (pyval \<times> string) option" where
  "parse_unsigned sign s = (case parse_digits s of
     None \<Rightarrow> None
   | Some (ds, r) \<Rightarrow>
       (let (frac, r1) = parse_fraction r; (ex, r2) = parse_exponent r1;
            whole = sign * int (digits_value ds)
        in if frac = None \<and> ex = None then Some (PyInt whole, r)
           else (let f = (case frac of None \<Rightarrow> [] | Some ds' \<Rightarrow> ds');
                     m = of_int sign * (of_nat (digits_value ds) + of_nat (digits_value f) / 10 ^ length f)
                 in Some (PyFloat (m * 10 powi (case ex of None \<Rightarrow> 0 | Some e \<Rightarrow> e)), r2))))"

definition strip_prefix :: "string \<Rightarrow> string \<Rightarrow> string option" where
  "strip_prefix p s = (if take (length p) s = p then Some (drop (length p) s) else None)"

definition parse_number :: "string \<Rightarrow> (pyval \<times> string) option" where
  "parse_number s = (case s of
     [] \<Rightarrow> None
   | c # r \<Rightarrow> if c = CHR ''-'' then parse_unsigned (-1) r else parse_unsigned 1 s)"

text \<open>One character of a string, escaped or not.\<close>

definition hex_nibble :: "char \<Rightarrow> nat option" where
  "hex_nibble c = (let n = code_point c in
     if 48 \<le> n \<and> n \<le> 57 then Some (n - 48) else if 97 \<le> n \<and> n \<le> 102 then Some (n - 87)
     else if 65 \<le> n \<and> n \<le> 70 then Some (n - 55) else None)"

fun hex_char :: "string \<Rightarrow> (char \<times> string) option" where
  "hex_char (a # b # c # d # r) =
     (case (hex_nibble a, hex_nibble b, hex_nibble c, hex_nibble d) of
        (Some 0, Some 0, Some x, Some y) \<Rightarrow> Some (char_of (16 * x + y), r)
      | _ \<Rightarrow> None)"
| "hex_char _ = None"

fun parse_escape :: "string \<Rightarrow> (char \<times> string) option" where
  "parse_escape [] = None"
| "parse_escape (c # r) =
     (let n = code_point c in
      if n = 34 \<or> n = 92 \<or> n = 47 then Some (c, r)
      else if c = CHR ''n'' then Some (char_of (10 :: nat), r)
      else if c = CHR ''r'' then Some (char_of (13 :: nat), r)
      else if c = CHR ''t'' then Some (char_of (9 :: nat), r)
      else if c = CHR ''f'' then Some (char_of (12 :: nat), r)
      else if c = CHR ''b'' then Some (char_of (8 :: nat), r)
      else if c = CHR ''u'' then hex_char r
      else None)"

lemma hex_char_shorter: "hex_char s = Some (c, r) \<Longrightarrow> length r < length s"
  by (cases s rule: hex_char.cases) (auto split: option.splits nat.splits)

lemma parse_escape_shorter: "parse_escape s = Some (c, r) \<Longrightarrow> length r < length s"
  by (cases s) (auto simp: Let_def split: if_splits dest!: hex_char_shorter)

text \<open>The characters up to the closing quotation mark.\<close>

function parse_string :: "string \<Rightarrow> (string \<times> string) option" where
  "parse_string [] = None"
| "parse_string (c # r) =
     (if code_point c = 34 then Some ([], r)
      else if code_point c = 92 then
        (case parse_escape r of
           None \<Rightarrow> None
         | Some (d, r') \<Rightarrow> (case parse_string r' of None \<Rightarrow> None | Some (t, q) \<Rightarrow> Some (d # t, q)))
      else if code_point c < 32 then None
      else (case parse_string r of None \<Rightarrow> None | Some (t, q) \<Rightarrow> Some (c # t, q)))"
  by pat_completeness auto

termination
  by (relation "measure length") (auto dest: parse_escape_shorter)

section \<open>Values\<close>

definition make_dict :: "(string \<times> pyval) list \<Rightarrow> (string \<times> pyval) list" where
  "make_dict ps = foldl (\<lambda>d (k, v). AList.update k v d) [] ps"

fun parse_value :: "nat \<Rightarrow> string \<Rightarrow> (pyval \<times> string) option"
  and parse_elements :: "nat \<Rightarrow> string \<Rightarrow> (pyval list \<times> string) option"
  and parse_members :: "nat \<Rightarrow> string \<Rightarrow> ((string \<times> pyval) list \<times> string) option" where
  "parse_value 0 s = None"
| "parse_value (Suc n) s =
     (case s of
        [] \<Rightarrow> None
      | c # r \<Rightarrow>
          if code_point c = 34 then map_option (\<lambda>(t, q). (PyStr t, q)) (parse_string r)
          else if c = CHR ''['' then
            (case skip_space r of
               [] \<Rightarrow> None
             | d # q \<Rightarrow> if d = CHR '']'' then Some (PyList [], q)
                 else map_option (\<lambda>(vs, q). (PyList vs, q)) (parse_elements n (d # q)))
          else if c = CHR ''{'' then
            (case skip_space r of
               [] \<Rightarrow> None
             | d # q \<Rightarrow> if d = CHR ''}'' then Some (PyDict [], q)
                 else map_option (\<lambda>(ps, q). (PyDict (make_dict ps), q)) (parse_members n (d # q)))
          else case strip_prefix ''null'' s of Some q \<Rightarrow> Some (PyNone, q) | None \<Rightarrow>
            case strip_prefix ''true'' s of Some q \<Rightarrow> Some (PyBool True, q) | None \<Rightarrow>
            case strip_prefix ''false'' s of Some q \<Rightarrow> Some (PyBool False, q) | None \<Rightarrow>
            case strip_prefix ''NaN'' s of Some q \<Rightarrow> Some (PyNonFinite, q) | None \<Rightarrow>
            case strip_prefix ''Infinity'' s of Some q \<Rightarrow> Some (PyNonFinite, q) | None \<Rightarrow>
            case strip_prefix ''-Infinity'' s of Some q \<Rightarrow> Some (PyNonFinite, q) | None \<Rightarrow> parse_number s)"
| "parse_elements 0 s = None"
| "parse_elements (Suc n) s =
     (case parse_value n s of
        None \<Rightarrow> None
      | Some (v, r) \<Rightarrow>
          (case skip_space r of
             [] \<Rightarrow> None
           | c # q \<Rightarrow>
               if c = CHR '']'' then Some ([v], q)
               else if c = CHR '','' then
                 map_option (\<lambda>(vs, q'). (v # vs, q')) (parse_elements n (skip_space q))
               else None))"
| "parse_members 0 s = None"
| "parse_members (Suc n) s =
     (case s of
        [] \<Rightarrow> None
      | c # r \<Rightarrow>
          if code_point c \<noteq> 34 then None
          else (case parse_string r of
             None \<Rightarrow> None
           | Some (k, r1) \<Rightarrow>
               (case skip_space r1 of
                  [] \<Rightarrow> None
                | d # r2 \<Rightarrow>
                    if d \<noteq> CHR '':'' then None
                    else (case parse_value n (skip_space r2) of
                       None \<Rightarrow> None
                     | Some (v, r3) \<Rightarrow>
                         (case skip_space r3 of
                            [] \<Rightarrow> None
                          | e # q \<Rightarrow>
                              if e = CHR ''}'' then Some ([(k, v)], q)
                              else if e = CHR '','' then
                                map_option (\<lambda>(ps, q'). ((k, v) # ps, q')) (parse_members n (skip_space q))
                              else None)))))"

definition json_loads :: "string \<Rightarrow> pyval option" where
  "json_loads s = (case parse_value (Suc (length s)) (skip_space s) of
     None \<Rightarrow> None
   | Some (v, r) \<Rightarrow> if skip_space r = [] then Some v else None)"

section \<open>Reading back what was printed\<close>

lemma hex_nibble_digit [simp]: "n < 16 \<Longrightarrow> hex_nibble (hex_digit n) = Some n"
  by (auto simp: hex_digit_def hex_nibble_def Let_def)

lemma parse_string_char:
  "parse_string (json_char a c @ x) = (case parse_string x of None \<Rightarrow> None | Some (t, q) \<Rightarrow> Some (c # t, q))"
proof -
  define n where "n = code_point c"
  have c: "c = char_of n" by (simp add: n_def)
  have "hex_nibble CHR ''0'' = Some 0" by (simp add: hex_nibble_def)
  moreover have "16 * (n div 16) + n mod 16 = n" "n div 16 < 16" "n mod 16 < 16" by (simp_all add: n_def less_mult_imp_div_less)
  ultimately have unicode: "parse_string (json_unicode n @ x) = (case parse_string x of None \<Rightarrow> None | Some (t, q) \<Rightarrow> Some (c # t, q))"
    by (simp add: json_unicode_def) (auto split: option.split simp flip: c)
  consider "n = 34" | "n = 92" | "n = 10" | "n = 13" | "n = 9" | "n = 12" | "n = 8"
    | "n < 32" "n \<notin> {10, 13, 9, 12, 8}" | "32 \<le> n" "n \<noteq> 34" "n \<noteq> 92" by force
  then show ?thesis
  proof cases
    case 8
    then show ?thesis using unicode by (simp add: json_char_def flip: n_def)
  next
    case 9
    then show ?thesis using unicode by (simp add: json_char_def Let_def flip: n_def)
  qed (simp_all add: json_char_def c quote_chars split: option.split)
qed

lemma parse_string_chars: "parse_string (concat (map (json_char a) s) @ CHR 34 # x) = Some (s, x)"
  by (induction s) (simp_all add: parse_string_char)

lemma parse_string_json: "parse_string (tl (json_string a s) @ x) = Some (s, x)"
  using parse_string_chars [of a s x] by (simp add: json_string_def)

lemma digits_value_snoc [simp]: "digits_value (ds @ [c]) = 10 * digits_value ds + (code_point c - 48)"
  by (simp add: digits_value_def)

lemma is_digit_hex [simp]: "n < 10 \<Longrightarrow> is_digit (hex_digit n)"
  by (simp add: is_digit_def hex_digit_def)

lemma digit_code [simp]: "n < 10 \<Longrightarrow> code_point (hex_digit n) - 48 = n"
  by (simp add: hex_digit_def)

declare show_nat.simps [simp del]

lemma show_nat_digits: "list_all is_digit (show_nat n) \<and> show_nat n \<noteq> [] \<and> digits_value (show_nat n) = n"
proof (induction n rule: show_nat.induct)
  case (1 n)
  have one: "digits_value [hex_digit m] = m" if "m < 10" for m
    using that digits_value_snoc [of "[]" "hex_digit m"] by (simp add: digits_value_def)
  have "show_nat n = (if n < 10 then [hex_digit n] else show_nat (n div 10) @ [hex_digit (n mod 10)])"
    by (rule show_nat.simps)
  with 1 one show ?case by (cases "n < 10") simp_all
qed

lemma show_nat_zero: "hd (show_nat n) = CHR ''0'' \<Longrightarrow> n = 0 \<and> show_nat n = ''0''"
proof (induction n rule: show_nat.induct)
  case (1 n)
  show ?case
  proof (cases "n < 10")
    case True
    then have "show_nat n = [hex_digit n]" by (simp add: show_nat.simps)
    with 1 True digit_code [of n] show ?thesis by simp
  next
    case False
    then have "show_nat n = show_nat (n div 10) @ [hex_digit (n mod 10)]" by (subst show_nat.simps) simp
    moreover have "n div 10 \<noteq> 0" using False by (simp add: div_eq_0_iff)
    ultimately show ?thesis using 1 False show_nat_digits [of "n div 10"] by simp
  qed
qed

definition ends_number :: "string \<Rightarrow> bool" where
  "ends_number s \<longleftrightarrow> s = [] \<or> \<not> is_digit (hd s) \<and> hd s \<noteq> CHR ''.'' \<and> hd s \<noteq> CHR ''e'' \<and> hd s \<noteq> CHR ''E''"

lemma span_digits: "list_all is_digit ds \<Longrightarrow> ends_number r \<Longrightarrow> takeWhile is_digit (ds @ r) = ds \<and> dropWhile is_digit (ds @ r) = r"
  by (induction ds) (cases r; auto simp: ends_number_def)+

lemma parse_unsigned_nat: "ends_number r \<Longrightarrow> parse_unsigned sign (show_nat n @ r) = Some (PyInt (sign * int n), r)"
proof -
  assume r: "ends_number r"
  have d: "list_all is_digit (show_nat n)" "show_nat n \<noteq> []" "digits_value (show_nat n) = n"
    using show_nat_digits by blast+
  have "parse_digits (show_nat n @ r) = Some (show_nat n, r)"
  proof (cases "hd (show_nat n) = CHR ''0''")
    case True
    with show_nat_zero have "show_nat n = ''0''" by blast
    with r show ?thesis using span_digits [of "''0''" r] d(1) by (simp add: parse_digits_def)
  next
    case False
    with d span_digits [OF d(1) r] show ?thesis by (simp add: parse_digits_def Let_def)
  qed
  moreover have "parse_fraction r = (None, r)" "parse_exponent r = (None, r)"
    using r by (auto simp: parse_fraction_def parse_exponent_def ends_number_def split: list.split)
  ultimately show ?thesis by (simp add: parse_unsigned_def d(3))
qed

lemma parse_number_int: "ends_number r \<Longrightarrow> parse_number (show_int n @ r) = Some (PyInt n, r)"
proof (cases "n < 0")
  case True
  assume "ends_number r"
  with True show ?thesis by (simp add: show_int_def parse_number_def parse_unsigned_nat)
next
  case False
  assume r: "ends_number r"
  have d: "list_all is_digit (show_nat (nat n))" "show_nat (nat n) \<noteq> []" using show_nat_digits by blast+
  then obtain c ds where c: "show_nat (nat n) = c # ds" "is_digit c" by (cases "show_nat (nat n)") auto
  then have "c \<noteq> CHR ''-''" by (auto simp: is_digit_def)
  with c parse_unsigned_nat [OF r, of 1 "nat n"] False show ?thesis
    by (simp add: show_int_def parse_number_def)
qed

text \<open>A value without floats whose dictionaries have distinct keys.\<close>

function json_plain :: "pyval \<Rightarrow> bool" where
  "json_plain PyNone = True"
| "json_plain (PyBool b) = True"
| "json_plain (PyStr s) = True"
| "json_plain (PyInt n) = True"
| "json_plain (PyFloat x) = False"
| "json_plain PyNonFinite = False"
| "json_plain (PyList vs) = list_all json_plain vs"
| "json_plain (PyDict d) = (dict_ok d \<and> list_all (\<lambda>(k, v). json_plain v) d)"
  by pat_completeness auto

termination
  by (relation "measure size") (auto simp: less_Suc_eq_le intro: size_list_estimation')

text \<open>The value with its keys in sorted order, everywhere.\<close>

function canonical :: "pyval \<Rightarrow> pyval" where
  "canonical PyNone = PyNone"
| "canonical (PyBool b) = PyBool b"
| "canonical (PyStr s) = PyStr s"
| "canonical (PyInt n) = PyInt n"
| "canonical (PyFloat x) = PyFloat x"
| "canonical PyNonFinite = PyNonFinite"
| "canonical (PyList vs) = PyList (map canonical vs)"
| "canonical (PyDict d) = PyDict (sort_key fst (map (\<lambda>(k, v). (k, canonical v)) d))"
  by pat_completeness auto

termination
  by (relation "measure size") (auto simp: less_Suc_eq_le intro: size_list_estimation')

lemma insort_key_map: "(\<And>y. g (f y) = h y) \<Longrightarrow> insort_key g (f x) (map f xs) = map f (insort_key h x xs)"
  by (induction xs) auto

lemma sort_key_map: "(\<And>y. g (f y) = h y) \<Longrightarrow> sort_key g (map f xs) = map f (sort_key h xs)"
  by (induction xs) (simp_all add: insort_key_map)

lemma make_dict_distinct: "dict_ok ps \<Longrightarrow> make_dict ps = ps"
proof -
  have "foldl (\<lambda>d (k, v). AList.update k v d) d ps = d @ ps" if "dict_ok (d @ ps)" for d :: "(string \<times> pyval) list" and ps
    using that
  proof (induction ps arbitrary: d)
    case (Cons p ps)
    obtain k v where "p = (k, v)" by (cases p)
    with Cons.prems have "AList.update k v d = d @ [(k, v)]" by (intro update_fresh) auto
    with Cons.IH [of "d @ [p]"] Cons.prems \<open>p = (k, v)\<close> show ?case by simp
  qed simp
  then show "dict_ok ps \<Longrightarrow> make_dict ps = ps" by (simp add: make_dict_def)
qed

text \<open>The first character of a printed value is no white space and closes nothing.\<close>

definition starts_value :: "string \<Rightarrow> bool" where
  "starts_value s \<longleftrightarrow> s \<noteq> [] \<and> \<not> is_json_space (hd s) \<and> hd s \<noteq> CHR '']'' \<and> hd s \<noteq> CHR ''}''"

lemma starts_digits: "is_digit c \<Longrightarrow> \<not> is_json_space c \<and> c \<noteq> CHR '']'' \<and> c \<noteq> CHR ''}''"
  by (auto simp: is_digit_def is_json_space_def Let_def)

lemma starts_show_int: "starts_value (show_int n)"
proof -
  have "show_nat m \<noteq> [] \<and> is_digit (hd (show_nat m))" for m
    using show_nat_digits [of m] by (cases "show_nat m") auto
  then show ?thesis
    using starts_digits by (auto simp: starts_value_def show_int_def is_json_space_def)
qed

lemma starts_dumps: "json_plain v \<Longrightarrow> starts_value (json_dumps True a fr v)"
  using starts_show_int
  by (cases v) (auto simp: starts_value_def is_json_space_def json_string_def)

lemma skip_starts: "starts_value s \<Longrightarrow> skip_space (s @ r) = s @ r"
  by (cases s) (auto simp: starts_value_def skip_space_def)

lemma dumps_dict: "json_dumps True a fr (PyDict d) =
    ''{'' @ comma_sep (map (\<lambda>(k, v). json_string a k @ '':'' @ json_dumps True a fr v) (sort_key fst d)) @ ''}''"
proof -
  have "sort_key fst (map (\<lambda>(k, v). (k, json_dumps True a fr v)) d) =
      map (\<lambda>(k, v). (k, json_dumps True a fr v)) (sort_key fst d)"
    by (rule sort_key_map) auto
  then show ?thesis by (simp add: order_keys_def comp_def split_beta')
qed

lemma canonical_dict: "canonical (PyDict d) = PyDict (map (\<lambda>(k, v). (k, canonical v)) (sort_key fst d))"
  by (simp, rule sort_key_map) auto

lemma comma_sep_Cons: "comma_sep (s # ss) = (if ss = [] then s else s @ CHR '','' # comma_sep ss)"
  by (cases ss) simp_all

lemma skip_closing [simp]: "skip_space (CHR '']'' # r) = CHR '']'' # r" "skip_space (CHR ''}'' # r) = CHR ''}'' # r"
  "skip_space (CHR '','' # r) = CHR '','' # r" "skip_space (CHR '':'' # r) = CHR '':'' # r"
  by (simp_all add: skip_space_def is_json_space_def)

lemma ends_closing [simp]: "ends_number (CHR '']'' # r)" "ends_number (CHR ''}'' # r)" "ends_number (CHR '','' # r)"
  by (simp_all add: ends_number_def is_digit_def)

lemma starts_json_string [simp]: "starts_value (json_string a k @ r)"
  by (simp add: starts_value_def json_string_def is_json_space_def)

lemma show_int_start: "\<exists>c s. show_int n = c # s \<and> (is_digit c \<or> c = CHR ''-'' \<and> (\<exists>d q. s = d # q \<and> is_digit d))"
proof -
  have "\<exists>c s. show_nat m = c # s \<and> is_digit c" for m
    using show_nat_digits [of m] by (cases "show_nat m") auto
  from this [of "nat n"] this [of "nat (- n)"] show ?thesis by (auto simp: show_int_def)
qed

lemma strip_prefix_Cons: "strip_prefix (p # ps) (c # s) = (if p = c then strip_prefix ps s else None)"
  by (simp add: strip_prefix_def)

lemma parse_value_other: "code_point c \<noteq> 34 \<Longrightarrow> c \<noteq> CHR ''['' \<Longrightarrow> c \<noteq> CHR ''{'' \<Longrightarrow> c \<noteq> CHR ''n'' \<Longrightarrow> c \<noteq> CHR ''t'' \<Longrightarrow>
    c \<noteq> CHR ''f'' \<Longrightarrow> c \<noteq> CHR ''N'' \<Longrightarrow> c \<noteq> CHR ''I'' \<Longrightarrow> strip_prefix ''-Infinity'' (c # s) = None \<Longrightarrow>
    parse_value (Suc n) (c # s) = parse_number (c # s)"
  unfolding parse_value.simps list.case
  by (simp add: strip_prefix_Cons del: parse_value.simps)

lemma not_digits [simp]: "\<not> is_digit CHR ''n''" "\<not> is_digit CHR ''t''" "\<not> is_digit CHR ''f''" "\<not> is_digit CHR ''N''"
  "\<not> is_digit CHR ''I''" "\<not> is_digit CHR ''[''" "\<not> is_digit CHR ''{''" "\<not> is_digit CHR ''-''"
  by code_simp+

lemma parse_value_int: "ends_number r \<Longrightarrow> parse_value (Suc n) (show_int m @ r) = Some (PyInt m, r)"
proof -
  assume r: "ends_number r"
  obtain c s where s: "show_int m = c # s" "is_digit c \<or> c = CHR ''-'' \<and> (\<exists>d q. s = d # q \<and> is_digit d)"
    using show_int_start [of m] by metis
  have "code_point c \<noteq> 34" using s(2) by (auto simp: is_digit_def)
  moreover have "strip_prefix ''-Infinity'' (c # s @ r) = None"
    using s(2) by (auto simp: strip_prefix_Cons)
  ultimately have "parse_value (Suc n) (c # s @ r) = parse_number (c # s @ r)"
    by (intro parse_value_other) (use s(2) in auto)
  with parse_number_int [OF r, of m] show ?thesis
    by (simp add: s(1) del: parse_value.simps)
qed

lemma parse_value_words:
  "parse_value (Suc n) (CHR ''n'' # CHR ''u'' # CHR ''l'' # CHR ''l'' # r) = Some (PyNone, r)"
  "parse_value (Suc n) (CHR ''t'' # CHR ''r'' # CHR ''u'' # CHR ''e'' # r) = Some (PyBool True, r)"
  "parse_value (Suc n) (CHR ''f'' # CHR ''a'' # CHR ''l'' # CHR ''s'' # CHR ''e'' # r) = Some (PyBool False, r)"
  by (simp_all add: strip_prefix_def)

lemma parse_value_string: "parse_value (Suc n) (json_string a s @ r) = Some (PyStr s, r)"
  using parse_string_chars [of a s r] by (simp add: json_string_def)

lemma dumps_length: "json_plain v \<Longrightarrow> 0 < length (json_dumps True a fr v)"
  using starts_dumps by (simp add: starts_value_def)

text \<open>
  Fuel as long as the text is enough for every value, for the elements of a list and for the
  members of a dictionary.
\<close>

lemma parse_dumps:
  "json_plain v \<Longrightarrow> length (json_dumps True a fr v) \<le> n \<Longrightarrow> ends_number r \<Longrightarrow>
     parse_value n (json_dumps True a fr v @ r) = Some (canonical v, r)"
  "vs \<noteq> [] \<Longrightarrow> list_all json_plain vs \<Longrightarrow> length (comma_sep (map (json_dumps True a fr) vs)) < n \<Longrightarrow>
     parse_elements n (comma_sep (map (json_dumps True a fr) vs) @ CHR '']'' # q) = Some (map canonical vs, q)"
  "ps \<noteq> [] \<Longrightarrow> list_all (\<lambda>(k, v). json_plain v) ps \<Longrightarrow>
     length (comma_sep (map (\<lambda>(k, v). json_string a k @ '':'' @ json_dumps True a fr v) ps)) < n \<Longrightarrow>
     parse_members n (comma_sep (map (\<lambda>(k, v). json_string a k @ '':'' @ json_dumps True a fr v) ps) @ CHR ''}'' # q) =
       Some (map (\<lambda>(k, v). (k, canonical v)) ps, q)"
proof (induction n arbitrary: v vs ps r q)
  case 0
  { case 1 with dumps_length [of v a fr] show ?case by simp }
  { case 2 then show ?case by simp }
  { case 3 then show ?case by simp }
next
  case (Suc n)
  {
    case 1
    show ?case
    proof (cases v)
      case (PyList vs)
      show ?thesis
      proof (cases vs)
        case (Cons w ws)
        let ?s = "comma_sep (map (json_dumps True a fr) vs)"
        have "starts_value ?s"
          using starts_dumps [of w a fr] 1 PyList Cons by (auto simp: comma_sep_Cons starts_value_def)
        then have "skip_space (?s @ CHR '']'' # r) = ?s @ CHR '']'' # r" "?s \<noteq> []" "hd ?s \<noteq> CHR '']''"
          by (simp_all add: skip_starts, simp_all add: starts_value_def)
        moreover have "parse_elements n (?s @ CHR '']'' # r) = Some (map canonical vs, r)"
          using 1 PyList Cons by (intro Suc.IH(2)) auto
        ultimately show ?thesis
          by (cases ?s) (simp_all add: PyList)
      qed (simp add: PyList skip_space_def is_json_space_def)
    next
      case (PyDict d)
      let ?e = "\<lambda>(k, v). json_string a k @ '':'' @ json_dumps True a fr v"
      let ?d = "sort_key fst d"
      show ?thesis
      proof (cases ?d)
        case Nil
        then have "d = []" by (metis length_0_conv length_sort)
        then show ?thesis by (simp add: PyDict order_keys_def)
      next
        case (Cons p ps)
        let ?s = "comma_sep (map ?e ?d)"
        have "starts_value ?s"
          unfolding Cons by (auto simp: comma_sep_Cons split: prod.split)
        then have "skip_space (?s @ CHR ''}'' # r) = ?s @ CHR ''}'' # r" "?s \<noteq> []" "hd ?s \<noteq> CHR ''}''"
          by (simp_all add: skip_starts, simp_all add: starts_value_def)
        moreover have "parse_members n (?s @ CHR ''}'' # r) = Some (map (\<lambda>(k, v). (k, canonical v)) ?d, r)"
        proof (rule Suc.IH(3))
          show "?d \<noteq> []" by (simp add: Cons)
          show "list_all (\<lambda>(k, v). json_plain v) ?d" using 1 PyDict by (simp add: list_all_iff)
          show "length ?s < n" using 1(2) unfolding PyDict dumps_dict by simp
        qed
        moreover have "dict_ok (map (\<lambda>(k, v). (k, canonical v)) ?d)"
          using 1 PyDict by (simp add: comp_def split_beta')
        ultimately show ?thesis
          unfolding PyDict dumps_dict canonical_dict
          by (cases ?s) (simp_all add: make_dict_distinct)
      qed
    qed (use 1 in \<open>simp_all add: parse_value_int parse_value_string parse_value_words del: parse_value.simps(2)\<close>)
  }
  {
    case 2
    then obtain w ws where vs: "vs = w # ws" by (cases vs) auto
    show ?case
    proof (cases ws)
      case Nil
      with 2 vs Suc.IH(1) [of w "CHR '']'' # q"] show ?thesis by simp
    next
      case (Cons u us)
      let ?s = "comma_sep (map (json_dumps True a fr) ws)"
      have s: "comma_sep (map (json_dumps True a fr) vs) = json_dumps True a fr w @ CHR '','' # ?s"
        by (simp add: vs Cons)
      have "starts_value ?s"
        using starts_dumps [of u a fr] 2 vs Cons by (auto simp: comma_sep_Cons starts_value_def)
      moreover have "parse_value n (json_dumps True a fr w @ CHR '','' # ?s @ CHR '']'' # q) =
          Some (canonical w, CHR '','' # ?s @ CHR '']'' # q)"
        using 2 s vs by (intro Suc.IH(1)) auto
      moreover have "parse_elements n (?s @ CHR '']'' # q) = Some (map canonical ws, q)"
        using 2 s vs Cons by (intro Suc.IH(2)) auto
      ultimately show ?thesis unfolding s by (simp add: vs skip_starts)
    qed
  }
  {
    case 3
    let ?e = "\<lambda>(k, v). json_string a k @ '':'' @ json_dumps True a fr v"
    from 3 obtain k w ps' where ps: "ps = (k, w) # ps'" by (cases ps) auto
    have w: "json_plain w" using 3 ps by simp
    have key: "parse_members (Suc n) (json_string a k @ CHR '':'' # x) =
        (case parse_value n (skip_space x) of None \<Rightarrow> None
         | Some (v, r3) \<Rightarrow> (case skip_space r3 of [] \<Rightarrow> None
             | e # q \<Rightarrow> if e = CHR ''}'' then Some ([(k, v)], q)
                else if e = CHR '','' then map_option (\<lambda>(ps, q'). ((k, v) # ps, q')) (parse_members n (skip_space q))
                else None))" for x
      using parse_string_chars [of a k "CHR '':'' # x"] by (simp add: json_string_def)
    show ?case
    proof (cases ps')
      case Nil
      have "parse_value n (json_dumps True a fr w @ CHR ''}'' # q) = Some (canonical w, CHR ''}'' # q)"
        using 3 ps Nil w by (intro Suc.IH(1)) auto
      then show ?thesis
        using skip_starts [OF starts_dumps [OF w]]
        by (simp add: ps Nil key del: parse_members.simps)
    next
      case (Cons p us)
      let ?s = "comma_sep (map ?e ps')"
      have s: "comma_sep (map ?e ps) = json_string a k @ CHR '':'' # json_dumps True a fr w @ CHR '','' # ?s"
        by (simp add: ps Cons)
      have "starts_value ?s"
        unfolding Cons by (auto simp: comma_sep_Cons split: prod.split)
      moreover have "parse_value n (json_dumps True a fr w @ CHR '','' # ?s @ CHR ''}'' # q) =
          Some (canonical w, CHR '','' # ?s @ CHR ''}'' # q)"
        using 3 s w by (intro Suc.IH(1)) auto
      moreover have "parse_members n (?s @ CHR ''}'' # q) = Some (map (\<lambda>(k, v). (k, canonical v)) ps', q)"
        using 3 s ps Cons by (intro Suc.IH(3)) auto
      ultimately show ?thesis
        using skip_starts [OF starts_dumps [OF w]]
        unfolding s by (simp add: ps key skip_starts del: parse_members.simps)
    qed
  }
qed

theorem loads_dumps: "json_plain v \<Longrightarrow> json_loads (json_dumps True a fr v) = Some (canonical v)"
proof -
  assume v: "json_plain v"
  have "parse_value (Suc (length (json_dumps True a fr v))) (json_dumps True a fr v @ []) = Some (canonical v, [])"
    using v by (intro parse_dumps) (simp_all add: ends_number_def)
  then show ?thesis
    using skip_starts [OF starts_dumps [OF v], of a fr "[]"]
    by (simp add: json_loads_def skip_space_def del: parse_value.simps)
qed

end
