(* ===== verification/References.thy ===== *)
theory References
  imports Json_Parser
begin

text \<open>
  \<open>references.py\<close>: self-contained references, a Base64 payload of claims and an HMAC-SHA-256
  signature over its text. The clock is an argument of every call. Base64 follows the strict mode of
  CPython's \<open>binascii.a2b_base64\<close>, which does not look at the unused bits of the last character.
\<close>

section \<open>Base64 with the URL-safe alphabet\<close>

definition b64_char :: "nat \<Rightarrow> char" where
  "b64_char n = (if n < 26 then char_of (65 + n) else if n < 52 then char_of (71 + n)
     else if n < 62 then char_of (n - 4) else if n = 62 then CHR ''-'' else CHR ''_'')"

text \<open>\<open>altchars\<close> are translated to \<open>+\<close> and \<open>/\<close>, which stay digits themselves.\<close>

definition b64_digit :: "char \<Rightarrow> nat option" where
  "b64_digit c = (let n = code_point c in
     if is_upper c then Some (n - 65) else if is_lower c then Some (n - 71)
     else if is_digit c then Some (n + 4) else if c = CHR ''-'' \<or> c = CHR ''+'' then Some 62
     else if c = CHR ''_'' \<or> c = CHR ''/'' then Some 63 else None)"

text \<open>\<open>_encode\<close>: without the padding.\<close>

fun b64_encode :: "nat list \<Rightarrow> string" where
  "b64_encode (a # b # c # r) =
     map b64_char [a div 4, a mod 4 * 16 + b div 16, b mod 16 * 4 + c div 64, c mod 64] @ b64_encode r"
| "b64_encode [a, b] = map b64_char [a div 4, a mod 4 * 16 + b div 16, b mod 16 * 4]"
| "b64_encode [a] = map b64_char [a div 4, a mod 4 * 16]"
| "b64_encode [] = []"

text \<open>
  The loop of \<open>a2b_base64\<close>: the position in the group of four, the bits left over, the padding
  characters counted and whether padding has started.
\<close>

fun b64_loop :: "nat \<Rightarrow> nat \<Rightarrow> nat \<Rightarrow> bool \<Rightarrow> string \<Rightarrow> nat list option" where
  "b64_loop q left pads padding [] = (if q = 0 then Some [] else None)"
| "b64_loop q left pads padding (c # r) =
     (if c = CHR ''='' then
        (if 2 \<le> q \<and> 4 \<le> q + (pads + 1) then (if r = [] then Some [] else None)
         else b64_loop q left (if 2 \<le> q then pads + 1 else pads) True r)
      else case b64_digit c of
        None \<Rightarrow> None
      | Some v \<Rightarrow>
          if padding then None
          else if q = 0 then b64_loop 1 v 0 padding r
          else if q = 1 then map_option (Cons (left * 4 + v div 16)) (b64_loop 2 (v mod 16) 0 padding r)
          else if q = 2 then map_option (Cons (left * 16 + v div 4)) (b64_loop 3 (v mod 4) 0 padding r)
          else map_option (Cons (left * 64 + v)) (b64_loop 0 0 0 padding r))"

definition invalid_reference :: "string \<Rightarrow> exn" where
  "invalid_reference code = HubError code REFERENCE False []"

definition is_ascii :: "string \<Rightarrow> bool" where
  "is_ascii s \<longleftrightarrow> list_all (\<lambda>c. code_point c < 128) s"

definition b64_decode :: "string \<Rightarrow> nat list result" where
  "b64_decode s =
     (let padded = s @ replicate ((4 - length s mod 4) mod 4) (CHR ''='')
      in if \<not> is_ascii padded \<or> take 1 padded = ''='' then Inl (invalid_reference ''invalid_reference'')
         else case b64_loop 0 0 0 False padded of
           None \<Rightarrow> Inl (invalid_reference ''invalid_reference'')
         | Some bs \<Rightarrow> Inr bs)"

text \<open>\<open>bytes.decode("utf-8")\<close>, for texts of the modelled characters.\<close>

fun utf8_decode :: "nat list \<Rightarrow> string option" where
  "utf8_decode [] = Some []"
| "utf8_decode (a # r) =
     (if a < 128 then map_option (Cons (char_of a)) (utf8_decode r)
      else if a = 194 \<or> a = 195 then
        (case r of
           b # q \<Rightarrow> if 128 \<le> b \<and> b < 192 then map_option (Cons (char_of ((a - 192) * 64 + (b - 128)))) (utf8_decode q)
                   else None
         | [] \<Rightarrow> None)
      else None)"

section \<open>Claims\<close>

record reference_claims =
  cl_revision :: string
  cl_scope :: string
  cl_purpose :: string
  cl_issued :: int
  cl_expires :: int

definition claims_payload :: "reference_claims \<Rightarrow> pyval" where
  "claims_payload cl = PyDict [(''exp'', PyInt (cl_expires cl)), (''iat'', PyInt (cl_issued cl)),
     (''purpose'', PyStr (cl_purpose cl)), (''revision'', PyStr (cl_revision cl)),
     (''scope'', PyStr (cl_scope cl)), (''v'', PyInt 1)]"

fun is_int :: "pyval option \<Rightarrow> bool" where
  "is_int (Some (PyInt n)) = True"
| "is_int _ = False"

fun int_of :: "pyval option \<Rightarrow> int" where
  "int_of (Some (PyInt n)) = n"
| "int_of _ = 0"

fun is_str :: "pyval option \<Rightarrow> bool" where
  "is_str (Some (PyStr s)) = (s \<noteq> [])"
| "is_str _ = False"

fun str_of :: "pyval option \<Rightarrow> string" where
  "str_of (Some (PyStr s)) = s"
| "str_of _ = []"

text \<open>\<open>payload["v"] != 1\<close> fails for \<open>True\<close> and \<open>1.0\<close> too.\<close>

fun is_one :: "pyval option \<Rightarrow> bool" where
  "is_one (Some (PyInt n)) = (n = 1)"
| "is_one (Some (PyBool b)) = b"
| "is_one (Some (PyFloat x)) = (x = 1)"
| "is_one _ = False"

definition parse_claims :: "nat list \<Rightarrow> reference_claims result" where
  "parse_claims bs =
     (case Option.bind (utf8_decode bs) json_loads of
        Some (PyDict d) \<Rightarrow>
          if set (map fst d) \<noteq> {''exp'', ''iat'', ''purpose'', ''revision'', ''scope'', ''v''}
             \<or> \<not> is_one (map_of d ''v'') \<or> \<not> is_int (map_of d ''iat'') \<or> \<not> is_int (map_of d ''exp'')
             \<or> int_of (map_of d ''exp'') \<le> int_of (map_of d ''iat'')
             \<or> \<not> is_str (map_of d ''purpose'') \<or> \<not> is_str (map_of d ''revision'') \<or> \<not> is_str (map_of d ''scope'')
          then Inl (invalid_reference ''invalid_reference'')
          else Inr \<lparr>cl_revision = str_of (map_of d ''revision''), cl_scope = str_of (map_of d ''scope''),
            cl_purpose = str_of (map_of d ''purpose''), cl_issued = int_of (map_of d ''iat''),
            cl_expires = int_of (map_of d ''exp'')\<rparr>
      | _ \<Rightarrow> Inl (invalid_reference ''invalid_reference''))"

section \<open>Signing and verifying\<close>

definition reference_domain :: "nat list" where
  "reference_domain = utf8 ''capabilityhub-reference-v1'' @ [0]"

definition new_signer :: "nat list \<Rightarrow> nat list result" where
  "new_signer key = (if key = [] then Inl ValueError else Inr key)"

text \<open>\<open>encoded.encode("ascii")\<close> raises \<open>UnicodeEncodeError\<close>, a \<open>ValueError\<close>.\<close>

definition signature :: "nat list \<Rightarrow> string \<Rightarrow> nat list result" where
  "signature key encoded =
     (if is_ascii encoded then Inr (hmac_bytes key (reference_domain @ map code_point encoded)) else Inl ValueError)"

text \<open>\<open>int(clock())\<close> truncates towards zero.\<close>

definition int_time :: "rat \<Rightarrow> int" where
  "int_time t = (if t < 0 then - \<lfloor>- t\<rfloor> else \<lfloor>t\<rfloor>)"

definition issue_reference :: "nat list \<Rightarrow> string \<Rightarrow> string \<Rightarrow> pyval \<Rightarrow> string \<Rightarrow> rat \<Rightarrow> string result" where
  "issue_reference key revision scope ttl purpose now =
     (if revision = [] \<or> scope = [] \<or> purpose = [] then Inl ValueError
      else case ttl of
        PyInt seconds \<Rightarrow>
          if seconds \<le> 0 then Inl ValueError
          else (let issued = int_time now;
                    encoded = b64_encode (utf8 (json_dumps True False (\<lambda>_. []) (claims_payload
                      \<lparr>cl_revision = revision, cl_scope = scope, cl_purpose = purpose, cl_issued = issued,
                       cl_expires = issued + seconds\<rparr>)))
                in rbind (signature key encoded) (\<lambda>sig.
                     Inr (''chref1.'' @ encoded @ ''.'' @ b64_encode sig)))
      | _ \<Rightarrow> Inl ValueError)"

fun split_dots :: "string \<Rightarrow> string list" where
  "split_dots [] = [[]]"
| "split_dots (c # s) =
     (if c = CHR ''.'' then [] # split_dots s
      else case split_dots s of [] \<Rightarrow> [[c]] | p # ps \<Rightarrow> (c # p) # ps)"

text \<open>\<open>hmac.compare_digest\<close> of two strings refuses characters outside ASCII.\<close>

definition compare_text :: "string \<Rightarrow> string \<Rightarrow> bool result" where
  "compare_text a b = (if is_ascii a \<and> is_ascii b then Inr (a = b) else Inl TypeError)"

definition require_text_equal :: "string \<Rightarrow> string \<Rightarrow> string \<Rightarrow> unit result" where
  "require_text_equal a b code =
     rbind (compare_text a b) (\<lambda>same. if same then Inr () else Inl (invalid_reference code))"

definition check_claims ::
  "reference_claims \<Rightarrow> string \<Rightarrow> string option \<Rightarrow> string \<Rightarrow> rat \<Rightarrow> reference_claims result" where
  "check_claims cl expected_scope expected_revision expected_purpose now =
     (if cl_expires cl \<le> int_time now then Inl (invalid_reference ''reference_expired'')
      else if int_time now + 60 < cl_issued cl then Inl (invalid_reference ''reference_not_yet_valid'')
      else rbind (require_text_equal (cl_scope cl) expected_scope ''reference_scope_mismatch'') (\<lambda>_.
        rbind (require_text_equal (cl_purpose cl) expected_purpose ''reference_purpose_mismatch'') (\<lambda>_.
        rbind (case expected_revision of None \<Rightarrow> Inr ()
               | Some r \<Rightarrow> require_text_equal (cl_revision cl) r ''reference_revision_mismatch'') (\<lambda>_. Inr cl))))"

definition verify_reference ::
  "nat list \<Rightarrow> string \<Rightarrow> string \<Rightarrow> string option \<Rightarrow> string \<Rightarrow> rat \<Rightarrow> reference_claims result" where
  "verify_reference key reference expected_scope expected_revision expected_purpose now =
     (if expected_scope = [] \<or> expected_purpose = [] then Inl ValueError
      else case split_dots reference of
        [prefix, encoded, encoded_signature] \<Rightarrow>
          if prefix \<noteq> ''chref1'' then Inl (invalid_reference ''invalid_reference'')
          else rbind (b64_decode encoded_signature) (\<lambda>supplied.
            rbind (signature key encoded) (\<lambda>expected.
              if supplied \<noteq> expected then Inl (invalid_reference ''reference_tampered'')
              else rbind (b64_decode encoded) (\<lambda>serialized.
                rbind (parse_claims serialized) (\<lambda>cl.
                  check_claims cl expected_scope expected_revision expected_purpose now))))
      | _ \<Rightarrow> Inl (invalid_reference ''invalid_reference''))"

section \<open>Base64 round trip\<close>

lemma b64_digit_char: "n < 64 \<Longrightarrow> b64_digit (b64_char n) = Some n"
proof -
  assume "n < 64"
  then consider "n < 26" | "26 \<le> n" "n < 52" | "52 \<le> n" "n < 62" | "n = 62" | "n = 63" by linarith
  then show ?thesis
    by cases (auto simp: b64_char_def b64_digit_def is_upper_def is_lower_def is_digit_def Let_def)
qed

lemma b64_char_code: "n < 64 \<Longrightarrow> code_point (b64_char n) < 128 \<and> code_point (b64_char n) \<notin> {61, 46}"
proof -
  assume "n < 64"
  then consider "n < 26" | "26 \<le> n" "n < 52" | "52 \<le> n" "n < 62" | "n = 62" | "n = 63" by linarith
  then show ?thesis by cases (auto simp: b64_char_def)
qed

lemma b64_char_plain: "n < 64 \<Longrightarrow> b64_char n \<noteq> CHR ''='' \<and> b64_char n \<noteq> CHR ''.'' \<and> code_point (b64_char n) < 128"
  using b64_char_code [of n] by auto

lemma b64_loop_char:
  assumes "n < 64"
  shows "b64_loop 0 l p False (b64_char n # r) = b64_loop (Suc 0) n 0 False r"
    "b64_loop (Suc 0) l p False (b64_char n # r) = map_option (Cons (l * 4 + n div 16)) (b64_loop 2 (n mod 16) 0 False r)"
    "b64_loop 2 l p False (b64_char n # r) = map_option (Cons (l * 16 + n div 4)) (b64_loop 3 (n mod 4) 0 False r)"
    "b64_loop 3 l p False (b64_char n # r) = map_option (Cons (l * 64 + n)) (b64_loop 0 0 0 False r)"
  using b64_char_plain [OF assms] b64_digit_char [OF assms] by simp_all

lemma b64_loop_pad:
  "b64_loop 2 l 0 False ''=='' = Some []" "b64_loop 3 l 0 False ''='' = Some []" "b64_loop 0 l p b [] = Some []"
  by simp_all

definition b64_padding :: "nat list \<Rightarrow> string" where
  "b64_padding bs = replicate ((4 - length (b64_encode bs) mod 4) mod 4) (CHR ''='')"

lemma b64_encode_chars: "list_all (\<lambda>b. b < 256) bs \<Longrightarrow>
    list_all (\<lambda>c. c \<noteq> CHR ''='' \<and> c \<noteq> CHR ''.'' \<and> code_point c < 128) (b64_encode bs)"
proof (induction bs rule: b64_encode.induct)
  case (1 a b c r)
  then have "a div 4 < 64" "a mod 4 * 16 + b div 16 < 64" "b mod 16 * 4 + c div 64 < 64" "c mod 64 < 64" by auto
  with 1 show ?case by (simp add: b64_char_plain)
next
  case (2 a b)
  then have "a div 4 < 64" "a mod 4 * 16 + b div 16 < 64" "b mod 16 * 4 < 64" by auto
  then show ?case by (simp add: b64_char_plain)
next
  case (3 a)
  then have "a div 4 < 64" "a mod 4 * 16 < 64" by auto
  then show ?case by (simp add: b64_char_plain)
qed simp

lemma b64_loop_encode: "list_all (\<lambda>b. b < 256) bs \<Longrightarrow> b64_loop 0 0 0 False (b64_encode bs @ b64_padding bs) = Some bs"
proof (induction bs rule: b64_encode.induct)
  case (1 a b c r)
  then have lt: "a div 4 < 64" "a mod 4 * 16 + b div 16 < 64" "b mod 16 * 4 + c div 64 < 64" "c mod 64 < 64"
      "b div 16 < 16" "c div 64 < 4"
    by auto
  have "(b64_encode (a # b # c # r) @ b64_padding (a # b # c # r)) =
      map b64_char [a div 4, a mod 4 * 16 + b div 16, b mod 16 * 4 + c div 64, c mod 64] @ b64_encode r @ b64_padding r"
    by (simp add: b64_padding_def)
  with 1 lt show ?case by (simp add: b64_loop_char del: b64_loop.simps b64_encode.simps)
next
  case (2 a b)
  then have lt: "a div 4 < 64" "a mod 4 * 16 + b div 16 < 64" "b mod 16 * 4 < 64" "b div 16 < 16" by auto
  have "b64_padding [a, b] = ''=''" by (simp add: b64_padding_def)
  with 2 lt show ?case by (simp add: b64_loop_char b64_loop_pad del: b64_loop.simps)
next
  case (3 a)
  then have lt: "a div 4 < 64" "a mod 4 * 16 < 64" by auto
  have "length (b64_encode [a]) = 2" by simp
  then have "b64_padding [a] = ''==''" by (simp add: b64_padding_def numeral_2_eq_2 del: b64_encode.simps)
  with 3 lt show ?case by (simp add: b64_loop_char b64_loop_pad del: b64_loop.simps)
qed (simp add: b64_padding_def)

lemma list_all_replicate: "P x \<Longrightarrow> list_all P (replicate n x)"
  by (induction n) simp_all

lemma padding_ascii: "list_all (\<lambda>c. code_point c < 128) (b64_padding bs)"
  unfolding b64_padding_def by (rule list_all_replicate) simp

lemma b64_round_trip:
  assumes "list_all (\<lambda>b. b < 256) bs"
  shows "b64_decode (b64_encode bs) = Inr bs"
proof -
  have "is_ascii (b64_encode bs @ b64_padding bs)"
    using b64_encode_chars [OF assms] padding_ascii [of bs] by (auto simp: is_ascii_def list_all_iff)
  moreover have "take 1 (b64_encode bs @ b64_padding bs) \<noteq> ''=''"
  proof (cases "b64_encode bs")
    case Nil
    then have "b64_padding bs = []" by (simp add: b64_padding_def)
    with Nil show ?thesis by simp
  next
    case (Cons c r)
    with b64_encode_chars [OF assms] show ?thesis by simp
  qed
  ultimately show ?thesis
    using b64_loop_encode [OF assms] by (simp add: b64_decode_def b64_padding_def)
qed

lemma utf8_bytes: "list_all (\<lambda>b. b < 256) (utf8 s)"
proof -
  have "code_point c div 64 < 64" for c
    using nat_of_char_less_256 [of c] by linarith
  then show ?thesis by (induction s) (auto simp: utf8_def Let_def)
qed

lemma utf8_decode_encode: "utf8_decode (utf8 s) = Some s"
proof (induction s)
  case (Cons c s)
  have split: "utf8 (c # s) = (if code_point c < 128 then [code_point c]
      else [192 + code_point c div 64, 128 + code_point c mod 64]) @ utf8 s"
    by (simp add: utf8_def Let_def)
  show ?case
  proof (cases "code_point c < 128")
    case False
    have "code_point c < 256" by (rule nat_of_char_less_256)
    with False have "code_point c div 64 = 2 \<or> code_point c div 64 = 3" by linarith
    moreover have "code_point c div 64 * 64 + code_point c mod 64 = code_point c" by simp
    ultimately show ?thesis using False Cons by (auto simp: split)
  qed (simp add: split Cons)
qed (simp add: utf8_def)

lemma words_bytes: "list_all (\<lambda>b. b < 256) (concat (map word_bytes ws))"
  by (auto simp: list_all_iff word_bytes_def)

lemma hmac_bytes_bytes: "list_all (\<lambda>b. b < 256) (hmac_bytes key m)"
  by (simp add: hmac_bytes_def words_bytes)

section \<open>What a reference says\<close>

lemma b64_no_dot: "list_all (\<lambda>b. b < 256) bs \<Longrightarrow> CHR ''.'' \<notin> set (b64_encode bs)"
  using b64_encode_chars by (fastforce simp: list_all_iff)

lemma split_dots_plain: "CHR ''.'' \<notin> set s \<Longrightarrow> split_dots s = [s]"
  by (induction s) auto

lemma split_dots_append: "CHR ''.'' \<notin> set s \<Longrightarrow> split_dots (s @ CHR ''.'' # r) = s # split_dots r"
  by (induction s) auto

lemma split_reference:
  assumes "CHR ''.'' \<notin> set e" "CHR ''.'' \<notin> set s"
  shows "split_dots (''chref1.'' @ e @ ''.'' @ s) = [''chref1'', e, s]"
  using split_dots_append [of "''chref1''" "e @ ''.'' @ s"] assms by (simp add: split_dots_append split_dots_plain)

lemma parse_claims_payload:
  assumes "cl_issued cl < cl_expires cl" "cl_revision cl \<noteq> []" "cl_scope cl \<noteq> []" "cl_purpose cl \<noteq> []"
  shows "parse_claims (utf8 (json_dumps True False fr (claims_payload cl))) = Inr cl"
proof -
  have "json_plain (claims_payload cl)" by (simp add: claims_payload_def)
  then have "json_loads (json_dumps True False fr (claims_payload cl)) = Some (canonical (claims_payload cl))"
    by (rule loads_dumps)
  moreover have "canonical (claims_payload cl) = claims_payload cl"
    by (simp add: claims_payload_def)
  ultimately show ?thesis
    using assms by (simp add: parse_claims_def utf8_decode_encode) (auto simp: claims_payload_def)
qed

definition issued_claims :: "string \<Rightarrow> string \<Rightarrow> int \<Rightarrow> string \<Rightarrow> rat \<Rightarrow> reference_claims" where
  "issued_claims revision scope seconds purpose now = \<lparr>cl_revision = revision, cl_scope = scope, cl_purpose = purpose,
     cl_issued = int_time now, cl_expires = int_time now + seconds\<rparr>"

lemma issue_cases:
  assumes "issue_reference key revision scope ttl purpose now = Inr r"
  obtains seconds encoded where "ttl = PyInt seconds" "0 < seconds" "revision \<noteq> []" "scope \<noteq> []" "purpose \<noteq> []"
    "encoded = b64_encode (utf8 (json_dumps True False (\<lambda>_. []) (claims_payload (issued_claims revision scope seconds purpose now))))"
    "is_ascii encoded"
    "r = ''chref1.'' @ encoded @ ''.'' @ b64_encode (hmac_bytes key (reference_domain @ map code_point encoded))"
  using assms
  by (auto simp: issue_reference_def signature_def rbind_eq_Inr Let_def issued_claims_def split: pyval.splits if_splits)

text \<open>Verifying an issued reference checks the issued claims, nothing else can go wrong.\<close>

lemma verify_issued:
  assumes "issue_reference key revision scope ttl purpose now = Inr r" "scope' \<noteq> []" "purpose' \<noteq> []"
  shows "verify_reference key r scope' revision' purpose' later =
    check_claims (issued_claims revision scope (int_of (Some ttl)) purpose now) scope' revision' purpose' later"
proof -
  obtain seconds encoded where ttl: "ttl = PyInt seconds" "0 < seconds" "revision \<noteq> []" "scope \<noteq> []" "purpose \<noteq> []"
    and e: "encoded = b64_encode (utf8 (json_dumps True False (\<lambda>_. []) (claims_payload (issued_claims revision scope seconds purpose now))))"
    and ascii: "is_ascii encoded"
    and r: "r = ''chref1.'' @ encoded @ ''.'' @ b64_encode (hmac_bytes key (reference_domain @ map code_point encoded))"
    by (rule issue_cases [OF assms(1)])
  have "split_dots r = [''chref1'', encoded, b64_encode (hmac_bytes key (reference_domain @ map code_point encoded))]"
    unfolding r e by (intro split_reference b64_no_dot utf8_bytes hmac_bytes_bytes)
  moreover have "b64_decode encoded = Inr (utf8 (json_dumps True False (\<lambda>_. []) (claims_payload (issued_claims revision scope seconds purpose now))))"
    unfolding e by (rule b64_round_trip [OF utf8_bytes])
  moreover have "parse_claims (utf8 (json_dumps True False (\<lambda>_. []) (claims_payload (issued_claims revision scope seconds purpose now)))) =
      Inr (issued_claims revision scope seconds purpose now)"
    using ttl by (intro parse_claims_payload) (simp_all add: issued_claims_def)
  ultimately show ?thesis
    using assms(2,3) ascii ttl by (simp add: verify_reference_def b64_round_trip hmac_bytes_bytes signature_def)
qed

lemma issue_ok:
  assumes "revision \<noteq> []" "scope \<noteq> []" "purpose \<noteq> []" "0 < seconds"
  shows "\<exists>r. issue_reference key revision scope (PyInt seconds) purpose now = Inr r"
proof -
  have "is_ascii (b64_encode bs)" if "list_all (\<lambda>b. b < 256) bs" for bs
    using b64_encode_chars [OF that] by (auto simp: is_ascii_def list_all_iff)
  then show ?thesis using assms by (simp add: issue_reference_def signature_def Let_def utf8_bytes)
qed

lemma check_claims_ascii:
  assumes "is_ascii (cl_scope cl)" "is_ascii (cl_purpose cl)" "is_ascii (cl_revision cl)"
    "is_ascii scope" "is_ascii purpose" "\<And>r. revision = Some r \<Longrightarrow> is_ascii r"
  shows "check_claims cl scope revision purpose now = Inr cl' \<longleftrightarrow> cl' = cl \<and> int_time now < cl_expires cl \<and>
    cl_issued cl \<le> int_time now + 60 \<and> scope = cl_scope cl \<and> purpose = cl_purpose cl \<and>
    (revision = None \<or> revision = Some (cl_revision cl))"
  using assms
  by (cases revision) (auto simp: check_claims_def require_text_equal_def compare_text_def rbind_eq_Inr)

lemma split_dots_nonempty: "split_dots s \<noteq> []"
  by (induction s) (auto split: list.split)

lemma split_dots_join: "concat (map (\<lambda>p. p @ ''.'') (butlast (split_dots s))) @ last (split_dots s) = s"
proof (induction s)
  case (Cons c s)
  show ?case using Cons split_dots_nonempty [of s] by (cases "split_dots s") auto
qed simp

lemma verify_cases:
  assumes "verify_reference key reference scope revision purpose now = Inr cl"
  obtains encoded tag serialized where "reference = ''chref1.'' @ encoded @ ''.'' @ tag" "is_ascii encoded"
    "b64_decode tag = Inr (hmac_bytes key (reference_domain @ map code_point encoded))"
    "b64_decode encoded = Inr serialized" "parse_claims serialized = Inr cl"
    "check_claims cl scope revision purpose now = Inr cl"
proof -
  have same: "cl' = cl''" if "check_claims cl' scope revision purpose now = Inr cl''" for cl' cl''
    using that by (auto simp: check_claims_def rbind_eq_Inr split: if_splits)
  from assms obtain encoded tag where parts: "split_dots reference = [''chref1'', encoded, tag]"
    by (auto simp: verify_reference_def split: list.splits if_splits)
  with assms obtain serialized where
    "b64_decode tag = Inr (hmac_bytes key (reference_domain @ map code_point encoded))" "is_ascii encoded"
    "b64_decode encoded = Inr serialized" "parse_claims serialized = Inr cl"
    "check_claims cl scope revision purpose now = Inr cl"
    by (auto simp: verify_reference_def signature_def rbind_eq_Inr split: if_splits dest: same)
  moreover have "reference = ''chref1.'' @ encoded @ ''.'' @ tag"
    using split_dots_join [of reference] by (simp add: parts)
  ultimately show ?thesis using that by blast
qed

section \<open>Properties\<close>

text \<open>Texts of ASCII characters.\<close>

lemma is_ascii_append [simp]: "is_ascii (s @ t) = (is_ascii s \<and> is_ascii t)"
  by (simp add: is_ascii_def)

lemma is_ascii_Nil [simp]: "is_ascii []"
  by (simp add: is_ascii_def)

lemma is_ascii_Cons [simp]: "is_ascii (c # s) = (code_point c < 128 \<and> is_ascii s)"
  by (simp add: is_ascii_def)

lemma is_ascii_concat: "(\<And>x. x \<in> set xs \<Longrightarrow> is_ascii x) \<Longrightarrow> is_ascii (concat xs)"
  by (induction xs) auto

lemma ascii_hex_digit: "n < 16 \<Longrightarrow> code_point (hex_digit n) < 128"
  by (auto simp: hex_digit_def)

lemma ascii_json_string:
  assumes "is_ascii s"
  shows "is_ascii (json_string False s)"
proof -
  have "is_ascii (json_char False c)" if "code_point c < 128" for c
    using that ascii_hex_digit by (auto simp: json_char_def json_unicode_def Let_def)
  with assms show ?thesis
    by (auto simp: json_string_def is_ascii_def list_all_iff)
qed

lemma ascii_hex: "is_ascii (sha256_hex s)"
proof -
  have "is_ascii (word_hex w)" for w
    by (simp add: word_hex_def ascii_hex_digit)
  then show ?thesis unfolding sha256_hex_def by (intro is_ascii_concat) auto
qed

text \<open>
  C12. References mean what they were issued for: when revision, scope and purpose, the issued ones
  and the expected ones, are ASCII and the expected scope and purpose are not empty, verifying an
  issued reference succeeds exactly when scope and purpose (and the revision, if one is expected) are
  those it was issued for and the clock is before its expiry and at most a minute behind its issue,
  and then yields exactly the issued claims. (Outside ASCII, verification can raise instead.)
\<close>

theorem reference_verified_iff:
  assumes "issue_reference key revision scope (PyInt seconds) purpose now = Inr r"
    and "list_all is_ascii [revision, scope, purpose, scope', purpose']" "\<And>x. revision' = Some x \<Longrightarrow> is_ascii x"
    and "scope' \<noteq> []" "purpose' \<noteq> []"
  shows "verify_reference key r scope' revision' purpose' later = Inr cl \<longleftrightarrow>
    cl = \<lparr>cl_revision = revision, cl_scope = scope, cl_purpose = purpose, cl_issued = int_time now,
      cl_expires = int_time now + seconds\<rparr> \<and>
    scope' = scope \<and> purpose' = purpose \<and> (revision' = None \<or> revision' = Some revision) \<and>
    int_time later < int_time now + seconds \<and> int_time now \<le> int_time later + 60"
  unfolding verify_issued [OF assms(1,4,5)]
  by (subst check_claims_ascii) (use assms(2,3) in \<open>auto simp: issued_claims_def\<close>)

theorem reference_verified_iff_witness:
  "\<exists>r. issue_reference [1, 2, 3] ''rev'' ''scope'' (PyInt 300) ''load'' 1000 = Inr r \<and>
    verify_reference [1, 2, 3] r ''scope'' (Some ''rev'') ''load'' 1299 =
      Inr \<lparr>cl_revision = ''rev'', cl_scope = ''scope'', cl_purpose = ''load'', cl_issued = 1000, cl_expires = 1300\<rparr> \<and>
    (\<forall>cl. verify_reference [1, 2, 3] r ''scope'' None ''execution'' 1299 \<noteq> Inr cl)"
proof -
  obtain r where r: "issue_reference [1, 2, 3] ''rev'' ''scope'' (PyInt 300) ''load'' 1000 = Inr r"
    using issue_ok [of "''rev''" "''scope''" "''load''" 300 "[1, 2, 3]" 1000] by auto
  moreover have "verify_reference [1, 2, 3] r ''scope'' (Some ''rev'') ''load'' 1299 =
      Inr \<lparr>cl_revision = ''rev'', cl_scope = ''scope'', cl_purpose = ''load'', cl_issued = 1000, cl_expires = 1300\<rparr>"
    by (subst reference_verified_iff [OF r]) (auto simp: is_ascii_def int_time_def)
  moreover have "verify_reference [1, 2, 3] r ''scope'' None ''execution'' 1299 \<noteq> Inr cl" for cl
    by (subst reference_verified_iff [OF r]) (auto simp: is_ascii_def int_time_def)
  ultimately show ?thesis by blast
qed

text \<open>
  C34. Only signed claims are believed: whatever text is verified successfully consists of the prefix,
  a payload and a tag that decodes to the HMAC of exactly this payload under the signer's key; the
  claims are those in the payload, unexpired, with the expected scope and purpose.
\<close>

theorem reference_authentic:
  assumes "verify_reference key reference scope revision purpose now = Inr cl"
  shows "\<exists>encoded tag serialized. reference = ''chref1.'' @ encoded @ ''.'' @ tag \<and>
    b64_decode tag = Inr (hmac_bytes key (reference_domain @ map code_point encoded)) \<and>
    b64_decode encoded = Inr serialized \<and> parse_claims serialized = Inr cl \<and>
    cl_scope cl = scope \<and> cl_purpose cl = purpose \<and> (\<forall>r. revision = Some r \<longrightarrow> cl_revision cl = r) \<and>
    int_time now < cl_expires cl"
proof -
  obtain encoded tag serialized where v: "reference = ''chref1.'' @ encoded @ ''.'' @ tag" "is_ascii encoded"
    "b64_decode tag = Inr (hmac_bytes key (reference_domain @ map code_point encoded))"
    "b64_decode encoded = Inr serialized" "parse_claims serialized = Inr cl"
    "check_claims cl scope revision purpose now = Inr cl"
    by (rule verify_cases [OF assms])
  from v(6) have "cl_scope cl = scope \<and> cl_purpose cl = purpose \<and> (\<forall>r. revision = Some r \<longrightarrow> cl_revision cl = r) \<and>
    int_time now < cl_expires cl"
    by (cases revision)
      (auto simp: check_claims_def require_text_equal_def compare_text_def rbind_eq_Inr split: if_splits)
  with v show ?thesis by blast
qed

theorem reference_authentic_witness:
  "\<exists>r encoded tag. issue_reference [1, 2, 3] ''rev'' ''scope'' (PyInt 300) ''load'' 1000 = Inr r \<and>
    r = ''chref1.'' @ encoded @ ''.'' @ tag \<and>
    b64_decode tag = Inr (hmac_bytes [1, 2, 3] (reference_domain @ map code_point encoded))"
proof -
  obtain r where r: "issue_reference [1, 2, 3] ''rev'' ''scope'' (PyInt 300) ''load'' 1000 = Inr r"
    using issue_ok [of "''rev''" "''scope''" "''load''" 300 "[1, 2, 3]" 1000] by auto
  have "verify_reference [1, 2, 3] r ''scope'' None ''load'' 1000 = Inr (issued_claims ''rev'' ''scope'' 300 ''load'' 1000)"
    by (subst verify_issued [OF r])
      (simp_all add: issued_claims_def check_claims_def int_time_def require_text_equal_def compare_text_def is_ascii_def)
  from reference_authentic [OF this] r show ?thesis by blast
qed

text \<open>
  C35. References for a scope outside ASCII cannot be used: when such a reference was issued, verifying
  it inside its time window (before its expiry, and at most a minute before its issue) for the very
  scope and purpose it was issued for raises \<open>TypeError\<close>, whatever revision is expected.
\<close>

theorem non_ascii_scope_unusable:
  assumes "issue_reference key revision scope (PyInt seconds) purpose now = Inr r" and "\<not> is_ascii scope"
    and "int_time later < int_time now + seconds" "int_time now \<le> int_time later + 60"
  shows "verify_reference key r scope revision' purpose later = Inl TypeError"
proof -
  have "scope \<noteq> []" "purpose \<noteq> []" using issue_cases [OF assms(1)] by blast+
  then show ?thesis
    unfolding verify_issued [OF assms(1) \<open>scope \<noteq> []\<close> \<open>purpose \<noteq> []\<close>]
    using assms(2-4) by (simp add: issued_claims_def check_claims_def require_text_equal_def compare_text_def)
qed

theorem non_ascii_scope_unusable_witness:
  "\<exists>r. issue_reference [1, 2, 3] ''rev'' [CHR 0xFC] (PyInt 300) ''load'' 1000 = Inr r \<and>
    verify_reference [1, 2, 3] r [CHR 0xFC] None ''load'' 1000 = Inl TypeError"
proof -
  obtain r where r: "issue_reference [1, 2, 3] ''rev'' [CHR 0xFC] (PyInt 300) ''load'' 1000 = Inr r"
    using issue_ok [of "''rev''" "[CHR 0xFC]" "''load''" 300 "[1, 2, 3]" 1000] by auto
  with non_ascii_scope_unusable [OF r] show ?thesis by (simp add: is_ascii_def)
qed

text \<open>Text outside ASCII in the payload part is reported as \<open>ValueError\<close>, not as an invalid reference.\<close>

lemma non_ascii_payload_error:
  "verify_reference [1] (''chref1.'' @ [CHR 0xE9] @ ''.AAAA'') ''scope'' None ''load'' 0 = Inl ValueError"
  by (simp add: verify_reference_def b64_decode_def is_ascii_def signature_def b64_digit_def is_upper_def)

end
