(* ===== verification/Admission.thy ===== *)
theory Admission
  imports Registry References
begin

text \<open>
  \<open>compatibility.py\<close> and \<open>admission.py\<close>: the feature handshake, the validation of manifests before they
  are registered and the construction of a replacement registry. Dates are day numbers; paths are
  POSIX paths; \<open>urlsplit\<close> is a parameter that answers the scheme and whether there is a host name, or
  raises.
\<close>

section \<open>Feature handshake\<close>

record feature_handshake =
  fh_versions :: "string list"
  fh_supported :: "string list"
  fh_required :: "string list"

record compatibility_decision =
  cd_compatible :: bool
  cd_selected :: "string option"
  cd_enabled :: "string list"
  cd_client_unsupported :: "string list"
  cd_server_unsupported :: "string list"
  cd_ignored :: "string list"
  cd_reasons :: "string list"

record version_lifecycle =
  vl_version :: string
  vl_introduced :: int
  vl_deprecated :: "int option"
  vl_sunset :: "int option"
  vl_target :: "string option"

record version_decision =
  vd_version :: string
  vd_accepted :: bool
  vd_deprecated :: bool
  vd_sunset :: bool
  vd_target :: "string option"
  vd_reason :: string

definition v1alpha1 :: string where
  "v1alpha1 = ''capabilityhub.io/v1alpha1''"

definition v1alpha1_features :: "string list" where
  "v1alpha1_features = [''manifest.deterministic-json-export'', ''manifest.extension-preservation'',
     ''manifest.explicit-migration-report'', ''security.required-features-fail-closed'']"

definition unique_non_empty :: "bool \<Rightarrow> string list \<Rightarrow> bool" where
  "unique_non_empty allow_empty values \<longleftrightarrow> (allow_empty \<or> values \<noteq> []) \<and> [] \<notin> set values \<and> distinct values"

definition make_handshake :: "feature_handshake \<Rightarrow> feature_handshake result" where
  "make_handshake h =
     (if \<not> unique_non_empty False (fh_versions h) \<or> \<not> unique_non_empty False (fh_supported h)
         \<or> \<not> unique_non_empty True (fh_required h) \<or> \<not> set (fh_required h) \<subseteq> set (fh_supported h)
      then Inl ValueError else Inr h)"

definition v1alpha1_handshake :: "string list \<Rightarrow> string list \<Rightarrow> feature_handshake result" where
  "v1alpha1_handshake extra_supported extra_required =
     make_handshake \<lparr>fh_versions = [v1alpha1],
       fh_supported = rev (remdups (rev (v1alpha1_features @ extra_supported @ extra_required))),
       fh_required = extra_required\<rparr>"

definition make_lifecycle :: "version_lifecycle \<Rightarrow> version_lifecycle result" where
  "make_lifecycle v =
     (if vl_version v = [] then Inl ValueError
      else if (vl_deprecated v = None) \<noteq> (vl_sunset v = None) then Inl ValueError
      else case (vl_deprecated v, vl_sunset v) of
        (Some d, Some s) \<Rightarrow>
          if d < vl_introduced v \<or> s - d < 180 \<or> vl_target v \<in> {None, Some []} then Inl ValueError else Inr v
      | _ \<Rightarrow> Inr v)"

definition make_versions :: "version_lifecycle list \<Rightarrow> version_lifecycle list result" where
  "make_versions vs = (if vs = [] \<or> \<not> distinct (map vl_version vs) then Inl ValueError else Inr vs)"

definition assess_version :: "version_lifecycle list \<Rightarrow> string \<Rightarrow> int \<Rightarrow> version_decision" where
  "assess_version vs version day =
     (case find (\<lambda>v. vl_version v = version) vs of
        None \<Rightarrow> \<lparr>vd_version = version, vd_accepted = False, vd_deprecated = False, vd_sunset = False, vd_target = None,
          vd_reason = ''api_version_unsupported''\<rparr>
      | Some v \<Rightarrow>
          if day < vl_introduced v
          then \<lparr>vd_version = version, vd_accepted = False, vd_deprecated = False, vd_sunset = False, vd_target = None,
            vd_reason = ''api_version_unsupported''\<rparr>
          else (let deprecated = (\<exists>d. vl_deprecated v = Some d \<and> d \<le> day); sunset = (\<exists>s. vl_sunset v = Some s \<and> s \<le> day)
            in \<lparr>vd_version = version, vd_accepted = (\<not> sunset), vd_deprecated = deprecated, vd_sunset = sunset,
              vd_target = vl_target v, vd_reason = (if sunset then ''api_version_sunset''
                else if deprecated then ''api_version_deprecated'' else ''api_version_supported'')\<rparr>))"

definition sorted_minus :: "string list \<Rightarrow> string list \<Rightarrow> string list" where
  "sorted_minus xs ys = sort (remdups (filter (\<lambda>x. x \<notin> set ys) xs))"

definition decide_compatibility :: "feature_handshake \<Rightarrow> feature_handshake \<Rightarrow> compatibility_decision" where
  "decide_compatibility client server =
     (let selected = find (\<lambda>v. v \<in> set (fh_versions server)) (fh_versions client);
          unsupported_client = sorted_minus (fh_required client) (fh_supported server);
          unsupported_server = sorted_minus (fh_required server) (fh_supported client);
          reasons = (if selected = None then [''no_shared_api_version''] else []) @
            (if unsupported_client \<noteq> [] then [''unsupported_client_required_feature''] else []) @
            (if unsupported_server \<noteq> [] then [''unsupported_server_required_feature''] else [])
      in \<lparr>cd_compatible = (reasons = []), cd_selected = selected,
        cd_enabled = (if selected = None \<or> selected = Some [] then []
          else sort (remdups (filter (\<lambda>x. x \<in> set (fh_supported server)) (fh_supported client)))),
        cd_client_unsupported = unsupported_client, cd_server_unsupported = unsupported_server,
        cd_ignored = sorted_minus (filter (\<lambda>x. x \<notin> set (fh_required client)) (fh_supported client)) (fh_supported server),
        cd_reasons = (if reasons = [] then [''compatible''] else reasons)\<rparr>)"

section \<open>Admission of manifests\<close>

definition admission_error :: "string \<Rightarrow> exn" where
  "admission_error code = HubError code INPUT False []"

definition permission_part :: "string \<Rightarrow> bool" where
  "permission_part s \<longleftrightarrow> (case s of [] \<Rightarrow> False
     | c # r \<Rightarrow> is_lower c \<and> list_all (\<lambda>d. is_lower d \<or> is_digit d \<or> d = CHR ''_'' \<or> d = CHR ''-'') r)"

definition permission_roots :: "string list" where
  "permission_roots = [''content'', ''filesystem'', ''network'', ''process'', ''secret'', ''system'']"

definition permission_supported :: "string \<Rightarrow> bool" where
  "permission_supported s \<longleftrightarrow> list_all permission_part (split_dots s) \<and> hd (split_dots s) \<in> set permission_roots"

fun driver_name :: "capability_kind \<Rightarrow> string" where
  "driver_name API = ''http-api''"
| "driver_name CLI = ''cli-process''"
| "driver_name MCP = ''mcp-stdio''"
| "driver_name RAG = ''local-rag''"
| "driver_name SKILL = ''skill''"

definition as_mapping :: "pyval option \<Rightarrow> (string \<times> pyval) list result" where
  "as_mapping v = (case v of Some (PyDict d) \<Rightarrow> Inr d | _ \<Rightarrow> Inl (admission_error ''invalid_driver_config''))"

definition text_field :: "(string \<times> pyval) list \<Rightarrow> string \<Rightarrow> string result" where
  "text_field d name = (case map_of d name of
     Some (PyStr s) \<Rightarrow> if s = [] then Inl (admission_error ''invalid_driver_config'') else Inr s
   | _ \<Rightarrow> Inl (admission_error ''invalid_driver_config''))"

definition is_absolute :: "string \<Rightarrow> bool" where
  "is_absolute p \<longleftrightarrow> take 1 p = ''/''"

definition require_absolute :: "(string \<times> pyval) list \<Rightarrow> string \<Rightarrow> unit result" where
  "require_absolute d name = rbind (text_field d name) (\<lambda>p.
     if is_absolute p then Inr () else Inl (admission_error ''driver_path_not_absolute''))"

fun mapping_values :: "(string \<times> pyval) list \<Rightarrow> (string \<times> (string \<times> pyval) list) list result" where
  "mapping_values [] = Inr []"
| "mapping_values ((k, v) # r) =
     rbind (as_mapping (Some v)) (\<lambda>d. rbind (mapping_values r) (\<lambda>ds. Inr ((k, d) # ds)))"

definition operation_map ::
  "(string \<times> pyval) list \<Rightarrow> capability_manifest \<Rightarrow> string \<Rightarrow> (string \<times> (string \<times> pyval) list) list result" where
  "operation_map config m code = rbind (as_mapping (map_of config ''operations'')) (\<lambda>ops.
     if fst ` set ops \<noteq> op_name ` set (cm_operations m) then Inl (admission_error code) else mapping_values ops)"

fun path_components :: "string \<Rightarrow> string \<Rightarrow> string list" where
  "path_components acc [] = [acc]"
| "path_components acc (c # s) = (if c = CHR ''/'' then acc # path_components [] s else path_components (acc @ [c]) s)"

text \<open>\<open>value in {"GET", ..}\<close> needs a hashable value.\<close>

fun unhashable :: "pyval option \<Rightarrow> bool" where
  "unhashable (Some (PyList _)) = True"
| "unhashable (Some (PyDict _)) = True"
| "unhashable _ = False"

definition check_api_operation :: "(string \<times> pyval) list \<Rightarrow> unit result" where
  "check_api_operation d =
     (if unhashable (map_of d ''method'') then Inl TypeError
      else if map_of d ''method'' \<notin> (\<lambda>s. Some (PyStr s)) ` {''GET'', ''POST'', ''PUT'', ''PATCH'', ''DELETE''}
      then Inl (admission_error ''invalid_api_driver'')
      else case map_of d ''path'' of
        Some (PyStr p) \<Rightarrow> if take 1 p = ''/'' then Inr () else Inl (admission_error ''invalid_api_driver'')
      | _ \<Rightarrow> Inl (admission_error ''invalid_api_driver''))"

fun check_each :: "('a \<Rightarrow> unit result) \<Rightarrow> 'a list \<Rightarrow> unit result" where
  "check_each f [] = Inr ()"
| "check_each f (x # xs) = rbind (f x) (\<lambda>_. check_each f xs)"

type_synonym url_split = "string \<Rightarrow> (string \<times> bool) result"

definition check_driver_config :: "url_split \<Rightarrow> capability_manifest \<Rightarrow> (string \<times> pyval) list \<Rightarrow> unit result" where
  "check_driver_config urlsplit m config =
     (case cm_kind m of
        CLI \<Rightarrow> rbind (require_absolute config ''executable'') (\<lambda>_.
          rbind (operation_map config m ''invalid_cli_driver'') (\<lambda>_. Inr ()))
      | MCP \<Rightarrow> rbind (require_absolute config ''command'') (\<lambda>_.
          rbind (as_mapping (map_of config ''tools'')) (\<lambda>tools.
            if fst ` set tools \<noteq> op_name ` set (cm_operations m) \<or> (\<exists>v \<in> snd ` set tools. \<not> is_str (Some v))
            then Inl (admission_error ''invalid_mcp_driver'') else Inr ()))
      | API \<Rightarrow> rbind (text_field config ''baseUrl'') (\<lambda>url.
          rbind (urlsplit url) (\<lambda>(scheme, host).
            if scheme \<notin> {''http'', ''https''} \<or> \<not> host then Inl (admission_error ''invalid_api_driver'')
            else rbind (operation_map config m ''invalid_api_driver'') (\<lambda>ops. check_each check_api_operation (map snd ops))))
      | RAG \<Rightarrow> rbind (text_field config ''root'') (\<lambda>p.
          if is_absolute p \<or> ''..'' \<in> set (path_components [] p) then Inl (admission_error ''invalid_rag_driver'') else Inr ())
      | SKILL \<Rightarrow> if config \<noteq> [] then Inl (admission_error ''invalid_skill_driver'') else Inr ())"

definition check_features :: "capability_manifest \<Rightarrow> unit result" where
  "check_features m =
     rbind (as_mapping (Some (case map_of (cm_metadata m) ''extensions'' of None \<Rightarrow> PyDict [] | Some v \<Rightarrow> v))) (\<lambda>ext.
       (case map_of ext ''requiredFeatures'' of
          None \<Rightarrow> Inr ()
        | Some (PyList vs) \<Rightarrow>
            if \<not> (\<forall>v \<in> set vs. \<exists>s. v = PyStr s) then Inl (admission_error ''invalid_required_features'')
            else if \<not> set vs \<subseteq> PyStr ` set v1alpha1_features then Inl (admission_error ''unsupported_required_feature'')
            else Inr ()
        | Some _ \<Rightarrow> Inl (admission_error ''invalid_required_features'')))"

definition check_semantics :: "url_split \<Rightarrow> capability_manifest \<Rightarrow> unit result" where
  "check_semantics urlsplit m =
     (if \<not> list_all permission_supported (cm_permissions m) then Inl (admission_error ''unsupported_permission'')
      else rbind (check_features m) (\<lambda>_.
        (let driver = map_of (cm_metadata m) ''driver''; missing = (driver = None \<or> driver = Some PyNone)
         in if missing \<and> (\<forall>p \<in> set (cm_operations m). op_type p = EXPAND) then Inr ()
            else if missing \<and> cm_provider m = ''static'' then Inr ()
            else if cm_kind m = SKILL \<and> missing
            then (if cm_provider m \<noteq> ''skill'' then Inl (admission_error ''invalid_skill_driver'') else Inr ())
            else rbind (as_mapping driver) (\<lambda>d.
              rbind (text_field d ''name'') (\<lambda>name.
                if name \<noteq> driver_name (cm_kind m) \<or> cm_provider m \<noteq> driver_name (cm_kind m)
                then Inl (admission_error ''driver_kind_mismatch'')
                else rbind (as_mapping (map_of d ''config'')) (check_driver_config urlsplit m))))))"

section \<open>A replacement registry\<close>

definition validate_for_admission ::
  "driver_claims \<Rightarrow> url_split \<Rightarrow> capability_manifest list \<Rightarrow> capability_manifest list result" where
  "validate_for_admission drivers urlsplit ms =
     rbind (check_each (check_semantics urlsplit) ms) (\<lambda>_.
     rbind (new_registry drivers None) (\<lambda>rg.
       (case register_many drivers rg ms of
          (Inl e, _) \<Rightarrow> Inl e
        | (Inr _, rg') \<Rightarrow> rbind (validate_staged drivers rg' None) (\<lambda>_. Inr ms))))"

fun activate_all :: "driver_claims \<Rightarrow> registry \<Rightarrow> (string \<times> string) list \<Rightarrow> registry result" where
  "activate_all drivers rg [] = Inr rg"
| "activate_all drivers rg ((c, r) # ps) =
     (case activate_pointer drivers rg c (Some r) of
        (Inl e, _) \<Rightarrow> Inl e | (Inr _, rg') \<Rightarrow> activate_all drivers rg' ps)"

fun activate_revisions :: "driver_claims \<Rightarrow> registry \<Rightarrow> string list \<Rightarrow> registry result" where
  "activate_revisions drivers rg [] = Inr rg"
| "activate_revisions drivers rg (r # rs) =
     rbind (find_revision rg r) (\<lambda>m.
       (case activate_pointer drivers rg (manifest_coordinate m) (Some r) of
          (Inl e, _) \<Rightarrow> Inl e | (Inr _, rg') \<Rightarrow> activate_revisions drivers rg' rs))"

definition install_validated ::
  "driver_claims \<Rightarrow> url_split \<Rightarrow> registry \<Rightarrow> capability_manifest list \<Rightarrow> string list \<Rightarrow> registry result" where
  "install_validated drivers urlsplit current ms revisions =
     rbind (validate_for_admission drivers urlsplit ms) (\<lambda>additions.
     rbind (new_registry drivers None) (\<lambda>candidate.
       (case register_many drivers candidate (map snd (rg_revisions current) @ additions) of
          (Inl e, _) \<Rightarrow> Inl e
        | (Inr _, rg) \<Rightarrow>
            rbind (activate_all drivers rg (rg_active current)) (\<lambda>rg1.
            rbind (activate_revisions drivers rg1 revisions) (\<lambda>rg2.
            rbind (validate_active drivers rg2) (\<lambda>_. Inr rg2))))))"

section \<open>What the handshake decides\<close>

lemma sorted_minus_empty: "sorted_minus xs ys = [] \<longleftrightarrow> set xs \<subseteq> set ys"
proof -
  have "set (sorted_minus xs ys) = set xs - set ys" by (auto simp: sorted_minus_def)
  then show ?thesis by (metis Diff_eq_empty_iff set_empty)
qed

lemma find_shared: "find (\<lambda>v. v \<in> S) vs = None \<longleftrightarrow> set vs \<inter> S = {}"
  by (auto simp: find_None_iff)

theorem compatible_iff:
  "cd_compatible (decide_compatibility client server) \<longleftrightarrow>
     set (fh_versions client) \<inter> set (fh_versions server) \<noteq> {} \<and> set (fh_required client) \<subseteq> set (fh_supported server) \<and>
     set (fh_required server) \<subseteq> set (fh_supported client)"
  by (auto simp: decide_compatibility_def Let_def sorted_minus_empty find_shared)

section \<open>Installation\<close>

lemma check_each_iff: "check_each f xs = Inr () \<longleftrightarrow> (\<forall>x \<in> set xs. f x = Inr ())"
  by (induction xs) (auto simp: rbind_eq_Inr)

lemma activate_all_steps:
  assumes "activate_all drivers rg ps = Inr rg'"
  shows "(registry_step drivers)\<^sup>*\<^sup>* rg rg'"
  using assms
proof (induction drivers rg ps rule: activate_all.induct)
  case (2 drivers rg c r ps)
  obtain x rg1 where x: "activate_pointer drivers rg c (Some r) = (x, rg1)" by fastforce
  with "2.prems" obtain m where m: "x = Inr m" "activate_all drivers rg1 ps = Inr rg'" by (cases x) auto
  have "registry_step drivers rg rg1" using step_activate [of drivers rg c "Some r"] x by simp
  moreover have "(registry_step drivers)\<^sup>*\<^sup>* rg1 rg'" using "2.IH" x m by simp
  ultimately show ?case by (rule converse_rtranclp_into_rtranclp)
qed simp

lemma activate_revisions_steps:
  assumes "activate_revisions drivers rg rs = Inr rg'"
  shows "(registry_step drivers)\<^sup>*\<^sup>* rg rg'"
  using assms
proof (induction drivers rg rs rule: activate_revisions.induct)
  case (2 drivers rg r rs)
  from "2.prems" obtain m where m: "find_revision rg r = Inr m" by (auto simp: rbind_eq_Inr)
  obtain x rg1 where x: "activate_pointer drivers rg (manifest_coordinate m) (Some r) = (x, rg1)" by fastforce
  with "2.prems" m obtain n where n: "x = Inr n" "activate_revisions drivers rg1 rs = Inr rg'" by (cases x) auto
  have "registry_step drivers rg rg1" using step_activate [of drivers rg "manifest_coordinate m" "Some r"] x by simp
  moreover have "(registry_step drivers)\<^sup>*\<^sup>* rg1 rg'" using "2.IH" x n by (metis (no_types))
  ultimately show ?case by (rule converse_rtranclp_into_rtranclp)
qed simp

lemma activate_keeps_revisions: "rg_revisions (snd (activate_pointer drivers rg c r)) = rg_revisions rg"
  by (auto simp: activate_pointer_def split: sum.split)

lemma activate_all_revisions: "activate_all drivers rg ps = Inr rg' \<Longrightarrow> rg_revisions rg' = rg_revisions rg"
proof (induction drivers rg ps rule: activate_all.induct)
  case (2 drivers rg c r ps)
  then show ?case
    using activate_keeps_revisions [of drivers rg c "Some r"] by (auto split: prod.splits sum.splits)
qed simp

lemma activate_revisions_revisions: "activate_revisions drivers rg rs = Inr rg' \<Longrightarrow> rg_revisions rg' = rg_revisions rg"
proof (induction drivers rg rs rule: activate_revisions.induct)
  case (2 drivers rg r rs)
  from "2.prems" obtain m where m: "find_revision rg r = Inr m" by (auto simp: rbind_eq_Inr)
  obtain x rg1 where x: "activate_pointer drivers rg (manifest_coordinate m) (Some r) = (x, rg1)" by fastforce
  with "2.prems" m obtain n where n: "x = Inr n" "activate_revisions drivers rg1 rs = Inr rg'" by (cases x) auto
  have "rg_revisions rg' = rg_revisions rg1" using "2.IH" x n by (metis (no_types))
  then show ?case using activate_keeps_revisions [of drivers rg "manifest_coordinate m" "Some r"] x by simp
qed simp

lemma stage_revisions_Cons:
  "stage_revisions (n # ns) staged = Inr t \<longleftrightarrow> map_of staged (manifest_revision n) \<in> {None, Some n} \<and>
    stage_revisions ns (AList.update (manifest_revision n) n staged) = Inr t"
  by (auto simp del: map_of_eq_Some_iff map_of_eq_None_iff split: option.split)

lemma stage_keeps:
  "stage_revisions ns staged = Inr t \<Longrightarrow> map_of staged r = Some x \<Longrightarrow> map_of t r = Some x"
proof (induction ns arbitrary: staged)
  case (Cons n ns)
  from Cons.prems(1) have n: "map_of staged (manifest_revision n) \<in> {None, Some n}"
    "stage_revisions ns (AList.update (manifest_revision n) n staged) = Inr t"
    unfolding stage_revisions_Cons by simp_all
  have "map_of (AList.update (manifest_revision n) n staged) r = Some x"
    using n(1) Cons.prems(2) by (simp add: update_conv' del: map_of_eq_Some_iff) auto
  with Cons.IH n(2) show ?case by blast
qed simp

lemma stage_all:
  "stage_revisions ms staged = Inr t \<Longrightarrow> m \<in> set ms \<Longrightarrow> map_of t (manifest_revision m) = Some m"
proof (induction ms arbitrary: staged)
  case (Cons n ns)
  from Cons.prems(1) have n: "stage_revisions ns (AList.update (manifest_revision n) n staged) = Inr t"
    unfolding stage_revisions_Cons by simp
  show ?case
  proof (cases "m = n")
    case True
    show ?thesis unfolding True by (rule stage_keeps [OF n]) (simp add: update_conv' del: map_of_eq_Some_iff)
  qed (use Cons.IH [OF n] Cons.prems(2) in simp)
qed simp

text \<open>The parts of a successful installation.\<close>

lemma install_cases:
  assumes "install_validated drivers urlsplit current ms revisions = Inr rg'"
  obtains rg0 rg rg1 rg2 staged where "new_registry drivers None = Inr rg0"
    "register_many drivers rg0 (map snd (rg_revisions current) @ ms) = (Inr (map snd (rg_revisions current) @ ms), rg)"
    "stage_revisions (map snd (rg_revisions current) @ ms) [] = Inr (rg_revisions rg)" "rg_active rg = []"
    "activate_all drivers rg (rg_active current) = Inr rg1" "activate_revisions drivers rg1 revisions = Inr rg'"
    "\<forall>m \<in> set ms. check_semantics urlsplit m = Inr ()"
proof -
  from assms obtain rg0 where rg0: "new_registry drivers None = Inr rg0" and sem: "\<forall>m \<in> set ms. check_semantics urlsplit m = Inr ()"
    by (auto simp: install_validated_def validate_for_admission_def rbind_eq_Inr check_each_iff)
  have val: "validate_for_admission drivers urlsplit ms = Inr ms"
  proof -
    from assms obtain a where a: "validate_for_admission drivers urlsplit ms = Inr a"
      by (auto simp: install_validated_def rbind_eq_Inr)
    then have "a = ms" by (auto simp: validate_for_admission_def rbind_eq_Inr case_prod_beta split: sum.splits)
      (metis sumE)
    with a show ?thesis by simp
  qed
  obtain x rg where x: "register_many drivers rg0 (map snd (rg_revisions current) @ ms) = (x, rg)" by fastforce
  from assms val rg0 x obtain y rg1 where y: "x = Inr y" "activate_all drivers rg (rg_active current) = Inr rg1"
    "activate_revisions drivers rg1 revisions = Inr rg'"
    by (cases x) (auto simp: install_validated_def rbind_eq_Inr)
  have empty: "rg_revisions rg0 = []" "rg_active rg0 = []"
    using rg0 by (auto simp: new_registry_def Let_def rbind_eq_Inr)
  from x y(1) have "y = map snd (rg_revisions current) @ ms" "stage_revisions (map snd (rg_revisions current) @ ms) [] = Inr (rg_revisions rg)"
    "rg_active rg = []"
    using empty by (auto simp: register_many_def rbind_eq_Inr rebuild_indexes_def split: sum.splits)
  with that rg0 x y sem show ?thesis by blast
qed

text \<open>Without an active coordinate among the excluded ones an activation only sets one pointer.\<close>

definition unexcluded :: "registry \<Rightarrow> bool" where
  "unexcluded rg \<longleftrightarrow> (\<forall>(k, _) \<in> set (rg_active rg). k \<notin> excluded_coordinates (rg_resolution rg))"

lemma activate_sets:
  assumes "activate_pointer drivers rg c (Some r) = (Inr m, rg')" "unexcluded rg"
  shows "rg' = rg\<lparr>rg_active := AList.update c r (rg_active rg)\<rparr> \<and> find_revision rg r = Inr m \<and> manifest_coordinate m = c \<and>
    unexcluded rg'"
proof -
  let ?new = "AList.update c r (rg_active rg)" and ?keep = "\<lambda>(k, _). k \<notin> excluded_coordinates (rg_resolution rg)"
  from assms(1) have c: "c \<notin> excluded_coordinates (rg_resolution rg)" "find_revision rg r = Inr m" "manifest_coordinate m = c"
    and rg': "rg' = rg\<lparr>rg_active := filter ?keep ?new\<rparr>"
    by (auto simp: activate_pointer_def rbind_eq_Inr Let_def split: sum.splits if_splits)
  have "fst ` set ?new = insert c (fst ` set (rg_active rg))" by (simp add: AList.dom_update)
  then have "\<forall>k \<in> fst ` set ?new. k \<notin> excluded_coordinates (rg_resolution rg)"
    using assms(2) c(1) by (auto simp: unexcluded_def)
  then have "\<forall>x \<in> set ?new. ?keep x" by (auto simp: case_prod_beta)
  then have "filter ?keep ?new = ?new" "\<forall>x \<in> set ?new. ?keep x" by (simp_all add: filter_id_conv)
  with rg' c show ?thesis by (simp add: unexcluded_def)
qed

lemma activate_all_sets:
  "activate_all drivers rg ps = Inr rg' \<Longrightarrow> unexcluded rg \<Longrightarrow>
   rg_revisions rg' = rg_revisions rg \<and> map_of (rg_active rg') = map_of (rg_active rg) ++ map_of (rev ps) \<and> unexcluded rg'"
proof (induction ps arbitrary: rg)
  case (Cons x ps)
  obtain c r where x: "x = (c, r)" by fastforce
  with Cons.prems obtain m rg1 where a: "activate_pointer drivers rg c (Some r) = (Inr m, rg1)" "activate_all drivers rg1 ps = Inr rg'"
    by (auto split: sum.splits prod.splits)
  from activate_sets [OF a(1) Cons.prems(2)] have s: "rg1 = rg\<lparr>rg_active := AList.update c r (rg_active rg)\<rparr>" "unexcluded rg1" by blast+
  from Cons.IH [OF a(2) s(2)] s(1) x show ?case by (simp add: fun_eq_iff map_add_def split: option.split)
qed simp

lemma activate_revisions_sets:
  "activate_revisions drivers rg rs = Inr rg' \<Longrightarrow> unexcluded rg \<Longrightarrow>
   rg_revisions rg' = rg_revisions rg \<and> unexcluded rg' \<and> (\<forall>r \<in> set rs. \<exists>m. find_revision rg' r = Inr m) \<and>
   map_of (rg_active rg') = map_of (rg_active rg) ++
     map_of (rev (map (\<lambda>r. (manifest_coordinate (projr (find_revision rg' r)), r)) rs))"
proof (induction rs arbitrary: rg)
  case (Cons r rs)
  then obtain m where m: "find_revision rg r = Inr m" by (auto simp: rbind_eq_Inr)
  obtain q rg1 where q: "activate_pointer drivers rg (manifest_coordinate m) (Some r) = (q, rg1)" by fastforce
  with Cons.prems(1) m obtain m' where a: "find_revision rg r = Inr m"
      "activate_pointer drivers rg (manifest_coordinate m) (Some r) = (Inr m', rg1)" "activate_revisions drivers rg1 rs = Inr rg'"
    by (cases q) auto
  from activate_sets [OF a(2) Cons.prems(2)] have s: "rg1 = rg\<lparr>rg_active := AList.update (manifest_coordinate m) r (rg_active rg)\<rparr>" "unexcluded rg1"
    by blast+
  from Cons.IH [OF a(3) s(2)] have ih: "rg_revisions rg' = rg_revisions rg1" "unexcluded rg'"
      "\<forall>r \<in> set rs. \<exists>m. find_revision rg' r = Inr m"
      "map_of (rg_active rg') = map_of (rg_active rg1) ++ map_of (rev (map (\<lambda>r. (manifest_coordinate (projr (find_revision rg' r)), r)) rs))"
    by blast+
  have "find_revision rg' r = Inr m" using a(1) ih(1) s(1) by (simp add: find_revision_def)
  with ih s(1) show ?case by (simp add: fun_eq_iff map_add_def split: option.split)
qed simp

lemma map_of_rev:
  assumes "dict_ok ps"
  shows "map_of (rev ps) = map_of ps"
proof
  fix k
  show "map_of (rev ps) k = map_of ps k"
  proof (cases "map_of ps k")
    case None
    then have "k \<notin> fst ` set (rev ps)" by (simp add: map_of_eq_None_iff)
    then have "map_of (rev ps) k = None" by (simp add: map_of_eq_None_iff)
    with None show ?thesis by metis
  next
    case (Some v)
    then have "(k, v) \<in> set (rev ps)" by (simp add: map_of_SomeD del: map_of_eq_Some_iff)
    moreover have "distinct (map fst (rev ps))" using assms by (simp only: rev_map [symmetric] distinct_rev)
    ultimately show ?thesis using Some by (metis map_of_is_SomeI)
  qed
qed

text \<open>
  C21. Installation never yields a broken catalogue: from a reachable registry it returns one that is
  reachable by registry operations, so its active closure is complete, acyclic and conflict-free; it
  holds every revision of the old one unchanged and every added manifest, each of which passed the
  semantic checks; the requested revisions are registered, and the active pointers are those of the
  old registry overridden, in order, by the requested revisions.
\<close>

theorem install_yields_valid_registry:
  assumes "reach (registry_init drivers) (registry_step drivers) current"
    and "install_validated drivers urlsplit current ms revisions = Inr rg"
  shows "reach (registry_init drivers) (registry_step drivers) rg \<and>
    map_of (rg_revisions current) \<subseteq>\<^sub>m map_of (rg_revisions rg) \<and>
    (\<forall>m \<in> set ms. check_semantics urlsplit m = Inr () \<and> find_revision rg (manifest_revision m) = Inr m) \<and>
    (\<exists>selected. find_all rg (rg_active rg) = Inr selected \<and> dependencies_met selected \<and> acyclic (depends selected) \<and>
      conflict_free selected) \<and>
    (\<forall>r \<in> set revisions. \<exists>m. find_revision rg r = Inr m) \<and>
    map_of (rg_active rg) = map_of (rg_active current) ++
      map_of (rev (map (\<lambda>r. (manifest_coordinate (projr (find_revision rg r)), r)) revisions))"
proof -
  from assms(2) obtain rg0 rg1 rg2 where r: "new_registry drivers None = Inr rg0"
    "register_many drivers rg0 (map snd (rg_revisions current) @ ms) = (Inr (map snd (rg_revisions current) @ ms), rg1)"
    "stage_revisions (map snd (rg_revisions current) @ ms) [] = Inr (rg_revisions rg1)" "rg_active rg1 = []"
    "activate_all drivers rg1 (rg_active current) = Inr rg2" "activate_revisions drivers rg2 revisions = Inr rg"
    and sem: "\<forall>m \<in> set ms. check_semantics urlsplit m = Inr ()"
    by (rule install_cases)
  have "registry_init drivers rg0" using r(1) by (auto simp: registry_init_def)
  moreover have "registry_step drivers rg0 rg1" using step_register [of drivers rg0] r(2) by (metis snd_conv)
  ultimately have "reach (registry_init drivers) (registry_step drivers) rg1" by (blast intro: reach_init reach_step)
  from reach_run [OF reach_run [OF this activate_all_steps [OF r(5)]] activate_revisions_steps [OF r(6)]]
  have reach: "reach (registry_init drivers) (registry_step drivers) rg" .
  have inv: "registry_inv current" by (rule catalog.reachable_inv [OF assms(1)])
  have revs: "rg_revisions rg = rg_revisions rg1"
    using activate_all_revisions [OF r(5)] activate_revisions_revisions [OF r(6)] by simp
  have "map_of (rg_revisions rg) k = Some m" if "map_of (rg_revisions current) k = Some m" for k m
  proof -
    from that have "(k, m) \<in> set (rg_revisions current)" by (rule map_of_SomeD)
    with inv have "k = manifest_revision m" "m \<in> set (map snd (rg_revisions current) @ ms)"
      by (auto simp: registry_inv_def rev_image_eqI)
    with stage_all [OF r(3)] show ?thesis unfolding revs by blast
  qed
  then have "map_of (rg_revisions current) \<subseteq>\<^sub>m map_of (rg_revisions rg)"
    by (auto simp: map_le_def dom_def simp del: map_of_eq_Some_iff)
  moreover have "find_revision rg (manifest_revision m) = Inr m" if "m \<in> set ms" for m
    using stage_all [OF r(3), of m] that by (simp add: find_revision_def revs del: map_of_eq_Some_iff)
  moreover have "registry_inv rg" by (rule catalog.reachable_inv [OF reach])
  moreover have "unexcluded rg1" using r(4) by (simp add: unexcluded_def)
  then have "unexcluded rg2" "map_of (rg_active rg2) = map_of (rg_active current)"
    using activate_all_sets [OF r(5)] r(4) map_of_rev [of "rg_active current"] inv by (simp_all add: registry_inv_def)
  then have "\<forall>r \<in> set revisions. \<exists>m. find_revision rg r = Inr m" "map_of (rg_active rg) = map_of (rg_active current) ++
      map_of (rev (map (\<lambda>r. (manifest_coordinate (projr (find_revision rg r)), r)) revisions))"
    using activate_revisions_sets [OF r(6)] by simp_all
  ultimately show ?thesis using reach sem by (auto simp: registry_inv_def closed_selection_def)
qed

text \<open>
  C38. Installation replays the activations in the order of the pointers, not of the dependencies:
  when the first pointer of a valid registry belongs to a capability that requires another
  coordinate (it was activated first in a revision without that dependency), every installation
  fails, whatever is added.
\<close>

theorem install_needs_dependency_order:
  assumes "reach (registry_init drivers) (registry_step drivers) current" "rg_active current = (c, r) # rest"
    and "find_revision current r = Inr m" "d \<in> set (cm_dependencies m)" "\<not> dp_optional d" "dp_coordinate d \<noteq> c"
  shows "\<exists>e. install_validated drivers urlsplit current ms revisions = Inl e"
proof (rule ccontr)
  assume "\<nexists>e. install_validated drivers urlsplit current ms revisions = Inl e"
  then obtain rg where "install_validated drivers urlsplit current ms revisions = Inr rg" by (metis sumE)
  then obtain rg1 rg2 where s: "stage_revisions (map snd (rg_revisions current) @ ms) [] = Inr (rg_revisions rg1)"
    and empty: "rg_active rg1 = []" and act: "activate_all drivers rg1 (rg_active current) = Inr rg2"
    by (rule install_cases)
  have inv: "registry_inv current" by (rule catalog.reachable_inv [OF assms(1)])
  have "(r, m) \<in> set (rg_revisions current)"
    using assms(3) by (auto simp: find_revision_def simp del: map_of_eq_Some_iff dest: map_of_SomeD split: option.splits)
  with inv have "r = manifest_revision m" "m \<in> set (map snd (rg_revisions current) @ ms)"
    by (auto simp: registry_inv_def rev_image_eqI)
  with stage_all [OF s] have found: "find_revision rg1 r = Inr m" by (simp add: find_revision_def del: map_of_eq_Some_iff)
  obtain x rg3 where x: "activate_pointer drivers rg1 c (Some r) = (x, rg3)" by fastforce
  with act assms(2) obtain m' where m': "x = Inr m'" by (cases x) auto
  with x found empty have "validate_pointers drivers rg1 [(c, r)] = Inr ()"
    by (auto simp: activate_pointer_def rbind_eq_Inr Let_def split: sum.splits if_splits)
  then have "dependencies_met [(c, m)]"
    using found by (auto simp: validate_pointers_iff rbind_eq_Inr)
  with assms(4-6) show False by (auto simp: dependencies_met_def)
qed

lemma activate_selected:
  assumes "rg_frozen rg = False" "find_revision rg r = Inr m" "manifest_coordinate m = c"
    and "excluded_coordinates (rg_resolution rg) = {}" "dict_ok (rg_active rg)" "pp_strategy (rg_policy rg) = By_Isolation"
    and "find_all rg (AList.update c r (rg_active rg)) = Inr selected" "dependencies_met selected" "acyclic (depends selected)"
    and "conflict_free selected" "\<forall>m \<in> set (map snd selected). map_of (cm_metadata m) ''driver'' = None"
  shows "activate_pointer drivers rg c (Some r) = (Inr m, rg\<lparr>rg_active := AList.update c r (rg_active rg)\<rparr>)"
proof -
  have "\<exists>res. resolve_projections drivers (rg_policy rg) (map snd selected) = Inr res"
    using resolve_plain [OF assms(11,6)] by blast
  then have "validate_pointers drivers rg (AList.update c r (rg_active rg)) = Inr ()"
    using assms(5,7-10) by (subst validate_pointers_iff) auto
  then show ?thesis by (subst activate_plain [OF assms(1-5)]) simp
qed

lemma reach_activate:
  assumes "reach (registry_init drivers) (registry_step drivers) rg" "activate_pointer drivers rg c r = (x, rg')"
  shows "reach (registry_init drivers) (registry_step drivers) rg'"
  using reach_step [OF assms(1) step_activate [of drivers rg c r]] assms(2) by simp

definition old_tool :: capability_manifest where
  "old_tool = example_manifest ''tool'' ''1.0.0'' []"

text \<open>The tool was activated before it needed the base library.\<close>

lemma example_upgraded:
  obtains rg where "reach (registry_init no_drivers) (registry_step no_drivers) rg"
    "rg_active rg = [(''x/tool'', ''x/tool@2.0.0#d''), (''x/base'', ''x/base@1.4.0#d'')]"
    "find_revision rg ''x/tool@2.0.0#d'' = Inr example_tool"
proof -
  have old: "manifest_coordinate old_tool = ''x/tool''" "manifest_revision old_tool = ''x/tool@1.0.0#d''"
    "cm_dependencies old_tool = []" "cm_conflicts old_tool = []"
    by (simp_all add: old_tool_def example_manifest_def coordinate_of_def revision_of_def)
  have base: "cm_dependencies example_base = []" "cm_conflicts example_base = []"
    by (simp_all add: example_base_def example_manifest_def)
  have plain: "map_of (cm_metadata example_base) ''driver'' = None" "map_of (cm_metadata example_tool) ''driver'' = None"
    "map_of (cm_metadata old_tool) ''driver'' = None"
    by (simp_all add: example_base_def example_tool_def old_tool_def example_manifest_def)
  obtain r0 where "resolve_projections no_drivers \<lparr>pp_strategy = By_Isolation, pp_selected = None\<rparr> [] = Inr r0"
    using resolve_plain [of "[]" "\<lparr>pp_strategy = By_Isolation, pp_selected = None\<rparr>" no_drivers] by auto
  then obtain rg0 where rg0: "new_registry no_drivers None = Inr rg0" "rg_frozen rg0 = False" "rg_revisions rg0 = []"
    "rg_active rg0 = []" "pp_strategy (rg_policy rg0) = By_Isolation"
    by (auto simp: new_registry_def)
  let ?revs = "[(''x/base@1.4.0#d'', example_base), (''x/tool@1.0.0#d'', old_tool), (''x/tool@2.0.0#d'', example_tool)]"
  have staged: "stage_revisions [example_base, old_tool, example_tool] (rg_revisions rg0) = Inr ?revs"
    using rg0 old by simp
  obtain rg1 where rg1: "register_many no_drivers rg0 [example_base, old_tool, example_tool] = (Inr [example_base, old_tool, example_tool], rg1)"
    "rg_revisions rg1 = ?revs" "rg_active rg1 = []"
    "rg_frozen rg1 = False" "rg_policy rg1 = rg_policy rg0" "excluded_coordinates (rg_resolution rg1) = {}"
    by (rule register_plain [OF rg0(2,5) staged]) (use plain rg0 in auto)
  note fields = find_revision_def rg1 rg0 old base
  let ?a1 = "[(''x/tool'', ''x/tool@1.0.0#d'')]" and ?a2 = "[(''x/tool'', ''x/tool@1.0.0#d''), (''x/base'', ''x/base@1.4.0#d'')]"
    and ?a3 = "[(''x/tool'', ''x/tool@2.0.0#d''), (''x/base'', ''x/base@1.4.0#d'')]"
  have empty: "dependencies_met xs" "acyclic (depends xs)" "conflict_free xs" if "set xs \<subseteq> {(''x/tool'', old_tool), (''x/base'', example_base)}" for xs
  proof -
    have deps: "\<forall>(c, m) \<in> set xs. cm_dependencies m = [] \<and> cm_conflicts m = []" using that old base by auto
    then show "dependencies_met xs" "conflict_free xs" by (auto simp: dependencies_met_def conflict_free_def)
    have "depends xs = {}" using deps by (fastforce simp: depends_def)
    then show "acyclic (depends xs)" by simp
  qed
  have s1: "activate_pointer no_drivers rg1 ''x/tool'' (Some ''x/tool@1.0.0#d'') = (Inr old_tool, rg1\<lparr>rg_active := ?a1\<rparr>)"
    using activate_selected [of rg1 "''x/tool@1.0.0#d''" old_tool "''x/tool''" "[(''x/tool'', old_tool)]" no_drivers]
      empty [of "[(''x/tool'', old_tool)]"] plain by (simp add: fields)
  have s2: "activate_pointer no_drivers (rg1\<lparr>rg_active := ?a1\<rparr>) ''x/base'' (Some ''x/base@1.4.0#d'') = (Inr example_base, rg1\<lparr>rg_active := ?a2\<rparr>)"
    using activate_selected [of "rg1\<lparr>rg_active := ?a1\<rparr>" "''x/base@1.4.0#d''" example_base "''x/base''" "[(''x/tool'', old_tool), (''x/base'', example_base)]" no_drivers]
      empty [of "[(''x/tool'', old_tool), (''x/base'', example_base)]"] plain by (simp add: fields)
  let ?sel = "[(''x/tool'', example_tool), (''x/base'', example_base)]"
  have "set ?sel = set example_selection" "dict_ok ?sel" "dict_ok example_selection" by (auto simp: example_selection_def)
  then have "map_of ?sel = map_of example_selection" by (simp only: map_of_inject_set)
  then have sel: "dependencies_met ?sel" "acyclic (depends ?sel)" "conflict_free ?sel"
    using example_selection_ok \<open>set ?sel = set example_selection\<close>
    unfolding dependencies_met_def depends_def conflict_free_def by simp_all
  have s3: "activate_pointer no_drivers (rg1\<lparr>rg_active := ?a2\<rparr>) ''x/tool'' (Some ''x/tool@2.0.0#d'') = (Inr example_tool, rg1\<lparr>rg_active := ?a3\<rparr>)"
    using activate_selected [of "rg1\<lparr>rg_active := ?a2\<rparr>" "''x/tool@2.0.0#d''" example_tool "''x/tool''" ?sel no_drivers] sel plain
    by (simp add: fields)
  have "reach (registry_init no_drivers) (registry_step no_drivers) rg1"
    using rg0(1) rg1(1) by (metis reach_init reach_step registry_init_def snd_conv step_register)
  then have "reach (registry_init no_drivers) (registry_step no_drivers) (rg1\<lparr>rg_active := ?a3\<rparr>)"
    by (intro reach_activate [OF reach_activate [OF reach_activate [OF _ s1] s2] s3])
  then show ?thesis by (rule that) (simp_all add: fields)
qed

theorem install_needs_dependency_order_witness:
  "\<exists>current e. rg_active current = [(''x/tool'', ''x/tool@2.0.0#d''), (''x/base'', ''x/base@1.4.0#d'')] \<and>
    install_validated no_drivers (\<lambda>_. Inl ValueError) current [] [] = Inl e"
proof -
  obtain rg where rg: "reach (registry_init no_drivers) (registry_step no_drivers) rg"
    "rg_active rg = [(''x/tool'', ''x/tool@2.0.0#d''), (''x/base'', ''x/base@1.4.0#d'')]"
    "find_revision rg ''x/tool@2.0.0#d'' = Inr example_tool"
    by (rule example_upgraded)
  from install_needs_dependency_order [OF rg, of "\<lparr>dp_coordinate = ''x/base'', dp_constraint = ''^1.2'', dp_optional = False\<rparr>"] rg(2)
  show ?thesis by (fastforce simp: example_tool_def example_manifest_def)
qed

theorem install_yields_valid_registry_witness:
  "\<exists>current rg. rg_active current = [(''x/base'', ''x/base@1.4.0#d'')] \<and>
    install_validated no_drivers (\<lambda>_. Inl ValueError) current [] [] = Inr rg \<and>
    (\<exists>selected. find_all rg (rg_active rg) = Inr selected \<and> dependencies_met selected)"
proof -
  let ?u = "\<lambda>_. Inl ValueError :: (string \<times> bool) result"
  obtain rg where rg: "reach (registry_init no_drivers) (registry_step no_drivers) rg"
    "rg_revisions rg = [(''x/base@1.4.0#d'', example_base), (''x/tool@2.0.0#d'', example_tool)]"
    "rg_active rg = [(''x/base'', ''x/base@1.4.0#d'')]"
    by (rule example_registry)
  have plain: "map_of (cm_metadata example_base) ''driver'' = None" "map_of (cm_metadata example_tool) ''driver'' = None"
    by (simp_all add: example_base_def example_tool_def example_manifest_def)
  have none: "\<exists>res. resolve_projections no_drivers p [] = Inr res" if "pp_strategy p = By_Isolation" for p
    using resolve_plain [of "[]" p no_drivers] that by auto
  from none [of "\<lparr>pp_strategy = By_Isolation, pp_selected = None\<rparr>"]
  obtain rg0 where rg0: "new_registry no_drivers None = Inr rg0" "rg_frozen rg0 = False" "rg_revisions rg0 = []"
    "rg_active rg0 = []" "pp_strategy (rg_policy rg0) = By_Isolation"
    by (auto simp: new_registry_def)
  obtain rg1 where rg1: "register_many no_drivers rg0 [] = (Inr [], rg1)" "rg_revisions rg1 = []" "rg_policy rg1 = rg_policy rg0"
    by (rule register_plain [OF rg0(2,5), of "[]" "[]"]) (use rg0 in auto)
  have "selected_manifests [] = []" by (simp add: selected_manifests_def group_by_coordinate_def List.map_filter_def)
  moreover have "validate_dependencies False [] = Inr ()" "validate_conflicts [] = Inr ()"
    by (simp_all add: validate_dependencies_iff validate_conflicts_iff dependencies_met_def depends_def conflict_free_def)
  ultimately have "validate_staged no_drivers rg1 None = Inr ()"
    using none [of "rg_policy rg1"] rg1 rg0 by (auto simp: validate_staged_def)
  with rg0 rg1 have adm: "validate_for_admission no_drivers ?u [] = Inr []" by (simp add: validate_for_admission_def)
  have staged: "stage_revisions [example_base, example_tool] (rg_revisions rg0) =
      Inr [(''x/base@1.4.0#d'', example_base), (''x/tool@2.0.0#d'', example_tool)]"
    using rg0 by simp
  obtain rg2 where rg2: "register_many no_drivers rg0 [example_base, example_tool] = (Inr [example_base, example_tool], rg2)"
    "rg_revisions rg2 = [(''x/base@1.4.0#d'', example_base), (''x/tool@2.0.0#d'', example_tool)]" "rg_active rg2 = []"
    "rg_frozen rg2 = False" "rg_policy rg2 = rg_policy rg0" "excluded_coordinates (rg_resolution rg2) = {}"
    by (rule register_plain [OF rg0(2,5) staged]) (use plain rg0 in auto)
  let ?act = "[(''x/base'', ''x/base@1.4.0#d'')]" and ?sel = "[(''x/base'', example_base)]"
  have base: "dependencies_met ?sel" "acyclic (depends ?sel)" "conflict_free ?sel"
  proof -
    show "dependencies_met ?sel" "conflict_free ?sel"
      by (auto simp: dependencies_met_def conflict_free_def example_base_def example_manifest_def)
    have "depends ?sel = {}" by (auto simp: depends_def example_base_def example_manifest_def)
    then show "acyclic (depends ?sel)" by simp
  qed
  have found: "find_all rg2 ?act = Inr ?sel" by (simp add: find_revision_def rg2)
  have act: "activate_pointer no_drivers rg2 ''x/base'' (Some ''x/base@1.4.0#d'') = (Inr example_base, rg2\<lparr>rg_active := ?act\<rparr>)"
    using activate_selected [of rg2 "''x/base@1.4.0#d''" example_base "''x/base''" ?sel no_drivers] base plain found
    by (simp add: find_revision_def rg2 rg0)
  have "\<exists>res. resolve_projections no_drivers (rg_policy rg2) [example_base] = Inr res"
    using resolve_plain [of "[example_base]"] plain rg0(5) rg2(5) by fastforce
  then have "validate_active no_drivers (rg2\<lparr>rg_active := ?act\<rparr>) = Inr ()"
    using base found unfolding validate_active_def by (subst validate_pointers_iff) (auto simp: find_revision_def rg2)
  with adm rg0(1) rg2(1) act have install: "install_validated no_drivers ?u rg [] [] = Inr (rg2\<lparr>rg_active := ?act\<rparr>)"
    by (simp add: install_validated_def rg)
  from install_yields_valid_registry [OF rg(1) install] install rg(3) show ?thesis by blast
qed

end
