(* ===== verification/Reasoning.thy ===== *)
theory Reasoning
  imports Json Models
begin

text \<open>
  The reasoning-tier router of \<open>src/src/capabilityhub/reasoning.py\<close> and the persistent task
  state of \<open>src/src/capabilityhub/reasoning_store.py\<close>. Signatures are JSON values; an absent
  signature is \<^const>\<open>PyNone\<close>. A tier, a risk or a tier set given as text is parsed as the
  enumeration's constructor does.
\<close>

section \<open>Inputs\<close>

datatype tier_input = Tier reasoning_tier | Tier_Text string

datatype risk_input = Risk side_effect | Risk_Text string

fun as_tier :: "tier_input \<Rightarrow> reasoning_tier result" where
  "as_tier (Tier t) = Inr t"
| "as_tier (Tier_Text s) =
     (if s = tier_value LOW then Inr LOW
      else if s = tier_value MEDIUM then Inr MEDIUM
      else if s = tier_value HIGH then Inr HIGH
      else Inl ValueError)"

fun as_risk :: "risk_input \<Rightarrow> side_effect result" where
  "as_risk (Risk r) = Inr r"
| "as_risk (Risk_Text s) =
     (if s = side_effect_value NONE then Inr NONE
      else if s = side_effect_value READ then Inr READ
      else if s = side_effect_value REVERSIBLE_WRITE then Inr REVERSIBLE_WRITE
      else if s = side_effect_value IRREVERSIBLE then Inr IRREVERSIBLE
      else Inl ValueError)"

fun as_tiers :: "tier_input list \<Rightarrow> reasoning_tier list result" where
  "as_tiers [] = Inr []"
| "as_tiers (x # xs) = rbind (as_tier x) (\<lambda>t. rbind (as_tiers xs) (\<lambda>ts. Inr (t # ts)))"

definition all_tiers :: "reasoning_tier list" where
  "all_tiers = [LOW, MEDIUM, HIGH]"

text \<open>\<open>_normalize_eligible\<close>: the requested tiers without repetition, cheapest first.\<close>

definition normalize_eligible :: "tier_input list option \<Rightarrow> reasoning_tier list result" where
  "normalize_eligible values =
     (case values of
        None \<Rightarrow> Inr all_tiers
      | Some xs \<Rightarrow> rbind (as_tiers xs) (\<lambda>ts. Inr (filter (\<lambda>t. t \<in> set ts) all_tiers)))"

fun risk_floor :: "side_effect \<Rightarrow> reasoning_tier" where
  "risk_floor NONE = LOW"
| "risk_floor READ = LOW"
| "risk_floor REVERSIBLE_WRITE = MEDIUM"
| "risk_floor IRREVERSIBLE = HIGH"

text \<open>\<open>str.lower\<close> of a character.\<close>

definition lower_char :: "char \<Rightarrow> char" where
  "lower_char c = (let n = code_point c in
     if is_upper c \<or> 192 \<le> n \<and> n \<le> 222 \<and> n \<noteq> 215 then char_of (n + 32) else c)"

text \<open>\<open>re.sub(r"[^a-z0-9]+", "_", s)\<close>.\<close>

fun squeeze :: "string \<Rightarrow> string" where
  "squeeze [] = []"
| "squeeze (c # cs) =
     (if is_lower c \<or> is_digit c then c # squeeze cs
      else case cs of
          [] \<Rightarrow> [CHR ''_'']
        | d # _ \<Rightarrow> if is_lower d \<or> is_digit d then CHR ''_'' # squeeze cs else squeeze cs)"

definition strip_underscores :: "string \<Rightarrow> string" where
  "strip_underscores s = rev (dropWhile (\<lambda>c. c = CHR ''_'') (rev (dropWhile (\<lambda>c. c = CHR ''_'') s)))"

definition reason_code :: "string \<Rightarrow> string" where
  "reason_code reason =
     (let t = strip_underscores (squeeze (map lower_char (strip reason)))
      in if t = [] then ''unspecified'' else t)"

section \<open>The router\<close>

record task_state =
  tk_tier :: "reasoning_tier option"
  tk_escalations :: int
  tk_attempts :: "((string \<times> string) \<times> int) list"

record reasoning_router =
  rr_policy :: string
  rr_max_escalations :: int
  rr_max_equivalent :: int
  rr_tasks :: "(string \<times> task_state) list"

record task_snapshot =
  tn_task :: string
  tn_tier :: "reasoning_tier option"
  tn_escalations :: int
  tn_distinct :: int

definition new_task :: task_state where
  "new_task = \<lparr>tk_tier = None, tk_escalations = 0, tk_attempts = []\<rparr>"

definition new_router :: "string \<Rightarrow> int \<Rightarrow> int \<Rightarrow> reasoning_router result" where
  "new_router policy max_escalations max_equivalent =
     (if policy = [] then Inl ValueError
      else if max_escalations < 0 then Inl ValueError
      else if max_equivalent < 1 then Inl ValueError
      else Inr \<lparr>rr_policy = policy, rr_max_escalations = max_escalations,
        rr_max_equivalent = max_equivalent, rr_tasks = []\<rparr>)"

definition no_eligible_tier :: "reasoning_tier \<Rightarrow> exn" where
  "no_eligible_tier minimum = HubError ''no_eligible_reasoning_tier'' BUDGET False
     [(''minimum_tier'', PyStr (tier_value minimum))]"

definition signature_pair :: "(pyval \<Rightarrow> string) \<Rightarrow> pyval \<Rightarrow> pyval \<Rightarrow> (string \<times> string) option" where
  "signature_pair fr attempt evidence =
     (if attempt = PyNone then None else Some (json_digest fr attempt, json_digest fr evidence))"

definition count_of :: "((string \<times> string) \<times> int) list \<Rightarrow> string \<times> string \<Rightarrow> int" where
  "count_of counts pair = (case map_of counts pair of None \<Rightarrow> 0 | Some n \<Rightarrow> n)"

definition floor_reasons :: "reasoning_tier \<Rightarrow> reasoning_tier \<Rightarrow> string list" where
  "floor_reasons risk policy =
     (if LOW < risk then [''risk_floor:'' @ tier_value risk] else []) @
     (if LOW < policy then [''policy_floor:'' @ tier_value policy] else [])"

text \<open>
  The part of \<open>route\<close> under the lock, for one task: the candidates are not empty and the
  cheapest one comes first.
\<close>

definition route_task ::
  "reasoning_router \<Rightarrow> reasoning_tier list \<Rightarrow> string list \<Rightarrow> string option \<Rightarrow> (string \<times> string) option \<Rightarrow>
   task_state \<Rightarrow> reasoning_decision \<times> task_state" where
  "route_task rr candidates floors escalation pair ts =
     (let cheapest = hd candidates;
          current0 = (case tk_tier ts of None \<Rightarrow> cheapest
            | Some t \<Rightarrow> if t \<in> set candidates then t else cheapest);
          current = (if current0 < cheapest then cheapest else current0);
          previous = (case pair of None \<Rightarrow> 0 | Some p \<Rightarrow> count_of (tk_attempts ts) p);
          attempts = (case pair of None \<Rightarrow> tk_attempts ts
            | Some p \<Rightarrow> AList.update p (previous + 1) (tk_attempts ts));
          no_progress = (pair \<noteq> None \<and> rr_max_equivalent rr \<le> previous);
          (tier, used, reasons) =
            (if no_progress then (current, tk_escalations ts, [''equivalent_attempt'', ''no_progress'', ''stop''])
             else case escalation of
               Some reason \<Rightarrow>
                 if rr_max_escalations rr \<le> tk_escalations ts
                 then (current, tk_escalations ts, [''escalation_cap_reached'', ''stop''])
                 else (case find (\<lambda>t. current < t) candidates of
                     None \<Rightarrow> (current, tk_escalations ts, [''highest_eligible_tier'', ''stop''])
                   | Some higher \<Rightarrow> (higher, tk_escalations ts + 1, [''escalated:'' @ reason_code reason]))
             | None \<Rightarrow> (current, tk_escalations ts,
                 [if current = cheapest then ''cheapest_eligible'' else ''retained_escalated_tier'']))
      in (\<lparr>rd_tier = tier, rd_reasons = floors @ reasons, rd_escalations = used,
           rd_policy_revision = rr_policy rr\<rparr>,
          \<lparr>tk_tier = Some tier, tk_escalations = used, tk_attempts = attempts\<rparr>))"

definition eligible_candidates ::
  "tier_input list option \<Rightarrow> risk_input \<Rightarrow> tier_input \<Rightarrow> (reasoning_tier list \<times> string list) result" where
  "eligible_candidates eligible risk minimum =
     rbind (as_risk risk) (\<lambda>r. rbind (as_tier minimum) (\<lambda>p.
       let floor = max (risk_floor r) p in
       rbind (normalize_eligible eligible) (\<lambda>ts.
         let candidates = filter (\<lambda>t. floor \<le> t) ts in
         if candidates = [] then Inl (no_eligible_tier floor)
         else Inr (candidates, floor_reasons (risk_floor r) p))))"

definition router_route ::
  "(pyval \<Rightarrow> string) \<Rightarrow> reasoning_router \<Rightarrow> string \<Rightarrow> tier_input list option \<Rightarrow> risk_input \<Rightarrow> tier_input \<Rightarrow>
   string option \<Rightarrow> pyval \<Rightarrow> pyval \<Rightarrow> reasoning_decision result \<times> reasoning_router" where
  "router_route fr rr task eligible risk minimum escalation attempt evidence =
     (if task = [] then (Inl ValueError, rr)
      else case eligible_candidates eligible risk minimum of
        Inl e \<Rightarrow> (Inl e, rr)
      | Inr (candidates, floors) \<Rightarrow>
          (let ts = (case map_of (rr_tasks rr) task of None \<Rightarrow> new_task | Some ts \<Rightarrow> ts);
               (d, ts') = route_task rr candidates floors escalation (signature_pair fr attempt evidence) ts
           in (Inr d, rr\<lparr>rr_tasks := AList.update task ts' (rr_tasks rr)\<rparr>)))"

definition router_snapshot :: "reasoning_router \<Rightarrow> string \<Rightarrow> task_snapshot" where
  "router_snapshot rr task =
     (let ts = (case map_of (rr_tasks rr) task of None \<Rightarrow> new_task | Some ts \<Rightarrow> ts)
      in \<lparr>tn_task = task, tn_tier = tk_tier ts, tn_escalations = tk_escalations ts,
          tn_distinct = int (length (tk_attempts ts))\<rparr>)"

definition router_reset :: "reasoning_router \<Rightarrow> string \<Rightarrow> reasoning_router" where
  "router_reset rr task = rr\<lparr>rr_tasks := AList.delete task (rr_tasks rr)\<rparr>"

section \<open>Stored task state\<close>

record stored_state =
  sr_tier :: "reasoning_tier option"
  sr_escalations :: int
  sr_count :: int
  sr_attempts :: "((string \<times> string) \<times> int) list"
  sr_last :: "(string \<times> pyval) list option"

type_synonym reasoning_store = "(string \<times> stored_state) list"

definition new_stored :: stored_state where
  "new_stored = \<lparr>sr_tier = None, sr_escalations = 0, sr_count = 0, sr_attempts = [], sr_last = None\<rparr>"

definition store_read :: "reasoning_store \<Rightarrow> string \<Rightarrow> stored_state result" where
  "store_read db task = (if task = [] then Inl ValueError
     else Inr (case map_of db task of None \<Rightarrow> new_stored | Some s \<Rightarrow> s))"

text \<open>\<open>transact\<close>: read, update and replace one task's rows in one immediate transaction.\<close>

definition store_transact ::
  "reasoning_store \<Rightarrow> string \<Rightarrow> (stored_state \<Rightarrow> (stored_state \<times> 'a) result) \<Rightarrow> 'a result \<times> reasoning_store" where
  "store_transact db task update =
     (case store_read db task of
        Inl e \<Rightarrow> (Inl e, db)
      | Inr current \<Rightarrow>
          (case update current of
             Inl e \<Rightarrow> (Inl e, db)
           | Inr (replacement, x) \<Rightarrow> (Inr x, AList.update task replacement db)))"

definition store_reset :: "reasoning_store \<Rightarrow> string \<Rightarrow> unit result \<times> reasoning_store" where
  "store_reset db task = (if task = [] then (Inl ValueError, db) else (Inr (), AList.delete task db))"

section \<open>The scoped encoding\<close>

definition encode_scoped :: "stored_state \<Rightarrow> pyval" where
  "encode_scoped s = PyDict
     [(''attempts'', PyList (map (\<lambda>((a, e), n). PyList [PyStr a, PyStr e, PyInt n])
        (sort_key fst (sr_attempts s)))),
      (''escalations_used'', PyInt (sr_escalations s)),
      (''last_recommendation'', (case sr_last s of None \<Rightarrow> PyNone | Some d \<Rightarrow> PyDict d)),
      (''recommendation_count'', PyInt (sr_count s)),
      (''tier'', (case sr_tier s of None \<Rightarrow> PyNone | Some t \<Rightarrow> PyStr (tier_value t)))]"

fun decode_attempt :: "pyval \<Rightarrow> ((string \<times> string) \<times> int) option" where
  "decode_attempt (PyList [PyStr a, PyStr e, PyInt n]) = (if n < 0 then None else Some ((a, e), n))"
| "decode_attempt _ = None"

fun decode_attempts ::
  "pyval list \<Rightarrow> ((string \<times> string) \<times> int) list \<Rightarrow> ((string \<times> string) \<times> int) list option" where
  "decode_attempts [] acc = Some acc"
| "decode_attempts (v # vs) acc =
     (case decode_attempt v of None \<Rightarrow> None | Some (p, n) \<Rightarrow> decode_attempts vs (AList.update p n acc))"

fun decode_count :: "pyval option \<Rightarrow> int option" where
  "decode_count (Some (PyInt n)) = (if n < 0 then None else Some n)"
| "decode_count _ = None"

fun decode_tier :: "pyval option \<Rightarrow> reasoning_tier option option" where
  "decode_tier (Some PyNone) = Some None"
| "decode_tier (Some (PyStr s)) = (case as_tier (Tier_Text s) of Inl _ \<Rightarrow> None | Inr t \<Rightarrow> Some (Some t))"
| "decode_tier _ = None"

fun decode_last :: "pyval option \<Rightarrow> (string \<times> pyval) list option option" where
  "decode_last (Some PyNone) = Some None"
| "decode_last (Some (PyDict d)) = Some (Some d)"
| "decode_last _ = None"

text \<open>Every error of the checks, of a missing key or of the tier becomes one \<open>ValueError\<close>.\<close>

definition decode_scoped :: "pyval \<Rightarrow> stored_state result" where
  "decode_scoped value =
     (case value of
        PyNone \<Rightarrow> Inr new_stored
      | PyDict d \<Rightarrow>
          (case (map_of d ''attempts'', decode_tier (map_of d ''tier''), decode_last (map_of d ''last_recommendation''),
                 decode_count (map_of d ''escalations_used''), decode_count (map_of d ''recommendation_count'')) of
             (Some (PyList raw), Some tier, Some lst, Some escalations, Some count) \<Rightarrow>
               (case decode_attempts raw [] of
                  None \<Rightarrow> Inl ValueError
                | Some attempts \<Rightarrow> Inr \<lparr>sr_tier = tier, sr_escalations = escalations, sr_count = count,
                    sr_attempts = attempts, sr_last = lst\<rparr>)
           | _ \<Rightarrow> Inl ValueError)
      | _ \<Rightarrow> Inl ValueError)"

end
