(* ===== verification/Budget.thy ===== *)
theory Budget
  imports Hub_Prelude
begin

text \<open>
  The in-memory hierarchical budget of \<open>src/src/capabilityhub/budget.py\<close>: ledgers with hard
  limits, each charged together with all its ancestors, and single-use reservations.

  Ledgers and reservations are mutable Python objects, so the model keeps them in a heap and
  refers to them by index. Every operation runs under the locks of the whole chain
  (\<open>_locked_chain\<close>), so one operation is one atomic step.
\<close>

section \<open>Data\<close>

record ledger =
  l_scope :: string
  l_parent :: "nat option"
  l_limits :: "string \<rightharpoonup> int"
  l_used :: "string \<rightharpoonup> int"
  l_reserved :: "string \<rightharpoonup> int"

record reservation =
  r_ledger :: nat
  r_id :: string
  r_amounts :: "(string \<times> int) list"
  r_active :: bool

record budget_heap =
  ledgers :: "ledger list"
  reservations :: "reservation list"

record budget_snapshot =
  bs_scope :: string
  bs_limits :: "string \<rightharpoonup> int"
  bs_used :: "string \<rightharpoonup> int"
  bs_reserved :: "string \<rightharpoonup> int"
  bs_remaining :: "string \<rightharpoonup> int"

definition budget_exceeded :: "string \<Rightarrow> string \<Rightarrow> int \<Rightarrow> int \<Rightarrow> exn" where
  "budget_exceeded scope counter limit requested_total =
     HubError ''budget_exhausted'' BUDGET False
       [(''scope'', PyStr scope), (''counter'', PyStr counter), (''limit'', PyInt limit),
        (''requested_total'', PyInt requested_total)]"

section \<open>Operations\<close>

text \<open>
  \<open>_validate_amounts\<close>: a Python \<open>bool\<close>, a non-integer and a negative integer are all
  rejected; zero entries are dropped unless \<open>drop_zero\<close> is off.
\<close>

fun validate_amounts :: "bool \<Rightarrow> (string \<times> pyval) list \<Rightarrow> (string \<times> int) list result" where
  "validate_amounts drop_zero [] = Inr []"
| "validate_amounts drop_zero ((counter, v) # rest) =
     (if counter = [] then Inl ValueError
      else case v of
        PyInt n \<Rightarrow>
          if n < 0 then Inl ValueError
          else rbind (validate_amounts drop_zero rest)
            (\<lambda>xs. Inr (if n \<noteq> 0 \<or> \<not> drop_zero then (counter, n) # xs else xs))
      | _ \<Rightarrow> Inl ValueError)"

text \<open>\<open>BudgetLedger.__init__\<close> and \<open>create_child\<close>.\<close>

definition new_ledger ::
  "budget_heap \<Rightarrow> string \<Rightarrow> (string \<times> pyval) list \<Rightarrow> nat option \<Rightarrow> nat result \<times> budget_heap" where
  "new_ledger h scope limits parent =
     (if scope = [] then (Inl ValueError, h)
      else case validate_amounts False limits of
        Inl e \<Rightarrow> (Inl e, h)
      | Inr normalized \<Rightarrow>
          if parent = Some (length (ledgers h)) then (Inl ValueError, h)
          else
            (Inr (length (ledgers h)),
             h\<lparr>ledgers := ledgers h @
                 [\<lparr>l_scope = scope, l_parent = parent, l_limits = map_of normalized,
                   l_used = Map.empty, l_reserved = Map.empty\<rparr>]\<rparr>))"

definition create_child_ledger ::
  "budget_heap \<Rightarrow> nat \<Rightarrow> string \<Rightarrow> (string \<times> pyval) list \<Rightarrow> nat result \<times> budget_heap" where
  "create_child_ledger h self scope limits = new_ledger h scope limits (Some self)"

text \<open>
  \<open>_chain\<close>: the ledger and its ancestors, leaf to root, until a ledger without a parent;
  a ledger seen twice raises. The visited list is the chain built so far.
\<close>

function chain_walk :: "ledger list \<Rightarrow> nat list \<Rightarrow> nat option \<Rightarrow> nat list result" where
  "chain_walk ls visited current =
     (case current of
        None \<Rightarrow> Inr visited
      | Some i \<Rightarrow>
          if i \<in> set visited then Inl RuntimeError
          else if length ls \<le> i then Inl BadReference
          else chain_walk ls (visited @ [i]) (l_parent (ls ! i)))"
  by pat_completeness auto
termination
proof (relation "measure (\<lambda>(ls, visited, _). card ({..<length ls} - set visited))", goal_cases)
  case 1
  show ?case by simp
next
  case (2 ls visited current i)
  then have "i \<in> {..<length ls} - set visited" by simp
  then have "{..<length ls} - set (visited @ [i]) \<subset> {..<length ls} - set visited"
    by (simp add: psubset_eq) blast
  then have "card ({..<length ls} - set (visited @ [i])) < card ({..<length ls} - set visited)"
    by (rule psubset_card_mono [rotated]) simp
  then show ?case by simp
qed

declare chain_walk.simps [simp del]

definition ledger_chain :: "ledger list \<Rightarrow> nat \<Rightarrow> nat list result" where
  "ledger_chain ls i = rbind (chain_walk ls [] (Some i)) (\<lambda>c. Inr (rev c))"

fun add_amounts :: "(string \<rightharpoonup> int) \<Rightarrow> (string \<times> int) list \<Rightarrow> (string \<rightharpoonup> int)" where
  "add_amounts target [] = target"
| "add_amounts target ((counter, amount) # rest) =
     add_amounts (target(counter \<mapsto> getd target counter + amount)) rest"

text \<open>\<open>_subtract\<close> mutates the dictionary as it goes, also when it raises on a later counter.\<close>

fun subtract_amounts ::
  "(string \<rightharpoonup> int) \<Rightarrow> (string \<times> int) list \<Rightarrow> unit result \<times> (string \<rightharpoonup> int)" where
  "subtract_amounts target [] = (Inr (), target)"
| "subtract_amounts target ((counter, amount) # rest) =
     (let remaining = getd target counter - amount in
      if remaining < 0 then (Inl RuntimeError, target)
      else subtract_amounts
        (if remaining \<noteq> 0 then target(counter \<mapsto> remaining) else target(counter := None)) rest)"

fun check_ledger ::
  "ledger \<Rightarrow> (string \<times> int) list \<Rightarrow> (string \<times> int) list \<Rightarrow> unit result" where
  "check_ledger l replaced [] = Inr ()"
| "check_ledger l replaced ((counter, amount) # rest) =
     (case l_limits l counter of
        None \<Rightarrow> check_ledger l replaced rest
      | Some limit \<Rightarrow>
          let requested_total =
            getd (l_used l) counter + getd (l_reserved l) counter - amt replaced counter + amount
          in if limit < requested_total
             then Inl (budget_exceeded (l_scope l) counter limit requested_total)
             else check_ledger l replaced rest)"

fun check_capacity ::
  "ledger list \<Rightarrow> nat list \<Rightarrow> (string \<times> int) list \<Rightarrow> (string \<times> int) list \<Rightarrow> unit result" where
  "check_capacity ls [] amounts replaced = Inr ()"
| "check_capacity ls (i # is) amounts replaced =
     rbind (check_ledger (ls ! i) replaced amounts) (\<lambda>_. check_capacity ls is amounts replaced)"

fun hold_all :: "ledger list \<Rightarrow> nat list \<Rightarrow> (string \<times> int) list \<Rightarrow> ledger list" where
  "hold_all ls [] amounts = ls"
| "hold_all ls (i # is) amounts =
     hold_all (ls[i := (ls ! i)\<lparr>l_reserved := add_amounts (l_reserved (ls ! i)) amounts\<rparr>]) is amounts"

text \<open>\<open>BudgetLedger.reserve\<close>; \<open>fresh\<close> is the value of \<open>uuid4().hex\<close>.\<close>

definition budget_reserve ::
  "budget_heap \<Rightarrow> nat \<Rightarrow> (string \<times> pyval) list \<Rightarrow> string option \<Rightarrow> string \<Rightarrow> nat result \<times> budget_heap" where
  "budget_reserve h self amounts reservation_id fresh =
     (case validate_amounts True amounts of
        Inl e \<Rightarrow> (Inl e, h)
      | Inr requested \<Rightarrow>
        (case ledger_chain (ledgers h) self of
           Inl e \<Rightarrow> (Inl e, h)
         | Inr ids \<Rightarrow>
           (case check_capacity (ledgers h) ids requested [] of
              Inl e \<Rightarrow> (Inl e, h)
            | Inr _ \<Rightarrow>
              (let h' = h\<lparr>ledgers := hold_all (ledgers h) ids requested\<rparr>;
                   rid = (case reservation_id of None \<Rightarrow> fresh | Some s \<Rightarrow> if s = [] then fresh else s)
               in if rid = [] then (Inl ValueError, h')
                  else (Inr (length (reservations h)),
                        h'\<lparr>reservations := reservations h @
                            [\<lparr>r_ledger = self, r_id = rid, r_amounts = requested,
                              r_active = True\<rparr>]\<rparr>)))))"

text \<open>
  The loop of \<open>reconcile\<close> (\<open>charge = True\<close>) and of \<open>cancel\<close> (\<open>charge = False\<close>):
  per ledger, root first, release the reserved amounts and add the final charge.
\<close>

fun settle_all ::
  "ledger list \<Rightarrow> nat list \<Rightarrow> (string \<times> int) list \<Rightarrow> (string \<times> int) list option \<Rightarrow>
   unit result \<times> ledger list" where
  "settle_all ls [] amounts charged = (Inr (), ls)"
| "settle_all ls (i # is) amounts charged =
     (case subtract_amounts (l_reserved (ls ! i)) amounts of
        (Inl e, m) \<Rightarrow> (Inl e, ls[i := (ls ! i)\<lparr>l_reserved := m\<rparr>])
      | (Inr _, m) \<Rightarrow>
          settle_all
            (ls[i := (ls ! i)\<lparr>l_reserved := m,
                 l_used := (case charged of None \<Rightarrow> l_used (ls ! i)
                            | Some cs \<Rightarrow> add_amounts (l_used (ls ! i)) cs)\<rparr>])
            is amounts charged)"

definition settle :: "budget_heap \<Rightarrow> nat \<Rightarrow> nat list \<Rightarrow> (string \<times> int) list option \<Rightarrow>
    unit result \<times> budget_heap" where
  "settle h rid ids charged =
     (case settle_all (ledgers h) ids (r_amounts (reservations h ! rid)) charged of
        (Inl e, ls) \<Rightarrow> (Inl e, h\<lparr>ledgers := ls\<rparr>)
      | (Inr _, ls) \<Rightarrow>
          (Inr (), h\<lparr>ledgers := ls,
             reservations := (reservations h)[rid := (reservations h ! rid)\<lparr>r_active := False\<rparr>]\<rparr>))"

definition budget_reconcile ::
  "budget_heap \<Rightarrow> nat \<Rightarrow> (string \<times> pyval) list \<Rightarrow> unit result \<times> budget_heap" where
  "budget_reconcile h rid actual =
     (if length (reservations h) \<le> rid then (Inl BadReference, h)
      else let r = reservations h ! rid in
      case validate_amounts True actual of
        Inl e \<Rightarrow> (Inl e, h)
      | Inr charged \<Rightarrow>
        (case ledger_chain (ledgers h) (r_ledger r) of
           Inl e \<Rightarrow> (Inl e, h)
         | Inr ids \<Rightarrow>
           if \<not> r_active r then (Inl RuntimeError, h)
           else (case check_capacity (ledgers h) ids charged (r_amounts r) of
              Inl e \<Rightarrow> (Inl e, h)
            | Inr _ \<Rightarrow> settle h rid ids (Some charged))))"

definition budget_cancel :: "budget_heap \<Rightarrow> nat \<Rightarrow> unit result \<times> budget_heap" where
  "budget_cancel h rid =
     (if length (reservations h) \<le> rid then (Inl BadReference, h)
      else let r = reservations h ! rid in
      case ledger_chain (ledgers h) (r_ledger r) of
        Inl e \<Rightarrow> (Inl e, h)
      | Inr ids \<Rightarrow>
          if \<not> r_active r then (Inl RuntimeError, h) else settle h rid ids None)"

definition budget_spend ::
  "budget_heap \<Rightarrow> nat \<Rightarrow> (string \<times> pyval) list \<Rightarrow> string \<Rightarrow> unit result \<times> budget_heap" where
  "budget_spend h self amounts fresh =
     (case budget_reserve h self amounts None fresh of
        (Inl e, h') \<Rightarrow> (Inl e, h')
      | (Inr rid, h') \<Rightarrow> budget_reconcile h' rid amounts)"

definition ledger_snapshot :: "ledger \<Rightarrow> budget_snapshot" where
  "ledger_snapshot l =
     (let counters = (\<lambda>c. l_limits l c \<noteq> None \<or> l_used l c \<noteq> None \<or> l_reserved l c \<noteq> None)
      in \<lparr>bs_scope = l_scope l, bs_limits = l_limits l,
          bs_used = (\<lambda>c. if counters c then Some (getd (l_used l) c) else None),
          bs_reserved = (\<lambda>c. if counters c then Some (getd (l_reserved l) c) else None),
          bs_remaining = (\<lambda>c. case l_limits l c of None \<Rightarrow> None
             | Some limit \<Rightarrow> Some (max 0 (limit - getd (l_used l) c - getd (l_reserved l) c)))\<rparr>)"

section \<open>Chains\<close>

definition wf_parents :: "ledger list \<Rightarrow> bool" where
  "wf_parents ls \<longleftrightarrow> (\<forall>i < length ls. \<forall>p. l_parent (ls ! i) = Some p \<longrightarrow> p < i)"

function ancestors :: "ledger list \<Rightarrow> nat \<Rightarrow> nat list" where
  "ancestors ls i =
     i # (case l_parent (ls ! i) of None \<Rightarrow> [] | Some p \<Rightarrow> if p < i then ancestors ls p else [])"
  by pat_completeness auto
termination by (relation "measure snd") auto

declare ancestors.simps [simp del]

lemma ancestors_le: "j \<in> set (ancestors ls i) \<Longrightarrow> j \<le> i"
proof (induction ls i rule: ancestors.induct)
  case (1 ls i)
  from "1.prems" show ?case
    by (subst (asm) ancestors.simps) (auto split: option.splits if_splits dest!: "1.IH" [OF sym])
qed

lemma ancestors_self: "i \<in> set (ancestors ls i)"
  by (subst ancestors.simps) simp

lemma distinct_ancestors: "distinct (ancestors ls i)"
proof (induction ls i rule: ancestors.induct)
  case (1 ls i)
  then show ?case
    by (subst ancestors.simps) (auto split: option.splits dest: ancestors_le)
qed

lemma ancestors_parent:
  assumes "wf_parents ls" "i < length ls" "l_parent (ls ! i) = Some p"
  shows "set (ancestors ls i) = insert i (set (ancestors ls p))"
  using assms by (subst ancestors.simps) (auto simp: wf_parents_def)

lemma ancestors_closed:
  assumes "wf_parents ls" "i < length ls" "j \<in> set (ancestors ls i)" "l_parent (ls ! j) = Some p"
  shows "p \<in> set (ancestors ls i)"
  using assms
proof (induction ls i rule: ancestors.induct)
  case (1 ls i)
  show ?case
  proof (cases "l_parent (ls ! i)")
    case None
    with "1.prems" show ?thesis by (simp add: ancestors.simps [of ls i])
  next
    case (Some q)
    with "1.prems" have q: "q < i" by (auto simp: wf_parents_def)
    have eq: "set (ancestors ls i) = insert i (set (ancestors ls q))"
      using "1.prems"(1,2) Some by (rule ancestors_parent)
    show ?thesis
    proof (cases "j = i")
      case True
      with Some "1.prems"(4) eq show ?thesis by (simp add: ancestors_self)
    next
      case False
      with eq "1.prems" q Some "1.IH" [OF Some q] show ?thesis by simp
    qed
  qed
qed

lemma ancestors_cong:
  assumes "\<And>j. j \<le> i \<Longrightarrow> l_parent (ls' ! j) = l_parent (ls ! j)"
  shows "ancestors ls' i = ancestors ls i"
  using assms
proof (induction ls i rule: ancestors.induct)
  case (1 ls i)
  show ?case
    by (subst (1 2) ancestors.simps) (auto simp: "1.prems" split: option.splits intro!: "1.IH")
qed

lemma chain_walk_ancestors:
  assumes "wf_parents ls" "i < length ls" "\<forall>j \<in> set visited. i < j"
  shows "chain_walk ls visited (Some i) = Inr (visited @ ancestors ls i)"
  using assms
proof (induction ls i arbitrary: visited rule: ancestors.induct)
  case (1 ls i)
  have fresh: "i \<notin> set visited" using "1.prems"(3) by auto
  show ?case
  proof (cases "l_parent (ls ! i)")
    case None
    with fresh "1.prems" show ?thesis
      by (simp add: chain_walk.simps [of ls visited "Some i"]
          chain_walk.simps [of ls "visited @ [i]" None] ancestors.simps [of ls i])
  next
    case (Some p)
    with "1.prems" have p: "p < i" by (auto simp: wf_parents_def)
    have "chain_walk ls (visited @ [i]) (Some p) = Inr ((visited @ [i]) @ ancestors ls p)"
      using p "1.prems" by (intro "1.IH" [OF Some p]) auto
    with Some p fresh "1.prems" show ?thesis
      by (simp add: chain_walk.simps [of ls visited "Some i"] ancestors.simps [of ls i])
  qed
qed

lemma ledger_chain_ancestors:
  "wf_parents ls \<Longrightarrow> i < length ls \<Longrightarrow> ledger_chain ls i = Inr (rev (ancestors ls i))"
  by (simp add: ledger_chain_def chain_walk_ancestors)

section \<open>Dictionaries of amounts\<close>

lemma validate_amounts_ok:
  assumes "validate_amounts dz raw = Inr xs" "dict_ok raw"
  shows "dict_ok xs \<and> fst ` set xs \<subseteq> fst ` set raw \<and> (\<forall>(c, n) \<in> set xs. 0 \<le> n \<and> (dz \<longrightarrow> 0 < n))"
  using assms
proof (induction dz raw arbitrary: xs rule: validate_amounts.induct)
  case (1 dz)
  then show ?case by simp
next
  case (2 dz c v rest)
  from "2.prems" obtain n ys where v: "v = PyInt n" "0 \<le> n" "c \<noteq> []"
    and ys: "validate_amounts dz rest = Inr ys"
    and xs: "xs = (if n \<noteq> 0 \<or> \<not> dz then (c, n) # ys else ys)"
    by (auto simp: rbind_eq_Inr split: if_splits pyval.splits)
  have "dict_ok ys \<and> fst ` set ys \<subseteq> fst ` set rest \<and> (\<forall>(c, n) \<in> set ys. 0 \<le> n \<and> (dz \<longrightarrow> 0 < n))"
    using "2.prems" v ys by (intro "2.IH" [of n]) auto
  with v xs "2.prems"(2) show ?case by auto
qed

lemma getd_add_amounts [simp]: "dict_ok xs \<Longrightarrow> getd (add_amounts m xs) c = getd m c + amt xs c"
  by (induction m xs rule: add_amounts.induct) (auto simp: amt_notin)

lemma subtract_amounts_ok:
  assumes "dict_ok xs" "\<forall>(c, n) \<in> set xs. n \<le> getd m c"
  shows "\<exists>m'. subtract_amounts m xs = (Inr (), m') \<and> (\<forall>c. getd m' c = getd m c - amt xs c)"
  using assms
proof (induction m xs rule: subtract_amounts.induct)
  case (1 m)
  then show ?case by simp
next
  case (2 m c n rest)
  let ?m = "if getd m c - n \<noteq> 0 then m(c \<mapsto> getd m c - n) else m(c := None)"
  have pre: "dict_ok rest" "\<forall>(d, k) \<in> set rest. k \<le> getd ?m d"
    using "2.prems" by (auto split: prod.splits dest: fst_memI)
  have "\<exists>m'. subtract_amounts ?m rest = (Inr (), m') \<and> (\<forall>c. getd m' c = getd ?m c - amt rest c)"
    using "2.prems" pre by (intro "2.IH") auto
  then obtain m' where m': "subtract_amounts ?m rest = (Inr (), m')"
    "\<forall>c. getd m' c = getd ?m c - amt rest c" by blast
  have "c \<notin> fst ` set rest" using "2.prems"(1) by simp
  then have "\<forall>d. getd m' d = getd m d - amt ((c, n) # rest) d"
    using m'(2) by (simp add: amt_notin)
  with m'(1) "2.prems"(2) show ?case by (simp add: Let_def)
qed

section \<open>Updates along a chain\<close>

lemma check_ledger_ok:
  "check_ledger l replaced xs = Inr () \<longleftrightarrow>
     (\<forall>(c, a) \<in> set xs. \<forall>limit. l_limits l c = Some limit \<longrightarrow>
        getd (l_used l) c + getd (l_reserved l) c - amt replaced c + a \<le> limit)"
  by (induction l replaced xs rule: check_ledger.induct) (auto simp: Let_def split: option.splits)

lemma check_capacity_ok:
  "check_capacity ls is xs replaced = Inr () \<longleftrightarrow>
     (\<forall>i \<in> set is. check_ledger (ls ! i) replaced xs = Inr ())"
  by (induction ls "is" xs replaced rule: check_capacity.induct) (auto simp: rbind_eq_Inr)

lemma length_hold_all [simp]: "length (hold_all ls is xs) = length ls"
  by (induction ls "is" xs rule: hold_all.induct) simp_all

lemma nth_hold_all:
  assumes "distinct is" "\<forall>i \<in> set is. i < length ls" "j < length ls"
  shows "hold_all ls is xs ! j =
    (if j \<in> set is then (ls ! j)\<lparr>l_reserved := add_amounts (l_reserved (ls ! j)) xs\<rparr> else ls ! j)"
  using assms by (induction ls "is" xs rule: hold_all.induct) (auto simp: nth_list_update)

lemma settle_all_ok:
  assumes "distinct is" "\<forall>i \<in> set is. i < length ls" "dict_ok xs"
    and "\<forall>i \<in> set is. \<forall>(c, n) \<in> set xs. n \<le> getd (l_reserved (ls ! i)) c"
  shows "\<exists>ls'. settle_all ls is xs charged = (Inr (), ls') \<and> length ls' = length ls \<and>
    (\<forall>j < length ls.
       l_scope (ls' ! j) = l_scope (ls ! j) \<and> l_parent (ls' ! j) = l_parent (ls ! j) \<and>
       l_limits (ls' ! j) = l_limits (ls ! j) \<and>
       (\<forall>c. getd (l_reserved (ls' ! j)) c =
          getd (l_reserved (ls ! j)) c - (if j \<in> set is then amt xs c else 0)) \<and>
       l_used (ls' ! j) = (case charged of None \<Rightarrow> l_used (ls ! j)
          | Some cs \<Rightarrow> if j \<in> set is then add_amounts (l_used (ls ! j)) cs else l_used (ls ! j)))"
  using assms
proof (induction ls "is" xs charged rule: settle_all.induct)
  case (1 ls xs charged)
  then show ?case by (auto split: option.splits)
next
  case (2 ls i "is" xs charged)
  obtain m where m: "subtract_amounts (l_reserved (ls ! i)) xs = (Inr (), m)"
    "\<forall>c. getd m c = getd (l_reserved (ls ! i)) c - amt xs c"
    using subtract_amounts_ok [of xs "l_reserved (ls ! i)"] "2.prems" by auto
  let ?ls = "ls[i := (ls ! i)\<lparr>l_reserved := m,
      l_used := (case charged of None \<Rightarrow> l_used (ls ! i)
        | Some cs \<Rightarrow> add_amounts (l_used (ls ! i)) cs)\<rparr>]"
  have pre: "distinct is" "\<forall>k \<in> set is. k < length ?ls" "dict_ok xs"
    "\<forall>k \<in> set is. \<forall>(c, n) \<in> set xs. n \<le> getd (l_reserved (?ls ! k)) c"
    using "2.prems" by (auto simp: nth_list_update split: prod.splits)
  from "2.IH" [OF m(1) [symmetric] refl pre] obtain ls' where ls':
    "settle_all ?ls is xs charged = (Inr (), ls')" "length ls' = length ls"
    "\<forall>j < length ls.
       l_scope (ls' ! j) = l_scope (?ls ! j) \<and> l_parent (ls' ! j) = l_parent (?ls ! j) \<and>
       l_limits (ls' ! j) = l_limits (?ls ! j) \<and>
       (\<forall>c. getd (l_reserved (ls' ! j)) c =
          getd (l_reserved (?ls ! j)) c - (if j \<in> set is then amt xs c else 0)) \<and>
       l_used (ls' ! j) = (case charged of None \<Rightarrow> l_used (?ls ! j)
          | Some cs \<Rightarrow> if j \<in> set is then add_amounts (l_used (?ls ! j)) cs else l_used (?ls ! j))"
    by auto
  have "settle_all ls (i # is) xs charged = (Inr (), ls')"
    using m(1) ls'(1) by simp
  moreover have "i \<notin> set is" "i < length ls" using "2.prems" by auto
  ultimately show ?case
    using ls'(2,3) m(2) by (auto simp: nth_list_update split: option.splits)
qed

section \<open>The accounting invariant\<close>

text \<open>
  The amount of counter \<open>c\<close> that active reservations hold at ledger \<open>j\<close>: a reservation
  counts at its own ledger and at every ancestor.
\<close>

definition held :: "ledger list \<Rightarrow> reservation list \<Rightarrow> nat \<Rightarrow> string \<Rightarrow> int" where
  "held ls rs j c =
     (\<Sum>r \<leftarrow> rs. if r_active r \<and> j \<in> set (ancestors ls (r_ledger r)) then amt (r_amounts r) c else 0)"

definition ledger_ok :: "ledger list \<Rightarrow> reservation list \<Rightarrow> nat \<Rightarrow> bool" where
  "ledger_ok ls rs j \<longleftrightarrow>
     (\<forall>c. held ls rs j c = getd (l_reserved (ls ! j)) c) \<and>
     (\<forall>c. 0 \<le> getd (l_used (ls ! j)) c) \<and>
     (\<forall>c limit. l_limits (ls ! j) c = Some limit \<longrightarrow>
        getd (l_used (ls ! j)) c + getd (l_reserved (ls ! j)) c \<le> limit) \<and>
     (\<forall>c p. l_parent (ls ! j) = Some p \<longrightarrow> getd (l_used (ls ! j)) c \<le> getd (l_used (ls ! p)) c)"

definition reservation_ok :: "ledger list \<Rightarrow> reservation \<Rightarrow> bool" where
  "reservation_ok ls r \<longleftrightarrow> r_ledger r < length ls \<and> dict_ok (r_amounts r) \<and>
     (\<forall>(c, n) \<in> set (r_amounts r). 0 \<le> n)"

definition budget_inv :: "budget_heap \<Rightarrow> bool" where
  "budget_inv h \<longleftrightarrow> wf_parents (ledgers h) \<and>
     (\<forall>r \<in> set (reservations h). reservation_ok (ledgers h) r) \<and>
     (\<forall>j < length (ledgers h). ledger_ok (ledgers h) (reservations h) j)"

lemma held_Nil [simp]: "held ls [] j c = 0"
  by (simp add: held_def)

lemma held_snoc [simp]: "held ls (rs @ [r]) j c = held ls rs j c +
    (if r_active r \<and> j \<in> set (ancestors ls (r_ledger r)) then amt (r_amounts r) c else 0)"
  by (simp add: held_def)

lemma held_cong:
  assumes "\<forall>r \<in> set rs. r_ledger r < n" "\<And>j. j < n \<Longrightarrow> l_parent (ls' ! j) = l_parent (ls ! j)"
  shows "held ls' rs j c = held ls rs j c"
proof -
  have "\<forall>r \<in> set rs. ancestors ls' (r_ledger r) = ancestors ls (r_ledger r)"
    using assms by (auto intro!: ancestors_cong)
  then show ?thesis unfolding held_def by (intro arg_cong [where f = sum_list] map_cong) auto
qed

lemma held_beyond: "\<forall>r \<in> set rs. r_ledger r < j \<Longrightarrow> held ls rs j c = 0"
  unfolding held_def by (induction rs) (auto dest: ancestors_le)

lemma amt_nonneg_ok: "reservation_ok ls r \<Longrightarrow> 0 \<le> amt (r_amounts r) c"
  by (simp add: reservation_ok_def amt_nonneg)

lemma held_nonneg: "\<forall>r \<in> set rs. reservation_ok ls' r \<Longrightarrow> 0 \<le> held ls rs j c"
  unfolding held_def by (intro sum_list_nonneg) (auto intro: amt_nonneg_ok)

lemma held_deactivate:
  assumes "k < length rs" "r_active (rs ! k)"
  shows "held ls (rs[k := (rs ! k)\<lparr>r_active := False\<rparr>]) j c = held ls rs j c -
    (if j \<in> set (ancestors ls (r_ledger (rs ! k))) then amt (r_amounts (rs ! k)) c else 0)"
  using assms by (simp add: held_def map_update sum_list_update_int)

lemma reservation_deactivate [simp]:
  "reservation_ok ls (r\<lparr>r_active := False\<rparr>) = reservation_ok ls r"
  by (simp add: reservation_ok_def)

lemma held_ge_active:
  assumes "\<forall>r \<in> set rs. reservation_ok ls r" "k < length rs" "r_active (rs ! k)"
    and "j \<in> set (ancestors ls (r_ledger (rs ! k)))"
  shows "amt (r_amounts (rs ! k)) c \<le> held ls rs j c"
proof -
  have "\<forall>r \<in> set (rs[k := (rs ! k)\<lparr>r_active := False\<rparr>]). reservation_ok ls r"
    using assms(1,2) set_update_subset_insert [of rs k] by fastforce
  then have "0 \<le> held ls (rs[k := (rs ! k)\<lparr>r_active := False\<rparr>]) j c" by (rule held_nonneg)
  with assms show ?thesis by (simp add: held_deactivate)
qed

text \<open>Ledger lists that agree on everything an invariant reads except the reserved and used maps.\<close>

definition same_shape :: "ledger list \<Rightarrow> ledger list \<Rightarrow> bool" where
  "same_shape ls ls' \<longleftrightarrow> length ls' = length ls \<and>
     (\<forall>j < length ls. l_parent (ls' ! j) = l_parent (ls ! j) \<and> l_limits (ls' ! j) = l_limits (ls ! j))"

lemma same_shape_wf: "same_shape ls ls' \<Longrightarrow> wf_parents ls \<Longrightarrow> wf_parents ls'"
  by (simp add: same_shape_def wf_parents_def)

lemma same_shape_reservation: "same_shape ls ls' \<Longrightarrow> reservation_ok ls' r = reservation_ok ls r"
  by (simp add: same_shape_def reservation_ok_def)

lemma same_shape_ancestors: "same_shape ls ls' \<Longrightarrow> i < length ls \<Longrightarrow> ancestors ls' i = ancestors ls i"
  by (intro ancestors_cong) (simp add: same_shape_def)

lemma same_shape_held:
  assumes "same_shape ls ls'" "\<forall>r \<in> set rs. reservation_ok ls r"
  shows "held ls' rs j c = held ls rs j c"
  using assms by (intro held_cong [where n = "length ls"])
    (auto simp: same_shape_def reservation_ok_def)

section \<open>Each operation keeps the invariant\<close>

lemma new_ledger_inv:
  assumes inv: "budget_inv h" and parent: "case parent of None \<Rightarrow> True | Some p \<Rightarrow> p < length (ledgers h)"
    and limits: "dict_ok limits"
  shows "budget_inv (snd (new_ledger h scope limits parent))"
proof (cases "scope = [] \<or> validate_amounts False limits \<in> range Inl \<or> parent = Some (length (ledgers h))")
  case True
  with inv show ?thesis by (auto simp: new_ledger_def split: sum.splits)
next
  case False
  then obtain xs where xs: "validate_amounts False limits = Inr xs" and s: "scope \<noteq> []"
    "parent \<noteq> Some (length (ledgers h))"
    by (cases "validate_amounts False limits") auto
  define l where "l = \<lparr>l_scope = scope, l_parent = parent, l_limits = map_of xs,
    l_used = Map.empty, l_reserved = Map.empty\<rparr>"
  let ?ls = "ledgers h" and ?rs = "reservations h"
  have eq: "snd (new_ledger h scope limits parent) = h\<lparr>ledgers := ?ls @ [l]\<rparr>"
    using xs s by (simp add: new_ledger_def l_def)
  have xs_nonneg: "\<forall>(c, n) \<in> set xs. 0 \<le> n" and dict: "dict_ok xs"
    using validate_amounts_ok [OF xs limits] by auto
  have rs: "\<forall>r \<in> set ?rs. r_ledger r < length ?ls"
    using inv by (auto simp: budget_inv_def reservation_ok_def)
  have held: "held (?ls @ [l]) ?rs j c = held ?ls ?rs j c" for j c
    using rs by (rule held_cong) (simp add: nth_append)
  have "ledger_ok (?ls @ [l]) ?rs j" if "j < Suc (length ?ls)" for j
  proof (cases "j = length ?ls")
    case True
    have "0 \<le> limit" if "map_of xs c = Some limit" for c limit
      using map_of_SomeD [OF that] xs_nonneg by auto
    with True held rs parent inv show ?thesis
      by (auto simp: ledger_ok_def l_def nth_append held_beyond budget_inv_def split: option.splits)
  next
    case False
    with that have j: "j < length ?ls" by simp
    then have "ledger_ok ?ls ?rs j" "\<forall>p. l_parent (?ls ! j) = Some p \<longrightarrow> p < length ?ls"
      using inv by (auto simp: budget_inv_def wf_parents_def dest: less_trans)
    with j held show ?thesis by (auto simp: ledger_ok_def nth_append)
  qed
  moreover have "wf_parents (?ls @ [l])"
    using inv parent by (auto simp: budget_inv_def wf_parents_def nth_append l_def less_Suc_eq split: option.splits)
  moreover have "\<forall>r \<in> set ?rs. reservation_ok (?ls @ [l]) r"
    using inv by (auto simp: budget_inv_def reservation_ok_def)
  ultimately show ?thesis unfolding eq by (simp add: budget_inv_def)
qed

lemma budget_inv_chain:
  assumes "budget_inv h" "i < length (ledgers h)"
  shows "ledger_chain (ledgers h) i = Inr (rev (ancestors (ledgers h) i))"
  using assms by (simp add: budget_inv_def ledger_chain_ancestors)

lemma ancestors_bound: "i < length ls \<Longrightarrow> \<forall>j \<in> set (ancestors ls i). j < length ls"
  by (auto dest: ancestors_le)

lemma budget_reserve_error:
  "budget_reserve h i raw rid fresh = (Inl e, h') \<Longrightarrow> fresh \<noteq> [] \<Longrightarrow> h' = h"
  by (auto simp: budget_reserve_def Let_def split: sum.splits option.splits if_splits)

lemma budget_reserve_ok:
  assumes "budget_reserve h i raw rid fresh = (Inr k, h')" "budget_inv h" "i < length (ledgers h)"
  obtains xs where "validate_amounts True raw = Inr xs" "k = length (reservations h)"
    "check_capacity (ledgers h) (rev (ancestors (ledgers h) i)) xs [] = Inr ()"
    "ledgers h' = hold_all (ledgers h) (rev (ancestors (ledgers h) i)) xs"
    "reservations h' = reservations h @ [\<lparr>r_ledger = i,
       r_id = (case rid of None \<Rightarrow> fresh | Some s \<Rightarrow> if s = [] then fresh else s),
       r_amounts = xs, r_active = True\<rparr>]"
  using assms(1) budget_inv_chain [OF assms(2,3)]
  by (auto simp: budget_reserve_def Let_def split: sum.splits if_splits)

lemma hold_all_shape:
  assumes "i < length ls"
  shows "same_shape ls (hold_all ls (rev (ancestors ls i)) xs)"
  using assms by (simp add: same_shape_def nth_hold_all distinct_ancestors ancestors_bound)

lemma budget_reserve_inv:
  assumes inv: "budget_inv h" and i: "i < length (ledgers h)" and raw: "dict_ok raw"
    and res: "budget_reserve h i raw rid fresh = (Inr k, h')"
  shows "budget_inv h'"
proof -
  let ?ls = "ledgers h" and ?rs = "reservations h"
  from res inv i obtain xs name where xs: "validate_amounts True raw = Inr xs"
    and cap: "check_capacity ?ls (rev (ancestors ?ls i)) xs [] = Inr ()"
    and ls': "ledgers h' = hold_all ?ls (rev (ancestors ?ls i)) xs"
    and rs': "reservations h' = ?rs @ [\<lparr>r_ledger = i, r_id = name, r_amounts = xs, r_active = True\<rparr>]"
    by (rule budget_reserve_ok) blast
  have xs_ok: "dict_ok xs" "\<forall>(c, n) \<in> set xs. 0 \<le> n"
    using validate_amounts_ok [OF xs raw] by auto
  have shape: "same_shape ?ls (ledgers h')" unfolding ls' using i by (rule hold_all_shape)
  have rs_ok: "\<forall>r \<in> set ?rs. reservation_ok ?ls r" using inv by (simp add: budget_inv_def)
  have "ledger_ok (ledgers h') (reservations h') j" if j: "j < length ?ls" for j
  proof -
    have old: "ledger_ok ?ls ?rs j" using inv j by (simp add: budget_inv_def)
    have par: "\<forall>p. l_parent (?ls ! j) = Some p \<longrightarrow> p < length ?ls"
      using inv j by (auto simp: budget_inv_def wf_parents_def dest: less_trans)
    have nth: "ledgers h' ! k = (if k \<in> set (ancestors ?ls i)
        then (?ls ! k)\<lparr>l_reserved := add_amounts (l_reserved (?ls ! k)) xs\<rparr> else ?ls ! k)"
      if "k < length ?ls" for k
      unfolding ls' using that i by (simp add: nth_hold_all distinct_ancestors ancestors_bound)
    have held: "held (ledgers h') (reservations h') j c =
        held ?ls ?rs j c + (if j \<in> set (ancestors ?ls i) then amt xs c else 0)" for c
      using shape rs_ok i by (simp add: rs' same_shape_held same_shape_ancestors)
    have bound: "getd (l_used (?ls ! j)) c + (getd (l_reserved (?ls ! j)) c + amt xs c) \<le> limit"
      if "j \<in> set (ancestors ?ls i)" "l_limits (?ls ! j) c = Some limit" for c limit
    proof (cases "c \<in> fst ` set xs")
      case True
      then obtain n where "(c, n) \<in> set xs" by auto
      moreover from this xs_ok(1) have "amt xs c = n" by (simp add: amt_def getd_def)
      moreover have "check_ledger (?ls ! j) [] xs = Inr ()"
        using cap that(1) by (simp add: check_capacity_ok)
      ultimately show ?thesis using that(2) by (fastforce simp: check_ledger_ok)
    next
      case False
      with old that(2) show ?thesis by (simp add: ledger_ok_def amt_notin)
    qed
    show ?thesis
      using old j par nth held bound xs_ok(1) by (auto simp: ledger_ok_def)
  qed
  moreover have "\<forall>r \<in> set (reservations h'). reservation_ok (ledgers h') r"
    using rs_ok i xs_ok shape by (auto simp: rs' same_shape_reservation reservation_ok_def same_shape_def)
  ultimately show ?thesis
    using inv shape same_shape_wf [OF shape] by (simp add: budget_inv_def same_shape_def)
qed

text \<open>
  Reconciling and cancelling an active reservation of a heap that satisfies the invariant never
  reaches the \<open>RuntimeError\<close> of \<open>_subtract\<close>.
\<close>

lemma settle_ok:
  assumes inv: "budget_inv h" and k: "k < length (reservations h)" and act: "r_active (reservations h ! k)"
  defines "r \<equiv> reservations h ! k"
  defines "ids \<equiv> rev (ancestors (ledgers h) (r_ledger r))"
  obtains ls' where "settle h k ids charged = (Inr (), h\<lparr>ledgers := ls',
      reservations := (reservations h)[k := r\<lparr>r_active := False\<rparr>]\<rparr>)"
    "same_shape (ledgers h) ls'"
    "\<forall>j < length (ledgers h). \<forall>c. getd (l_reserved (ls' ! j)) c = getd (l_reserved (ledgers h ! j)) c -
       (if j \<in> set ids then amt (r_amounts r) c else 0)"
    "\<forall>j < length (ledgers h). l_used (ls' ! j) = (case charged of None \<Rightarrow> l_used (ledgers h ! j)
       | Some cs \<Rightarrow> if j \<in> set ids then add_amounts (l_used (ledgers h ! j)) cs else l_used (ledgers h ! j))"
proof -
  let ?ls = "ledgers h" and ?rs = "reservations h"
  have rs_ok: "\<forall>r \<in> set ?rs. reservation_ok ?ls r" using inv by (simp add: budget_inv_def)
  then have r: "r_ledger r < length ?ls" "dict_ok (r_amounts r)"
    using k by (auto simp: r_def reservation_ok_def)
  have enough: "\<forall>i \<in> set ids. \<forall>(c, n) \<in> set (r_amounts r). n \<le> getd (l_reserved (?ls ! i)) c"
  proof (intro ballI, clarify)
    fix i c n assume i: "i \<in> set ids" and cn: "(c, n) \<in> set (r_amounts r)"
    have "n = amt (r_amounts r) c" using r(2) cn by (simp add: amt_def getd_def)
    also have "\<dots> \<le> held ?ls ?rs i c"
      using rs_ok k act i unfolding r_def ids_def by (intro held_ge_active) auto
    also have "\<dots> = getd (l_reserved (?ls ! i)) c"
      using inv i r(1) by (auto simp: budget_inv_def ledger_ok_def ids_def dest: ancestors_le)
    finally show "n \<le> getd (l_reserved (?ls ! i)) c" .
  qed
  have "distinct ids" "\<forall>i \<in> set ids. i < length ?ls"
    using r(1) by (auto simp: ids_def distinct_ancestors dest: ancestors_le)
  from settle_all_ok [OF this r(2) enough, of charged] obtain ls' where
    "settle_all ?ls ids (r_amounts r) charged = (Inr (), ls')" "length ls' = length ?ls"
    "\<forall>j < length ?ls.
       l_scope (ls' ! j) = l_scope (?ls ! j) \<and> l_parent (ls' ! j) = l_parent (?ls ! j) \<and>
       l_limits (ls' ! j) = l_limits (?ls ! j) \<and>
       (\<forall>c. getd (l_reserved (ls' ! j)) c =
          getd (l_reserved (?ls ! j)) c - (if j \<in> set ids then amt (r_amounts r) c else 0)) \<and>
       l_used (ls' ! j) = (case charged of None \<Rightarrow> l_used (?ls ! j)
          | Some cs \<Rightarrow> if j \<in> set ids then add_amounts (l_used (?ls ! j)) cs else l_used (?ls ! j))"
    by blast
  then show ?thesis
    by (intro that [of ls']) (auto simp: settle_def r_def same_shape_def)
qed

lemma settle_inv:
  assumes inv: "budget_inv h" and k: "k < length (reservations h)" and act: "r_active (reservations h ! k)"
    and cs: "case charged of None \<Rightarrow> True | Some cs \<Rightarrow> dict_ok cs \<and> (\<forall>(c, n) \<in> set cs. 0 \<le> n) \<and>
      check_capacity (ledgers h) (rev (ancestors (ledgers h) (r_ledger (reservations h ! k)))) cs
        (r_amounts (reservations h ! k)) = Inr ()"
    and res: "settle h k (rev (ancestors (ledgers h) (r_ledger (reservations h ! k)))) charged = (q, h')"
  shows "q = Inr () \<and> budget_inv h' \<and>
    (\<exists>ls'. h' = h\<lparr>ledgers := ls', reservations :=
       (reservations h)[k := (reservations h ! k)\<lparr>r_active := False\<rparr>]\<rparr>)"
proof -
  let ?ls = "ledgers h" and ?rs = "reservations h"
  define r where "r = ?rs ! k"
  define A where "A = set (ancestors ?ls (r_ledger r))"
  let ?ids = "rev (ancestors ?ls (r_ledger (?rs ! k)))"
  obtain ls' where settled: "settle h k ?ids charged = (Inr (), h\<lparr>ledgers := ls',
      reservations := ?rs[k := (?rs ! k)\<lparr>r_active := False\<rparr>]\<rparr>)"
    and shape: "same_shape ?ls ls'"
    and reserved_ids: "\<forall>j < length ?ls. \<forall>c. getd (l_reserved (ls' ! j)) c =
       getd (l_reserved (?ls ! j)) c - (if j \<in> set ?ids then amt (r_amounts (?rs ! k)) c else 0)"
    and used_ids: "\<forall>j < length ?ls. l_used (ls' ! j) = (case charged of None \<Rightarrow> l_used (?ls ! j)
       | Some cs \<Rightarrow> if j \<in> set ?ids then add_amounts (l_used (?ls ! j)) cs else l_used (?ls ! j))"
    by (rule settle_ok [OF inv k act, of charged])
  have res': "q = Inr ()" "h' = h\<lparr>ledgers := ls', reservations := ?rs[k := r\<lparr>r_active := False\<rparr>]\<rparr>"
    using settled res by (simp_all add: r_def)
  note reserved = reserved_ids [folded r_def, unfolded set_rev, folded A_def, rule_format]
  note used = used_ids [folded r_def, unfolded set_rev, folded A_def, rule_format]
  define fin where "fin = (case charged of None \<Rightarrow> [] | Some cs \<Rightarrow> cs)"
  have fin: "dict_ok fin" "\<forall>(c, n) \<in> set fin. 0 \<le> n"
    using cs by (auto simp: fin_def split: option.splits)
  have fin_nonneg: "0 \<le> amt fin c" for c using fin(2) by (rule amt_nonneg)
  have rs_ok: "\<forall>r \<in> set ?rs. reservation_ok ?ls r" using inv by (simp add: budget_inv_def)
  have r_ok: "reservation_ok ?ls r" using rs_ok k by (simp add: r_def)
  have used': "getd (l_used (ls' ! j)) c = getd (l_used (?ls ! j)) c + (if j \<in> A then amt fin c else 0)"
    if "j < length ?ls" for j c
    using used [OF that] fin(1) by (auto simp: fin_def split: option.splits)
  have held: "held ls' (?rs[k := r\<lparr>r_active := False\<rparr>]) j c =
      held ?ls ?rs j c - (if j \<in> A then amt (r_amounts r) c else 0)" for j c
  proof -
    have "\<forall>x \<in> set (?rs[k := r\<lparr>r_active := False\<rparr>]). reservation_ok ?ls x"
      using rs_ok k set_update_subset_insert [of ?rs k] by (fastforce simp: r_def)
    with shape show ?thesis using k act by (simp add: same_shape_held held_deactivate r_def A_def)
  qed
  have bound: "getd (l_used (?ls ! j)) c + amt fin c + (getd (l_reserved (?ls ! j)) c - amt (r_amounts r) c) \<le> limit"
    if j: "j \<in> A" and lim: "l_limits (?ls ! j) c = Some limit" for j c limit
  proof (cases "c \<in> fst ` set fin")
    case True
    then obtain n where n: "(c, n) \<in> set fin" by auto
    then have "amt fin c = n" using fin(1) by (simp add: amt_def getd_def)
    moreover have "check_ledger (?ls ! j) (r_amounts r) fin = Inr ()"
      using cs j n by (auto simp: fin_def check_capacity_ok r_def A_def split: option.splits)
    ultimately show ?thesis using n lim by (fastforce simp: check_ledger_ok)
  next
    case False
    moreover have "j < length ?ls" using j r_ok by (auto simp: A_def reservation_ok_def dest: ancestors_le)
    moreover have "0 \<le> amt (r_amounts r) c" using r_ok by (rule amt_nonneg_ok)
    ultimately show ?thesis using inv lim by (auto simp: budget_inv_def ledger_ok_def amt_notin) (smt (verit))
  qed
  have "ledger_ok ls' (?rs[k := r\<lparr>r_active := False\<rparr>]) j" if j: "j < length ?ls" for j
  proof -
    have old: "ledger_ok ?ls ?rs j" using inv j by (simp add: budget_inv_def)
    have par: "p < length ?ls \<and> (j \<in> A \<longrightarrow> p \<in> A)" if "l_parent (?ls ! j) = Some p" for p
      using inv j that r_ok unfolding A_def
      by (auto simp: budget_inv_def wf_parents_def reservation_ok_def dest: less_trans intro: ancestors_closed)
    have "getd (l_used (ls' ! j)) c \<le> getd (l_used (ls' ! p)) c" if "l_parent (?ls ! j) = Some p" for c p
    proof -
      have "getd (l_used (?ls ! j)) c \<le> getd (l_used (?ls ! p)) c" using old that by (simp add: ledger_ok_def)
      with j par [OF that] used' fin_nonneg [of c] show ?thesis by auto
    qed
    moreover have "0 \<le> getd (l_used (ls' ! j)) c" for c
      using old j used' fin_nonneg [of c] by (simp add: ledger_ok_def)
    moreover have "getd (l_used (ls' ! j)) c + getd (l_reserved (ls' ! j)) c \<le> limit"
      if "l_limits (?ls ! j) c = Some limit" for c limit
      using old j used' reserved bound that by (auto simp: ledger_ok_def)
    ultimately show ?thesis
      using old j held reserved shape by (auto simp: ledger_ok_def same_shape_def)
  qed
  moreover have "\<forall>x \<in> set (?rs[k := r\<lparr>r_active := False\<rparr>]). reservation_ok ls' x"
    using rs_ok r_ok shape set_update_subset_insert [of ?rs k] by (fastforce simp: same_shape_reservation)
  ultimately show ?thesis
    using res' inv shape same_shape_wf [OF shape] by (auto simp: budget_inv_def same_shape_def r_def)
qed

lemma check_ledger_error:
  "check_ledger l replaced xs = Inl e \<Longrightarrow>
     \<exists>scope c limit total. e = budget_exceeded scope c limit total \<and> limit < total"
  by (induction l replaced xs rule: check_ledger.induct)
    (auto simp: Let_def split: option.splits if_splits)

lemma check_capacity_error:
  "check_capacity ls is xs replaced = Inl e \<Longrightarrow>
     \<exists>scope c limit total. e = budget_exceeded scope c limit total \<and> limit < total"
  by (induction ls "is" xs replaced rule: check_capacity.induct)
    (auto simp: rbind_eq_Inl dest: check_ledger_error)

text \<open>What each settling operation can return from a heap that satisfies the invariant.\<close>

lemma budget_reconcile_cases:
  assumes inv: "budget_inv h" and raw: "dict_ok actual"
  obtains
    (rejected) e where "budget_reconcile h k actual = (Inl e, h)"
      "length (reservations h) \<le> k \<or> \<not> r_active (reservations h ! k) \<or> e = ValueError
       \<or> (\<exists>scope c limit total. e = budget_exceeded scope c limit total \<and> limit < total)"
  | (settled) charged h' where "budget_reconcile h k actual = (Inr (), h')"
      "k < length (reservations h)" "r_active (reservations h ! k)"
      "validate_amounts True actual = Inr charged"
      "settle h k (rev (ancestors (ledgers h) (r_ledger (reservations h ! k)))) (Some charged) = (Inr (), h')"
      "budget_inv h'"
proof (cases "k < length (reservations h)")
  case False
  then show ?thesis by (intro rejected [of BadReference]) (auto simp: budget_reconcile_def)
next
  case True
  define r where "r = reservations h ! k"
  have "r_ledger r < length (ledgers h)"
    using inv True by (auto simp: budget_inv_def reservation_ok_def r_def)
  note chain = budget_inv_chain [OF inv this]
  show ?thesis
  proof (cases "validate_amounts True actual")
    case (Inl e)
    moreover have "e = ValueError"
      using Inl by (induction True actual rule: validate_amounts.induct)
        (auto split: if_splits pyval.splits simp: rbind_eq_Inl)
    ultimately show ?thesis using True
      by (intro rejected [of e]) (auto simp: budget_reconcile_def)
  next
    case (Inr charged)
    note valid = validate_amounts_ok [OF Inr raw]
    let ?cap = "check_capacity (ledgers h) (rev (ancestors (ledgers h) (r_ledger r))) charged (r_amounts r)"
    show ?thesis
    proof (cases "r_active r")
      case False
      with True Inr chain show ?thesis
        by (intro rejected [of RuntimeError]) (auto simp: budget_reconcile_def r_def Let_def)
    next
      case act: True
      show ?thesis
      proof (cases ?cap)
        case (Inl e)
        then have "\<exists>scope c limit total. e = budget_exceeded scope c limit total \<and> limit < total"
          by (rule check_capacity_error)
        with True Inr act chain Inl show ?thesis
          by (intro rejected [of e]) (auto simp: budget_reconcile_def r_def Let_def)
      next
        case cap: (Inr u)
        obtain q h' where s: "settle h k (rev (ancestors (ledgers h) (r_ledger r))) (Some charged) = (q, h')"
          by fastforce
        have "q = Inr () \<and> budget_inv h'"
          using settle_inv [OF inv True, of "Some charged" q h'] act cap valid s by (auto simp: r_def)
        with True Inr act chain cap s show ?thesis
          by (intro settled) (auto simp: budget_reconcile_def r_def Let_def)
      qed
    qed
  qed
qed

lemma budget_cancel_inv:
  assumes inv: "budget_inv h"
  shows "budget_inv (snd (budget_cancel h k))"
proof (cases "k < length (reservations h) \<and> r_active (reservations h ! k)")
  case True
  then have "r_ledger (reservations h ! k) < length (ledgers h)"
    using inv by (auto simp: budget_inv_def reservation_ok_def)
  note chain = budget_inv_chain [OF inv this]
  obtain q h' where s: "settle h k (rev (ancestors (ledgers h) (r_ledger (reservations h ! k)))) None = (q, h')"
    by fastforce
  then have "budget_inv h'" using settle_inv [OF inv, of k None q h'] True by simp
  with s chain True show ?thesis by (simp add: budget_cancel_def Let_def)
next
  case False
  with inv show ?thesis by (auto simp: budget_cancel_def Let_def split: sum.splits)
qed

lemma budget_reconcile_inv:
  assumes "budget_inv h" "dict_ok actual"
  shows "budget_inv (snd (budget_reconcile h k actual))"
  using assms by (cases rule: budget_reconcile_cases [OF assms, of k]) auto

lemma budget_spend_inv:
  assumes "budget_inv h" "i < length (ledgers h)" "dict_ok raw" "fresh \<noteq> []"
  shows "budget_inv (snd (budget_spend h i raw fresh))"
proof (cases "budget_reserve h i raw None fresh")
  case (Pair q h')
  with assms have "budget_inv h'"
    by (cases q) (auto dest: budget_reserve_error intro: budget_reserve_inv)
  with Pair assms(3) show ?thesis
    by (cases q) (auto simp: budget_spend_def intro: budget_reconcile_inv)
qed

section \<open>The budget as a transition system\<close>

text \<open>
  One rule per public operation, on any arguments a Python caller can pass (dictionaries have
  distinct keys and \<open>uuid4().hex\<close> is never empty). A step is taken also when the operation
  raises: its state is then the one the operation leaves behind.
\<close>

definition budget_init :: "budget_heap \<Rightarrow> bool" where
  "budget_init h \<longleftrightarrow> ledgers h = [] \<and> reservations h = []"

inductive budget_step :: "budget_heap \<Rightarrow> budget_heap \<Rightarrow> bool" where
  step_root: "dict_ok limits \<Longrightarrow> budget_step h (snd (new_ledger h scope limits None))"
| step_child: "dict_ok limits \<Longrightarrow> i < length (ledgers h) \<Longrightarrow>
    budget_step h (snd (create_child_ledger h i scope limits))"
| step_reserve: "dict_ok amounts \<Longrightarrow> i < length (ledgers h) \<Longrightarrow> fresh \<noteq> [] \<Longrightarrow>
    budget_step h (snd (budget_reserve h i amounts rid fresh))"
| step_reconcile: "dict_ok actual \<Longrightarrow> budget_step h (snd (budget_reconcile h k actual))"
| step_cancel: "budget_step h (snd (budget_cancel h k))"
| step_spend: "dict_ok amounts \<Longrightarrow> i < length (ledgers h) \<Longrightarrow> fresh \<noteq> [] \<Longrightarrow>
    budget_step h (snd (budget_spend h i amounts fresh))"

lemma budget_step_inv: "budget_step h h' \<Longrightarrow> budget_inv h \<Longrightarrow> budget_inv h'"
proof (induction rule: budget_step.induct)
  case (step_reserve amounts i h fresh rid)
  then show ?case
    by (cases "budget_reserve h i amounts rid fresh"; cases "fst (budget_reserve h i amounts rid fresh)")
      (auto dest: budget_reserve_error intro: budget_reserve_inv)
qed (auto intro!: new_ledger_inv budget_reconcile_inv budget_cancel_inv budget_spend_inv
      simp: create_child_ledger_def)

lemma budget_init_inv: "budget_init h \<Longrightarrow> budget_inv h"
  by (simp add: budget_init_def budget_inv_def wf_parents_def)

interpretation budget: step_system budget_init budget_step budget_inv
  by unfold_locales (auto intro: budget_step_inv budget_init_inv)

lemma ancestors_used:
  assumes inv: "budget_inv h" and i: "i < length (ledgers h)" and j: "j \<in> set (ancestors (ledgers h) i)"
  shows "getd (l_used (ledgers h ! i)) c \<le> getd (l_used (ledgers h ! j)) c"
  using i j
proof (induction i rule: less_induct)
  case (less i)
  show ?case
  proof (cases "l_parent (ledgers h ! i)")
    case None
    with less.prems show ?thesis by (simp add: ancestors.simps [of "ledgers h" i])
  next
    case (Some p)
    with inv less.prems(1) have p: "p < i" and wf: "wf_parents (ledgers h)"
      by (auto simp: budget_inv_def wf_parents_def)
    have up: "getd (l_used (ledgers h ! i)) c \<le> getd (l_used (ledgers h ! p)) c"
      using inv less.prems(1) Some by (auto simp: budget_inv_def ledger_ok_def)
    show ?thesis
    proof (cases "j = i")
      case False
      then have "j \<in> set (ancestors (ledgers h) p)"
        using less.prems ancestors_parent [OF wf less.prems(1) Some] by simp
      with less.IH [OF p] p less.prems(1) up show ?thesis by force
    qed simp
  qed
qed

section \<open>Properties\<close>

text \<open>
  A tenant ledger of 10 tokens with a task ledger of 6 below it, and a reservation of 4 by the
  task: the example the witnesses run on.
\<close>

definition example_tenant :: budget_heap where
  "example_tenant = snd (new_ledger \<lparr>ledgers = [], reservations = []\<rparr> ''tenant'' [(''tokens'', PyInt 10)] None)"

definition example_task :: budget_heap where
  "example_task = snd (create_child_ledger example_tenant 0 ''task'' [(''tokens'', PyInt 6)])"

definition example_reserved :: budget_heap where
  "example_reserved = snd (budget_reserve example_task 1 [(''tokens'', PyInt 4)] None ''r1'')"

lemma example_tenant_eq: "example_tenant = \<lparr>ledgers =
   [\<lparr>l_scope = ''tenant'', l_parent = None, l_limits = [''tokens'' \<mapsto> 10],
     l_used = Map.empty, l_reserved = Map.empty\<rparr>], reservations = []\<rparr>"
  by (simp add: example_tenant_def new_ledger_def)

lemma example_task_eq: "example_task = \<lparr>ledgers =
   [\<lparr>l_scope = ''tenant'', l_parent = None, l_limits = [''tokens'' \<mapsto> 10],
     l_used = Map.empty, l_reserved = Map.empty\<rparr>,
    \<lparr>l_scope = ''task'', l_parent = Some 0, l_limits = [''tokens'' \<mapsto> 6],
     l_used = Map.empty, l_reserved = Map.empty\<rparr>], reservations = []\<rparr>"
  by (simp add: example_task_def create_child_ledger_def new_ledger_def example_tenant_eq)

lemma example_reserved_eq: "example_reserved = \<lparr>ledgers =
   [\<lparr>l_scope = ''tenant'', l_parent = None, l_limits = [''tokens'' \<mapsto> 10],
     l_used = Map.empty, l_reserved = [''tokens'' \<mapsto> 4]\<rparr>,
    \<lparr>l_scope = ''task'', l_parent = Some 0, l_limits = [''tokens'' \<mapsto> 6],
     l_used = Map.empty, l_reserved = [''tokens'' \<mapsto> 4]\<rparr>],
   reservations = [\<lparr>r_ledger = 1, r_id = ''r1'', r_amounts = [(''tokens'', 4)], r_active = True\<rparr>]\<rparr>"
  by (simp add: example_reserved_def budget_reserve_def example_task_eq ledger_chain_def
      chain_walk.simps)

lemma example_reserved_reachable: "reach budget_init budget_step example_reserved"
proof -
  have "reach budget_init budget_step \<lparr>ledgers = [], reservations = []\<rparr>"
    by (rule reach_init) (simp add: budget_init_def)
  then have "reach budget_init budget_step example_tenant"
    unfolding example_tenant_def by (rule reach_step) (simp add: step_root)
  then have "reach budget_init budget_step example_task"
    unfolding example_task_def by (rule reach_step) (simp add: step_child example_tenant_eq)
  then show ?thesis
    unfolding example_reserved_def by (rule reach_step) (simp add: step_reserve example_task_eq)
qed

text \<open>
  C11. In every reachable state, on every ledger, used plus reserved never exceeds a hard limit,
  so the \<open>max(0, ..)\<close> of \<open>snapshot\<close> never hides an overdraft: the reported remaining
  budget is exactly the limit less both counters.
\<close>

theorem budget_hard_cap:
  assumes "reach budget_init budget_step h" "i < length (ledgers h)"
    and "l_limits (ledgers h ! i) c = Some limit"
  shows "getd (l_used (ledgers h ! i)) c + getd (l_reserved (ledgers h ! i)) c \<le> limit \<and>
    bs_remaining (ledger_snapshot (ledgers h ! i)) c =
      Some (limit - getd (l_used (ledgers h ! i)) c - getd (l_reserved (ledgers h ! i)) c)"
proof -
  from assms(1) have "budget_inv h" by (rule budget.reachable_inv)
  with assms(2,3) have "getd (l_used (ledgers h ! i)) c + getd (l_reserved (ledgers h ! i)) c \<le> limit"
    by (auto simp: budget_inv_def ledger_ok_def)
  with assms(3) show ?thesis by (simp add: ledger_snapshot_def Let_def)
qed

theorem budget_hard_cap_witness:
  "bs_remaining (ledger_snapshot (ledgers example_reserved ! 1)) ''tokens'' = Some 2"
  using budget_hard_cap [OF example_reserved_reachable, of 1 "''tokens''" 6]
  by (simp add: example_reserved_eq)

text \<open>
  C23. The reserved counter of a ledger is always the sum of the amounts of the active
  reservations made at it or below it: nothing is leaked and nothing is released twice.
\<close>

theorem budget_reserved_accounting:
  assumes "reach budget_init budget_step h" "i < length (ledgers h)"
  shows "getd (l_reserved (ledgers h ! i)) c =
    (\<Sum>r \<leftarrow> reservations h. if r_active r \<and> i \<in> set (ancestors (ledgers h) (r_ledger r))
       then amt (r_amounts r) c else 0)"
  using budget.reachable_inv [OF assms(1)] assms(2)
  by (simp add: budget_inv_def ledger_ok_def held_def)

theorem budget_reserved_accounting_witness:
  "getd (l_reserved (ledgers example_reserved ! 0)) ''tokens'' = 4"
  using budget_reserved_accounting [OF example_reserved_reachable, of 0 "''tokens''"]
  by (simp add: example_reserved_eq)

text \<open>
  Reconciling an active reservation of a reachable state is atomic: either it raises
  \<open>ValueError\<close> or \<open>budget_exhausted\<close> and changes nothing, or it releases the reserved
  amounts and charges the actual ones on the ledger and every ancestor, and on no other ledger.
  The \<open>RuntimeError\<close> of \<open>_subtract\<close> and of \<open>_chain\<close> is never reached.
\<close>

theorem budget_reconcile_atomic:
  assumes "reach budget_init budget_step h" "k < length (reservations h)"
    and "r_active (reservations h ! k)" "dict_ok actual"
  shows "(\<exists>e. budget_reconcile h k actual = (Inl e, h) \<and> (e = ValueError \<or>
       (\<exists>scope c limit total. e = budget_exceeded scope c limit total \<and> limit < total))) \<or>
    (\<exists>charged h'. validate_amounts True actual = Inr charged \<and>
       budget_reconcile h k actual = (Inr (), h') \<and>
       reservations h' = (reservations h)[k := (reservations h ! k)\<lparr>r_active := False\<rparr>] \<and>
       (\<forall>j < length (ledgers h). \<forall>c.
          getd (l_used (ledgers h' ! j)) c = getd (l_used (ledgers h ! j)) c +
            (if j \<in> set (ancestors (ledgers h) (r_ledger (reservations h ! k))) then amt charged c else 0) \<and>
          getd (l_reserved (ledgers h' ! j)) c = getd (l_reserved (ledgers h ! j)) c -
            (if j \<in> set (ancestors (ledgers h) (r_ledger (reservations h ! k)))
             then amt (r_amounts (reservations h ! k)) c else 0)))"
proof -
  from assms(1) have inv: "budget_inv h" by (rule budget.reachable_inv)
  show ?thesis
  proof (cases rule: budget_reconcile_cases [OF inv assms(4), of k, case_names rejected settled])
    case (rejected e)
    with assms(2,3) show ?thesis by auto
  next
    case (settled charged h')
    have dict: "dict_ok charged" using validate_amounts_ok [OF settled(4) assms(4)] by simp
    obtain ls' where "settle h k (rev (ancestors (ledgers h) (r_ledger (reservations h ! k)))) (Some charged)
        = (Inr (), h\<lparr>ledgers := ls', reservations :=
            (reservations h)[k := (reservations h ! k)\<lparr>r_active := False\<rparr>]\<rparr>)"
      and "same_shape (ledgers h) ls'"
      and ls': "\<forall>j < length (ledgers h). \<forall>c. getd (l_reserved (ls' ! j)) c = getd (l_reserved (ledgers h ! j)) c -
         (if j \<in> set (rev (ancestors (ledgers h) (r_ledger (reservations h ! k))))
          then amt (r_amounts (reservations h ! k)) c else 0)"
        "\<forall>j < length (ledgers h). l_used (ls' ! j) = (case Some charged of None \<Rightarrow> l_used (ledgers h ! j)
         | Some cs \<Rightarrow> if j \<in> set (rev (ancestors (ledgers h) (r_ledger (reservations h ! k))))
             then add_amounts (l_used (ledgers h ! j)) cs else l_used (ledgers h ! j))"
      by (rule settle_ok [OF inv assms(2,3), of "Some charged"])
    then have h': "h' = h\<lparr>ledgers := ls', reservations :=
        (reservations h)[k := (reservations h ! k)\<lparr>r_active := False\<rparr>]\<rparr>"
      using settled(5) by simp
    show ?thesis
      using settled(1,4) ls' dict by (intro disjI2 exI [of _ charged] exI [of _ h']) (simp add: h')
  qed
qed

theorem budget_reconcile_atomic_witness:
  "\<exists>h'. budget_reconcile example_reserved 0 [(''tokens'', PyInt 3)] = (Inr (), h') \<and>
     getd (l_used (ledgers h' ! 0)) ''tokens'' = 3 \<and> getd (l_reserved (ledgers h' ! 0)) ''tokens'' = 0"
proof -
  have anc: "ancestors (ledgers example_reserved) 1 = [1, 0]"
    by (simp add: example_reserved_eq ancestors.simps)
  have "\<not> (\<exists>e. budget_reconcile example_reserved 0 [(''tokens'', PyInt 3)] = (Inl e, example_reserved))"
    by (simp add: budget_reconcile_def example_reserved_eq ledger_chain_def chain_walk.simps
        settle_def Let_def)
  with budget_reconcile_atomic [OF example_reserved_reachable, of 0 "[(''tokens'', PyInt 3)]"]
  show ?thesis using anc by (auto simp: example_reserved_eq)
qed

text \<open>
  Charges reach every ancestor: the usage recorded at a ledger never exceeds the usage
  recorded at any of its ancestors, so a tenant's counter covers all of its tasks.
\<close>

theorem budget_usage_covered_by_ancestors:
  assumes "reach budget_init budget_step h" "i < length (ledgers h)" "j \<in> set (ancestors (ledgers h) i)"
  shows "getd (l_used (ledgers h ! i)) c \<le> getd (l_used (ledgers h ! j)) c"
  using ancestors_used [OF budget.reachable_inv [OF assms(1)] assms(2,3)] .

definition example_spent :: budget_heap where
  "example_spent = snd (budget_reconcile example_reserved 0 [(''tokens'', PyInt 3)])"

lemma example_spent_reachable: "reach budget_init budget_step example_spent"
  unfolding example_spent_def
  by (rule reach_step [OF example_reserved_reachable step_reconcile]) simp

theorem budget_usage_covered_by_ancestors_witness:
  "getd (l_used (ledgers example_spent ! 1)) ''tokens'' \<le> getd (l_used (ledgers example_spent ! 0)) ''tokens''"
  by (rule budget_usage_covered_by_ancestors [OF example_spent_reachable])
    (simp_all add: example_spent_def example_reserved_eq budget_reconcile_def ledger_chain_def
      chain_walk.simps settle_def Let_def ancestors.simps)

end
