(* ===== verification/Orchestration.thy ===== *)
theory Orchestration
  imports Reasoning Budget
begin

text \<open>
  Budget-aware reasoning advice, \<open>src/src/capabilityhub/orchestration.py\<close>: the orchestrator
  that joins the router to a budget ledger, in memory or on a persistent store, and the router
  that applies the advice to concrete endpoints. The ledger is read once per call, so it is an
  argument. A stored payload is kept as the dictionary it encodes.
\<close>

section \<open>Recommendations\<close>

record recommendation =
  rc_task :: string
  rc_tier :: reasoning_tier
  rc_reasons :: "string list"
  rc_estimate :: int
  rc_remaining :: "int option"
  rc_headroom :: "int option"
  rc_escalations :: int
  rc_policy :: string
  rc_stop :: bool

record orchestrator =
  or_router :: reasoning_router
  or_counter :: string
  or_estimates :: "reasoning_tier \<Rightarrow> int"
  or_last :: "(string \<times> recommendation) list"
  or_counts :: "(string \<times> int) list"
  or_store :: "reasoning_store option"

definition default_estimates :: "(tier_input \<times> pyval) list" where
  "default_estimates = [(Tier LOW, PyInt 256), (Tier MEDIUM, PyInt 1024), (Tier HIGH, PyInt 4096)]"

fun positive_int :: "pyval \<Rightarrow> int option" where
  "positive_int (PyInt n) = (if n \<le> 0 then None else Some n)"
| "positive_int _ = None"

fun collect_estimates ::
  "(tier_input \<times> pyval) list \<Rightarrow> (reasoning_tier \<rightharpoonup> int) \<Rightarrow> (reasoning_tier \<rightharpoonup> int) result" where
  "collect_estimates [] acc = Inr acc"
| "collect_estimates ((key, v) # rest) acc =
     rbind (as_tier key) (\<lambda>t. case positive_int v of
         None \<Rightarrow> Inl ValueError
       | Some n \<Rightarrow> collect_estimates rest (acc(t \<mapsto> n)))"

definition normalize_estimates :: "(tier_input \<times> pyval) list option \<Rightarrow> (reasoning_tier \<Rightarrow> int) result" where
  "normalize_estimates values =
     rbind (collect_estimates (case values of None \<Rightarrow> default_estimates | Some vs \<Rightarrow> vs) Map.empty)
       (\<lambda>m. if \<exists>t \<in> set all_tiers. m t = None then Inl ValueError else Inr (\<lambda>t. the (m t)))"

definition new_orchestrator ::
  "reasoning_router \<Rightarrow> string \<Rightarrow> (tier_input \<times> pyval) list option \<Rightarrow> reasoning_store option \<Rightarrow> orchestrator result" where
  "new_orchestrator router counter estimates db =
     (if counter = [] then Inl ValueError
      else rbind (normalize_estimates estimates)
        (\<lambda>est. if \<not> (est LOW \<le> est MEDIUM \<and> est MEDIUM \<le> est HIGH) then Inl ValueError
               else Inr \<lparr>or_router = router, or_counter = counter, or_estimates = est, or_last = [],
                 or_counts = [], or_store = db\<rparr>))"

definition opt_int :: "int option \<Rightarrow> pyval" where
  "opt_int v = (case v of None \<Rightarrow> PyNone | Some n \<Rightarrow> PyInt n)"

definition recommendation_payload :: "recommendation \<Rightarrow> (string \<times> pyval) list" where
  "recommendation_payload rc =
     [(''budget_headroom'', opt_int (rc_headroom rc)), (''budget_remaining'', opt_int (rc_remaining rc)),
      (''estimated_tokens'', PyInt (rc_estimate rc)), (''reason_codes'', PyList (map PyStr (rc_reasons rc))),
      (''should_stop'', PyBool (rc_stop rc)), (''tier'', PyStr (tier_value (rc_tier rc)))]"

definition make_recommendation ::
  "orchestrator \<Rightarrow> string \<Rightarrow> int option \<Rightarrow> reasoning_tier \<Rightarrow> string list \<Rightarrow> int \<Rightarrow> recommendation" where
  "make_recommendation o' task remaining tier reasons escalations =
     (let estimate = or_estimates o' tier in
      \<lparr>rc_task = task, rc_tier = tier, rc_reasons = reasons, rc_estimate = estimate,
       rc_remaining = remaining, rc_headroom = map_option (\<lambda>r. r - estimate) remaining,
       rc_escalations = escalations, rc_policy = rr_policy (or_router o'),
       rc_stop = (''stop'' \<in> set reasons)\<rparr>)"

text \<open>The \<open>update\<close> closure of \<open>_recommend_persisted\<close>.\<close>

definition persisted_update ::
  "orchestrator \<Rightarrow> string \<Rightarrow> int option \<Rightarrow> reasoning_tier list \<Rightarrow> reasoning_tier \<Rightarrow> string list \<Rightarrow>
   string option \<Rightarrow> (string \<times> string) option \<Rightarrow> stored_state \<Rightarrow> (stored_state \<times> recommendation) result" where
  "persisted_update o' task remaining safe_tiers baseline baseline_reasons escalation pair s =
     (let previous = (case pair of None \<Rightarrow> 0 | Some p \<Rightarrow> count_of (sr_attempts s) p);
          counts = (case pair of None \<Rightarrow> sr_attempts s
            | Some p \<Rightarrow> AList.update p (previous + 1) (sr_attempts s));
          no_progress = (pair \<noteq> None \<and> rr_max_equivalent (or_router o') \<le> previous);
          current = (case sr_tier s of None \<Rightarrow> baseline
            | Some t \<Rightarrow> if t \<in> set safe_tiers then t else baseline);
          reasons0 = filter (\<lambda>code. code \<noteq> ''cheapest_eligible'') baseline_reasons;
          (tier, used, reasons) =
            (if no_progress
             then (current, sr_escalations s, reasons0 @ [''equivalent_attempt'', ''no_progress'', ''stop''])
             else case escalation of
               Some reason \<Rightarrow>
                 if rr_max_escalations (or_router o') \<le> sr_escalations s
                 then (current, sr_escalations s, reasons0 @ [''escalation_cap_reached'', ''stop''])
                 else (case find (\<lambda>t. current < t) safe_tiers of
                     None \<Rightarrow> (current, sr_escalations s, reasons0 @ [''highest_eligible_tier'', ''stop''])
                   | Some higher \<Rightarrow> (higher, sr_escalations s + 1,
                       reasons0 @ [''escalated:'' @ reason_code reason]))
             | None \<Rightarrow> (current, sr_escalations s, reasons0 @
                 [if current = baseline then ''cheapest_eligible'' else ''retained_escalated_tier'']));
          rc = make_recommendation o' task remaining tier reasons used
      in Inr (\<lparr>sr_tier = Some tier, sr_escalations = used, sr_count = sr_count s + 1,
                sr_attempts = counts, sr_last = Some (recommendation_payload rc)\<rparr>, rc))"

definition recommend_persisted ::
  "(pyval \<Rightarrow> string) \<Rightarrow> orchestrator \<Rightarrow> reasoning_store \<Rightarrow> string \<Rightarrow> reasoning_tier list \<Rightarrow> int option \<Rightarrow>
   risk_input \<Rightarrow> tier_input \<Rightarrow> string option \<Rightarrow> pyval \<Rightarrow> pyval \<Rightarrow> recommendation result \<times> reasoning_store" where
  "recommend_persisted fr o' db task affordable remaining risk minimum escalation attempt evidence =
     (case rbind (new_router (rr_policy (or_router o')) 0 (rr_max_equivalent (or_router o')))
         (\<lambda>b. fst (router_route fr b task (Some (map Tier affordable)) risk minimum None PyNone PyNone)) of
        Inl e \<Rightarrow> (Inl e, db)
      | Inr baseline \<Rightarrow>
          (let safe_tiers = filter (\<lambda>t. rd_tier baseline \<le> t) affordable
           in store_transact db task
                (persisted_update o' task remaining safe_tiers (rd_tier baseline) (rd_reasons baseline)
                   escalation (signature_pair fr attempt evidence))))"

definition affordable_tiers :: "orchestrator \<Rightarrow> int option \<Rightarrow> reasoning_tier list \<Rightarrow> reasoning_tier list" where
  "affordable_tiers o' remaining requested =
     filter (\<lambda>t. case remaining of None \<Rightarrow> True | Some r \<Rightarrow> or_estimates o' t \<le> r) requested"

definition recommend ::
  "(pyval \<Rightarrow> string) \<Rightarrow> orchestrator \<Rightarrow> ledger \<Rightarrow> string \<Rightarrow> tier_input list option \<Rightarrow> risk_input \<Rightarrow> tier_input \<Rightarrow>
   string option \<Rightarrow> pyval \<Rightarrow> pyval \<Rightarrow> recommendation result \<times> orchestrator" where
  "recommend fr o' ledger task eligible risk minimum escalation attempt evidence =
     (let remaining = bs_remaining (ledger_snapshot ledger) (or_counter o') in
      case normalize_eligible eligible of
        Inl e \<Rightarrow> (Inl e, o')
      | Inr requested \<Rightarrow>
          (let affordable = affordable_tiers o' remaining requested
           in case or_store o' of
             Some db \<Rightarrow>
               (let (result, db') = recommend_persisted fr o' db task affordable remaining risk minimum
                      escalation attempt evidence
                in (result, o'\<lparr>or_store := Some db'\<rparr>))
           | None \<Rightarrow>
               (case router_route fr (or_router o') task (Some (map Tier affordable)) risk minimum
                   escalation attempt evidence of
                  (Inl e, rr') \<Rightarrow> (Inl e, o'\<lparr>or_router := rr'\<rparr>)
                | (Inr d, rr') \<Rightarrow>
                    (let rc = make_recommendation o' task remaining (rd_tier d) (rd_reasons d) (rd_escalations d);
                         n = (case map_of (or_counts o') task of None \<Rightarrow> 0 | Some n \<Rightarrow> n)
                     in (Inr rc, o'\<lparr>or_router := rr', or_last := AList.update task rc (or_last o'),
                          or_counts := AList.update task (n + 1) (or_counts o')\<rparr>)))))"

definition orchestrator_state :: "orchestrator \<Rightarrow> ledger \<Rightarrow> string \<Rightarrow> pyval result" where
  "orchestrator_state o' ledger task =
     (if task = [] then Inl ValueError
      else let b = ledger_snapshot ledger; c = or_counter o' in
        rbind (case or_store o' of
            None \<Rightarrow>
              (let sn = router_snapshot (or_router o') task in
               Inr (tn_tier sn, tn_escalations sn, tn_distinct sn,
                    (case map_of (or_counts o') task of None \<Rightarrow> 0 | Some n \<Rightarrow> n),
                    map_option recommendation_payload (map_of (or_last o') task)))
          | Some db \<Rightarrow> rbind (store_read db task)
              (\<lambda>s. Inr (sr_tier s, sr_escalations s, int (length (sr_attempts s)), sr_count s, sr_last s)))
          (\<lambda>(tier, escalations, distinct, n, lst).
            Inr (PyDict
              [(''budget'', PyDict
                 [(''counter'', PyStr c), (''limit'', opt_int (bs_limits b c)),
                  (''remaining'', opt_int (bs_remaining b c)),
                  (''reserved'', PyInt (getd (bs_reserved b) c)), (''scope'', PyStr (bs_scope b)),
                  (''used'', PyInt (getd (bs_used b) c))]),
               (''current_tier'', (case tier of None \<Rightarrow> PyNone | Some t \<Rightarrow> PyStr (tier_value t))),
               (''distinct_attempts'', PyInt distinct), (''escalations_used'', PyInt escalations),
               (''last_recommendation'', (case lst of None \<Rightarrow> PyNone | Some d \<Rightarrow> PyDict d)),
               (''policy_revision'', PyStr (rr_policy (or_router o'))),
               (''recommendation_count'', PyInt n), (''task_id'', PyStr task)])))"

text \<open>\<open>reset\<close>; the store refuses an empty task after the router was reset.\<close>

definition orchestrator_reset :: "orchestrator \<Rightarrow> string \<Rightarrow> unit result \<times> orchestrator" where
  "orchestrator_reset o' task =
     (let o1 = o'\<lparr>or_router := router_reset (or_router o') task\<rparr>;
          cleared = (\<lambda>x. x\<lparr>or_last := AList.delete task (or_last x),
            or_counts := AList.delete task (or_counts x)\<rparr>)
      in case or_store o' of
           None \<Rightarrow> (Inr (), cleared o1)
         | Some db \<Rightarrow>
             (case store_reset db task of
                (Inl e, _) \<Rightarrow> (Inl e, o1)
              | (Inr _, db') \<Rightarrow> (Inr (), cleared (o1\<lparr>or_store := Some db'\<rparr>))))"

section \<open>Endpoints\<close>

record reasoning_endpoint =
  ep_name :: string
  ep_tier :: reasoning_tier
  ep_cost :: "int option"
  ep_latency :: "int option"
  ep_model :: "string option"
  ep_effort :: "string option"

record reasoning_constraints =
  rk_maximum :: reasoning_tier
  rk_endpoints :: "string list option"
  rk_max_cost :: "int option"
  rk_max_latency :: "int option"

record reasoning_workload =
  rw_risk :: side_effect
  rw_dependencies :: int

record applied_decision =
  ad_task :: string
  ad_operation :: string
  ad_tier :: reasoning_tier
  ad_endpoint :: string
  ad_reasons :: "string list"
  ad_estimate :: int
  ad_remaining :: "int option"
  ad_stop :: bool

record request_policy =
  rq_endpoint :: string
  rq_model :: string
  rq_tier :: reasoning_tier
  rq_effort :: string
  rq_max_cost :: "int option"
  rq_max_latency :: "int option"
  rq_estimate :: int

record applied_router =
  ar_endpoints :: "reasoning_endpoint list"
  ar_router :: reasoning_router
  ar_failures :: "(string \<times> string \<times> string) list"
  ar_last :: "(string \<times> applied_decision) list"
  ar_outcomes :: "(string \<times> string option) list"

definition negative :: "int option \<Rightarrow> bool" where
  "negative v = (case v of None \<Rightarrow> False | Some n \<Rightarrow> n < 0)"

definition bad_label :: "string option \<Rightarrow> bool" where
  "bad_label v = (case v of None \<Rightarrow> False | Some s \<Rightarrow> s = [] \<or> 128 < length s)"

text \<open>The \<open>__post_init__\<close> checks of an endpoint, of constraints and of a workload.\<close>

definition check_endpoint :: "reasoning_endpoint \<Rightarrow> unit result" where
  "check_endpoint ep =
     (if ep_name ep = [] \<or> 128 < length (ep_name ep) \<or> negative (ep_cost ep) \<or> negative (ep_latency ep) \<or>
         bad_label (ep_model ep) \<or> bad_label (ep_effort ep)
      then Inl ValueError else Inr ())"

definition check_constraints :: "reasoning_constraints \<Rightarrow> unit result" where
  "check_constraints k =
     (if negative (rk_max_cost k) \<or> negative (rk_max_latency k) then Inl ValueError else Inr ())"

definition check_workload :: "reasoning_workload \<Rightarrow> unit result" where
  "check_workload w = (if rw_dependencies w < 0 then Inl ValueError else Inr ())"

definition new_applied_router :: "reasoning_endpoint list \<Rightarrow> reasoning_router \<Rightarrow> applied_router result" where
  "new_applied_router endpoints router =
     (if endpoints = [] \<or> \<not> distinct (map ep_name endpoints) then Inl ValueError
      else Inr \<lparr>ar_endpoints = endpoints, ar_router = router, ar_failures = [], ar_last = [],
        ar_outcomes = []\<rparr>)"

definition within_limit :: "int option \<Rightarrow> int option \<Rightarrow> bool" where
  "within_limit limit v = (case limit of None \<Rightarrow> True
     | Some m \<Rightarrow> (case v of None \<Rightarrow> False | Some n \<Rightarrow> n \<le> m))"

definition endpoint_allowed :: "reasoning_constraints \<Rightarrow> reasoning_endpoint \<Rightarrow> bool" where
  "endpoint_allowed k ep =
     (ep_tier ep \<le> rk_maximum k \<and>
      (case rk_endpoints k of None \<Rightarrow> True | Some names \<Rightarrow> ep_name ep \<in> set names) \<and>
      within_limit (rk_max_cost k) (ep_cost ep) \<and> within_limit (rk_max_latency k) (ep_latency ep))"

definition eligible_endpoints :: "applied_router \<Rightarrow> reasoning_constraints \<Rightarrow> reasoning_endpoint list result" where
  "eligible_endpoints ar k =
     (let selected = filter (endpoint_allowed k) (ar_endpoints ar) in
      if selected = [] then Inl (HubError ''no_eligible_reasoning_endpoint'' BUDGET False [])
      else Inr selected)"

definition endpoint_key :: "reasoning_endpoint \<Rightarrow> bool \<times> int \<times> bool \<times> int \<times> string" where
  "endpoint_key ep = (ep_cost ep = None, (case ep_cost ep of None \<Rightarrow> 0 | Some n \<Rightarrow> n),
     ep_latency ep = None, (case ep_latency ep of None \<Rightarrow> 0 | Some n \<Rightarrow> n), ep_name ep)"

text \<open>\<open>min(.., key=..)\<close>: the first of the least elements.\<close>

fun least_by :: "('a \<Rightarrow> 'b :: linorder) \<Rightarrow> 'a list \<Rightarrow> 'a option" where
  "least_by f [] = None"
| "least_by f (x # xs) = (case least_by f xs of None \<Rightarrow> Some x
     | Some y \<Rightarrow> if f x \<le> f y then Some x else Some y)"

text \<open>\<open>dict.fromkeys\<close>: without repetition, in order of first occurrence.\<close>

fun unique :: "'a list \<Rightarrow> 'a list" where
  "unique [] = []"
| "unique (x # xs) = x # filter (\<lambda>y. y \<noteq> x) (unique xs)"

definition applied_decide ::
  "(pyval \<Rightarrow> string) \<Rightarrow> applied_router \<Rightarrow> ledger \<Rightarrow> string \<Rightarrow> string \<Rightarrow> reasoning_workload \<Rightarrow>
   reasoning_constraints \<Rightarrow> applied_decision result \<times> applied_router" where
  "applied_decide fr ar ledger task operation w k =
     (case eligible_endpoints ar k of
        Inl e \<Rightarrow> (Inl e, ar)
      | Inr endpoints \<Rightarrow>
          (let tiers = unique (map ep_tier endpoints);
               minimum = (if 3 \<le> rw_dependencies w \<and> rw_risk w \<in> {NONE, READ} then MEDIUM else LOW);
               failure = map_of (ar_failures ar) task
           in case new_orchestrator (ar_router ar) ''reasoning_tokens'' None None of
             Inl e \<Rightarrow> (Inl e, ar)
           | Inr o' \<Rightarrow>
               (case recommend fr o' ledger task (Some (map Tier tiers)) (Risk (rw_risk w)) (Tier minimum)
                   (map_option (\<lambda>_. ''previous_typed_failure'') failure)
                   (case failure of None \<Rightarrow> PyNone | Some (op, _) \<Rightarrow> PyStr op)
                   (case failure of None \<Rightarrow> PyNone | Some (_, code) \<Rightarrow> PyStr code) of
                  (Inl e, o2) \<Rightarrow> (Inl e, ar\<lparr>ar_router := or_router o2\<rparr>)
                | (Inr rc, o2) \<Rightarrow>
                    (let ar1 = ar\<lparr>ar_router := or_router o2\<rparr> in
                     case least_by endpoint_key (filter (\<lambda>ep. ep_tier ep = rc_tier rc) endpoints) of
                       None \<Rightarrow> (Inl ValueError, ar1)
                     | Some ep \<Rightarrow>
                         (let reasons = rc_reasons rc @
                              (if 3 \<le> rw_dependencies w then [''dependency_floor:medium''] else []) @
                              [''endpoint_eligible''];
                              d = \<lparr>ad_task = task, ad_operation = operation, ad_tier = rc_tier rc,
                                ad_endpoint = ep_name ep, ad_reasons = unique reasons,
                                ad_estimate = rc_estimate rc, ad_remaining = rc_remaining rc,
                                ad_stop = rc_stop rc\<rparr>;
                              ar2 = ar1\<lparr>ar_last := AList.update task d (ar_last ar1)\<rparr>
                          in if ad_stop d then (Inl (HubError ''reasoning_no_progress'' BUDGET False []), ar2)
                             else (Inr d, ar2))))))"

definition applied_request_policy ::
  "applied_router \<Rightarrow> applied_decision \<Rightarrow> reasoning_constraints \<Rightarrow> request_policy result" where
  "applied_request_policy ar d k =
     (let mismatch = Inl (HubError ''reasoning_policy_mismatch'' POLICY False []) in
      case find (\<lambda>ep. ep_name ep = ad_endpoint d) (ar_endpoints ar) of
        None \<Rightarrow> mismatch
      | Some ep \<Rightarrow>
          (if ep_tier ep \<noteq> ad_tier d \<or> rk_maximum k < ad_tier d \<or>
              (case rk_endpoints k of None \<Rightarrow> False | Some names \<Rightarrow> ep_name ep \<notin> set names) \<or>
              \<not> within_limit (rk_max_cost k) (ep_cost ep) \<or> \<not> within_limit (rk_max_latency k) (ep_latency ep)
           then mismatch
           else Inr \<lparr>rq_endpoint = ep_name ep,
             rq_model = (case ep_model ep of None \<Rightarrow> ep_name ep | Some m \<Rightarrow> if m = [] then ep_name ep else m),
             rq_tier = ep_tier ep,
             rq_effort = (case ep_effort ep of None \<Rightarrow> tier_value (ep_tier ep)
               | Some f \<Rightarrow> if f = [] then tier_value (ep_tier ep) else f),
             rq_max_cost = rk_max_cost k, rq_max_latency = rk_max_latency k, rq_estimate = ad_estimate d\<rparr>))"

definition applied_record_result ::
  "applied_router \<Rightarrow> string \<Rightarrow> string \<Rightarrow> string option \<Rightarrow> applied_router" where
  "applied_record_result ar task operation error_code =
     ar\<lparr>ar_failures := (case error_code of
          None \<Rightarrow> AList.delete task (ar_failures ar)
        | Some code \<Rightarrow> AList.update task (operation, code) (ar_failures ar)),
        ar_outcomes := AList.update task error_code (ar_outcomes ar)\<rparr>"

definition decision_summary :: "applied_decision \<Rightarrow> (string \<times> pyval) list" where
  "decision_summary d =
     [(''budget_remaining'', opt_int (ad_remaining d)), (''endpoint'', PyStr (ad_endpoint d)),
      (''estimated_tokens'', PyInt (ad_estimate d)), (''operation'', PyStr (ad_operation d)),
      (''reason_codes'', PyList (map PyStr (ad_reasons d))), (''should_stop'', PyBool (ad_stop d)),
      (''tier'', PyStr (tier_value (ad_tier d)))]"

definition applied_state :: "applied_router \<Rightarrow> string \<Rightarrow> pyval option" where
  "applied_state ar task =
     (case map_of (ar_last ar) task of
        None \<Rightarrow> None
      | Some d \<Rightarrow>
          (let outcome = map_of (ar_outcomes ar) task in
           Some (PyDict (decision_summary d @
             [(''application'', PyDict
                [(''applied'', PyBool (outcome \<noteq> None)),
                 (''error_code'', (case outcome of Some (Some code) \<Rightarrow> PyStr code | _ \<Rightarrow> PyNone)),
                 (''outcome'', PyStr (case outcome of None \<Rightarrow> ''pending''
                    | Some None \<Rightarrow> ''success'' | Some (Some _) \<Rightarrow> ''error''))])]))))"

section \<open>Candidates\<close>

lemma as_tiers_Tier [simp]: "as_tiers (map Tier ts) = Inr ts"
  by (induction ts) simp_all

lemma normalize_shape: "normalize_eligible v = Inr ts \<Longrightarrow> \<exists>P. ts = filter P all_tiers"
  by (auto simp: normalize_eligible_def rbind_eq_Inr split: option.splits intro: exI [of _ "\<lambda>_. True"])

lemma normalize_Tier: "normalize_eligible (Some (map Tier (filter P all_tiers))) = Inr (filter P all_tiers)"
  by (simp add: normalize_eligible_def all_tiers_def)

lemma candidates_above_least:
  assumes "filter (\<lambda>t. fl \<le> t) (filter P all_tiers) = c" "c \<noteq> []"
  shows "filter (\<lambda>t. hd c \<le> t) (filter P all_tiers) = c" "\<forall>t \<in> set c. hd c \<le> t"
proof -
  have "filter (\<lambda>t. hd c \<le> t) (filter P all_tiers) = c \<and> (\<forall>t \<in> set c. hd c \<le> t)"
    using assms unfolding all_tiers_def
    by (cases "P LOW"; cases "P MEDIUM"; cases "P HIGH"; cases fl)
      (auto simp: less_eq_reasoning_tier_def)
  then show "filter (\<lambda>t. hd c \<le> t) (filter P all_tiers) = c" "\<forall>t \<in> set c. hd c \<le> t" by blast+
qed

lemma eligible_candidates_Tier:
  "eligible_candidates (Some (map Tier (filter P all_tiers))) risk minimum = Inr (c, floors) \<Longrightarrow>
   \<exists>r p. as_risk risk = Inr r \<and> as_tier minimum = Inr p \<and>
     c = filter (\<lambda>t. max (risk_floor r) p \<le> t) (filter P all_tiers) \<and> c \<noteq> [] \<and>
     floors = floor_reasons (risk_floor r) p"
  unfolding eligible_candidates_def normalize_Tier
  by (auto simp: rbind_eq_Inr Let_def split: if_splits)

lemma floor_reasons_plain: "''cheapest_eligible'' \<notin> set (floor_reasons r p)" "''stop'' \<notin> set (floor_reasons r p)"
  by (simp_all add: floor_reasons_def)

lemma filter_floors: "filter (\<lambda>code. code \<noteq> ''cheapest_eligible'') (floor_reasons r p @ [''cheapest_eligible'']) =
  floor_reasons r p"
  using floor_reasons_plain(1) [of r p] by (simp add: filter_id_conv) (metis)

section \<open>The persisted advice is the advice in memory\<close>

text \<open>What can be observed of a task's state, in memory and in the store.\<close>

type_synonym task_view = "reasoning_tier option \<times> int \<times> ((string \<times> string) \<times> int) list \<times> int \<times>
  (string \<times> pyval) list option"

definition task_of :: "reasoning_router \<Rightarrow> string \<Rightarrow> task_state" where
  "task_of rr task = (case map_of (rr_tasks rr) task of None \<Rightarrow> new_task | Some ts \<Rightarrow> ts)"

definition memory_view :: "orchestrator \<Rightarrow> string \<Rightarrow> task_view" where
  "memory_view o' task = (let ts = task_of (or_router o') task in
     (tk_tier ts, tk_escalations ts, tk_attempts ts,
      (case map_of (or_counts o') task of None \<Rightarrow> 0 | Some n \<Rightarrow> n),
      map_option recommendation_payload (map_of (or_last o') task)))"

definition stored_view :: "stored_state \<Rightarrow> task_view" where
  "stored_view s = (sr_tier s, sr_escalations s, sr_attempts s, sr_count s, sr_last s)"

definition stored_of :: "reasoning_store \<Rightarrow> string \<Rightarrow> stored_state" where
  "stored_of db task = (case map_of db task of None \<Rightarrow> new_stored | Some s \<Rightarrow> s)"

definition same_settings :: "orchestrator \<Rightarrow> orchestrator \<Rightarrow> bool" where
  "same_settings a b \<longleftrightarrow> or_counter a = or_counter b \<and> or_estimates a = or_estimates b \<and>
     rr_policy (or_router a) = rr_policy (or_router b) \<and>
     rr_max_escalations (or_router a) = rr_max_escalations (or_router b) \<and>
     rr_max_equivalent (or_router a) = rr_max_equivalent (or_router b)"

definition simulates :: "orchestrator \<Rightarrow> orchestrator \<Rightarrow> bool" where
  "simulates a b \<longleftrightarrow> same_settings a b \<and> or_store a = None \<and>
     (\<exists>db. or_store b = Some db \<and> (\<forall>task. memory_view a task = stored_view (stored_of db task)))"

definition router_ok :: "reasoning_router \<Rightarrow> bool" where
  "router_ok rr \<longleftrightarrow> rr_policy rr \<noteq> [] \<and> 0 \<le> rr_max_escalations rr \<and> 1 \<le> rr_max_equivalent rr"

lemma route_fresh:
  assumes "eligible_candidates eligible risk minimum = Inr (c, floors)" "task \<noteq> []"
  shows "fst (router_route fr \<lparr>rr_policy = p, rr_max_escalations = m, rr_max_equivalent = q, rr_tasks = []\<rparr>
      task eligible risk minimum None PyNone PyNone) =
    Inr \<lparr>rd_tier = hd c, rd_reasons = floors @ [''cheapest_eligible''], rd_escalations = 0, rd_policy_revision = p\<rparr>"
  using assms by (simp add: router_route_def route_task_def new_task_def signature_pair_def Let_def)

text \<open>The choice both make for one task, from its tier, its escalations and the repeated attempts.\<close>

definition advance_tier ::
  "int \<Rightarrow> reasoning_tier list \<Rightarrow> string option \<Rightarrow> bool \<Rightarrow> reasoning_tier \<Rightarrow> int \<Rightarrow>
   reasoning_tier \<times> int \<times> string list" where
  "advance_tier limit c escalation no_progress current used =
     (if no_progress then (current, used, [''equivalent_attempt'', ''no_progress'', ''stop''])
      else case escalation of
        Some reason \<Rightarrow>
          if limit \<le> used then (current, used, [''escalation_cap_reached'', ''stop''])
          else (case find (\<lambda>t. current < t) c of
              None \<Rightarrow> (current, used, [''highest_eligible_tier'', ''stop''])
            | Some higher \<Rightarrow> (higher, used + 1, [''escalated:'' @ reason_code reason]))
      | None \<Rightarrow> (current, used, [if current = hd c then ''cheapest_eligible'' else ''retained_escalated_tier'']))"

definition current_tier :: "reasoning_tier list \<Rightarrow> reasoning_tier option \<Rightarrow> reasoning_tier" where
  "current_tier c t = (case t of None \<Rightarrow> hd c | Some t \<Rightarrow> if t \<in> set c then t else hd c)"

definition repeats :: "((string \<times> string) \<times> int) list \<Rightarrow> (string \<times> string) option \<Rightarrow> int" where
  "repeats counts pair = (case pair of None \<Rightarrow> 0 | Some p \<Rightarrow> count_of counts p)"

definition note_attempt ::
  "((string \<times> string) \<times> int) list \<Rightarrow> (string \<times> string) option \<Rightarrow> ((string \<times> string) \<times> int) list" where
  "note_attempt counts pair = (case pair of None \<Rightarrow> counts
     | Some p \<Rightarrow> AList.update p (repeats counts pair + 1) counts)"

lemma route_task_advance:
  assumes "\<forall>t \<in> set c. hd c \<le> t"
  shows "route_task rr c floors escalation pair ts =
    (let (tier, used, reasons) = advance_tier (rr_max_escalations rr) c escalation
           (pair \<noteq> None \<and> rr_max_equivalent rr \<le> repeats (tk_attempts ts) pair)
           (current_tier c (tk_tier ts)) (tk_escalations ts)
     in (\<lparr>rd_tier = tier, rd_reasons = floors @ reasons, rd_escalations = used, rd_policy_revision = rr_policy rr\<rparr>,
         \<lparr>tk_tier = Some tier, tk_escalations = used, tk_attempts = note_attempt (tk_attempts ts) pair\<rparr>))"
proof -
  have "\<not> current_tier c (tk_tier ts) < hd c"
    using assms by (auto simp: current_tier_def not_less split: option.splits)
  then show ?thesis
    by (simp add: route_task_def advance_tier_def current_tier_def repeats_def note_attempt_def Let_def
        cong: if_cong option.case_cong)
qed

lemma persisted_update_advance:
  assumes floors: "floors = floor_reasons r p"
  shows "persisted_update b task remaining c (hd c) (floors @ [''cheapest_eligible'']) escalation pair s =
    (let (tier, used, reasons) = advance_tier (rr_max_escalations (or_router b)) c escalation
           (pair \<noteq> None \<and> rr_max_equivalent (or_router b) \<le> repeats (sr_attempts s) pair)
           (current_tier c (sr_tier s)) (sr_escalations s);
         rc = make_recommendation b task remaining tier (floors @ reasons) used
     in Inr (\<lparr>sr_tier = Some tier, sr_escalations = used, sr_count = sr_count s + 1,
          sr_attempts = note_attempt (sr_attempts s) pair, sr_last = Some (recommendation_payload rc)\<rparr>, rc))"
proof -
  have fl: "filter (\<lambda>code. code \<noteq> ''cheapest_eligible'') (floors @ [''cheapest_eligible'']) = floors"
    using filter_floors floors by simp
  show ?thesis
    unfolding persisted_update_def fl Let_def advance_tier_def
      current_tier_def [of c "sr_tier s", symmetric] repeats_def [of "sr_attempts s" pair, symmetric]
      note_attempt_def [of "sr_attempts s" pair, symmetric]
    by (cases "pair \<noteq> None \<and> rr_max_equivalent (or_router b) \<le> repeats (sr_attempts s) pair";
        cases escalation; cases "find (\<lambda>t. current_tier c (sr_tier s) < t) c"; auto)
qed

definition memory_step ::
  "orchestrator \<Rightarrow> string \<Rightarrow> recommendation \<Rightarrow> reasoning_router \<Rightarrow> orchestrator" where
  "memory_step o' task rc rr = o'\<lparr>or_router := rr, or_last := AList.update task rc (or_last o'),
     or_counts := AList.update task ((case map_of (or_counts o') task of None \<Rightarrow> 0 | Some n \<Rightarrow> n) + 1)
       (or_counts o')\<rparr>"

lemma simulates_views:
  assumes "simulates a b" "or_store b = Some db"
  shows "tk_tier (task_of (or_router a) task) = sr_tier (stored_of db task)"
    "tk_escalations (task_of (or_router a) task) = sr_escalations (stored_of db task)"
    "tk_attempts (task_of (or_router a) task) = sr_attempts (stored_of db task)"
    "(case map_of (or_counts a) task of None \<Rightarrow> 0 | Some n \<Rightarrow> n) = sr_count (stored_of db task)"
    "map_option recommendation_payload (map_of (or_last a) task) = sr_last (stored_of db task)"
  using assms by (auto simp: simulates_def memory_view_def stored_view_def Let_def)

text \<open>The heart of the simulation: one accepted recommendation, in memory and persisted.\<close>

lemma recommend_task_simulates:
  fixes escalation pair remaining
  assumes sim: "simulates a b" and db: "or_store b = Some db" and task: "task \<noteq> []"
    and c: "\<forall>t \<in> set c. hd c \<le> t" and floors: "floors = floor_reasons r p"
  defines "step \<equiv> route_task (or_router a) c floors escalation pair (task_of (or_router a) task)"
  defines "rc \<equiv> make_recommendation a task remaining (rd_tier (fst step)) (rd_reasons (fst step)) (rd_escalations (fst step))"
  defines "a' \<equiv> memory_step a task rc ((or_router a)\<lparr>rr_tasks := AList.update task (snd step) (rr_tasks (or_router a))\<rparr>)"
  shows "\<exists>db'. store_transact db task (persisted_update b task remaining c (hd c)
      (floors @ [''cheapest_eligible'']) escalation pair) = (Inr rc, db') \<and> simulates a' (b\<lparr>or_store := Some db'\<rparr>)"
proof -
  note view = simulates_views [OF sim db]
  have set: "same_settings a b" and none: "or_store a = None" using sim by (simp_all add: simulates_def)
  have rec: "make_recommendation a = make_recommendation b"
    using set by (simp add: make_recommendation_def same_settings_def fun_eq_iff Let_def)
  have eq: "rr_max_equivalent (or_router a) = rr_max_equivalent (or_router b)"
    "rr_max_escalations (or_router a) = rr_max_escalations (or_router b)"
    using set by (simp_all add: same_settings_def)
  obtain tier used reasons where adv: "advance_tier (rr_max_escalations (or_router b)) c escalation
      (pair \<noteq> None \<and> rr_max_equivalent (or_router b) \<le> repeats (sr_attempts (stored_of db task)) pair)
      (current_tier c (sr_tier (stored_of db task))) (sr_escalations (stored_of db task)) = (tier, used, reasons)"
    using prod_cases3 by blast
  let ?attempts = "note_attempt (sr_attempts (stored_of db task)) pair"
  let ?s = "\<lparr>sr_tier = Some tier, sr_escalations = used, sr_count = sr_count (stored_of db task) + 1,
      sr_attempts = ?attempts, sr_last = Some (recommendation_payload rc)\<rparr>"
  have step: "step = (\<lparr>rd_tier = tier, rd_reasons = floors @ reasons, rd_escalations = used,
      rd_policy_revision = rr_policy (or_router a)\<rparr>,
      \<lparr>tk_tier = Some tier, tk_escalations = used, tk_attempts = ?attempts\<rparr>)"
    unfolding step_def route_task_advance [OF c] view eq adv by simp
  have rc: "rc = make_recommendation b task remaining tier (floors @ reasons) used"
    by (simp add: rc_def step rec)
  have upd: "persisted_update b task remaining c (hd c) (floors @ [''cheapest_eligible'']) escalation pair
      (stored_of db task) = Inr (?s, rc)"
    unfolding persisted_update_advance [OF floors] adv by (simp add: rc Let_def)
  have tr: "store_transact db task (persisted_update b task remaining c (hd c) (floors @ [''cheapest_eligible''])
      escalation pair) = (Inr rc, AList.update task ?s db)"
    using task upd by (simp add: store_transact_def store_read_def stored_of_def)
  have "memory_view a' t = stored_view (stored_of (AList.update task ?s db) t)" for t
    using view [of t] view(4) [of task]
    by (cases "t = task")
      (auto simp: a'_def memory_step_def memory_view_def stored_view_def stored_of_def task_of_def step Let_def)
  then have "simulates a' (b\<lparr>or_store := Some (AList.update task ?s db)\<rparr>)"
    using set none by (simp add: simulates_def same_settings_def a'_def memory_step_def)
  with tr show ?thesis by blast
qed

lemma recommend_simulates:
  assumes sim: "simulates a b" and ok: "router_ok (or_router a)"
  shows "fst (recommend fr a l task eligible risk minimum escalation attempt evidence) =
      fst (recommend fr b l task eligible risk minimum escalation attempt evidence)"
    and "simulates (snd (recommend fr a l task eligible risk minimum escalation attempt evidence))
      (snd (recommend fr b l task eligible risk minimum escalation attempt evidence))"
proof -
  obtain db where db: "or_store b = Some db" and none: "or_store a = None" and set: "same_settings a b"
    using sim by (auto simp: simulates_def)
  let ?rem = "bs_remaining (ledger_snapshot l) (or_counter a)"
  have cnt: "or_counter b = or_counter a" "affordable_tiers b = affordable_tiers a"
    "rr_policy (or_router b) = rr_policy (or_router a)"
    "rr_max_equivalent (or_router b) = rr_max_equivalent (or_router a)"
  proof -
    have e: "or_estimates b = or_estimates a" using set by (simp add: same_settings_def)
    show "affordable_tiers b = affordable_tiers a" unfolding affordable_tiers_def [abs_def] e ..
  qed (use set in \<open>simp_all add: same_settings_def\<close>)
  have base: "new_router (rr_policy (or_router a)) 0 (rr_max_equivalent (or_router a)) =
      Inr \<lparr>rr_policy = rr_policy (or_router a), rr_max_escalations = 0,
        rr_max_equivalent = rr_max_equivalent (or_router a), rr_tasks = []\<rparr>"
    using ok by (simp add: new_router_def router_ok_def)
  have same: "b\<lparr>or_store := Some db\<rparr> = b" "a\<lparr>or_router := or_router a\<rparr> = a" using db by simp_all
  have "fst (recommend fr a l task eligible risk minimum escalation attempt evidence) =
      fst (recommend fr b l task eligible risk minimum escalation attempt evidence) \<and>
    simulates (snd (recommend fr a l task eligible risk minimum escalation attempt evidence))
      (snd (recommend fr b l task eligible risk minimum escalation attempt evidence))"
  proof (cases "normalize_eligible eligible")
    case (Inl e)
    with sim show ?thesis by (simp add: recommend_def)
  next
    case (Inr requested)
    let ?aff = "affordable_tiers a ?rem requested"
    obtain P where P: "?aff = filter P all_tiers"
      using normalize_shape [OF Inr] by (auto simp: affordable_tiers_def)
    show ?thesis
    proof (cases "task = []")
      case True
      with Inr sim none db base show ?thesis
        by (simp add: recommend_def recommend_persisted_def router_route_def cnt same Let_def)
    next
      case task: False
      show ?thesis
      proof (cases "eligible_candidates (Some (map Tier ?aff)) risk minimum")
        case (Inl e)
        with Inr sim none db base task show ?thesis
          by (simp add: recommend_def recommend_persisted_def router_route_def cnt same Let_def)
      next
        case elig: (Inr x)
        obtain c floors where x: "x = (c, floors)" by fastforce
        from eligible_candidates_Tier [of P risk minimum c floors] elig x P obtain r p where
          c: "c = filter (\<lambda>t. max (risk_floor r) p \<le> t) (filter P all_tiers)" "c \<noteq> []"
          and floors: "floors = floor_reasons (risk_floor r) p" by auto
        note least = candidates_above_least [OF c(1) [symmetric] c(2)]
        let ?pair = "signature_pair fr attempt evidence"
        from recommend_task_simulates [OF sim db task least(2) floors, where escalation = escalation and pair = ?pair and remaining = ?rem]
        obtain db' where tr: "store_transact db task (persisted_update b task ?rem c (hd c)
            (floors @ [''cheapest_eligible'']) escalation ?pair) =
            (Inr (make_recommendation a task ?rem
              (rd_tier (fst (route_task (or_router a) c floors escalation ?pair (task_of (or_router a) task))))
              (rd_reasons (fst (route_task (or_router a) c floors escalation ?pair (task_of (or_router a) task))))
              (rd_escalations (fst (route_task (or_router a) c floors escalation ?pair (task_of (or_router a) task))))), db')"
          and sim': "simulates (memory_step a task (make_recommendation a task ?rem
              (rd_tier (fst (route_task (or_router a) c floors escalation ?pair (task_of (or_router a) task))))
              (rd_reasons (fst (route_task (or_router a) c floors escalation ?pair (task_of (or_router a) task))))
              (rd_escalations (fst (route_task (or_router a) c floors escalation ?pair (task_of (or_router a) task)))))
             ((or_router a)\<lparr>rr_tasks := AList.update task
               (snd (route_task (or_router a) c floors escalation ?pair (task_of (or_router a) task)))
               (rr_tasks (or_router a))\<rparr>)) (b\<lparr>or_store := Some db'\<rparr>)" by blast
        have safe: "filter (\<lambda>t. hd c \<le> t) ?aff = c" using least(1) P by simp
        have fresh: "fst (router_route fr \<lparr>rr_policy = rr_policy (or_router a), rr_max_escalations = 0,
            rr_max_equivalent = rr_max_equivalent (or_router a), rr_tasks = []\<rparr> task (Some (map Tier ?aff))
            risk minimum None PyNone PyNone) = Inr \<lparr>rd_tier = hd c, rd_reasons = floors @ [''cheapest_eligible''],
              rd_escalations = 0, rd_policy_revision = rr_policy (or_router a)\<rparr>"
          using elig x task by (intro route_fresh) simp_all
        have rb: "recommend fr b l task eligible risk minimum escalation attempt evidence =
            (case store_transact db task (persisted_update b task ?rem c (hd c)
              (floors @ [''cheapest_eligible'']) escalation ?pair) of (res, db') \<Rightarrow> (res, b\<lparr>or_store := Some db'\<rparr>))"
          using Inr db base fresh safe by (simp add: recommend_def recommend_persisted_def cnt Let_def)
        show ?thesis
          unfolding rb tr
          using Inr none elig x task sim'
          by (simp add: recommend_def router_route_def memory_step_def task_of_def Let_def case_prod_beta)
      qed
    qed
  qed
  then show "fst (recommend fr a l task eligible risk minimum escalation attempt evidence) =
      fst (recommend fr b l task eligible risk minimum escalation attempt evidence)"
    "simulates (snd (recommend fr a l task eligible risk minimum escalation attempt evidence))
      (snd (recommend fr b l task eligible risk minimum escalation attempt evidence))" by blast+
qed

lemma state_simulates:
  assumes "simulates a b"
  shows "orchestrator_state a l task = orchestrator_state b l task"
proof -
  obtain db where db: "or_store b = Some db" and none: "or_store a = None" and set: "same_settings a b"
    using assms by (auto simp: simulates_def)
  note view = simulates_views [OF assms db, of task]
  show ?thesis
  proof (cases "task = []")
    case False
    with view db none set show ?thesis
      by (simp add: orchestrator_state_def router_snapshot_def task_of_def store_read_def stored_of_def
          same_settings_def Let_def)
  qed (simp add: orchestrator_state_def)
qed

end
