(* ===== verification/Advice.thy ===== *)
theory Advice
  imports Orchestration
begin

text \<open>
  What the reasoning router, its stores and the orchestrator promise: bounded escalation, the
  no-progress stop, the faithful encoding of stored state, the agreement of persisted and
  in-memory advice, and the admission of the decided endpoint.
\<close>

section \<open>The scoped encoding is faithful\<close>

lemma decode_attempts_pairs:
  "dict_ok (acc @ xs) \<Longrightarrow> \<forall>(p, n) \<in> set xs. 0 \<le> n \<Longrightarrow>
   decode_attempts (map (\<lambda>((a, e), n). PyList [PyStr a, PyStr e, PyInt n]) xs) acc = Some (acc @ xs)"
proof (induction xs arbitrary: acc)
  case (Cons x xs)
  obtain a e n where x: "x = ((a, e), n)" by (metis prod.exhaust)
  with Cons.prems have "(a, e) \<notin> fst ` set acc" "0 \<le> n" by auto
  moreover from this have "AList.update (a, e) n acc = acc @ [x]"
    by (simp add: update_fresh x)
  ultimately show ?case using Cons.IH [of "acc @ [x]"] Cons.prems by (simp add: x)
qed simp

text \<open>
  C30. The scoped encoding loses nothing: for every state whose counters and attempt counts are
  not negative and whose attempts are a dictionary (each key once), decoding what was encoded gives
  the stored state back, with the same attempt counts, once per key and in ascending key order.
\<close>

theorem scoped_roundtrip:
  assumes "dict_ok (sr_attempts s)" "\<forall>(p, n) \<in> set (sr_attempts s). 0 \<le> n"
    and "0 \<le> sr_escalations s" "0 \<le> sr_count s"
  shows "\<exists>attempts. decode_scoped (encode_scoped s) = Inr (s\<lparr>sr_attempts := attempts\<rparr>) \<and>
    map_of attempts = map_of (sr_attempts s) \<and> dict_ok attempts \<and> sorted (map fst attempts)"
proof (intro exI conjI)
  let ?a = "sort_key fst (sr_attempts s)"
  show "map_of ?a = map_of (sr_attempts s)" "dict_ok ?a" "sorted (map fst ?a)"
    using assms(1) by (simp_all add: map_of_sort_key)
  have "decode_attempts (map (\<lambda>((a, e), n). PyList [PyStr a, PyStr e, PyInt n]) ?a) [] = Some ?a"
    using decode_attempts_pairs [of "[]" ?a] assms(1,2) by simp
  moreover have "decode_tier (Some (case sr_tier s of None \<Rightarrow> PyNone | Some t \<Rightarrow> PyStr (tier_value t))) = Some (sr_tier s)"
    by (cases "sr_tier s"; cases "the (sr_tier s)") auto
  moreover have "decode_last (Some (case sr_last s of None \<Rightarrow> PyNone | Some d \<Rightarrow> PyDict d)) = Some (sr_last s)"
    by (cases "sr_last s") auto
  ultimately show "decode_scoped (encode_scoped s) = Inr (s\<lparr>sr_attempts := ?a\<rparr>)"
    using assms(3,4) by (simp add: decode_scoped_def encode_scoped_def)
qed

theorem scoped_roundtrip_witness:
  "\<exists>attempts. decode_scoped (encode_scoped \<lparr>sr_tier = Some HIGH, sr_escalations = 1, sr_count = 3,
      sr_attempts = [((''b'', ''e''), 2), ((''a'', ''e''), 1)], sr_last = None\<rparr>) =
    Inr \<lparr>sr_tier = Some HIGH, sr_escalations = 1, sr_count = 3, sr_attempts = attempts, sr_last = None\<rparr> \<and>
    map_of attempts (''b'', ''e'') = Some 2 \<and> sorted (map fst attempts)"
  using scoped_roundtrip [of "\<lparr>sr_tier = Some HIGH, sr_escalations = 1, sr_count = 3,
      sr_attempts = [((''b'', ''e''), 2), ((''a'', ''e''), 1)], sr_last = None\<rparr>"] by auto

section \<open>Endpoint admission\<close>

lemma least_by_mem: "least_by f xs = Some x \<Longrightarrow> x \<in> set xs"
  by (induction xs arbitrary: x) (auto split: option.splits if_splits)

lemma find_distinct_key: "distinct (map f xs) \<Longrightarrow> x \<in> set xs \<Longrightarrow> find (\<lambda>y. f y = f x) xs = Some x"
  by (induction xs) auto

lemma applied_decide_endpoint:
  assumes "applied_decide fr ar ledger task operation w k = (Inr d, ar')"
  shows "ar_endpoints ar' = ar_endpoints ar"
    and "\<exists>ep \<in> set (ar_endpoints ar). endpoint_allowed k ep \<and> ep_name ep = ad_endpoint d \<and> ep_tier ep = ad_tier d"
  using assms
  by (auto simp: applied_decide_def eligible_endpoints_def Let_def dest!: least_by_mem
      split: sum.splits prod.splits option.splits if_splits)

text \<open>
  C31. What \<open>decide\<close> accepts, the model-call boundary accepts: the decision passes
  \<open>request_policy\<close> under the same constraints, and the policy names the decided endpoint and tier
  and stays within every limit of the caller.
\<close>

theorem applied_decision_passes_policy:
  assumes "distinct (map ep_name (ar_endpoints ar))"
    and "applied_decide fr ar ledger task operation w k = (Inr d, ar')"
  shows "\<exists>q ep. applied_request_policy ar' d k = Inr q \<and> rq_endpoint q = ad_endpoint d \<and>
    rq_tier q = ad_tier d \<and> rq_tier q \<le> rk_maximum k \<and> rq_estimate q = ad_estimate d \<and>
    ep \<in> set (ar_endpoints ar) \<and> ep_name ep = rq_endpoint q \<and>
    within_limit (rk_max_cost k) (ep_cost ep) \<and> within_limit (rk_max_latency k) (ep_latency ep)"
proof -
  from applied_decide_endpoint [OF assms(2)] obtain ep where
    ep: "ep \<in> set (ar_endpoints ar)" "endpoint_allowed k ep" "ep_name ep = ad_endpoint d" "ep_tier ep = ad_tier d"
    and same: "ar_endpoints ar' = ar_endpoints ar" by blast
  have "find (\<lambda>e. ep_name e = ad_endpoint d) (ar_endpoints ar') = Some ep"
    using find_distinct_key [OF assms(1) ep(1)] ep(3) same by simp
  with ep show ?thesis
    by (fastforce simp: applied_request_policy_def endpoint_allowed_def not_less split: option.splits)
qed

definition example_ledger :: ledger where
  "example_ledger = \<lparr>l_scope = ''task'', l_parent = None, l_limits = [''reasoning_tokens'' \<mapsto> 2000],
     l_used = Map.empty, l_reserved = Map.empty\<rparr>"

definition example_endpoints :: "reasoning_endpoint list" where
  "example_endpoints =
     [\<lparr>ep_name = ''deep'', ep_tier = MEDIUM, ep_cost = Some 9, ep_latency = None, ep_model = None, ep_effort = None\<rparr>,
      \<lparr>ep_name = ''fast'', ep_tier = MEDIUM, ep_cost = Some 3, ep_latency = None, ep_model = None, ep_effort = None\<rparr>]"

definition example_router :: applied_router where
  "example_router = \<lparr>ar_endpoints = example_endpoints,
     ar_router = \<lparr>rr_policy = ''p'', rr_max_escalations = 2, rr_max_equivalent = 1, rr_tasks = []\<rparr>,
     ar_failures = [], ar_last = [], ar_outcomes = []\<rparr>"

definition example_constraints :: reasoning_constraints where
  "example_constraints = \<lparr>rk_maximum = HIGH, rk_endpoints = None, rk_max_cost = Some 10, rk_max_latency = None\<rparr>"

lemmas decide_simps = applied_decide_def eligible_endpoints_def example_router_def example_endpoints_def
  example_constraints_def endpoint_allowed_def within_limit_def new_orchestrator_def normalize_estimates_def
  default_estimates_def all_tiers_def recommend_def normalize_eligible_def affordable_tiers_def
  ledger_snapshot_def example_ledger_def router_route_def eligible_candidates_def floor_reasons_def
  route_task_def signature_pair_def new_task_def make_recommendation_def endpoint_key_def

lemma example_decision:
  "applied_decide fr example_router example_ledger ''t'' ''op'' \<lparr>rw_risk = READ, rw_dependencies = 3\<rparr>
     example_constraints =
   (Inr \<lparr>ad_task = ''t'', ad_operation = ''op'', ad_tier = MEDIUM, ad_endpoint = ''fast'',
      ad_reasons = [''policy_floor:medium'', ''cheapest_eligible'', ''dependency_floor:medium'', ''endpoint_eligible''],
      ad_estimate = 1024, ad_remaining = Some 2000, ad_stop = False\<rparr>,
    example_router\<lparr>ar_router := (ar_router example_router)\<lparr>rr_tasks :=
        [(''t'', \<lparr>tk_tier = Some MEDIUM, tk_escalations = 0, tk_attempts = []\<rparr>)]\<rparr>,
      ar_last := [(''t'', \<lparr>ad_task = ''t'', ad_operation = ''op'', ad_tier = MEDIUM, ad_endpoint = ''fast'',
        ad_reasons = [''policy_floor:medium'', ''cheapest_eligible'', ''dependency_floor:medium'', ''endpoint_eligible''],
        ad_estimate = 1024, ad_remaining = Some 2000, ad_stop = False\<rparr>)]\<rparr>)"
  by (simp add: decide_simps Let_def less_reasoning_tier_def)

theorem applied_decision_passes_policy_witness:
  "\<exists>ar' q. applied_request_policy ar' \<lparr>ad_task = ''t'', ad_operation = ''op'', ad_tier = MEDIUM,
      ad_endpoint = ''fast'', ad_reasons = [''policy_floor:medium'', ''cheapest_eligible'',
        ''dependency_floor:medium'', ''endpoint_eligible''],
      ad_estimate = 1024, ad_remaining = Some 2000, ad_stop = False\<rparr> example_constraints = Inr q \<and>
    rq_endpoint q = ''fast'' \<and> rq_estimate q = 1024"
  using applied_decision_passes_policy [OF _ example_decision [of "\<lambda>_. ''''"]]
  by (fastforce simp: example_router_def example_endpoints_def)

section \<open>Bounded escalation\<close>

record route_call =
  rt_task :: string
  rt_eligible :: "tier_input list option"
  rt_risk :: risk_input
  rt_minimum :: tier_input
  rt_escalation :: "string option"
  rt_attempt :: pyval
  rt_evidence :: pyval

abbreviation route :: "(pyval \<Rightarrow> string) \<Rightarrow> reasoning_router \<Rightarrow> route_call \<Rightarrow> reasoning_decision result \<times> reasoning_router" where
  "route fr rr c \<equiv> router_route fr rr (rt_task c) (rt_eligible c) (rt_risk c) (rt_minimum c)
     (rt_escalation c) (rt_attempt c) (rt_evidence c)"

fun route_run :: "(pyval \<Rightarrow> string) \<Rightarrow> reasoning_router \<Rightarrow> route_call list \<Rightarrow>
    reasoning_decision result list \<times> reasoning_router" where
  "route_run fr rr [] = ([], rr)"
| "route_run fr rr (c # cs) =
     (let (x, rr1) = route fr rr c; (xs, rr2) = route_run fr rr1 cs in (x # xs, rr2))"

inductive router_step :: "reasoning_router \<Rightarrow> reasoning_router \<Rightarrow> bool" where
  step_route: "router_step rr (snd (route fr rr c))"
| step_reset: "router_step rr (router_reset rr task)"

definition router_init :: "reasoning_router \<Rightarrow> bool" where
  "router_init rr \<longleftrightarrow> (\<exists>policy m q. new_router policy m q = Inr rr)"

definition router_inv :: "reasoning_router \<Rightarrow> bool" where
  "router_inv rr \<longleftrightarrow> router_ok rr \<and>
     (\<forall>task. 0 \<le> tk_escalations (task_of rr task) \<and> tk_escalations (task_of rr task) \<le> rr_max_escalations rr)"

lemma advance_tier_bounds:
  assumes "advance_tier m c escalation np current used = (tier, used', reasons)"
    and "current \<in> set c" "0 \<le> used" "used \<le> m"
  shows "tier \<in> set c \<and> current \<le> tier \<and> 0 \<le> used' \<and> used' \<le> m \<and> used \<le> used' \<and>
    (used' = used \<longleftrightarrow> tier = current) \<and> (np \<longrightarrow> tier = current)"
  using assms
  by (auto simp: advance_tier_def find_Some_iff split: if_splits option.splits)

lemma current_tier_mem: "c \<noteq> [] \<Longrightarrow> current_tier c t \<in> set c"
  by (auto simp: current_tier_def split: option.splits)

lemma eligible_candidates_cases:
  assumes "eligible_candidates eligible risk minimum = Inr (c, floors)"
  obtains r p ts where "as_risk risk = Inr r" "as_tier minimum = Inr p" "normalize_eligible eligible = Inr ts"
    "c = filter (\<lambda>t. max (risk_floor r) p \<le> t) ts" "c \<noteq> []" "floors = floor_reasons (risk_floor r) p"
    "\<forall>t \<in> set c. hd c \<le> t"
proof -
  from assms obtain r p ts where "as_risk risk = Inr r" "as_tier minimum = Inr p" "normalize_eligible eligible = Inr ts"
    "c = filter (\<lambda>t. max (risk_floor r) p \<le> t) ts" "c \<noteq> []" "floors = floor_reasons (risk_floor r) p"
    by (auto simp: eligible_candidates_def rbind_eq_Inr Let_def simp del: max.bounded_iff split: if_splits)
  moreover from this have "\<forall>t \<in> set c. hd c \<le> t"
    using normalize_shape [of eligible ts] candidates_above_least(2) by metis
  ultimately show ?thesis using that by blast
qed

lemma router_route_accepted:
  assumes "router_route fr rr task eligible risk minimum escalation attempt evidence = (Inr d, rr')"
  obtains c floors where "eligible_candidates eligible risk minimum = Inr (c, floors)"
    "(d, snd (route_task rr c floors escalation (signature_pair fr attempt evidence) (task_of rr task))) =
       route_task rr c floors escalation (signature_pair fr attempt evidence) (task_of rr task)"
    "rr' = rr\<lparr>rr_tasks := AList.update task
       (snd (route_task rr c floors escalation (signature_pair fr attempt evidence) (task_of rr task))) (rr_tasks rr)\<rparr>"
  using assms
  by (auto simp: router_route_def task_of_def Let_def split: sum.splits prod.splits if_splits)

lemma router_route_refused: "router_route fr rr task eligible risk minimum escalation attempt evidence = (Inl e, rr') \<Longrightarrow> rr' = rr"
  by (auto simp: router_route_def Let_def split: sum.splits prod.splits if_splits)

lemma task_of_update [simp]:
  "task_of (rr\<lparr>rr_tasks := AList.update task ts (rr_tasks rr)\<rparr>) t = (if t = task then ts else task_of rr t)"
  by (simp add: task_of_def)

lemma router_ok_update [simp]: "router_ok (rr\<lparr>rr_tasks := ts\<rparr>) = router_ok rr"
  by (simp add: router_ok_def)

lemma route_bounds:
  assumes "router_route fr rr task eligible risk minimum escalation attempt evidence = (Inr d, rr')" "router_inv rr"
  shows "router_inv rr'" "\<exists>r p ts. as_risk risk = Inr r \<and> as_tier minimum = Inr p \<and>
    normalize_eligible eligible = Inr ts \<and> rd_tier d \<in> set ts \<and> risk_floor r \<le> rd_tier d \<and> p \<le> rd_tier d"
    "rd_escalations d = tk_escalations (task_of rr' task)" "tk_tier (task_of rr' task) = Some (rd_tier d)"
proof -
  from router_route_accepted [OF assms(1)] obtain c floors where
    el: "eligible_candidates eligible risk minimum = Inr (c, floors)"
    and d: "(d, snd (route_task rr c floors escalation (signature_pair fr attempt evidence) (task_of rr task))) =
       route_task rr c floors escalation (signature_pair fr attempt evidence) (task_of rr task)"
    and rr': "rr' = rr\<lparr>rr_tasks := AList.update task
       (snd (route_task rr c floors escalation (signature_pair fr attempt evidence) (task_of rr task))) (rr_tasks rr)\<rparr>"
    by blast
  obtain r p ts where
    rp: "as_risk risk = Inr r" "as_tier minimum = Inr p" "normalize_eligible eligible = Inr ts"
    and c: "c = filter (\<lambda>t. max (risk_floor r) p \<le> t) ts" "c \<noteq> []"
    and "floors = floor_reasons (risk_floor r) p" and least: "\<forall>t \<in> set c. hd c \<le> t"
    by (rule eligible_candidates_cases [OF el])
  let ?ts = "task_of rr task"
  obtain tier used reasons where adv: "advance_tier (rr_max_escalations rr) c escalation
      (signature_pair fr attempt evidence \<noteq> None \<and>
        rr_max_equivalent rr \<le> repeats (tk_attempts ?ts) (signature_pair fr attempt evidence))
      (current_tier c (tk_tier ?ts)) (tk_escalations ?ts) = (tier, used, reasons)"
    using prod_cases3 by blast
  have eq: "d = \<lparr>rd_tier = tier, rd_reasons = floors @ reasons, rd_escalations = used, rd_policy_revision = rr_policy rr\<rparr>"
    "snd (route_task rr c floors escalation (signature_pair fr attempt evidence) ?ts) =
      \<lparr>tk_tier = Some tier, tk_escalations = used,
       tk_attempts = note_attempt (tk_attempts ?ts) (signature_pair fr attempt evidence)\<rparr>"
    using d unfolding route_task_advance [OF least] adv by simp_all
  have b: "tier \<in> set c" "0 \<le> used" "used \<le> rr_max_escalations rr"
    using advance_tier_bounds [OF adv current_tier_mem [OF c(2)]] assms(2) by (auto simp: router_inv_def)
  show "router_inv rr'" using assms(2) b unfolding rr' eq by (auto simp: router_inv_def)
  show "rd_escalations d = tk_escalations (task_of rr' task)" "tk_tier (task_of rr' task) = Some (rd_tier d)"
    unfolding rr' eq by simp_all
  show "\<exists>r p ts. as_risk risk = Inr r \<and> as_tier minimum = Inr p \<and>
      normalize_eligible eligible = Inr ts \<and> rd_tier d \<in> set ts \<and> risk_floor r \<le> rd_tier d \<and> p \<le> rd_tier d"
    using rp b(1) c(1) unfolding eq by auto
qed

lemma router_step_inv: "router_step rr rr' \<Longrightarrow> router_inv rr \<Longrightarrow> router_inv rr'"
proof (induction rule: router_step.induct)
  case (step_route rr fr c)
  then show ?case
    by (cases "route fr rr c"; cases "fst (route fr rr c)") (auto dest: route_bounds(1) router_route_refused)
next
  case (step_reset rr task)
  then show ?case by (auto simp: router_inv_def router_reset_def task_of_def new_task_def router_ok_def)
qed

lemma router_init_inv: "router_init rr \<Longrightarrow> router_inv rr"
  by (auto simp: router_init_def router_inv_def new_router_def router_ok_def task_of_def new_task_def split: if_splits)

interpretation router: step_system router_init router_step router_inv
  by unfold_locales (auto intro: router_init_inv router_step_inv)

definition example_call :: "pyval \<Rightarrow> route_call" where
  "example_call attempt = \<lparr>rt_task = ''t'', rt_eligible = Some [Tier HIGH, Tier LOW], rt_risk = Risk READ,
     rt_minimum = Tier LOW, rt_escalation = Some ''typed failure'', rt_attempt = attempt, rt_evidence = PyNone\<rparr>"

definition example_fresh :: reasoning_router where
  "example_fresh = \<lparr>rr_policy = ''p'', rr_max_escalations = 2, rr_max_equivalent = 1, rr_tasks = []\<rparr>"

lemma example_fresh_new: "new_router ''p'' 2 1 = Inr example_fresh"
  by (simp add: new_router_def example_fresh_def)

lemma route_reasons:
  assumes "route fr rr c = (Inr d, rr')"
  shows "''no_progress'' \<in> set (rd_reasons d) \<longleftrightarrow> signature_pair fr (rt_attempt c) (rt_evidence c) \<noteq> None \<and>
      rr_max_equivalent rr \<le> repeats (tk_attempts (task_of rr (rt_task c))) (signature_pair fr (rt_attempt c) (rt_evidence c))"
    and "tk_attempts (task_of rr' (rt_task c)) =
      note_attempt (tk_attempts (task_of rr (rt_task c))) (signature_pair fr (rt_attempt c) (rt_evidence c))"
    and "t \<noteq> rt_task c \<Longrightarrow> task_of rr' t = task_of rr t" "rr_max_equivalent rr' = rr_max_equivalent rr"
    and "''no_progress'' \<in> set (rd_reasons d) \<Longrightarrow> ''stop'' \<in> set (rd_reasons d) \<and>
      tk_escalations (task_of rr' (rt_task c)) = tk_escalations (task_of rr (rt_task c))"
proof -
  from router_route_accepted [OF assms] obtain cs floors where
    el: "eligible_candidates (rt_eligible c) (rt_risk c) (rt_minimum c) = Inr (cs, floors)"
    and d: "(d, snd (route_task rr cs floors (rt_escalation c) (signature_pair fr (rt_attempt c) (rt_evidence c))
        (task_of rr (rt_task c)))) =
      route_task rr cs floors (rt_escalation c) (signature_pair fr (rt_attempt c) (rt_evidence c)) (task_of rr (rt_task c))"
    and rr': "rr' = rr\<lparr>rr_tasks := AList.update (rt_task c) (snd (route_task rr cs floors (rt_escalation c)
        (signature_pair fr (rt_attempt c) (rt_evidence c)) (task_of rr (rt_task c)))) (rr_tasks rr)\<rparr>"
    by blast
  obtain r p ts where "as_risk (rt_risk c) = Inr r" "as_tier (rt_minimum c) = Inr p"
    "normalize_eligible (rt_eligible c) = Inr ts" "cs = filter (\<lambda>t. max (risk_floor r) p \<le> t) ts" "cs \<noteq> []"
    and fl: "floors = floor_reasons (risk_floor r) p" and least: "\<forall>t \<in> set cs. hd cs \<le> t"
    by (rule eligible_candidates_cases [OF el])
  let ?ts = "task_of rr (rt_task c)" and ?p = "signature_pair fr (rt_attempt c) (rt_evidence c)"
  define np where "np \<longleftrightarrow> ?p \<noteq> None \<and> rr_max_equivalent rr \<le> repeats (tk_attempts ?ts) ?p"
  obtain tier used reasons where adv: "advance_tier (rr_max_escalations rr) cs (rt_escalation c) np
      (current_tier cs (tk_tier ?ts)) (tk_escalations ?ts) = (tier, used, reasons)"
    using prod_cases3 by blast
  have eq: "d = \<lparr>rd_tier = tier, rd_reasons = floors @ reasons, rd_escalations = used, rd_policy_revision = rr_policy rr\<rparr>"
    "snd (route_task rr cs floors (rt_escalation c) ?p ?ts) =
      \<lparr>tk_tier = Some tier, tk_escalations = used, tk_attempts = note_attempt (tk_attempts ?ts) ?p\<rparr>"
    using d unfolding route_task_advance [OF least] np_def [symmetric] adv by simp_all
  have "''no_progress'' \<notin> set floors" unfolding fl by (simp add: floor_reasons_def)
  moreover have "''no_progress'' \<in> set reasons \<longleftrightarrow> np"
    "np \<longrightarrow> ''stop'' \<in> set reasons \<and> used = tk_escalations ?ts"
    using adv by (auto simp: advance_tier_def split: if_splits option.splits)
  ultimately show "''no_progress'' \<in> set (rd_reasons d) \<longleftrightarrow> ?p \<noteq> None \<and>
      rr_max_equivalent rr \<le> repeats (tk_attempts ?ts) ?p"
    "''no_progress'' \<in> set (rd_reasons d) \<Longrightarrow> ''stop'' \<in> set (rd_reasons d) \<and>
      tk_escalations (task_of rr' (rt_task c)) = tk_escalations (task_of rr (rt_task c))"
    unfolding rr' eq np_def by auto
  show "tk_attempts (task_of rr' (rt_task c)) = note_attempt (tk_attempts ?ts) ?p" "rr_max_equivalent rr' = rr_max_equivalent rr"
    unfolding rr' eq by simp_all
  show "task_of rr' t = task_of rr t" if "t \<noteq> rt_task c" using that unfolding rr' by simp
qed

definition same_attempt :: "(pyval \<Rightarrow> string) \<Rightarrow> route_call \<Rightarrow> route_call \<Rightarrow> bool" where
  "same_attempt fr a b \<longleftrightarrow> rt_task a = rt_task b \<and>
     signature_pair fr (rt_attempt a) (rt_evidence a) = signature_pair fr (rt_attempt b) (rt_evidence b)"

definition earlier_attempts ::
  "(pyval \<Rightarrow> string) \<Rightarrow> route_call \<Rightarrow> (route_call \<times> reasoning_decision result) list \<Rightarrow> nat" where
  "earlier_attempts fr c history = length (filter (\<lambda>(c', x). same_attempt fr c' c \<and> \<not> isl x) history)"

lemma count_after_route:
  assumes "route fr rr c' = (x, rr1)" "signature_pair fr (rt_attempt c) (rt_evidence c) = Some p"
  shows "rr_max_equivalent rr1 = rr_max_equivalent rr"
    and "count_of (tk_attempts (task_of rr1 (rt_task c))) p = count_of (tk_attempts (task_of rr (rt_task c))) p +
      (if same_attempt fr c' c \<and> \<not> isl x then 1 else 0)"
proof -
  have "rr_max_equivalent rr1 = rr_max_equivalent rr \<and>
    count_of (tk_attempts (task_of rr1 (rt_task c))) p = count_of (tk_attempts (task_of rr (rt_task c))) p +
      (if same_attempt fr c' c \<and> \<not> isl x then 1 else 0)"
  proof (cases x)
    case (Inl e)
    with assms(1) have "rr1 = rr" by (auto dest: router_route_refused)
    with Inl show ?thesis by simp
  next
    case (Inr d)
    note r = route_reasons [OF assms(1) [unfolded Inr]]
    show ?thesis
    proof (cases "rt_task c' = rt_task c")
      case True
      with Inr r(2,4) assms(2) show ?thesis
        by (auto simp: same_attempt_def note_attempt_def repeats_def count_of_def split: option.splits)
    next
      case False
      with Inr r(3) [of "rt_task c"] r(4) show ?thesis by (simp add: same_attempt_def)
    qed
  qed
  then show "rr_max_equivalent rr1 = rr_max_equivalent rr"
    "count_of (tk_attempts (task_of rr1 (rt_task c))) p = count_of (tk_attempts (task_of rr (rt_task c))) p +
      (if same_attempt fr c' c \<and> \<not> isl x then 1 else 0)" by blast+
qed

lemma count_after_run:
  assumes "route_run fr rr cs = (xs, rr1)" "signature_pair fr (rt_attempt c) (rt_evidence c) = Some p"
  shows "rr_max_equivalent rr1 = rr_max_equivalent rr \<and>
    count_of (tk_attempts (task_of rr1 (rt_task c))) p =
      count_of (tk_attempts (task_of rr (rt_task c))) p + int (earlier_attempts fr c (zip cs xs))"
  using assms(1)
proof (induction cs arbitrary: rr xs)
  case Nil
  then show ?case by (simp add: earlier_attempts_def)
next
  case (Cons c' cs)
  obtain x rr0 where x: "route fr rr c' = (x, rr0)" by fastforce
  obtain ys where ys: "route_run fr rr0 cs = (ys, rr1)" "xs = x # ys"
    using Cons.prems x by (auto split: prod.splits)
  show ?case
    using Cons.IH [OF ys(1)] count_after_route [OF x assms(2)] by (simp add: ys(2) earlier_attempts_def)
qed

text \<open>
  Routing never goes below a floor and escalation is bounded: in a reachable router every
  accepted decision picks an eligible tier at or above the risk floor and the policy minimum,
  and the task has used at most the allowed number of escalations, before and after.
\<close>

theorem route_respects_floors:
  assumes "reach router_init router_step rr"
    and "router_route fr rr task eligible risk minimum escalation attempt evidence = (Inr d, rr')"
  shows "(\<exists>r p ts. as_risk risk = Inr r \<and> as_tier minimum = Inr p \<and> normalize_eligible eligible = Inr ts \<and>
      rd_tier d \<in> set ts \<and> risk_floor r \<le> rd_tier d \<and> p \<le> rd_tier d) \<and>
    tk_tier (task_of rr' task) = Some (rd_tier d) \<and>
    0 \<le> rd_escalations d \<and> rd_escalations d \<le> rr_max_escalations rr'"
  using route_bounds [OF assms(2) router.reachable_inv [OF assms(1)]] by (auto simp: router_inv_def)

lemmas route_simps = router_route_def eligible_candidates_def normalize_eligible_def all_tiers_def
  floor_reasons_def route_task_def new_task_def Let_def less_reasoning_tier_def

lemma example_reason: "reason_code ''typed failure'' = ''typed_failure''"
  by code_simp

lemma example_route:
  "route fr example_fresh (example_call PyNone) =
    (Inr \<lparr>rd_tier = HIGH, rd_reasons = [''escalated:typed_failure''], rd_escalations = 1, rd_policy_revision = ''p''\<rparr>,
     example_fresh\<lparr>rr_tasks := [(''t'', \<lparr>tk_tier = Some HIGH, tk_escalations = 1, tk_attempts = []\<rparr>)]\<rparr>)"
  by (simp add: route_simps example_fresh_def example_call_def signature_pair_def example_reason)

lemma example_fresh_reachable: "reach router_init router_step example_fresh"
  by (rule reach_init, unfold router_init_def, intro exI, rule example_fresh_new)

theorem route_respects_floors_witness:
  "LOW \<le> HIGH \<and> (1 :: int) \<le> rr_max_escalations example_fresh"
  using route_respects_floors [OF example_fresh_reachable example_route [of "\<lambda>_. ''''", unfolded example_call_def route_call.simps]]
  by (simp add: example_fresh_def)

text \<open>
  The no-progress stop is exact: after any sequence of routes of a new router, an accepted
  route with an attempt signature reports \<open>no_progress\<close> if and only if at least
  \<open>max_equivalent_attempts\<close> earlier accepted routes of the task had the same attempt and evidence
  digests; then it also says \<open>stop\<close> and uses no escalation.
\<close>

theorem no_progress_exact:
  assumes "new_router policy m q = Inr rr0"
    and "route_run fr rr0 calls = (xs, rr)" and "route fr rr c = (Inr d, rr')" and "rt_attempt c \<noteq> PyNone"
  shows "(''no_progress'' \<in> set (rd_reasons d) \<longleftrightarrow> q \<le> int (earlier_attempts fr c (zip calls xs))) \<and>
    (''no_progress'' \<in> set (rd_reasons d) \<longrightarrow> ''stop'' \<in> set (rd_reasons d) \<and>
      tk_escalations (task_of rr' (rt_task c)) = tk_escalations (task_of rr (rt_task c)))"
proof -
  obtain p where p: "signature_pair fr (rt_attempt c) (rt_evidence c) = Some p"
    using assms(4) by (simp add: signature_pair_def)
  have "rr_max_equivalent rr0 = q" "count_of (tk_attempts (task_of rr0 (rt_task c))) p = 0"
    using assms(1) by (auto simp: new_router_def task_of_def new_task_def count_of_def split: if_splits)
  with count_after_run [OF assms(2) p] route_reasons(1,5) [OF assms(3)] p show ?thesis
    by (simp add: repeats_def)
qed

lemma route_accepts_again:
  assumes "route fr rr c = (Inr d, rr')"
  shows "\<exists>d' rr2. route fr rr'' c = (Inr d', rr2)"
  using router_route_accepted [OF assms] assms
  by (auto simp: router_route_def Let_def split: sum.splits prod.splits if_splits)

lemma example_accepted: "\<exists>d rr. route fr example_fresh (example_call a) = (Inr d, rr)"
  by (simp add: route_simps example_fresh_def example_call_def split: prod.splits)

theorem no_progress_exact_witness:
  "\<exists>d. ''stop'' \<in> set (rd_reasons d) \<and>
    (\<exists>rr rr'. route (\<lambda>_. '''') rr (example_call (PyStr ''a'')) = (Inr d, rr'))"
proof -
  let ?c = "example_call (PyStr ''a'')"
  obtain d1 rr where 1: "route (\<lambda>_. '''') example_fresh ?c = (Inr d1, rr)"
    using example_accepted by blast
  obtain d rr' where 2: "route (\<lambda>_. '''') rr ?c = (Inr d, rr')" using route_accepts_again [OF 1] by blast
  have run: "route_run (\<lambda>_. '''') example_fresh [?c] = ([Inr d1], rr)" using 1 by simp
  have "rt_attempt ?c \<noteq> PyNone" by (simp add: example_call_def)
  from no_progress_exact [OF example_fresh_new run 2 this] have "''stop'' \<in> set (rd_reasons d)"
    by (simp add: earlier_attempts_def same_attempt_def)
  with 2 show ?thesis by blast
qed

section \<open>Persisted and in-memory advice agree\<close>

datatype advice_call =
  Advise ledger route_call
| Reset string

fun advise :: "(pyval \<Rightarrow> string) \<Rightarrow> orchestrator \<Rightarrow> advice_call \<Rightarrow> recommendation result option \<times> orchestrator" where
  "advise fr o' (Advise l c) =
     (let (x, o2) = recommend fr o' l (rt_task c) (rt_eligible c) (rt_risk c) (rt_minimum c) (rt_escalation c)
        (rt_attempt c) (rt_evidence c) in (Some x, o2))"
| "advise fr o' (Reset task) = (None, snd (orchestrator_reset o' task))"

fun advise_all :: "(pyval \<Rightarrow> string) \<Rightarrow> orchestrator \<Rightarrow> advice_call list \<Rightarrow> recommendation result option list \<times> orchestrator" where
  "advise_all fr o' [] = ([], o')"
| "advise_all fr o' (c # cs) =
     (let (x, o1) = advise fr o' c; (xs, o2) = advise_all fr o1 cs in (x # xs, o2))"

lemma reset_simulates:
  assumes "simulates a b" "task \<noteq> []"
  shows "simulates (snd (orchestrator_reset a task)) (snd (orchestrator_reset b task))"
proof -
  obtain db where db: "or_store b = Some db" and none: "or_store a = None"
    using assms(1) by (auto simp: simulates_def)
  note view = simulates_views [OF assms(1) db]
  have "memory_view (snd (orchestrator_reset a task)) t = stored_view (stored_of (AList.delete task db) t)" for t
    using view [of t] none
    by (cases "t = task") (auto simp: orchestrator_reset_def memory_view_def stored_view_def stored_of_def
        task_of_def router_reset_def new_task_def new_stored_def map_of_dict_delete Let_def)
  moreover have "or_store (snd (orchestrator_reset b task)) = Some (AList.delete task db)"
    "or_store (snd (orchestrator_reset a task)) = None"
    "same_settings (snd (orchestrator_reset a task)) (snd (orchestrator_reset b task)) = same_settings a b"
    using db none assms(2)
    by (simp_all add: orchestrator_reset_def store_reset_def router_reset_def same_settings_def Let_def)
  ultimately show ?thesis using assms(1) by (simp add: simulates_def)
qed

lemma persisted_settings: "or_store b = Some db \<Longrightarrow>
  same_settings b (snd (recommend fr b l task eligible risk minimum escalation attempt evidence)) \<and>
  same_settings b (snd (orchestrator_reset b t))"
  by (auto simp: recommend_def orchestrator_reset_def router_reset_def same_settings_def Let_def
      split: sum.splits prod.splits)

lemma same_settings_ok: "same_settings a b \<Longrightarrow> router_ok (or_router a) = router_ok (or_router b)"
  by (simp add: same_settings_def router_ok_def)

lemma advise_simulates:
  assumes "simulates a b" "router_ok (or_router a)" "c \<noteq> Reset []"
  shows "fst (advise fr a c) = fst (advise fr b c)" "simulates (snd (advise fr a c)) (snd (advise fr b c))"
    "router_ok (or_router (snd (advise fr a c)))"
proof -
  have s: "fst (advise fr a c) = fst (advise fr b c) \<and> simulates (snd (advise fr a c)) (snd (advise fr b c))"
    using assms recommend_simulates [OF assms(1,2)] reset_simulates [OF assms(1)]
    by (cases c) (simp_all add: case_prod_beta)
  have "same_settings b (snd (advise fr b c))"
    using assms(1) persisted_settings by (cases c) (fastforce simp: simulates_def case_prod_beta)+
  moreover have "same_settings a b" "same_settings (snd (advise fr a c)) (snd (advise fr b c))"
    using assms(1) s by (simp_all add: simulates_def)
  ultimately show "router_ok (or_router (snd (advise fr a c)))"
    using assms(2) same_settings_ok by metis
  from s show "fst (advise fr a c) = fst (advise fr b c)" "simulates (snd (advise fr a c)) (snd (advise fr b c))"
    by blast+
qed

lemma advise_all_simulates:
  "simulates a b \<Longrightarrow> router_ok (or_router a) \<Longrightarrow> Reset [] \<notin> set cs \<Longrightarrow>
   fst (advise_all fr a cs) = fst (advise_all fr b cs) \<and>
   simulates (snd (advise_all fr a cs)) (snd (advise_all fr b cs))"
proof (induction cs arbitrary: a b)
  case (Cons c cs)
  then have "c \<noteq> Reset []" by auto
  note step = advise_simulates [OF Cons.prems(1,2) this, of fr]
  have "Reset [] \<notin> set cs" using Cons.prems(3) by simp
  from Cons.IH [OF step(2,3) this] step(1) show ?case by (simp add: case_prod_beta)
qed simp

text \<open>
  C32. Persistence changes nothing that can be observed: an orchestrator on an empty store and one
  in memory, built from the same new router, counter name and estimates, give the same answers to any
  sequence of recommendations and resets in which the empty task is never reset, and then report
  the same state of every task. (A reset of the empty task is refused by the store and accepted in
  memory, so sequences with one are excluded.)
\<close>

theorem persisted_advice_equivalent:
  assumes "new_router policy m q = Inr rr"
    and "new_orchestrator rr counter estimates None = Inr a"
    and "new_orchestrator rr counter estimates (Some []) = Inr b" and "Reset [] \<notin> set calls"
  shows "fst (advise_all fr a calls) = fst (advise_all fr b calls) \<and>
    orchestrator_state (snd (advise_all fr a calls)) l task =
      orchestrator_state (snd (advise_all fr b calls)) l task"
proof -
  have "or_router a = rr" using assms(2) by (auto simp: new_orchestrator_def rbind_eq_Inr split: if_splits)
  moreover have "router_ok rr" using assms(1) by (auto simp: new_router_def router_ok_def split: if_splits)
  ultimately have "router_ok (or_router a)" by simp
  moreover have "rr_tasks rr = []" using assms(1) by (auto simp: new_router_def split: if_splits)
  then have "simulates a b"
    using assms(2,3)
    by (auto simp: new_orchestrator_def rbind_eq_Inr simulates_def same_settings_def memory_view_def
        stored_view_def stored_of_def new_stored_def task_of_def new_task_def Let_def split: if_splits)
  ultimately have "fst (advise_all fr a calls) = fst (advise_all fr b calls)"
    "simulates (snd (advise_all fr a calls)) (snd (advise_all fr b calls))"
    using advise_all_simulates assms(4) by blast+
  with state_simulates show ?thesis by blast
qed

definition example_orchestrator :: "reasoning_store option \<Rightarrow> orchestrator" where
  "example_orchestrator db = \<lparr>or_router = example_fresh, or_counter = ''reasoning_tokens'',
     or_estimates = (\<lambda>t. the (([LOW \<mapsto> 256, MEDIUM \<mapsto> 1024, HIGH \<mapsto> 4096]) t)), or_last = [], or_counts = [],
     or_store = db\<rparr>"

lemma example_orchestrator_new:
  "new_orchestrator example_fresh ''reasoning_tokens'' None db = Inr (example_orchestrator db)"
  by (simp add: new_orchestrator_def normalize_estimates_def default_estimates_def all_tiers_def
      example_orchestrator_def)

theorem persisted_advice_equivalent_witness:
  "fst (advise_all (\<lambda>_. '''') (example_orchestrator None)
     [Advise example_ledger (example_call (PyStr ''a'')), Reset ''t'', Advise example_ledger (example_call PyNone)]) =
   fst (advise_all (\<lambda>_. '''') (example_orchestrator (Some []))
     [Advise example_ledger (example_call (PyStr ''a'')), Reset ''t'', Advise example_ledger (example_call PyNone)])"
  using persisted_advice_equivalent [OF example_fresh_new example_orchestrator_new example_orchestrator_new,
      of "[Advise example_ledger (example_call (PyStr ''a'')), Reset ''t'',
        Advise example_ledger (example_call PyNone)]"] by simp

section \<open>Advice and the ledger\<close>

lemma persisted_update_tier:
  assumes "persisted_update o' task remaining safe baseline reasons escalation pair s = Inr (s', rc)" "baseline \<in> set safe"
  shows "rc_tier rc \<in> set safe \<and> rc_estimate rc = or_estimates o' (rc_tier rc)"
  using assms
  by (auto simp: persisted_update_def make_recommendation_def find_Some_iff Let_def
      split: if_splits option.splits)

lemma router_route_tier:
  assumes "router_route fr rr task (Some (map Tier ts)) risk minimum escalation attempt evidence = (Inr d, rr')"
  shows "rd_tier d \<in> set ts"
proof -
  from router_route_accepted [OF assms] obtain c floors where
    el: "eligible_candidates (Some (map Tier ts)) risk minimum = Inr (c, floors)"
    and d: "(d, snd (route_task rr c floors escalation (signature_pair fr attempt evidence) (task_of rr task))) =
       route_task rr c floors escalation (signature_pair fr attempt evidence) (task_of rr task)" by blast
  obtain r p ts' where "as_risk risk = Inr r" "as_tier minimum = Inr p"
    and ts': "normalize_eligible (Some (map Tier ts)) = Inr ts'" "c = filter (\<lambda>t. max (risk_floor r) p \<le> t) ts'"
    and c: "c \<noteq> []" and "floors = floor_reasons (risk_floor r) p" and least: "\<forall>t \<in> set c. hd c \<le> t"
    by (rule eligible_candidates_cases [OF el])
  have "rd_tier d \<in> set c"
    using d [symmetric] c current_tier_mem [OF c] unfolding route_task_advance [OF least]
    by (auto simp: advance_tier_def find_Some_iff Let_def split: if_splits option.splits prod.splits)
  with ts' show ?thesis by (auto simp: normalize_eligible_def rbind_eq_Inr)
qed

lemma recommend_fits:
  assumes "recommend fr o' l task eligible risk minimum escalation attempt evidence = (Inr rc, o2)"
  shows "rc_estimate rc = or_estimates o' (rc_tier rc)"
    and "bs_remaining (ledger_snapshot l) (or_counter o') = Some r \<Longrightarrow> rc_estimate rc \<le> r"
proof -
  obtain requested where req: "normalize_eligible eligible = Inr requested"
    using assms(1) by (auto simp: recommend_def Let_def split: sum.splits)
  let ?rem = "bs_remaining (ledger_snapshot l) (or_counter o')"
  let ?aff = "affordable_tiers o' ?rem requested"
  have aff: "t \<in> set ?aff \<Longrightarrow> ?rem = Some r \<Longrightarrow> or_estimates o' t \<le> r" for t r
    by (auto simp: affordable_tiers_def)
  have fits: "rc_tier rc \<in> set ?aff \<and> rc_estimate rc = or_estimates o' (rc_tier rc)"
  proof (cases "or_store o'")
    case None
    obtain d rr' where d: "router_route fr (or_router o') task (Some (map Tier ?aff)) risk minimum
        escalation attempt evidence = (Inr d, rr')"
      and rc: "rc = make_recommendation o' task ?rem (rd_tier d) (rd_reasons d) (rd_escalations d)"
      using assms req None by (auto simp: recommend_def Let_def split: sum.splits prod.splits)
    from router_route_tier [OF d] show ?thesis by (simp add: rc make_recommendation_def Let_def)
  next
    case (Some db)
    obtain db' where db': "recommend_persisted fr o' db task ?aff ?rem risk minimum escalation attempt evidence =
        (Inr rc, db')"
      using assms req Some by (auto simp: recommend_def Let_def split: sum.splits prod.splits)
    then obtain base baseline where base: "fst (router_route fr base task (Some (map Tier ?aff)) risk minimum None PyNone PyNone) =
        Inr baseline" and tr: "store_transact db task (persisted_update o' task ?rem
          (filter (\<lambda>t. rd_tier baseline \<le> t) ?aff) (rd_tier baseline) (rd_reasons baseline) escalation
          (signature_pair fr attempt evidence)) = (Inr rc, db')"
      by (auto simp: recommend_persisted_def Let_def rbind_eq_Inr split: sum.splits)
    from base have b: "rd_tier baseline \<in> set ?aff"
      by (cases "router_route fr base task (Some (map Tier ?aff)) risk minimum None PyNone PyNone")
        (auto dest: router_route_tier)
    from tr obtain s s' where "persisted_update o' task ?rem (filter (\<lambda>t. rd_tier baseline \<le> t) ?aff)
        (rd_tier baseline) (rd_reasons baseline) escalation (signature_pair fr attempt evidence) s = Inr (s', rc)"
      by (auto simp: store_transact_def split: sum.splits)
    from persisted_update_tier [OF this] b show ?thesis by simp
  qed
  then show "rc_estimate rc = or_estimates o' (rc_tier rc)" ..
  show "rc_estimate rc \<le> r" if "?rem = Some r" using aff [OF _ that] fits by auto
qed

text \<open>
  C33. Advice on a root ledger can be followed: in every reachable state of the budget, the estimate
  of a recommendation made from the ledger of a root scope can be reserved on it.
\<close>

theorem root_advice_reservable:
  assumes "reach budget_init budget_step h" and "i < length (ledgers h)" and "l_parent (ledgers h ! i) = None"
    and "\<forall>t. 0 < or_estimates o' t" and "or_counter o' \<noteq> []" and "fresh \<noteq> []"
    and "recommend fr o' (ledgers h ! i) task eligible risk minimum escalation attempt evidence = (Inr rc, o2)"
  shows "\<exists>k h'. budget_reserve h i [(or_counter o', PyInt (rc_estimate rc))] None fresh = (Inr k, h')"
proof -
  note inv = budget.reachable_inv [OF assms(1)]
  let ?l = "ledgers h ! i" and ?c = "or_counter o'"
  have chain: "ledger_chain (ledgers h) i = Inr [i]"
    using budget_inv_chain [OF inv assms(2)] assms(3) by (simp add: ancestors.simps [of "ledgers h" i])

  have pos: "0 < rc_estimate rc"
    using recommend_fits(1) [OF assms(7)] assms(4) by simp
  have "check_ledger ?l [] [(?c, rc_estimate rc)] = Inr ()"
  proof (cases "l_limits ?l ?c")
    case (Some limit)
    then have "bs_remaining (ledger_snapshot ?l) ?c = Some (max 0 (limit - getd (l_used ?l) ?c - getd (l_reserved ?l) ?c))"
      by (simp add: ledger_snapshot_def Let_def)
    from recommend_fits(2) [OF assms(7) this] pos Some show ?thesis by (simp add: Let_def)
  qed simp
  moreover have "validate_amounts True [(?c, PyInt (rc_estimate rc))] = Inr [(?c, rc_estimate rc)]"
    using assms(5) pos by simp
  ultimately show ?thesis using chain assms(6) by (simp add: budget_reserve_def Let_def)
qed

definition example_root :: budget_heap where
  "example_root = snd (new_ledger \<lparr>ledgers = [], reservations = []\<rparr> ''tenant'' [(''reasoning_tokens'', PyInt 1500)] None)"

lemma example_root_eq: "example_root = \<lparr>ledgers = [\<lparr>l_scope = ''tenant'', l_parent = None,
    l_limits = [''reasoning_tokens'' \<mapsto> 1500], l_used = Map.empty, l_reserved = Map.empty\<rparr>], reservations = []\<rparr>"
  by (simp add: example_root_def new_ledger_def)

lemma example_root_reachable: "reach budget_init budget_step example_root"
proof -
  have "reach budget_init budget_step \<lparr>ledgers = [], reservations = []\<rparr>"
    by (rule reach_init) (simp add: budget_init_def)
  then show ?thesis
    unfolding example_root_def by (rule reach_step) (simp add: step_root)
qed

definition medium_advice :: "int \<Rightarrow> recommendation" where
  "medium_advice remaining = \<lparr>rc_task = ''t'', rc_tier = MEDIUM,
    rc_reasons = [''risk_floor:medium'', ''cheapest_eligible''], rc_estimate = 1024, rc_remaining = Some remaining,
    rc_headroom = Some (remaining - 1024), rc_escalations = 0, rc_policy = ''p'', rc_stop = False\<rparr>"

lemma medium_advice_given:
  assumes "bs_remaining (ledger_snapshot l) ''reasoning_tokens'' = Some r" "1024 \<le> r"
  shows "\<exists>o2. recommend fr (example_orchestrator None) l ''t'' None (Risk REVERSIBLE_WRITE) (Tier LOW)
    None PyNone PyNone = (Inr (medium_advice r), o2)"
  using assms
  by (cases "4096 \<le> r") (simp_all add: recommend_def example_orchestrator_def example_fresh_def medium_advice_def
      affordable_tiers_def route_simps signature_pair_def make_recommendation_def less_eq_reasoning_tier_def)

theorem root_advice_reservable_witness:
  "\<exists>k h'. budget_reserve example_root 0 [(''reasoning_tokens'', PyInt 1024)] None ''r'' = (Inr k, h')"
proof -
  have "bs_remaining (ledger_snapshot (ledgers example_root ! 0)) ''reasoning_tokens'' = Some 1500"
    by (simp add: example_root_eq ledger_snapshot_def)
  then obtain o2 where rec: "recommend (\<lambda>_. '''') (example_orchestrator None) (ledgers example_root ! 0) ''t'' None
      (Risk REVERSIBLE_WRITE) (Tier LOW) None PyNone PyNone = (Inr (medium_advice 1500), o2)"
    using medium_advice_given by fastforce
  have pos: "\<forall>t. 0 < or_estimates (example_orchestrator None) t"
    by (auto simp: example_orchestrator_def) (metis reasoning_tier.exhaust)
  from root_advice_reservable [OF example_root_reachable _ _ pos _ _ rec, of "''r''"] show ?thesis
    by (simp add: example_root_eq example_orchestrator_def medium_advice_def)
qed

text \<open>
  Advice looks at one ledger only: there is a reachable budget with a task ledger whose own
  headroom fits the recommended estimate while an ancestor's does not, so that reserving what was
  recommended, with nothing done in between, raises \<open>budget_exhausted\<close>.
\<close>

theorem advice_ignores_ancestors:
  "\<exists>h o2 o3 rc. reach budget_init budget_step h \<and>
    new_orchestrator example_fresh ''reasoning_tokens'' None None = Inr o2 \<and>
    recommend fr o2 (ledgers h ! 1) ''t'' None (Risk REVERSIBLE_WRITE) (Tier LOW) None PyNone PyNone = (Inr rc, o3) \<and>
    budget_reserve h 1 [(''reasoning_tokens'', PyInt (rc_estimate rc))] None ''r'' =
      (Inl (budget_exceeded ''tenant'' ''reasoning_tokens'' 1000 1024), h)"
proof -
  define h0 where "h0 = snd (new_ledger \<lparr>ledgers = [], reservations = []\<rparr> ''tenant'' [(''reasoning_tokens'', PyInt 1000)] None)"
  define h where "h = snd (create_child_ledger h0 0 ''task'' [(''reasoning_tokens'', PyInt 3000)])"
  have h0: "h0 = \<lparr>ledgers = [\<lparr>l_scope = ''tenant'', l_parent = None,
      l_limits = [''reasoning_tokens'' \<mapsto> 1000], l_used = Map.empty, l_reserved = Map.empty\<rparr>], reservations = []\<rparr>"
    by (simp add: h0_def new_ledger_def)
  have h: "ledgers h = ledgers h0 @ [\<lparr>l_scope = ''task'', l_parent = Some 0,
      l_limits = [''reasoning_tokens'' \<mapsto> 3000], l_used = Map.empty, l_reserved = Map.empty\<rparr>]"
    by (simp add: h_def create_child_ledger_def new_ledger_def h0)
  have "reach budget_init budget_step \<lparr>ledgers = [], reservations = []\<rparr>"
    by (rule reach_init) (simp add: budget_init_def)
  then have "reach budget_init budget_step h0"
    unfolding h0_def by (rule reach_step) (simp add: step_root)
  then have r: "reach budget_init budget_step h"
    unfolding h_def by (rule reach_step) (simp add: step_child h0)
  have "bs_remaining (ledger_snapshot (ledgers h ! 1)) ''reasoning_tokens'' = Some 3000"
    by (simp add: h h0 ledger_snapshot_def)
  then obtain o3 where rec: "recommend fr (example_orchestrator None) (ledgers h ! 1) ''t'' None
      (Risk REVERSIBLE_WRITE) (Tier LOW) None PyNone PyNone = (Inr (medium_advice 3000), o3)"
    using medium_advice_given by fastforce
  have "budget_reserve h 1 [(''reasoning_tokens'', PyInt (rc_estimate (medium_advice 3000)))] None ''r'' =
      (Inl (budget_exceeded ''tenant'' ''reasoning_tokens'' 1000 1024), h)"
    by (simp add: budget_reserve_def h h0 ledger_chain_def chain_walk.simps medium_advice_def)
  with r rec example_orchestrator_new show ?thesis by blast
qed

end
