(* ===== verification/Tenancy.thy ===== *)
theory Tenancy
  imports Json_Parser
begin

text \<open>
  \<open>tenancy.py\<close>: state partitioned by the keyed digest of a tenant scope. The two tables are
  association lists in row order; every method is one transaction, so it is a function from the
  tables to an answer and the tables after it. The scope key, the clock, the sixteen random bytes
  of an event identifier and the rows SQLite visits first in a bounded delete are arguments.

  The column \<open>value_json\<close> holds a JSON text; the model keeps the value the text denotes (dictionary
  keys in sorted order), and \<open>None\<close> for a text that is not JSON. Failures of SQLite itself other
  than a violated constraint are left out.
\<close>

section \<open>Identifiers\<close>

text \<open>
  \<open>unicodedata.normalize("NFKC", s)\<close>. Eight of the first 256 code points have a normal form with
  characters beyond them (168, 175, 180, 181, 184, 188, 189 and 190); the model leaves those as
  they are.
\<close>

definition nfkc_char :: "char \<Rightarrow> char" where
  "nfkc_char c = (let n = code_point c in
     if n = 160 then CHR '' '' else if n = 170 then CHR ''a'' else if n = 186 then CHR ''o''
     else if n = 178 then CHR ''2'' else if n = 179 then CHR ''3'' else if n = 185 then CHR ''1''
     else c)"

text \<open>\<open>str.isalnum\<close> of a character.\<close>

definition is_alnum :: "char \<Rightarrow> bool" where
  "is_alnum c = (let n = code_point c in
     is_lower c \<or> is_upper c \<or> is_digit c \<or> n \<in> {170, 178, 179, 181, 185, 186, 188, 189, 190}
     \<or> 192 \<le> n \<and> n \<noteq> 215 \<and> n \<noteq> 247)"

definition valid_identifier :: "string \<Rightarrow> string result" where
  "valid_identifier s =
     (if s = [] \<or> 256 < length s \<or> 1024 < length (utf8 s) then Inl ValueError
      else if list_ex is_control s then Inl ValueError else Inr s)"

definition normalize_identifier :: "string \<Rightarrow> string result" where
  "normalize_identifier s = valid_identifier (strip (map nfkc_char s))"

definition state_name :: "string \<Rightarrow> string result" where
  "state_name s = rbind (valid_identifier s) (\<lambda>s.
     if list_ex (\<lambda>c. \<not> (is_alnum c \<or> c \<in> set ''._:-'')) s then Inl ValueError else Inr s)"

section \<open>Numbers\<close>

fun ttl_seconds :: "pyval \<Rightarrow> rat result" where
  "ttl_seconds (PyInt n) =
     (if 2 ^ 1024 - 2 ^ 970 \<le> \<bar>n\<bar> then Inl OverflowError
      else if n \<le> 0 then Inl ValueError else Inr (of_int n))"
| "ttl_seconds (PyFloat x) = (if x \<le> 0 then Inl ValueError else Inr x)"
| "ttl_seconds _ = Inl ValueError"

fun state_limit :: "int \<Rightarrow> pyval \<Rightarrow> nat result" where
  "state_limit maximum (PyInt n) = (if 1 \<le> n \<and> n \<le> maximum then Inr (nat n) else Inl ValueError)"
| "state_limit maximum _ = Inl ValueError"

section \<open>Scopes\<close>

record tenant_scope =
  tn_tenant :: string
  tn_principal :: string
  tn_session :: string
  tn_task :: string

definition make_scope :: "string \<Rightarrow> string \<Rightarrow> string \<Rightarrow> string \<Rightarrow> tenant_scope result" where
  "make_scope tenant who session task =
     rbind (normalize_identifier tenant) (\<lambda>a. rbind (normalize_identifier who) (\<lambda>b.
       rbind (normalize_identifier session) (\<lambda>c. rbind (normalize_identifier task) (\<lambda>d.
         Inr \<lparr>tn_tenant = a, tn_principal = b, tn_session = c, tn_task = d\<rparr>))))"

text \<open>\<open>canonical_json(value).encode("utf-8")\<close>; no float occurs in the values it is used on here.\<close>

definition canonical_bytes :: "pyval \<Rightarrow> nat list" where
  "canonical_bytes v = utf8 (json_dumps True False (\<lambda>_. []) v)"

definition scope_domain :: "nat list" where
  "scope_domain = utf8 ''capabilityhub-tenant-scope-v1'' @ [0]"

definition key_domain :: "nat list" where
  "key_domain = utf8 ''capabilityhub-scoped-key-v1'' @ [0]"

definition tenant_digest :: "nat list \<Rightarrow> tenant_scope \<Rightarrow> string" where
  "tenant_digest key sc = hmac_hex key (scope_domain @ canonical_bytes (PyDict
     [(''principal'', PyStr (tn_principal sc)), (''session'', PyStr (tn_session sc)),
      (''task'', PyStr (tn_task sc)), (''tenant'', PyStr (tn_tenant sc))]))"

definition validate_scope_key :: "nat list \<Rightarrow> nat list result" where
  "validate_scope_key key = (if length key < 16 then Inl ValueError else Inr key)"

definition key_digest :: "nat list \<Rightarrow> string \<Rightarrow> string \<Rightarrow> string \<Rightarrow> string result" where
  "key_digest key digest namespace name = rbind (valid_identifier name) (\<lambda>name.
     Inr (hmac_hex key (key_domain @ canonical_bytes (PyList [PyStr digest, PyStr namespace, PyStr name]))))"

section \<open>Stored values\<close>

text \<open>\<open>_validate_json\<close>; the keys of a \<^const>\<open>PyDict\<close> are strings.\<close>

function json_ok :: "pyval \<Rightarrow> bool" where
  "json_ok PyNone = True"
| "json_ok (PyBool b) = True"
| "json_ok (PyStr s) = True"
| "json_ok (PyInt n) = True"
| "json_ok (PyFloat x) = True"
| "json_ok PyNonFinite = False"
| "json_ok (PyList vs) = list_all json_ok vs"
| "json_ok (PyDict d) = list_all (\<lambda>(k, v). json_ok v) d"
  by pat_completeness auto

termination
  by (relation "measure size") (auto simp: less_Suc_eq_le intro: size_list_estimation')

definition store_failure :: "string \<Rightarrow> exn" where
  "store_failure code = HubError code INTERNAL False []"

definition tenant_state_corrupt :: exn where
  "tenant_state_corrupt = store_failure ''tenant_state_corrupt''"

definition tenant_state_write_failed :: exn where
  "tenant_state_write_failed = store_failure ''tenant_state_write_failed''"

definition encode_value :: "pyval \<Rightarrow> pyval option result" where
  "encode_value v = (if json_ok v then Inr (Some (canonical v)) else Inl ValueError)"

definition decode_value :: "pyval option \<Rightarrow> pyval result" where
  "decode_value raw = (case raw of
     None \<Rightarrow> Inl tenant_state_corrupt
   | Some v \<Rightarrow> if json_ok v then Inr v else Inl tenant_state_corrupt)"

definition stored_time :: "rat \<Rightarrow> rat result" where
  "stored_time x = (if x < 0 then Inl tenant_state_corrupt else Inr x)"

fun stored_expiry :: "rat option \<Rightarrow> rat option result" where
  "stored_expiry None = Inr None"
| "stored_expiry (Some x) = rbind (stored_time x) (\<lambda>x. Inr (Some x))"

section \<open>Tables\<close>

record state_entry =
  se_value :: "pyval option"
  se_updated :: rat
  se_expires :: "rat option"

record state_event =
  sv_id :: string
  sv_value :: "pyval option"
  sv_created :: rat
  sv_expires :: "rat option"

record scoped_state =
  ss_entries :: "((string \<times> string \<times> string) \<times> state_entry) list"
  ss_events :: "((string \<times> string \<times> int) \<times> state_event) list"

record scoped_entry =
  sn_key :: string
  sn_value :: pyval
  sn_updated :: rat
  sn_expires :: "rat option"

record scoped_event =
  sq_id :: string
  sq_sequence :: int
  sq_value :: pyval
  sq_created :: rat
  sq_expires :: "rat option"

definition empty_state :: scoped_state where
  "empty_state = \<lparr>ss_entries = [], ss_events = []\<rparr>"

text \<open>\<open>__init__\<close> on a new file: the key and the time-out are checked and the tables created.\<close>

fun positive_number :: "pyval \<Rightarrow> unit result" where
  "positive_number (PyInt n) = (if n \<le> 0 then Inl ValueError else Inr ())"
| "positive_number (PyFloat x) = (if x \<le> 0 then Inl ValueError else Inr ())"
| "positive_number (PyBool b) = (if b then Inr () else Inl ValueError)"
| "positive_number PyNonFinite = Inl ValueError"
| "positive_number _ = Inl TypeError"

definition open_scoped_state :: "nat list \<Rightarrow> pyval \<Rightarrow> scoped_state result" where
  "open_scoped_state key timeout =
     rbind (validate_scope_key key) (\<lambda>_. rbind (positive_number timeout) (\<lambda>_. Inr empty_state))"

section \<open>Entries\<close>

text \<open>The digest of the scope, the namespace and the digest of the key: the primary key of a row.\<close>

definition entry_key ::
  "nat list \<Rightarrow> tenant_scope \<Rightarrow> string \<Rightarrow> string \<Rightarrow> (string \<times> string \<times> string) result" where
  "entry_key key sc namespace name =
     (let digest = tenant_digest key sc in
      rbind (state_name namespace) (\<lambda>ns. rbind (key_digest key digest ns name) (\<lambda>k. Inr (digest, ns, k))))"

definition current_value :: "scoped_state \<Rightarrow> string \<times> string \<times> string \<Rightarrow> rat \<Rightarrow> pyval option result" where
  "current_value db k now =
     (case map_of (ss_entries db) k of
        None \<Rightarrow> Inr None
      | Some row \<Rightarrow> rbind (stored_expiry (se_expires row)) (\<lambda>x.
          case x of
            Some t \<Rightarrow> if t \<le> now then Inr None else rbind (decode_value (se_value row)) (\<lambda>v. Inr (Some v))
          | None \<Rightarrow> rbind (decode_value (se_value row)) (\<lambda>v. Inr (Some v))))"

definition state_get ::
  "nat list \<Rightarrow> scoped_state \<Rightarrow> tenant_scope \<Rightarrow> string \<Rightarrow> string \<Rightarrow> pyval \<Rightarrow> pyval option result" where
  "state_get key db sc name namespace now =
     rbind (entry_key key sc namespace name) (\<lambda>k. rbind (nonneg_time now) (\<lambda>t. current_value db k t))"

definition put_entry ::
  "scoped_state \<Rightarrow> string \<times> string \<times> string \<Rightarrow> pyval option \<Rightarrow> rat \<Rightarrow> rat option \<Rightarrow> scoped_state" where
  "put_entry db k raw now expires = db\<lparr>ss_entries := AList.update k
     \<lparr>se_value = raw, se_updated = now, se_expires = expires\<rparr> (ss_entries db)\<rparr>"

definition set_entry ::
  "nat list \<Rightarrow> scoped_state \<Rightarrow> tenant_scope \<Rightarrow> string \<Rightarrow> pyval \<Rightarrow> string \<Rightarrow> rat option \<Rightarrow> pyval \<Rightarrow>
   unit result \<times> scoped_state" where
  "set_entry key db sc name val namespace expires now =
     (case rbind (entry_key key sc namespace name) (\<lambda>k. rbind (nonneg_time now) (\<lambda>t.
        rbind (encode_value val) (\<lambda>raw. Inr (put_entry db k raw t expires)))) of
        Inl e \<Rightarrow> (Inl e, db)
      | Inr db' \<Rightarrow> (Inr (), db'))"

definition state_set ::
  "nat list \<Rightarrow> scoped_state \<Rightarrow> tenant_scope \<Rightarrow> string \<Rightarrow> pyval \<Rightarrow> string \<Rightarrow> pyval \<Rightarrow> unit result \<times> scoped_state" where
  "state_set key db sc name val namespace now = set_entry key db sc name val namespace None now"

definition state_set_cache ::
  "nat list \<Rightarrow> scoped_state \<Rightarrow> tenant_scope \<Rightarrow> string \<Rightarrow> pyval \<Rightarrow> pyval \<Rightarrow> string \<Rightarrow> pyval \<Rightarrow>
   unit result \<times> scoped_state" where
  "state_set_cache key db sc name val ttl namespace now =
     (case rbind (nonneg_time now) (\<lambda>t. rbind (ttl_seconds ttl) (\<lambda>d. Inr (t, t + d))) of
        Inl e \<Rightarrow> (Inl e, db)
      | Inr (t, expires) \<Rightarrow> set_entry key db sc name val namespace (Some expires) (PyFloat t))"

text \<open>What \<open>transact_entry\<close> raises for an exception of its transaction.\<close>

definition transact_error :: "exn \<Rightarrow> exn" where
  "transact_error e = (if e \<in> {DatabaseError, TypeError, ValueError} then tenant_state_write_failed else e)"

definition transact_entry ::
  "nat list \<Rightarrow> scoped_state \<Rightarrow> tenant_scope \<Rightarrow> string \<Rightarrow> (pyval option \<Rightarrow> (pyval option \<times> 'r) result) \<Rightarrow>
   string \<Rightarrow> pyval \<Rightarrow> 'r result \<times> scoped_state" where
  "transact_entry key db sc name upd namespace now =
     (case rbind (entry_key key sc namespace name) (\<lambda>k. rbind (nonneg_time now) (\<lambda>t. Inr (k, t))) of
        Inl e \<Rightarrow> (Inl e, db)
      | Inr (k, t) \<Rightarrow>
          (case rbind (current_value db k t) (\<lambda>v. rbind (upd v) (\<lambda>(replacement, answer).
              case replacement of
                None \<Rightarrow> Inr (answer, db\<lparr>ss_entries := AList.delete k (ss_entries db)\<rparr>)
              | Some r \<Rightarrow> rbind (encode_value r) (\<lambda>raw. Inr (answer, put_entry db k raw t None)))) of
             Inl e \<Rightarrow> (Inl (transact_error e), db)
           | Inr (answer, db') \<Rightarrow> (Inr answer, db')))"

definition state_delete ::
  "nat list \<Rightarrow> scoped_state \<Rightarrow> tenant_scope \<Rightarrow> string \<Rightarrow> string \<Rightarrow> bool result \<times> scoped_state" where
  "state_delete key db sc name namespace =
     (case entry_key key sc namespace name of
        Inl e \<Rightarrow> (Inl e, db)
      | Inr k \<Rightarrow> (Inr (map_of (ss_entries db) k \<noteq> None), db\<lparr>ss_entries := AList.delete k (ss_entries db)\<rparr>))"

text \<open>\<open>expires_at IS NULL OR expires_at > now\<close>.\<close>

definition unexpired :: "rat \<Rightarrow> rat option \<Rightarrow> bool" where
  "unexpired now expires = (case expires of None \<Rightarrow> True | Some t \<Rightarrow> now < t)"

fun read_entries :: "(string \<times> state_entry) list \<Rightarrow> scoped_entry list result" where
  "read_entries [] = Inr []"
| "read_entries ((k, row) # rows) =
     rbind (decode_value (se_value row)) (\<lambda>v. rbind (stored_time (se_updated row)) (\<lambda>u.
       rbind (stored_expiry (se_expires row)) (\<lambda>x. rbind (read_entries rows) (\<lambda>rest.
         Inr (\<lparr>sn_key = k, sn_value = v, sn_updated = u, sn_expires = x\<rparr> # rest)))))"

definition list_entries ::
  "nat list \<Rightarrow> scoped_state \<Rightarrow> tenant_scope \<Rightarrow> string \<Rightarrow> pyval \<Rightarrow> pyval \<Rightarrow> scoped_entry list result" where
  "list_entries key db sc namespace limit now =
     (let digest = tenant_digest key sc in
      rbind (state_name namespace) (\<lambda>ns. rbind (state_limit 500 limit) (\<lambda>n. rbind (nonneg_time now) (\<lambda>t.
        read_entries (take n (sort_key (\<lambda>(k, row). (- se_updated row, k))
          (map (\<lambda>((d, m, k), row). (k, row))
            (filter (\<lambda>((d, m, k), row). d = digest \<and> m = ns \<and> unexpired t (se_expires row))
              (ss_entries db)))))))))"

section \<open>Events\<close>

definition next_sequence :: "scoped_state \<Rightarrow> string \<Rightarrow> string \<Rightarrow> int" where
  "next_sequence db digest stream =
     foldr max (map (\<lambda>((d, m, n), row). n)
       (filter (\<lambda>((d, m, n), row). d = digest \<and> m = stream) (ss_events db))) 0 + 1"

definition insert_event ::
  "scoped_state \<Rightarrow> string \<times> string \<times> int \<Rightarrow> state_event \<Rightarrow> scoped_state result" where
  "insert_event db k row =
     (if k \<in> fst ` set (ss_events db) \<or>
         list_ex (\<lambda>((d, m, n), r). d = fst k \<and> sv_id r = sv_id row) (ss_events db)
      then Inl DatabaseError
      else Inr (db\<lparr>ss_events := ss_events db @ [(k, row)]\<rparr>))"

definition append_event ::
  "nat list \<Rightarrow> scoped_state \<Rightarrow> tenant_scope \<Rightarrow> pyval \<Rightarrow> string \<Rightarrow> pyval option \<Rightarrow> pyval \<Rightarrow> nat list \<Rightarrow>
   scoped_event result \<times> scoped_state" where
  "append_event key db sc val stream ttl now uuid =
     (let digest = tenant_digest key sc in
      case rbind (state_name stream) (\<lambda>st. rbind (nonneg_time now) (\<lambda>t.
        rbind (case ttl of None \<Rightarrow> Inr None | Some d \<Rightarrow> rbind (ttl_seconds d) (\<lambda>d. Inr (Some (t + d)))) (\<lambda>x.
          rbind (encode_value val) (\<lambda>raw. Inr (st, t, x, raw))))) of
        Inl e \<Rightarrow> (Inl e, db)
      | Inr (st, t, x, raw) \<Rightarrow>
          (let event = hmac_hex key (key_domain @ utf8 digest @ uuid); n = next_sequence db digest st
           in case insert_event db (digest, st, n)
                \<lparr>sv_id = event, sv_value = raw, sv_created = t, sv_expires = x\<rparr> of
                Inl e \<Rightarrow> (Inl tenant_state_write_failed, db)
              | Inr db' \<Rightarrow> (Inr \<lparr>sq_id = event, sq_sequence = n, sq_value = val, sq_created = t, sq_expires = x\<rparr>, db')))"

fun read_events :: "(int \<times> state_event) list \<Rightarrow> scoped_event list result" where
  "read_events [] = Inr []"
| "read_events ((n, row) # rows) =
     rbind (decode_value (sv_value row)) (\<lambda>v. rbind (stored_time (sv_created row)) (\<lambda>c.
       rbind (stored_expiry (sv_expires row)) (\<lambda>x. rbind (read_events rows) (\<lambda>rest.
         Inr (\<lparr>sq_id = sv_id row, sq_sequence = n, sq_value = v, sq_created = c, sq_expires = x\<rparr> # rest)))))"

fun sequence_cursor :: "pyval \<Rightarrow> int result" where
  "sequence_cursor (PyInt n) = (if n < 0 then Inl ValueError else Inr n)"
| "sequence_cursor _ = Inl ValueError"

definition list_events ::
  "nat list \<Rightarrow> scoped_state \<Rightarrow> tenant_scope \<Rightarrow> string \<Rightarrow> pyval \<Rightarrow> pyval \<Rightarrow> pyval \<Rightarrow> scoped_event list result" where
  "list_events key db sc stream cursor limit now =
     rbind (sequence_cursor cursor) (\<lambda>after.
       let digest = tenant_digest key sc in
       rbind (state_name stream) (\<lambda>st. rbind (nonneg_time now) (\<lambda>t. rbind (state_limit 500 limit) (\<lambda>k.
         read_events (take k (sort_key fst
           (map (\<lambda>((d, m, n), row). (n, row))
             (filter (\<lambda>((d, m, n), row). d = digest \<and> m = st \<and> after < n \<and> unexpired t (sv_expires row))
               (ss_events db)))))))))"

section \<open>Cleaning up\<close>

text \<open>
  \<open>DELETE .. WHERE rowid IN (SELECT .. LIMIT n)\<close> without an order: \<open>plan\<close> is the order in which
  SQLite visits the selected rows; the key of a row stands for its row identifier.
\<close>

definition delete_some :: "nat \<Rightarrow> ('k list \<Rightarrow> 'k list) \<Rightarrow> ('k \<times> 'v \<Rightarrow> bool) \<Rightarrow> ('k \<times> 'v) list \<Rightarrow> ('k \<times> 'v) list" where
  "delete_some n plan selected rows =
     (let victims = take n (plan (map fst (filter selected rows)))
      in filter (\<lambda>p. \<not> (selected p \<and> fst p \<in> set victims)) rows)"

definition cleanup_expired ::
  "nat list \<Rightarrow> scoped_state \<Rightarrow> tenant_scope \<Rightarrow> pyval \<Rightarrow> pyval \<Rightarrow>
   ((string \<times> string \<times> string) list \<Rightarrow> (string \<times> string \<times> string) list) \<Rightarrow>
   ((string \<times> string \<times> int) list \<Rightarrow> (string \<times> string \<times> int) list) \<Rightarrow> (nat \<times> nat) result \<times> scoped_state" where
  "cleanup_expired key db sc now limit plan plan' =
     (let digest = tenant_digest key sc in
      case rbind (nonneg_time now) (\<lambda>t. rbind (state_limit 10000 limit) (\<lambda>n. Inr (t, n))) of
        Inl e \<Rightarrow> (Inl e, db)
      | Inr (t, n) \<Rightarrow>
          (let entries = delete_some n plan (\<lambda>((d, _), row). d = digest \<and> \<not> unexpired t (se_expires row)) (ss_entries db);
               events = delete_some n plan' (\<lambda>((d, _), row). d = digest \<and> \<not> unexpired t (sv_expires row)) (ss_events db)
           in (Inr (length (ss_entries db) - length entries, length (ss_events db) - length events),
               db\<lparr>ss_entries := entries, ss_events := events\<rparr>)))"

section \<open>Partitioned stores\<close>

text \<open>
  The contract of a store shared by scopes: \<open>view d\<close> is the store with the rows of the scope \<open>d\<close>
  only. A call is answered from the rows of its owner and changes no others. It follows that what a
  scope sees of any history is what it would have seen had the other scopes made no call.
\<close>

fun answers :: "('c \<Rightarrow> 's \<Rightarrow> 'a \<times> 's) \<Rightarrow> ('c \<Rightarrow> bool) \<Rightarrow> 'c list \<Rightarrow> 's \<Rightarrow> 'a list" where
  "answers run P [] s = []"
| "answers run P (c # cs) s =
     (if P c then [fst (run c s)] else []) @ answers run P cs (snd (run c s))"

fun run_all :: "('c \<Rightarrow> 's \<Rightarrow> 'a \<times> 's) \<Rightarrow> 'c list \<Rightarrow> 's \<Rightarrow> 's" where
  "run_all run [] s = s"
| "run_all run (c # cs) s = run_all run cs (snd (run c s))"

locale partitioned =
  fixes run :: "'c \<Rightarrow> 's \<Rightarrow> 'a \<times> 's" and owner :: "'c \<Rightarrow> 'd" and view :: "'d \<Rightarrow> 's \<Rightarrow> 's"
  assumes view_other: "owner c \<noteq> d \<Longrightarrow> view d (snd (run c s)) = view d s"
    and view_own: "run c (view (owner c) s) = (fst (run c s), view (owner c) (snd (run c s)))"
begin

lemma own_answers:
  "view d s = view d t \<Longrightarrow>
   answers run (\<lambda>c. owner c = d) cs s = answers run (\<lambda>c. True) (filter (\<lambda>c. owner c = d) cs) t \<and>
   view d (run_all run cs s) = view d (run_all run (filter (\<lambda>c. owner c = d) cs) t)"
proof (induction cs arbitrary: s t)
  case (Cons c cs)
  show ?case
  proof (cases "owner c = d")
    case True
    with view_own [of c s] view_own [of c t] Cons.prems
    have "fst (run c s) = fst (run c t)" "view d (snd (run c s)) = view d (snd (run c t))" by auto
    with True Cons.IH show ?thesis by simp
  next
    case False
    with Cons.prems have "view d (snd (run c s)) = view d t" by (simp add: view_other)
    with False Cons.IH show ?thesis by simp
  qed
qed simp

lemma untouched: "\<forall>c \<in> set cs. owner c \<noteq> d \<Longrightarrow> view d (run_all run cs s) = view d s"
  by (induction cs arbitrary: s) (simp_all add: view_other)

end

section \<open>Rows of one scope\<close>

definition part :: "'d \<Rightarrow> (('d \<times> 'k) \<times> 'v) list \<Rightarrow> (('d \<times> 'k) \<times> 'v) list" where
  "part d rows = filter (\<lambda>p. fst (fst p) = d) rows"

lemma part_Nil [simp]: "part d [] = []"
  by (simp add: part_def)

lemma part_append [simp]: "part d (xs @ ys) = part d xs @ part d ys"
  by (simp add: part_def)

lemma part_single [simp]: "part d [(k, v)] = (if fst k = d then [(k, v)] else [])"
  by (simp add: part_def)

lemma map_of_part [simp]: "map_of (part d rows) (d, k) = map_of rows (d, k)"
  by (induction rows) (auto simp: part_def)

lemma part_update: "part d (AList.update (e, k) v rows) =
    (if e = d then AList.update (e, k) v (part d rows) else part d rows)"
  by (induction rows) (auto simp: part_def)

lemma part_delete: "part d (AList.delete (e, k) rows) =
    (if e = d then AList.delete (e, k) (part d rows) else part d rows)"
  by (induction rows) (auto simp: part_def)

lemma filter_part: "(\<And>p. P p \<Longrightarrow> fst (fst p) = d) \<Longrightarrow> filter P (part d rows) = filter P rows"
  by (auto simp: part_def intro!: filter_cong)

lemma delete_some_part:
  assumes "\<And>p. sel p \<Longrightarrow> fst (fst p) = e"
  shows "part d (delete_some n plan sel rows) = (if d = e then delete_some n plan sel (part d rows) else part d rows)"
proof -
  have "filter (\<lambda>p. fst (fst p) = d \<and> \<not> (sel p \<and> fst p \<in> vs)) rows = part d rows" if "d \<noteq> e" for vs
    unfolding part_def using that assms by (intro filter_cong) auto
  then show ?thesis
    by (auto simp: delete_some_def part_def [symmetric] Let_def filter_part [of sel, OF assms])
      (auto simp: part_def conj_commute)
qed

lemma length_part: "length rows = length (part d rows) + length (filter (\<lambda>p. fst (fst p) \<noteq> d) rows)"
  by (simp add: part_def sum_length_filter_compl)

lemma delete_some_count:
  assumes "\<And>p. sel p \<Longrightarrow> fst (fst p) = e"
  shows "length (part e rows) - length (part e (delete_some n plan sel rows)) =
    length rows - length (delete_some n plan sel rows)"
proof -
  have "filter (\<lambda>p. fst (fst p) \<noteq> e) (delete_some n plan sel rows) = filter (\<lambda>p. fst (fst p) \<noteq> e) rows"
    unfolding delete_some_def Let_def filter_filter using assms by (intro filter_cong) auto
  with length_part [of rows e] length_part [of "delete_some n plan sel rows" e] show ?thesis by simp
qed

section \<open>Tenants do not interfere\<close>

datatype state_call =
    SetValue tenant_scope string pyval string pyval
  | SetCache tenant_scope string pyval pyval string pyval
  | GetValue tenant_scope string string pyval
  | Transact tenant_scope string "pyval option \<Rightarrow> (pyval option \<times> pyval) result" string pyval
  | DeleteValue tenant_scope string string
  | ListEntries tenant_scope string pyval pyval
  | AppendEvent tenant_scope pyval string "pyval option" pyval "nat list"
  | ListEvents tenant_scope string pyval pyval pyval
  | Cleanup tenant_scope pyval pyval "(string \<times> string \<times> string) list \<Rightarrow> (string \<times> string \<times> string) list"
      "(string \<times> string \<times> int) list \<Rightarrow> (string \<times> string \<times> int) list"

datatype state_answer =
    Failed exn | Stored | Found "pyval option" | Answered pyval | Deleted bool | EntryList "scoped_entry list"
  | Appended scoped_event | EventList "scoped_event list" | CleanedUp "nat \<times> nat"

definition answer :: "('a \<Rightarrow> state_answer) \<Rightarrow> 'a result \<Rightarrow> state_answer" where
  "answer f r = (case r of Inl e \<Rightarrow> Failed e | Inr x \<Rightarrow> f x)"

fun state_run :: "nat list \<Rightarrow> state_call \<Rightarrow> scoped_state \<Rightarrow> state_answer \<times> scoped_state" where
  "state_run key (SetValue sc name v ns now) db = apfst (answer (\<lambda>_. Stored)) (state_set key db sc name v ns now)"
| "state_run key (SetCache sc name v ttl ns now) db =
     apfst (answer (\<lambda>_. Stored)) (state_set_cache key db sc name v ttl ns now)"
| "state_run key (GetValue sc name ns now) db = (answer Found (state_get key db sc name ns now), db)"
| "state_run key (Transact sc name upd ns now) db = apfst (answer Answered) (transact_entry key db sc name upd ns now)"
| "state_run key (DeleteValue sc name ns) db = apfst (answer Deleted) (state_delete key db sc name ns)"
| "state_run key (ListEntries sc ns limit now) db = (answer EntryList (list_entries key db sc ns limit now), db)"
| "state_run key (AppendEvent sc v stream ttl now uuid) db =
     apfst (answer Appended) (append_event key db sc v stream ttl now uuid)"
| "state_run key (ListEvents sc stream cursor limit now) db =
     (answer EventList (list_events key db sc stream cursor limit now), db)"
| "state_run key (Cleanup sc now limit plan plan') db =
     apfst (answer CleanedUp) (cleanup_expired key db sc now limit plan plan')"

fun call_scope :: "state_call \<Rightarrow> tenant_scope" where
  "call_scope (SetValue sc name v ns now) = sc"
| "call_scope (SetCache sc name v ttl ns now) = sc"
| "call_scope (GetValue sc name ns now) = sc"
| "call_scope (Transact sc name upd ns now) = sc"
| "call_scope (DeleteValue sc name ns) = sc"
| "call_scope (ListEntries sc ns limit now) = sc"
| "call_scope (AppendEvent sc v stream ttl now uuid) = sc"
| "call_scope (ListEvents sc stream cursor limit now) = sc"
| "call_scope (Cleanup sc now limit plan plan') = sc"

definition call_owner :: "nat list \<Rightarrow> state_call \<Rightarrow> string" where
  "call_owner key c = tenant_digest key (call_scope c)"

definition tenant_rows :: "string \<Rightarrow> scoped_state \<Rightarrow> scoped_state" where
  "tenant_rows d db = \<lparr>ss_entries = part d (ss_entries db), ss_events = part d (ss_events db)\<rparr>"

lemma entry_key_owner: "entry_key key sc namespace name = Inr k \<Longrightarrow> fst k = tenant_digest key sc"
  by (auto simp: entry_key_def rbind_eq_Inr Let_def)

lemma rows_sel [simp]: "ss_entries (tenant_rows d db) = part d (ss_entries db)"
  "ss_events (tenant_rows d db) = part d (ss_events db)"
  by (simp_all add: tenant_rows_def)

lemma current_value_rows [simp]: "current_value (tenant_rows (fst k) db) k t = current_value db k t"
  by (cases k) (simp add: current_value_def)

lemma put_entry_rows: "tenant_rows d (put_entry db k raw t x) =
    (if fst k = d then put_entry (tenant_rows d db) k raw t x else tenant_rows d db)"
  by (cases k) (simp add: put_entry_def tenant_rows_def part_update)

lemma delete_entry_rows: "tenant_rows d (db\<lparr>ss_entries := AList.delete k (ss_entries db)\<rparr>) =
    (if fst k = d then (tenant_rows d db)\<lparr>ss_entries := AList.delete k (part d (ss_entries db))\<rparr> else tenant_rows d db)"
  by (cases k) (simp add: tenant_rows_def part_delete)

lemma next_sequence_rows [simp]: "next_sequence (tenant_rows d db) d stream = next_sequence db d stream"
  unfolding next_sequence_def rows_sel by (subst filter_part) auto

lemma insert_event_rows: "insert_event (tenant_rows (fst k) db) k row =
    map_sum id (tenant_rows (fst k)) (insert_event db k row)"
  by (auto simp: insert_event_def tenant_rows_def part_def list_ex_iff)

lemma insert_event_other: "insert_event db k row = Inr db' \<Longrightarrow> fst k \<noteq> d \<Longrightarrow> tenant_rows d db' = tenant_rows d db"
  by (auto simp: insert_event_def tenant_rows_def split: if_splits)

lemmas state_op_simps = state_set_def set_entry_def state_set_cache_def state_get_def transact_entry_def
  state_delete_def list_entries_def append_event_def list_events_def cleanup_expired_def Let_def

lemma set_entry_other:
  "tenant_digest key sc \<noteq> d \<Longrightarrow> tenant_rows d (snd (set_entry key db sc name v ns x now)) = tenant_rows d db"
  by (auto simp: set_entry_def rbind_eq_Inr put_entry_rows dest!: entry_key_owner split: sum.splits)

lemma set_entry_own:
  assumes "d = tenant_digest key sc"
  shows "set_entry key (tenant_rows d db) sc name v ns x now =
    (fst (set_entry key db sc name v ns x now), tenant_rows d (snd (set_entry key db sc name v ns x now)))"
  using assms
  by (cases "entry_key key sc ns name"; cases "nonneg_time now"; cases "encode_value v")
    (auto simp: set_entry_def put_entry_rows dest!: entry_key_owner)

lemma transact_other:
  "tenant_digest key sc \<noteq> d \<Longrightarrow> tenant_rows d (snd (transact_entry key db sc name upd ns now)) = tenant_rows d db"
  by (auto simp: transact_entry_def rbind_eq_Inr put_entry_rows delete_entry_rows dest!: entry_key_owner
      split: sum.splits option.splits prod.splits)

lemma transact_own:
  assumes "d = tenant_digest key sc"
  shows "transact_entry key (tenant_rows d db) sc name upd ns now =
    (fst (transact_entry key db sc name upd ns now), tenant_rows d (snd (transact_entry key db sc name upd ns now)))"
proof (cases "entry_key key sc ns name")
  case (Inr k)
  with assms have d: "d = fst k" by (simp add: entry_key_owner)
  show ?thesis
    unfolding transact_entry_def Inr d
    by (cases "nonneg_time now"; cases "current_value db k (projr (nonneg_time now))";
        cases "upd (projr (current_value db k (projr (nonneg_time now))))")
      (auto simp: put_entry_rows delete_entry_rows rbind_def split: sum.splits option.splits)
qed (simp add: transact_entry_def)

lemma append_other:
  "tenant_digest key sc \<noteq> d \<Longrightarrow> tenant_rows d (snd (append_event key db sc v st ttl now uuid)) = tenant_rows d db"
  by (auto simp: append_event_def Let_def dest!: insert_event_other [where d = d] split: sum.splits)

lemma append_own:
  assumes "d = tenant_digest key sc"
  shows "append_event key (tenant_rows d db) sc v st ttl now uuid =
    (fst (append_event key db sc v st ttl now uuid), tenant_rows d (snd (append_event key db sc v st ttl now uuid)))"
  unfolding append_event_def Let_def assms [symmetric] next_sequence_rows
  by (auto simp: insert_event_rows [of "(d, m)" for m, unfolded fst_conv] split: sum.splits)

lemma cleanup_other:
  "tenant_digest key sc \<noteq> d \<Longrightarrow> tenant_rows d (snd (cleanup_expired key db sc now limit plan plan')) = tenant_rows d db"
  by (auto simp: cleanup_expired_def Let_def tenant_rows_def split: sum.splits
      intro!: trans [OF delete_some_part [of _ "tenant_digest key sc"]])

lemma cleanup_own:
  assumes "d = tenant_digest key sc"
  shows "cleanup_expired key (tenant_rows d db) sc now limit plan plan' =
    (fst (cleanup_expired key db sc now limit plan plan'), tenant_rows d (snd (cleanup_expired key db sc now limit plan plan')))"
proof -
  have 1: "delete_some n p (\<lambda>((d', _), row). d' = d \<and> P row) (part d rows) =
      part d (delete_some n p (\<lambda>((d', _), row). d' = d \<and> P row) rows)"
    for n p P and rows :: "((string \<times> 'k) \<times> 'v) list"
    by (subst delete_some_part [where e = d]) auto
  have 2: "length (part d rows) - length (part d (delete_some n p (\<lambda>((d', _), row). d' = d \<and> P row) rows)) =
      length rows - length (delete_some n p (\<lambda>((d', _), row). d' = d \<and> P row) rows)"
    for n p P and rows :: "((string \<times> 'k) \<times> 'v) list"
    by (rule delete_some_count) auto
  show ?thesis
    unfolding cleanup_expired_def Let_def assms [symmetric] rows_sel 1 2
    by (simp add: tenant_rows_def split: sum.split)
qed

lemma list_entries_own: "list_entries key (tenant_rows (tenant_digest key sc) db) sc ns limit now = list_entries key db sc ns limit now"
  unfolding list_entries_def Let_def rows_sel by (subst filter_part) auto

lemma list_events_own: "list_events key (tenant_rows (tenant_digest key sc) db) sc st cursor limit now = list_events key db sc st cursor limit now"
  unfolding list_events_def Let_def rows_sel by (subst filter_part) auto

lemma state_get_own: "state_get key (tenant_rows (tenant_digest key sc) db) sc name ns now = state_get key db sc name ns now"
proof (cases "entry_key key sc ns name")
  case (Inr k)
  then show ?thesis by (auto simp: state_get_def rbind_def split: sum.split simp flip: entry_key_owner)
qed (simp add: state_get_def)

lemma state_delete_other:
  "tenant_digest key sc \<noteq> d \<Longrightarrow> tenant_rows d (snd (state_delete key db sc name ns)) = tenant_rows d db"
  by (auto simp: state_delete_def delete_entry_rows dest!: entry_key_owner split: sum.splits)

lemma state_delete_own:
  assumes "d = tenant_digest key sc"
  shows "state_delete key (tenant_rows d db) sc name ns =
    (fst (state_delete key db sc name ns), tenant_rows d (snd (state_delete key db sc name ns)))"
proof (cases "entry_key key sc ns name")
  case (Inr k)
  with assms have "d = fst k" by (simp add: entry_key_owner)
  with Inr show ?thesis by (cases k) (simp add: state_delete_def delete_entry_rows del: map_of_eq_None_iff)
qed (simp add: state_delete_def)

lemma state_run_other: "call_owner key c \<noteq> d \<Longrightarrow> tenant_rows d (snd (state_run key c db)) = tenant_rows d db"
  by (cases c) (auto simp: call_owner_def state_set_def state_set_cache_def set_entry_other transact_other
      state_delete_other append_other cleanup_other split: sum.splits)

lemma state_run_own: "state_run key c (tenant_rows (call_owner key c) db) =
    (fst (state_run key c db), tenant_rows (call_owner key c) (snd (state_run key c db)))"
proof (cases c)
  case (SetCache sc name v ttl ns now)
  then show ?thesis
    by (simp add: call_owner_def state_set_cache_def set_entry_own split: sum.split prod.split)
qed (simp_all add: call_owner_def state_set_def set_entry_own transact_own state_get_own list_entries_own
    state_delete_own append_own list_events_own cleanup_own)

interpretation scoped: partitioned "state_run key" "call_owner key" tenant_rows for key
  by unfold_locales (simp_all add: state_run_other state_run_own)

section \<open>Values and events\<close>

lemma json_ok_canonical [simp]: "json_ok (canonical v) = json_ok v"
proof (induction v rule: canonical.induct)
  case (7 vs)
  then show ?case by (auto simp: list_all_iff)
next
  case (8 d)
  then show ?case by (force simp: list_all_iff)
qed simp_all

text \<open>A cached value is read back, keys sorted, until it expires.\<close>

lemma get_after_set_cache:
  assumes "state_set_cache key db sc name v ttl ns now = (Inr (), db')"
    and "nonneg_time now = Inr t" "ttl_seconds ttl = Inr d" "nonneg_time later = Inr u"
  shows "state_get key db' sc name ns later = Inr (if t + d \<le> u then None else Some (canonical v))"
proof -
  have pos: "0 \<le> t" "0 < d"
    using assms(2,3) by (cases now; cases ttl; auto split: if_splits)+
  from assms(1-3) obtain k raw where k: "entry_key key sc ns name = Inr k" "encode_value v = Inr raw"
    and db': "db' = put_entry db k raw t (Some (t + d))"
    using pos by (auto simp: state_set_cache_def set_entry_def rbind_eq_Inr split: sum.splits)
  from k(2) have raw: "raw = Some (canonical v)" "json_ok v" by (auto simp: encode_value_def split: if_splits)
  show ?thesis
    using pos assms(4) raw by (simp add: state_get_def k db' put_entry_def current_value_def stored_time_def decode_value_def)
qed

lemma get_after_set:
  assumes "state_set key db sc name v ns now = (Inr (), db')" "nonneg_time later = Inr u"
  shows "state_get key db' sc name ns later = Inr (Some (canonical v))"
proof -
  from assms(1) obtain k t raw where k: "entry_key key sc ns name = Inr k" "encode_value v = Inr raw"
    and db': "db' = put_entry db k raw t None"
    by (auto simp: state_set_def set_entry_def rbind_eq_Inr split: sum.splits)
  from k(2) have "raw = Some (canonical v)" "json_ok v" by (auto simp: encode_value_def split: if_splits)
  with k(1) assms(2) show ?thesis by (simp add: state_get_def db' put_entry_def current_value_def decode_value_def)
qed

lemma get_after_delete:
  assumes "state_delete key db sc name ns = (Inr found, db')" "nonneg_time later = Inr u"
  shows "state_get key db' sc name ns later = Inr None"
  using assms by (auto simp: state_delete_def state_get_def current_value_def split: sum.splits)

lemma foldr_max_bounds:
  fixes ns :: "int list"
  shows "0 \<le> foldr max ns 0" "n \<in> set ns \<Longrightarrow> n \<le> foldr max ns 0"
  by (induction ns) auto

lemma foldr_max_less: "\<lbrakk>\<And>n. n \<in> set ns \<Longrightarrow> n < b; (0::int) < b\<rbrakk> \<Longrightarrow> foldr max ns 0 < b"
  by (induction ns) auto

lemma next_sequence_above: "((d, st, n), row) \<in> set (ss_events db) \<Longrightarrow> n < next_sequence db d st"
proof -
  assume "((d, st, n), row) \<in> set (ss_events db)"
  then have "n \<in> set (map (\<lambda>((d, m, n), row). n) (filter (\<lambda>((d', m, n), row). d' = d \<and> m = st) (ss_events db)))"
    by force
  from foldr_max_bounds(2) [OF this] show ?thesis unfolding next_sequence_def by linarith
qed

lemma next_sequence_pos: "0 < next_sequence db d st"
  using foldr_max_bounds(1) unfolding next_sequence_def by (smt (verit))

lemma next_sequence_below:
  assumes "\<And>n row. ((d, st, n), row) \<in> set (ss_events db) \<Longrightarrow> n < b" "0 < b"
  shows "next_sequence db d st \<le> b"
proof -
  have "foldr max (map (\<lambda>((d, m, n), row). n) (filter (\<lambda>((d', m, n), row). d' = d \<and> m = st) (ss_events db))) 0 < b"
    using assms by (intro foldr_max_less) auto
  then show ?thesis unfolding next_sequence_def by linarith
qed

lemma append_event_cases:
  assumes "append_event key db sc v st ttl now uuid = (Inr e, db')"
  shows "sq_sequence e = next_sequence db (tenant_digest key sc) st \<and> ss_entries db' = ss_entries db \<and>
    (\<exists>row. ss_events db' = ss_events db @ [((tenant_digest key sc, st, sq_sequence e), row)])"
proof -
  have same: "st' = st" if "state_name st = Inr st'" for st'
    using that by (auto simp: state_name_def valid_identifier_def rbind_eq_Inr split: if_splits)
  show ?thesis
    using assms
    by (auto simp: append_event_def insert_event_def Let_def rbind_eq_Inr dest!: same split: sum.splits if_splits)
qed

text \<open>
  An appended event gets a sequence number above every stored one of its stream. A cleaned up event
  frees its number again: the next event can get a number a reader has already passed.
\<close>

lemma append_event_fresh:
  assumes "append_event key db sc v st ttl now uuid = (Inr e, db')"
    and "((tenant_digest key sc, st, n), row) \<in> set (ss_events db)"
  shows "n < sq_sequence e"
  using append_event_cases [OF assms(1)] next_sequence_above [OF assms(2)] by simp

theorem cleaned_sequence_reused:
  assumes "append_event key db sc v st ttl now uuid = (Inr e, db1)"
    and "cleanup_expired key db1 sc later limit plan plan' = (Inr counts, db2)"
    and "(tenant_digest key sc, st, sq_sequence e) \<notin> fst ` set (ss_events db2)"
    and "append_event key db2 sc v' st ttl' now' uuid' = (Inr e', db3)"
  shows "sq_sequence e' \<le> sq_sequence e"
proof -
  obtain row where 1: "sq_sequence e = next_sequence db (tenant_digest key sc) st"
    "ss_events db1 = ss_events db @ [((tenant_digest key sc, st, sq_sequence e), row)]"
    using append_event_cases [OF assms(1)] by blast
  have 2: "sq_sequence e' = next_sequence db2 (tenant_digest key sc) st"
    using append_event_cases [OF assms(4)] by blast
  have sub: "set (ss_events db2) \<subseteq> set (ss_events db1)"
    using assms(2) by (auto simp: cleanup_expired_def delete_some_def Let_def split: sum.splits)
  show ?thesis
    unfolding 2
  proof (rule next_sequence_below)
    fix n r
    assume m: "((tenant_digest key sc, st, n), r) \<in> set (ss_events db2)"
    then have "n \<noteq> sq_sequence e" using assms(3) by force
    with m sub 1(2) have "((tenant_digest key sc, st, n), r) \<in> set (ss_events db)" by auto
    then show "n < sq_sequence e" unfolding 1(1) by (rule next_sequence_above)
  qed (simp add: 1(1) next_sequence_pos)
qed

text \<open>The bytes a scope digest is computed from determine the scope.\<close>

lemma scope_text_inj:
  "canonical_bytes (PyDict [(''principal'', PyStr a), (''session'', PyStr b), (''task'', PyStr c), (''tenant'', PyStr d)]) =
   canonical_bytes (PyDict [(''principal'', PyStr a'), (''session'', PyStr b'), (''task'', PyStr c'), (''tenant'', PyStr d')]) \<longleftrightarrow>
   a = a' \<and> b = b' \<and> c = c' \<and> d = d'"
  by (auto simp: canonical_bytes_def order_keys_def)

section \<open>Properties\<close>

text \<open>The message a scope digest is computed from.\<close>

definition scope_message :: "tenant_scope \<Rightarrow> nat list" where
  "scope_message sc = scope_domain @ canonical_bytes (PyDict [(''principal'', PyStr (tn_principal sc)),
     (''session'', PyStr (tn_session sc)), (''task'', PyStr (tn_task sc)), (''tenant'', PyStr (tn_tenant sc))])"

lemma scope_message_inj: "scope_message sc = scope_message sc' \<longleftrightarrow> sc = sc'"
  by (cases sc; cases sc') (auto simp: scope_message_def scope_text_inj)

lemma tenant_digest_message: "tenant_digest key sc = hmac_hex key (scope_message sc)"
  by (simp add: tenant_digest_def scope_message_def)

lemma answers_cong: "(\<And>c. c \<in> set cs \<Longrightarrow> P c = Q c) \<Longrightarrow> answers run P cs s = answers run Q cs s"
  by (induction cs arbitrary: s) auto

text \<open>
  C9. Tenants do not interfere: whatever calls of all scopes are interleaved, the answers to the
  calls of one scope (tenant, principal, session and task) and the rows stored for it afterwards are
  those of its own calls alone, unless the message of another scope among the calls differs from
  the scope's own and has the same HMAC.
\<close>

theorem tenants_do_not_interfere:
  "(answers (state_run key) (\<lambda>c. call_scope c = sc) calls db =
      answers (state_run key) (\<lambda>c. True) (filter (\<lambda>c. call_scope c = sc) calls) db \<and>
    tenant_rows (tenant_digest key sc) (run_all (state_run key) calls db) =
      tenant_rows (tenant_digest key sc) (run_all (state_run key) (filter (\<lambda>c. call_scope c = sc) calls) db)) \<or>
   (\<exists>c \<in> set calls. scope_message (call_scope c) \<noteq> scope_message sc \<and>
      hmac_hex key (scope_message (call_scope c)) = hmac_hex key (scope_message sc))"
proof (cases "\<exists>c \<in> set calls. call_scope c \<noteq> sc \<and> tenant_digest key (call_scope c) = tenant_digest key sc")
  case True
  then show ?thesis unfolding tenant_digest_message using scope_message_inj by blast
next
  case False
  then have own: "call_owner key c = tenant_digest key sc \<longleftrightarrow> call_scope c = sc" if "c \<in> set calls" for c
    using that by (auto simp: call_owner_def)
  then have "filter (\<lambda>c. call_scope c = sc) calls = filter (\<lambda>c. call_owner key c = tenant_digest key sc) calls"
    by (auto intro: filter_cong)
  moreover have "answers (state_run key) (\<lambda>c. call_scope c = sc) calls db =
      answers (state_run key) (\<lambda>c. call_owner key c = tenant_digest key sc) calls db"
    by (rule answers_cong) (simp add: own)
  ultimately show ?thesis using scoped.own_answers [OF refl] by metis
qed

end
