(* ===== verification/Approvals.thy ===== *)
theory Approvals
  imports Tenancy
begin

text \<open>
  \<open>approval_store.py\<close>: approval requests bound to one exact execution intent and consumed once.
  \<open>SqliteApprovalStore\<close> keys its rows by the approval identifier and \<open>ScopedApprovalStore\<close> by the
  digests of the caller scope and the identifier; the rows and their transitions are shared. An
  exception inside a transaction rolls back everything it did, also the expiry it began with.
  Random identifiers and the clock are arguments. Only rows these classes wrote are modelled, so
  the checks of \<open>_stored_float\<close> never fail.
\<close>

section \<open>Intents and records\<close>

datatype approval_status = Pending | Approved | Denied | Consumed | Expired

fun status_text :: "approval_status \<Rightarrow> string" where
  "status_text Pending = ''pending''"
| "status_text Approved = ''approved''"
| "status_text Denied = ''denied''"
| "status_text Consumed = ''consumed''"
| "status_text Expired = ''expired''"

definition parse_status :: "string \<Rightarrow> approval_status result" where
  "parse_status s =
     (if s = ''pending'' then Inr Pending else if s = ''approved'' then Inr Approved
      else if s = ''denied'' then Inr Denied else if s = ''consumed'' then Inr Consumed
      else if s = ''expired'' then Inr Expired else Inl ValueError)"

record approval_intent =
  in_revision :: string
  in_operation :: string
  in_arguments :: string
  in_tenant :: string
  in_principal :: string
  in_session :: string
  in_task :: string
  in_side_effect :: string
  in_policy :: string

definition check_intent :: "approval_intent \<Rightarrow> approval_intent result" where
  "check_intent i =
     (if [] \<in> {in_revision i, in_operation i, in_tenant i, in_principal i, in_session i, in_task i,
                in_side_effect i, in_policy i} then Inl ValueError
      else if length (in_arguments i) \<noteq> 64 \<or> \<not> list_all (\<lambda>c. c \<in> set ''0123456789abcdef'') (in_arguments i)
      then Inl ValueError else Inr i)"

text \<open>\<open>fr\<close> prints the floats of the arguments (\<open>float.__repr__\<close>).\<close>

definition arguments_digest :: "(pyval \<Rightarrow> string) \<Rightarrow> (string \<times> pyval) list \<Rightarrow> string" where
  "arguments_digest fr arguments = json_digest fr (PyDict arguments)"

definition intent_from_arguments ::
  "(pyval \<Rightarrow> string) \<Rightarrow> string \<Rightarrow> string \<Rightarrow> (string \<times> pyval) list \<Rightarrow> string \<Rightarrow> string \<Rightarrow> string \<Rightarrow> string \<Rightarrow> string \<Rightarrow>
   string \<Rightarrow> approval_intent result" where
  "intent_from_arguments fr revision operation arguments tenant who session task effect policy =
     check_intent \<lparr>in_revision = revision, in_operation = operation,
       in_arguments = arguments_digest fr arguments, in_tenant = tenant, in_principal = who,
       in_session = session, in_task = task, in_side_effect = effect, in_policy = policy\<rparr>"

definition intent_text :: "approval_intent \<Rightarrow> nat list" where
  "intent_text i = canonical_bytes (PyDict
     [(''arguments_digest'', PyStr (in_arguments i)), (''operation'', PyStr (in_operation i)),
      (''policy_revision'', PyStr (in_policy i)), (''principal_id'', PyStr (in_principal i)),
      (''revision'', PyStr (in_revision i)), (''session_id'', PyStr (in_session i)),
      (''side_effect'', PyStr (in_side_effect i)), (''task_id'', PyStr (in_task i)),
      (''tenant_id'', PyStr (in_tenant i))])"

definition intent_fingerprint :: "approval_intent \<Rightarrow> nat list" where
  "intent_fingerprint i = sha256_bytes (intent_text i)"

definition same_intent :: "approval_intent \<Rightarrow> approval_intent \<Rightarrow> bool" where
  "same_intent i j \<longleftrightarrow> intent_fingerprint i = intent_fingerprint j"

text \<open>
  A row without the intent's fields as columns: \<open>'i\<close> is the whole intent in the first store and
  the fields of \<open>scoped_intent\<close> in the scoped one, which never stores the names of its caller.
\<close>

record 'i approval_record =
  ap_id :: string
  ap_intent :: 'i
  ap_status :: approval_status
  ap_created :: rat
  ap_expires :: rat
  ap_decided_at :: "rat option"
  ap_decided_by :: "string option"
  ap_consumed_at :: "rat option"

record scoped_intent =
  si_revision :: string
  si_operation :: string
  si_arguments :: string
  si_side_effect :: string
  si_policy :: string

type_synonym ('k, 'i) approval_rows = "('k \<times> 'i approval_record) list"

definition approval_error :: "string \<Rightarrow> string \<Rightarrow> exn" where
  "approval_error code identifier' = HubError code APPROVAL False [(''approval_id'', PyStr identifier')]"

section \<open>The clock\<close>

text \<open>
  \<open>math.isfinite\<close> overflows on an integer too large for a float, and binding one too large for an
  SQLite integer overflows too.
\<close>

fun finite_number :: "pyval \<Rightarrow> pyval result" where
  "finite_number (PyInt n) = (if 2 ^ 1024 - 2 ^ 970 \<le> \<bar>n\<bar> then Inl OverflowError else Inr (PyInt n))"
| "finite_number (PyFloat x) = Inr (PyFloat x)"
| "finite_number PyNonFinite = Inl ValueError"
| "finite_number (PyBool b) = Inl ValueError"
| "finite_number _ = Inl TypeError"

fun as_rat :: "pyval \<Rightarrow> rat" where
  "as_rat (PyInt n) = of_int n"
| "as_rat (PyFloat x) = x"
| "as_rat _ = 0"

definition approval_now :: "pyval \<Rightarrow> pyval result" where
  "approval_now v = rbind (finite_number v) (\<lambda>v. if as_rat v < 0 then Inl ValueError else Inr v)"

definition approval_ttl :: "pyval \<Rightarrow> pyval result" where
  "approval_ttl v = rbind (finite_number v) (\<lambda>v. if as_rat v \<le> 0 then Inl ValueError else Inr v)"

fun add_numbers :: "pyval \<Rightarrow> pyval \<Rightarrow> pyval" where
  "add_numbers (PyInt a) (PyInt b) = PyInt (a + b)"
| "add_numbers a b = PyFloat (as_rat a + as_rat b)"

fun bind_number :: "pyval \<Rightarrow> rat result" where
  "bind_number (PyInt n) = (if 2 ^ 63 \<le> n \<or> n < - (2 ^ 63) then Inl OverflowError else Inr (of_int n))"
| "bind_number v = Inr (as_rat v)"

section \<open>Rows\<close>

definition expire_rows :: "('k \<Rightarrow> bool) \<Rightarrow> rat \<Rightarrow> ('k, 'i) approval_rows \<Rightarrow> ('k, 'i) approval_rows" where
  "expire_rows sel now rows = map (\<lambda>(k, r).
     (k, if sel k \<and> ap_status r \<in> {Pending, Approved} \<and> ap_expires r \<le> now
         then r\<lparr>ap_status := Expired\<rparr> else r)) rows"

definition new_record :: "string \<Rightarrow> 'i \<Rightarrow> rat \<Rightarrow> rat \<Rightarrow> 'i approval_record" where
  "new_record i intent created expires = \<lparr>ap_id = i, ap_intent = intent, ap_status = Pending, ap_created = created,
     ap_expires = expires, ap_decided_at = None, ap_decided_by = None, ap_consumed_at = None\<rparr>"

definition insert_row :: "('k, 'i) approval_rows \<Rightarrow> 'k \<Rightarrow> 'i approval_record \<Rightarrow> ('k, 'i) approval_rows result" where
  "insert_row rows k r = (if k \<in> fst ` set rows then Inl ValueError else Inr (rows @ [(k, r)]))"

text \<open>The transaction of \<open>get\<close>: the expiry is kept also when there is no such row.\<close>

definition get_row ::
  "('k, 'i) approval_rows \<Rightarrow> 'k \<Rightarrow> string \<Rightarrow> rat \<Rightarrow> 'i approval_record result \<times> ('k, 'i) approval_rows" where
  "get_row rows k i now =
     (let rows' = expire_rows (\<lambda>k'. k' = k) now rows
      in (case map_of rows' k of None \<Rightarrow> Inl (approval_error ''approval_not_found'' i) | Some r \<Rightarrow> Inr r, rows'))"

text \<open>Newest first; \<open>key\<close> is the column that breaks ties.\<close>

definition list_rows ::
  "(('k \<times> 'i approval_record) \<Rightarrow> string) \<Rightarrow> ('k \<Rightarrow> bool) \<Rightarrow> approval_status option \<Rightarrow> nat \<Rightarrow> ('k, 'i) approval_rows \<Rightarrow>
   'i approval_record list" where
  "list_rows key sel status n rows =
     map snd (take n (rev (sort_key (\<lambda>p. (ap_created (snd p), key p))
       (filter (\<lambda>(k, r). sel k \<and> (status = None \<or> status = Some (ap_status r))) rows))))"

definition decide_rows ::
  "string \<Rightarrow> ('k, 'i) approval_rows \<Rightarrow> 'k \<Rightarrow> string \<Rightarrow> approval_status \<Rightarrow> string \<Rightarrow> rat \<Rightarrow> ('k, 'i) approval_rows result" where
  "decide_rows expired_code rows k i status who now =
     (let rows' = expire_rows (\<lambda>k'. k' = k) now rows
      in case map_of rows' k of
           None \<Rightarrow> Inl (approval_error ''approval_not_found'' i)
         | Some r \<Rightarrow>
             if ap_status r = Expired then Inl (approval_error expired_code i)
             else if ap_status r \<noteq> Pending then Inl (approval_error ''approval_invalid_transition'' i)
             else Inr (AList.update k
               (r\<lparr>ap_status := status, ap_decided_at := Some now, ap_decided_by := Some who\<rparr>) rows'))"

fun consume_refusal :: "approval_status \<Rightarrow> string option" where
  "consume_refusal Approved = None"
| "consume_refusal Expired = Some ''approval_expired''"
| "consume_refusal Consumed = Some ''approval_already_consumed''"
| "consume_refusal _ = Some ''approval_not_approved''"

definition consume_rows ::
  "('k, 'i) approval_rows \<Rightarrow> 'k \<Rightarrow> string \<Rightarrow> ('i \<Rightarrow> bool) \<Rightarrow> rat \<Rightarrow> ('k, 'i) approval_rows result" where
  "consume_rows rows k i matches now =
     (let rows' = expire_rows (\<lambda>k'. k' = k) now rows
      in case map_of rows' k of
           None \<Rightarrow> Inl (approval_error ''approval_not_found'' i)
         | Some r \<Rightarrow>
             if \<not> matches (ap_intent r) then Inl (approval_error ''approval_intent_mismatch'' i)
             else (case consume_refusal (ap_status r) of
                     Some code \<Rightarrow> Inl (approval_error code i)
                   | None \<Rightarrow> Inr (AList.update k (r\<lparr>ap_status := Consumed, ap_consumed_at := Some now\<rparr>) rows')))"

section \<open>The unscoped store\<close>

type_synonym approval_store = "(string, approval_intent) approval_rows"
type_synonym approval = "approval_intent approval_record"

text \<open>Runs a transaction that returns the rows it commits, then reads its answer from them.\<close>

definition commit_rows :: "'s \<Rightarrow> 's result \<Rightarrow> ('s \<Rightarrow> 'a result \<times> 's) \<Rightarrow> 'a result \<times> 's" where
  "commit_rows rows r k = (case r of Inl e \<Rightarrow> (Inl e, rows) | Inr rows' \<Rightarrow> k rows')"

definition read_row :: "'k \<Rightarrow> ('k, 'i) approval_rows \<Rightarrow> 'i approval_record result \<times> ('k, 'i) approval_rows" where
  "read_row k rows = (case map_of rows k of None \<Rightarrow> Inl BadReference | Some r \<Rightarrow> Inr r, rows)"

definition approval_identifier :: "string option \<Rightarrow> string \<Rightarrow> string" where
  "approval_identifier i fresh = (case i of None \<Rightarrow> ''apr_'' @ fresh | Some s \<Rightarrow> if s = [] then ''apr_'' @ fresh else s)"

definition clock :: "pyval \<Rightarrow> rat result" where
  "clock now = rbind (approval_now now) bind_number"

definition approval_get :: "approval_store \<Rightarrow> string \<Rightarrow> pyval \<Rightarrow> approval result \<times> approval_store" where
  "approval_get rows i now = (case clock now of Inl e \<Rightarrow> (Inl e, rows) | Inr t \<Rightarrow> get_row rows i i t)"

definition approval_request ::
  "approval_store \<Rightarrow> approval_intent \<Rightarrow> pyval \<Rightarrow> string option \<Rightarrow> string \<Rightarrow> pyval \<Rightarrow> approval result \<times> approval_store" where
  "approval_request rows intent ttl given fresh now =
     (let i = approval_identifier given fresh in
      commit_rows rows
        (rbind (approval_ttl ttl) (\<lambda>d. rbind (approval_now now) (\<lambda>v. rbind (bind_number v) (\<lambda>t.
           rbind (bind_number (add_numbers v d)) (\<lambda>x. insert_row rows i (new_record i intent t x))))))
        (\<lambda>rows'. approval_get rows' i now))"

definition approval_list ::
  "approval_store \<Rightarrow> string option \<Rightarrow> int \<Rightarrow> pyval \<Rightarrow> approval list result \<times> approval_store" where
  "approval_list rows status limit now =
     (case (if \<not> (1 \<le> limit \<and> limit \<le> 500) then Inl ValueError
            else rbind (case status of None \<Rightarrow> Inr None | Some s \<Rightarrow> rbind (parse_status s) (\<lambda>s. Inr (Some s)))
              (\<lambda>selected. rbind (clock now) (\<lambda>t. Inr (selected, t)))) of
        Inl e \<Rightarrow> (Inl e, rows)
      | Inr (selected, t) \<Rightarrow>
          (let rows' = expire_rows (\<lambda>_. True) t rows
           in (Inr (list_rows fst (\<lambda>_. True) selected (nat limit) rows'), rows')))"

definition approval_decide ::
  "approval_store \<Rightarrow> string \<Rightarrow> approval_status \<Rightarrow> string \<Rightarrow> pyval \<Rightarrow> approval result \<times> approval_store" where
  "approval_decide rows i status who now =
     commit_rows rows
       (if who = [] then Inl ValueError
        else rbind (clock now) (\<lambda>t. decide_rows ''approval_expired'' rows i i status who t))
       (read_row i)"

definition approval_approve :: "approval_store \<Rightarrow> string \<Rightarrow> string \<Rightarrow> pyval \<Rightarrow> approval result \<times> approval_store" where
  "approval_approve rows i who now = approval_decide rows i Approved who now"

definition approval_deny :: "approval_store \<Rightarrow> string \<Rightarrow> string \<Rightarrow> pyval \<Rightarrow> approval result \<times> approval_store" where
  "approval_deny rows i who now = approval_decide rows i Denied who now"

definition approval_consume ::
  "approval_store \<Rightarrow> string \<Rightarrow> approval_intent \<Rightarrow> pyval \<Rightarrow> approval result \<times> approval_store" where
  "approval_consume rows i intent now =
     commit_rows rows
       (rbind (clock now) (\<lambda>t. consume_rows rows i i (\<lambda>stored. same_intent stored intent) t))
       (read_row i)"

section \<open>The scoped store\<close>

type_synonym scoped_approvals = "(string \<times> string, scoped_intent) approval_rows"

definition approval_domain :: "nat list" where
  "approval_domain = utf8 ''capabilityhub-approval-id-v1'' @ [0]"

definition approval_digests :: "nat list \<Rightarrow> tenant_scope \<Rightarrow> string \<Rightarrow> (string \<times> string) result" where
  "approval_digests key sc i =
     (if i = [] then Inl ValueError
      else let digest = tenant_digest key sc
           in Inr (digest, hmac_hex key (approval_domain @ utf8 digest @ utf8 i)))"

definition open_scoped_approvals :: "nat list \<Rightarrow> scoped_approvals result" where
  "open_scoped_approvals key = rbind (validate_scope_key key) (\<lambda>_. Inr [])"

definition require_matching_scope :: "tenant_scope \<Rightarrow> approval_intent \<Rightarrow> unit result" where
  "require_matching_scope sc intent =
     (if (tn_tenant sc, tn_principal sc, tn_session sc, tn_task sc)
         \<noteq> (in_tenant intent, in_principal intent, in_session intent, in_task intent)
      then Inl (approval_error ''approval_not_found'' ''unavailable'') else Inr ())"

definition stored_intent :: "approval_intent \<Rightarrow> scoped_intent" where
  "stored_intent i = \<lparr>si_revision = in_revision i, si_operation = in_operation i, si_arguments = in_arguments i,
     si_side_effect = in_side_effect i, si_policy = in_policy i\<rparr>"

definition scoped_intent_of :: "tenant_scope \<Rightarrow> scoped_intent \<Rightarrow> approval_intent" where
  "scoped_intent_of sc i = \<lparr>in_revision = si_revision i, in_operation = si_operation i, in_arguments = si_arguments i,
     in_tenant = tn_tenant sc, in_principal = tn_principal sc, in_session = tn_session sc, in_task = tn_task sc,
     in_side_effect = si_side_effect i, in_policy = si_policy i\<rparr>"

definition scoped_record :: "tenant_scope \<Rightarrow> scoped_intent approval_record \<Rightarrow> approval" where
  "scoped_record sc r = \<lparr>ap_id = ap_id r, ap_intent = scoped_intent_of sc (ap_intent r), ap_status = ap_status r,
     ap_created = ap_created r, ap_expires = ap_expires r, ap_decided_at = ap_decided_at r,
     ap_decided_by = ap_decided_by r, ap_consumed_at = ap_consumed_at r\<rparr>"

definition scoped_get ::
  "nat list \<Rightarrow> scoped_approvals \<Rightarrow> tenant_scope \<Rightarrow> string \<Rightarrow> pyval \<Rightarrow> approval result \<times> scoped_approvals" where
  "scoped_get key rows sc i now =
     (case rbind (approval_now now) (\<lambda>v. rbind (approval_digests key sc i) (\<lambda>k. rbind (bind_number v) (\<lambda>t. Inr (k, t)))) of
        Inl e \<Rightarrow> (Inl e, rows)
      | Inr (k, t) \<Rightarrow> apfst (map_sum id (scoped_record sc)) (get_row rows k i t))"

definition scoped_request ::
  "nat list \<Rightarrow> scoped_approvals \<Rightarrow> tenant_scope \<Rightarrow> approval_intent \<Rightarrow> pyval \<Rightarrow> string option \<Rightarrow> string \<Rightarrow> pyval \<Rightarrow>
   approval result \<times> scoped_approvals" where
  "scoped_request key rows sc intent ttl given fresh now =
     (let i = approval_identifier given fresh in
      commit_rows rows
        (rbind (require_matching_scope sc intent) (\<lambda>_. rbind (approval_ttl ttl) (\<lambda>d. rbind (approval_now now) (\<lambda>v.
           rbind (approval_digests key sc i) (\<lambda>k. rbind (bind_number v) (\<lambda>t. rbind (bind_number (add_numbers v d)) (\<lambda>x.
             insert_row rows k (new_record i (stored_intent intent) t x))))))))
        (\<lambda>rows'. scoped_get key rows' sc i now))"

definition scoped_list ::
  "nat list \<Rightarrow> scoped_approvals \<Rightarrow> tenant_scope \<Rightarrow> string option \<Rightarrow> int \<Rightarrow> pyval \<Rightarrow> approval list result \<times> scoped_approvals" where
  "scoped_list key rows sc status limit now =
     (let digest = tenant_digest key sc in
      case (if \<not> (1 \<le> limit \<and> limit \<le> 500) then Inl ValueError
            else rbind (case status of None \<Rightarrow> Inr None | Some s \<Rightarrow> rbind (parse_status s) (\<lambda>s. Inr (Some s)))
              (\<lambda>selected. rbind (clock now) (\<lambda>t. Inr (selected, t)))) of
        Inl e \<Rightarrow> (Inl e, rows)
      | Inr (selected, t) \<Rightarrow>
          (let rows' = expire_rows (\<lambda>k. fst k = digest) t rows
           in (Inr (map (scoped_record sc)
                 (list_rows (\<lambda>p. snd (fst p)) (\<lambda>k. fst k = digest) selected (nat limit) rows')), rows')))"

definition scoped_decide ::
  "nat list \<Rightarrow> scoped_approvals \<Rightarrow> tenant_scope \<Rightarrow> string \<Rightarrow> approval_status \<Rightarrow> string \<Rightarrow> pyval \<Rightarrow>
   approval result \<times> scoped_approvals" where
  "scoped_decide key rows sc i status who now =
     commit_rows rows
       (if who = [] then Inl ValueError
        else rbind (approval_now now) (\<lambda>v. rbind (approval_digests key sc i) (\<lambda>k. rbind (bind_number v) (\<lambda>t.
          decide_rows ''approval_invalid_transition'' rows k i status who t))))
       (\<lambda>rows'. scoped_get key rows' sc i now)"

definition scoped_decide_as ::
  "nat list \<Rightarrow> scoped_approvals \<Rightarrow> tenant_scope \<Rightarrow> tenant_scope \<Rightarrow> string \<Rightarrow> approval_status \<Rightarrow> pyval \<Rightarrow>
   approval result \<times> scoped_approvals" where
  "scoped_decide_as key rows requester approver i status now =
     (if tn_tenant requester \<noteq> tn_tenant approver then (Inl (approval_error ''approval_not_found'' i), rows)
      else scoped_decide key rows requester i status (tn_principal approver) now)"

definition scoped_consume ::
  "nat list \<Rightarrow> scoped_approvals \<Rightarrow> tenant_scope \<Rightarrow> string \<Rightarrow> approval_intent \<Rightarrow> pyval \<Rightarrow> approval result \<times> scoped_approvals" where
  "scoped_consume key rows sc i intent now =
     commit_rows rows
       (rbind (require_matching_scope sc intent) (\<lambda>_. rbind (approval_now now) (\<lambda>v.
          rbind (approval_digests key sc i) (\<lambda>k. rbind (bind_number v) (\<lambda>t.
            consume_rows rows k i (\<lambda>stored. same_intent (scoped_intent_of sc stored) intent) t)))))
       (\<lambda>rows'. scoped_get key rows' sc i now)"

text \<open>Opening a database of the first release drops the columns with the names of the caller.\<close>

definition migrate_approvals ::
  "(string \<times> string, approval_intent) approval_rows \<Rightarrow> scoped_approvals" where
  "migrate_approvals rows = map (\<lambda>(k, r). (k, \<lparr>ap_id = ap_id r, ap_intent = stored_intent (ap_intent r),
     ap_status = ap_status r, ap_created = ap_created r, ap_expires = ap_expires r, ap_decided_at = ap_decided_at r,
     ap_decided_by = ap_decided_by r, ap_consumed_at = ap_consumed_at r\<rparr>)) rows"


section \<open>The lifecycle of a request\<close>

text \<open>
  The specification of both stores: a table grows by pending requests, and every request moves
  along \<open>approval_move\<close>, decided and consumed before it expires.
\<close>

inductive approval_move :: "approval_status \<Rightarrow> approval_status \<Rightarrow> bool" where
  "approval_move Pending Approved"
| "approval_move Pending Denied"
| "approval_move Pending Expired"
| "approval_move Approved Consumed"
| "approval_move Approved Expired"

inductive_simps approval_move_from [simp]:
  "approval_move Pending s" "approval_move Approved s" "approval_move Denied s" "approval_move Consumed s"
  "approval_move Expired s"

lemma approval_final:
  "approval_move\<^sup>*\<^sup>* s t \<Longrightarrow> s \<in> {Denied, Consumed, Expired} \<Longrightarrow> t = s"
  by (induction rule: rtranclp_induct) auto

inductive row_step :: "('k, 'i) approval_rows \<Rightarrow> ('k, 'i) approval_rows \<Rightarrow> bool" where
  row_insert: "k \<notin> fst ` set rows \<Longrightarrow> c < x \<Longrightarrow> row_step rows (rows @ [(k, new_record i intent c x)])"
| row_expire: "row_step rows (expire_rows sel now rows)"
| row_decide: "map_of rows k = Some r \<Longrightarrow> ap_status r = Pending \<Longrightarrow> status \<in> {Approved, Denied} \<Longrightarrow> now < ap_expires r \<Longrightarrow>
    row_step rows (AList.update k
      (r\<lparr>ap_status := status, ap_decided_at := Some now, ap_decided_by := Some who\<rparr>) rows)"
| row_consume: "map_of rows k = Some r \<Longrightarrow> ap_status r = Approved \<Longrightarrow> now < ap_expires r \<Longrightarrow>
    row_step rows (AList.update k (r\<lparr>ap_status := Consumed, ap_consumed_at := Some now\<rparr>) rows)"

definition rows_init :: "('k, 'i) approval_rows \<Rightarrow> bool" where
  "rows_init rows \<longleftrightarrow> rows = []"

definition record_ok :: "'i approval_record \<Rightarrow> bool" where
  "record_ok r \<longleftrightarrow> ap_created r < ap_expires r \<and>
     (ap_status r = Pending \<longrightarrow> ap_decided_at r = None \<and> ap_decided_by r = None) \<and>
     (ap_status r \<in> {Approved, Denied, Consumed} \<longrightarrow> ap_decided_by r \<noteq> None \<and> (\<exists>t. ap_decided_at r = Some t \<and> t < ap_expires r)) \<and>
     (ap_consumed_at r \<noteq> None \<longleftrightarrow> ap_status r = Consumed) \<and>
     (\<forall>t. ap_consumed_at r = Some t \<longrightarrow> t < ap_expires r)"

definition rows_inv :: "('k, 'i) approval_rows \<Rightarrow> bool" where
  "rows_inv rows \<longleftrightarrow> dict_ok rows \<and> (\<forall>k r. map_of rows k = Some r \<longrightarrow> record_ok r)"

definition evolves :: "'i approval_record \<Rightarrow> 'i approval_record \<Rightarrow> bool" where
  "evolves r r' \<longleftrightarrow> ap_id r' = ap_id r \<and> ap_intent r' = ap_intent r \<and> ap_created r' = ap_created r \<and>
     ap_expires r' = ap_expires r \<and> approval_move\<^sup>*\<^sup>* (ap_status r) (ap_status r') \<and>
     (ap_status r \<noteq> Pending \<longrightarrow> ap_decided_by r' = ap_decided_by r \<and> ap_decided_at r' = ap_decided_at r)"

definition rows_evolve :: "('k, 'i) approval_rows \<Rightarrow> ('k, 'i) approval_rows \<Rightarrow> bool" where
  "rows_evolve rows rows' \<longleftrightarrow>
     (\<forall>k r. map_of rows k = Some r \<longrightarrow> (\<exists>r'. map_of rows' k = Some r' \<and> evolves r r'))"

lemma map_of_expire: "map_of (expire_rows sel now rows) k =
    map_option (\<lambda>r. if sel k \<and> ap_status r \<in> {Pending, Approved} \<and> ap_expires r \<le> now
      then r\<lparr>ap_status := Expired\<rparr> else r) (map_of rows k)"
  by (induction rows) (auto simp: expire_rows_def)

lemma expire_keys [simp]: "map fst (expire_rows sel now rows) = map fst rows"
  by (simp add: expire_rows_def comp_def case_prod_beta)

lemma evolves_refl: "evolves r r"
  by (simp add: evolves_def)

lemma final_stays:
  assumes "approval_move\<^sup>*\<^sup>* s t" "s \<noteq> Pending"
  shows "t \<noteq> Pending"
  using assms by (induction rule: rtranclp_induct) (auto elim: approval_move.cases)

lemma evolves_trans: "evolves a b \<Longrightarrow> evolves b c \<Longrightarrow> evolves a c"
  unfolding evolves_def using final_stays [of "ap_status a" "ap_status b"] by (auto dest: rtranclp_trans)

lemma evolves_move:
  assumes "approval_move (ap_status r) s"
  shows "evolves r (r\<lparr>ap_status := s\<rparr>)" "evolves r (r\<lparr>ap_status := s, ap_consumed_at := w\<rparr>)"
    "ap_status r = Pending \<Longrightarrow> evolves r (r\<lparr>ap_status := s, ap_decided_at := d, ap_decided_by := b\<rparr>)"
  using assms by (auto simp: evolves_def)

lemma record_ok_new: "c < x \<Longrightarrow> record_ok (new_record i intent c x)"
  by (simp add: record_ok_def new_record_def)

lemma record_ok_expire: "record_ok r \<Longrightarrow> ap_status r \<in> {Pending, Approved} \<Longrightarrow> record_ok (r\<lparr>ap_status := Expired\<rparr>)"
  by (auto simp: record_ok_def)

lemma record_ok_decide: "record_ok r \<Longrightarrow> ap_status r = Pending \<Longrightarrow> status \<in> {Approved, Denied} \<Longrightarrow> now < ap_expires r \<Longrightarrow>
    record_ok (r\<lparr>ap_status := status, ap_decided_at := Some now, ap_decided_by := Some who\<rparr>)"
  by (auto simp: record_ok_def)

lemma record_ok_consume: "record_ok r \<Longrightarrow> ap_status r = Approved \<Longrightarrow> now < ap_expires r \<Longrightarrow>
    record_ok (r\<lparr>ap_status := Consumed, ap_consumed_at := Some now\<rparr>)"
  by (auto simp: record_ok_def)

lemma rows_inv_lookup: "rows_inv rows \<Longrightarrow> map_of rows k = Some r \<Longrightarrow> record_ok r"
  by (simp add: rows_inv_def)

lemma rows_inv_update: "rows_inv rows \<Longrightarrow> record_ok r \<Longrightarrow> rows_inv (AList.update k r rows)"
  by (simp add: rows_inv_def)

lemma rows_inv_expire: "rows_inv rows \<Longrightarrow> rows_inv (expire_rows sel now rows)"
  by (auto simp: rows_inv_def map_of_expire record_ok_expire simp del: map_of_eq_Some_iff)

lemma rows_inv_insert: "rows_inv rows \<Longrightarrow> record_ok r \<Longrightarrow> k \<notin> fst ` set rows \<Longrightarrow> rows_inv (rows @ [(k, r)])"
  by (auto simp: rows_inv_def map_add_def simp del: map_of_eq_Some_iff split: option.splits if_splits)

lemma row_step_inv: "row_step rows rows' \<Longrightarrow> rows_inv rows \<Longrightarrow> rows_inv rows'"
  by (induction rule: row_step.induct)
    (blast intro: rows_inv_update rows_inv_expire rows_inv_insert record_ok_new record_ok_decide record_ok_consume
      dest: rows_inv_lookup)+

lemma rows_evolve_update: "map_of rows k = Some r \<Longrightarrow> evolves r r' \<Longrightarrow> rows_evolve rows (AList.update k r' rows)"
  by (simp add: rows_evolve_def evolves_refl del: map_of_eq_Some_iff)

lemma row_step_evolve: "row_step rows rows' \<Longrightarrow> rows_evolve rows rows'"
proof (induction rule: row_step.induct)
  case (row_insert k rows c x i intent)
  then show ?case
    by (auto simp: rows_evolve_def map_add_def evolves_refl split: option.split simp del: map_of_eq_Some_iff dest: map_of_SomeD)
next
  case (row_expire rows sel now)
  then show ?case
    by (auto simp: rows_evolve_def map_of_expire evolves_refl evolves_move simp del: map_of_eq_Some_iff)
qed (auto intro!: rows_evolve_update evolves_move)

lemma rows_evolve_refl: "rows_evolve rows rows"
  by (simp add: rows_evolve_def evolves_refl)

lemma rows_evolve_trans: "rows_evolve a b \<Longrightarrow> rows_evolve b c \<Longrightarrow> rows_evolve a c"
  unfolding rows_evolve_def using evolves_trans by metis

interpretation lifecycle: monotone_system rows_init row_step rows_inv rows_evolve
proof (unfold_locales, goal_cases)
  case (1 rows)
  then show ?case by (simp add: rows_init_def rows_inv_def)
next
  case 2
  then show ?case by (blast intro: row_step_inv)
next
  case 3
  show ?case by (rule rows_evolve_refl)
next
  case 4
  then show ?case by (rule rows_evolve_trans)
next
  case 5
  then show ?case by (blast intro: row_step_evolve)
qed

section \<open>Both stores follow the lifecycle\<close>

lemma expire_steps: "row_step\<^sup>*\<^sup>* rows (expire_rows sel now rows)"
  by (rule r_into_rtranclp, rule row_expire)

lemma get_row_steps: "row_step\<^sup>*\<^sup>* rows (snd (get_row rows k i now))"
  by (simp add: get_row_def Let_def expire_steps)

lemma insert_row_steps: "insert_row rows k (new_record i intent c x) = Inr rows' \<Longrightarrow> c < x \<Longrightarrow> row_step\<^sup>*\<^sup>* rows rows'"
  by (auto simp: insert_row_def split: if_splits intro: row_insert)

lemma expired_lookup:
  assumes "map_of (expire_rows sel now rows) k = Some r" "sel k" "ap_status r \<in> {Pending, Approved}"
  shows "map_of rows k = Some r \<and> now < ap_expires r"
proof -
  obtain r0 where r0: "map_of rows k = Some r0"
    and r: "r = (if ap_status r0 \<in> {Pending, Approved} \<and> ap_expires r0 \<le> now then r0\<lparr>ap_status := Expired\<rparr> else r0)"
    using assms(1,2) unfolding map_of_expire by auto
  from r assms(3) have "r = r0 \<and> \<not> ap_expires r0 \<le> now" by (auto split: if_splits)
  with r0 show ?thesis by simp
qed

lemma decide_rows_cases:
  assumes "decide_rows code rows k i status who now = Inr rows'"
  obtains r where "map_of rows k = Some r" "ap_status r = Pending" "now < ap_expires r"
    "rows' = AList.update k (r\<lparr>ap_status := status, ap_decided_at := Some now, ap_decided_by := Some who\<rparr>)
       (expire_rows (\<lambda>k'. k' = k) now rows)"
    "map_of (expire_rows (\<lambda>k'. k' = k) now rows) k = Some r"
  using assms expired_lookup [of "\<lambda>k'. k' = k" now rows k]
  by (auto simp: decide_rows_def Let_def simp del: map_of_eq_Some_iff split: option.splits if_splits)

lemma decide_rows_steps:
  assumes "decide_rows code rows k i status who now = Inr rows'" "status \<in> {Approved, Denied}"
  shows "row_step\<^sup>*\<^sup>* rows rows'"
  using assms(1)
  by (rule decide_rows_cases) (auto intro!: rtranclp.rtrancl_into_rtrancl [OF expire_steps] row_decide assms(2)
      simp del: map_of_eq_Some_iff)

lemma consume_refusal_None [simp]: "consume_refusal s = None \<longleftrightarrow> s = Approved"
  by (cases s) auto

lemma consume_rows_cases:
  assumes "consume_rows rows k i matches now = Inr rows'"
  obtains r where "map_of rows k = Some r" "ap_status r = Approved" "now < ap_expires r" "matches (ap_intent r)"
    "rows' = AList.update k (r\<lparr>ap_status := Consumed, ap_consumed_at := Some now\<rparr>)
       (expire_rows (\<lambda>k'. k' = k) now rows)"
    "map_of (expire_rows (\<lambda>k'. k' = k) now rows) k = Some r"
  using assms expired_lookup [of "\<lambda>k'. k' = k" now rows k]
  by (auto simp: consume_rows_def Let_def simp del: map_of_eq_Some_iff split: option.splits if_splits)

lemma consume_rows_steps:
  assumes "consume_rows rows k i matches now = Inr rows'"
  shows "row_step\<^sup>*\<^sup>* rows rows'"
  using assms
  by (rule consume_rows_cases) (auto intro!: rtranclp.rtrancl_into_rtrancl [OF expire_steps] row_consume
      simp del: map_of_eq_Some_iff)

lemma commit_steps:
  assumes "\<And>rows'. r = Inr rows' \<Longrightarrow> row_step\<^sup>*\<^sup>* rows rows'" "\<And>rows'. row_step\<^sup>*\<^sup>* rows' (snd (k rows'))"
  shows "row_step\<^sup>*\<^sup>* rows (snd (commit_rows rows r k))"
  using assms by (auto simp: commit_rows_def intro: rtranclp_trans split: sum.split)

lemma read_row_snd [simp]: "snd (read_row k rows) = rows"
  by (simp add: read_row_def)

lemma ttl_positive:
  assumes "approval_ttl ttl = Inr d" "approval_now now = Inr v" "bind_number v = Inr t" "bind_number (add_numbers v d) = Inr x"
  shows "t < x"
  using assms
  by (cases v; cases d) (auto simp: approval_ttl_def rbind_eq_Inr split: if_splits)

datatype approval_call =
    Request tenant_scope approval_intent pyval "string option" string pyval
  | Get tenant_scope string pyval
  | ListAll tenant_scope "string option" int pyval
  | Approve tenant_scope string string pyval
  | Deny tenant_scope string string pyval
  | ApproveAs tenant_scope tenant_scope string pyval
  | DenyAs tenant_scope tenant_scope string pyval
  | Consume tenant_scope string approval_intent pyval

fun approval_run :: "nat list \<Rightarrow> approval_call \<Rightarrow> scoped_approvals \<Rightarrow> approval list result \<times> scoped_approvals" where
  "approval_run key (Request sc intent ttl given fresh now) rows =
     apfst (map_sum id (\<lambda>r. [r])) (scoped_request key rows sc intent ttl given fresh now)"
| "approval_run key (Get sc i now) rows = apfst (map_sum id (\<lambda>r. [r])) (scoped_get key rows sc i now)"
| "approval_run key (ListAll sc status limit now) rows = scoped_list key rows sc status limit now"
| "approval_run key (Approve sc i who now) rows =
     apfst (map_sum id (\<lambda>r. [r])) (scoped_decide key rows sc i Approved who now)"
| "approval_run key (Deny sc i who now) rows =
     apfst (map_sum id (\<lambda>r. [r])) (scoped_decide key rows sc i Denied who now)"
| "approval_run key (ApproveAs sc approver i now) rows =
     apfst (map_sum id (\<lambda>r. [r])) (scoped_decide_as key rows sc approver i Approved now)"
| "approval_run key (DenyAs sc approver i now) rows =
     apfst (map_sum id (\<lambda>r. [r])) (scoped_decide_as key rows sc approver i Denied now)"
| "approval_run key (Consume sc i intent now) rows =
     apfst (map_sum id (\<lambda>r. [r])) (scoped_consume key rows sc i intent now)"

lemma scoped_get_steps: "row_step\<^sup>*\<^sup>* rows (snd (scoped_get key rows sc i now))"
  by (simp add: scoped_get_def get_row_steps split: sum.split)

lemma scoped_decide_steps:
  "status \<in> {Approved, Denied} \<Longrightarrow> row_step\<^sup>*\<^sup>* rows (snd (scoped_decide key rows sc i status who now))"
  unfolding scoped_decide_def
  by (rule commit_steps) (auto simp: rbind_eq_Inr scoped_get_steps intro: decide_rows_steps split: if_splits)

lemma scoped_consume_steps: "row_step\<^sup>*\<^sup>* rows (snd (scoped_consume key rows sc i intent now))"
  unfolding scoped_consume_def
  by (rule commit_steps) (auto simp: rbind_eq_Inr scoped_get_steps intro: consume_rows_steps)

lemma scoped_request_steps: "row_step\<^sup>*\<^sup>* rows (snd (scoped_request key rows sc intent ttl given fresh now))"
  unfolding scoped_request_def Let_def
  by (rule commit_steps) (auto simp: rbind_eq_Inr scoped_get_steps intro: insert_row_steps ttl_positive)

lemma approval_run_steps: "row_step\<^sup>*\<^sup>* rows (snd (approval_run key c rows))"
  by (cases c) (auto simp: scoped_request_steps scoped_get_steps scoped_decide_steps scoped_consume_steps
      scoped_decide_as_def scoped_list_def Let_def expire_steps split: sum.split)

lemma approval_history_steps: "row_step\<^sup>*\<^sup>* rows (run_all (approval_run key) cs rows)"
  by (induction cs arbitrary: rows) (auto intro: rtranclp_trans approval_run_steps)

lemma unscoped_steps:
  "row_step\<^sup>*\<^sup>* rows (snd (approval_get rows i now))"
  "row_step\<^sup>*\<^sup>* rows (snd (approval_request rows intent ttl given fresh now))"
  "row_step\<^sup>*\<^sup>* rows (snd (approval_list rows status limit now))"
  "row_step\<^sup>*\<^sup>* rows (snd (approval_approve rows i who now))"
  "row_step\<^sup>*\<^sup>* rows (snd (approval_deny rows i who now))"
  "row_step\<^sup>*\<^sup>* rows (snd (approval_consume rows i intent now))"
proof -
  show get: "row_step\<^sup>*\<^sup>* rows (snd (approval_get rows i now))" for rows :: approval_store and i now
    by (simp add: approval_get_def get_row_steps split: sum.split)
  show "row_step\<^sup>*\<^sup>* rows (snd (approval_request rows intent ttl given fresh now))"
    unfolding approval_request_def Let_def
    by (rule commit_steps) (auto simp: rbind_eq_Inr get intro: insert_row_steps ttl_positive)
  show "row_step\<^sup>*\<^sup>* rows (snd (approval_approve rows i who now))" "row_step\<^sup>*\<^sup>* rows (snd (approval_deny rows i who now))"
    unfolding approval_approve_def approval_deny_def approval_decide_def
    by (rule commit_steps; auto simp: rbind_eq_Inr intro: decide_rows_steps split: if_splits)+
  show "row_step\<^sup>*\<^sup>* rows (snd (approval_consume rows i intent now))"
    unfolding approval_consume_def
    by (rule commit_steps) (auto simp: rbind_eq_Inr intro: consume_rows_steps)
qed (auto simp: approval_list_def Let_def expire_steps split: sum.split)

section \<open>Where a record comes from\<close>















lemma run_all_append: "run_all run (xs @ ys) s = run_all run ys (run_all run xs s)"
  by (induction xs arbitrary: s) auto

lemma history_inv: "rows_inv (run_all (approval_run key) cs [])"
  by (rule lifecycle.run_inv [OF _ approval_history_steps]) (simp add: rows_inv_def)

text \<open>A successful consumption: the row was approved, unexpired and matched, and is consumed after it.\<close>

lemma scoped_consume_cases:
  assumes "scoped_consume key rows sc i intent now = (Inr rec, rows')"
  obtains k r t where "require_matching_scope sc intent = Inr ()" "approval_digests key sc i = Inr k"
    "clock now = Inr t" "map_of rows k = Some r" "ap_status r = Approved" "t < ap_expires r"
    "same_intent (scoped_intent_of sc (ap_intent r)) intent"
    "map_of rows' k = Some (r\<lparr>ap_status := Consumed, ap_consumed_at := Some t\<rparr>)"
    "rec = scoped_record sc (r\<lparr>ap_status := Consumed, ap_consumed_at := Some t\<rparr>)"
proof -
  from assms obtain v k t rows1 where 1: "require_matching_scope sc intent = Inr ()" "approval_now now = Inr v"
    "approval_digests key sc i = Inr k" "bind_number v = Inr t"
    and cons: "consume_rows rows k i (\<lambda>stored. same_intent (scoped_intent_of sc stored) intent) t = Inr rows1"
    and get: "scoped_get key rows1 sc i now = (Inr rec, rows')"
    by (auto simp: scoped_consume_def commit_rows_def rbind_eq_Inr split: sum.splits)
  obtain r where r: "map_of rows k = Some r" "ap_status r = Approved" "t < ap_expires r"
    "same_intent (scoped_intent_of sc (ap_intent r)) intent"
    and rows1: "rows1 = AList.update k (r\<lparr>ap_status := Consumed, ap_consumed_at := Some t\<rparr>)
       (expire_rows (\<lambda>k'. k' = k) t rows)"
    by (rule consume_rows_cases [OF cons])
  let ?r = "r\<lparr>ap_status := Consumed, ap_consumed_at := Some t\<rparr>"
  have "map_of rows1 k = Some ?r" by (simp add: rows1)
  with get 1 have "map_of rows' k = Some ?r \<and> rec = scoped_record sc ?r"
    by (auto simp: scoped_get_def get_row_def Let_def map_of_expire simp del: map_of_eq_Some_iff)
  with 1 r that [of k t r] show ?thesis by (simp add: clock_def)
qed

text \<open>A row that is not approved, or approved and expired, cannot be consumed, and the attempt changes nothing.\<close>

lemma scoped_consume_refused:
  assumes "approval_digests key sc i = Inr k" "map_of rows k = Some r" "ap_status r \<noteq> Approved"
  shows "\<exists>e. scoped_consume key rows sc i intent now = (Inl e, rows)"
proof (cases "scoped_consume key rows sc i intent now")
  case (Pair res rows')
  show ?thesis
  proof (cases res)
    case (Inr rec)
    with Pair scoped_consume_cases [of key rows sc i intent now rec rows'] assms show ?thesis by (metis option.inject sum.inject(2))
  next
    case (Inl e)
    have no_row: "consume_rows rows k i m t \<noteq> Inr rows1" for m t rows1
      using consume_rows_cases [of rows k i m t rows1] assms(2,3) by (metis option.inject)
    then have "\<exists>e. rbind (require_matching_scope sc intent) (\<lambda>_. rbind (approval_now now) (\<lambda>v.
          rbind (approval_digests key sc i) (\<lambda>k. rbind (bind_number v) (\<lambda>t.
            consume_rows rows k i (\<lambda>stored. same_intent (scoped_intent_of sc stored) intent) t)))) = Inl e"
      by (auto simp: rbind_def assms(1) split: sum.split) (metis sum.exhaust)
    then show ?thesis by (auto simp: scoped_consume_def commit_rows_def)
  qed
qed

lemma scoped_record_simps [simp]:
  "ap_id (scoped_record sc r) = ap_id r" "ap_status (scoped_record sc r) = ap_status r"
  "ap_expires (scoped_record sc r) = ap_expires r" "ap_decided_by (scoped_record sc r) = ap_decided_by r"
  "ap_consumed_at (scoped_record sc r) = ap_consumed_at r"
  by (simp_all add: scoped_record_def)


section \<open>Properties\<close>

text \<open>One request by a scope, approved by another principal of its tenant.\<close>

definition example_key :: "nat list" where
  "example_key = replicate 32 7"

definition requester :: tenant_scope where
  "requester = \<lparr>tn_tenant = ''acme'', tn_principal = ''ann'', tn_session = ''s1'', tn_task = ''t1''\<rparr>"

definition approver :: tenant_scope where
  "approver = \<lparr>tn_tenant = ''acme'', tn_principal = ''bob'', tn_session = ''s2'', tn_task = ''t2''\<rparr>"

definition example_intent :: approval_intent where
  "example_intent = \<lparr>in_revision = ''r1'', in_operation = ''delete'', in_arguments = replicate 64 (CHR ''a''),
     in_tenant = ''acme'', in_principal = ''ann'', in_session = ''s1'', in_task = ''t1'',
     in_side_effect = ''destructive'', in_policy = ''p1''\<rparr>"

definition example_row_key :: "string \<times> string" where
  "example_row_key = (let d = tenant_digest example_key requester
     in (d, hmac_hex example_key (approval_domain @ utf8 d @ utf8 ''a1'')))"

definition example_calls :: "approval_call list" where
  "example_calls = [Request requester example_intent (PyInt 60) (Some ''a1'') [] (PyInt 0),
     ApproveAs requester approver ''a1'' (PyInt 10)]"

definition approved_record :: "scoped_intent approval_record" where
  "approved_record = \<lparr>ap_id = ''a1'', ap_intent = stored_intent example_intent, ap_status = Approved, ap_created = 0,
     ap_expires = 60, ap_decided_at = Some 10, ap_decided_by = Some ''bob'', ap_consumed_at = None\<rparr>"

lemma example_digests: "approval_digests example_key requester ''a1'' = Inr example_row_key"
  by (simp add: approval_digests_def example_row_key_def Let_def)

lemmas approval_simps = commit_rows_def rbind_def approval_identifier_def approval_now_def approval_ttl_def
  clock_def insert_row_def new_record_def get_row_def expire_rows_def decide_rows_def consume_rows_def Let_def

lemma example_scope_matches: "require_matching_scope requester example_intent = Inr ()"
  by (simp add: require_matching_scope_def requester_def example_intent_def)

lemma example_requested: "scoped_request example_key [] requester example_intent (PyInt 60) (Some ''a1'') [] (PyInt 0) =
  (Inr (scoped_record requester (new_record ''a1'' (stored_intent example_intent) 0 60)),
   [(example_row_key, new_record ''a1'' (stored_intent example_intent) 0 60)])"
  by (simp add: scoped_request_def scoped_get_def example_digests example_scope_matches approval_simps)

lemma example_approver: "tn_tenant requester = tn_tenant approver" "tn_principal approver = ''bob''"
  by (simp_all add: requester_def approver_def)

lemma example_approved: "run_all (approval_run example_key) example_calls [] = [(example_row_key, approved_record)]"
  by (simp add: example_calls_def example_requested scoped_decide_as_def scoped_decide_def scoped_get_def
      example_digests approved_record_def example_approver approval_simps)

lemma example_matches: "same_intent (scoped_intent_of requester (ap_intent approved_record)) example_intent"
  by (simp add: same_intent_def approved_record_def scoped_intent_of_def stored_intent_def requester_def example_intent_def)

lemma example_consumed: "scoped_consume example_key (run_all (approval_run example_key) example_calls []) requester ''a1''
    example_intent (PyInt 20) =
  (Inr (scoped_record requester (approved_record\<lparr>ap_status := Consumed, ap_consumed_at := Some 20\<rparr>)),
   [(example_row_key, approved_record\<lparr>ap_status := Consumed, ap_consumed_at := Some 20\<rparr>)])"
  unfolding example_approved
  by (simp add: scoped_consume_def scoped_get_def example_digests example_scope_matches example_matches
      approved_record_def [THEN arg_cong [where f = ap_status]] approved_record_def [THEN arg_cong [where f = ap_expires]]
      approval_simps)

text \<open>
  The store does not tell the approver from the requester: a scope that names itself as the approver
  approves its own request.
\<close>

theorem requester_can_approve:
  "snd (approval_run example_key (ApproveAs requester requester ''a1'' (PyInt 10))
     [(example_row_key, new_record ''a1'' (stored_intent example_intent) 0 60)]) =
   [(example_row_key, approved_record\<lparr>ap_decided_by := Some ''ann''\<rparr>)]"
  by (simp add: scoped_decide_as_def scoped_decide_def scoped_get_def example_digests approved_record_def
      requester_def [THEN arg_cong [where f = tn_principal]] approval_simps)

text \<open>
  Approvals follow one lifecycle: from any reachable table, whatever is called later, a request
  stays in the table with the same intent and the same expiry, and its status only moves from
  pending to approved, denied or expired and from approved to consumed or expired. It is decided and
  consumed before it expires.
\<close>

theorem approvals_follow_lifecycle:
  assumes "map_of (run_all (approval_run key) before []) k = Some r"
  shows "\<exists>r'. map_of (run_all (approval_run key) (before @ after) []) k = Some r' \<and>
    ap_intent r' = ap_intent r \<and> ap_expires r' = ap_expires r \<and>
    approval_move\<^sup>*\<^sup>* (ap_status r) (ap_status r') \<and> record_ok r'"
proof -
  have "rows_evolve (run_all (approval_run key) before []) (run_all (approval_run key) (before @ after) [])"
    unfolding run_all_append by (rule lifecycle.run_progress [OF history_inv approval_history_steps])
  with assms obtain r' where r': "map_of (run_all (approval_run key) (before @ after) []) k = Some r'" "evolves r r'"
    unfolding rows_evolve_def by blast
  have "record_ok r'" by (rule rows_inv_lookup [OF history_inv r'(1)])
  with r' show ?thesis unfolding evolves_def by blast
qed

theorem approvals_follow_lifecycle_witness:
  "\<exists>r'. map_of (run_all (approval_run example_key) (example_calls @ [Consume requester ''a1'' example_intent (PyInt 20)]) [])
      example_row_key = Some r' \<and> approval_move\<^sup>*\<^sup>* Approved (ap_status r')"
  using approvals_follow_lifecycle [of example_key example_calls example_row_key approved_record
      "[Consume requester ''a1'' example_intent (PyInt 20)]"]
  by (auto simp: example_approved approved_record_def)

text \<open>
  C16. An approval is consumed at most once: after a successful consumption, and whatever is called
  then, every further consumption of the same approval is refused and changes nothing.
\<close>

theorem approval_consumed_once:
  assumes "scoped_consume key (run_all (approval_run key) before []) sc i intent now = (Inr rec, rows)"
  shows "\<exists>e. scoped_consume key (run_all (approval_run key) after rows) sc i other later =
    (Inl e, run_all (approval_run key) after rows)"
proof -
  obtain k r t where k: "approval_digests key sc i = Inr k"
    and r: "map_of rows k = Some (r\<lparr>ap_status := Consumed, ap_consumed_at := Some t\<rparr>)"
    by (rule scoped_consume_cases [OF assms])
  have "row_step\<^sup>*\<^sup>* (run_all (approval_run key) before []) rows"
    using scoped_consume_steps [of "run_all (approval_run key) before []" key sc i intent now] assms by simp
  then have "rows_inv rows" by (rule lifecycle.run_inv [OF history_inv])
  then have "rows_evolve rows (run_all (approval_run key) after rows)"
    by (rule lifecycle.run_progress [OF _ approval_history_steps])
  with r obtain r' where r': "map_of (run_all (approval_run key) after rows) k = Some r'"
    "evolves (r\<lparr>ap_status := Consumed, ap_consumed_at := Some t\<rparr>) r'"
    unfolding rows_evolve_def by blast
  then have "approval_move\<^sup>*\<^sup>* Consumed (ap_status r')" by (simp add: evolves_def)
  from approval_final [OF this] have "ap_status r' \<noteq> Approved" by simp
  with k r'(1) show ?thesis by (rule scoped_consume_refused)
qed

theorem approval_consumed_once_witness:
  "\<exists>e. scoped_consume example_key
     (run_all (approval_run example_key) [Get requester ''a1'' (PyInt 21)]
        [(example_row_key, approved_record\<lparr>ap_status := Consumed, ap_consumed_at := Some 20\<rparr>)])
     requester ''a1'' example_intent (PyInt 22) =
   (Inl e, run_all (approval_run example_key) [Get requester ''a1'' (PyInt 21)]
      [(example_row_key, approved_record\<lparr>ap_status := Consumed, ap_consumed_at := Some 20\<rparr>)])"
  by (rule approval_consumed_once [OF example_consumed])



section \<open>Scopes do not see each other's approvals\<close>

fun approval_owner :: "nat list \<Rightarrow> approval_call \<Rightarrow> string" where
  "approval_owner key (Request sc intent ttl given fresh now) = tenant_digest key sc"
| "approval_owner key (Get sc i now) = tenant_digest key sc"
| "approval_owner key (ListAll sc status limit now) = tenant_digest key sc"
| "approval_owner key (Approve sc i who now) = tenant_digest key sc"
| "approval_owner key (Deny sc i who now) = tenant_digest key sc"
| "approval_owner key (ApproveAs sc other i now) = tenant_digest key sc"
| "approval_owner key (DenyAs sc other i now) = tenant_digest key sc"
| "approval_owner key (Consume sc i intent now) = tenant_digest key sc"

lemma part_expire: "part d (expire_rows sel now rows) = expire_rows sel now (part d rows)"
  by (simp add: part_def expire_rows_def filter_map comp_def case_prod_beta)

lemma expire_other:
  assumes "\<And>k. sel k \<Longrightarrow> fst k \<noteq> d"
  shows "expire_rows sel now (part d rows) = part d rows"
  unfolding expire_rows_def
proof (rule map_idI)
  fix p
  assume "p \<in> set (part d rows)"
  then have "\<not> sel (fst p)" using assms [of "fst p"] by (auto simp: part_def)
  then show "(case p of (k, r) \<Rightarrow> (k, if sel k \<and> ap_status r \<in> {Pending, Approved} \<and> ap_expires r \<le> now
      then r\<lparr>ap_status := Expired\<rparr> else r)) = p"
    by (cases p) simp
qed

lemma expire_key_other: "fst k \<noteq> d \<Longrightarrow> expire_rows (\<lambda>k'. k' = k) now (part d rows) = part d rows"
  by (rule expire_other) auto

lemma map_of_own: "map_of (part (fst k) rows) k = map_of rows k"
  by (cases k) simp

lemma part_set: "part d (AList.update k v rows) = (if fst k = d then AList.update k v (part d rows) else part d rows)"
  by (cases k) (simp add: part_update)

lemma get_row_part:
  "get_row (part (fst k) rows) k i now = apsnd (part (fst k)) (get_row rows k i now)"
  "fst k \<noteq> d \<Longrightarrow> part d (snd (get_row rows k i now)) = part d rows"
  using map_of_own [of k "expire_rows (\<lambda>k'. k' = k) now rows"]
  by (auto simp: get_row_def Let_def part_expire expire_key_other)

lemma insert_row_part:
  "insert_row (part (fst k) rows) k r = map_sum id (part (fst k)) (insert_row rows k r)"
  "insert_row rows k r = Inr rows' \<Longrightarrow> fst k \<noteq> d \<Longrightarrow> part d rows' = part d rows"
  by (auto simp: insert_row_def part_def split: if_splits)

lemma decide_rows_part:
  "decide_rows code (part (fst k) rows) k i status who now = map_sum id (part (fst k)) (decide_rows code rows k i status who now)"
  "decide_rows code rows k i status who now = Inr rows' \<Longrightarrow> fst k \<noteq> d \<Longrightarrow> part d rows' = part d rows"
  using map_of_own [of k "expire_rows (\<lambda>k'. k' = k) now rows"]
  by (auto simp: decide_rows_def Let_def part_set part_expire expire_key_other split: option.splits if_splits)

lemma consume_rows_part:
  "consume_rows (part (fst k) rows) k i m now = map_sum id (part (fst k)) (consume_rows rows k i m now)"
  "consume_rows rows k i m now = Inr rows' \<Longrightarrow> fst k \<noteq> d \<Longrightarrow> part d rows' = part d rows"
  using map_of_own [of k "expire_rows (\<lambda>k'. k' = k) now rows"]
  by (auto simp: consume_rows_def Let_def part_set part_expire expire_key_other split: option.splits if_splits)

lemma commit_part:
  assumes "r' = map_sum id (part d) r" "\<And>rows'. k' (part d rows') = apsnd (part d) (k rows')"
  shows "commit_rows (part d rows) r' k' = apsnd (part d) (commit_rows rows r k)"
  using assms by (auto simp: commit_rows_def split: sum.split)

lemma commit_part_other:
  assumes "\<And>rows'. r = Inr rows' \<Longrightarrow> part d rows' = part d rows" "\<And>rows'. part d (snd (k rows')) = part d rows'"
  shows "part d (snd (commit_rows rows r k)) = part d rows"
  using assms by (auto simp: commit_rows_def split: sum.split)

lemma rbind_map_sum: "(\<And>x. f' x = map_sum id g (f x)) \<Longrightarrow> rbind r f' = map_sum id g (rbind r f)"
  by (cases r) auto

lemma digests_owner: "approval_digests key sc i = Inr k \<Longrightarrow> fst k = tenant_digest key sc"
  by (auto simp: approval_digests_def Let_def split: if_splits)

lemma scoped_get_part:
  "scoped_get key (part (tenant_digest key sc) rows) sc i now = apsnd (part (tenant_digest key sc)) (scoped_get key rows sc i now)"
  "tenant_digest key sc \<noteq> d \<Longrightarrow> part d (snd (scoped_get key rows sc i now)) = part d rows"
proof -
  show "scoped_get key (part (tenant_digest key sc) rows) sc i now = apsnd (part (tenant_digest key sc)) (scoped_get key rows sc i now)"
  proof (cases "approval_digests key sc i")
    case (Inr k)
    then show ?thesis
      unfolding digests_owner [OF Inr, symmetric]
      by (auto simp: scoped_get_def rbind_eq_Inr get_row_part(1) [of "(a, b)" for a b, unfolded fst_conv]
          split: sum.split)
  qed (simp add: scoped_get_def rbind_def split: sum.split)
  show "tenant_digest key sc \<noteq> d \<Longrightarrow> part d (snd (scoped_get key rows sc i now)) = part d rows"
    by (auto simp: scoped_get_def rbind_eq_Inr get_row_part(2) dest!: digests_owner split: sum.split)
qed

lemma scoped_request_part:
  "scoped_request key (part (tenant_digest key sc) rows) sc intent ttl given fresh now =
     apsnd (part (tenant_digest key sc)) (scoped_request key rows sc intent ttl given fresh now)"
  "tenant_digest key sc \<noteq> d \<Longrightarrow> part d (snd (scoped_request key rows sc intent ttl given fresh now)) = part d rows"
proof -
  show "scoped_request key (part (tenant_digest key sc) rows) sc intent ttl given fresh now =
     apsnd (part (tenant_digest key sc)) (scoped_request key rows sc intent ttl given fresh now)"
  proof (cases "approval_digests key sc (approval_identifier given fresh)")
    case (Inr k)
    show ?thesis
      unfolding scoped_request_def Let_def Inr rbind_simps
      by (rule commit_part, simp add: insert_row_part rbind_map_sum flip: digests_owner [OF Inr], rule scoped_get_part(1))
  qed (simp add: scoped_request_def commit_rows_def Let_def rbind_def split: sum.split)
  show "part d (snd (scoped_request key rows sc intent ttl given fresh now)) = part d rows" if "tenant_digest key sc \<noteq> d"
    unfolding scoped_request_def Let_def
    by (rule commit_part_other) (use that in \<open>auto simp: scoped_get_part rbind_eq_Inr insert_row_part(2) dest!: digests_owner\<close>)
qed

lemma scoped_decide_part:
  "scoped_decide key (part (tenant_digest key sc) rows) sc i status who now =
     apsnd (part (tenant_digest key sc)) (scoped_decide key rows sc i status who now)"
  "tenant_digest key sc \<noteq> d \<Longrightarrow> part d (snd (scoped_decide key rows sc i status who now)) = part d rows"
proof -
  show "scoped_decide key (part (tenant_digest key sc) rows) sc i status who now =
     apsnd (part (tenant_digest key sc)) (scoped_decide key rows sc i status who now)"
  proof (cases "approval_digests key sc i")
    case (Inr k)
    show ?thesis
      unfolding scoped_decide_def Inr rbind_simps
      by (rule commit_part, simp add: decide_rows_part rbind_map_sum flip: digests_owner [OF Inr], rule scoped_get_part(1))
  qed (simp add: scoped_decide_def commit_rows_def rbind_def split: sum.split)
  show "part d (snd (scoped_decide key rows sc i status who now)) = part d rows" if "tenant_digest key sc \<noteq> d"
    unfolding scoped_decide_def
    by (rule commit_part_other)
      (use that in \<open>auto simp: scoped_get_part rbind_eq_Inr decide_rows_part(2) dest!: digests_owner split: if_splits\<close>)
qed

lemma scoped_consume_part:
  "scoped_consume key (part (tenant_digest key sc) rows) sc i intent now =
     apsnd (part (tenant_digest key sc)) (scoped_consume key rows sc i intent now)"
  "tenant_digest key sc \<noteq> d \<Longrightarrow> part d (snd (scoped_consume key rows sc i intent now)) = part d rows"
proof -
  show "scoped_consume key (part (tenant_digest key sc) rows) sc i intent now =
     apsnd (part (tenant_digest key sc)) (scoped_consume key rows sc i intent now)"
  proof (cases "approval_digests key sc i")
    case (Inr k)
    show ?thesis
      unfolding scoped_consume_def Inr rbind_simps
      by (rule commit_part, simp add: consume_rows_part rbind_map_sum flip: digests_owner [OF Inr], rule scoped_get_part(1))
  qed (simp add: scoped_consume_def commit_rows_def rbind_def split: sum.split)
  show "part d (snd (scoped_consume key rows sc i intent now)) = part d rows" if "tenant_digest key sc \<noteq> d"
    unfolding scoped_consume_def
    by (rule commit_part_other)
      (use that in \<open>auto simp: scoped_get_part rbind_eq_Inr consume_rows_part(2) dest!: digests_owner\<close>)
qed

lemma scoped_list_part:
  "scoped_list key (part (tenant_digest key sc) rows) sc status limit now =
     apsnd (part (tenant_digest key sc)) (scoped_list key rows sc status limit now)"
  "tenant_digest key sc \<noteq> d \<Longrightarrow> part d (snd (scoped_list key rows sc status limit now)) = part d rows"
proof -
  have "list_rows f (\<lambda>k. fst k = e) st n (part e rs) = list_rows f (\<lambda>k. fst k = e) st n rs" for f e st n and rs :: scoped_approvals
    unfolding list_rows_def by (subst filter_part) auto
  then show "scoped_list key (part (tenant_digest key sc) rows) sc status limit now =
     apsnd (part (tenant_digest key sc)) (scoped_list key rows sc status limit now)"
    by (auto simp: scoped_list_def Let_def simp flip: part_expire split: sum.split)
  show "tenant_digest key sc \<noteq> d \<Longrightarrow> part d (snd (scoped_list key rows sc status limit now)) = part d rows"
    by (auto simp: scoped_list_def Let_def part_expire intro!: expire_other split: sum.split)
qed

lemma scoped_decide_as_part:
  "scoped_decide_as key (part (tenant_digest key sc) rows) sc other i status now =
     apsnd (part (tenant_digest key sc)) (scoped_decide_as key rows sc other i status now)"
  "tenant_digest key sc \<noteq> d \<Longrightarrow> part d (snd (scoped_decide_as key rows sc other i status now)) = part d rows"
  by (simp_all add: scoped_decide_as_def scoped_decide_part)

lemmas scoped_parts = scoped_request_part scoped_get_part scoped_list_part scoped_decide_part
  scoped_decide_as_part scoped_consume_part

lemma approval_run_own: "approval_run key c (part (approval_owner key c) rows) =
    (fst (approval_run key c rows), part (approval_owner key c) (snd (approval_run key c rows)))"
  by (cases c) (simp_all add: scoped_parts prod_eq_iff)

lemma approval_run_other: "approval_owner key c \<noteq> d \<Longrightarrow> part d (snd (approval_run key c rows)) = part d rows"
  by (cases c) (simp_all add: scoped_parts)

interpretation approvals: partitioned "approval_run key" "approval_owner key" part for key
  by unfold_locales (simp_all add: approval_run_own approval_run_other)

text \<open>
  What a scope reads and decides about approvals is independent of all other scopes: in any
  interleaving, its calls get the answers, and its rows the contents, that its calls alone produce.
\<close>

theorem approvals_do_not_interfere:
  "answers (approval_run key) (\<lambda>c. approval_owner key c = d) calls rows =
     answers (approval_run key) (\<lambda>c. True) (filter (\<lambda>c. approval_owner key c = d) calls) rows \<and>
   part d (run_all (approval_run key) calls rows) =
     part d (run_all (approval_run key) (filter (\<lambda>c. approval_owner key c = d) calls) rows)"
  by (rule approvals.own_answers) simp

end
