(* ===== verification/Residency.thy ===== *)
theory Residency
  imports Hub_Prelude
begin

text \<open>
  The bounded inventory of disclosed context, \<open>src/src/capabilityhub/residency.py\<close>:
  \<open>ContextInventory\<close> tracks which sections a model context holds and evicts the cheapest
  unpinned ones when the token limit is exceeded.
\<close>

section \<open>Float division\<close>

text \<open>
  \<open>/\<close> on Python integers returns the double nearest to the exact quotient (ties to even).
  The exponent range is not bounded here: quotients beyond \<open>2\<^sup>1\<^sup>0\<^sup>2\<^sup>4\<close> raise in Python and
  subnormal results lose precision.
\<close>

fun bit_length :: "nat \<Rightarrow> nat" where
  "bit_length n = (if n = 0 then 0 else Suc (bit_length (n div 2)))"

declare bit_length.simps [simp del]

definition round_half_even :: "rat \<Rightarrow> int" where
  "round_half_even x =
     (let f = \<lfloor>x\<rfloor>; r = x - of_int f in
      if r < 1 / 2 then f else if 1 / 2 < r then f + 1 else if even f then f else f + 1)"

definition true_divide :: "int \<Rightarrow> int \<Rightarrow> rat" where
  "true_divide a b =
     (if a = 0 then 0
      else
        let q = \<bar>of_int a / of_int b :: rat\<bar>;
            e0 = int (bit_length (nat \<bar>a\<bar>)) - int (bit_length (nat \<bar>b\<bar>));
            e = (if 2 powi e0 \<le> q then e0 else e0 - 1);
            ulp = 2 powi (e - 52)
        in of_int (sgn a * sgn b) * (of_int (round_half_even (q / ulp)) * ulp))"

section \<open>Data\<close>

record resident_section =
  rs_key :: string
  rs_revision :: string
  rs_section :: string
  rs_tokens :: int
  rs_reload_cost :: int
  rs_reuse_score :: int
  rs_sensitive :: bool
  rs_pinned :: bool
  rs_last_access :: int

record eviction =
  ev_key :: string
  ev_tokens :: int
  ev_reason :: string

text \<open>
  \<open>ContextInventory\<close>; \<open>ci_entries\<close> is the dictionary \<open>_entries\<close> in insertion order. The
  section objects are kept by value: \<open>LocalContextState\<close> clones every section it hands in.
\<close>

record context_inventory =
  ci_max :: int
  ci_entries :: "(string \<times> resident_section) list"
  ci_clock :: int

section \<open>Operations\<close>

definition new_inventory :: "int \<Rightarrow> context_inventory result" where
  "new_inventory limit =
     (if limit \<le> 0 then Inl ValueError
      else Inr \<lparr>ci_max = limit, ci_entries = [], ci_clock = 0\<rparr>)"

definition used_tokens :: "(string \<times> resident_section) list \<Rightarrow> int" where
  "used_tokens es = (\<Sum>e \<leftarrow> es. rs_tokens (snd e))"

text \<open>\<open>entries\<close>: the sections ordered by key.\<close>

definition inventory_entries :: "context_inventory \<Rightarrow> resident_section list" where
  "inventory_entries ci = map snd (sort_key fst (ci_entries ci))"

definition touch :: "context_inventory \<Rightarrow> resident_section \<Rightarrow> resident_section \<times> context_inventory" where
  "touch ci entry =
     (entry\<lparr>rs_last_access := ci_clock ci + 1\<rparr>, ci\<lparr>ci_clock := ci_clock ci + 1\<rparr>)"

definition eviction_order :: "resident_section \<Rightarrow> rat \<times> int \<times> string" where
  "eviction_order e =
     (let sensitivity_penalty = (if rs_sensitive e then 2 else 1);
          value = true_divide (rs_reuse_score e * rs_reload_cost e)
                    (max 1 (rs_tokens e * sensitivity_penalty))
      in (value, rs_last_access e, rs_key e))"

text \<open>\<open>min(candidates, key=..)\<close>: the first element with the least key.\<close>

fun min_by :: "('a \<Rightarrow> 'b::linorder) \<Rightarrow> 'a \<Rightarrow> 'a list \<Rightarrow> 'a" where
  "min_by f best [] = best"
| "min_by f best (x # xs) = min_by f (if f x < f best then x else best) xs"

definition eviction_candidates ::
  "string list \<Rightarrow> (string \<times> resident_section) list \<Rightarrow> resident_section list" where
  "eviction_candidates excluded es =
     filter (\<lambda>e. \<not> rs_pinned e \<and> rs_key e \<notin> set excluded) (map snd es)"

definition context_budget_exhausted :: exn where
  "context_budget_exhausted = HubError ''context_budget_exhausted'' BUDGET False []"

lemma min_by_mem: "min_by f best xs \<in> set (best # xs)"
  by (induction f best xs rule: min_by.induct) auto

lemma min_by_least: "x \<in> set (best # xs) \<Longrightarrow> f (min_by f best xs) \<le> f x"
proof (induction f best xs arbitrary: x rule: min_by.induct)
  case (1 f best)
  then show ?case by simp
next
  case (2 f best y ys)
  let ?b = "if f y < f best then y else best"
  have b: "f (min_by f ?b ys) \<le> f ?b" by (rule "2.IH") simp
  show ?case
  proof (cases "x \<in> set ys")
    case True
    then show ?thesis using "2.IH" [of x] by simp
  next
    case False
    then have "f ?b \<le> f x" using "2.prems" by (auto simp: not_less)
    with b have "f (min_by f ?b ys) \<le> f x" by (rule order_trans)
    then show ?thesis by simp
  qed
qed

lemma length_delete_less: "k \<in> fst ` set d \<Longrightarrow> length (AList.delete k d) < length d"
  using length_filter_less [of _ d "\<lambda>(k', _). k \<noteq> k'"] by (force simp: AList.delete_eq)

text \<open>
  The loop of \<open>_evict_to_limit\<close>. An entry is stored under its own key, so the victim's key is
  in the dictionary and every round shortens it; a victim stored under another key cannot occur
  and stops the loop.
\<close>

function evict_loop ::
  "int \<Rightarrow> string list \<Rightarrow> (string \<times> resident_section) list \<Rightarrow> eviction list \<Rightarrow>
   eviction list result \<times> (string \<times> resident_section) list" where
  "evict_loop limit excluded es evictions =
     (if used_tokens es \<le> limit then (Inr evictions, es)
      else case eviction_candidates excluded es of
        [] \<Rightarrow> (Inl context_budget_exhausted, es)
      | c # cs \<Rightarrow>
          let victim = min_by eviction_order c cs in
          if rs_key victim \<notin> fst ` set es then (Inl KeyError, es)
          else evict_loop limit excluded (AList.delete (rs_key victim) es)
            (evictions @ [\<lparr>ev_key = rs_key victim, ev_tokens = rs_tokens victim,
               ev_reason = ''budget_pressure''\<rparr>]))"
  by pat_completeness auto
termination
  by (relation "measure (\<lambda>(_, _, es, _). length es)") (auto intro: length_delete_less)

declare evict_loop.simps [simp del]

text \<open>
  \<open>add\<close>. On \<open>context_budget_exhausted\<close> the new entry is taken out and an entry it replaced
  is put back; sections evicted before the failure stay evicted.
\<close>

definition inventory_add ::
  "context_inventory \<Rightarrow> resident_section \<Rightarrow> eviction list result \<times> context_inventory" where
  "inventory_add ci entry =
     (if rs_key entry = [] \<or> rs_tokens entry < 0 then (Inl ValueError, ci)
      else
        let previous = map_of (ci_entries ci) (rs_key entry);
            popped = AList.delete (rs_key entry) (ci_entries ci);
            (entry', ci') = touch ci entry;
            (r, es) = evict_loop (ci_max ci) [rs_key entry]
                        (AList.update (rs_key entry) entry' popped) []
        in case r of
          Inr evictions \<Rightarrow> (Inr evictions, ci'\<lparr>ci_entries := es\<rparr>)
        | Inl e \<Rightarrow>
            let dropped = AList.delete (rs_key entry) es;
                restored = (case previous of None \<Rightarrow> dropped
                  | Some p \<Rightarrow> AList.update (rs_key p) p dropped)
            in (Inl e, ci'\<lparr>ci_entries := restored\<rparr>))"

definition inventory_access ::
  "context_inventory \<Rightarrow> string \<Rightarrow> resident_section result \<times> context_inventory" where
  "inventory_access ci key =
     (case map_of (ci_entries ci) key of
        None \<Rightarrow> (Inl KeyError, ci)
      | Some entry \<Rightarrow>
          let (entry', ci') = touch ci entry
          in (Inr entry', ci'\<lparr>ci_entries := AList.update key entry' (ci_entries ci)\<rparr>))"

definition inventory_pin ::
  "context_inventory \<Rightarrow> string \<Rightarrow> bool \<Rightarrow> unit result \<times> context_inventory" where
  "inventory_pin ci key value =
     (case inventory_access ci key of
        (Inl e, ci') \<Rightarrow> (Inl e, ci')
      | (Inr entry, ci') \<Rightarrow>
          (Inr (), ci'\<lparr>ci_entries := AList.update key (entry\<lparr>rs_pinned := value\<rparr>) (ci_entries ci')\<rparr>))"

definition inventory_remove ::
  "context_inventory \<Rightarrow> string \<Rightarrow> eviction result \<times> context_inventory" where
  "inventory_remove ci key =
     (case map_of (ci_entries ci) key of
        None \<Rightarrow> (Inl KeyError, ci)
      | Some entry \<Rightarrow>
          (Inr \<lparr>ev_key = key, ev_tokens = rs_tokens entry, ev_reason = ''explicit''\<rparr>,
           ci\<lparr>ci_entries := AList.delete key (ci_entries ci)\<rparr>))"

section \<open>Well-formed inventories\<close>

definition entries_ok :: "(string \<times> resident_section) list \<Rightarrow> bool" where
  "entries_ok es \<longleftrightarrow> dict_ok es \<and>
     (\<forall>(k, e) \<in> set es. rs_key e = k \<and> k \<noteq> [] \<and> 0 \<le> rs_tokens e)"

definition inventory_inv :: "context_inventory \<Rightarrow> bool" where
  "inventory_inv ci \<longleftrightarrow> 0 < ci_max ci \<and> entries_ok (ci_entries ci) \<and>
     used_tokens (ci_entries ci) \<le> ci_max ci"

lemma used_tokens_simps [simp]:
  "used_tokens [] = 0" "used_tokens (e # es) = rs_tokens (snd e) + used_tokens es"
  "used_tokens (es @ fs) = used_tokens es + used_tokens fs"
  by (simp_all add: used_tokens_def)

lemma used_tokens_split:
  "used_tokens es = used_tokens (filter P es) + used_tokens (filter (\<lambda>x. \<not> P x) es)"
  by (induction es) auto

lemma used_tokens_nonneg: "entries_ok es \<Longrightarrow> 0 \<le> used_tokens es"
  unfolding used_tokens_def by (intro sum_list_nonneg) (auto simp: entries_ok_def)

lemma entries_ok_filter: "entries_ok es \<Longrightarrow> entries_ok (filter P es)"
  by (auto simp: entries_ok_def distinct_map_filter)

lemma entries_ok_delete: "entries_ok es \<Longrightarrow> entries_ok (AList.delete k es)"
  by (auto simp: AList.delete_eq intro: entries_ok_filter)

lemma entries_ok_append:
  "entries_ok es \<Longrightarrow> k \<notin> fst ` set es \<Longrightarrow> rs_key e = k \<Longrightarrow> k \<noteq> [] \<Longrightarrow> 0 \<le> rs_tokens e \<Longrightarrow>
   entries_ok (es @ [(k, e)])"
  by (auto simp: entries_ok_def)

lemma used_tokens_delete:
  "entries_ok es \<Longrightarrow> map_of es k = Some x \<Longrightarrow> used_tokens (AList.delete k es) = used_tokens es - rs_tokens x"
  by (induction es) (auto simp: entries_ok_def)

lemma candidates_iff:
  "entries_ok es \<Longrightarrow> x \<in> set (eviction_candidates excluded es) \<longleftrightarrow>
     map_of es (rs_key x) = Some x \<and> \<not> rs_pinned x \<and> rs_key x \<notin> set excluded"
  by (force simp: eviction_candidates_def entries_ok_def dict_mem_iff [symmetric])

text \<open>
  What the eviction loop does: it removes a set of unpinned sections, each no dearer than any
  unpinned section that stays, and stops either below the limit or with nothing left to evict.
\<close>

definition evicts ::
  "string list \<Rightarrow> (string \<times> resident_section) list \<Rightarrow> eviction list \<Rightarrow>
   (string \<times> resident_section) list \<Rightarrow> bool" where
  "evicts excluded es evs es' \<longleftrightarrow>
     es' = filter (\<lambda>p. fst p \<notin> set (map ev_key evs)) es \<and> distinct (map ev_key evs) \<and>
     (\<forall>ev \<in> set evs. ev_reason ev = ''budget_pressure'' \<and>
        (\<exists>x. map_of es (ev_key ev) = Some x \<and> ev_tokens ev = rs_tokens x \<and> \<not> rs_pinned x \<and>
           ev_key ev \<notin> set excluded \<and>
           (\<forall>y \<in> set (eviction_candidates excluded es'). eviction_order x \<le> eviction_order y)))"

lemma evicts_Cons:
  assumes ok: "entries_ok es" and v: "v \<in> set (eviction_candidates excluded es)"
    and least: "\<forall>y \<in> set (eviction_candidates excluded es). eviction_order v \<le> eviction_order y"
    and rest: "evicts excluded (AList.delete (rs_key v) es) evs es'"
    and ev: "ev_key ev = rs_key v" "ev_tokens ev = rs_tokens v" "ev_reason ev = ''budget_pressure''"
  shows "evicts excluded es (ev # evs) es'"
proof -
  have mv: "map_of es (rs_key v) = Some v" "\<not> rs_pinned v" "rs_key v \<notin> set excluded"
    using v ok by (auto simp: candidates_iff)
  have fresh: "rs_key v \<notin> ev_key ` set evs"
    using rest by (auto simp: evicts_def)
  have sub: "set (eviction_candidates excluded es') \<subseteq> set (eviction_candidates excluded es)"
    using rest by (auto simp: evicts_def eviction_candidates_def AList.delete_eq)
  have es': "es' = filter (\<lambda>p. fst p \<notin> set (map ev_key (ev # evs))) es"
    using rest ev(1) by (auto simp: evicts_def AList.delete_eq intro: filter_cong)
  have "\<exists>x. map_of es (ev_key e) = Some x \<and> ev_tokens e = rs_tokens x \<and> \<not> rs_pinned x \<and>
      ev_key e \<notin> set excluded \<and>
      (\<forall>y \<in> set (eviction_candidates excluded es'). eviction_order x \<le> eviction_order y)"
    if "e \<in> set (ev # evs)" for e
  proof (cases "e = ev")
    case True
    with mv ev least sub show ?thesis by (intro exI [of _ v]) auto
  next
    case False
    with that have "e \<in> set evs" by simp
    with rest obtain x where "map_of (AList.delete (rs_key v) es) (ev_key e) = Some x"
      "ev_tokens e = rs_tokens x" "\<not> rs_pinned x" "ev_key e \<notin> set excluded"
      "\<forall>y \<in> set (eviction_candidates excluded es'). eviction_order x \<le> eviction_order y"
      by (auto simp: evicts_def)
    then show ?thesis by (intro exI [of _ x]) (auto split: if_splits)
  qed
  with es' fresh rest ev show ?thesis by (auto simp: evicts_def)
qed

lemma evict_loop_spec:
  assumes "entries_ok es" "evict_loop limit excluded es evs = (r, es')"
  shows "\<exists>new. evicts excluded es new es' \<and>
    (r = Inr (evs @ new) \<and> used_tokens es' \<le> limit \<or>
     r = Inl context_budget_exhausted \<and> limit < used_tokens es' \<and> eviction_candidates excluded es' = [])"
  using assms
proof (induction limit excluded es evs rule: evict_loop.induct)
  case (1 limit excluded es evs)
  show ?case
  proof (cases "used_tokens es \<le> limit")
    case True
    with "1.prems" show ?thesis
      by (intro exI [of _ "[]"]) (auto simp: evict_loop.simps [of limit] evicts_def)
  next
    case False
    show ?thesis
    proof (cases "eviction_candidates excluded es")
      case Nil
      with False "1.prems" show ?thesis
        by (intro exI [of _ "[]"]) (auto simp: evict_loop.simps [of limit] evicts_def)
    next
      case (Cons c cs)
      define v where "v = min_by eviction_order c cs"
      let ?ev = "\<lparr>ev_key = rs_key v, ev_tokens = rs_tokens v, ev_reason = ''budget_pressure''\<rparr>"
      have v: "v \<in> set (eviction_candidates excluded es)"
        unfolding v_def Cons by (rule min_by_mem)
      have least: "\<forall>y \<in> set (eviction_candidates excluded es). eviction_order v \<le> eviction_order y"
        unfolding v_def Cons by (blast intro: min_by_least)
      have "rs_key v \<in> fst ` set es"
        using v "1.prems"(1) by (auto simp: candidates_iff dest!: map_of_SomeD fst_memI)
      then have step: "evict_loop limit excluded (AList.delete (rs_key v) es) (evs @ [?ev]) = (r, es')"
        using "1.prems"(2) False Cons by (simp add: evict_loop.simps [of limit excluded es] v_def Let_def)
      have "\<exists>new. evicts excluded (AList.delete (rs_key v) es) new es' \<and>
        (r = Inr ((evs @ [?ev]) @ new) \<and> used_tokens es' \<le> limit \<or>
         r = Inl context_budget_exhausted \<and> limit < used_tokens es' \<and> eviction_candidates excluded es' = [])"
        using False Cons v_def \<open>rs_key v \<in> fst ` set es\<close> step entries_ok_delete [OF "1.prems"(1)]
        by (intro "1.IH") auto
      then obtain new where new: "evicts excluded (AList.delete (rs_key v) es) new es'"
        "r = Inr ((evs @ [?ev]) @ new) \<and> used_tokens es' \<le> limit \<or>
         r = Inl context_budget_exhausted \<and> limit < used_tokens es' \<and> eviction_candidates excluded es' = []"
        by blast
      have "evicts excluded es (?ev # new) es'"
        using "1.prems"(1) v least new(1) by (rule evicts_Cons) simp_all
      with new(2) show ?thesis by (intro exI [of _ "?ev # new"]) auto
    qed
  qed
qed

text \<open>Entries the loop may never take: the excluded ones and the pinned ones.\<close>

definition kept :: "string \<Rightarrow> string \<times> resident_section \<Rightarrow> bool" where
  "kept key p \<longleftrightarrow> fst p = key \<or> rs_pinned (snd p)"

lemma evicts_kept:
  assumes "entries_ok es" "evicts [key] es new es'"
  shows "filter (kept key) es' = filter (kept key) es"
proof -
  have "fst p \<notin> set (map ev_key new)" if "p \<in> set es" "kept key p" for p
  proof
    assume "fst p \<in> set (map ev_key new)"
    then obtain ev where ev: "ev \<in> set new" "fst p = ev_key ev" by auto
    with assms(2) obtain x where "map_of es (fst p) = Some x" "\<not> rs_pinned x" "fst p \<noteq> key"
      by (auto simp: evicts_def)
    moreover have "map_of es (fst p) = Some (snd p)"
      using that(1) assms(1) by (simp add: entries_ok_def)
    ultimately show False using that(2) by (simp add: kept_def)
  qed
  then show ?thesis using assms(2) by (auto simp: evicts_def intro!: filter_cong)
qed

lemma evicts_ok: "entries_ok es \<Longrightarrow> evicts excluded es new es' \<Longrightarrow> entries_ok es'"
  by (simp add: evicts_def entries_ok_filter)

lemma no_candidates_kept:
  assumes "entries_ok es" "eviction_candidates [key] es = []"
  shows "filter (kept key) es = es"
  using assms by (force simp: eviction_candidates_def filter_empty_conv filter_id_conv entries_ok_def kept_def)

text \<open>The dictionary the loop of \<open>add\<close> starts from.\<close>

definition staged_entries :: "context_inventory \<Rightarrow> resident_section \<Rightarrow> (string \<times> resident_section) list" where
  "staged_entries ci entry =
     AList.delete (rs_key entry) (ci_entries ci) @
       [(rs_key entry, entry\<lparr>rs_last_access := ci_clock ci + 1\<rparr>)]"

lemma staged_entries_ok:
  assumes "inventory_inv ci" "rs_key entry \<noteq> []" "0 \<le> rs_tokens entry"
  shows "entries_ok (staged_entries ci entry)"
  using assms unfolding staged_entries_def
  by (intro entries_ok_append) (auto simp: inventory_inv_def entries_ok_delete delete_notin_dom)

lemma inventory_add_unfold:
  assumes "rs_key entry \<noteq> []" "0 \<le> rs_tokens entry"
    and "evict_loop (ci_max ci) [rs_key entry] (staged_entries ci entry) [] = (r, es)"
  shows "inventory_add ci entry = (r, ci\<lparr>ci_clock := ci_clock ci + 1, ci_entries :=
     (case r of Inr _ \<Rightarrow> es
      | Inl _ \<Rightarrow> (case map_of (ci_entries ci) (rs_key entry) of
          None \<Rightarrow> AList.delete (rs_key entry) es
        | Some p \<Rightarrow> AList.update (rs_key p) p (AList.delete (rs_key entry) es)))\<rparr>)"
  using assms by (auto simp: inventory_add_def touch_def staged_entries_def update_fresh
      delete_notin_dom Let_def split: sum.splits)

lemma inventory_add_cases:
  assumes ci: "inventory_inv ci" and e: "rs_key entry \<noteq> []" "0 \<le> rs_tokens entry"
  obtains (fits) new es where "inventory_add ci entry = (Inr new, ci\<lparr>ci_clock := ci_clock ci + 1, ci_entries := es\<rparr>)"
      "evicts [rs_key entry] (staged_entries ci entry) new es" "used_tokens es \<le> ci_max ci"
  | (full) new es ci' where "inventory_add ci entry = (Inl context_budget_exhausted, ci')"
      "evicts [rs_key entry] (staged_entries ci entry) new es" "ci_max ci < used_tokens es"
      "filter (kept (rs_key entry)) es = es"
      "ci_entries ci' = (case map_of (ci_entries ci) (rs_key entry) of
          None \<Rightarrow> AList.delete (rs_key entry) es
        | Some p \<Rightarrow> AList.update (rs_key p) p (AList.delete (rs_key entry) es))"
proof -
  obtain r es where loop: "evict_loop (ci_max ci) [rs_key entry] (staged_entries ci entry) [] = (r, es)"
    by fastforce
  note ok = staged_entries_ok [OF ci e]
  from evict_loop_spec [OF ok loop] obtain new where new: "evicts [rs_key entry] (staged_entries ci entry) new es"
    "r = Inr new \<and> used_tokens es \<le> ci_max ci \<or> r = Inl context_budget_exhausted \<and>
     ci_max ci < used_tokens es \<and> eviction_candidates [rs_key entry] es = []"
    by auto
  from new(2) show ?thesis
  proof
    assume "r = Inr new \<and> used_tokens es \<le> ci_max ci"
    with new(1) inventory_add_unfold [OF e loop] show ?thesis by (intro fits) auto
  next
    assume "r = Inl context_budget_exhausted \<and> ci_max ci < used_tokens es \<and>
      eviction_candidates [rs_key entry] es = []"
    with new(1) inventory_add_unfold [OF e loop] no_candidates_kept [OF evicts_ok [OF ok new(1)]]
    show ?thesis by (intro full) auto
  qed
qed

lemma map_of_evicts:
  assumes "entries_ok es" "evicts excluded es new es'"
  shows "map_of es' k = (if k \<in> ev_key ` set new then None else map_of es k)"
proof -
  have eq: "es' = filter (\<lambda>(k, v). k \<notin> set (map ev_key new)) es"
    using assms(2) by (auto simp: evicts_def intro: filter_cong)
  show ?thesis unfolding eq by (induction es) auto
qed

lemma map_of_staged:
  "map_of (staged_entries ci entry) k =
     (if k = rs_key entry then Some (entry\<lparr>rs_last_access := ci_clock ci + 1\<rparr>) else map_of (ci_entries ci) k)"
  by (auto simp: staged_entries_def map_add_def split: option.splits)

lemma used_tokens_staged_kept:
  "used_tokens (filter (kept (rs_key entry)) (staged_entries ci entry)) = rs_tokens entry +
     used_tokens (filter (\<lambda>(k, x). k \<noteq> rs_key entry \<and> rs_pinned x) (ci_entries ci))"
proof -
  have "filter (kept (rs_key entry)) (AList.delete (rs_key entry) (ci_entries ci)) =
      filter (\<lambda>(k, x). k \<noteq> rs_key entry \<and> rs_pinned x) (ci_entries ci)"
    by (auto simp: AList.delete_eq kept_def intro!: filter_cong)
  then show ?thesis by (simp add: staged_entries_def kept_def)
qed

lemma staged_dom:
  assumes "inventory_inv ci" "rs_key entry \<noteq> []" "0 \<le> rs_tokens entry"
    "evicts [rs_key entry] (staged_entries ci entry) new es"
  shows "ev \<in> set new \<Longrightarrow> \<exists>x. map_of (ci_entries ci) (ev_key ev) = Some x \<and>
    ev_tokens ev = rs_tokens x \<and> \<not> rs_pinned x \<and> ev_key ev \<noteq> rs_key entry"
  using assms(4) by (fastforce simp: evicts_def map_of_staged)

section \<open>Properties\<close>

definition example_section :: "string \<Rightarrow> int \<Rightarrow> bool \<Rightarrow> resident_section" where
  "example_section key tokens pinned = \<lparr>rs_key = key, rs_revision = ''r'', rs_section = ''contract'',
     rs_tokens = tokens, rs_reload_cost = 1, rs_reuse_score = 1, rs_sensitive = False,
     rs_pinned = pinned, rs_last_access = 1\<rparr>"

definition example_inventory :: context_inventory where
  "example_inventory = \<lparr>ci_max = 7,
     ci_entries = [(''required'', example_section ''required'' 5 True),
       (''evictable'', example_section ''evictable'' 2 False)], ci_clock = 2\<rparr>"

lemma example_inventory_inv: "inventory_inv example_inventory"
  by (simp add: inventory_inv_def entries_ok_def example_inventory_def example_section_def)

lemmas inventory_eval = example_inventory_def example_section_def inventory_add_def touch_def
  evict_loop.simps eviction_candidates_def Let_def

text \<open>
  A successful \<open>add\<close> keeps the inventory within its token limit, stores the section with
  the newest access time, removes exactly the sections it reports, and never a pinned one.
  Every evicted section ranks no higher than any unpinned section that stays.
\<close>

theorem inventory_add_success:
  assumes "inventory_inv ci" "inventory_add ci entry = (Inr evictions, ci')"
  shows "inventory_inv ci' \<and> used_tokens (ci_entries ci') \<le> ci_max ci \<and>
    (\<forall>k. map_of (ci_entries ci') k =
       (if k = rs_key entry then Some (entry\<lparr>rs_last_access := ci_clock ci + 1\<rparr>)
        else if k \<in> ev_key ` set evictions then None else map_of (ci_entries ci) k)) \<and>
    (\<forall>ev \<in> set evictions. \<exists>x. map_of (ci_entries ci) (ev_key ev) = Some x \<and>
       ev_tokens ev = rs_tokens x \<and> \<not> rs_pinned x \<and> ev_key ev \<noteq> rs_key entry \<and>
       (\<forall>k y. k \<noteq> rs_key entry \<longrightarrow> map_of (ci_entries ci') k = Some y \<longrightarrow> \<not> rs_pinned y \<longrightarrow>
          eviction_order x \<le> eviction_order y))"
proof -
  have e: "rs_key entry \<noteq> []" "0 \<le> rs_tokens entry"
    using assms(2) by (auto simp: inventory_add_def split: if_splits)
  note ok = staged_entries_ok [OF assms(1) e]
  show ?thesis
  proof (cases rule: inventory_add_cases [OF assms(1) e, case_names fits full])
    case (fits new es)
    have ci': "ci' = ci\<lparr>ci_clock := ci_clock ci + 1, ci_entries := es\<rparr>" and new: "new = evictions"
      using fits(1) assms(2) by auto
    note ok' = evicts_ok [OF ok fits(2)]
    have "rs_key entry \<notin> ev_key ` set evictions"
      using staged_dom [OF assms(1) e fits(2)] by (fastforce simp: new)
    then have "map_of es k = (if k = rs_key entry then Some (entry\<lparr>rs_last_access := ci_clock ci + 1\<rparr>)
        else if k \<in> ev_key ` set evictions then None else map_of (ci_entries ci) k)" for k
      using map_of_evicts [OF ok fits(2)] by (simp add: map_of_staged new)
    moreover have "\<exists>x. map_of (ci_entries ci) (ev_key ev) = Some x \<and>
       ev_tokens ev = rs_tokens x \<and> \<not> rs_pinned x \<and> ev_key ev \<noteq> rs_key entry \<and>
       (\<forall>k y. k \<noteq> rs_key entry \<longrightarrow> map_of es k = Some y \<longrightarrow> \<not> rs_pinned y \<longrightarrow>
          eviction_order x \<le> eviction_order y)" if ev: "ev \<in> set evictions" for ev
    proof -
      obtain x where x: "map_of (staged_entries ci entry) (ev_key ev) = Some x" "ev_tokens ev = rs_tokens x"
        "\<not> rs_pinned x" "ev_key ev \<noteq> rs_key entry"
        "\<forall>y \<in> set (eviction_candidates [rs_key entry] es). eviction_order x \<le> eviction_order y"
        using fits(2) ev by (force simp: evicts_def new)
      have "y \<in> set (eviction_candidates [rs_key entry] es)"
        if "k \<noteq> rs_key entry" "map_of es k = Some y" "\<not> rs_pinned y" for k y
      proof -
        have "rs_key y = k" using that(2) ok' by (auto simp: entries_ok_def dest: map_of_SomeD)
        with that show ?thesis using ok' by (simp add: candidates_iff)
      qed
      with x show ?thesis by (intro exI [of _ x]) (auto simp: map_of_staged)
    qed
    ultimately show ?thesis
      using assms(1) fits(3) ok' by (auto simp: ci' inventory_inv_def)
  next
    case (full new es ci'')
    with assms(2) show ?thesis by simp
  qed
qed

theorem inventory_add_success_witness:
  "\<exists>ci'. inventory_add example_inventory (example_section ''new'' 1 False) = (Inr [\<lparr>ev_key = ''evictable'',
       ev_tokens = 2, ev_reason = ''budget_pressure''\<rparr>], ci') \<and>
     used_tokens (ci_entries ci') \<le> 7 \<and> map_of (ci_entries ci') ''evictable'' = None"
proof -
  obtain ci' where add: "inventory_add example_inventory (example_section ''new'' 1 False) =
      (Inr [\<lparr>ev_key = ''evictable'', ev_tokens = 2, ev_reason = ''budget_pressure''\<rparr>], ci')"
    by (simp add: inventory_eval)
  with inventory_add_success [OF example_inventory_inv add] show ?thesis
    by (auto simp: example_inventory_def example_section_def)
qed

text \<open>
  \<open>add\<close> succeeds exactly when the new section and the other pinned sections fit the limit
  together; otherwise it raises \<open>context_budget_exhausted\<close>.
\<close>

theorem inventory_add_fits_iff:
  assumes "inventory_inv ci" "rs_key entry \<noteq> []" "0 \<le> rs_tokens entry"
  shows "if rs_tokens entry +
        used_tokens (filter (\<lambda>(k, x). k \<noteq> rs_key entry \<and> rs_pinned x) (ci_entries ci)) \<le> ci_max ci
      then isl (fst (inventory_add ci entry)) = False
      else fst (inventory_add ci entry) = Inl context_budget_exhausted"
proof -
  note ok = staged_entries_ok [OF assms]
  let ?K = "kept (rs_key entry)"
  show ?thesis
  proof (cases rule: inventory_add_cases [OF assms, case_names fits full])
    case (fits new es)
    note ok' = evicts_ok [OF ok fits(2)]
    have "used_tokens (filter ?K (staged_entries ci entry)) \<le> used_tokens es"
      using used_tokens_split [of es ?K] used_tokens_nonneg [OF entries_ok_filter [OF ok', of "\<lambda>x. \<not> ?K x"]]
      by (simp add: evicts_kept [OF ok fits(2), symmetric])
    with fits(1,3) show ?thesis by (simp add: used_tokens_staged_kept)
  next
    case (full new es ci')
    have "used_tokens es = used_tokens (filter ?K (staged_entries ci entry))"
      using full(4) by (simp add: evicts_kept [OF ok full(2), symmetric])
    with full(1,3) show ?thesis by (simp add: used_tokens_staged_kept)
  qed
qed

theorem inventory_add_fits_iff_witness:
  "fst (inventory_add example_inventory (example_section ''also'' 3 True)) = Inl context_budget_exhausted"
  using inventory_add_fits_iff [OF example_inventory_inv, of "example_section ''also'' 3 True"]
  by (simp add: example_inventory_def example_section_def)

text \<open>
  A failing \<open>add\<close> of \<open>ContextInventory\<close> is not rolled back completely: it takes the new
  section out again and restores the one it replaced, but every other unpinned section has been
  evicted and stays lost, without being reported.
\<close>

theorem inventory_add_failure_loses_sections:
  assumes "inventory_inv ci" "inventory_add ci entry = (Inl context_budget_exhausted, ci')"
    and "map_of (ci_entries ci) k = Some x" "\<not> rs_pinned x" "k \<noteq> rs_key entry"
  shows "map_of (ci_entries ci') k = None"
proof -
  have e: "rs_key entry \<noteq> []" "0 \<le> rs_tokens entry"
    using assms(2) by (auto simp: inventory_add_def context_budget_exhausted_def split: if_splits)
  note ok = staged_entries_ok [OF assms(1) e]
  show ?thesis
  proof (cases rule: inventory_add_cases [OF assms(1) e, case_names fits full])
    case (fits new es)
    with assms(2) show ?thesis by simp
  next
    case (full new es ci'')
    have ci'': "ci'' = ci'" using full(1) assms(2) by simp
    have "map_of es k = None \<or> map_of es k = Some x"
      using map_of_evicts [OF ok full(2), of k] assms(3,5) by (simp add: map_of_staged)
    moreover have "map_of es k \<noteq> Some x"
    proof
      assume "map_of es k = Some x"
      then have "(k, x) \<in> set (filter (kept (rs_key entry)) es)"
        using full(4) by (simp add: map_of_SomeD)
      with assms(4,5) show False by (simp add: kept_def)
    qed
    ultimately have gone: "map_of es k = None" by blast
    show ?thesis
    proof (cases "map_of (ci_entries ci) (rs_key entry)")
      case None
      with gone assms(5) show ?thesis by (simp add: full(5) [unfolded ci''])
    next
      case (Some p)
      then have "rs_key p = rs_key entry"
        using assms(1) map_of_SomeD [OF Some] by (simp add: inventory_inv_def entries_ok_def) blast
      with Some gone assms(5) show ?thesis by (simp add: full(5) [unfolded ci''])
    qed
  qed
qed

theorem inventory_add_failure_loses_sections_witness:
  "\<exists>ci'. inventory_add example_inventory (example_section ''also'' 3 True) = (Inl context_budget_exhausted, ci') \<and>
     map_of (ci_entries ci') ''evictable'' = None"
proof -
  obtain ci' where add: "inventory_add example_inventory (example_section ''also'' 3 True) =
      (Inl context_budget_exhausted, ci')"
    by (simp add: inventory_eval)
  then show ?thesis
    using inventory_add_failure_loses_sections [OF example_inventory_inv add,
        of "''evictable''" "example_section ''evictable'' 2 False"]
    by (simp add: example_inventory_def example_section_def)
qed

end
