(* ===== verification/Context_State.thy ===== *)
theory Context_State
  imports Residency "HOL-Library.Multiset"
begin

text \<open>
  The persistent context state of \<open>src/src/capabilityhub/context_state.py\<close>:
  \<open>LocalContextState\<close> owns one inventory, saves every successful change atomically to a JSON
  file and restores its inventory when an operation or the save fails.

  The file is modelled by the JSON value it holds; whether a save reaches the disk is the
  argument \<open>disk_ok\<close> of every operation (an \<open>OSError\<close> leaves the old file in place, because
  the new one is written beside it and moved over it).
\<close>

section \<open>Data\<close>

record context_event =
  ce_sequence :: int
  ce_action :: string
  ce_key :: string
  ce_used :: int
  ce_evictions :: "eviction list"

datatype state_file = NoFile | Unreadable | Json pyval

record context_state =
  cs_inventory :: context_inventory
  cs_generation :: int
  cs_events :: "context_event list"
  cs_event_limit :: nat
  cs_file :: state_file

definition context_state_invalid :: exn where
  "context_state_invalid = HubError ''context_state_invalid'' INPUT False []"

definition context_state_write_failed :: exn where
  "context_state_write_failed = HubError ''context_state_write_failed'' INTERNAL False []"

section \<open>Encoding and decoding\<close>

fun is_natural :: "pyval option \<Rightarrow> bool" where
  "is_natural (Some (PyInt n)) = (0 \<le> n)"
| "is_natural _ = False"

fun is_positive :: "pyval option \<Rightarrow> bool" where
  "is_positive (Some (PyInt n)) = (0 < n)"
| "is_positive _ = False"

fun is_bool :: "pyval option \<Rightarrow> bool" where
  "is_bool (Some (PyBool b)) = True"
| "is_bool _ = False"

fun is_text :: "pyval option \<Rightarrow> bool" where
  "is_text (Some (PyStr s)) = (s \<noteq> [])"
| "is_text _ = False"

fun the_int :: "pyval option \<Rightarrow> int" where
  "the_int (Some (PyInt n)) = n"
| "the_int _ = 0"

fun the_bool :: "pyval option \<Rightarrow> bool" where
  "the_bool (Some (PyBool b)) = b"
| "the_bool _ = False"

fun the_text :: "pyval option \<Rightarrow> string" where
  "the_text (Some (PyStr s)) = s"
| "the_text _ = []"

text \<open>\<open>value == 1\<close>, which also holds of \<open>True\<close> and \<open>1.0\<close>.\<close>

fun equals_one :: "pyval option \<Rightarrow> bool" where
  "equals_one (Some (PyInt n)) = (n = 1)"
| "equals_one (Some (PyBool b)) = b"
| "equals_one (Some (PyFloat x)) = (x = 1)"
| "equals_one _ = False"

definition section_fields :: "string list" where
  "section_fields = [''key'', ''revision'', ''section'', ''portable_tokens'', ''reload_cost'',
     ''reuse_score'', ''sensitive'', ''pinned'', ''last_access'']"

text \<open>\<open>asdict\<close> of a section or of its snapshot.\<close>

definition encode_entry :: "resident_section \<Rightarrow> pyval" where
  "encode_entry e = PyDict
     [(''key'', PyStr (rs_key e)), (''revision'', PyStr (rs_revision e)),
      (''section'', PyStr (rs_section e)), (''portable_tokens'', PyInt (rs_tokens e)),
      (''reload_cost'', PyInt (rs_reload_cost e)), (''reuse_score'', PyInt (rs_reuse_score e)),
      (''sensitive'', PyBool (rs_sensitive e)), (''pinned'', PyBool (rs_pinned e)),
      (''last_access'', PyInt (rs_last_access e))]"

text \<open>
  \<open>_decode_entry\<close>; a key that is no field of \<open>ResidentSection\<close> makes its constructor raise
  \<open>TypeError\<close>.
\<close>

fun decode_entry :: "pyval \<Rightarrow> resident_section result" where
  "decode_entry (PyDict d) =
     (if \<exists>name \<in> set [''key'', ''revision'', ''section'']. \<not> is_text (map_of d name)
      then Inl ValueError
      else if \<not> is_natural (map_of d ''portable_tokens'') then Inl ValueError
      else if \<not> is_positive (map_of d ''reload_cost'') \<or> \<not> is_positive (map_of d ''reuse_score'')
      then Inl ValueError
      else if \<not> is_bool (map_of d ''sensitive'') \<or> \<not> is_bool (map_of d ''pinned'')
      then Inl ValueError
      else if \<not> is_natural (map_of d ''last_access'') then Inl ValueError
      else if \<not> (\<forall>k \<in> set (map fst d). k \<in> set section_fields) then Inl TypeError
      else Inr \<lparr>rs_key = the_text (map_of d ''key''), rs_revision = the_text (map_of d ''revision''),
        rs_section = the_text (map_of d ''section''), rs_tokens = the_int (map_of d ''portable_tokens''),
        rs_reload_cost = the_int (map_of d ''reload_cost''),
        rs_reuse_score = the_int (map_of d ''reuse_score''),
        rs_sensitive = the_bool (map_of d ''sensitive''), rs_pinned = the_bool (map_of d ''pinned''),
        rs_last_access = the_int (map_of d ''last_access'')\<rparr>)"
| "decode_entry _ = Inl ValueError"

fun decode_entries :: "pyval list \<Rightarrow> resident_section list result" where
  "decode_entries [] = Inr []"
| "decode_entries (v # vs) =
     rbind (decode_entry v) (\<lambda>e. rbind (decode_entries vs) (\<lambda>es. Inr (e # es)))"

fun decode_state :: "pyval \<Rightarrow> (int \<times> int \<times> resident_section list) result" where
  "decode_state (PyDict d) =
     (if \<not> equals_one (map_of d ''schema_version'') then Inl ValueError
      else case (map_of d ''entries'', is_natural (map_of d ''generation''),
                 is_positive (map_of d ''max_portable_tokens'')) of
        (Some (PyList raw), True, True) \<Rightarrow>
          rbind (decode_entries raw)
            (\<lambda>es. if \<not> distinct (map rs_key es) then Inl ValueError
                  else Inr (the_int (map_of d ''generation''),
                            the_int (map_of d ''max_portable_tokens''), es))
      | _ \<Rightarrow> Inl ValueError)"
| "decode_state _ = Inl ValueError"

definition encode_state :: "context_inventory \<Rightarrow> int \<Rightarrow> pyval" where
  "encode_state ci generation = PyDict
     [(''entries'', PyList (map encode_entry (inventory_entries ci))),
      (''generation'', PyInt generation),
      (''max_portable_tokens'', PyInt (ci_max ci)),
      (''schema_version'', PyInt 1)]"

section \<open>Operations\<close>

text \<open>\<open>_restore\<close>: the sections are added to an empty inventory in the order of their last access.\<close>

fun add_all :: "context_inventory \<Rightarrow> resident_section list \<Rightarrow> context_inventory result" where
  "add_all ci [] = Inr ci"
| "add_all ci (e # es) =
     (case inventory_add ci e of (Inl x, _) \<Rightarrow> Inl x | (Inr _, ci') \<Rightarrow> add_all ci' es)"

definition restore_inventory :: "int \<Rightarrow> resident_section list \<Rightarrow> context_inventory result" where
  "restore_inventory limit entries =
     rbind (new_inventory limit) (\<lambda>ci. add_all ci (sort_key rs_last_access entries))"

definition save_state :: "context_state \<Rightarrow> context_inventory \<Rightarrow> int \<Rightarrow> bool \<Rightarrow> state_file result" where
  "save_state st ci generation disk_ok =
     (if disk_ok then Inr (Json (encode_state ci generation)) else Inl context_state_write_failed)"

text \<open>
  The common body of \<open>add\<close>, \<open>access\<close>, \<open>pin\<close> and \<open>remove\<close>: back up, change the inventory,
  save it under the next generation; on any exception restore the backup and raise again. If
  restoring raises as well, that exception replaces the first one.
\<close>

definition rollback ::
  "context_state \<Rightarrow> context_inventory \<Rightarrow> resident_section list \<Rightarrow> exn \<Rightarrow> 'a result \<times> context_state" where
  "rollback st ci backup e =
     (case restore_inventory (ci_max ci) backup of
        Inl e' \<Rightarrow> (Inl e', st\<lparr>cs_inventory := ci\<rparr>)
      | Inr restored \<Rightarrow> (Inl e, st\<lparr>cs_inventory := restored\<rparr>))"

definition record_event ::
  "context_state \<Rightarrow> string \<Rightarrow> string \<Rightarrow> eviction list \<Rightarrow> context_state" where
  "record_event st action key evictions =
     st\<lparr>cs_events := deque_append (cs_event_limit st) (cs_events st)
          \<lparr>ce_sequence = cs_generation st, ce_action = action, ce_key = key,
           ce_used = used_tokens (ci_entries (cs_inventory st)), ce_evictions = evictions\<rparr>\<rparr>"

definition guarded_change ::
  "context_state \<Rightarrow> (context_inventory \<Rightarrow> 'a result \<times> context_inventory) \<Rightarrow> bool \<Rightarrow>
   'a result \<times> context_state" where
  "guarded_change st change disk_ok =
     (let backup = inventory_entries (cs_inventory st) in
      case change (cs_inventory st) of
        (Inl e, ci) \<Rightarrow> rollback st ci backup e
      | (Inr x, ci) \<Rightarrow>
          (case save_state st ci (cs_generation st + 1) disk_ok of
             Inl e \<Rightarrow> rollback st ci backup e
           | Inr file \<Rightarrow>
               (Inr x, st\<lparr>cs_inventory := ci, cs_generation := cs_generation st + 1, cs_file := file\<rparr>)))"

definition context_add :: "context_state \<Rightarrow> resident_section \<Rightarrow> bool \<Rightarrow> eviction list result \<times> context_state" where
  "context_add st entry disk_ok =
     (case guarded_change st
        (\<lambda>ci. case decode_entry (encode_entry entry) of
           Inl e \<Rightarrow> (Inl e, ci) | Inr selected \<Rightarrow> inventory_add ci selected) disk_ok of
        (Inl e, st') \<Rightarrow> (Inl e, st')
      | (Inr evictions, st') \<Rightarrow> (Inr evictions, record_event st' ''add'' (rs_key entry) evictions))"

definition context_access :: "context_state \<Rightarrow> string \<Rightarrow> bool \<Rightarrow> resident_section result \<times> context_state" where
  "context_access st key disk_ok =
     (case guarded_change st (\<lambda>ci. inventory_access ci key) disk_ok of
        (Inl e, st') \<Rightarrow> (Inl e, st')
      | (Inr entry, st') \<Rightarrow> (Inr entry, record_event st' ''access'' key []))"

definition context_pin :: "context_state \<Rightarrow> string \<Rightarrow> bool \<Rightarrow> bool \<Rightarrow> unit result \<times> context_state" where
  "context_pin st key value disk_ok =
     (case guarded_change st (\<lambda>ci. inventory_pin ci key value) disk_ok of
        (Inl e, st') \<Rightarrow> (Inl e, st')
      | (Inr u, st') \<Rightarrow> (Inr u, record_event st' (if value then ''pin'' else ''unpin'') key []))"

definition context_remove :: "context_state \<Rightarrow> string \<Rightarrow> bool \<Rightarrow> eviction result \<times> context_state" where
  "context_remove st key disk_ok =
     (case guarded_change st (\<lambda>ci. inventory_remove ci key) disk_ok of
        (Inl e, st') \<Rightarrow> (Inl e, st')
      | (Inr ev, st') \<Rightarrow> (Inr ev, record_event st' ''remove'' key [ev]))"

text \<open>
  \<open>__init__\<close> and \<open>_load\<close>: parse errors, decoding errors and a changed limit are reported as
  \<open>context_state_invalid\<close>; a persisted set of pinned sections over the limit raises the
  inventory's own \<open>context_budget_exhausted\<close>.
\<close>

definition load_state :: "int \<Rightarrow> state_file \<Rightarrow> (context_inventory \<times> int) result" where
  "load_state expected_limit file =
     (case file of
        NoFile \<Rightarrow> rbind (new_inventory expected_limit) (\<lambda>ci. Inr (ci, 0))
      | Unreadable \<Rightarrow> Inl context_state_invalid
      | Json payload \<Rightarrow>
          (case decode_state payload of
             Inl e \<Rightarrow> Inl context_state_invalid
           | Inr (generation, limit, entries) \<Rightarrow>
               if limit \<noteq> expected_limit then Inl context_state_invalid
               else (case restore_inventory expected_limit entries of
                   Inl ValueError \<Rightarrow> Inl context_state_invalid
                 | Inl e \<Rightarrow> Inl e
                 | Inr ci \<Rightarrow> Inr (ci, generation))))"

definition open_state :: "state_file \<Rightarrow> int \<Rightarrow> int \<Rightarrow> context_state result" where
  "open_state file max_portable_tokens event_limit =
     (if \<not> (1 \<le> event_limit \<and> event_limit \<le> 10000) then Inl ValueError
      else if max_portable_tokens \<le> 0 then Inl ValueError
      else rbind (load_state max_portable_tokens file)
        (\<lambda>(ci, generation). Inr \<lparr>cs_inventory = ci, cs_generation = generation, cs_events = [],
           cs_event_limit = nat event_limit, cs_file = file\<rparr>))"

section \<open>Recency\<close>

text \<open>
  What a restore must keep: the sections in the order of their last access. The stamps
  themselves are renumbered, so they are erased before comparing.
\<close>

definition erase_access :: "resident_section \<Rightarrow> resident_section" where
  "erase_access e = e\<lparr>rs_last_access := 0\<rparr>"

definition recency :: "context_inventory \<Rightarrow> resident_section list" where
  "recency ci = map erase_access (sort_key rs_last_access (map snd (ci_entries ci)))"

definition valid_section :: "resident_section \<Rightarrow> bool" where
  "valid_section e \<longleftrightarrow> rs_key e \<noteq> [] \<and> rs_revision e \<noteq> [] \<and> rs_section e \<noteq> [] \<and>
     0 \<le> rs_tokens e \<and> 0 < rs_reload_cost e \<and> 0 < rs_reuse_score e \<and> 0 \<le> rs_last_access e"

text \<open>The inventory of a context state: well formed, with distinct stamps up to the clock.\<close>

definition context_inv :: "context_inventory \<Rightarrow> bool" where
  "context_inv ci \<longleftrightarrow> inventory_inv ci \<and> 0 \<le> ci_clock ci \<and>
     distinct (map rs_last_access (map snd (ci_entries ci))) \<and>
     (\<forall>e \<in> snd ` set (ci_entries ci). valid_section e \<and> rs_last_access e \<le> ci_clock ci)"

lemma decode_encode_entry:
  "decode_entry (encode_entry e) = (if valid_section e then Inr e else Inl ValueError)"
  by (auto simp: encode_entry_def valid_section_def section_fields_def)

lemma decode_encode_entries:
  "\<forall>e \<in> set es. valid_section e \<Longrightarrow> decode_entries (map encode_entry es) = Inr es"
  by (induction es) (simp_all add: decode_encode_entry del: decode_entry.simps)

lemma sort_key_unique:
  assumes "mset ys = mset xs" "inj_on f (set ys)"
  shows "sort_key f ys = sort_key f xs"
  using assms by (intro sort_key_inj_key_eq) simp_all

section \<open>Restoring\<close>

lemma inventory_add_room:
  assumes "entries_ok (ci_entries ci)" "rs_key e \<notin> fst ` set (ci_entries ci)" "valid_section e"
    and "used_tokens (ci_entries ci) + rs_tokens e \<le> ci_max ci"
  shows "inventory_add ci e = (Inr [], ci\<lparr>ci_clock := ci_clock ci + 1, ci_entries :=
    ci_entries ci @ [(rs_key e, e\<lparr>rs_last_access := ci_clock ci + 1\<rparr>)]\<rparr>)"
  using assms by (simp add: inventory_add_def touch_def valid_section_def update_fresh evict_loop.simps Let_def)

fun stamped :: "int \<Rightarrow> resident_section list \<Rightarrow> (string \<times> resident_section) list" where
  "stamped n [] = []"
| "stamped n (e # es) = (rs_key e, e\<lparr>rs_last_access := n + 1\<rparr>) # stamped (n + 1) es"

lemma stamped_facts:
  "map fst (stamped n es) = map rs_key es"
  "used_tokens (stamped n es) = (\<Sum>e \<leftarrow> es. rs_tokens e)"
  "map erase_access (map snd (stamped n es)) = map erase_access es"
  "\<forall>e \<in> snd ` set (stamped n es). n < rs_last_access e \<and> rs_last_access e \<le> n + int (length es)"
  by (induction n es rule: stamped.induct) (auto simp: erase_access_def)

lemma stamped_sorted: "sorted_wrt (<) (map rs_last_access (map snd (stamped n es)))"
proof (induction n es rule: stamped.induct)
  case (2 n e es)
  have "\<forall>x \<in> set (stamped (n + 1) es). n + 1 < rs_last_access (snd x)"
    using stamped_facts(4) [of "n + 1" es] by auto
  with "2.IH" show ?case by simp
qed simp

lemma stamped_ok:
  "distinct (map rs_key es) \<Longrightarrow> \<forall>e \<in> set es. valid_section e \<Longrightarrow> entries_ok (stamped n es)"
proof (induction n es rule: stamped.induct)
  case (2 n e es)
  moreover from this have "rs_key e \<notin> fst ` set (stamped (n + 1) es)"
    by (simp add: stamped_facts(1) flip: set_map)
  ultimately show ?case by (auto simp: entries_ok_def valid_section_def)
qed (simp add: entries_ok_def)

lemma stamped_valid:
  "0 \<le> n \<Longrightarrow> \<forall>e \<in> set es. valid_section e \<Longrightarrow> e \<in> snd ` set (stamped n es) \<Longrightarrow> valid_section e"
  by (induction n es rule: stamped.induct) (auto simp: valid_section_def)

lemma add_all_room:
  assumes "entries_ok (ci_entries ci)" "distinct (map rs_key es)" "\<forall>e \<in> set es. valid_section e"
    and "\<forall>e \<in> set es. rs_key e \<notin> fst ` set (ci_entries ci)"
    and "used_tokens (ci_entries ci) + (\<Sum>e \<leftarrow> es. rs_tokens e) \<le> ci_max ci"
  shows "add_all ci es = Inr (ci\<lparr>ci_clock := ci_clock ci + int (length es),
    ci_entries := ci_entries ci @ stamped (ci_clock ci) es\<rparr>)"
  using assms
proof (induction es arbitrary: ci)
  case (Cons e es)
  let ?ci = "ci\<lparr>ci_clock := ci_clock ci + 1, ci_entries :=
    ci_entries ci @ [(rs_key e, e\<lparr>rs_last_access := ci_clock ci + 1\<rparr>)]\<rparr>"
  have sum: "0 \<le> (\<Sum>e \<leftarrow> es. rs_tokens e)"
    using Cons.prems(3) by (intro sum_list_nonneg) (auto simp: valid_section_def)
  then have add: "inventory_add ci e = (Inr [], ?ci)"
    using Cons.prems by (intro inventory_add_room) auto
  have "entries_ok (ci_entries ?ci)"
    using Cons.prems by (auto intro!: entries_ok_append simp: valid_section_def)
  moreover have "\<forall>x \<in> set es. rs_key x \<noteq> rs_key e"
    using Cons.prems(2) by (metis distinct.simps(2) imageI list.set_map list.simps(9))
  ultimately have "add_all ?ci es = Inr (?ci\<lparr>ci_clock := ci_clock ?ci + int (length es),
      ci_entries := ci_entries ?ci @ stamped (ci_clock ?ci) es\<rparr>)"
    using Cons.prems by (intro Cons.IH) auto
  with add show ?case by simp
qed simp

text \<open>
  Restoring any set of valid sections that fits the limit succeeds, evicts nothing and keeps
  their recency order.
\<close>

lemma restore_inventory_ok:
  assumes "0 < limit" "distinct (map rs_key es)" "\<forall>e \<in> set es. valid_section e"
    and "(\<Sum>e \<leftarrow> es. rs_tokens e) \<le> limit"
  obtains ci where "restore_inventory limit es = Inr ci" "context_inv ci" "ci_max ci = limit"
    "recency ci = map erase_access (sort_key rs_last_access es)"
    "ci = \<lparr>ci_max = limit, ci_entries = stamped 0 (sort_key rs_last_access es), ci_clock = int (length es)\<rparr>"
proof -
  let ?es = "sort_key rs_last_access es"
  have perm: "mset ?es = mset es" by simp
  have sum: "(\<Sum>e \<leftarrow> ?es. rs_tokens e) = (\<Sum>e \<leftarrow> es. rs_tokens e)"
    using perm by (metis mset_map sum_mset_sum_list)
  have dist: "distinct (map rs_key ?es)"
    using assms(2) perm by (metis mset_map mset_eq_imp_distinct_iff)
  define ci where "ci = \<lparr>ci_max = limit, ci_entries = stamped 0 ?es, ci_clock = int (length ?es)\<rparr>"
  have "restore_inventory limit es = Inr ci"
    using assms dist sum
    by (simp add: restore_inventory_def new_inventory_def add_all_room entries_ok_def ci_def)
  moreover have "context_inv ci"
    using assms dist sum stamped_sorted [of 0 ?es] stamped_facts(4) [of 0 ?es]
    by (auto simp: context_inv_def inventory_inv_def ci_def stamped_facts(2) strict_sorted_iff
        intro: stamped_ok stamped_valid [of 0 ?es])
  moreover have "recency ci = map erase_access ?es"
    using stamped_sorted [of 0 ?es]
    by (simp add: recency_def ci_def sort_key_id_if_sorted strict_sorted_iff stamped_facts(3) [unfolded map_map])
  ultimately show ?thesis by (intro that) (auto simp: ci_def)
qed

section \<open>The operations keep the inventory well formed\<close>

lemma context_inv_entry:
  assumes "context_inv ci" "map_of (ci_entries ci) k = Some x"
  shows "rs_key x = k" "valid_section x" "rs_last_access x \<le> ci_clock ci" "k \<noteq> []"
  using assms map_of_SomeD [OF assms(2)]
  by (force simp: context_inv_def inventory_inv_def entries_ok_def)+

text \<open>Replacing one entry by a valid one of the same size under a new stamp.\<close>

lemma context_inv_restamp:
  assumes ci: "context_inv ci" and x: "map_of (ci_entries ci) k = Some x"
    and y: "rs_key y = k" "rs_tokens y = rs_tokens x" "rs_last_access y = ci_clock ci + 1" "valid_section y"
  shows "context_inv (ci\<lparr>ci_clock := ci_clock ci + 1, ci_entries := AList.update k y (ci_entries ci)\<rparr>)"
proof -
  from ci have "dict_ok (ci_entries ci)" by (simp add: context_inv_def inventory_inv_def entries_ok_def)
  with x obtain pre post where d: "ci_entries ci = pre @ (k, x) # post"
    "AList.update k y (ci_entries ci) = pre @ (k, y) # post"
    using map_of_update_in by meson
  define es where "es = AList.update k y (ci_entries ci)"
  have es: "es = pre @ (k, y) # post" unfolding es_def by (rule d(2))
  have old: "entries_ok (pre @ (k, x) # post)"
    "distinct (map rs_last_access (map snd (pre @ (k, x) # post)))"
    "\<forall>e \<in> snd ` set (pre @ (k, x) # post). valid_section e \<and> rs_last_access e \<le> ci_clock ci"
    using ci by (simp_all add: context_inv_def inventory_inv_def d(1))
  from old(1) y(1,2) have "entries_ok es" unfolding es by (auto simp: entries_ok_def)
  moreover have "used_tokens es = used_tokens (ci_entries ci)" using y(2) by (simp add: es d(1))
  moreover have "rs_last_access y \<notin> (\<lambda>p. rs_last_access (snd p)) ` (set pre \<union> set post)"
    using old(3) y(3) by force
  then have "distinct (map rs_last_access (map snd es))"
    using old(2) by (auto simp: es)
  moreover have "\<forall>e \<in> snd ` set es. valid_section e \<and> rs_last_access e \<le> ci_clock ci + 1"
  proof
    fix e assume "e \<in> snd ` set es"
    then consider "e = y" | "e \<in> snd ` set (pre @ (k, x) # post)" by (auto simp: es)
    then show "valid_section e \<and> rs_last_access e \<le> ci_clock ci + 1"
    proof cases
      case 2
      with old(3) have "valid_section e \<and> rs_last_access e \<le> ci_clock ci" by blast
      then show ?thesis by simp
    qed (simp add: y)
  qed
  ultimately show ?thesis
    using ci by (simp add: context_inv_def inventory_inv_def es_def)
qed

lemma context_inv_access:
  assumes "context_inv ci" "inventory_access ci key = (Inr x, ci')"
  shows "context_inv ci'"
proof -
  from assms(2) obtain y where y: "map_of (ci_entries ci) key = Some y"
    "ci' = ci\<lparr>ci_clock := ci_clock ci + 1,
       ci_entries := AList.update key (y\<lparr>rs_last_access := ci_clock ci + 1\<rparr>) (ci_entries ci)\<rparr>"
    by (auto simp: inventory_access_def touch_def split: option.splits)
  have "0 \<le> ci_clock ci" using assms(1) by (simp add: context_inv_def)
  with context_inv_entry [OF assms(1) y(1)] show ?thesis
    unfolding y(2) by (intro context_inv_restamp [OF assms(1) y(1)]) (auto simp: valid_section_def)
qed

lemma context_inv_pin:
  assumes "context_inv ci" "inventory_pin ci key value = (Inr x, ci')"
  shows "context_inv ci'"
proof -
  from assms(2) obtain y where y: "map_of (ci_entries ci) key = Some y"
    "ci' = ci\<lparr>ci_clock := ci_clock ci + 1, ci_entries := AList.update key
       (y\<lparr>rs_last_access := ci_clock ci + 1, rs_pinned := value\<rparr>) (ci_entries ci)\<rparr>"
    by (auto simp: inventory_pin_def inventory_access_def touch_def split: option.splits)
  have "0 \<le> ci_clock ci" using assms(1) by (simp add: context_inv_def)
  with context_inv_entry [OF assms(1) y(1)] show ?thesis
    unfolding y(2) by (intro context_inv_restamp [OF assms(1) y(1)]) (auto simp: valid_section_def)
qed

lemma context_inv_sub:
  assumes "context_inv ci" "es = filter P (ci_entries ci)"
  shows "context_inv (ci\<lparr>ci_entries := es\<rparr>)"
proof -
  have "entries_ok es" using assms by (auto simp: context_inv_def inventory_inv_def intro: entries_ok_filter)
  moreover have "used_tokens es \<le> used_tokens (ci_entries ci)"
    using used_tokens_split [of "ci_entries ci" P] assms
      used_tokens_nonneg [OF entries_ok_filter [of "ci_entries ci" "\<lambda>x. \<not> P x"]]
    by (simp add: context_inv_def inventory_inv_def)
  moreover have "distinct (map rs_last_access (map snd es))"
    using assms by (simp add: context_inv_def distinct_map_filter)
  ultimately show ?thesis using assms by (auto simp: context_inv_def inventory_inv_def)
qed

lemma context_inv_remove:
  assumes "context_inv ci" "inventory_remove ci key = (Inr x, ci')"
  shows "context_inv ci'"
  using assms by (auto simp: inventory_remove_def AList.delete_eq split: option.splits intro!: context_inv_sub)

lemma context_inv_add:
  assumes ci: "context_inv ci" and e: "valid_section e" and res: "inventory_add ci e = (Inr evs, ci')"
  shows "context_inv ci'"
proof -
  have inv: "inventory_inv ci" and valid: "rs_key e \<noteq> []" "0 \<le> rs_tokens e"
    using ci e by (auto simp: context_inv_def valid_section_def)
  show ?thesis
  proof (cases rule: inventory_add_cases [OF inv valid, case_names fits full])
    case (fits new es)
    have ci': "ci' = ci\<lparr>ci_clock := ci_clock ci + 1, ci_entries := es\<rparr>" using fits(1) res by simp
    let ?s = "staged_entries ci e"
    have "distinct (map rs_last_access (map snd ?s))"
      "\<forall>x \<in> snd ` set ?s. valid_section x \<and> rs_last_access x \<le> ci_clock ci + 1"
      using ci e by (fastforce simp: staged_entries_def AList.delete_eq context_inv_def
          valid_section_def distinct_map_filter)+
    moreover have "es = filter (\<lambda>p. fst p \<notin> set (map ev_key new)) ?s"
      using fits(2) by (simp add: evicts_def)
    ultimately have "distinct (map rs_last_access (map snd es))"
      "\<forall>x \<in> snd ` set es. valid_section x \<and> rs_last_access x \<le> ci_clock ci + 1"
      by (auto simp: distinct_map_filter)
    moreover have "entries_ok es"
      using staged_entries_ok [OF inv valid] fits(2) by (rule evicts_ok)
    ultimately show ?thesis
      using ci fits(3) by (auto simp: context_inv_def inventory_inv_def ci')
  next
    case (full new es ci'')
    with res show ?thesis by simp
  qed
qed


section \<open>Failure and durability\<close>

lemma max_unchanged:
  "ci_max (snd (inventory_add ci e)) = ci_max ci"
  "ci_max (snd (inventory_access ci key)) = ci_max ci"
  "ci_max (snd (inventory_pin ci key value)) = ci_max ci"
  "ci_max (snd (inventory_remove ci key)) = ci_max ci"
  by (auto simp: inventory_add_def inventory_access_def inventory_pin_def inventory_remove_def
      touch_def Let_def split: option.splits sum.splits prod.splits)

lemma inventory_entries_perm: "mset (inventory_entries ci) = mset (map snd (ci_entries ci))"
  by (simp add: inventory_entries_def)

text \<open>What a restore gives: the same sections, their access stamps numbered again from one in the same order.\<close>

definition renumbered :: "context_inventory \<Rightarrow> context_inventory" where
  "renumbered ci = \<lparr>ci_max = ci_max ci, ci_entries = stamped 0 (sort_key rs_last_access (map snd (ci_entries ci))),
     ci_clock = int (length (ci_entries ci))\<rparr>"

lemma restore_backup:
  assumes ci: "context_inv ci"
  obtains ci' where "restore_inventory (ci_max ci) (inventory_entries ci) = Inr ci'"
    "context_inv ci'" "ci_max ci' = ci_max ci" "recency ci' = recency ci" "ci' = renumbered ci"
proof -
  have perm: "mset (inventory_entries ci) = mset (map snd (ci_entries ci))"
    by (rule inventory_entries_perm)
  have set: "set (inventory_entries ci) = snd ` set (ci_entries ci)"
    using perm by (metis set_mset_mset list.set_map)
  have keys: "map rs_key (map snd (ci_entries ci)) = map fst (ci_entries ci)"
    using ci by (auto simp: context_inv_def inventory_inv_def entries_ok_def)
  have "distinct (map rs_key (inventory_entries ci))"
    using perm keys ci by (metis mset_map mset_eq_imp_distinct_iff context_inv_def inventory_inv_def entries_ok_def)
  moreover have "(\<Sum>e \<leftarrow> inventory_entries ci. rs_tokens e) \<le> ci_max ci"
    using arg_cong [OF perm, of "\<lambda>m. sum_mset (image_mset rs_tokens m)"] ci
    by (simp add: context_inv_def inventory_inv_def used_tokens_def sum_mset_sum_list comp_def
        flip: mset_map)
  ultimately obtain ci' where ci': "restore_inventory (ci_max ci) (inventory_entries ci) = Inr ci'"
    "context_inv ci'" "ci_max ci' = ci_max ci"
    "recency ci' = map erase_access (sort_key rs_last_access (inventory_entries ci))"
    "ci' = \<lparr>ci_max = ci_max ci, ci_entries = stamped 0 (sort_key rs_last_access (inventory_entries ci)),
       ci_clock = int (length (inventory_entries ci))\<rparr>"
    using restore_inventory_ok [of "ci_max ci" "inventory_entries ci"] ci set
    by (auto simp: context_inv_def inventory_inv_def)
  have "sort_key rs_last_access (inventory_entries ci) = sort_key rs_last_access (map snd (ci_entries ci))"
    using perm ci set by (intro sort_key_unique) (auto simp: context_inv_def distinct_map intro: inj_on_imageI)
  moreover have "length (inventory_entries ci) = length (ci_entries ci)" using perm by (metis length_map size_mset)
  ultimately show ?thesis using ci'(1,2,3,4) ci'(5) by (intro that [of ci']) (simp_all add: recency_def renumbered_def)
qed

lemma guarded_change_cases:
  assumes ci: "context_inv (cs_inventory st)"
    and keeps: "\<forall>x ci'. change (cs_inventory st) = (Inr x, ci') \<longrightarrow> context_inv ci'"
    and max: "ci_max (snd (change (cs_inventory st))) = ci_max (cs_inventory st)"
  obtains (failed) e ci' where "guarded_change st change disk_ok = (Inl e, st\<lparr>cs_inventory := ci'\<rparr>)"
      "context_inv ci'" "ci_max ci' = ci_max (cs_inventory st)" "recency ci' = recency (cs_inventory st)"
      "fst (change (cs_inventory st)) = Inl e \<or> e = context_state_write_failed" "ci' = renumbered (cs_inventory st)"
  | (changed) x ci' where "change (cs_inventory st) = (Inr x, ci')" "context_inv ci'"
      "ci_max ci' = ci_max (cs_inventory st)"
      "guarded_change st change disk_ok = (Inr x, st\<lparr>cs_inventory := ci',
         cs_generation := cs_generation st + 1, cs_file := Json (encode_state ci' (cs_generation st + 1))\<rparr>)"
proof -
  obtain r ci1 where change: "change (cs_inventory st) = (r, ci1)" by fastforce
  have max1: "ci_max ci1 = ci_max (cs_inventory st)" using max change by simp
  obtain ci' where ci': "restore_inventory (ci_max (cs_inventory st)) (inventory_entries (cs_inventory st)) = Inr ci'"
    "context_inv ci'" "ci_max ci' = ci_max (cs_inventory st)" "recency ci' = recency (cs_inventory st)"
    "ci' = renumbered (cs_inventory st)"
    using ci by (rule restore_backup)
  have undo: "rollback st ci1 (inventory_entries (cs_inventory st)) e = (Inl e, st\<lparr>cs_inventory := ci'\<rparr>)" for e :: exn
    using ci'(1) max1 by (simp add: rollback_def)
  show ?thesis
  proof (cases r)
    case (Inl e)
    with change ci' undo show ?thesis by (intro failed [of e ci']) (auto simp: guarded_change_def)
  next
    case (Inr x)
    show ?thesis
    proof (cases disk_ok)
      case True
      with Inr change max1 keeps show ?thesis
        by (intro changed [of x ci1]) (auto simp: guarded_change_def save_state_def)
    next
      case False
      with Inr change ci' undo show ?thesis
        by (intro failed [of context_state_write_failed ci']) (auto simp: guarded_change_def save_state_def)
    qed
  qed
qed

lemma decode_encode_state:
  assumes ci: "context_inv ci" and g: "0 \<le> g"
  shows "decode_state (encode_state ci g) = Inr (g, ci_max ci, inventory_entries ci)"
proof -
  have perm: "mset (inventory_entries ci) = mset (map snd (ci_entries ci))" by (rule inventory_entries_perm)
  then have "set (inventory_entries ci) = snd ` set (ci_entries ci)"
    by (metis set_mset_mset list.set_map)
  then have dec: "decode_entries (map encode_entry (inventory_entries ci)) = Inr (inventory_entries ci)"
    using ci by (intro decode_encode_entries) (auto simp: context_inv_def)
  have "map rs_key (map snd (ci_entries ci)) = map fst (ci_entries ci)"
    using ci by (auto simp: context_inv_def inventory_inv_def entries_ok_def)
  then have "distinct (map rs_key (inventory_entries ci))"
    using perm ci by (metis mset_map mset_eq_imp_distinct_iff context_inv_def inventory_inv_def entries_ok_def)
  with dec g ci show ?thesis
    by (simp add: encode_state_def context_inv_def inventory_inv_def)
qed


text \<open>
  A state is durable when opening its file again would give the same generation and the same
  sections in the same recency order.
\<close>

definition durable :: "context_state \<Rightarrow> bool" where
  "durable st \<longleftrightarrow> context_inv (cs_inventory st) \<and> 0 \<le> cs_generation st \<and>
     (\<exists>ci. load_state (ci_max (cs_inventory st)) (cs_file st) = Inr (ci, cs_generation st) \<and>
        recency ci = recency (cs_inventory st))"

lemma durable_saved:
  assumes "context_inv ci" "0 \<le> g"
  shows "\<exists>ci'. load_state (ci_max ci) (Json (encode_state ci g)) = Inr (ci', g) \<and> recency ci' = recency ci"
proof -
  from assms(1) obtain ci' where "restore_inventory (ci_max ci) (inventory_entries ci) = Inr ci'"
    "recency ci' = recency ci" by (rule restore_backup)
  with decode_encode_state [OF assms] show ?thesis by (simp add: load_state_def)
qed

lemma guarded_change_durable:
  assumes st: "durable st"
    and keeps: "\<forall>x ci'. change (cs_inventory st) = (Inr x, ci') \<longrightarrow> context_inv ci'"
    and max: "ci_max (snd (change (cs_inventory st))) = ci_max (cs_inventory st)"
  shows "durable (snd (guarded_change st change disk_ok))"
proof -
  have ci: "context_inv (cs_inventory st)" using st by (simp add: durable_def)
  show ?thesis
  proof (cases rule: guarded_change_cases [where change = change and disk_ok = disk_ok, OF ci keeps max, case_names failed changed])
    case (failed e ci')
    with st show ?thesis by (simp add: durable_def)
  next
    case (changed x ci')
    with st durable_saved [OF changed(2), of "cs_generation st + 1"] show ?thesis
      by (simp add: durable_def)
  qed
qed

lemma durable_record [simp]: "durable (record_event st action key evs) = durable st"
  by (simp add: durable_def record_event_def)

inductive context_step :: "context_state \<Rightarrow> context_state \<Rightarrow> bool" where
  step_add: "context_step st (snd (context_add st entry disk_ok))"
| step_access: "context_step st (snd (context_access st key disk_ok))"
| step_pin: "context_step st (snd (context_pin st key value disk_ok))"
| step_remove: "context_step st (snd (context_remove st key disk_ok))"

definition context_init :: "context_state \<Rightarrow> bool" where
  "context_init st \<longleftrightarrow> (\<exists>limit event_limit. open_state NoFile limit event_limit = Inr st)"

lemma validated_add_keeps:
  assumes "context_inv ci"
    "(case decode_entry (encode_entry entry) of Inl e \<Rightarrow> (Inl e, ci) | Inr s \<Rightarrow> inventory_add ci s) = (Inr x, ci')"
  shows "context_inv ci'"
  using assms by (auto simp: decode_encode_entry split: if_splits intro: context_inv_add
      simp del: decode_entry.simps)

lemma context_step_durable: "context_step st st' \<Longrightarrow> durable st \<Longrightarrow> durable st'"
proof (induction rule: context_step.induct)
  case (step_add st entry disk_ok)
  let ?f = "\<lambda>ci. case decode_entry (encode_entry entry) of Inl e \<Rightarrow> (Inl e, ci) | Inr s \<Rightarrow> inventory_add ci s"
  have "durable (snd (guarded_change st ?f disk_ok))"
  proof (rule guarded_change_durable [OF step_add])
    have "context_inv (cs_inventory st)" using step_add by (simp add: durable_def)
    then show "\<forall>x ci'. ?f (cs_inventory st) = (Inr x, ci') \<longrightarrow> context_inv ci'"
      by (blast intro: validated_add_keeps)
    show "ci_max (snd (?f (cs_inventory st))) = ci_max (cs_inventory st)"
      by (auto simp: max_unchanged split: sum.splits)
  qed
  then show ?case by (auto simp: context_add_def split: prod.splits sum.splits)
next
  case (step_access st key disk_ok)
  then have "durable (snd (guarded_change st (\<lambda>ci. inventory_access ci key) disk_ok))"
    by (intro guarded_change_durable) (auto simp: durable_def max_unchanged intro: context_inv_access)
  then show ?case by (auto simp: context_access_def split: prod.splits sum.splits)
next
  case (step_pin st key "value" disk_ok)
  then have "durable (snd (guarded_change st (\<lambda>ci. inventory_pin ci key value) disk_ok))"
    by (intro guarded_change_durable) (auto simp: durable_def max_unchanged intro: context_inv_pin)
  then show ?case by (auto simp: context_pin_def split: prod.splits sum.splits)
next
  case (step_remove st key disk_ok)
  then have "durable (snd (guarded_change st (\<lambda>ci. inventory_remove ci key) disk_ok))"
    by (intro guarded_change_durable) (auto simp: durable_def max_unchanged intro: context_inv_remove)
  then show ?case by (auto simp: context_remove_def split: prod.splits sum.splits)
qed

lemma context_init_durable: "context_init st \<Longrightarrow> durable st"
  by (auto simp: context_init_def open_state_def load_state_def new_inventory_def durable_def
      context_inv_def inventory_inv_def entries_ok_def split: if_splits)

interpretation context_state: step_system context_init context_step durable
  by unfold_locales (auto intro: context_step_durable context_init_durable)

text \<open>
  \<open>undone st st'\<close>: the state is the old one, except that the access stamps of its sections
  are numbered again from one, in the same order.
\<close>

definition undone :: "context_state \<Rightarrow> context_state \<Rightarrow> bool" where
  "undone st st' \<longleftrightarrow> st' = st\<lparr>cs_inventory := renumbered (cs_inventory st)\<rparr>"

lemma guarded_change_undone:
  assumes "durable st" "fst (guarded_change st change disk_ok) = Inl e"
    and "\<forall>x ci'. change (cs_inventory st) = (Inr x, ci') \<longrightarrow> context_inv ci'"
    and "ci_max (snd (change (cs_inventory st))) = ci_max (cs_inventory st)"
  shows "undone st (snd (guarded_change st change disk_ok))"
proof -
  have ci: "context_inv (cs_inventory st)" using assms(1) by (simp add: durable_def)
  show ?thesis
  proof (cases rule: guarded_change_cases [where change = change and disk_ok = disk_ok, OF ci assms(3,4),
        case_names failed changed])
    case (failed e' ci')
    then show ?thesis by (simp add: undone_def)
  next
    case (changed x ci')
    with assms(2) show ?thesis by simp
  qed
qed

lemma failed_change_undone:
  assumes "durable st"
  shows "fst (context_add st entry disk_ok) = Inl e \<Longrightarrow> undone st (snd (context_add st entry disk_ok))"
    and "fst (context_access st key disk_ok) = Inl e \<Longrightarrow> undone st (snd (context_access st key disk_ok))"
    and "fst (context_pin st key v disk_ok) = Inl e \<Longrightarrow> undone st (snd (context_pin st key v disk_ok))"
    and "fst (context_remove st key disk_ok) = Inl e \<Longrightarrow> undone st (snd (context_remove st key disk_ok))"
proof -
  let ?f = "\<lambda>ci. case decode_entry (encode_entry entry) of Inl e \<Rightarrow> (Inl e, ci) | Inr s \<Rightarrow> inventory_add ci s"
  have inv: "context_inv (cs_inventory st)" using assms by (simp add: durable_def)
  {
    assume "fst (context_add st entry disk_ok) = Inl e"
    moreover have "ci_max (snd (?f (cs_inventory st))) = ci_max (cs_inventory st)"
      by (auto simp: max_unchanged split: sum.splits)
    moreover have "\<forall>x ci'. ?f (cs_inventory st) = (Inr x, ci') \<longrightarrow> context_inv ci'"
      using inv by (blast intro: validated_add_keeps)
    ultimately show "undone st (snd (context_add st entry disk_ok))"
      using guarded_change_undone [OF assms, of ?f disk_ok e]
      by (auto simp: context_add_def split: prod.splits sum.splits)
  }
  {
    assume "fst (context_access st key disk_ok) = Inl e"
    then show "undone st (snd (context_access st key disk_ok))"
      using guarded_change_undone [OF assms, of "\<lambda>ci. inventory_access ci key" disk_ok e] context_inv_access [OF inv]
      by (auto simp: context_access_def max_unchanged split: prod.splits sum.splits)
  }
  {
    assume "fst (context_pin st key v disk_ok) = Inl e"
    then show "undone st (snd (context_pin st key v disk_ok))"
      using guarded_change_undone [OF assms, of "\<lambda>ci. inventory_pin ci key v" disk_ok e] context_inv_pin [OF inv]
      by (auto simp: context_pin_def max_unchanged split: prod.splits sum.splits)
  }
  {
    assume "fst (context_remove st key disk_ok) = Inl e"
    then show "undone st (snd (context_remove st key disk_ok))"
      using guarded_change_undone [OF assms, of "\<lambda>ci. inventory_remove ci key" disk_ok e] context_inv_remove [OF inv]
      by (auto simp: context_remove_def max_unchanged split: prod.splits sum.splits)
  }
qed

lemma guarded_change_generation:
  "cs_generation st \<le> cs_generation (snd (guarded_change st change disk_ok))"
  by (auto simp: guarded_change_def rollback_def save_state_def Let_def split: sum.splits prod.splits)

lemma record_generation [simp]: "cs_generation (record_event st action key evs) = cs_generation st"
  by (simp add: record_event_def)

lemma context_step_generation: "context_step st st' \<Longrightarrow> cs_generation st \<le> cs_generation st'"
proof (induction rule: context_step.induct)
  case (step_add st entry disk_ok)
  show ?case
    unfolding context_add_def
    using guarded_change_generation [of st "\<lambda>ci. case decode_entry (encode_entry entry) of
           Inl e \<Rightarrow> (Inl e, ci) | Inr selected \<Rightarrow> inventory_add ci selected" disk_ok]
    by (cases "guarded_change st (\<lambda>ci. case decode_entry (encode_entry entry) of
           Inl e \<Rightarrow> (Inl e, ci) | Inr selected \<Rightarrow> inventory_add ci selected) disk_ok")
      (simp del: decode_entry.simps split: sum.split)
next
  case (step_access st key disk_ok)
  show ?case
    using guarded_change_generation [of st "\<lambda>ci. inventory_access ci key" disk_ok]
    by (auto simp: context_access_def split: prod.splits sum.splits)
next
  case (step_pin st key v disk_ok)
  show ?case
    using guarded_change_generation [of st "\<lambda>ci. inventory_pin ci key v" disk_ok]
    by (auto simp: context_pin_def split: prod.splits sum.splits)
next
  case (step_remove st key disk_ok)
  show ?case
    using guarded_change_generation [of st "\<lambda>ci. inventory_remove ci key" disk_ok]
    by (auto simp: context_remove_def split: prod.splits sum.splits)
qed

interpretation context_generation:
  monotone_system context_init context_step durable "\<lambda>s t. cs_generation s \<le> cs_generation t"
  by unfold_locales (auto intro: context_step_generation)

definition example_section :: resident_section where
  "example_section = \<lparr>rs_key = ''a'', rs_revision = ''r'', rs_section = ''s'', rs_tokens = 6,
     rs_reload_cost = 1, rs_reuse_score = 1, rs_sensitive = False, rs_pinned = True, rs_last_access = 0\<rparr>"

definition example_empty_state :: context_state where
  "example_empty_state = \<lparr>cs_inventory = \<lparr>ci_max = 10, ci_entries = [], ci_clock = 0\<rparr>,
     cs_generation = 0, cs_events = [], cs_event_limit = 5, cs_file = NoFile\<rparr>"

definition example_filled_state :: context_state where
  "example_filled_state = snd (context_add example_empty_state example_section True)"

lemma example_empty_reachable: "reach context_init context_step example_empty_state"
proof (rule reach_init)
  have "open_state NoFile 10 5 = Inr example_empty_state"
    by (simp add: open_state_def load_state_def new_inventory_def example_empty_state_def)
  then show "context_init example_empty_state" unfolding context_init_def by blast
qed

lemma example_filled_reachable: "reach context_init context_step example_filled_state"
  unfolding example_filled_state_def by (rule reach_step [OF example_empty_reachable step_add])

lemma example_filled_eq:
  "cs_inventory example_filled_state = \<lparr>ci_max = 10,
     ci_entries = [(''a'', example_section\<lparr>rs_last_access := 1\<rparr>)], ci_clock = 1\<rparr>"
  "cs_generation example_filled_state = 1"
  by code_simp+

text \<open>The stamps a snapshot shows change under the same generation when a change fails.\<close>

lemma failed_add_renumbers:
  "let st = snd (context_access example_filled_state ''a'' True);
       (r, st') = context_add st (example_section\<lparr>rs_key := ''b''\<rparr>) True
   in r = Inl context_budget_exhausted \<and> cs_generation st' = cs_generation st \<and>
     map rs_last_access (inventory_entries (cs_inventory st)) = [2] \<and>
     map rs_last_access (inventory_entries (cs_inventory st')) = [1]"
  by code_simp

text \<open>
  C24. A failing change of the persistent context is rolled back up to the access stamps: in every
  reachable state, an \<open>add\<close>, \<open>access\<close>, \<open>pin\<close> or \<open>remove\<close> that raises, for whatever reason including
  a failed save, leaves the file, the generation, the event log, the limits and the sections as they
  were, although \<open>ContextInventory.add\<close> itself may already have dropped sections. Only the
  \<open>last_access\<close> stamps, which a snapshot shows, are numbered again from one, in the same order, and the
  access clock restarts from there (\<open>renumbered\<close>).
\<close>

theorem context_failure_atomic:
  assumes "reach context_init context_step st"
  shows "(fst (context_add st entry disk_ok) = Inl e \<longrightarrow> undone st (snd (context_add st entry disk_ok))) \<and>
    (fst (context_access st key disk_ok) = Inl e \<longrightarrow> undone st (snd (context_access st key disk_ok))) \<and>
    (fst (context_pin st key v disk_ok) = Inl e \<longrightarrow> undone st (snd (context_pin st key v disk_ok))) \<and>
    (fst (context_remove st key disk_ok) = Inl e \<longrightarrow> undone st (snd (context_remove st key disk_ok)))"
  using failed_change_undone [OF context_state.reachable_inv [OF assms]] by blast

theorem context_failure_atomic_witness:
  "fst (context_add example_filled_state (example_section\<lparr>rs_key := ''b''\<rparr>) True) = Inl context_budget_exhausted \<and>
   undone example_filled_state (snd (context_add example_filled_state (example_section\<lparr>rs_key := ''b''\<rparr>) True))"
proof -
  have "fst (context_add example_filled_state (example_section\<lparr>rs_key := ''b''\<rparr>) True) = Inl context_budget_exhausted"
    by code_simp
  with context_failure_atomic [OF example_filled_reachable] show ?thesis by blast
qed

text \<open>
  Durability: in every reachable state, reopening the file with the same limit succeeds and
  gives the same generation and the same sections in the same recency order.
\<close>

theorem context_reopen_same:
  assumes "reach context_init context_step st" "1 \<le> event_limit" "event_limit \<le> 10000"
  shows "\<exists>st'. open_state (cs_file st) (ci_max (cs_inventory st)) event_limit = Inr st' \<and>
    cs_generation st' = cs_generation st \<and> recency (cs_inventory st') = recency (cs_inventory st)"
proof -
  have "durable st" using assms(1) by (rule context_state.reachable_inv)
  then obtain ci where "load_state (ci_max (cs_inventory st)) (cs_file st) = Inr (ci, cs_generation st)"
    "recency ci = recency (cs_inventory st)" "0 < ci_max (cs_inventory st)"
    by (auto simp: durable_def context_inv_def inventory_inv_def)
  with assms(2,3) show ?thesis by (auto simp: open_state_def)
qed

theorem context_reopen_same_witness:
  "\<exists>st'. open_state (cs_file example_filled_state) 10 5 = Inr st' \<and> cs_generation st' = 1 \<and>
     recency (cs_inventory st') = [example_section]"
proof -
  have "recency (cs_inventory example_filled_state) = [example_section]" by code_simp
  with context_reopen_same [OF example_filled_reachable, of 5] show ?thesis
    by (simp add: example_filled_eq)
qed

end
