(* ===== verification/Draining.thy ===== *)
theory Draining
  imports Python_Text
begin

text \<open>
  The drain controller of \<open>src/src/capabilityhub/draining.py\<close>: coordinates and revisions move
  from accepting over draining to retired, executions are admitted under pins, and a draining
  revision retires when its last pin is released, or by an explicit force policy.

  Each method runs under one lock, so it is one function of the controller's state, which returns
  its result or exception together with the new state. Arguments are typed as the annotations say;
  times may be any Python value. The clock is the argument \<open>clock\<close>.
\<close>

section \<open>Data\<close>

datatype lifecycle_state = ACCEPTING | DRAINING | RETIRED

datatype drain_outcome = WAITING | CANCEL_REQUESTED | BLOCKED | OUTCOME_RETIRED

datatype force_policy = DENY | ALLOW_IN_FLIGHT

record admission_pin =
  ap_id :: string
  ap_coordinate :: string
  ap_revision :: string
  ap_cancellable :: bool
  ap_requested :: bool

record lifecycle_snapshot =
  sn_coordinate :: string
  sn_revision :: "string option"
  sn_state :: lifecycle_state
  sn_in_flight :: nat
  sn_cancellable :: nat
  sn_requested :: nat

record drain_progress =
  dp_outcome :: drain_outcome
  dp_snapshot :: lifecycle_snapshot
  dp_requests :: "string list"

record lifecycle_event =
  le_sequence :: int
  le_action :: string
  le_target :: string
  le_in_flight :: nat
  le_reason :: "string option"
  le_count :: nat

type_synonym revision_key = "string \<times> string"

record drain_controller =
  dc_max_coordinates :: nat
  dc_max_revisions :: nat
  dc_max_in_flight :: nat
  dc_event_limit :: nat
  dc_coordinates :: "(string \<times> lifecycle_state) list"
  dc_revisions :: "(revision_key \<times> lifecycle_state) list"
  dc_pins :: "(string \<times> admission_pin) list"
  dc_events :: "lifecycle_event list"
  dc_sequence :: int

definition lifecycle_error :: "string \<Rightarrow> exn" where
  "lifecycle_error code = HubError code CONFLICT False []"

section \<open>Argument checks\<close>

definition drain_identifier :: "string \<Rightarrow> string result" where
  "drain_identifier s = (case clean_text 512 s of None \<Rightarrow> Inl ValueError | Some t \<Rightarrow> Inr t)"

definition drain_optional :: "string option \<Rightarrow> string option result" where
  "drain_optional r = (case r of None \<Rightarrow> Inr None
     | Some s \<Rightarrow> rbind (drain_identifier s) (\<lambda>t. Inr (Some t)))"

text \<open>The reason codes \<open>[a-z0-9][a-z0-9_.-]{0,63}\<close>.\<close>

definition reason_char :: "char \<Rightarrow> bool" where
  "reason_char c = (is_lower c \<or> is_digit c \<or> c \<in> {CHR ''_'', CHR ''.'', CHR ''-''})"

definition drain_reason :: "string \<Rightarrow> string result" where
  "drain_reason s =
     (if s \<noteq> [] \<and> (is_lower (hd s) \<or> is_digit (hd s)) \<and> length s \<le> 64 \<and> list_all reason_char s
      then Inr s else Inl ValueError)"

definition new_controller :: "int \<Rightarrow> int \<Rightarrow> int \<Rightarrow> int \<Rightarrow> drain_controller result" where
  "new_controller max_coordinates max_revisions max_in_flight event_limit =
     (if max_coordinates < 1 \<or> max_revisions < 1 \<or> max_in_flight < 1 \<or> event_limit < 1
      then Inl ValueError
      else Inr \<lparr>dc_max_coordinates = nat max_coordinates, dc_max_revisions = nat max_revisions,
        dc_max_in_flight = nat max_in_flight, dc_event_limit = nat event_limit,
        dc_coordinates = [], dc_revisions = [], dc_pins = [], dc_events = [], dc_sequence = 0\<rparr>)"

section \<open>Queries\<close>

text \<open>A target is a coordinate with one revision, or a whole coordinate (\<open>None\<close>).\<close>

definition pin_of :: "string \<Rightarrow> string option \<Rightarrow> admission_pin \<Rightarrow> bool" where
  "pin_of c r p = (ap_coordinate p = c \<and> (r = None \<or> r = Some (ap_revision p)))"

definition target_pins :: "drain_controller \<Rightarrow> string \<Rightarrow> string option \<Rightarrow> admission_pin list" where
  "target_pins dc c r = filter (pin_of c r) (map snd (dc_pins dc))"

definition pin_count :: "drain_controller \<Rightarrow> string \<Rightarrow> string option \<Rightarrow> nat" where
  "pin_count dc c r = length (target_pins dc c r)"

definition coordinate_revisions :: "drain_controller \<Rightarrow> string \<Rightarrow> (revision_key \<times> lifecycle_state) list" where
  "coordinate_revisions dc c = filter (\<lambda>(k, s). fst k = c) (dc_revisions dc)"

definition make_snapshot ::
  "string \<Rightarrow> string option \<Rightarrow> lifecycle_state \<Rightarrow> admission_pin list \<Rightarrow> lifecycle_snapshot" where
  "make_snapshot c r s pins = \<lparr>sn_coordinate = c, sn_revision = r, sn_state = s,
     sn_in_flight = length pins, sn_cancellable = length (filter ap_cancellable pins),
     sn_requested = length (filter ap_requested pins)\<rparr>"

definition target_snapshot :: "drain_controller \<Rightarrow> string \<Rightarrow> string option \<Rightarrow> lifecycle_snapshot result" where
  "target_snapshot dc c r =
     (case map_of (dc_coordinates dc) c of
        None \<Rightarrow> Inl (lifecycle_error ''lifecycle_coordinate_not_found'')
      | Some cs \<Rightarrow>
          (case r of
             None \<Rightarrow> Inr (make_snapshot c None cs (target_pins dc c None))
           | Some rv \<Rightarrow>
               (case map_of (dc_revisions dc) (c, rv) of
                  None \<Rightarrow> Inl (lifecycle_error ''lifecycle_revision_not_found'')
                | Some rs \<Rightarrow> Inr (make_snapshot c r rs (target_pins dc c r)))))"

definition drain_snapshot :: "drain_controller \<Rightarrow> string \<Rightarrow> string option \<Rightarrow> lifecycle_snapshot result" where
  "drain_snapshot dc coordinate revision =
     rbind (drain_identifier coordinate) (\<lambda>c. rbind (drain_optional revision) (\<lambda>r. target_snapshot dc c r))"

section \<open>Recording and retiring\<close>

definition target_digest :: "string \<Rightarrow> string option \<Rightarrow> string" where
  "target_digest c r =
     take 16 (sha256_hex (c @ [char_of (0::nat)] @ (case r of None \<Rightarrow> ''*'' | Some s \<Rightarrow> if s = [] then ''*'' else s)))"

definition record_lifecycle ::
  "drain_controller \<Rightarrow> string \<Rightarrow> string \<Rightarrow> string option \<Rightarrow> nat \<Rightarrow> string option \<Rightarrow> nat \<Rightarrow> drain_controller" where
  "record_lifecycle dc action c r in_flight reason count =
     dc\<lparr>dc_sequence := dc_sequence dc + 1,
        dc_events := deque_append (dc_event_limit dc) (dc_events dc)
          \<lparr>le_sequence = dc_sequence dc + 1, le_action = action, le_target = target_digest c r,
           le_in_flight = in_flight, le_reason = reason, le_count = count\<rparr>\<rparr>"

definition set_revision :: "drain_controller \<Rightarrow> revision_key \<Rightarrow> lifecycle_state \<Rightarrow> drain_controller" where
  "set_revision dc k s = dc\<lparr>dc_revisions := AList.update k s (dc_revisions dc)\<rparr>"

definition set_coordinate :: "drain_controller \<Rightarrow> string \<Rightarrow> lifecycle_state \<Rightarrow> drain_controller" where
  "set_coordinate dc c s = dc\<lparr>dc_coordinates := AList.update c s (dc_coordinates dc)\<rparr>"

definition retire_revision :: "drain_controller \<Rightarrow> revision_key \<Rightarrow> string \<Rightarrow> bool \<Rightarrow> drain_controller" where
  "retire_revision dc k reason forced =
     (if map_of (dc_revisions dc) k = Some RETIRED then dc
      else let dc' = set_revision dc k RETIRED in
        record_lifecycle dc' (if forced then ''revision_force_retired'' else ''revision_retired'')
          (fst k) (Some (snd k)) (pin_count dc' (fst k) (Some (snd k))) (Some reason) 0)"

definition maybe_retire_coordinate :: "drain_controller \<Rightarrow> string \<Rightarrow> drain_controller" where
  "maybe_retire_coordinate dc c =
     (if map_of (dc_coordinates dc) c = Some DRAINING \<and>
         (\<forall>(k, s) \<in> set (coordinate_revisions dc c). s = RETIRED)
      then let dc' = set_coordinate dc c RETIRED in
        record_lifecycle dc' ''coordinate_retired'' c None (pin_count dc' c None) (Some ''drained'') 0
      else dc)"

text \<open>The loop over the revisions of a coordinate reads each revision's live state.\<close>

fun retire_draining :: "drain_controller \<Rightarrow> revision_key list \<Rightarrow> string \<Rightarrow> bool \<Rightarrow> drain_controller" where
  "retire_draining dc [] reason forced = dc"
| "retire_draining dc (k # ks) reason forced =
     retire_draining (if map_of (dc_revisions dc) k = Some DRAINING
       then retire_revision dc k reason forced else dc) ks reason forced"

definition retire_target ::
  "drain_controller \<Rightarrow> string \<Rightarrow> string option \<Rightarrow> string \<Rightarrow> bool \<Rightarrow> drain_controller" where
  "retire_target dc c r reason forced =
     (case r of
        None \<Rightarrow>
          (let dc1 = retire_draining dc (map fst (coordinate_revisions dc c)) reason forced;
               dc2 = set_coordinate dc1 c RETIRED
           in record_lifecycle dc2 (if forced then ''coordinate_force_retired'' else ''coordinate_retired'')
                c None (pin_count dc2 c None) (Some reason) 0)
      | Some rv \<Rightarrow> maybe_retire_coordinate (retire_revision dc (c, rv) reason forced) c)"

definition begin_revision_drain :: "drain_controller \<Rightarrow> revision_key \<Rightarrow> string \<Rightarrow> drain_controller" where
  "begin_revision_drain dc k reason =
     (if map_of (dc_revisions dc) k = Some ACCEPTING
      then let dc1 = set_revision dc k DRAINING;
               count = pin_count dc1 (fst k) (Some (snd k));
               dc2 = record_lifecycle dc1 ''revision_draining'' (fst k) (Some (snd k)) count (Some reason) 0
           in if count = 0 then retire_revision dc2 k ''drained'' False else dc2
      else dc)"

fun begin_drains :: "drain_controller \<Rightarrow> revision_key list \<Rightarrow> string \<Rightarrow> drain_controller" where
  "begin_drains dc [] reason = dc"
| "begin_drains dc (k # ks) reason = begin_drains (begin_revision_drain dc k reason) ks reason"

section \<open>Operations\<close>

definition drain_register ::
  "drain_controller \<Rightarrow> string \<Rightarrow> string \<Rightarrow> lifecycle_snapshot result \<times> drain_controller" where
  "drain_register dc coordinate revision =
     (case rbind (drain_identifier coordinate)
         (\<lambda>c. rbind (drain_identifier revision) (\<lambda>r. Inr (c, r))) of
        Inl e \<Rightarrow> (Inl e, dc)
      | Inr (c, r) \<Rightarrow>
          (case map_of (dc_revisions dc) (c, r) of
             Some s \<Rightarrow> (Inr (make_snapshot c (Some r) s (target_pins dc c (Some r))), dc)
           | None \<Rightarrow>
               (let cs = map_of (dc_coordinates dc) c in
                if cs \<noteq> None \<and> cs \<noteq> Some ACCEPTING
                then (Inl (lifecycle_error ''lifecycle_coordinate_not_accepting''), dc)
                else if dc_max_revisions dc \<le> length (dc_revisions dc)
                then (Inl (lifecycle_error ''lifecycle_state_capacity''), dc)
                else if cs = None \<and> dc_max_coordinates dc \<le> length (dc_coordinates dc)
                then (Inl (lifecycle_error ''lifecycle_state_capacity''), dc)
                else let dc1 = (if cs = None then set_coordinate dc c ACCEPTING else dc);
                         dc2 = record_lifecycle (set_revision dc1 (c, r) ACCEPTING)
                                 ''registered'' c (Some r) 0 None 0
                     in (Inr (make_snapshot c (Some r) ACCEPTING (target_pins dc2 c (Some r))), dc2))))"

definition drain_admit ::
  "drain_controller \<Rightarrow> string \<Rightarrow> string \<Rightarrow> string \<Rightarrow> bool \<Rightarrow> admission_pin result \<times> drain_controller" where
  "drain_admit dc coordinate revision pin_id cancellable =
     (case rbind (drain_identifier coordinate) (\<lambda>c. rbind (drain_identifier revision)
         (\<lambda>r. rbind (drain_identifier pin_id) (\<lambda>p. Inr (c, r, p)))) of
        Inl e \<Rightarrow> (Inl e, dc)
      | Inr (c, r, p) \<Rightarrow>
          (case (map_of (dc_revisions dc) (c, r), map_of (dc_coordinates dc) c) of
             (Some rs, Some cs) \<Rightarrow>
               (if cs \<noteq> ACCEPTING \<or> rs \<noteq> ACCEPTING
                then (Inl (lifecycle_error ''lifecycle_not_accepting''), dc)
                else case map_of (dc_pins dc) p of
                  Some pin \<Rightarrow>
                    (if ap_coordinate pin = c \<and> ap_revision pin = r \<and> ap_cancellable pin = cancellable
                     then (Inr pin, dc)
                     else (Inl (lifecycle_error ''lifecycle_pin_conflict''), dc))
                | None \<Rightarrow>
                    (if dc_max_in_flight dc \<le> length (dc_pins dc)
                     then (Inl (lifecycle_error ''lifecycle_pin_capacity''), dc)
                     else let pin = \<lparr>ap_id = p, ap_coordinate = c, ap_revision = r,
                            ap_cancellable = cancellable, ap_requested = False\<rparr>
                       in (Inr pin, dc\<lparr>dc_pins := AList.update p pin (dc_pins dc)\<rparr>)))
           | _ \<Rightarrow> (Inl (lifecycle_error ''lifecycle_revision_not_found''), dc)))"

definition drain_release :: "drain_controller \<Rightarrow> string \<Rightarrow> bool result \<times> drain_controller" where
  "drain_release dc pin_id =
     (case drain_identifier pin_id of
        Inl e \<Rightarrow> (Inl e, dc)
      | Inr p \<Rightarrow>
          (case map_of (dc_pins dc) p of
             None \<Rightarrow> (Inr False, dc)
           | Some pin \<Rightarrow>
               (let dc1 = dc\<lparr>dc_pins := AList.delete p (dc_pins dc)\<rparr>;
                    k = (ap_coordinate pin, ap_revision pin)
                in case map_of (dc_revisions dc1) k of
                     None \<Rightarrow> (Inl KeyError, dc1)
                   | Some s \<Rightarrow>
                       (let dc2 = (if s = DRAINING \<and> pin_count dc1 (fst k) (Some (snd k)) = 0
                                   then retire_revision dc1 k ''drained'' False else dc1)
                        in if map_of (dc_coordinates dc2) (ap_coordinate pin) = None
                           then (Inl KeyError, dc2)
                           else (Inr True, maybe_retire_coordinate dc2 (ap_coordinate pin))))))"

definition begin_drain ::
  "drain_controller \<Rightarrow> string \<Rightarrow> string option \<Rightarrow> string \<Rightarrow> lifecycle_snapshot result \<times> drain_controller" where
  "begin_drain dc coordinate revision reason =
     (case rbind (drain_identifier coordinate) (\<lambda>c. rbind (drain_optional revision)
         (\<lambda>r. rbind (drain_reason reason) (\<lambda>why. Inr (c, r, why)))) of
        Inl e \<Rightarrow> (Inl e, dc)
      | Inr (c, r, why) \<Rightarrow>
          (case map_of (dc_coordinates dc) c of
             None \<Rightarrow> (Inl (lifecycle_error ''lifecycle_coordinate_not_found''), dc)
           | Some cs \<Rightarrow>
               (case r of
                  None \<Rightarrow>
                    (let dc1 = (if cs = ACCEPTING
                           then record_lifecycle (set_coordinate dc c DRAINING)
                                  ''coordinate_draining'' c None 0 (Some why) 0
                           else dc);
                         dc2 = begin_drains dc1 (map fst (coordinate_revisions dc1 c)) why;
                         dc3 = maybe_retire_coordinate dc2 c
                     in (target_snapshot dc3 c None, dc3))
                | Some rv \<Rightarrow>
                    (if map_of (dc_revisions dc) (c, rv) = None
                     then (Inl (lifecycle_error ''lifecycle_revision_not_found''), dc)
                     else let dc1 = begin_revision_drain dc (c, rv) why
                          in (target_snapshot dc1 c r, dc1)))))"

text \<open>The cancellation loop of \<open>advance\<close>: the pins it replaces and the requests it makes.\<close>

fun request_pins :: "drain_controller \<Rightarrow> admission_pin list \<Rightarrow> string list \<times> drain_controller" where
  "request_pins dc [] = ([], dc)"
| "request_pins dc (p # ps) =
     (if ap_cancellable p \<and> \<not> ap_requested p
      then let dc1 = dc\<lparr>dc_pins := AList.update (ap_id p) (p\<lparr>ap_requested := True\<rparr>) (dc_pins dc)\<rparr>;
               (ids, dc2) = request_pins dc1 ps
           in (ap_id p # ids, dc2)
      else request_pins dc ps)"

definition drain_advance ::
  "drain_controller \<Rightarrow> string \<Rightarrow> string option \<Rightarrow> pyval \<Rightarrow> pyval option \<Rightarrow> pyval \<Rightarrow>
   drain_progress result \<times> drain_controller" where
  "drain_advance dc coordinate revision deadline now clock =
     (case rbind (drain_identifier coordinate) (\<lambda>c. rbind (drain_optional revision)
         (\<lambda>r. rbind (nonneg_time deadline)
           (\<lambda>d. rbind (nonneg_time (case now of None \<Rightarrow> clock | Some v \<Rightarrow> v))
             (\<lambda>t. rbind (target_snapshot dc c r) (\<lambda>sn. Inr (c, r, d, t, sn)))))) of
        Inl e \<Rightarrow> (Inl e, dc)
      | Inr (c, r, d, t, sn) \<Rightarrow>
          (if sn_state sn = RETIRED
           then (Inr \<lparr>dp_outcome = OUTCOME_RETIRED, dp_snapshot = sn, dp_requests = []\<rparr>, dc)
           else if sn_state sn \<noteq> DRAINING
           then (Inl (lifecycle_error ''lifecycle_not_draining''), dc)
           else if sn_in_flight sn = 0
           then let dc1 = retire_target dc c r ''drained'' False
                in (rbind (target_snapshot dc1 c r)
                      (\<lambda>sn'. Inr \<lparr>dp_outcome = OUTCOME_RETIRED, dp_snapshot = sn', dp_requests = []\<rparr>), dc1)
           else if t < d
           then (Inr \<lparr>dp_outcome = WAITING, dp_snapshot = sn, dp_requests = []\<rparr>, dc)
           else let (ids, dc1) = request_pins dc (target_pins dc c r) in
             if ids \<noteq> []
             then let dc2 = record_lifecycle dc1 ''cancellation_requested'' c r (sn_in_flight sn) None (length ids)
                  in (rbind (target_snapshot dc2 c r)
                        (\<lambda>sn'. Inr \<lparr>dp_outcome = CANCEL_REQUESTED, dp_snapshot = sn', dp_requests = ids\<rparr>), dc2)
             else (Inr \<lparr>dp_outcome = BLOCKED, dp_snapshot = sn, dp_requests = []\<rparr>, dc1)))"

definition force_retire ::
  "drain_controller \<Rightarrow> string \<Rightarrow> string option \<Rightarrow> force_policy \<Rightarrow> string \<Rightarrow>
   lifecycle_snapshot result \<times> drain_controller" where
  "force_retire dc coordinate revision policy reason =
     (case rbind (drain_identifier coordinate) (\<lambda>c. rbind (drain_optional revision)
         (\<lambda>r. rbind (drain_reason reason) (\<lambda>why. Inr (c, r, why)))) of
        Inl e \<Rightarrow> (Inl e, dc)
      | Inr (c, r, why) \<Rightarrow>
          (if policy \<noteq> ALLOW_IN_FLIGHT
           then (Inl (lifecycle_error ''lifecycle_force_retire_denied''), dc)
           else case target_snapshot dc c r of
             Inl e \<Rightarrow> (Inl e, dc)
           | Inr sn \<Rightarrow>
               (if sn_state sn \<noteq> DRAINING
                then (Inl (lifecycle_error ''lifecycle_not_draining''), dc)
                else let dc1 = retire_target dc c r why True in (target_snapshot dc1 c r, dc1))))"

section \<open>The order of the lifecycle\<close>

text \<open>Accepting before draining before retired: the order every operation respects.\<close>

instantiation lifecycle_state :: linorder
begin

fun lifecycle_rank :: "lifecycle_state \<Rightarrow> nat" where
  "lifecycle_rank ACCEPTING = 0"
| "lifecycle_rank DRAINING = 1"
| "lifecycle_rank RETIRED = 2"

definition less_eq_lifecycle_state :: "lifecycle_state \<Rightarrow> lifecycle_state \<Rightarrow> bool" where
  "less_eq_lifecycle_state s t \<longleftrightarrow> lifecycle_rank s \<le> lifecycle_rank t"

definition less_lifecycle_state :: "lifecycle_state \<Rightarrow> lifecycle_state \<Rightarrow> bool" where
  "less_lifecycle_state s t \<longleftrightarrow> lifecycle_rank s < lifecycle_rank t"

instance
proof
  fix s t u :: lifecycle_state
  show "s < t \<longleftrightarrow> s \<le> t \<and> \<not> t \<le> s" "s \<le> s" "s \<le> t \<or> t \<le> s"
    by (auto simp: less_eq_lifecycle_state_def less_lifecycle_state_def)
  show "s \<le> t \<Longrightarrow> t \<le> u \<Longrightarrow> s \<le> u"
    by (simp add: less_eq_lifecycle_state_def)
  show "s \<le> t \<Longrightarrow> t \<le> s \<Longrightarrow> s = t"
    by (cases s; cases t) (simp_all add: less_eq_lifecycle_state_def)
qed

end

lemma lifecycle_order [simp]: "ACCEPTING \<le> s" "s \<le> RETIRED" "RETIRED \<le> s \<longleftrightarrow> s = RETIRED"
  "DRAINING \<le> s \<longleftrightarrow> s \<noteq> ACCEPTING"
  by (cases s; simp add: less_eq_lifecycle_state_def)+

section \<open>What the helpers change\<close>

abbreviation coords :: "drain_controller \<Rightarrow> string \<rightharpoonup> lifecycle_state" where
  "coords dc \<equiv> map_of (dc_coordinates dc)"

abbreviation revs :: "drain_controller \<Rightarrow> revision_key \<rightharpoonup> lifecycle_state" where
  "revs dc \<equiv> map_of (dc_revisions dc)"

abbreviation pins :: "drain_controller \<Rightarrow> string \<rightharpoonup> admission_pin" where
  "pins dc \<equiv> map_of (dc_pins dc)"

definition pin_key :: "admission_pin \<Rightarrow> revision_key" where
  "pin_key p = (ap_coordinate p, ap_revision p)"

definition held_by :: "(string \<rightharpoonup> admission_pin) \<Rightarrow> revision_key \<Rightarrow> bool" where
  "held_by P k \<longleftrightarrow> (\<exists>p. p \<in> ran P \<and> pin_key p = k)"

definition dicts_ok :: "drain_controller \<Rightarrow> bool" where
  "dicts_ok dc \<longleftrightarrow> dict_ok (dc_coordinates dc) \<and> dict_ok (dc_revisions dc) \<and> dict_ok (dc_pins dc)"

definition same_bounds :: "drain_controller \<Rightarrow> drain_controller \<Rightarrow> bool" where
  "same_bounds dc dc' \<longleftrightarrow> dc_max_coordinates dc' = dc_max_coordinates dc \<and>
     dc_max_revisions dc' = dc_max_revisions dc \<and> dc_max_in_flight dc' = dc_max_in_flight dc \<and>
     dc_event_limit dc' = dc_event_limit dc"

text \<open>The events kept are numbered consecutively up to the last sequence number.\<close>

definition events_ok :: "drain_controller \<Rightarrow> bool" where
  "events_ok dc \<longleftrightarrow> length (dc_events dc) \<le> dc_event_limit dc \<and>
     map le_sequence (dc_events dc) = [dc_sequence dc - int (length (dc_events dc)) + 1 .. dc_sequence dc]"

named_theorems drain_simps \<open>what the helpers of the drain controller change\<close>

lemma record_lifecycle_fields [simp]:
  "dc_coordinates (record_lifecycle dc a c r n w m) = dc_coordinates dc"
  "dc_revisions (record_lifecycle dc a c r n w m) = dc_revisions dc"
  "dc_pins (record_lifecycle dc a c r n w m) = dc_pins dc"
  "dc_sequence (record_lifecycle dc a c r n w m) = dc_sequence dc + 1"
  "dc_max_coordinates (record_lifecycle dc a c r n w m) = dc_max_coordinates dc"
  "dc_max_revisions (record_lifecycle dc a c r n w m) = dc_max_revisions dc"
  "dc_max_in_flight (record_lifecycle dc a c r n w m) = dc_max_in_flight dc"
  "dc_event_limit (record_lifecycle dc a c r n w m) = dc_event_limit dc"
  by (simp_all add: record_lifecycle_def)

lemma set_revision_fields [simp]:
  "dc_coordinates (set_revision dc k s) = dc_coordinates dc"
  "revs (set_revision dc k s) = (revs dc)(k \<mapsto> s)"
  "dc_pins (set_revision dc k s) = dc_pins dc"
  "dc_sequence (set_revision dc k s) = dc_sequence dc"
  "dc_events (set_revision dc k s) = dc_events dc"
  by (simp_all add: set_revision_def)

lemma set_coordinate_fields [simp]:
  "coords (set_coordinate dc c s) = (coords dc)(c \<mapsto> s)"
  "dc_revisions (set_coordinate dc c s) = dc_revisions dc"
  "dc_pins (set_coordinate dc c s) = dc_pins dc"
  "dc_sequence (set_coordinate dc c s) = dc_sequence dc"
  "dc_events (set_coordinate dc c s) = dc_events dc"
  by (simp_all add: set_coordinate_def)

lemma dicts_ok_simps [simp]:
  "dicts_ok dc \<Longrightarrow> dicts_ok (set_revision dc k s)"
  "dicts_ok dc \<Longrightarrow> dicts_ok (set_coordinate dc c s)"
  "dicts_ok (record_lifecycle dc a c r n w m) = dicts_ok dc"
  by (simp_all add: dicts_ok_def set_revision_def set_coordinate_def)

lemma same_bounds_simps [simp]:
  "same_bounds dc (set_revision dc' k s) = same_bounds dc dc'"
  "same_bounds dc (set_coordinate dc' c s) = same_bounds dc dc'"
  "same_bounds dc (record_lifecycle dc' a c r n w m) = same_bounds dc dc'"
  "same_bounds dc dc"
  by (simp_all add: same_bounds_def set_revision_def set_coordinate_def)

lemma same_bounds_trans: "same_bounds a b \<Longrightarrow> same_bounds b c \<Longrightarrow> same_bounds a c"
  by (simp add: same_bounds_def)

lemma drop_upto: "int n \<le> b - a + 1 \<Longrightarrow> drop n [a .. b] = [a + int n .. b]"
proof (induction n arbitrary: a)
  case (Suc n)
  then have "[a .. b] = a # [a + 1 .. b]" by (simp add: upto_rec1)
  with Suc show ?case by (simp add: algebra_simps)
qed simp

lemma events_ok_record: "events_ok dc \<Longrightarrow> events_ok (record_lifecycle dc a c r n w m)"
proof -
  assume ok: "events_ok dc"
  let ?es = "dc_events dc" and ?s = "dc_sequence dc" and ?n = "dc_event_limit dc"
  let ?k = "Suc (length ?es) - ?n"
  have len: "length ?es \<le> ?n" using ok by (simp add: events_ok_def)
  have "map le_sequence ?es @ [?s + 1] = [?s - int (length ?es) + 1 .. ?s + 1]"
    using ok upto_rec2 [of "?s - int (length ?es) + 1" "?s + 1"] by (simp add: events_ok_def)
  moreover have "map le_sequence (dc_events (record_lifecycle dc a c r n w m)) =
      drop ?k (map le_sequence ?es @ [?s + 1])"
    by (simp add: record_lifecycle_def deque_append_def drop_map [symmetric] del: drop_append)
  moreover have "drop ?k [?s - int (length ?es) + 1 .. ?s + 1] = [?s - int (length ?es) + 1 + int ?k .. ?s + 1]"
    by (rule drop_upto) simp
  moreover have "length (dc_events (record_lifecycle dc a c r n w m)) = min ?n (Suc (length ?es))"
    by (simp add: record_lifecycle_def length_deque_append)
  moreover have "?s - int (length ?es) + 1 + int ?k = ?s + 1 - int (min ?n (Suc (length ?es))) + 1"
    using len by (auto simp: min_def)
  ultimately show ?thesis by (simp add: events_ok_def)
qed

lemma events_ok_set [simp]: "events_ok (set_revision dc k s) = events_ok dc"
  "events_ok (set_coordinate dc c s) = events_ok dc"
  by (simp_all add: events_ok_def set_revision_def set_coordinate_def)

lemma pin_count_0: "dict_ok (dc_pins dc) \<Longrightarrow> pin_count dc c (Some r) = 0 \<longleftrightarrow> \<not> held_by (pins dc) (c, r)"
proof -
  assume d: "dict_ok (dc_pins dc)"
  have "pin_count dc c (Some r) = 0 \<longleftrightarrow> (\<forall>p \<in> snd ` set (dc_pins dc). \<not> pin_of c (Some r) p)"
    by (simp add: pin_count_def target_pins_def filter_empty_conv)
  also have "\<dots> \<longleftrightarrow> \<not> held_by (pins dc) (c, r)"
    unfolding ran_distinct [OF d, symmetric] held_by_def pin_of_def pin_key_def by blast
  finally show ?thesis .
qed

lemma coordinate_revisions_mem: "dict_ok (dc_revisions dc) \<Longrightarrow>
  (k, s) \<in> set (coordinate_revisions dc c) \<longleftrightarrow> fst k = c \<and> revs dc k = Some s"
  using dict_mem_iff [of "dc_revisions dc" k s] by (auto simp: coordinate_revisions_def)

text \<open>A helper that keeps the bounds, the dictionaries and the numbering of the events.\<close>

definition tidy :: "drain_controller \<Rightarrow> drain_controller \<Rightarrow> bool" where
  "tidy dc dc' \<longleftrightarrow> same_bounds dc dc' \<and> (dicts_ok dc \<longrightarrow> dicts_ok dc') \<and>
     (events_ok dc \<longrightarrow> events_ok dc') \<and> dc_sequence dc \<le> dc_sequence dc'"

lemma tidy_refl [simp, intro]: "tidy dc dc"
  by (simp add: tidy_def)

lemma tidy_trans: "tidy a b \<Longrightarrow> tidy b c \<Longrightarrow> tidy a c"
  by (auto simp: tidy_def intro: same_bounds_trans)

lemma tidy_record: "tidy dc dc' \<Longrightarrow> tidy dc (record_lifecycle dc' a c r n w m)"
  by (simp add: tidy_def events_ok_record)

lemma tidy_set: "tidy dc dc' \<Longrightarrow> tidy dc (set_revision dc' k s)"
  "tidy dc dc' \<Longrightarrow> tidy dc (set_coordinate dc' c s)"
  by (simp_all add: tidy_def)

lemmas tidy_intros = tidy_refl tidy_record tidy_set

lemma retire_revision_effect [drain_simps]:
  "tidy dc (retire_revision dc k w f)"
  "coords (retire_revision dc k w f) = coords dc"
  "revs (retire_revision dc k w f) = (revs dc)(k \<mapsto> RETIRED)"
  "dc_pins (retire_revision dc k w f) = dc_pins dc"
  by (auto simp: retire_revision_def Let_def intro!: tidy_intros)

lemma maybe_retire_effect [drain_simps]:
  "tidy dc (maybe_retire_coordinate dc c)"
  "dicts_ok dc \<Longrightarrow> coords (maybe_retire_coordinate dc c) =
     (if coords dc c = Some DRAINING \<and> (\<forall>r s. revs dc (c, r) = Some s \<longrightarrow> s = RETIRED)
      then (coords dc)(c \<mapsto> RETIRED) else coords dc)"
  "dc_revisions (maybe_retire_coordinate dc c) = dc_revisions dc"
  "dc_pins (maybe_retire_coordinate dc c) = dc_pins dc"
  by (auto simp: maybe_retire_coordinate_def Let_def dicts_ok_def coordinate_revisions_mem intro!: tidy_intros)
    (fastforce simp: coordinate_revisions_mem)+

lemma begin_revision_drain_effect [drain_simps]:
  "tidy dc (begin_revision_drain dc k w)"
  "coords (begin_revision_drain dc k w) = coords dc"
  "dicts_ok dc \<Longrightarrow> revs (begin_revision_drain dc k w) =
     (if revs dc k = Some ACCEPTING
      then (revs dc)(k \<mapsto> if held_by (pins dc) k then DRAINING else RETIRED) else revs dc)"
  "dc_pins (begin_revision_drain dc k w) = dc_pins dc"
  using pin_count_0 [of "set_revision dc k DRAINING" "fst k" "snd k"]
  by (auto simp: begin_revision_drain_def Let_def retire_revision_effect dicts_ok_def
      intro: tidy_trans [OF _ retire_revision_effect(1)] intro!: tidy_intros)

lemma begin_drains_effect [drain_simps]:
  "tidy dc (begin_drains dc ks w) \<and> coords (begin_drains dc ks w) = coords dc \<and>
   dc_pins (begin_drains dc ks w) = dc_pins dc \<and>
   (dicts_ok dc \<longrightarrow> revs (begin_drains dc ks w) =
     (\<lambda>k. if k \<in> set ks \<and> revs dc k = Some ACCEPTING
      then Some (if held_by (pins dc) k then DRAINING else RETIRED) else revs dc k))"
proof (induction ks arbitrary: dc)
  case (Cons k ks)
  let ?d = "begin_revision_drain dc k w"
  have "dicts_ok dc \<longrightarrow> dicts_ok ?d" using begin_revision_drain_effect(1) [of dc k w] by (simp add: tidy_def)
  then show ?case
    using Cons.IH [of ?d] tidy_trans [OF begin_revision_drain_effect(1) [of dc k w], of "begin_drains ?d ks w"]
    by (auto simp: begin_revision_drain_effect fun_eq_iff)
qed simp

lemma retire_draining_effect [drain_simps]:
  "tidy dc (retire_draining dc ks w f) \<and> coords (retire_draining dc ks w f) = coords dc \<and>
   dc_pins (retire_draining dc ks w f) = dc_pins dc \<and>
   revs (retire_draining dc ks w f) =
     (\<lambda>k. if k \<in> set ks \<and> revs dc k = Some DRAINING then Some RETIRED else revs dc k)"
proof (induction ks arbitrary: dc)
  case (Cons k ks)
  let ?d = "if revs dc k = Some DRAINING then retire_revision dc k w f else dc"
  have "tidy dc ?d" by (simp add: retire_revision_effect)
  then show ?case
    using Cons.IH [of ?d] tidy_trans [of dc ?d "retire_draining ?d ks w f"]
    by (auto simp: retire_revision_effect fun_eq_iff)
qed simp

section \<open>The invariant\<close>

text \<open>
  Every revision has its coordinate and every coordinate a revision; pins are filed under their
  own id and belong to a revision; only cancellable pins are asked to cancel; a draining revision
  holds a pin; below a coordinate that drains nothing accepts, below a retired one nothing drains.
\<close>

definition drain_base ::
  "(string \<rightharpoonup> lifecycle_state) \<Rightarrow> (revision_key \<rightharpoonup> lifecycle_state) \<Rightarrow> (string \<rightharpoonup> admission_pin) \<Rightarrow> bool" where
  "drain_base C R P \<longleftrightarrow>
     (\<forall>c r. R (c, r) \<noteq> None \<longrightarrow> C c \<noteq> None) \<and>
     (\<forall>c. C c \<noteq> None \<longrightarrow> (\<exists>r. R (c, r) \<noteq> None)) \<and>
     (\<forall>p x. P p = Some x \<longrightarrow> ap_id x = p \<and> R (pin_key x) \<noteq> None \<and> (ap_requested x \<longrightarrow> ap_cancellable x)) \<and>
     (\<forall>k. R k = Some DRAINING \<longrightarrow> held_by P k) \<and>
     (\<forall>c r. C c = Some DRAINING \<longrightarrow> R (c, r) \<noteq> Some ACCEPTING) \<and>
     (\<forall>c r s. C c = Some RETIRED \<longrightarrow> R (c, r) = Some s \<longrightarrow> s = RETIRED)"

definition busy ::
  "(string \<rightharpoonup> lifecycle_state) \<Rightarrow> (revision_key \<rightharpoonup> lifecycle_state) \<Rightarrow> string \<Rightarrow> bool" where
  "busy C R c \<longleftrightarrow> (C c = Some DRAINING \<longrightarrow> (\<exists>r. R (c, r) = Some DRAINING))"

definition drain_core ::
  "(string \<rightharpoonup> lifecycle_state) \<Rightarrow> (revision_key \<rightharpoonup> lifecycle_state) \<Rightarrow> (string \<rightharpoonup> admission_pin) \<Rightarrow> bool" where
  "drain_core C R P \<longleftrightarrow> drain_base C R P \<and> (\<forall>c. busy C R c)"

definition within_caps :: "drain_controller \<Rightarrow> bool" where
  "within_caps dc \<longleftrightarrow> card (dom (coords dc)) \<le> dc_max_coordinates dc \<and>
     card (dom (revs dc)) \<le> dc_max_revisions dc \<and> card (dom (pins dc)) \<le> dc_max_in_flight dc"

definition drain_inv :: "drain_controller \<Rightarrow> bool" where
  "drain_inv dc \<longleftrightarrow> dicts_ok dc \<and> events_ok dc \<and> within_caps dc \<and>
     drain_core (coords dc) (revs dc) (pins dc)"

definition advanced :: "('k \<rightharpoonup> lifecycle_state) \<Rightarrow> ('k \<rightharpoonup> lifecycle_state) \<Rightarrow> bool" where
  "advanced m m' \<longleftrightarrow> (\<forall>k s. m k = Some s \<longrightarrow> (\<exists>s'. m' k = Some s' \<and> s \<le> s'))"

definition drain_progress_made :: "drain_controller \<Rightarrow> drain_controller \<Rightarrow> bool" where
  "drain_progress_made dc dc' \<longleftrightarrow> dc_sequence dc \<le> dc_sequence dc' \<and>
     advanced (coords dc) (coords dc') \<and> advanced (revs dc) (revs dc')"

lemma advanced_refl [simp]: "advanced m m"
  by (simp add: advanced_def)

lemma advanced_trans: "advanced m m' \<Longrightarrow> advanced m' m'' \<Longrightarrow> advanced m m''"
  unfolding advanced_def by (meson order_trans)

text \<open>What every operation has to establish.\<close>

definition drain_good :: "drain_controller \<Rightarrow> drain_controller \<Rightarrow> bool" where
  "drain_good dc dc' \<longleftrightarrow> drain_inv dc' \<and> drain_progress_made dc dc'"

lemma drain_good_refl [simp]: "drain_inv dc \<Longrightarrow> drain_good dc dc"
  by (simp add: drain_good_def drain_progress_made_def)

lemma drain_goodI:
  assumes "drain_inv dc" "tidy dc dc'"
    and "drain_core (coords dc') (revs dc') (pins dc')"
    and "dom (coords dc') = dom (coords dc)" "dom (revs dc') = dom (revs dc)"
    and "dom (pins dc') \<subseteq> dom (pins dc)"
    and "advanced (coords dc) (coords dc')" "advanced (revs dc) (revs dc')"
  shows "drain_good dc dc'"
  using assms card_mono [OF _ assms(6)]
  by (fastforce simp: drain_good_def drain_inv_def tidy_def within_caps_def same_bounds_def drain_progress_made_def)

lemma pin_has_revision:
  assumes "drain_core C R P" "P p = Some x"
  shows "ap_id x = p" "R (pin_key x) \<noteq> None" "C (fst (pin_key x)) \<noteq> None"
proof -
  show R: "ap_id x = p" "R (pin_key x) \<noteq> None"
    using assms by (simp_all add: drain_core_def drain_base_def)
  have "\<forall>c r. R (c, r) \<noteq> None \<longrightarrow> C c \<noteq> None"
    using assms(1) by (simp add: drain_core_def drain_base_def)
  with R(2) show "C (fst (pin_key x)) \<noteq> None" by (metis prod.collapse)
qed

lemma busy_upd: "busy C R c \<Longrightarrow> c \<noteq> fst k \<Longrightarrow> busy C (R(k \<mapsto> s)) c"
  by (cases k) (auto simp: busy_def)

lemma drain_baseI:
  assumes "\<forall>c r. R (c, r) \<noteq> None \<longrightarrow> C c \<noteq> None" "\<forall>c. C c \<noteq> None \<longrightarrow> (\<exists>r. R (c, r) \<noteq> None)"
    and "\<forall>p x. P p = Some x \<longrightarrow> ap_id x = p \<and> R (pin_key x) \<noteq> None \<and> (ap_requested x \<longrightarrow> ap_cancellable x)"
    and "\<forall>k. R k = Some DRAINING \<longrightarrow> held_by P k"
    and "\<forall>c r. C c = Some DRAINING \<longrightarrow> R (c, r) \<noteq> Some ACCEPTING"
    and "\<forall>c r s. C c = Some RETIRED \<longrightarrow> R (c, r) = Some s \<longrightarrow> s = RETIRED"
  shows "drain_base C R P"
  unfolding drain_base_def using assms by auto

lemma drain_baseD:
  assumes "drain_base C R P"
  shows "R (c, r) \<noteq> None \<Longrightarrow> C c \<noteq> None" "C c \<noteq> None \<Longrightarrow> \<exists>r. R (c, r) \<noteq> None"
    and "P p = Some x \<Longrightarrow> ap_id x = p \<and> R (pin_key x) \<noteq> None \<and> (ap_requested x \<longrightarrow> ap_cancellable x)"
    and "R k = Some DRAINING \<Longrightarrow> held_by P k"
    and "C c = Some DRAINING \<Longrightarrow> R (c, r) \<noteq> Some ACCEPTING"
    and "C c = Some RETIRED \<Longrightarrow> R (c, r) = Some s \<Longrightarrow> s = RETIRED"
  using assms unfolding drain_base_def by blast+

text \<open>Revisions that only advance, and pins that stay below them, keep the base invariant.\<close>

lemma drain_base_advance:
  assumes base: "drain_base C R P" and dom: "dom R' = dom R" and adv: "advanced R R'"
    and pins: "\<forall>p x. P' p = Some x \<longrightarrow> ap_id x = p \<and> R (pin_key x) \<noteq> None \<and> (ap_requested x \<longrightarrow> ap_cancellable x)"
    and held: "\<forall>k. R' k = Some DRAINING \<longrightarrow> held_by P' k"
  shows "drain_base C R' P'"
proof (rule drain_baseI)
  have some: "R' k \<noteq> None \<longleftrightarrow> R k \<noteq> None" for k using dom by (metis domIff)
  then show "\<forall>c r. R' (c, r) \<noteq> None \<longrightarrow> C c \<noteq> None" "\<forall>c. C c \<noteq> None \<longrightarrow> (\<exists>r. R' (c, r) \<noteq> None)"
    using drain_baseD(1,2) [OF base] by blast+
  show "\<forall>p x. P' p = Some x \<longrightarrow> ap_id x = p \<and> R' (pin_key x) \<noteq> None \<and> (ap_requested x \<longrightarrow> ap_cancellable x)"
    using pins some by blast
  show "\<forall>k. R' k = Some DRAINING \<longrightarrow> held_by P' k" by (rule held)
  show "\<forall>c r. C c = Some DRAINING \<longrightarrow> R' (c, r) \<noteq> Some ACCEPTING"
  proof (intro allI impI notI)
    fix c r assume c: "C c = Some DRAINING" and r: "R' (c, r) = Some ACCEPTING"
    from r some obtain s where s: "R (c, r) = Some s" by blast
    with adv r have "s \<le> ACCEPTING" by (force simp: advanced_def)
    with c s show False using drain_baseD(5) [OF base] by (cases s) auto
  qed
  show "\<forall>c r s. C c = Some RETIRED \<longrightarrow> R' (c, r) = Some s \<longrightarrow> s = RETIRED"
  proof (intro allI impI)
    fix c r s' assume c: "C c = Some RETIRED" and r: "R' (c, r) = Some s'"
    from r some obtain s where s: "R (c, r) = Some s" by blast
    with adv r have "s \<le> s'" by (force simp: advanced_def)
    with c s show "s' = RETIRED" using drain_baseD(6) [OF base] by force
  qed
qed

lemma maybe_retire_core:
  assumes "drain_base C R P" "\<forall>c'. c' \<noteq> c \<longrightarrow> busy C R c'"
  shows "drain_core (if C c = Some DRAINING \<and> (\<forall>r s. R (c, r) = Some s \<longrightarrow> s = RETIRED)
      then C(c \<mapsto> RETIRED) else C) R P"
proof (cases "C c = Some DRAINING \<and> (\<forall>r s. R (c, r) = Some s \<longrightarrow> s = RETIRED)")
  case True
  with assms show ?thesis by (auto simp: drain_core_def drain_base_def busy_def)
next
  case False
  have "busy C R c"
  proof (unfold busy_def, intro impI)
    assume C: "C c = Some DRAINING"
    with False obtain r s where "R (c, r) = Some s" "s \<noteq> RETIRED" by auto
    moreover from C assms(1) have "R (c, r) \<noteq> Some ACCEPTING" by (simp add: drain_base_def)
    ultimately show "\<exists>r. R (c, r) = Some DRAINING" by (cases s) auto
  qed
  with False assms show ?thesis by (auto simp: drain_core_def)
qed

lemma drain_register_good:
  assumes inv: "drain_inv dc"
  shows "drain_good dc (snd (drain_register dc coordinate revision))"
proof (cases "rbind (drain_identifier coordinate) (\<lambda>c. rbind (drain_identifier revision) (\<lambda>r. Inr (c, r)))")
  case (Inl e)
  with inv show ?thesis by (simp add: drain_register_def)
next
  case (Inr k)
  obtain c r where k: "k = (c, r)" by fastforce
  let ?cs = "coords dc c"
  let ?dc1 = "if ?cs = None then set_coordinate dc c ACCEPTING else dc"
  let ?dc2 = "record_lifecycle (set_revision ?dc1 (c, r) ACCEPTING) ''registered'' c (Some r) 0 None 0"
  have same: "snd (drain_register dc coordinate revision) = dc"
    if "revs dc (c, r) \<noteq> None \<or> ?cs \<noteq> None \<and> ?cs \<noteq> Some ACCEPTING \<or> dc_max_revisions dc \<le> length (dc_revisions dc)
      \<or> ?cs = None \<and> dc_max_coordinates dc \<le> length (dc_coordinates dc)"
    using that Inr k by (cases "revs dc (c, r)") (auto simp: drain_register_def Let_def)
  consider "snd (drain_register dc coordinate revision) = dc"
    | (added) "snd (drain_register dc coordinate revision) = ?dc2" "revs dc (c, r) = None"
      "?cs = None \<or> ?cs = Some ACCEPTING" "length (dc_revisions dc) < dc_max_revisions dc"
      "?cs = None \<longrightarrow> length (dc_coordinates dc) < dc_max_coordinates dc"
  proof (cases "snd (drain_register dc coordinate revision) = dc")
    case False
    with same have c: "revs dc (c, r) = None" "?cs = None \<or> ?cs = Some ACCEPTING"
      "length (dc_revisions dc) < dc_max_revisions dc"
      "?cs = None \<longrightarrow> length (dc_coordinates dc) < dc_max_coordinates dc"
      by (metis not_le)+
    have "snd (drain_register dc coordinate revision) = ?dc2"
      using c Inr k by (auto simp: drain_register_def Let_def)
    then show ?thesis using c by (rule that(2))
  qed blast
  then show ?thesis
  proof cases
    case 1
    with inv show ?thesis by simp
  next
    case added
    have t: "tidy dc ?dc2" by (intro tidy_intros) (simp add: tidy_set)
    have C: "coords ?dc2 = (if ?cs = None then (coords dc)(c \<mapsto> ACCEPTING) else coords dc)"
      and R: "revs ?dc2 = (revs dc)((c, r) \<mapsto> ACCEPTING)" and P: "pins ?dc2 = pins dc" by auto
    have base: "drain_base (coords dc) (revs dc) (pins dc)" and b: "\<forall>c. busy (coords dc) (revs dc) c"
      using inv by (simp_all add: drain_inv_def drain_core_def)
    have "drain_base (coords ?dc2) (revs ?dc2) (pins ?dc2)"
      unfolding C R P
    proof (rule drain_baseI, goal_cases)
      case 1 then show ?case using drain_baseD(1) [OF base] by auto
    next
      case 2 then show ?case using drain_baseD(2) [OF base] by auto (metis option.distinct(1))+
    next
      case 3 then show ?case using drain_baseD(3) [OF base] by auto
    next
      case 4 then show ?case using drain_baseD(4) [OF base] by auto
    next
      case 5 then show ?case using drain_baseD(5) [OF base] added(3) by auto
    next
      case 6 then show ?case using drain_baseD(6) [OF base] added(3) by auto
    qed
    moreover have "\<forall>c. busy (coords ?dc2) (revs ?dc2) c"
      unfolding C R using b added(2,3) by (auto simp: busy_def) (metis option.distinct(1))?
    ultimately have "drain_core (coords ?dc2) (revs ?dc2) (pins ?dc2)"
      by (simp add: drain_core_def)
    moreover have "within_caps ?dc2"
      using inv added(2,4,5) t length_dict [of "dc_revisions dc"] length_dict [of "dc_coordinates dc"]
      unfolding within_caps_def C R P
      by (auto simp: drain_inv_def dicts_ok_def within_caps_def tidy_def same_bounds_def domIff card_insert_if)
    moreover have "advanced (coords dc) (coords ?dc2)" "advanced (revs dc) (revs ?dc2)"
      unfolding C R using added(2) by (auto simp: advanced_def)
    ultimately show ?thesis
      using inv t added(1) by (simp add: drain_good_def drain_inv_def tidy_def drain_progress_made_def)
  qed
qed

lemma drain_admit_cases:
  obtains (kept) "snd (drain_admit dc coordinate revision pin_id cancellable) = dc"
  | (admitted) c r p pin where
      "drain_identifier coordinate = Inr c" "drain_identifier revision = Inr r"
      "drain_identifier pin_id = Inr p"
      "drain_admit dc coordinate revision pin_id cancellable =
         (Inr pin, dc\<lparr>dc_pins := AList.update p pin (dc_pins dc)\<rparr>)"
      "pin = \<lparr>ap_id = p, ap_coordinate = c, ap_revision = r, ap_cancellable = cancellable, ap_requested = False\<rparr>"
      "coords dc c = Some ACCEPTING" "revs dc (c, r) = Some ACCEPTING" "pins dc p = None"
      "length (dc_pins dc) < dc_max_in_flight dc"
proof (cases "snd (drain_admit dc coordinate revision pin_id cancellable) = dc")
  case False
  then obtain c r p where ids: "rbind (drain_identifier coordinate) (\<lambda>c. rbind (drain_identifier revision)
         (\<lambda>r. rbind (drain_identifier pin_id) (\<lambda>p. Inr (c, r, p)))) = Inr (c, r, p)"
    by (cases "rbind (drain_identifier coordinate) (\<lambda>c. rbind (drain_identifier revision)
         (\<lambda>r. rbind (drain_identifier pin_id) (\<lambda>p. Inr (c, r, p))))") (auto simp: drain_admit_def)
  have rc: "revs dc (c, r) = Some ACCEPTING" "coords dc c = Some ACCEPTING"
    using False ids
    by (cases "revs dc (c, r)"; cases "coords dc c"; simp add: drain_admit_def split: if_splits)+
  have p: "pins dc p = None"
    using False ids rc by (cases "pins dc p") (simp_all add: drain_admit_def split: if_splits)
  have l: "length (dc_pins dc) < dc_max_in_flight dc"
    using False ids rc p by (simp add: drain_admit_def not_le [symmetric] split: if_splits)
  show ?thesis
    using ids rc p l by (intro admitted) (auto simp: rbind_eq_Inr drain_admit_def Let_def)
qed (rule kept)

lemma drain_admit_good:
  assumes inv: "drain_inv dc"
  shows "drain_good dc (snd (drain_admit dc coordinate revision pin_id cancellable))"
proof (cases rule: drain_admit_cases [of dc coordinate revision pin_id cancellable])
  case kept
  with inv show ?thesis by simp
next
  case (admitted c r p pin)
  let ?P = "(pins dc)(p \<mapsto> pin)"
  have held: "held_by (pins dc) k \<Longrightarrow> held_by ?P k" for k
    using admitted(8) by (auto simp: held_by_def ran_def domIff split: if_splits) (metis option.distinct(1))
  then have "drain_core (coords dc) (revs dc) ?P"
    using inv admitted(5-7) by (auto simp: drain_inv_def drain_core_def drain_base_def pin_key_def)
  moreover have "card (dom ?P) \<le> dc_max_in_flight dc"
    using inv admitted(8,9) length_dict [of "dc_pins dc"]
    by (simp add: drain_inv_def dicts_ok_def card_insert_if domIff)
  ultimately show ?thesis
    using inv admitted(4)
    by (simp add: drain_good_def drain_inv_def dicts_ok_def events_ok_def within_caps_def drain_progress_made_def)
qed

lemma drain_identifier_idem: "drain_identifier s = Inr t \<Longrightarrow> drain_identifier t = Inr t"
  by (auto simp: drain_identifier_def clean_text_idem split: option.splits)

text \<open>Removing a pin and retiring the revision it was the last pin of.\<close>

lemma drain_release_effect:
  assumes inv: "drain_inv dc" and p: "drain_identifier pin_id = Inr p" "pins dc p = Some pin"
  defines "k \<equiv> pin_key pin" and "P' \<equiv> (pins dc)(p := None)"
  defines "R' \<equiv> if revs dc k = Some DRAINING \<and> \<not> held_by P' k then (revs dc)(k \<mapsto> RETIRED) else revs dc"
  shows "fst (drain_release dc pin_id) = Inr True"
    and "pins (snd (drain_release dc pin_id)) = P'"
    and "revs (snd (drain_release dc pin_id)) = R'"
    and "coords (snd (drain_release dc pin_id)) =
      (if coords dc (fst k) = Some DRAINING \<and> (\<forall>r s. R' (fst k, r) = Some s \<longrightarrow> s = RETIRED)
       then (coords dc)(fst k \<mapsto> RETIRED) else coords dc)"
    and "tidy dc (snd (drain_release dc pin_id))"
proof -
  let ?dc1 = "dc\<lparr>dc_pins := AList.delete p (dc_pins dc)\<rparr>"
  let ?dc2 = "if revs dc k = Some DRAINING \<and> pin_count ?dc1 (fst k) (Some (snd k)) = 0
     then retire_revision ?dc1 k ''drained'' False else ?dc1"
  have pk: "(ap_coordinate pin, ap_revision pin) = k" "fst k = ap_coordinate pin" "snd k = ap_revision pin"
    by (simp_all add: k_def pin_key_def)
  have "revs dc k \<noteq> None" "coords dc (fst k) \<noteq> None"
    using inv p(2) pin_has_revision unfolding k_def drain_inv_def by blast+
  then obtain s cs where s: "revs dc k = Some s" "coords dc (fst k) = Some cs" by auto
  have t1: "tidy dc ?dc1" by (auto simp: tidy_def same_bounds_def dicts_ok_def events_ok_def)
  have t2: "tidy ?dc1 ?dc2" by (simp add: retire_revision_effect)
  have dicts: "dicts_ok ?dc1" "dicts_ok ?dc2" using t1 t2 inv by (auto simp: drain_inv_def tidy_def)
  have cnt: "pin_count ?dc1 (fst k) (Some (snd k)) = 0 \<longleftrightarrow> \<not> held_by P' k"
    using pin_count_0 [of ?dc1 "fst k" "snd k"] dicts(1) by (simp add: dicts_ok_def P'_def)
  have e2: "coords ?dc2 = coords dc" "revs ?dc2 = R'" "pins ?dc2 = P'"
    using cnt by (auto simp: retire_revision_effect R'_def P'_def)
  have rel: "drain_release dc pin_id = (Inr True, maybe_retire_coordinate ?dc2 (fst k))"
    using p s pk e2(1) by (simp add: drain_release_def Let_def)
  show "fst (drain_release dc pin_id) = Inr True" using rel by simp
  show "pins (snd (drain_release dc pin_id)) = P'" using rel e2 by (simp add: maybe_retire_effect)
  show "revs (snd (drain_release dc pin_id)) = R'" using rel e2 by (simp add: maybe_retire_effect)
  show "coords (snd (drain_release dc pin_id)) =
      (if coords dc (fst k) = Some DRAINING \<and> (\<forall>r s. R' (fst k, r) = Some s \<longrightarrow> s = RETIRED)
       then (coords dc)(fst k \<mapsto> RETIRED) else coords dc)"
    unfolding rel snd_conv maybe_retire_effect(2) [OF dicts(2)] e2 ..
  show "tidy dc (snd (drain_release dc pin_id))"
    using tidy_trans [OF tidy_trans [OF t1 t2] maybe_retire_effect(1)] rel by simp
qed

lemma drain_release_cases:
  obtains (kept) "snd (drain_release dc pin_id) = dc"
  | (released) p pin where "drain_identifier pin_id = Inr p" "pins dc p = Some pin"
proof (cases "\<exists>p pin. drain_identifier pin_id = Inr p \<and> pins dc p = Some pin")
  case False
  then show ?thesis
    by (intro kept) (auto simp: drain_release_def split: sum.splits option.splits)
qed (blast intro: released)

lemma drain_release_good:
  assumes inv: "drain_inv dc"
  shows "drain_good dc (snd (drain_release dc pin_id))"
proof (cases rule: drain_release_cases [of dc pin_id])
  case (released p pin)
  note eff = drain_release_effect [OF inv released]
  let ?k = "pin_key pin" and ?P = "(pins dc)(p := None)" and ?dc' = "snd (drain_release dc pin_id)"
  define R where "R = (if revs dc ?k = Some DRAINING \<and> \<not> held_by ?P ?k then (revs dc)(?k \<mapsto> RETIRED) else revs dc)"
  have core: "drain_core (coords dc) (revs dc) (pins dc)" using inv by (simp add: drain_inv_def)
  have held: "held_by (pins dc) k \<Longrightarrow> k \<noteq> ?k \<Longrightarrow> held_by ?P k" for k
    using released(2) by (simp add: held_by_def ran_def) (metis option.inject)
  have k: "revs dc ?k \<noteq> None" using core released(2) pin_has_revision by blast
  have h: "\<forall>k. R k = Some DRAINING \<longrightarrow> held_by ?P k"
  proof (intro allI impI)
    fix k assume "R k = Some DRAINING"
    then have "revs dc k = Some DRAINING" "k = ?k \<longrightarrow> held_by ?P k" by (auto simp: R_def split: if_splits)
    moreover from this(1) have "held_by (pins dc) k"
      using core by (cases k) (simp add: drain_core_def drain_base_def)
    ultimately show "held_by ?P k" using held by blast
  qed
  have d: "dom R = dom (revs dc)" and a: "advanced (revs dc) R" using k by (auto simp: R_def advanced_def)
  have b: "drain_base (coords dc) (revs dc) (pins dc)" using core by (simp add: drain_core_def)
  have q: "\<forall>p x. ?P p = Some x \<longrightarrow> ap_id x = p \<and> revs dc (pin_key x) \<noteq> None \<and> (ap_requested x \<longrightarrow> ap_cancellable x)"
  proof (intro allI impI)
    fix q x assume "?P q = Some x"
    then have "pins dc q = Some x" by (simp split: if_splits)
    with b show "ap_id x = q \<and> revs dc (pin_key x) \<noteq> None \<and> (ap_requested x \<longrightarrow> ap_cancellable x)"
      by (rule drain_baseD(3))
  qed
  have "drain_base (coords dc) R ?P" by (rule drain_base_advance [OF b d a q h])
  moreover have "\<forall>c'. c' \<noteq> fst ?k \<longrightarrow> busy (coords dc) R c'"
    using core unfolding R_def by (auto simp: drain_core_def intro: busy_upd)
  ultimately have "drain_core (coords ?dc') (revs ?dc') (pins ?dc')"
    unfolding eff R_def [symmetric] by (rule maybe_retire_core)
  moreover have "dom (revs ?dc') = dom (revs dc)" "dom (coords ?dc') = dom (coords dc)"
    using k by (auto simp: eff domIff)
  moreover have "dom (pins ?dc') \<subseteq> dom (pins dc)" by (auto simp: eff)
  moreover have "advanced (revs dc) (revs ?dc')" "advanced (coords dc) (coords ?dc')"
    by (auto simp: eff advanced_def)
  ultimately show ?thesis using inv eff(5) by (intro drain_goodI)
qed (use inv in simp)

lemma drain_inv_parts:
  assumes "drain_inv dc"
  shows "drain_base (coords dc) (revs dc) (pins dc)" "\<And>c. busy (coords dc) (revs dc) c"
    "dicts_ok dc" "events_ok dc" "within_caps dc" "drain_core (coords dc) (revs dc) (pins dc)"
  using assms by (simp_all add: drain_inv_def drain_core_def)

text \<open>The revision case of \<open>begin_drain\<close>.\<close>

lemma begin_revision_drain_good:
  assumes inv: "drain_inv dc"
  shows "drain_good dc (begin_revision_drain dc k w)"
proof (cases "revs dc k = Some ACCEPTING")
  case True
  let ?dc' = "begin_revision_drain dc k w"
  note p = drain_inv_parts [OF inv]
  let ?R = "(revs dc)(k \<mapsto> if held_by (pins dc) k then DRAINING else RETIRED)"
  have e: "coords ?dc' = coords dc" "revs ?dc' = ?R" "pins ?dc' = pins dc"
    using True p(3) by (simp_all add: begin_revision_drain_effect)
  have dom: "dom ?R = dom (revs dc)" and adv: "advanced (revs dc) ?R" using True by (auto simp: advanced_def)
  have "drain_base (coords dc) ?R (pins dc)"
  proof (rule drain_base_advance [OF p(1) dom adv])
    show "\<forall>q x. pins dc q = Some x \<longrightarrow> ap_id x = q \<and> revs dc (pin_key x) \<noteq> None \<and> (ap_requested x \<longrightarrow> ap_cancellable x)"
      using drain_baseD(3) [OF p(1)] by blast
    show "\<forall>k'. ?R k' = Some DRAINING \<longrightarrow> held_by (pins dc) k'"
      using drain_baseD(4) [OF p(1)] by (simp add: split: if_splits)
  qed
  moreover have "busy (coords dc) ?R c" for c
  proof (unfold busy_def, intro impI)
    assume "coords dc c = Some DRAINING"
    with p(2) [of c] obtain r where "revs dc (c, r) = Some DRAINING" by (auto simp: busy_def)
    with True have "?R (c, r) = Some DRAINING" by auto
    then show "\<exists>r. ?R (c, r) = Some DRAINING" ..
  qed
  ultimately have "drain_core (coords ?dc') (revs ?dc') (pins ?dc')" by (simp add: e drain_core_def)
  then show ?thesis
    using inv begin_revision_drain_effect(1) dom adv by (intro drain_goodI) (simp_all only: e advanced_refl subset_refl)
next
  case False
  with inv show ?thesis by (simp add: begin_revision_drain_def)
qed

text \<open>The coordinate case of \<open>begin_drain\<close>.\<close>

definition drain_all :: "drain_controller \<Rightarrow> string \<Rightarrow> string \<Rightarrow> drain_controller" where
  "drain_all dc c why =
     (let dc1 = (if coords dc c = Some ACCEPTING
            then record_lifecycle (set_coordinate dc c DRAINING) ''coordinate_draining'' c None 0 (Some why) 0
            else dc)
      in maybe_retire_coordinate (begin_drains dc1 (map fst (coordinate_revisions dc1 c)) why) c)"

lemma coordinate_keys: "dict_ok (dc_revisions dc) \<Longrightarrow>
  k \<in> set (map fst (coordinate_revisions dc c)) \<longleftrightarrow> fst k = c \<and> revs dc k \<noteq> None"
proof -
  assume d: "dict_ok (dc_revisions dc)"
  have "k \<in> set (map fst (coordinate_revisions dc c)) \<longleftrightarrow> (\<exists>s. (k, s) \<in> set (coordinate_revisions dc c))"
    by force
  with coordinate_revisions_mem [OF d] show ?thesis by auto
qed

lemma drain_all_effect:
  assumes inv: "drain_inv dc" and c: "coords dc c = Some cs"
  defines "R \<equiv> \<lambda>k. if fst k = c \<and> revs dc k = Some ACCEPTING
      then Some (if held_by (pins dc) k then DRAINING else RETIRED) else revs dc k"
    and "C \<equiv> if cs = ACCEPTING then (coords dc)(c \<mapsto> DRAINING) else coords dc"
  shows "tidy dc (drain_all dc c why)" "revs (drain_all dc c why) = R" "pins (drain_all dc c why) = pins dc"
    and "coords (drain_all dc c why) =
      (if C c = Some DRAINING \<and> (\<forall>r s. R (c, r) = Some s \<longrightarrow> s = RETIRED) then C(c \<mapsto> RETIRED) else C)"
proof -
  note p = drain_inv_parts [OF inv]
  define dc1 where "dc1 = (if coords dc c = Some ACCEPTING
      then record_lifecycle (set_coordinate dc c DRAINING) ''coordinate_draining'' c None 0 (Some why) 0
      else dc)"
  let ?ks = "map fst (coordinate_revisions dc1 c)"
  let ?dc2 = "begin_drains dc1 ?ks why"
  have t1: "tidy dc dc1" unfolding dc1_def by (auto intro!: tidy_intros)
  then have dicts1: "dicts_ok dc1" using p(3) by (simp add: tidy_def)
  have e1: "coords dc1 = C" "revs dc1 = revs dc" "pins dc1 = pins dc"
    using c by (auto simp: dc1_def C_def)
  have t2: "tidy dc1 ?dc2" using begin_drains_effect by blast
  then have dicts2: "dicts_ok ?dc2" using dicts1 by (simp add: tidy_def)
  have keys: "k \<in> set ?ks \<longleftrightarrow> fst k = c \<and> revs dc k \<noteq> None" for k
    using coordinate_keys dicts1 e1 unfolding dicts_ok_def by metis
  have "revs ?dc2 = (\<lambda>k. if k \<in> set ?ks \<and> revs dc k = Some ACCEPTING
      then Some (if held_by (pins dc) k then DRAINING else RETIRED) else revs dc k)"
    using begin_drains_effect [of dc1 ?ks why] dicts1 e1 by auto
  also have "\<dots> = R" unfolding R_def keys by (auto simp: fun_eq_iff)
  finally have e2: "revs ?dc2 = R" "coords ?dc2 = C" "pins ?dc2 = pins dc"
    using begin_drains_effect [of dc1 ?ks why] e1 by auto
  have all: "drain_all dc c why = maybe_retire_coordinate ?dc2 c"
    by (simp add: drain_all_def Let_def dc1_def)
  show "tidy dc (drain_all dc c why)" unfolding all
    by (rule tidy_trans [OF tidy_trans [OF t1 t2] maybe_retire_effect(1)])
  show "revs (drain_all dc c why) = R" "pins (drain_all dc c why) = pins dc"
    unfolding all maybe_retire_effect(3,4) by (rule e2)+
  show "coords (drain_all dc c why) =
      (if C c = Some DRAINING \<and> (\<forall>r s. R (c, r) = Some s \<longrightarrow> s = RETIRED) then C(c \<mapsto> RETIRED) else C)"
    unfolding all maybe_retire_effect(2) [OF dicts2] e2 ..
qed

lemma drain_all_good:
  assumes inv: "drain_inv dc" and c: "coords dc c = Some cs"
  shows "drain_good dc (drain_all dc c why)"
proof -
  note p = drain_inv_parts [OF inv]
  note eff = drain_all_effect [OF inv c, of why]
  let ?dc' = "drain_all dc c why"
  define R where "R = (\<lambda>k. if fst k = c \<and> revs dc k = Some ACCEPTING
      then Some (if held_by (pins dc) k then DRAINING else RETIRED) else revs dc k)"
  define C where "C = (if cs = ACCEPTING then (coords dc)(c \<mapsto> DRAINING) else coords dc)"
  have e: "revs ?dc' = R" "pins ?dc' = pins dc" "coords ?dc' =
      (if C c = Some DRAINING \<and> (\<forall>r s. R (c, r) = Some s \<longrightarrow> s = RETIRED) then C(c \<mapsto> RETIRED) else C)"
    unfolding eff(2-4) R_def C_def by simp_all
  have dom: "dom R = dom (revs dc)" and adv: "advanced (revs dc) R" by (auto simp: R_def advanced_def dom_def split: if_splits)
  have base1: "drain_base (coords dc) R (pins dc)"
  proof (rule drain_base_advance [OF p(1) dom adv])
    show "\<forall>q x. pins dc q = Some x \<longrightarrow> ap_id x = q \<and> revs dc (pin_key x) \<noteq> None \<and> (ap_requested x \<longrightarrow> ap_cancellable x)"
      using drain_baseD(3) [OF p(1)] by blast
    show "\<forall>k'. R k' = Some DRAINING \<longrightarrow> held_by (pins dc) k'"
      using drain_baseD(4) [OF p(1)] by (simp add: R_def split: if_splits)
  qed
  have "drain_base C R (pins dc)"
  proof (rule drain_baseI)
    show "\<forall>c r. R (c, r) \<noteq> None \<longrightarrow> C c \<noteq> None" using drain_baseD(1) [OF base1] by (auto simp: C_def)
    show "\<forall>c. C c \<noteq> None \<longrightarrow> (\<exists>r. R (c, r) \<noteq> None)"
    proof (intro allI impI)
      fix c' assume "C c' \<noteq> None"
      then have "coords dc c' \<noteq> None" using c by (auto simp: C_def split: if_splits)
      then show "\<exists>r. R (c', r) \<noteq> None" by (rule drain_baseD(2) [OF base1])
    qed
    show "\<forall>p x. pins dc p = Some x \<longrightarrow> ap_id x = p \<and> R (pin_key x) \<noteq> None \<and> (ap_requested x \<longrightarrow> ap_cancellable x)"
      using drain_baseD(3) [OF base1] by blast
    show "\<forall>k. R k = Some DRAINING \<longrightarrow> held_by (pins dc) k" using drain_baseD(4) [OF base1] by blast
    show "\<forall>c r. C c = Some DRAINING \<longrightarrow> R (c, r) \<noteq> Some ACCEPTING"
    proof (intro allI impI)
      fix c' r assume C: "C c' = Some DRAINING"
      show "R (c', r) \<noteq> Some ACCEPTING"
      proof (cases "c' = c")
        case True
        then show ?thesis by (simp add: R_def)
      next
        case False
        with C have "coords dc c' = Some DRAINING" by (simp add: C_def split: if_splits)
        then show ?thesis by (rule drain_baseD(5) [OF base1])
      qed
    qed
    show "\<forall>c r s. C c = Some RETIRED \<longrightarrow> R (c, r) = Some s \<longrightarrow> s = RETIRED"
    proof (intro allI impI)
      fix c' r s assume "C c' = Some RETIRED" and R: "R (c', r) = Some s"
      then have "coords dc c' = Some RETIRED" by (auto simp: C_def split: if_splits)
      from drain_baseD(6) [OF base1 this R] show "s = RETIRED" .
    qed
  qed
  moreover have "\<forall>c'. c' \<noteq> c \<longrightarrow> busy C R c'"
    using p(2) by (auto simp: busy_def C_def R_def split: if_splits)
  ultimately have "drain_core (coords ?dc') (revs ?dc') (pins ?dc')"
    unfolding e by (rule maybe_retire_core)
  moreover have "dom (coords ?dc') = dom (coords dc)" "advanced (coords dc) (coords ?dc')"
    using c by (auto simp: eff advanced_def split: if_splits)
  ultimately show ?thesis
    using inv eff(1) dom adv by (intro drain_goodI) (simp_all add: eff(2,3) R_def)
qed

lemma begin_drain_cases:
  obtains (kept) "snd (begin_drain dc coordinate revision reason) = dc"
  | (coordinate) c cs why where "coords dc c = Some cs" "drain_identifier coordinate = Inr c"
      "revision = None" "begin_drain dc coordinate revision reason =
        (target_snapshot (drain_all dc c why) c None, drain_all dc c why)"
  | (revision) c r why where "drain_identifier coordinate = Inr c" "drain_optional revision = Inr (Some r)"
      "revs dc (c, r) \<noteq> None" "begin_drain dc coordinate revision reason =
        (target_snapshot (begin_revision_drain dc (c, r) why) c (Some r), begin_revision_drain dc (c, r) why)"
proof (cases "snd (begin_drain dc coordinate revision reason) = dc")
  case False
  then obtain c r why where ids: "rbind (drain_identifier coordinate) (\<lambda>c. rbind (drain_optional revision)
         (\<lambda>r. rbind (drain_reason reason) (\<lambda>why. Inr (c, r, why)))) = Inr (c, r, why)"
    by (cases "rbind (drain_identifier coordinate) (\<lambda>c. rbind (drain_optional revision)
         (\<lambda>r. rbind (drain_reason reason) (\<lambda>why. Inr (c, r, why))))") (auto simp: begin_drain_def)
  then have ok: "drain_identifier coordinate = Inr c" "drain_optional revision = Inr r"
    by (auto simp: rbind_eq_Inr)
  obtain cs where cs: "coords dc c = Some cs"
    using False ids by (cases "coords dc c") (simp_all add: begin_drain_def)
  show ?thesis
  proof (cases r)
    case None
    with ok(2) have "revision = None" by (auto simp: drain_optional_def rbind_eq_Inr split: option.splits)
    with None cs ids ok show ?thesis
      by (intro coordinate [of c cs why]) (simp_all add: begin_drain_def drain_all_def Let_def)
  next
    case (Some rv)
    have "revs dc (c, rv) \<noteq> None" using False ids cs Some by (simp add: begin_drain_def split: if_splits)
    with Some cs ids ok show ?thesis
      by (intro revision [of c rv why]) (auto simp: begin_drain_def Let_def)
  qed
qed (rule kept)

lemma begin_drain_good:
  assumes inv: "drain_inv dc"
  shows "drain_good dc (snd (begin_drain dc coordinate revision reason))"
proof (cases rule: begin_drain_cases [of dc coordinate revision reason])
  case kept
  with inv show ?thesis by simp
next
  case (coordinate c cs why)
  with drain_all_good [OF inv, of c cs why] show ?thesis by simp
next
  case (revision c r why)
  with begin_revision_drain_good [OF inv, of "(c, r)" why] show ?thesis by simp
qed

text \<open>Requests to cancel: only the marks of cancellable target pins change.\<close>

definition mark_pin :: "admission_pin set \<Rightarrow> admission_pin \<Rightarrow> admission_pin" where
  "mark_pin S x = (if x \<in> S \<and> ap_cancellable x then x\<lparr>ap_requested := True\<rparr> else x)"

lemma mark_pin_fields [simp]:
  "ap_id (mark_pin S x) = ap_id x" "pin_key (mark_pin S x) = pin_key x"
  "ap_cancellable (mark_pin S x) = ap_cancellable x" "ap_coordinate (mark_pin S x) = ap_coordinate x"
  "ap_revision (mark_pin S x) = ap_revision x" "pin_of c r (mark_pin S x) = pin_of c r x"
  "ap_requested (mark_pin S x) = (ap_requested x \<or> x \<in> S \<and> ap_cancellable x)"
  by (auto simp: mark_pin_def pin_key_def pin_of_def)

lemma request_pins_effect:
  assumes "dict_ok (dc_pins dc)" "\<forall>x \<in> set xs. pins dc (ap_id x) = Some x" "distinct (map ap_id xs)"
    and "\<forall>q y. pins dc q = Some y \<longrightarrow> ap_id y = q"
  shows "request_pins dc xs = (map ap_id (filter (\<lambda>x. ap_cancellable x \<and> \<not> ap_requested x) xs),
    dc\<lparr>dc_pins := map (\<lambda>(q, x). (q, mark_pin (set xs) x)) (dc_pins dc)\<rparr>)"
  using assms
proof (induction xs arbitrary: dc)
  case Nil
  have "map (\<lambda>(q, x). (q, mark_pin {} x)) (dc_pins dc) = dc_pins dc"
    by (intro map_idI) (auto simp: mark_pin_def)
  then show ?case by simp
next
  case (Cons x xs)
  have x: "pins dc (ap_id x) = Some x" using Cons.prems by simp
  show ?case
  proof (cases "ap_cancellable x \<and> \<not> ap_requested x")
    case True
    let ?d = "dc\<lparr>dc_pins := AList.update (ap_id x) (x\<lparr>ap_requested := True\<rparr>) (dc_pins dc)\<rparr>"
    have "ap_id y \<noteq> ap_id x" if "y \<in> set xs" for y using Cons.prems(3) that by (auto simp: image_iff)
    then have "\<forall>y \<in> set xs. pins ?d (ap_id y) = Some y" using Cons.prems(2) by simp
    with Cons.prems have IH: "request_pins ?d xs = (map ap_id (filter (\<lambda>x. ap_cancellable x \<and> \<not> ap_requested x) xs),
      ?d\<lparr>dc_pins := map (\<lambda>(q, x). (q, mark_pin (set xs) x)) (dc_pins ?d)\<rparr>)"
      by (intro Cons.IH) simp_all
    have "map (\<lambda>(q, y). (q, mark_pin (set xs) y)) (AList.update (ap_id x) (x\<lparr>ap_requested := True\<rparr>) (dc_pins dc))
        = map (\<lambda>(q, y). (q, mark_pin (set (x # xs)) y)) (dc_pins dc)"
      unfolding dict_update_map [OF Cons.prems(1) x] map_map
    proof (rule map_cong [OF refl], clarsimp)
      fix q y assume "(q, y) \<in> set (dc_pins dc)"
      then have y: "pins dc q = Some y" using Cons.prems(1) by simp
      show "(q = ap_id x \<longrightarrow> mark_pin (set xs) (x\<lparr>ap_requested := True\<rparr>) = mark_pin (insert x (set xs)) y) \<and>
        (q \<noteq> ap_id x \<longrightarrow> mark_pin (set xs) y = mark_pin (insert x (set xs)) y)"
      proof (intro conjI impI)
        assume "q = ap_id x"
        with x y have "y = x" by simp
        moreover have "x\<lparr>ap_requested := True\<rparr> \<notin> set xs"
        proof
          assume "x\<lparr>ap_requested := True\<rparr> \<in> set xs"
          then have "ap_id (x\<lparr>ap_requested := True\<rparr>) \<in> ap_id ` set xs" by (rule imageI)
          with Cons.prems(3) show False by simp
        qed
        ultimately show "mark_pin (set xs) (x\<lparr>ap_requested := True\<rparr>) = mark_pin (insert x (set xs)) y"
          using True by (simp add: mark_pin_def)
      next
        assume "q \<noteq> ap_id x"
        with y Cons.prems(4) have "y \<noteq> x" by auto
        then show "mark_pin (set xs) y = mark_pin (insert x (set xs)) y" by (simp add: mark_pin_def)
      qed
    qed
    with IH True show ?thesis by (simp add: Let_def)
  next
    case False
    have "mark_pin (set xs) y = mark_pin (set (x # xs)) y" for y
      using False by (auto simp: mark_pin_def)
    with False Cons show ?thesis by auto
  qed
qed

text \<open>In a well-formed state a draining target always has executions in flight.\<close>

lemma target_pins_held:
  assumes "dict_ok (dc_pins dc)" and that: "\<forall>q y. pins dc q = Some y \<longrightarrow> ap_id y = q"
  shows "x \<in> set (target_pins dc c r) \<longleftrightarrow> pins dc (ap_id x) = Some x \<and> pin_of c r x"
proof -
  have "x \<in> set (target_pins dc c r) \<longleftrightarrow> x \<in> ran (pins dc) \<and> pin_of c r x"
    by (auto simp: target_pins_def ran_distinct [OF assms(1)])
  also have "x \<in> ran (pins dc) \<longleftrightarrow> pins dc (ap_id x) = Some x"
    using that by (auto simp: ran_def)
  finally show ?thesis .
qed

lemma target_pins_ids:
  assumes "drain_inv dc"
  shows "\<forall>x \<in> set (target_pins dc c r). pins dc (ap_id x) = Some x" "distinct (map ap_id (target_pins dc c r))"
    "\<forall>q y. pins dc q = Some y \<longrightarrow> ap_id y = q"
proof -
  note p = drain_inv_parts [OF assms]
  show id: "\<forall>q y. pins dc q = Some y \<longrightarrow> ap_id y = q" using drain_baseD(3) [OF p(1)] by blast
  have d: "dict_ok (dc_pins dc)" using p(3) by (simp add: dicts_ok_def)
  show "\<forall>x \<in> set (target_pins dc c r). pins dc (ap_id x) = Some x"
    using target_pins_held [OF d id] by blast
  have "map ap_id (map snd (dc_pins dc)) = map fst (dc_pins dc)"
    using id d by auto
  then have "distinct (map ap_id (map snd (dc_pins dc)))" using d by (simp only:)
  then show "distinct (map ap_id (target_pins dc c r))"
    unfolding target_pins_def by (rule distinct_map_filter)
qed

lemma target_snapshot_ok:
  assumes "target_snapshot dc c r = Inr sn"
  shows "sn_in_flight sn = pin_count dc c r"
    "r = None \<Longrightarrow> coords dc c = Some (sn_state sn)"
    "r = Some rv \<Longrightarrow> revs dc (c, rv) = Some (sn_state sn)"
  using assms by (auto simp: target_snapshot_def make_snapshot_def pin_count_def split: option.splits)

lemma draining_in_flight:
  assumes inv: "drain_inv dc" and sn: "target_snapshot dc c r = Inr sn" "sn_state sn = DRAINING"
  shows "0 < sn_in_flight sn"
proof -
  note p = drain_inv_parts [OF inv]
  obtain rv where rv: "revs dc (c, rv) = Some DRAINING" "r = None \<or> r = Some rv"
    using target_snapshot_ok(2,3) [OF sn(1)] sn(2) p(2) [of c] by (cases r) (auto simp: busy_def)
  from drain_baseD(4) [OF p(1) rv(1)] obtain q x where x: "pins dc q = Some x" "pin_key x = (c, rv)"
    by (auto simp: held_by_def ran_def)
  from map_of_SomeD [OF x(1)] x(2) rv(2) have "x \<in> set (target_pins dc c r)"
    by (auto simp: target_pins_def pin_of_def pin_key_def image_iff intro: bexI [of _ "(q, x)"])
  then show ?thesis using target_snapshot_ok(1) [OF sn(1)] by (auto simp: pin_count_def intro: length_pos_if_in_set)
qed

definition requested_state :: "drain_controller \<Rightarrow> string \<Rightarrow> string option \<Rightarrow> drain_controller" where
  "requested_state dc c r =
     dc\<lparr>dc_pins := map (\<lambda>(q, x). (q, mark_pin (set (target_pins dc c r)) x)) (dc_pins dc)\<rparr>"

definition unrequested :: "drain_controller \<Rightarrow> string \<Rightarrow> string option \<Rightarrow> string list" where
  "unrequested dc c r = map ap_id (filter (\<lambda>x. ap_cancellable x \<and> \<not> ap_requested x) (target_pins dc c r))"

lemma request_target_pins:
  "drain_inv dc \<Longrightarrow> request_pins dc (target_pins dc c r) = (unrequested dc c r, requested_state dc c r)"
  using request_pins_effect [OF _ target_pins_ids] drain_inv_parts(3) [of dc]
  by (simp add: unrequested_def requested_state_def dicts_ok_def)

lemma requested_state_fields [simp]:
  "dc_coordinates (requested_state dc c r) = dc_coordinates dc"
  "dc_revisions (requested_state dc c r) = dc_revisions dc"
  "map_of (dc_pins (requested_state dc c r)) = map_option (mark_pin (set (target_pins dc c r))) \<circ> pins dc"
  "tidy dc (requested_state dc c r)"
  by (auto simp: requested_state_def map_of_map tidy_def same_bounds_def dicts_ok_def events_ok_def
      comp_def case_prod_beta)

lemma unrequested_none: "unrequested dc c r = [] \<Longrightarrow> requested_state dc c r = dc"
proof -
  assume "unrequested dc c r = []"
  then have "mark_pin (set (target_pins dc c r)) x = x" for x
    by (auto simp: unrequested_def filter_empty_conv mark_pin_def)
  then have "map (\<lambda>(q, x). (q, mark_pin (set (target_pins dc c r)) x)) (dc_pins dc) = dc_pins dc"
    by (intro map_idI) auto
  then show ?thesis by (simp add: requested_state_def)
qed

lemma drain_advance_cases:
  assumes inv: "drain_inv dc"
  obtains (kept) "snd (drain_advance dc coordinate revision deadline now clock) = dc"
      "\<forall>dp. fst (drain_advance dc coordinate revision deadline now clock) = Inr dp \<longrightarrow> dp_requests dp = []"
  | (requested) c r sn t d where "drain_identifier coordinate = Inr c" "drain_optional revision = Inr r"
      "nonneg_time deadline = Inr d" "nonneg_time (case now of None \<Rightarrow> clock | Some v \<Rightarrow> v) = Inr t"
      "\<not> t < d" "target_snapshot dc c r = Inr sn" "sn_state sn = DRAINING" "unrequested dc c r \<noteq> []"
      "drain_advance dc coordinate revision deadline now clock =
        (let dc' = record_lifecycle (requested_state dc c r) ''cancellation_requested'' c r
                     (sn_in_flight sn) None (length (unrequested dc c r))
         in (rbind (target_snapshot dc' c r) (\<lambda>sn'. Inr \<lparr>dp_outcome = CANCEL_REQUESTED,
               dp_snapshot = sn', dp_requests = unrequested dc c r\<rparr>), dc'))"
proof (cases "rbind (drain_identifier coordinate) (\<lambda>c. rbind (drain_optional revision)
         (\<lambda>r. rbind (nonneg_time deadline)
           (\<lambda>d. rbind (nonneg_time (case now of None \<Rightarrow> clock | Some v \<Rightarrow> v))
             (\<lambda>t. rbind (target_snapshot dc c r) (\<lambda>sn. Inr (c, r, d, t, sn))))))")
  case (Inl e)
  then show ?thesis by (intro kept) (simp_all add: drain_advance_def)
next
  case (Inr x)
  obtain c r d t sn where x: "x = (c, r, d, t, sn)" by (cases x) auto
  from Inr x have parts: "drain_identifier coordinate = Inr c" "drain_optional revision = Inr r"
    "nonneg_time deadline = Inr d" "nonneg_time (case now of None \<Rightarrow> clock | Some v \<Rightarrow> v) = Inr t"
    "target_snapshot dc c r = Inr sn" by (auto simp: rbind_eq_Inr)
  note def = drain_advance_def [of dc coordinate revision deadline now clock]
    Inr x request_target_pins [OF inv]
  show ?thesis
  proof (cases "sn_state sn = DRAINING \<and> \<not> t < d \<and> unrequested dc c r \<noteq> []")
    case True
    then have t: "sn_state sn = DRAINING" "\<not> t < d" "unrequested dc c r \<noteq> []" by blast+
    with draining_in_flight [OF inv parts(5)] show ?thesis
      by (intro requested [OF parts(1-4) t(2) parts(5) t(1,3)]) (simp add: def Let_def)
  next
    case False
    with draining_in_flight [OF inv parts(5)] show ?thesis
      by (intro kept) (auto simp: def Let_def unrequested_none)
  qed
qed

lemma drain_advance_good:
  assumes inv: "drain_inv dc"
  shows "drain_good dc (snd (drain_advance dc coordinate revision deadline now clock))"
proof (cases rule: drain_advance_cases [OF inv, of coordinate revision deadline now clock,
      case_names kept requested])
  case kept
  with inv show ?thesis by simp
next
  case (requested c r sn t d)
  note p = drain_inv_parts [OF inv]
  let ?dc' = "record_lifecycle (requested_state dc c r) ''cancellation_requested'' c r
                     (sn_in_flight sn) None (length (unrequested dc c r))"
  let ?P = "map_option (mark_pin (set (target_pins dc c r))) \<circ> pins dc"
  have "drain_base (coords dc) (revs dc) ?P"
  proof (rule drain_base_advance [OF p(1)])
    show "\<forall>q x. ?P q = Some x \<longrightarrow> ap_id x = q \<and> revs dc (pin_key x) \<noteq> None \<and> (ap_requested x \<longrightarrow> ap_cancellable x)"
      using drain_baseD(3) [OF p(1)] by fastforce
    show "\<forall>k. revs dc k = Some DRAINING \<longrightarrow> held_by ?P k"
    proof (intro allI impI)
      fix k assume "revs dc k = Some DRAINING"
      then have "held_by (pins dc) k" by (rule drain_baseD(4) [OF p(1)])
      then obtain q x where "pins dc q = Some x" "pin_key x = k"
        by (auto simp: held_by_def ran_def)
      then show "held_by ?P k"
        unfolding held_by_def ran_def
        by (intro exI [of _ "mark_pin (set (target_pins dc c r)) x"] conjI CollectI exI [of _ q]) simp_all
    qed
  qed simp_all
  with p(2) have "drain_core (coords ?dc') (revs ?dc') (pins ?dc')" by (simp add: drain_core_def)
  then have "drain_good dc ?dc'"
    using inv by (intro drain_goodI) (auto intro: tidy_record)
  with requested(9) show ?thesis by (simp add: Let_def)
qed

lemma retire_target_good:
  assumes inv: "drain_inv dc" and sn: "target_snapshot dc c r = Inr sn" "sn_state sn = DRAINING"
  shows "drain_good dc (retire_target dc c r w f)"
    and "target_snapshot (retire_target dc c r w f) c r \<noteq> Inl e"
    and "target_snapshot (retire_target dc c r w f) c r = Inr sn' \<Longrightarrow> sn_state sn' = RETIRED"
proof -
  note p = drain_inv_parts [OF inv]
  let ?dc' = "retire_target dc c r w f"
  have pins: "\<forall>q x. pins dc q = Some x \<longrightarrow> ap_id x = q \<and> revs dc (pin_key x) \<noteq> None \<and> (ap_requested x \<longrightarrow> ap_cancellable x)"
    using drain_baseD(3) [OF p(1)] by blast
  have "drain_good dc ?dc' \<and> coords ?dc' c \<noteq> None \<and>
    (r = None \<longrightarrow> coords ?dc' c = Some RETIRED) \<and> (\<forall>rv. r = Some rv \<longrightarrow> revs ?dc' (c, rv) = Some RETIRED)"
  proof (cases r)
    case None
    then have c: "coords dc c = Some DRAINING" using target_snapshot_ok(2) [OF sn(1)] sn(2) by simp
    let ?ks = "map fst (coordinate_revisions dc c)"
    define R where "R = (\<lambda>k. if fst k = c \<and> revs dc k = Some DRAINING then Some RETIRED else revs dc k)"
    have keys: "k \<in> set ?ks \<longleftrightarrow> fst k = c \<and> revs dc k \<noteq> None" for k
      using coordinate_keys p(3) unfolding dicts_ok_def by metis
    have "revs ?dc' = (\<lambda>k. if k \<in> set ?ks \<and> revs dc k = Some DRAINING then Some RETIRED else revs dc k)"
      using retire_draining_effect [of dc ?ks w f] None by (simp add: retire_target_def Let_def)
    also have "\<dots> = R" unfolding R_def keys by (auto simp: fun_eq_iff)
    finally have e: "revs ?dc' = R" "coords ?dc' = (coords dc)(c \<mapsto> RETIRED)" "pins ?dc' = pins dc" "tidy dc ?dc'"
      using retire_draining_effect [of dc ?ks w f] None
      by (auto simp: retire_target_def Let_def intro!: tidy_record tidy_set)
    have dom: "dom R = dom (revs dc)" and adv: "advanced (revs dc) R"
      by (auto simp: R_def advanced_def dom_def split: if_splits)
    have "drain_base (coords dc) R (pins dc)"
    proof (rule drain_base_advance [OF p(1) dom adv pins])
      show "\<forall>k'. R k' = Some DRAINING \<longrightarrow> held_by (pins dc) k'"
        using drain_baseD(4) [OF p(1)] by (simp add: R_def split: if_splits)
    qed
    moreover have "\<forall>c'. c' \<noteq> c \<longrightarrow> busy (coords dc) R c'" using p(2) by (auto simp: busy_def R_def)
    moreover have "\<forall>r s. R (c, r) = Some s \<longrightarrow> s = RETIRED"
    proof (intro allI impI)
      fix r s assume s: "R (c, r) = Some s"
      with drain_baseD(5) [OF p(1) c, of r] show "s = RETIRED" by (cases s) (auto simp: R_def split: if_splits)
    qed
    ultimately have "drain_core ((coords dc)(c \<mapsto> RETIRED)) R (pins dc)"
      using maybe_retire_core [of "coords dc" R "pins dc" c] c by auto
    then have "drain_good dc ?dc'"
      using c dom adv inv e(4) by (intro drain_goodI) (auto simp: e(1-3) advanced_def)
    then show ?thesis using None e(2) by simp
  next
    case (Some rv)
    then have rv: "revs dc (c, rv) = Some DRAINING" using target_snapshot_ok(3) [OF sn(1)] sn(2) by simp
    let ?R = "(revs dc)((c, rv) \<mapsto> RETIRED)" and ?dc1 = "retire_revision dc (c, rv) w f"
    have c: "coords dc c \<noteq> None" using drain_baseD(1) [OF p(1)] rv by blast
    have t1: "tidy dc ?dc1" by (simp add: retire_revision_effect)
    then have d1: "dicts_ok ?dc1" using p(3) by (simp add: tidy_def)
    have e: "revs ?dc' = ?R" "pins ?dc' = pins dc" "tidy dc ?dc'" "coords ?dc' =
        (if coords dc c = Some DRAINING \<and> (\<forall>r s. ?R (c, r) = Some s \<longrightarrow> s = RETIRED)
         then (coords dc)(c \<mapsto> RETIRED) else coords dc)"
      using Some tidy_trans [OF t1 maybe_retire_effect(1)]
      by (auto simp: retire_target_def maybe_retire_effect d1 retire_revision_effect)
    have dom: "dom ?R = dom (revs dc)" and adv: "advanced (revs dc) ?R" using rv by (auto simp: advanced_def)
    have "drain_base (coords dc) ?R (pins dc)"
    proof (rule drain_base_advance [OF p(1) dom adv pins])
      show "\<forall>k'. ?R k' = Some DRAINING \<longrightarrow> held_by (pins dc) k'"
        using drain_baseD(4) [OF p(1)] by (simp split: if_splits)
    qed
    moreover have "\<forall>c'. c' \<noteq> c \<longrightarrow> busy (coords dc) ?R c'" using p(2) by (auto intro: busy_upd)
    ultimately have "drain_core (coords ?dc') (revs ?dc') (pins ?dc')" unfolding e by (rule maybe_retire_core)
    moreover have "dom (coords ?dc') = dom (coords dc)" "advanced (coords dc) (coords ?dc')"
      using c by (auto simp: e(4) advanced_def)
    ultimately have "drain_good dc ?dc'"
      using inv e(3) dom adv by (intro drain_goodI) (simp_all only: e(1,2) subset_refl)
    moreover have "coords ?dc' c \<noteq> None" using c by (simp add: e(4))
    moreover have "revs ?dc' (c, rv) = Some RETIRED" by (simp add: e(1))
    ultimately show ?thesis using Some by simp
  qed
  then show "drain_good dc ?dc'" "target_snapshot ?dc' c r \<noteq> Inl e"
    "target_snapshot ?dc' c r = Inr sn' \<Longrightarrow> sn_state sn' = RETIRED"
    by (auto simp: target_snapshot_def make_snapshot_def split: option.splits)
qed

lemma force_retire_cases:
  obtains (kept) "snd (force_retire dc coordinate revision policy reason) = dc"
      "\<forall>sn. fst (force_retire dc coordinate revision policy reason) \<noteq> Inr sn"
  | (forced) c r sn w where "drain_identifier coordinate = Inr c" "drain_optional revision = Inr r"
      "policy = ALLOW_IN_FLIGHT" "target_snapshot dc c r = Inr sn" "sn_state sn = DRAINING"
      "force_retire dc coordinate revision policy reason =
        (target_snapshot (retire_target dc c r w True) c r, retire_target dc c r w True)"
proof (cases "rbind (drain_identifier coordinate) (\<lambda>c. rbind (drain_optional revision)
         (\<lambda>r. rbind (drain_reason reason) (\<lambda>why. Inr (c, r, why))))")
  case (Inl e)
  then show ?thesis by (intro kept) (simp_all add: force_retire_def)
next
  case (Inr x)
  obtain c r w where x: "x = (c, r, w)" by (cases x)
  with Inr have ids: "drain_identifier coordinate = Inr c" "drain_optional revision = Inr r"
    by (auto simp: rbind_eq_Inr)
  note def = force_retire_def [of dc coordinate revision policy reason] Inr x
  show ?thesis
  proof (cases "policy = ALLOW_IN_FLIGHT \<and> (\<exists>sn. target_snapshot dc c r = Inr sn \<and> sn_state sn = DRAINING)")
    case True
    then obtain sn where a: "policy = ALLOW_IN_FLIGHT" "target_snapshot dc c r = Inr sn" "sn_state sn = DRAINING"
      by blast
    with Inr x have "force_retire dc coordinate revision policy reason =
        (target_snapshot (retire_target dc c r w True) c r, retire_target dc c r w True)"
      by (simp add: force_retire_def Let_def)
    with ids a show ?thesis by (rule forced)
  next
    case False
    then show ?thesis
      by (intro kept) (cases "target_snapshot dc c r"; auto simp: def)+
  qed
qed

lemma force_retire_good:
  assumes "drain_inv dc"
  shows "drain_good dc (snd (force_retire dc coordinate revision policy reason))"
proof (cases rule: force_retire_cases [of dc coordinate revision policy reason])
  case kept
  with assms show ?thesis by simp
next
  case (forced c r sn w)
  with retire_target_good(1) [OF assms forced(4,5), of w True] show ?thesis by simp
qed

section \<open>Runs\<close>

inductive drain_step :: "drain_controller \<Rightarrow> drain_controller \<Rightarrow> bool" where
  step_register: "drain_step dc (snd (drain_register dc coordinate revision))"
| step_admit: "drain_step dc (snd (drain_admit dc coordinate revision pin_id cancellable))"
| step_release: "drain_step dc (snd (drain_release dc pin_id))"
| step_begin: "drain_step dc (snd (begin_drain dc coordinate target reason))"
| step_advance: "drain_step dc (snd (drain_advance dc coordinate target deadline now clock))"
| step_force: "drain_step dc (snd (force_retire dc coordinate target policy reason))"

definition drain_init :: "drain_controller \<Rightarrow> bool" where
  "drain_init dc \<longleftrightarrow> (\<exists>coordinates revisions in_flight events.
     new_controller coordinates revisions in_flight events = Inr dc)"

lemma drain_step_good: "drain_step dc dc' \<Longrightarrow> drain_inv dc \<Longrightarrow> drain_good dc dc'"
  by (induction rule: drain_step.induct)
    (simp_all add: drain_register_good drain_admit_good drain_release_good begin_drain_good
      drain_advance_good force_retire_good)

lemma drain_init_inv: "drain_init dc \<Longrightarrow> drain_inv dc"
  by (auto simp: drain_init_def new_controller_def drain_inv_def dicts_ok_def events_ok_def
      within_caps_def drain_core_def drain_base_def busy_def split: if_splits)

interpretation drain: monotone_system drain_init drain_step drain_inv drain_progress_made
  by unfold_locales
    (auto simp: drain_good_def drain_progress_made_def dest: drain_step_good intro: drain_init_inv
      order_trans advanced_trans)

section \<open>Draining completes\<close>

text \<open>Releasing a list of pins, one after the other.\<close>

fun release_all :: "drain_controller \<Rightarrow> string list \<Rightarrow> drain_controller" where
  "release_all dc [] = dc"
| "release_all dc (p # ps) = release_all (snd (drain_release dc p)) ps"

lemma release_all_run: "drain_step\<^sup>*\<^sup>* dc (release_all dc ps)"
proof (induction ps arbitrary: dc)
  case (Cons p ps)
  have "drain_step dc (snd (drain_release dc p))" by (rule step_release)
  with Cons show ?case by (simp add: converse_rtranclp_into_rtranclp)
qed simp

lemma drain_release_pins:
  assumes "drain_inv dc"
  shows "pins (snd (drain_release dc pin_id)) =
    (case drain_identifier pin_id of Inl e \<Rightarrow> pins dc | Inr p \<Rightarrow> (pins dc)(p := None))"
proof (cases "drain_identifier pin_id")
  case (Inr p)
  show ?thesis
  proof (cases "pins dc p")
    case None
    with Inr show ?thesis by (auto simp: drain_release_def fun_eq_iff)
  next
    case (Some pin)
    with Inr drain_release_effect(2) [OF assms Inr Some] show ?thesis by simp
  qed
qed (simp add: drain_release_def)

lemma release_all_pins:
  assumes "drain_inv dc" "\<forall>p \<in> set ps. drain_identifier p = Inr p"
  shows "pins (release_all dc ps) = (\<lambda>q. if q \<in> set ps then None else pins dc q)"
  using assms
proof (induction ps arbitrary: dc)
  case (Cons p ps)
  have "drain_inv (snd (drain_release dc p))"
    using drain_release_good [OF Cons.prems(1)] by (simp add: drain_good_def)
  with Cons show ?case by (auto simp: drain_release_pins fun_eq_iff)
qed simp

lemma progress_revs: "drain_progress_made dc dc' \<Longrightarrow> revs dc k = Some s \<Longrightarrow>
  \<exists>s'. revs dc' k = Some s' \<and> s \<le> s'"
  unfolding drain_progress_made_def advanced_def by blast

lemma unheld_retired:
  assumes "drain_inv dc" "revs dc k = Some s" "DRAINING \<le> s" "\<not> held_by (pins dc) k"
  shows "s = RETIRED"
  using drain_baseD(4) [OF drain_inv_parts(1) [OF assms(1)], of k] assms(2-4) by (cases s) auto

lemma release_all_retires:
  assumes inv: "drain_inv dc" and k: "revs dc k = Some DRAINING"
    and ids: "\<forall>p \<in> set ps. drain_identifier p = Inr p"
    and all: "\<forall>p x. pins dc p = Some x \<longrightarrow> pin_key x = k \<longrightarrow> p \<in> set ps"
  shows "revs (release_all dc ps) k = Some RETIRED"
proof -
  have inv': "drain_inv (release_all dc ps)" using inv release_all_run by (rule drain.run_inv)
  have "drain_progress_made dc (release_all dc ps)" using inv release_all_run by (rule drain.run_progress)
  from progress_revs [OF this k] obtain s where s: "revs (release_all dc ps) k = Some s" "DRAINING \<le> s"
    by blast
  moreover have "\<not> held_by (pins (release_all dc ps)) k"
    using all unfolding release_all_pins [OF inv ids] by (auto simp: held_by_def ran_def split: if_splits)
  ultimately show ?thesis using unheld_retired [OF inv'] by blast
qed

lemma requested_again:
  assumes "drain_inv dc"
  shows "unrequested (requested_state dc c r) c r = []"
proof -
  have "target_pins (requested_state dc c r) c r = map (mark_pin (set (target_pins dc c r))) (target_pins dc c r)"
    by (simp add: target_pins_def requested_state_def filter_map comp_def case_prod_beta)
  then show ?thesis by (auto simp: unrequested_def filter_empty_conv)
qed

lemma target_record [simp]:
  "target_pins (record_lifecycle dc a c' r' n w m) c r = target_pins dc c r"
  "unrequested (record_lifecycle dc a c' r' n w m) c r = unrequested dc c r"
  by (simp_all add: target_pins_def unrequested_def)

lemma requested_pin_count: "length (target_pins (requested_state dc c r) c r) = length (target_pins dc c r)"
  by (simp add: target_pins_def requested_state_def filter_map comp_def case_prod_beta)

lemma drain_optional_idem: "drain_optional v = Inr r \<Longrightarrow> drain_optional r = Inr r"
  by (auto simp: drain_optional_def rbind_eq_Inr dest: drain_identifier_idem split: option.splits)

lemma target_snapshot_make: "target_snapshot dc c r = Inr sn \<Longrightarrow>
  sn = make_snapshot c r (sn_state sn) (target_pins dc c r)"
  by (auto simp: target_snapshot_def make_snapshot_def split: option.splits)

text \<open>The state after a round of cancellation requests.\<close>

lemma requested_snapshot:
  fixes dc c r a n m
  assumes inv: "drain_inv dc" and sn: "target_snapshot dc c r = Inr sn"
  defines "dc' \<equiv> record_lifecycle (requested_state dc c r) a c r n None m"
  obtains sn' where "target_snapshot dc' c r = Inr sn'" "sn_state sn' = sn_state sn"
    "sn_in_flight sn' = sn_in_flight sn" "sn_requested sn' = sn_cancellable sn'"
proof
  let ?ps = "target_pins dc c r"
  let ?sn' = "make_snapshot c r (sn_state sn) (target_pins dc' c r)"
  have ps: "target_pins dc' c r = map (mark_pin (set ?ps)) ?ps"
    by (simp add: dc'_def target_pins_def requested_state_def filter_map comp_def case_prod_beta)
  show "target_snapshot dc' c r = Inr ?sn'"
    using sn by (auto simp: target_snapshot_def dc'_def make_snapshot_def split: option.splits)
  have "ap_cancellable x" if "x \<in> set ?ps" "ap_requested x" for x
    using that target_pins_ids(1) [OF inv] drain_baseD(3) [OF drain_inv_parts(1) [OF inv]] by blast
  then have "filter ap_requested (map (mark_pin (set ?ps)) ?ps) = filter ap_cancellable (map (mark_pin (set ?ps)) ?ps)"
    by (intro filter_cong) auto
  then show "sn_requested ?sn' = sn_cancellable ?sn'" by (simp add: make_snapshot_def ps)
  show "sn_in_flight ?sn' = sn_in_flight sn"
    using target_snapshot_ok(1) [OF sn] by (simp add: make_snapshot_def ps pin_count_def)
qed (simp add: make_snapshot_def)

lemma drain_advance_draining:
  assumes inv: "drain_inv dc"
    and ids: "drain_identifier coordinate = Inr c" "drain_optional target = Inr r"
    and times: "nonneg_time deadline = Inr d" "nonneg_time (case now of None \<Rightarrow> clock | Some v \<Rightarrow> v) = Inr t"
    and sn: "target_snapshot dc c r = Inr sn" "sn_state sn = DRAINING"
  shows "drain_advance dc coordinate target deadline now clock =
    (if t < d then (Inr \<lparr>dp_outcome = WAITING, dp_snapshot = sn, dp_requests = []\<rparr>, dc)
     else if unrequested dc c r = []
     then (Inr \<lparr>dp_outcome = BLOCKED, dp_snapshot = sn, dp_requests = []\<rparr>, dc)
     else let dc' = record_lifecycle (requested_state dc c r) ''cancellation_requested'' c r
                     (sn_in_flight sn) None (length (unrequested dc c r))
       in (rbind (target_snapshot dc' c r) (\<lambda>sn'. Inr \<lparr>dp_outcome = CANCEL_REQUESTED,
               dp_snapshot = sn', dp_requests = unrequested dc c r\<rparr>), dc'))"
  using ids times sn draining_in_flight [OF inv sn]
  by (auto simp: drain_advance_def request_target_pins [OF inv] Let_def unrequested_none)

section \<open>Examples\<close>

definition example_accepting :: drain_controller where
  "example_accepting = snd (drain_admit (snd (drain_register (projr (new_controller 10 10 10 5)) ''c'' ''v1''))
     ''c'' ''v1'' ''p'' True)"

definition example_draining :: drain_controller where
  "example_draining = snd (begin_drain example_accepting ''c'' (Some ''v1'') ''update'')"

lemma new_example: "new_controller 10 10 10 5 = Inr \<lparr>dc_max_coordinates = 10, dc_max_revisions = 10,
   dc_max_in_flight = 10, dc_event_limit = 5, dc_coordinates = [], dc_revisions = [], dc_pins = [],
   dc_events = [], dc_sequence = 0\<rparr>"
  by (simp add: new_controller_def)

lemma example_ids [simp]: "drain_identifier ''c'' = Inr ''c''" "drain_identifier ''v1'' = Inr ''v1''"
  "drain_identifier ''p'' = Inr ''p''" "drain_identifier ''q'' = Inr ''q''" "drain_reason ''update'' = Inr ''update''"
  by code_simp+

lemma example_accepting_reachable: "reach drain_init drain_step example_accepting"
proof -
  have "drain_init (projr (new_controller 10 10 10 5))"
    unfolding drain_init_def using new_example by force
  then have "reach drain_init drain_step (projr (new_controller 10 10 10 5))" by (rule reach_init)
  from reach_step [OF this step_register] show ?thesis
    unfolding example_accepting_def by (rule reach_step) (rule step_admit)
qed

lemma example_draining_reachable: "reach drain_init drain_step example_draining"
  unfolding example_draining_def by (rule reach_step [OF example_accepting_reachable step_begin])

lemma example_accepting_fields:
  "dc_coordinates example_accepting = [(''c'', ACCEPTING)]"
  "dc_revisions example_accepting = [((''c'', ''v1''), ACCEPTING)]"
  "dc_pins example_accepting = [(''p'', \<lparr>ap_id = ''p'', ap_coordinate = ''c'', ap_revision = ''v1'',
     ap_cancellable = True, ap_requested = False\<rparr>)]"
  by (simp_all add: example_accepting_def new_example drain_register_def drain_admit_def Let_def
      set_coordinate_def set_revision_def)

lemma example_draining_fields:
  "dc_coordinates example_draining = [(''c'', ACCEPTING)]"
  "dc_revisions example_draining = [((''c'', ''v1''), DRAINING)]"
  "dc_pins example_draining = [(''p'', \<lparr>ap_id = ''p'', ap_coordinate = ''c'', ap_revision = ''v1'',
     ap_cancellable = True, ap_requested = False\<rparr>)]"
  by (simp_all add: example_draining_def example_accepting_fields begin_drain_def Let_def drain_optional_def
      begin_revision_drain_def pin_count_def target_pins_def pin_of_def set_revision_def)

section \<open>Properties\<close>

lemma progress_coords: "drain_progress_made dc dc' \<Longrightarrow> coords dc k = Some s \<Longrightarrow>
  \<exists>s'. coords dc' k = Some s' \<and> s \<le> s'"
  unfolding drain_progress_made_def advanced_def by blast

text \<open>What is draining or retired, coordinate or revision, admits nothing.\<close>

lemma admit_needs_accepting:
  assumes "drain_identifier coordinate = Inr c" "drain_identifier revision = Inr r"
    and "(\<exists>s. coords dc c = Some s \<and> s \<noteq> ACCEPTING) \<or> (\<exists>s. revs dc (c, r) = Some s \<and> s \<noteq> ACCEPTING)"
  shows "fst (drain_admit dc coordinate revision pin_id cancellable) \<noteq> Inr pin"
  using assms by (cases "drain_identifier pin_id"; cases "coords dc c"; cases "revs dc (c, r)") (auto simp: drain_admit_def)

text \<open>
  C25. Draining is irreversible: from a reachable state, along any run, no coordinate and no
  revision disappears or moves back in the order accepting, draining, retired, and the event
  sequence number never decreases. Once a coordinate or a revision has begun to drain, no later
  state admits an execution to it.
\<close>

theorem drain_irreversible:
  assumes "reach drain_init drain_step dc" "drain_step\<^sup>*\<^sup>* dc dc'"
  shows "(\<forall>c s. coords dc c = Some s \<longrightarrow> (\<exists>s'. coords dc' c = Some s' \<and> s \<le> s')) \<and>
    (\<forall>c r s. revs dc (c, r) = Some s \<longrightarrow> (\<exists>s'. revs dc' (c, r) = Some s' \<and> s \<le> s')) \<and>
    dc_sequence dc \<le> dc_sequence dc' \<and>
    (\<forall>coordinate c revision r pin_id cancellable pin. drain_identifier coordinate = Inr c \<longrightarrow> drain_identifier revision = Inr r \<longrightarrow>
       coords dc c \<in> {Some DRAINING, Some RETIRED} \<or> revs dc (c, r) \<in> {Some DRAINING, Some RETIRED} \<longrightarrow>
       fst (drain_admit dc' coordinate revision pin_id cancellable) \<noteq> Inr pin)"
proof -
  have p: "drain_progress_made dc dc'"
    using drain.reachable_inv [OF assms(1)] assms(2) by (rule drain.run_progress)
  have up: "s' \<noteq> ACCEPTING" if "s \<le> s'" "s \<in> {DRAINING, RETIRED}" for s s' :: lifecycle_state
    using that by (cases s; cases s') (auto simp: less_eq_lifecycle_state_def)
  have "fst (drain_admit dc' coordinate revision pin_id cancellable) \<noteq> Inr pin"
    if "drain_identifier coordinate = Inr c" "drain_identifier revision = Inr r"
      "coords dc c \<in> {Some DRAINING, Some RETIRED} \<or> revs dc (c, r) \<in> {Some DRAINING, Some RETIRED}"
    for coordinate c revision r pin_id cancellable pin
  proof (rule admit_needs_accepting [OF that(1,2)])
    from that(3) obtain s where "s \<in> {DRAINING, RETIRED}" "coords dc c = Some s \<or> revs dc (c, r) = Some s" by blast
    then show "(\<exists>s. coords dc' c = Some s \<and> s \<noteq> ACCEPTING) \<or> (\<exists>s. revs dc' (c, r) = Some s \<and> s \<noteq> ACCEPTING)"
      using progress_coords [OF p] progress_revs [OF p] up by metis
  qed
  then show ?thesis using progress_coords [OF p] progress_revs [OF p] p unfolding drain_progress_made_def by blast
qed

theorem drain_irreversible_witness:
  "\<forall>pin. fst (drain_admit example_draining ''c'' ''v1'' ''q'' False) \<noteq> Inr pin"
proof -
  have "revs example_draining (''c'', ''v1'') = Some DRAINING" "drain_identifier ''c'' = Inr ''c''" "drain_identifier ''v1'' = Inr ''v1''"
    by (simp_all add: example_draining_fields)
  with drain_irreversible [OF example_draining_reachable rtranclp.rtrancl_refl] show ?thesis by blast
qed

text \<open>
  C26. Draining completes: in a reachable state, releasing pins (by their stored identifiers, in
  whatever order and mixed with other pins) that include all in-flight pins of a draining revision
  leaves the revision retired: the last release retires it.
\<close>

theorem drain_completes:
  assumes "reach drain_init drain_step dc" "revs dc (c, r) = Some DRAINING"
    and "\<forall>p \<in> set ps. drain_identifier p = Inr p"
    and "set (map ap_id (target_pins dc c (Some r))) \<subseteq> set ps"
  shows "revs (release_all dc ps) (c, r) = Some RETIRED"
proof (rule release_all_retires [OF drain.reachable_inv [OF assms(1)] assms(2,3)], intro allI impI)
  fix p x assume x: "pins dc p = Some x" "pin_key x = (c, r)"
  have inv: "drain_inv dc" using assms(1) by (rule drain.reachable_inv)
  have "ap_id x = p" using target_pins_ids(3) [OF inv] x(1) by blast
  moreover have "x \<in> set (target_pins dc c (Some r))"
    using map_of_SomeD [OF x(1)] x(2) by (force simp: target_pins_def pin_of_def pin_key_def)
  ultimately show "p \<in> set ps" using assms(4) by auto
qed

theorem drain_completes_witness:
  "revs (release_all example_draining [''q'', ''p'']) (''c'', ''v1'') = Some RETIRED"
  by (rule drain_completes [OF example_draining_reachable])
    (simp_all add: example_draining_fields target_pins_def pin_of_def)

text \<open>
  What \<open>advance\<close> does to a draining target of a reachable state: before the deadline it
  waits; from the deadline on it asks every cancellable execution that was not asked yet, once,
  naming exactly those, and a further call is blocked and changes nothing until a pin is released.
  The branch that retires a target with nothing in flight is never taken.
\<close>

theorem drain_advance_outcome:
  assumes "reach drain_init drain_step dc"
    and "drain_identifier coordinate = Inr c" "drain_optional target = Inr r"
    and "nonneg_time deadline = Inr d" "nonneg_time (case now of None \<Rightarrow> clock | Some v \<Rightarrow> v) = Inr t"
    and "target_snapshot dc c r = Inr sn" "sn_state sn = DRAINING"
  shows "0 < sn_in_flight sn \<and>
    (let (result, dc') = drain_advance dc coordinate target deadline now clock in
     if t < d then result = Inr \<lparr>dp_outcome = WAITING, dp_snapshot = sn, dp_requests = []\<rparr> \<and> dc' = dc
     else if unrequested dc c r = []
     then result = Inr \<lparr>dp_outcome = BLOCKED, dp_snapshot = sn, dp_requests = []\<rparr> \<and> dc' = dc
     else (\<exists>sn'. result = Inr \<lparr>dp_outcome = CANCEL_REQUESTED, dp_snapshot = sn', dp_requests = unrequested dc c r\<rparr> \<and>
       sn_in_flight sn' = sn_in_flight sn \<and> sn_requested sn' = sn_cancellable sn' \<and>
       drain_advance dc' coordinate target deadline now clock =
         (Inr \<lparr>dp_outcome = BLOCKED, dp_snapshot = sn', dp_requests = []\<rparr>, dc')))"
proof -
  have inv: "drain_inv dc" using assms(1) by (rule drain.reachable_inv)
  let ?dc' = "record_lifecycle (requested_state dc c r) ''cancellation_requested'' c r
                     (sn_in_flight sn) None (length (unrequested dc c r))"
  note adv = drain_advance_draining [OF inv assms(2-7)]
  obtain sn' where sn': "target_snapshot ?dc' c r = Inr sn'" "sn_state sn' = DRAINING"
    "sn_in_flight sn' = sn_in_flight sn" "sn_requested sn' = sn_cancellable sn'"
    using requested_snapshot [OF inv assms(6)] assms(7) by metis
  have "drain_advance ?dc' coordinate target deadline now clock =
      (Inr \<lparr>dp_outcome = BLOCKED, dp_snapshot = sn', dp_requests = []\<rparr>, ?dc')"
    if "\<not> t < d" "unrequested dc c r \<noteq> []"
  proof -
    have "snd (drain_advance dc coordinate target deadline now clock) = ?dc'"
      using that by (simp add: adv Let_def)
    then have "drain_inv ?dc'" using drain_advance_good [OF inv] by (metis drain_good_def)
    from drain_advance_draining [OF this assms(2-5) sn'(1,2)] that(1) show ?thesis
      by (simp add: requested_again [OF inv])
  qed
  with sn' draining_in_flight [OF inv assms(6,7)] show ?thesis
    by (auto simp: adv Let_def)
qed

theorem drain_advance_outcome_witness:
  "\<exists>sn' dc'. drain_advance example_draining ''c'' (Some ''v1'') (PyInt 5) (Some (PyInt 5)) PyNone =
     (Inr \<lparr>dp_outcome = CANCEL_REQUESTED, dp_snapshot = sn', dp_requests = [''p'']\<rparr>, dc')"
proof -
  let ?sn = "\<lparr>sn_coordinate = ''c'', sn_revision = Some ''v1'', sn_state = DRAINING, sn_in_flight = 1,
     sn_cancellable = 1, sn_requested = 0\<rparr>"
  have "drain_optional (Some ''v1'') = Inr (Some ''v1'')" by (simp add: drain_optional_def)
  moreover have "target_snapshot example_draining ''c'' (Some ''v1'') = Inr ?sn"
    "unrequested example_draining ''c'' (Some ''v1'') = [''p'']"
    by (simp_all add: target_snapshot_def example_draining_fields make_snapshot_def target_pins_def
        pin_of_def unrequested_def)
  ultimately show ?thesis
    using drain_advance_outcome [OF example_draining_reachable, of "''c''" "''c''" "Some ''v1''" "Some ''v1''"
        "PyInt 5" 5 PyNone "Some (PyInt 5)" 5 ?sn]
    by (auto simp: Let_def case_prod_beta prod_eq_iff)
qed

text \<open>
  C27. In every reachable state the four bounds hold (coordinates, revisions, executions in flight,
  retained events), every pin is stored under its own identifier and names a known revision of a known
  coordinate, nothing accepts below a draining coordinate, everything below a retired coordinate is
  retired, a revision without executions is never left draining, and the retained events carry
  consecutive sequence numbers up to the last one.
\<close>

theorem drain_states_consistent:
  assumes "reach drain_init drain_step dc"
  shows "length (dc_coordinates dc) \<le> dc_max_coordinates dc \<and> length (dc_revisions dc) \<le> dc_max_revisions dc \<and>
    length (dc_pins dc) \<le> dc_max_in_flight dc \<and> length (dc_events dc) \<le> dc_event_limit dc \<and>
    (\<forall>p x. pins dc p = Some x \<longrightarrow> ap_id x = p \<and> revs dc (pin_key x) \<noteq> None \<and> coords dc (ap_coordinate x) \<noteq> None) \<and>
    (\<forall>c r. coords dc c = Some DRAINING \<longrightarrow> revs dc (c, r) \<noteq> Some ACCEPTING) \<and>
    (\<forall>c r s. coords dc c = Some RETIRED \<longrightarrow> revs dc (c, r) = Some s \<longrightarrow> s = RETIRED) \<and>
    (\<forall>c r. revs dc (c, r) = Some DRAINING \<longrightarrow> 0 < pin_count dc c (Some r)) \<and>
    map le_sequence (dc_events dc) = [dc_sequence dc - int (length (dc_events dc)) + 1 .. dc_sequence dc]"
proof -
  note p = drain_inv_parts [OF drain.reachable_inv [OF assms]]
  have "0 < pin_count dc c (Some r)" if "revs dc (c, r) = Some DRAINING" for c r
    using pin_count_0 [of dc c r] drain_baseD(4) [OF p(1) that] p(3) by (auto simp: dicts_ok_def)
  moreover have "ap_id x = q \<and> revs dc (pin_key x) \<noteq> None \<and> coords dc (ap_coordinate x) \<noteq> None" if "pins dc q = Some x" for q x
    using pin_has_revision [OF p(6) that] by (simp add: pin_key_def)
  moreover have "length (dc_coordinates dc) \<le> dc_max_coordinates dc" "length (dc_revisions dc) \<le> dc_max_revisions dc"
    "length (dc_pins dc) \<le> dc_max_in_flight dc"
    using p(3,5) by (simp_all add: dicts_ok_def within_caps_def length_dict)
  moreover have "length (dc_events dc) \<le> dc_event_limit dc"
    "map le_sequence (dc_events dc) = [dc_sequence dc - int (length (dc_events dc)) + 1 .. dc_sequence dc]"
    using p(4) by (simp_all add: events_ok_def)
  ultimately show ?thesis using drain_baseD(5,6) [OF p(1)] by blast
qed

theorem drain_states_consistent_witness: "0 < pin_count example_draining ''c'' (Some ''v1'')"
  using drain_states_consistent [OF example_draining_reachable] by (simp add: example_draining_fields)

end
