(* ===== verification/Update_Store.thy ===== *)
theory Update_Store
  imports Hub_Prelude
begin

text \<open>
  Staged activation and rollback of capability revisions,
  \<open>src/src/capabilityhub/update_store.py\<close>. The two SQLite tables are dictionaries by their
  primary keys; every writing method is one immediate transaction, so it is a function of the
  tables that leaves them unchanged when it raises. Failures of SQLite itself are not modelled.

  The \<open>validate\<close> callback of \<open>activate\<close> and \<open>rollback\<close> is a parameter: it sees the pointers that
  are about to become active and either accepts them or raises.
\<close>

section \<open>Data\<close>

record update_state =
  us_active :: "string option"
  us_previous :: "string option"
  us_staged :: "string option"
  us_health :: "string option"

record revision_pin =
  pn_coordinate :: string
  pn_revision :: string

record update_store =
  st_updates :: "(string \<times> update_state) list"
  st_pins :: "(string \<times> revision_pin) list"

type_synonym pointers = "(string \<times> string) list"

definition no_update :: update_state where
  "no_update = \<lparr>us_active = None, us_previous = None, us_staged = None, us_health = None\<rparr>"

definition update_conflict :: "string \<Rightarrow> (string \<times> pyval) list \<Rightarrow> exn" where
  "update_conflict code details = HubError code CONFLICT False details"

fun opt_str :: "string option \<Rightarrow> pyval" where
  "opt_str None = PyNone"
| "opt_str (Some s) = PyStr s"

section \<open>Reading and writing rows\<close>

definition new_store :: update_store where
  "new_store = \<lparr>st_updates = [], st_pins = []\<rparr>"

definition read_state :: "update_store \<Rightarrow> string \<Rightarrow> update_state" where
  "read_state st c = (case map_of (st_updates st) c of None \<Rightarrow> no_update | Some u \<Rightarrow> u)"

definition write_state :: "update_store \<Rightarrow> string \<Rightarrow> update_state \<Rightarrow> update_store" where
  "write_state st c u = st\<lparr>st_updates := AList.update c u (st_updates st)\<rparr>"

fun active_rows :: "(string \<times> update_state) list \<Rightarrow> pointers" where
  "active_rows [] = []"
| "active_rows ((c, u) # rows) =
     (case us_active u of None \<Rightarrow> active_rows rows | Some r \<Rightarrow> (c, r) # active_rows rows)"

text \<open>\<open>_active_pointers\<close> in row order, and \<open>active_pointers\<close> ordered by coordinate.\<close>

definition stored_pointers :: "update_store \<Rightarrow> pointers" where
  "stored_pointers st = active_rows (st_updates st)"

definition active_pointers :: "update_store \<Rightarrow> pointers" where
  "active_pointers st = active_rows (sort_key fst (st_updates st))"

definition expect_active :: "string \<Rightarrow> update_state \<Rightarrow> string option \<Rightarrow> unit result" where
  "expect_active c u expected =
     (if us_active u \<noteq> expected
      then Inl (update_conflict ''active_revision_changed''
        [(''coordinate'', PyStr c), (''expected'', opt_str expected), (''actual'', opt_str (us_active u))])
      else Inr ())"

definition require_text :: "string \<Rightarrow> unit result" where
  "require_text s = (if s = [] then Inl ValueError else Inr ())"

section \<open>Operations\<close>

definition store_state :: "update_store \<Rightarrow> string \<Rightarrow> update_state result" where
  "store_state st c = rbind (require_text c) (\<lambda>_. Inr (read_state st c))"

definition store_states :: "update_store \<Rightarrow> int \<Rightarrow> (string \<times> update_state) list result" where
  "store_states st limit =
     (if \<not> (1 \<le> limit \<and> limit \<le> 1000) then Inl ValueError
      else Inr (take (nat limit) (sort_key fst (st_updates st))))"

text \<open>Runs the body of a transaction: an exception rolls it back.\<close>

definition commit ::
  "update_store \<Rightarrow> string \<Rightarrow> update_state result \<Rightarrow> update_state result \<times> update_store" where
  "commit st c r = (case r of Inl e \<Rightarrow> (Inl e, st) | Inr u \<Rightarrow> (Inr u, write_state st c u))"

definition bootstrap_active :: "update_store \<Rightarrow> string \<Rightarrow> string \<Rightarrow> update_state result \<times> update_store" where
  "bootstrap_active st c revision =
     (case rbind (require_text c) (\<lambda>_. require_text revision) of
        Inl e \<Rightarrow> (Inl e, st)
      | Inr _ \<Rightarrow>
          (let current = read_state st c in
           if us_active current = None \<and> us_staged current = None
           then commit st c (Inr (no_update\<lparr>us_active := Some revision\<rparr>))
           else if us_active current \<noteq> Some revision
           then (Inl (update_conflict ''active_revision_changed''
             [(''coordinate'', PyStr c), (''expected'', PyStr revision), (''actual'', opt_str (us_active current))]), st)
           else (Inr current, st)))"

definition stage_revision ::
  "update_store \<Rightarrow> string \<Rightarrow> string \<Rightarrow> string option \<Rightarrow> update_state result \<times> update_store" where
  "stage_revision st c revision expected =
     (let current = read_state st c in
      commit st c
        (rbind (require_text c) (\<lambda>_. rbind (require_text revision) (\<lambda>_.
         rbind (expect_active c current expected) (\<lambda>_.
           if us_staged current \<notin> {None, Some revision}
           then Inl (update_conflict ''stage_in_progress''
             [(''coordinate'', PyStr c), (''staged_revision'', opt_str (us_staged current))])
           else Inr \<lparr>us_active = us_active current, us_previous = us_previous current,
             us_staged = Some revision,
             us_health = (if us_staged current = Some revision then us_health current
                          else Some ''pending'')\<rparr>)))))"

definition record_health ::
  "update_store \<Rightarrow> string \<Rightarrow> string \<Rightarrow> bool \<Rightarrow> update_state result \<times> update_store" where
  "record_health st c revision passed =
     (let current = read_state st c in
      commit st c
        (rbind (require_text c) (\<lambda>_. rbind (require_text revision) (\<lambda>_.
           if us_staged current \<noteq> Some revision
           then Inl (update_conflict ''staged_revision_changed'' [(''coordinate'', PyStr c)])
           else Inr \<lparr>us_active = us_active current, us_previous = us_previous current,
             us_staged = Some revision,
             us_health = Some (if passed then ''passed'' else ''failed'')\<rparr>))))"

definition activate_revision ::
  "update_store \<Rightarrow> string \<Rightarrow> string \<Rightarrow> string option \<Rightarrow> (pointers \<Rightarrow> unit result) \<Rightarrow>
   update_state result \<times> update_store" where
  "activate_revision st c revision expected validate =
     (let current = read_state st c in
      commit st c
        (rbind (expect_active c current expected) (\<lambda>_.
           if us_staged current \<noteq> Some revision \<or> us_health current \<noteq> Some ''passed''
           then Inl (update_conflict ''staged_revision_not_healthy'' [(''coordinate'', PyStr c)])
           else rbind (validate (AList.update c revision (stored_pointers st)))
             (\<lambda>_. Inr \<lparr>us_active = Some revision, us_previous = us_active current,
               us_staged = None, us_health = None\<rparr>))))"

definition rollback_revision ::
  "update_store \<Rightarrow> string \<Rightarrow> string \<Rightarrow> (pointers \<Rightarrow> unit result) \<Rightarrow>
   update_state result \<times> update_store" where
  "rollback_revision st c expected validate =
     (let current = read_state st c in
      commit st c
        (rbind (expect_active c current (Some expected)) (\<lambda>_.
           case us_previous current of
             None \<Rightarrow> Inl (update_conflict ''no_rollback_revision'' [(''coordinate'', PyStr c)])
           | Some previous \<Rightarrow>
               rbind (validate (AList.update c previous (stored_pointers st)))
                 (\<lambda>_. Inr \<lparr>us_active = Some previous, us_previous = us_active current,
                   us_staged = None, us_health = None\<rparr>))))"

definition pin_active :: "update_store \<Rightarrow> string \<Rightarrow> string \<Rightarrow> revision_pin result \<times> update_store" where
  "pin_active st c pin_id =
     (case rbind (require_text c) (\<lambda>_. require_text pin_id) of
        Inl e \<Rightarrow> (Inl e, st)
      | Inr _ \<Rightarrow>
          (case us_active (read_state st c) of
             None \<Rightarrow> (Inl (update_conflict ''inactive_capability'' [(''coordinate'', PyStr c)]), st)
           | Some revision \<Rightarrow>
               (let pin = \<lparr>pn_coordinate = c, pn_revision = revision\<rparr> in
                case map_of (st_pins st) pin_id of
                  Some existing \<Rightarrow>
                    if existing \<noteq> pin then (Inl (update_conflict ''pin_id_conflict'' []), st)
                    else (Inr pin, st)
                | None \<Rightarrow> (Inr pin, st\<lparr>st_pins := AList.update pin_id pin (st_pins st)\<rparr>))))"

definition list_pins :: "update_store \<Rightarrow> string option \<Rightarrow> (string \<times> revision_pin) list result" where
  "list_pins st c =
     (let order = (\<lambda>(i, p). (pn_coordinate p, pn_revision p, i)) in
      case c of
        None \<Rightarrow> Inr (sort_key order (st_pins st))
      | Some c \<Rightarrow> rbind (require_text c)
          (\<lambda>_. Inr (sort_key order (filter (\<lambda>(i, p). pn_coordinate p = c) (st_pins st)))))"

definition release_pin :: "update_store \<Rightarrow> string \<Rightarrow> bool result \<times> update_store" where
  "release_pin st pin_id =
     (if pin_id = [] then (Inl ValueError, st)
      else (Inr (map_of (st_pins st) pin_id \<noteq> None),
            st\<lparr>st_pins := AList.delete pin_id (st_pins st)\<rparr>))"

section \<open>Invariant\<close>

definition update_ok :: "update_state \<Rightarrow> bool" where
  "update_ok u \<longleftrightarrow> (us_staged u = None \<longleftrightarrow> us_health u = None) \<and>
     us_health u \<in> {None, Some ''pending'', Some ''passed'', Some ''failed''} \<and>
     (us_previous u \<noteq> None \<longrightarrow> us_active u \<noteq> None)"

definition store_inv :: "update_store \<Rightarrow> bool" where
  "store_inv st \<longleftrightarrow> dict_ok (st_updates st) \<and> dict_ok (st_pins st) \<and> (\<forall>c. update_ok (read_state st c))"

inductive store_step :: "update_store \<Rightarrow> update_store \<Rightarrow> bool" where
  step_bootstrap: "store_step st (snd (bootstrap_active st c revision))"
| step_stage: "store_step st (snd (stage_revision st c revision expected))"
| step_health: "store_step st (snd (record_health st c revision passed))"
| step_activate: "store_step st (snd (activate_revision st c revision expected validate))"
| step_rollback: "store_step st (snd (rollback_revision st c current validate))"
| step_pin: "store_step st (snd (pin_active st c pin_id))"
| step_unpin: "store_step st (snd (release_pin st pin_id))"

lemma read_write [simp]: "read_state (write_state st c u) c' = (if c' = c then u else read_state st c')"
  by (simp add: read_state_def write_state_def)

lemma write_state_pins [simp]: "st_pins (write_state st c u) = st_pins st"
  by (simp add: write_state_def)

lemma read_pins [simp]: "read_state (st\<lparr>st_pins := ps\<rparr>) c = read_state st c"
  by (simp add: read_state_def)

lemma store_inv_write: "store_inv st \<Longrightarrow> update_ok u \<Longrightarrow> store_inv (write_state st c u)"
  by (simp add: store_inv_def) (simp add: write_state_def)

lemma store_inv_pins: "store_inv st \<Longrightarrow> dict_ok ps \<Longrightarrow> store_inv (st\<lparr>st_pins := ps\<rparr>)"
  by (simp add: store_inv_def)

lemma commit_simps [simp]:
  "commit st c (Inl e) = (Inl e, st)"
  "commit st c (Inr u) = (Inr u, write_state st c u)"
  by (simp_all add: commit_def)

lemma commit_inv:
  assumes "store_inv st" "\<forall>u. r = Inr u \<longrightarrow> update_ok u"
  shows "store_inv (snd (commit st c r))"
  using assms by (cases r) (simp_all add: store_inv_write)

lemma expect_active_Inr [simp]: "expect_active c u expected = Inr x \<longleftrightarrow> us_active u = expected"
  by (simp add: expect_active_def)

lemma update_okD: "store_inv st \<Longrightarrow> update_ok (read_state st c)"
  by (simp add: store_inv_def)

lemma store_step_inv: "store_step st st' \<Longrightarrow> store_inv st \<Longrightarrow> store_inv st'"
proof (induction rule: store_step.induct)
  case (step_bootstrap st c revision)
  then show ?case
    by (auto simp: bootstrap_active_def Let_def no_update_def update_ok_def intro: store_inv_write
        split: sum.splits)
next
  case (step_stage st c revision expected)
  from update_okD [OF this, of c] show ?case
    unfolding stage_revision_def Let_def
    by (intro commit_inv [OF step_stage]) (auto simp: rbind_eq_Inr update_ok_def split: if_splits)
next
  case (step_health st c revision passed)
  from update_okD [OF this, of c] show ?case
    unfolding record_health_def Let_def
    by (intro commit_inv [OF step_health]) (auto simp: rbind_eq_Inr update_ok_def split: if_splits)
next
  case (step_activate st c revision expected validate)
  show ?case
    unfolding activate_revision_def Let_def
    by (intro commit_inv [OF step_activate]) (auto simp: rbind_eq_Inr update_ok_def split: if_splits)
next
  case (step_rollback st c current validate)
  show ?case
    unfolding rollback_revision_def Let_def
    by (intro commit_inv [OF step_rollback]) (auto simp: rbind_eq_Inr update_ok_def split: option.splits)
next
  case (step_pin st c pin_id)
  then show ?case
    by (auto simp: pin_active_def Let_def store_inv_def split: sum.splits option.splits)
next
  case (step_unpin st pin_id)
  then show ?case by (auto simp: release_pin_def store_inv_def)
qed

definition store_init :: "update_store \<Rightarrow> bool" where
  "store_init st \<longleftrightarrow> st = new_store"

lemma store_init_inv: "store_init st \<Longrightarrow> store_inv st"
  by (simp add: store_init_def new_store_def store_inv_def read_state_def no_update_def update_ok_def)

interpretation updates: step_system store_init store_step store_inv
  by unfold_locales (auto intro: store_init_inv store_step_inv)

section \<open>Pointers\<close>

lemma map_of_active_rows: "dict_ok rows \<Longrightarrow> map_of (active_rows rows) c =
  (case map_of rows c of None \<Rightarrow> None | Some u \<Rightarrow> us_active u)"
proof (induction rows)
  case (Cons p rows)
  obtain c' u where p: "p = (c', u)" by fastforce
  have absent: "map_of rows c' = None" using Cons.prems p by (simp add: map_of_eq_None_iff)
  with Cons p show ?case by (cases "us_active u") auto
qed simp

lemma stored_pointers_active:
  "store_inv st \<Longrightarrow> map_of (stored_pointers st) c = us_active (read_state st c)"
  by (auto simp: stored_pointers_def map_of_active_rows store_inv_def read_state_def no_update_def
      split: option.splits)

text \<open>The pointers shown to a caller are the same, in the order of the coordinates.\<close>

lemma active_pointers_same: "store_inv st \<Longrightarrow> map_of (active_pointers st) = map_of (stored_pointers st)"
proof
  fix c assume inv: "store_inv st"
  let ?s = "sort_key fst (st_updates st)"
  have d: "dict_ok (st_updates st)" using inv by (simp add: store_inv_def)
  have "distinct (map fst ?s)"
    using d by (simp add: distinct_map)
  moreover have "map_of ?s = map_of (st_updates st)"
    using d calculation by (intro map_of_inject_set [THEN iffD2]) auto
  ultimately show "map_of (active_pointers st) c = map_of (stored_pointers st) c"
    using d by (simp add: active_pointers_def stored_pointers_def map_of_active_rows)
qed

section \<open>Pins along a run\<close>

inductive holding_step :: "string \<Rightarrow> update_store \<Rightarrow> update_store \<Rightarrow> bool" for pin_id where
  holding_other: "p \<noteq> pin_id \<Longrightarrow> holding_step pin_id st (snd (release_pin st p))"
| holding_pin: "holding_step pin_id st (snd (pin_active st c p))"
| holding_bootstrap: "holding_step pin_id st (snd (bootstrap_active st c revision))"
| holding_stage: "holding_step pin_id st (snd (stage_revision st c revision expected))"
| holding_health: "holding_step pin_id st (snd (record_health st c revision passed))"
| holding_activate: "holding_step pin_id st (snd (activate_revision st c revision expected validate))"
| holding_rollback: "holding_step pin_id st (snd (rollback_revision st c current validate))"

lemma commit_pins [simp]: "st_pins (snd (commit st c r)) = st_pins st"
  by (cases r) simp_all

lemma bootstrap_pins [simp]: "st_pins (snd (bootstrap_active st c revision)) = st_pins st"
  by (auto simp: bootstrap_active_def Let_def split: sum.splits)

lemma change_pins [simp]:
  "st_pins (snd (stage_revision st c revision expected)) = st_pins st"
  "st_pins (snd (record_health st c revision passed)) = st_pins st"
  "st_pins (snd (activate_revision st c revision expected validate)) = st_pins st"
  "st_pins (snd (rollback_revision st c current validate)) = st_pins st"
  by (simp_all add: stage_revision_def record_health_def activate_revision_def rollback_revision_def Let_def)

lemma holding_keeps: "holding_step pin_id st st' \<Longrightarrow> map_of (st_pins st) pin_id = Some p \<Longrightarrow>
  map_of (st_pins st') pin_id = Some p"
proof (induction rule: holding_step.induct)
  case (holding_pin st c p)
  then show ?case by (auto simp: pin_active_def Let_def split: sum.splits option.splits)
qed (auto simp: release_pin_def simp del: map_of_eq_Some_iff)

lemma holding_run: "(holding_step pin_id)\<^sup>*\<^sup>* st st' \<Longrightarrow> map_of (st_pins st) pin_id = Some p \<Longrightarrow>
  map_of (st_pins st') pin_id = Some p"
  by (induction rule: rtranclp_induct) (auto intro: holding_keeps)

section \<open>Examples\<close>

definition example_bootstrapped :: update_store where
  "example_bootstrapped = snd (bootstrap_active new_store ''c'' ''r1'')"

definition example_healthy :: update_store where
  "example_healthy = snd (record_health (snd (stage_revision example_bootstrapped ''c'' ''r2'' (Some ''r1'')))
     ''c'' ''r2'' True)"

lemma example_bootstrapped_eq: "example_bootstrapped =
  \<lparr>st_updates = [(''c'', \<lparr>us_active = Some ''r1'', us_previous = None, us_staged = None, us_health = None\<rparr>)],
   st_pins = []\<rparr>"
  by code_simp

lemma example_healthy_eq: "example_healthy =
  \<lparr>st_updates = [(''c'', \<lparr>us_active = Some ''r1'', us_previous = None, us_staged = Some ''r2'',
     us_health = Some ''passed''\<rparr>)], st_pins = []\<rparr>"
  by code_simp

lemma example_bootstrapped_reachable: "reach store_init store_step example_bootstrapped"
proof -
  have "reach store_init store_step new_store" by (rule reach_init) (simp add: store_init_def)
  then show ?thesis unfolding example_bootstrapped_def by (rule reach_step) (rule step_bootstrap)
qed

lemma example_healthy_reachable: "reach store_init store_step example_healthy"
  unfolding example_healthy_def
  by (rule reach_step [OF reach_step [OF example_bootstrapped_reachable step_stage] step_health])

section \<open>Properties\<close>

text \<open>
  Activation is gated: in a reachable state it succeeds exactly when the caller's expected
  active revision is current, the revision is the staged one, its health check passed, and
  \<open>validate\<close> accepts the pointers; these are exactly the pointers that are then active. It clears
  the staged revision, keeps the replaced one for rollback and touches no other coordinate; any
  refusal changes nothing.
\<close>

theorem activate_gated:
  assumes "reach store_init store_step st"
  shows "let current = read_state st c; new = AList.update c revision (stored_pointers st) in
    (if us_active current = expected \<and> us_staged current = Some revision \<and> us_health current = Some ''passed'' \<and>
        validate new = Inr ()
     then \<exists>st'. activate_revision st c revision expected validate =
         (Inr \<lparr>us_active = Some revision, us_previous = expected, us_staged = None, us_health = None\<rparr>, st') \<and>
       (\<forall>c'. us_active (read_state st' c') = map_of new c') \<and>
       (\<forall>c'. c' \<noteq> c \<longrightarrow> read_state st' c' = read_state st c') \<and>
       us_previous (read_state st' c) = expected \<and> us_staged (read_state st' c) = None \<and> st_pins st' = st_pins st
     else \<exists>e. activate_revision st c revision expected validate = (Inl e, st))"
proof -
  have inv: "store_inv st" using assms by (rule updates.reachable_inv)
  let ?new = "AList.update c revision (stored_pointers st)"
  show ?thesis
  proof (cases "us_active (read_state st c) = expected \<and> us_staged (read_state st c) = Some revision \<and>
      us_health (read_state st c) = Some ''passed'' \<and> validate ?new = Inr ()")
    case True
    then show ?thesis
      by (simp add: activate_revision_def Let_def stored_pointers_active [OF inv] expect_active_def)
  next
    case False
    then show ?thesis
      by (cases "validate ?new") (auto simp: activate_revision_def Let_def expect_active_def)
  qed
qed

theorem activate_gated_witness:
  "\<exists>st'. activate_revision example_healthy ''c'' ''r2'' (Some ''r1'') (\<lambda>_. Inr ()) =
     (Inr \<lparr>us_active = Some ''r2'', us_previous = Some ''r1'', us_staged = None, us_health = None\<rparr>, st') \<and>
     us_active (read_state st' ''c'') = Some ''r2''"
  using activate_gated [OF example_healthy_reachable, of "''c''" "''r2''" "Some ''r1''" "\<lambda>_. Inr ()"]
  by (auto simp: example_healthy_eq read_state_def Let_def)

text \<open>
  Rollback undoes activation: right after an activation that replaced a revision, a rollback
  that \<open>validate\<close> accepts makes the active pointers of every coordinate what they were, and a
  second rollback restores the activated revision again.
\<close>

theorem rollback_undoes_activate:
  assumes "reach store_init store_step st"
    and "activate_revision st c revision (Some old) validate = (Inr u, st')"
    and "\<forall>ps. validate' ps = Inr ()"
  shows "\<exists>u' st''. rollback_revision st' c revision validate' = (Inr u', st'') \<and>
    (\<forall>c'. us_active (read_state st'' c') = us_active (read_state st c')) \<and>
    (\<exists>u'' st3. rollback_revision st'' c old validate' = (Inr u'', st3) \<and>
      (\<forall>c'. us_active (read_state st3 c') = us_active (read_state st' c')))"
proof -
  from assms(2) have st: "us_active (read_state st c) = Some old"
    "st' = write_state st c \<lparr>us_active = Some revision, us_previous = Some old, us_staged = None, us_health = None\<rparr>"
    by (auto simp: activate_revision_def Let_def commit_def rbind_eq_Inr split: sum.splits if_splits)
  let ?r = "\<lambda>a p. \<lparr>us_active = Some a, us_previous = Some p, us_staged = None, us_health = None\<rparr>"
  have 1: "rollback_revision st' c revision validate' = (Inr (?r old revision), write_state st' c (?r old revision))"
    using st assms(3) by (simp add: rollback_revision_def Let_def expect_active_def)
  have 2: "rollback_revision (write_state st' c (?r old revision)) c old validate' =
      (Inr (?r revision old), write_state (write_state st' c (?r old revision)) c (?r revision old))"
    using assms(3) by (simp add: rollback_revision_def Let_def expect_active_def)
  from 1 2 st show ?thesis by auto
qed

theorem rollback_undoes_activate_witness:
  "\<exists>u st. rollback_revision (snd (activate_revision example_healthy ''c'' ''r2'' (Some ''r1'') (\<lambda>_. Inr ())))
     ''c'' ''r2'' (\<lambda>_. Inr ()) = (Inr u, st) \<and> us_active (read_state st ''c'') = Some ''r1''"
proof -
  have act: "activate_revision example_healthy ''c'' ''r2'' (Some ''r1'') (\<lambda>_. Inr ()) =
    (Inr \<lparr>us_active = Some ''r2'', us_previous = Some ''r1'', us_staged = None, us_health = None\<rparr>,
     snd (activate_revision example_healthy ''c'' ''r2'' (Some ''r1'') (\<lambda>_. Inr ())))"
    by (simp add: activate_revision_def example_healthy_eq read_state_def expect_active_def Let_def)
  have "us_active (read_state example_healthy ''c'') = Some ''r1''"
    by (simp add: example_healthy_eq read_state_def)
  with rollback_undoes_activate [OF example_healthy_reachable act, of "\<lambda>_. Inr ()"] show ?thesis by auto
qed

text \<open>
  No lost update: of two callers who read the same active revision, at most one activates;
  and while a revision is staged nobody else's is. After a successful activation every further
  activation, rollback or staging that expects the replaced revision is refused with
  \<open>active_revision_changed\<close>, and after a successful staging a different revision is refused with
  \<open>stage_in_progress\<close>.
\<close>

theorem update_no_lost_update:
  assumes "activate_revision st c revision expected validate = (Inr u, st') \<and> expected \<noteq> Some revision"
    and "stage_revision st1 c revision1 expected1 = (Inr u1, st1') \<and> other \<noteq> revision1 \<and> other \<noteq> []"
  shows "(\<exists>details. \<forall>r v. activate_revision st' c r expected v =
        (Inl (HubError ''active_revision_changed'' CONFLICT False details), st')) \<and>
    (\<exists>details. \<forall>r. r \<noteq> [] \<longrightarrow> c \<noteq> [] \<longrightarrow> stage_revision st' c r expected =
        (Inl (HubError ''active_revision_changed'' CONFLICT False details), st')) \<and>
    (\<forall>e v. expected = Some e \<longrightarrow> (\<exists>details. rollback_revision st' c e v =
        (Inl (HubError ''active_revision_changed'' CONFLICT False details), st'))) \<and>
    (\<exists>details. stage_revision st1' c other expected1 =
        (Inl (HubError ''stage_in_progress'' CONFLICT False details), st1'))"
proof -
  have st': "us_active (read_state st' c) = Some revision" "expected \<noteq> Some revision"
    using assms(1) by (auto simp: activate_revision_def Let_def commit_def rbind_eq_Inr split: sum.splits if_splits)
  have st1: "us_active (read_state st1' c) = expected1" "us_staged (read_state st1' c) = Some revision1" "c \<noteq> []"
    using assms(2) by (auto simp: stage_revision_def Let_def commit_def rbind_eq_Inr require_text_def
        split: sum.splits if_splits)
  show ?thesis
    using st' st1 assms(2)
    by (auto simp: activate_revision_def stage_revision_def rollback_revision_def Let_def expect_active_def
        update_conflict_def require_text_def)
qed

theorem update_no_lost_update_witness:
  "\<exists>details. stage_revision (snd (stage_revision example_bootstrapped ''c'' ''r2'' (Some ''r1''))) ''c'' ''r3'' (Some ''r1'') =
     (Inl (HubError ''stage_in_progress'' CONFLICT False details),
      snd (stage_revision example_bootstrapped ''c'' ''r2'' (Some ''r1'')))"
proof -
  have "\<exists>u. activate_revision example_healthy ''c'' ''r2'' (Some ''r1'') (\<lambda>_. Inr ()) =
      (Inr u, snd (activate_revision example_healthy ''c'' ''r2'' (Some ''r1'') (\<lambda>_. Inr ())))"
    "\<exists>u. stage_revision example_bootstrapped ''c'' ''r2'' (Some ''r1'') =
      (Inr u, snd (stage_revision example_bootstrapped ''c'' ''r2'' (Some ''r1'')))"
    by (simp_all add: activate_revision_def stage_revision_def example_healthy_eq example_bootstrapped_eq
        read_state_def expect_active_def require_text_def Let_def)
  then obtain u u1 where "activate_revision example_healthy ''c'' ''r2'' (Some ''r1'') (\<lambda>_. Inr ()) =
      (Inr u, snd (activate_revision example_healthy ''c'' ''r2'' (Some ''r1'') (\<lambda>_. Inr ())))"
    "stage_revision example_bootstrapped ''c'' ''r2'' (Some ''r1'') =
      (Inr u1, snd (stage_revision example_bootstrapped ''c'' ''r2'' (Some ''r1'')))" by blast
  with update_no_lost_update [of example_healthy "''c''" "''r2''" "Some ''r1''" "\<lambda>_. Inr ()" u _
      example_bootstrapped "''r2''" "Some ''r1''" u1 _ "''r3''"]
  show ?thesis by simp
qed

text \<open>
  A pin is immutable until released: along any run that does not release it, through
  stagings, activations and rollbacks, it keeps its coordinate and revision, and pinning again
  under its id either returns that pin or is refused.
\<close>

theorem pin_keeps_revision:
  assumes "(holding_step pin_id)\<^sup>*\<^sup>* st st'" "map_of (st_pins st) pin_id = Some p"
  shows "map_of (st_pins st') pin_id = Some p \<and>
    (\<forall>c q. fst (pin_active st' c pin_id) = Inr q \<longrightarrow> q = p \<and> pn_coordinate p = c)"
proof -
  have p: "map_of (st_pins st') pin_id = Some p" using assms by (rule holding_run)
  then have "q = p \<and> pn_coordinate p = c" if "fst (pin_active st' c pin_id) = Inr q" for c q
    using that by (auto simp: pin_active_def Let_def simp del: map_of_eq_Some_iff split: sum.splits option.splits if_splits)
  with p show ?thesis by blast
qed

theorem pin_keeps_revision_witness:
  "map_of (st_pins (snd (activate_revision (snd (pin_active example_healthy ''c'' ''p'')) ''c'' ''r2'' (Some ''r1'')
     (\<lambda>_. Inr ())))) ''p'' = Some \<lparr>pn_coordinate = ''c'', pn_revision = ''r1''\<rparr>"
proof -
  have "map_of (st_pins (snd (pin_active example_healthy ''c'' ''p''))) ''p'' =
      Some \<lparr>pn_coordinate = ''c'', pn_revision = ''r1''\<rparr>"
    by (simp add: pin_active_def example_healthy_eq read_state_def require_text_def Let_def)
  with pin_keeps_revision [OF r_into_rtranclp [of "holding_step ''p''", OF holding_activate]] show ?thesis by blast
qed

end
