(* ===== verification/Resilience.thy ===== *)
theory Resilience
  imports Python_Text Models
begin

text \<open>
  Retries and circuit breaking, \<open>src/src/capabilityhub/resilience.py\<close>: the retry policy, the
  per-provider circuit breaker with its generations and half-open probes, and the executor that
  combines them around a provider call.

  Clock readings are arguments of the breaker. The executor's callables (the clocks, the provider
  call, the classifier, the sleeper) are the parameter \<open>provider_env\<close>, acting on a state of the
  outside world; no other thread uses the breaker while an execution runs.
\<close>

section \<open>The retry policy\<close>

datatype failure_certainty = NOT_APPLIED | UNCERTAIN

record retry_decision =
  rt_allowed :: bool
  rt_reason :: string

record retry_policy =
  rp_max_attempts :: int
  rp_initial :: rat
  rp_multiplier :: rat
  rp_max_backoff :: rat

text \<open>A number passed where a \<open>float\<close> is expected and \<open>math.isfinite\<close> holds.\<close>

fun finite_number :: "pyval \<Rightarrow> rat result" where
  "finite_number (PyInt n) =
     (if 2 ^ 1024 - 2 ^ 970 \<le> \<bar>n\<bar> then Inl OverflowError else Inr (of_int n))"
| "finite_number (PyBool b) = Inr (if b then 1 else 0)"
| "finite_number (PyFloat x) = Inr x"
| "finite_number PyNonFinite = Inl ValueError"
| "finite_number _ = Inl TypeError"

definition new_retry_policy :: "int \<Rightarrow> pyval \<Rightarrow> pyval \<Rightarrow> pyval \<Rightarrow> retry_policy result" where
  "new_retry_policy max_attempts initial multiplier max_backoff =
     (if max_attempts < 1 then Inl ValueError
      else rbind (finite_number initial) (\<lambda>i. rbind (finite_number multiplier)
        (\<lambda>m. rbind (finite_number max_backoff)
          (\<lambda>b. if i < 0 \<or> b < 0 then Inl ValueError
               else if m < 1 then Inl ValueError
               else Inr \<lparr>rp_max_attempts = max_attempts, rp_initial = i, rp_multiplier = m,
                 rp_max_backoff = b\<rparr>))))"

definition retry_decide ::
  "exn \<Rightarrow> operation_spec \<Rightarrow> execution_request \<Rightarrow> failure_certainty \<Rightarrow> retry_decision" where
  "retry_decide error operation request certainty =
     (if certainty \<noteq> NOT_APPLIED then \<lparr>rt_allowed = False, rt_reason = ''failure_uncertain''\<rparr>
      else if err_category error \<notin> {PROVIDER, DEPENDENCY, TIMEOUT}
      then \<lparr>rt_allowed = False, rt_reason = ''error_category_denied''\<rparr>
      else if \<not> err_retryable error then \<lparr>rt_allowed = False, rt_reason = ''error_not_retryable''\<rparr>
      else if op_side_effect operation \<in> {NONE, READ}
      then \<lparr>rt_allowed = True, rt_reason = ''safe_operation''\<rparr>
      else if op_side_effect operation = REVERSIBLE_WRITE \<and>
        (case rq_idempotency_key request of None \<Rightarrow> False | Some key \<Rightarrow> strip key \<noteq> [])
      then \<lparr>rt_allowed = True, rt_reason = ''idempotency_key_present''\<rparr>
      else \<lparr>rt_allowed = False, rt_reason = ''operation_not_safe_to_repeat''\<rparr>)"

text \<open>
  \<open>multiplier ** (retry_number - 1)\<close> raises \<open>OverflowError\<close> when the power is no longer a finite
  float; then the delay is the maximum, even from an initial backoff of 0.
\<close>

definition backoff_seconds :: "retry_policy \<Rightarrow> int \<Rightarrow> rat result" where
  "backoff_seconds p retry_number =
     (if retry_number < 1 then Inl ValueError
      else let power = rp_multiplier p ^ nat (retry_number - 1) in
        if 2 ^ 1024 - 2 ^ 970 \<le> power then Inr (rp_max_backoff p)
        else Inr (min (rp_initial p * power) (rp_max_backoff p)))"

section \<open>The circuit breaker\<close>

datatype circuit_state = CLOSED | OPEN | HALF_OPEN

record circuit_permit =
  cp_provider :: string
  cp_generation :: int
  cp_probe :: bool

record circuit_entry =
  cn_state :: circuit_state
  cn_failures :: int
  cn_opened_at :: "rat option"
  cn_probe :: bool
  cn_in_flight :: int
  cn_generation :: int

text \<open>The entries are an \<open>OrderedDict\<close>, least recently used first.\<close>

record circuit_breaker =
  cb_threshold :: int
  cb_recovery :: rat
  cb_max_entries :: int
  cb_entries :: "(string \<times> circuit_entry) list"

definition new_circuit_breaker :: "int \<Rightarrow> pyval \<Rightarrow> int \<Rightarrow> circuit_breaker result" where
  "new_circuit_breaker threshold recovery max_entries =
     (if threshold < 1 then Inl ValueError
      else rbind (finite_number recovery)
        (\<lambda>r. if r < 0 then Inl ValueError
             else if max_entries < 1 then Inl ValueError
             else Inr \<lparr>cb_threshold = threshold, cb_recovery = r, cb_max_entries = max_entries,
               cb_entries = []\<rparr>))"

definition circuit_error :: "string \<Rightarrow> exn" where
  "circuit_error code = HubError code PROVIDER False []"

definition new_circuit_entry :: circuit_entry where
  "new_circuit_entry = \<lparr>cn_state = CLOSED, cn_failures = 0, cn_opened_at = None, cn_probe = False,
     cn_in_flight = 0, cn_generation = 0\<rparr>"

definition move_to_end :: "string \<Rightarrow> circuit_entry \<Rightarrow> (string \<times> circuit_entry) list \<Rightarrow> (string \<times> circuit_entry) list" where
  "move_to_end k x d = AList.delete k d @ [(k, x)]"

text \<open>\<open>_entry\<close>: the entry of a key, moved to the end; a new one may evict an idle closed one.\<close>

definition circuit_lookup ::
  "circuit_breaker \<Rightarrow> string \<Rightarrow> (circuit_entry \<times> (string \<times> circuit_entry) list) result" where
  "circuit_lookup cb key =
     (case map_of (cb_entries cb) key of
        Some x \<Rightarrow> Inr (x, move_to_end key x (cb_entries cb))
      | None \<Rightarrow>
          (if cb_max_entries cb \<le> int (length (cb_entries cb))
           then case find (\<lambda>(k, x). cn_state x = CLOSED \<and> cn_in_flight x = 0) (cb_entries cb) of
               None \<Rightarrow> Inl (circuit_error ''provider_circuit_capacity'')
             | Some (k, _) \<Rightarrow> Inr (new_circuit_entry,
                 AList.update key new_circuit_entry (AList.delete k (cb_entries cb)))
           else Inr (new_circuit_entry, AList.update key new_circuit_entry (cb_entries cb))))"

definition circuit_acquire :: "circuit_breaker \<Rightarrow> string \<Rightarrow> rat \<Rightarrow> circuit_permit result \<times> circuit_breaker" where
  "circuit_acquire cb key now =
     (if key = [] then (Inl ValueError, cb)
      else case circuit_lookup cb key of
        Inl e \<Rightarrow> (Inl e, cb)
      | Inr (x, entries) \<Rightarrow>
          (let opened_at = (case cn_opened_at x of None \<Rightarrow> now | Some t \<Rightarrow> t) in
           if cn_state x = OPEN \<and> now - opened_at < cb_recovery cb
           then (Inl (circuit_error ''provider_circuit_open''), cb\<lparr>cb_entries := entries\<rparr>)
           else let y = (if cn_state x = OPEN
                  then x\<lparr>cn_state := HALF_OPEN, cn_probe := False, cn_generation := cn_generation x + 1\<rparr>
                  else x)
             in if cn_state y = HALF_OPEN
                then if cn_probe y
                  then (Inl (circuit_error ''provider_circuit_open''),
                        cb\<lparr>cb_entries := AList.update key y entries\<rparr>)
                  else (Inr \<lparr>cp_provider = key, cp_generation = cn_generation y, cp_probe = True\<rparr>,
                        cb\<lparr>cb_entries := AList.update key (y\<lparr>cn_probe := True\<rparr>) entries\<rparr>)
                else (Inr \<lparr>cp_provider = key, cp_generation = cn_generation y, cp_probe = False\<rparr>,
                      cb\<lparr>cb_entries := AList.update key (y\<lparr>cn_in_flight := cn_in_flight y + 1\<rparr>) entries\<rparr>)))"

definition open_circuit :: "rat \<Rightarrow> circuit_entry \<Rightarrow> circuit_entry" where
  "open_circuit now x = x\<lparr>cn_state := OPEN, cn_opened_at := Some now, cn_probe := False,
     cn_in_flight := 0, cn_generation := cn_generation x + 1\<rparr>"

definition success_entry :: "circuit_permit \<Rightarrow> circuit_entry \<Rightarrow> circuit_entry" where
  "success_entry permit x =
     x\<lparr>cn_in_flight := (if cp_probe permit then cn_in_flight x else max 0 (cn_in_flight x - 1)),
       cn_state := CLOSED, cn_failures := 0, cn_opened_at := None, cn_probe := False,
       cn_generation := (if cn_state x \<noteq> CLOSED then cn_generation x + 1 else cn_generation x)\<rparr>"

definition failure_entry :: "int \<Rightarrow> circuit_permit \<Rightarrow> bool \<Rightarrow> rat \<Rightarrow> circuit_entry \<Rightarrow> circuit_entry" where
  "failure_entry threshold permit countable now x =
     (if cp_probe permit then open_circuit now x
      else let y = x\<lparr>cn_in_flight := max 0 (cn_in_flight x - 1)\<rparr> in
        if countable
        then let z = y\<lparr>cn_failures := cn_failures y + 1\<rparr> in
          if threshold \<le> cn_failures z then open_circuit now z else z
        else y)"

definition record_result ::
  "circuit_breaker \<Rightarrow> circuit_permit \<Rightarrow> (circuit_entry \<Rightarrow> circuit_entry) \<Rightarrow> circuit_breaker" where
  "record_result cb permit change =
     (case map_of (cb_entries cb) (cp_provider permit) of
        None \<Rightarrow> cb
      | Some x \<Rightarrow>
          (if cn_generation x \<noteq> cp_generation permit then cb
           else cb\<lparr>cb_entries := move_to_end (cp_provider permit) (change x) (cb_entries cb)\<rparr>))"

definition record_success :: "circuit_breaker \<Rightarrow> circuit_permit \<Rightarrow> circuit_breaker" where
  "record_success cb permit = record_result cb permit (success_entry permit)"

definition record_failure :: "circuit_breaker \<Rightarrow> circuit_permit \<Rightarrow> bool \<Rightarrow> rat \<Rightarrow> circuit_breaker" where
  "record_failure cb permit countable now =
     record_result cb permit (failure_entry (cb_threshold cb) permit countable now)"

definition circuit_snapshot :: "circuit_breaker \<Rightarrow> string \<Rightarrow> (circuit_state \<times> int) option" where
  "circuit_snapshot cb key =
     map_option (\<lambda>x. (cn_state x, cn_failures x)) (map_of (cb_entries cb) key)"

section \<open>The executor\<close>

text \<open>
  A provider call returns, raises an \<open>Exception\<close>, or is torn down by an exception outside
  \<open>Exception\<close> (\<open>KeyboardInterrupt\<close>, \<open>SystemExit\<close>), which no handler of \<open>execute\<close> catches.
\<close>

datatype 'a call_outcome = Returned 'a | Raised exn | Aborted

record ('e, 'a) provider_env =
  pe_clock :: "'e \<Rightarrow> rat \<times> 'e"
  pe_breaker_clock :: "'e \<Rightarrow> rat \<times> 'e"
  pe_call :: "'e \<Rightarrow> 'a call_outcome \<times> 'e"
  pe_classify :: "exn \<Rightarrow> failure_certainty option"
  pe_sleep :: "rat \<Rightarrow> 'e \<Rightarrow> 'e"

definition deadline_error :: exn where
  "deadline_error = HubError ''provider_retry_deadline_exhausted'' TIMEOUT False []"

definition exhausted_error :: "int \<Rightarrow> exn" where
  "exhausted_error attempts =
     HubError ''provider_retry_exhausted'' PROVIDER False [(''attempts'', PyInt attempts)]"

definition unhandled_error :: exn where
  "unhandled_error = HubError ''provider_resilience_unhandled'' PROVIDER False []"

definition countable_error :: "exn \<Rightarrow> bool" where
  "countable_error e = (err_category e \<in> {PROVIDER, DEPENDENCY, TIMEOUT, INTERNAL})"

definition classified :: "('e, 'a) provider_env \<Rightarrow> exn \<Rightarrow> failure_certainty" where
  "classified env e = (case pe_classify env e of None \<Rightarrow> UNCERTAIN | Some c \<Rightarrow> c)"

text \<open>
  The body of the loop of \<open>execute\<close>: it either finishes (\<open>Inl\<close>, where \<open>None\<close> is an abort) or has
  slept and goes round again (\<open>Inr\<close>). Each use of the breaker draws one reading of its clock,
  also on the paths that do not look at it.
\<close>

definition execute_attempt ::
  "retry_policy \<Rightarrow> ('e, 'a) provider_env \<Rightarrow> operation_spec \<Rightarrow> execution_request \<Rightarrow> string \<Rightarrow> rat \<Rightarrow> int \<Rightarrow>
   circuit_breaker \<times> 'e \<Rightarrow> ('a result option + unit) \<times> circuit_breaker \<times> 'e" where
  "execute_attempt policy env operation request key deadline attempts = (\<lambda>(cb, e).
     let (t, e1) = pe_clock env e in
     if deadline \<le> t then (Inl (Some (Inl deadline_error)), cb, e1)
     else let (now, e2) = pe_breaker_clock env e1 in
       case circuit_acquire cb key now of
         (Inl err, cb1) \<Rightarrow> (Inl (Some (Inl err)), cb1, e2)
       | (Inr permit, cb1) \<Rightarrow>
           (let (outcome, e3) = pe_call env e2 in
            case outcome of
              Aborted \<Rightarrow> (Inl None, cb1, e3)
            | Returned x \<Rightarrow> (Inl (Some (Inr x)), record_success cb1 permit, e3)
            | Raised err \<Rightarrow>
                (let (now', e4) = pe_breaker_clock env e3 in
                 case err of
                   HubError code category retryable details \<Rightarrow>
                     (let cb2 = record_failure cb1 permit (countable_error err) now' in
                      if \<not> rt_allowed (retry_decide err operation request (classified env err))
                      then (Inl (Some (Inl err)), cb2, e4)
                      else if rp_max_attempts policy \<le> attempts + 1
                      then (Inl (Some (Inl (exhausted_error (attempts + 1)))), cb2, e4)
                      else case backoff_seconds policy (attempts + 1) of
                        Inl err' \<Rightarrow> (Inl (Some (Inl err')), cb2, e4)
                      | Inr delay \<Rightarrow>
                          (let (t', e5) = pe_clock env e4 in
                           if deadline \<le> t' + delay
                           then (Inl (Some (Inl deadline_error)), cb2, e5)
                           else (Inr (), cb2, pe_sleep env delay e5)))
                 | _ \<Rightarrow> (Inl (Some (Inl unhandled_error)), record_failure cb1 permit True now', e4))))"

lemma execute_attempt_again:
  "(Inr u, s') = execute_attempt policy env operation request key deadline attempts s \<Longrightarrow>
   attempts + 1 < rp_max_attempts policy"
  by (auto simp: execute_attempt_def Let_def split: prod.splits if_splits sum.splits exn.splits
      call_outcome.splits)

function execute_loop ::
  "retry_policy \<Rightarrow> ('e, 'a) provider_env \<Rightarrow> operation_spec \<Rightarrow> execution_request \<Rightarrow> string \<Rightarrow> rat \<Rightarrow> int \<Rightarrow>
   circuit_breaker \<times> 'e \<Rightarrow> 'a result option \<times> circuit_breaker \<times> 'e" where
  "execute_loop policy env operation request key deadline attempts s =
     (case execute_attempt policy env operation request key deadline attempts s of
        (Inl r, s') \<Rightarrow> (r, s')
      | (Inr _, s') \<Rightarrow> execute_loop policy env operation request key deadline (attempts + 1) s')"
  by pat_completeness auto

termination
  by (relation "measure (\<lambda>(policy, env, operation, request, key, deadline, attempts, s).
      nat (rp_max_attempts policy - attempts))")
    (auto dest: execute_attempt_again)

definition provider_execute ::
  "retry_policy \<Rightarrow> ('e, 'a) provider_env \<Rightarrow> operation_spec \<Rightarrow> execution_request \<Rightarrow> string \<Rightarrow> pyval \<Rightarrow>
   circuit_breaker \<times> 'e \<Rightarrow> 'a result option \<times> circuit_breaker \<times> 'e" where
  "provider_execute policy env operation request key deadline_seconds s =
     (case finite_number deadline_seconds of
        Inl err \<Rightarrow> (Some (Inl err), s)
      | Inr seconds \<Rightarrow>
          if seconds < 0 then (Some (Inl ValueError), s)
          else let (t, e) = pe_clock env (snd s) in
            execute_loop policy env operation request key (t + seconds) 0 (fst s, e))"

text \<open>\<open>classify_adapter_failure\<close>: only failures before the adapter was started are certain.\<close>

definition classify_adapter_failure :: "exn \<Rightarrow> failure_certainty" where
  "classify_adapter_failure e =
     (if err_code e \<in> {''cli_start_failed'', ''provider_worker_start_failed''}
      then NOT_APPLIED else UNCERTAIN)"

section \<open>Invariant of the breaker\<close>

definition entry_ok :: "int \<Rightarrow> circuit_entry \<Rightarrow> bool" where
  "entry_ok th x = (case cn_state x of
     CLOSED \<Rightarrow> 0 \<le> cn_failures x \<and> cn_failures x < th \<and> cn_opened_at x = None \<and> \<not> cn_probe x \<and> 0 \<le> cn_in_flight x
   | OPEN \<Rightarrow> 0 \<le> cn_failures x \<and> cn_opened_at x \<noteq> None \<and> \<not> cn_probe x \<and> cn_in_flight x = 0
   | HALF_OPEN \<Rightarrow> 0 \<le> cn_failures x \<and> cn_opened_at x \<noteq> None \<and> cn_probe x \<and> cn_in_flight x = 0)"

definition entries_fine :: "circuit_breaker \<Rightarrow> (string \<times> circuit_entry) list \<Rightarrow> bool" where
  "entries_fine cb d \<longleftrightarrow> dict_ok d \<and> int (length d) \<le> cb_max_entries cb \<and>
     (\<forall>k x. map_of d k = Some x \<longrightarrow> entry_ok (cb_threshold cb) x)"

definition circuit_inv :: "circuit_breaker \<Rightarrow> bool" where
  "circuit_inv cb \<longleftrightarrow> 1 \<le> cb_threshold cb \<and> 1 \<le> cb_max_entries cb \<and> entries_fine cb (cb_entries cb)"

inductive circuit_step :: "circuit_breaker \<Rightarrow> circuit_breaker \<Rightarrow> bool" where
  step_acquire: "circuit_step cb (snd (circuit_acquire cb key now))"
| step_success: "circuit_step cb (record_success cb permit)"
| step_failure: "circuit_step cb (record_failure cb permit countable now)"

definition circuit_init :: "circuit_breaker \<Rightarrow> bool" where
  "circuit_init cb \<longleftrightarrow> (\<exists>threshold recovery max_entries.
     new_circuit_breaker threshold recovery max_entries = Inr cb)"

lemma map_of_move [simp]: "map_of (move_to_end k x d) = (map_of d)(k \<mapsto> x)"
  by (auto simp: move_to_end_def map_add_def fun_eq_iff split: option.splits)

lemma dict_ok_move [simp]: "dict_ok d \<Longrightarrow> dict_ok (move_to_end k x d)"
  by (simp add: move_to_end_def AList.delete_eq distinct_map_filter image_iff) 

lemma length_move: "dict_ok d \<Longrightarrow> map_of d k \<noteq> None \<Longrightarrow> length (move_to_end k x d) = length d"
  by (cases "d = []") (simp_all add: move_to_end_def length_dict_delete del: map_of_eq_Some_iff)

lemma entries_fine_put:
  assumes "entries_fine cb d" "entry_ok (cb_threshold cb) x" "map_of d k \<noteq> None"
  shows "entries_fine cb (AList.update k x d)" "entries_fine cb (move_to_end k x d)"
  using assms by (auto simp: entries_fine_def length_dict_update length_move simp del: map_of_eq_Some_iff)

lemma new_entry_ok: "1 \<le> th \<Longrightarrow> entry_ok th new_circuit_entry"
  by (simp add: entry_ok_def new_circuit_entry_def)

text \<open>
  What looking up a key leaves: its entry, present; and the entries of the other providers,
  less at most one that was closed and idle.
\<close>

lemma circuit_lookup_ok:
  assumes inv: "circuit_inv cb" and look: "circuit_lookup cb key = Inr (x, d)"
  shows "map_of d key = Some x" "entries_fine cb d" "entry_ok (cb_threshold cb) x"
    "map_of (cb_entries cb) key = Some x \<or> map_of (cb_entries cb) key = None \<and> x = new_circuit_entry"
    "k \<noteq> key \<Longrightarrow> map_of d k = map_of (cb_entries cb) k \<or>
      map_of d k = None \<and> (\<exists>y. map_of (cb_entries cb) k = Some y \<and> cn_state y = CLOSED \<and> cn_in_flight y = 0)"
proof -
  let ?d = "cb_entries cb"
  have fine: "entries_fine cb ?d" and th: "1 \<le> cb_threshold cb" "1 \<le> cb_max_entries cb"
    using inv by (simp_all add: circuit_inv_def)
  have d: "dict_ok ?d" using fine by (simp add: entries_fine_def)
  consider (known) "map_of ?d key = Some x" "d = move_to_end key x ?d"
    | (room) "map_of ?d key = None" "x = new_circuit_entry" "d = AList.update key x ?d"
        "int (length ?d) < cb_max_entries cb"
    | (evicted) k' y where "map_of ?d key = None" "x = new_circuit_entry"
        "find (\<lambda>(k, x). cn_state x = CLOSED \<and> cn_in_flight x = 0) ?d = Some (k', y)"
        "d = AList.update key x (AList.delete k' ?d)"
    using look by (auto simp: circuit_lookup_def split: option.splits if_splits)
  then have "map_of d key = Some x \<and> entries_fine cb d \<and> entry_ok (cb_threshold cb) x \<and>
    (map_of ?d key = Some x \<or> map_of ?d key = None \<and> x = new_circuit_entry) \<and>
    (k \<noteq> key \<longrightarrow> map_of d k = map_of ?d k \<or>
      map_of d k = None \<and> (\<exists>y. map_of ?d k = Some y \<and> cn_state y = CLOSED \<and> cn_in_flight y = 0))"
  proof cases
    case known
    have "entry_ok (cb_threshold cb) x" using fine known(1) unfolding entries_fine_def by blast
    with known fine show ?thesis by (simp add: entries_fine_put del: map_of_eq_Some_iff)
  next
    case room
    with fine new_entry_ok [OF th(1)] show ?thesis
      by (auto simp: entries_fine_def length_dict_update simp del: map_of_eq_Some_iff)
  next
    case evicted
    then have y: "(k', y) \<in> set ?d" "cn_state y = CLOSED" "cn_in_flight y = 0"
      by (auto simp: find_Some_iff) (metis nth_mem)
    then have k': "map_of ?d k' = Some y" using d by simp
    have "entries_fine cb d"
      using fine new_entry_ok [OF th(1)] evicted k' y(1) length_pos_if_in_set [OF y(1)]
      by (auto simp: entries_fine_def length_dict_update length_dict_delete simp del: map_of_eq_Some_iff)
    with evicted(1,2,4) k' y(2,3) new_entry_ok [OF th(1)] show ?thesis by (auto simp del: map_of_eq_Some_iff)
  qed
  then show "map_of d key = Some x" "entries_fine cb d" "entry_ok (cb_threshold cb) x"
    "map_of (cb_entries cb) key = Some x \<or> map_of (cb_entries cb) key = None \<and> x = new_circuit_entry"
    "k \<noteq> key \<Longrightarrow> map_of d k = map_of (cb_entries cb) k \<or>
      map_of d k = None \<and> (\<exists>y. map_of (cb_entries cb) k = Some y \<and> cn_state y = CLOSED \<and> cn_in_flight y = 0)"
    by blast+
qed

text \<open>The entry that \<open>acquire\<close> leaves, and whether it gives a permit.\<close>

definition acquired_entry :: "rat \<Rightarrow> rat \<Rightarrow> circuit_entry \<Rightarrow> (bool \<times> circuit_entry) option \<times> circuit_entry" where
  "acquired_entry recovery now x =
     (case cn_state x of
        CLOSED \<Rightarrow> let y = x\<lparr>cn_in_flight := cn_in_flight x + 1\<rparr> in (Some (False, y), y)
      | OPEN \<Rightarrow>
          (if now - (case cn_opened_at x of None \<Rightarrow> now | Some t \<Rightarrow> t) < recovery then (None, x)
           else let y = x\<lparr>cn_state := HALF_OPEN, cn_generation := cn_generation x + 1, cn_probe := True\<rparr>
                in (Some (True, y), y))
      | HALF_OPEN \<Rightarrow>
          (if cn_probe x then (None, x) else let y = x\<lparr>cn_probe := True\<rparr> in (Some (True, y), y)))"

lemma circuit_acquire_entry:
  assumes inv: "circuit_inv cb" and key: "key \<noteq> []" and look: "circuit_lookup cb key = Inr (x, d)"
  shows "fst (circuit_acquire cb key now) = (case fst (acquired_entry (cb_recovery cb) now x) of
      None \<Rightarrow> Inl (circuit_error ''provider_circuit_open'')
    | Some (probe, y) \<Rightarrow> Inr \<lparr>cp_provider = key, cp_generation = cn_generation y, cp_probe = probe\<rparr>)"
    and "map_of (cb_entries (snd (circuit_acquire cb key now))) =
      (map_of d)(key \<mapsto> snd (acquired_entry (cb_recovery cb) now x))"
    and "entries_fine cb (cb_entries (snd (circuit_acquire cb key now)))"
    and "snd (circuit_acquire cb key now) = cb\<lparr>cb_entries := cb_entries (snd (circuit_acquire cb key now))\<rparr>"
proof -
  note ok = circuit_lookup_ok [OF inv look]
  let ?y = "snd (acquired_entry (cb_recovery cb) now x)"
  have y: "entry_ok (cb_threshold cb) ?y"
    using ok(3) by (auto simp: acquired_entry_def entry_ok_def Let_def split: circuit_state.splits)
  show "fst (circuit_acquire cb key now) = (case fst (acquired_entry (cb_recovery cb) now x) of
      None \<Rightarrow> Inl (circuit_error ''provider_circuit_open'')
    | Some (probe, y) \<Rightarrow> Inr \<lparr>cp_provider = key, cp_generation = cn_generation y, cp_probe = probe\<rparr>)"
    using key look by (cases "cn_state x") (auto simp: circuit_acquire_def acquired_entry_def Let_def)
  have e: "cb_entries (snd (circuit_acquire cb key now)) = AList.update key ?y d \<or>
      cb_entries (snd (circuit_acquire cb key now)) = d \<and> ?y = x"
    using key look by (cases "cn_state x") (auto simp: circuit_acquire_def acquired_entry_def Let_def)
  with ok(1) show "map_of (cb_entries (snd (circuit_acquire cb key now))) =
      (map_of d)(key \<mapsto> snd (acquired_entry (cb_recovery cb) now x))" by (auto simp: fun_upd_idem simp del: map_of_eq_Some_iff)
  have "map_of d key \<noteq> None" using ok(1) by simp
  from e entries_fine_put(1) [OF ok(2) y this] ok(2)
  show "entries_fine cb (cb_entries (snd (circuit_acquire cb key now)))" by auto
  show "snd (circuit_acquire cb key now) = cb\<lparr>cb_entries := cb_entries (snd (circuit_acquire cb key now))\<rparr>"
    using key look by (cases "cn_state x") (auto simp: circuit_acquire_def Let_def)
qed

lemma circuit_acquire_error:
  "key = [] \<or> circuit_lookup cb key = Inl e \<Longrightarrow> snd (circuit_acquire cb key now) = cb"
  by (auto simp: circuit_acquire_def)

lemma entries_fine_same [simp]: "entries_fine (cb\<lparr>cb_entries := d'\<rparr>) d = entries_fine cb d"
  by (simp add: entries_fine_def)

lemma circuit_acquire_inv: "circuit_inv cb \<Longrightarrow> circuit_inv (snd (circuit_acquire cb key now))"
proof (cases "key = [] \<or> (\<exists>e. circuit_lookup cb key = Inl e)")
  case False
  assume inv: "circuit_inv cb"
  from False obtain x d where "key \<noteq> []" "circuit_lookup cb key = Inr (x, d)"
    by (cases "circuit_lookup cb key") auto
  from circuit_acquire_entry(3,4) [OF inv this, of now] inv show ?thesis
    by (metis circuit_inv_def circuit_breaker.select_convs circuit_breaker.simps(9) entries_fine_same circuit_breaker.surjective circuit_breaker.update_convs(4))
qed (use circuit_acquire_error in metis)

lemma change_ok:
  "entry_ok th x \<Longrightarrow> 1 \<le> th \<Longrightarrow> entry_ok th (success_entry permit x)"
  "entry_ok th x \<Longrightarrow> entry_ok th (failure_entry th permit countable now x)"
  by (auto simp: entry_ok_def success_entry_def failure_entry_def open_circuit_def Let_def
      split: circuit_state.splits)

lemma record_result_inv:
  assumes "circuit_inv cb" "\<And>x. entry_ok (cb_threshold cb) x \<Longrightarrow> entry_ok (cb_threshold cb) (change x)"
  shows "circuit_inv (record_result cb permit change)"
proof (cases "map_of (cb_entries cb) (cp_provider permit)")
  case (Some x)
  with assms have "entry_ok (cb_threshold cb) (change x)"
    unfolding circuit_inv_def entries_fine_def by blast
  with assms(1) Some show ?thesis
    by (auto simp: record_result_def circuit_inv_def intro: entries_fine_put(2))
qed (use assms(1) in \<open>simp add: record_result_def\<close>)

lemma circuit_step_inv: "circuit_step cb cb' \<Longrightarrow> circuit_inv cb \<Longrightarrow> circuit_inv cb'"
proof (induction rule: circuit_step.induct)
  case (step_acquire cb key now)
  then show ?case by (rule circuit_acquire_inv)
next
  case (step_success cb permit)
  then show ?case unfolding record_success_def
    by (intro record_result_inv change_ok(1)) (simp_all add: circuit_inv_def)
next
  case (step_failure cb permit countable now)
  then show ?case unfolding record_failure_def by (intro record_result_inv change_ok(2))
qed

lemma circuit_init_inv: "circuit_init cb \<Longrightarrow> circuit_inv cb"
  by (auto simp: circuit_init_def new_circuit_breaker_def circuit_inv_def entries_fine_def rbind_eq_Inr
      split: if_splits)

interpretation circuit: step_system circuit_init circuit_step circuit_inv
  by unfold_locales (auto intro: circuit_init_inv circuit_step_inv)

section \<open>One entry through the operations\<close>

abbreviation circuits :: "circuit_breaker \<Rightarrow> string \<rightharpoonup> circuit_entry" where
  "circuits cb \<equiv> map_of (cb_entries cb)"

lemma record_result_circuits:
  "circuits (record_result cb permit change) = (case circuits cb (cp_provider permit) of
     None \<Rightarrow> circuits cb
   | Some x \<Rightarrow> if cn_generation x \<noteq> cp_generation permit then circuits cb
       else (circuits cb)(cp_provider permit \<mapsto> change x))"
  by (auto simp: record_result_def split: option.splits)

lemma record_result_bounds [simp]:
  "cb_threshold (record_result cb permit change) = cb_threshold cb"
  "cb_recovery (record_result cb permit change) = cb_recovery cb"
  by (auto simp: record_result_def split: option.splits)

lemma circuit_acquire_bounds [simp]:
  "cb_threshold (snd (circuit_acquire cb key now)) = cb_threshold cb"
  "cb_recovery (snd (circuit_acquire cb key now)) = cb_recovery cb"
  by (auto simp: circuit_acquire_def Let_def split: sum.splits)

lemma circuit_acquire_known:
  assumes inv: "circuit_inv cb" and key: "key \<noteq> []" and x: "circuits cb key = Some x"
  shows "fst (circuit_acquire cb key now) = (case fst (acquired_entry (cb_recovery cb) now x) of
      None \<Rightarrow> Inl (circuit_error ''provider_circuit_open'')
    | Some (probe, y) \<Rightarrow> Inr \<lparr>cp_provider = key, cp_generation = cn_generation y, cp_probe = probe\<rparr>)"
    and "circuits (snd (circuit_acquire cb key now)) key = Some (snd (acquired_entry (cb_recovery cb) now x))"
proof -
  have look: "circuit_lookup cb key = Inr (x, move_to_end key x (cb_entries cb))"
    using x by (simp add: circuit_lookup_def del: map_of_eq_Some_iff)
  note circuit_acquire_entry [OF inv key look, of now]
  then show "fst (circuit_acquire cb key now) = (case fst (acquired_entry (cb_recovery cb) now x) of
      None \<Rightarrow> Inl (circuit_error ''provider_circuit_open'')
    | Some (probe, y) \<Rightarrow> Inr \<lparr>cp_provider = key, cp_generation = cn_generation y, cp_probe = probe\<rparr>)"
    "circuits (snd (circuit_acquire cb key now)) key = Some (snd (acquired_entry (cb_recovery cb) now x))"
    by simp_all
qed

section \<open>Probes\<close>

lemma half_open_refuses:
  assumes "circuit_inv cb" "key \<noteq> []" "circuits cb key = Some x" "cn_state x = HALF_OPEN"
  shows "fst (circuit_acquire cb key now) = Inl (circuit_error ''provider_circuit_open'')"
proof -
  have "entry_ok (cb_threshold cb) x" using assms(1,3) unfolding circuit_inv_def entries_fine_def by blast
  with assms(4) have "cn_probe x" by (simp add: entry_ok_def)
  with circuit_acquire_known(1) [OF assms(1-3), of now] assms(4) show ?thesis by (simp add: acquired_entry_def)
qed

section \<open>Calls in flight\<close>

text \<open>
  A breaker with the permits that were given and not reported yet. Only these are reported, each
  once. \<open>K\<close> holds the providers that are called, no more than the breaker has entries for, so
  that no entry is evicted.
\<close>

record breaker_system =
  bs_breaker :: circuit_breaker
  bs_permits :: "circuit_permit list"

definition breaker_init :: "string set \<Rightarrow> breaker_system \<Rightarrow> bool" where
  "breaker_init K s \<longleftrightarrow> circuit_init (bs_breaker s) \<and> bs_permits s = [] \<and> finite K \<and>
     int (card K) \<le> cb_max_entries (bs_breaker s)"

inductive breaker_step :: "string set \<Rightarrow> breaker_system \<Rightarrow> breaker_system \<Rightarrow> bool" for K where
  breaker_admits: "key \<in> K \<Longrightarrow> circuit_acquire (bs_breaker s) key now = (Inr p, cb) \<Longrightarrow>
    breaker_step K s (s\<lparr>bs_breaker := cb, bs_permits := bs_permits s @ [p]\<rparr>)"
| breaker_refuses: "key \<in> K \<Longrightarrow> circuit_acquire (bs_breaker s) key now = (Inl e, cb) \<Longrightarrow>
    breaker_step K s (s\<lparr>bs_breaker := cb\<rparr>)"
| breaker_success: "p \<in> set (bs_permits s) \<Longrightarrow>
    breaker_step K s (s\<lparr>bs_breaker := record_success (bs_breaker s) p, bs_permits := remove1 p (bs_permits s)\<rparr>)"
| breaker_failure: "p \<in> set (bs_permits s) \<Longrightarrow>
    breaker_step K s (s\<lparr>bs_breaker := record_failure (bs_breaker s) p countable now, bs_permits := remove1 p (bs_permits s)\<rparr>)"

abbreviation probes_of :: "string \<Rightarrow> circuit_permit list \<Rightarrow> circuit_permit list" where
  "probes_of key ps \<equiv> filter (\<lambda>p. cp_provider p = key \<and> cp_probe p) ps"

text \<open>A permit against the entry of its provider: those of the current generation are the probe, or plain calls of a closed circuit.\<close>

definition permit_fits :: "circuit_entry \<Rightarrow> circuit_permit \<Rightarrow> bool" where
  "permit_fits x p \<longleftrightarrow> cp_generation p \<le> cn_generation x \<and>
     (if cp_probe p then cn_state x = HALF_OPEN \<and> cp_generation p = cn_generation x
      else cp_generation p = cn_generation x \<longrightarrow> cn_state x = CLOSED)"

definition breaker_inv :: "string set \<Rightarrow> breaker_system \<Rightarrow> bool" where
  "breaker_inv K s \<longleftrightarrow> circuit_inv (bs_breaker s) \<and> finite K \<and> int (card K) \<le> cb_max_entries (bs_breaker s) \<and>
     dom (circuits (bs_breaker s)) \<subseteq> K \<and>
     (\<forall>p \<in> set (bs_permits s). cp_provider p \<noteq> [] \<and> (\<exists>x. circuits (bs_breaker s) (cp_provider p) = Some x \<and> permit_fits x p)) \<and>
     (\<forall>key. length (probes_of key (bs_permits s)) \<le> 1)"

lemma lookup_room:
  assumes "circuit_inv cb" "finite K" "int (card K) \<le> cb_max_entries cb" "dom (circuits cb) \<subseteq> K" "key \<in> K"
    and look: "circuit_lookup cb key = Inr (x, d)"
  shows "map_of d = (circuits cb)(key \<mapsto> x)"
proof (cases "circuits cb key")
  case (Some y)
  with look have "y = x" "d = move_to_end key x (cb_entries cb)" by (auto simp: circuit_lookup_def simp del: map_of_eq_Some_iff)
  then show ?thesis
    by (simp add: move_to_end_def fun_eq_iff map_add_def del: map_of_eq_Some_iff split: option.split)
next
  case None
  have "dict_ok (cb_entries cb)" using assms(1) by (simp add: circuit_inv_def entries_fine_def)
  then have "length (cb_entries cb) = card (dom (circuits cb))" by (rule length_dict)
  also have "\<dots> \<le> card (K - {key})" using assms(2,4) None by (intro card_mono) auto
  also have "\<dots> < card K" using assms(2,5) by (rule card_Diff1_less)
  finally have "\<not> cb_max_entries cb \<le> int (length (cb_entries cb))" using assms(3) by linarith
  with look None show ?thesis by (auto simp: circuit_lookup_def)
qed

lemma acquire_bound [simp]: "cb_max_entries (snd (circuit_acquire cb key now)) = cb_max_entries cb"
  by (auto simp: circuit_acquire_def Let_def split: sum.splits)

lemma record_bound [simp]: "cb_max_entries (record_result cb permit change) = cb_max_entries cb"
  by (auto simp: record_result_def split: option.splits)

text \<open>What an acquisition does, without eviction: one entry is set, and a permit of its generation may be given.\<close>

lemma acquire_without_eviction:
  assumes inv: "breaker_inv K s" and key: "key \<in> K" and run: "circuit_acquire (bs_breaker s) key now = (r, cb)"
  obtains (unchanged) e where "circuits cb = circuits (bs_breaker s)" "r = Inl e"
  | (entry) x where "circuits (bs_breaker s) key = Some x \<or> circuits (bs_breaker s) key = None \<and> x = new_circuit_entry"
      "key \<noteq> []" "circuits cb = (circuits (bs_breaker s))(key \<mapsto> snd (acquired_entry (cb_recovery (bs_breaker s)) now x))"
      "r = (case fst (acquired_entry (cb_recovery (bs_breaker s)) now x) of
         None \<Rightarrow> Inl (circuit_error ''provider_circuit_open'')
       | Some (probe, y) \<Rightarrow> Inr \<lparr>cp_provider = key, cp_generation = cn_generation y, cp_probe = probe\<rparr>)"
      "entry_ok (cb_threshold (bs_breaker s)) x"
proof (cases "key = [] \<or> (\<exists>e. circuit_lookup (bs_breaker s) key = Inl e)")
  case True
  then have "cb = bs_breaker s" "\<exists>e. r = Inl e" using run by (auto simp: circuit_acquire_def split: if_splits)
  with unchanged show ?thesis by blast
next
  case False
  have c: "circuit_inv (bs_breaker s)" using inv by (simp add: breaker_inv_def)
  from False obtain x d where look: "key \<noteq> []" "circuit_lookup (bs_breaker s) key = Inr (x, d)"
    by (cases "circuit_lookup (bs_breaker s) key") auto
  have "map_of d = (circuits (bs_breaker s))(key \<mapsto> x)"
    using lookup_room [OF c _ _ _ key look(2)] inv by (simp add: breaker_inv_def)
  with circuit_acquire_entry(1,2) [OF c look, of now] circuit_lookup_ok(3,4) [OF c look(2)] look(1) run entry [of x]
  show ?thesis by (simp del: map_of_eq_Some_iff)
qed


lemma permit_fits_acquired:
  assumes "fst (acquired_entry recovery now x) = Some (probe, y)" "entry_ok th x"
  shows "snd (acquired_entry recovery now x) = y" "permit_fits y \<lparr>cp_provider = key, cp_generation = cn_generation y, cp_probe = probe\<rparr>"
    "probe \<longrightarrow> cn_state x = OPEN" "permit_fits x p \<Longrightarrow> permit_fits y p"
  using assms by (auto simp: acquired_entry_def permit_fits_def entry_ok_def Let_def split: circuit_state.splits if_splits)

lemma acquired_none: "fst (acquired_entry recovery now x) = None \<Longrightarrow> snd (acquired_entry recovery now x) = x \<and> cn_state x \<noteq> CLOSED"
  by (auto simp: acquired_entry_def Let_def split: circuit_state.splits if_splits)

lemma breaker_inv_acquire:
  assumes inv: "breaker_inv K s" and key: "key \<in> K" and run: "circuit_acquire (bs_breaker s) key now = (r, cb)"
  shows "breaker_inv K (s\<lparr>bs_breaker := cb, bs_permits := bs_permits s @ (case r of Inr p \<Rightarrow> [p] | Inl _ \<Rightarrow> [])\<rparr>)"
proof -
  let ?C = "circuits (bs_breaker s)"
  have base: "circuit_inv cb" "cb_max_entries cb = cb_max_entries (bs_breaker s)"
    using circuit_acquire_inv [of "bs_breaker s" key now] acquire_bound [of "bs_breaker s" key now] inv run
    by (simp_all add: breaker_inv_def)
  from inv have fits: "p \<in> set (bs_permits s) \<Longrightarrow> cp_provider p \<noteq> [] \<and> (\<exists>x. ?C (cp_provider p) = Some x \<and> permit_fits x p)" for p
    by (simp add: breaker_inv_def del: map_of_eq_Some_iff)
  from inv key run show ?thesis
  proof (cases rule: acquire_without_eviction)
    case (unchanged e)
    with inv base show ?thesis by (simp add: breaker_inv_def del: map_of_eq_Some_iff)
  next
    case (entry x)
    let ?e = "acquired_entry (cb_recovery (bs_breaker s)) now x"
    show ?thesis
    proof (cases "fst ?e")
      case None
      from acquired_none [OF None] entry(1) have "?C key = Some x" "snd ?e = x" by (auto simp: new_circuit_entry_def)
      then have "circuits cb = ?C" using entry(3) by (simp add: fun_upd_idem del: map_of_eq_Some_iff)
      with inv base entry(4) None show ?thesis by (simp add: breaker_inv_def del: map_of_eq_Some_iff)
    next
      case (Some py)
      obtain probe y where py: "py = (probe, y)" by fastforce
      note a = permit_fits_acquired [OF Some [unfolded py] entry(5)]
      let ?p = "\<lparr>cp_provider = key, cp_generation = cn_generation y, cp_probe = probe\<rparr>"
      have r: "r = Inr ?p" using entry(4) Some py by simp
      have C: "circuits cb = ?C(key \<mapsto> y)" using entry(3) a(1) by simp
      have "cp_provider p \<noteq> [] \<and> (\<exists>z. circuits cb (cp_provider p) = Some z \<and> permit_fits z p)" if p: "p \<in> set (bs_permits s)" for p
      proof (cases "cp_provider p = key")
        case True
        with fits [OF p] entry(1) have "permit_fits x p" by auto
        with True a(4) entry(2) C show ?thesis by simp
      qed (use fits [OF p] C in simp)
      moreover have "length (probes_of k (bs_permits s @ [?p])) \<le> 1" for k
      proof (cases "probe \<and> k = key")
        case True
        with a(3) have "cn_state x = OPEN" by simp
        have "\<not> (cp_provider q = key \<and> cp_probe q)" if q: "q \<in> set (bs_permits s)" for q
        proof
          assume k: "cp_provider q = key \<and> cp_probe q"
          from fits [OF q] k obtain z where "?C key = Some z" "permit_fits z q" by blast
          with entry(1) k \<open>cn_state x = OPEN\<close> show False by (simp add: permit_fits_def)
        qed
        then have "probes_of key (bs_permits s) = []" by (simp add: filter_empty_conv)
        with True show ?thesis by simp
      next
        case False
        then have "probes_of k (bs_permits s @ [?p]) = probes_of k (bs_permits s)" by auto
        with inv show ?thesis unfolding breaker_inv_def by metis
      qed
      moreover have "dom (circuits cb) \<subseteq> K" using inv key C by (simp add: breaker_inv_def)
      ultimately show ?thesis using inv base a(2) [of key] entry(2) C r by (simp add: breaker_inv_def del: map_of_eq_Some_iff)
    qed
  qed
qed

lemma probes_remove:
  assumes "length (probes_of key ps) \<le> 1" "p \<in> set ps" "cp_probe p" "cp_provider p = key"
  shows "probes_of key (remove1 p ps) = []"
proof -
  have "p \<in> set (probes_of key ps)" using assms by simp
  then have "length (remove1 p (probes_of key ps)) = 0" using assms(1) by (simp add: length_remove1)
  then show ?thesis by (simp add: filter_remove1)
qed

text \<open>A report changes an entry in a way the other permits of its provider fit.\<close>

lemma breaker_inv_report:
  assumes inv: "breaker_inv K s" and p: "p \<in> set (bs_permits s)"
    and entry: "\<And>x. entry_ok (cb_threshold (bs_breaker s)) x \<Longrightarrow> entry_ok (cb_threshold (bs_breaker s)) (change x)"
    and keeps: "\<And>x q. permit_fits x p \<Longrightarrow> cp_generation p = cn_generation x \<Longrightarrow> permit_fits x q \<Longrightarrow>
      (cp_probe p \<Longrightarrow> \<not> cp_probe q) \<Longrightarrow> permit_fits (change x) q"
  shows "breaker_inv K (s\<lparr>bs_breaker := record_result (bs_breaker s) p change, bs_permits := remove1 p (bs_permits s)\<rparr>)"
proof -
  let ?C = "circuits (bs_breaker s)" and ?cb = "record_result (bs_breaker s) p change"
  have fits: "q \<in> set (bs_permits s) \<Longrightarrow> cp_provider q \<noteq> [] \<and> (\<exists>x. ?C (cp_provider q) = Some x \<and> permit_fits x q)" for q
    using inv by (simp add: breaker_inv_def del: map_of_eq_Some_iff)
  from fits [OF p] obtain x where x: "?C (cp_provider p) = Some x" "permit_fits x p" by blast
  have one: "length (probes_of k (bs_permits s)) \<le> 1" for k using inv by (simp add: breaker_inv_def)
  have C: "circuits ?cb = (if cn_generation x \<noteq> cp_generation p then ?C else ?C(cp_provider p \<mapsto> change x))"
    using x(1) by (simp add: record_result_circuits del: map_of_eq_Some_iff)
  have "cp_provider q \<noteq> [] \<and> (\<exists>z. circuits ?cb (cp_provider q) = Some z \<and> permit_fits z q)" if q: "q \<in> set (remove1 p (bs_permits s))" for q
  proof -
    have q': "q \<in> set (bs_permits s)" using q set_remove1_subset by fast
    show ?thesis
    proof (cases "cn_generation x = cp_generation p \<and> cp_provider q = cp_provider p")
      case True
      with fits [OF q'] x(1) have "permit_fits x q" by simp
      moreover have "cp_probe p \<Longrightarrow> \<not> cp_probe q"
        using probes_remove [OF one p _ refl] q True by (auto simp: filter_empty_conv)
      ultimately have "permit_fits (change x) q" using keeps x(2) True by metis
      with True C fits [OF q'] show ?thesis by simp
    qed (use C fits [OF q'] in auto)
  qed
  moreover have "length (probes_of k (remove1 p (bs_permits s))) \<le> 1" for k
    using one [of k] by (simp add: filter_remove1 length_remove1)
  moreover have "dom (circuits ?cb) \<subseteq> K" using inv C x(1) by (auto simp: breaker_inv_def simp del: map_of_eq_Some_iff split: if_splits)
  moreover have "circuit_inv ?cb" using inv entry by (intro record_result_inv) (simp_all add: breaker_inv_def)
  ultimately show ?thesis using inv by (simp add: breaker_inv_def del: map_of_eq_Some_iff)
qed

lemma success_fits:
  assumes "permit_fits x p" "cp_generation p = cn_generation x" "permit_fits x q" "cp_probe p \<Longrightarrow> \<not> cp_probe q"
  shows "permit_fits (success_entry p x) q"
  using assms by (cases "cp_probe p"; cases "cp_probe q"; cases "cn_state x") (simp_all add: permit_fits_def success_entry_def)

lemma failure_fits:
  assumes "permit_fits x p" "cp_generation p = cn_generation x" "permit_fits x q" "cp_probe p \<Longrightarrow> \<not> cp_probe q"
  shows "permit_fits (failure_entry th p countable now x) q"
  using assms by (cases "cp_probe p"; cases "cp_probe q"; cases "cn_state x")
    (simp_all add: permit_fits_def failure_entry_def open_circuit_def Let_def)

lemma breaker_inv_success:
  assumes inv: "breaker_inv K s" and p: "p \<in> set (bs_permits s)"
  shows "breaker_inv K (s\<lparr>bs_breaker := record_success (bs_breaker s) p, bs_permits := remove1 p (bs_permits s)\<rparr>)"
  unfolding record_success_def
proof (rule breaker_inv_report [OF inv p])
  have "1 \<le> cb_threshold (bs_breaker s)" using inv by (simp add: breaker_inv_def circuit_inv_def)
  then show "entry_ok (cb_threshold (bs_breaker s)) x \<Longrightarrow> entry_ok (cb_threshold (bs_breaker s)) (success_entry p x)" for x
    by (rule change_ok(1) [rotated])
qed (rule success_fits)

lemma breaker_inv_failure:
  assumes inv: "breaker_inv K s" and p: "p \<in> set (bs_permits s)"
  shows "breaker_inv K (s\<lparr>bs_breaker := record_failure (bs_breaker s) p countable now, bs_permits := remove1 p (bs_permits s)\<rparr>)"
  unfolding record_failure_def
proof (rule breaker_inv_report [OF inv p])
  show "entry_ok (cb_threshold (bs_breaker s)) x \<Longrightarrow>
      entry_ok (cb_threshold (bs_breaker s)) (failure_entry (cb_threshold (bs_breaker s)) p countable now x)" for x
    by (rule change_ok(2))
qed (rule failure_fits)

lemma breaker_step_inv:
  assumes "breaker_inv K s" "breaker_step K s s'"
  shows "breaker_inv K s'"
  using assms(2,1)
proof (cases rule: breaker_step.cases)
  case (breaker_admits key now p cb)
  from breaker_inv_acquire [OF assms(1) breaker_admits(2,3)] show ?thesis unfolding breaker_admits(1) by simp
next
  case (breaker_refuses key now e cb)
  from breaker_inv_acquire [OF assms(1) breaker_refuses(2,3)] show ?thesis unfolding breaker_refuses(1) by simp
next
  case (breaker_success p)
  from breaker_inv_success [OF assms(1) breaker_success(2)] show ?thesis unfolding breaker_success(1) .
next
  case (breaker_failure p countable now)
  from breaker_inv_failure [OF assms(1) breaker_failure(2)] show ?thesis unfolding breaker_failure(1) .
qed

lemma circuit_init_entries: "circuit_init cb \<Longrightarrow> cb_entries cb = []"
  by (auto simp: circuit_init_def new_circuit_breaker_def rbind_eq_Inr split: if_splits)

lemma breaker_init_inv: "breaker_init K s \<Longrightarrow> breaker_inv K s"
  using circuit_init_inv [of "bs_breaker s"] circuit_init_entries [of "bs_breaker s"]
  by (simp add: breaker_init_def breaker_inv_def)

interpretation breakers: step_system "breaker_init K" "breaker_step K" "breaker_inv K" for K
  by unfold_locales (fact breaker_init_inv breaker_step_inv)+

text \<open>A probe in flight keeps its provider's circuit half open, so the provider is refused.\<close>

lemma probe_refuses:
  assumes inv: "breaker_inv K s" and p: "p \<in> set (bs_permits s)" "cp_probe p"
  shows "fst (circuit_acquire (bs_breaker s) (cp_provider p) now) = Inl (circuit_error ''provider_circuit_open'')"
    "probes_of (cp_provider p) (bs_permits s) = [p]"
proof -
  from inv p(1) obtain x where x: "cp_provider p \<noteq> []" "circuits (bs_breaker s) (cp_provider p) = Some x" "permit_fits x p"
    unfolding breaker_inv_def by blast
  with p(2) inv show "fst (circuit_acquire (bs_breaker s) (cp_provider p) now) = Inl (circuit_error ''provider_circuit_open'')"
    by (intro half_open_refuses) (auto simp: permit_fits_def breaker_inv_def simp del: map_of_eq_Some_iff)
  have "p \<in> set (probes_of (cp_provider p) (bs_permits s))" using p by simp
  moreover have "length (probes_of (cp_provider p) (bs_permits s)) \<le> 1" using inv by (simp add: breaker_inv_def)
  ultimately show "probes_of (cp_provider p) (bs_permits s) = [p]"
    by (cases "probes_of (cp_provider p) (bs_permits s)") auto
qed

definition probing_system :: breaker_system where
  "probing_system =
     (let start = \<lparr>cb_threshold = 1, cb_recovery = 0, cb_max_entries = 1, cb_entries = []\<rparr>;
          (p, b1) = circuit_acquire start ''a'' 0;
          (q, b2) = circuit_acquire (record_failure b1 (projr p) True 1) ''a'' 2
      in \<lparr>bs_breaker = b2, bs_permits = [projr q]\<rparr>)"

lemmas breaker_ops = circuit_acquire_def circuit_lookup_def new_circuit_entry_def record_failure_def
  record_result_def failure_entry_def open_circuit_def move_to_end_def Let_def

lemma probing_system_value:
  "bs_permits probing_system = [\<lparr>cp_provider = ''a'', cp_generation = 2, cp_probe = True\<rparr>]"
  by (simp add: probing_system_def breaker_ops)

lemma probing_system_reachable: "reach (breaker_init {''a''}) (breaker_step {''a''}) probing_system"
proof -
  let ?b0 = "\<lparr>cb_threshold = 1, cb_recovery = 0, cb_max_entries = 1, cb_entries = []\<rparr> :: circuit_breaker"
  let ?s0 = "\<lparr>bs_breaker = ?b0, bs_permits = []\<rparr>"
  let ?p = "\<lparr>cp_provider = ''a'', cp_generation = 0, cp_probe = False\<rparr> :: circuit_permit"
  let ?q = "\<lparr>cp_provider = ''a'', cp_generation = 2, cp_probe = True\<rparr> :: circuit_permit"
  let ?b1 = "snd (circuit_acquire ?b0 ''a'' 0)"
  let ?b2 = "record_failure ?b1 ?p True 1"
  have "new_circuit_breaker 1 (PyInt 0) 1 = Inr ?b0" by (simp add: new_circuit_breaker_def rbind_eq_Inr)
  then have "circuit_init ?b0" unfolding circuit_init_def by blast
  then have "reach (breaker_init {''a''}) (breaker_step {''a''}) ?s0"
    by (intro reach_init) (simp add: breaker_init_def)
  moreover have "circuit_acquire ?b0 ''a'' 0 = (Inr ?p, ?b1)" by (simp add: breaker_ops)
  then have "breaker_step {''a''} ?s0 (?s0\<lparr>bs_breaker := ?b1, bs_permits := bs_permits ?s0 @ [?p]\<rparr>)"
    by (intro breaker_admits) auto
  ultimately have "reach (breaker_init {''a''}) (breaker_step {''a''}) \<lparr>bs_breaker = ?b1, bs_permits = [?p]\<rparr>"
    using reach_step by fastforce
  moreover have "breaker_step {''a''} \<lparr>bs_breaker = ?b1, bs_permits = [?p]\<rparr> \<lparr>bs_breaker = ?b2, bs_permits = []\<rparr>"
    using breaker_failure [of ?p "\<lparr>bs_breaker = ?b1, bs_permits = [?p]\<rparr>" "{''a''}" True 1] by simp
  ultimately have "reach (breaker_init {''a''}) (breaker_step {''a''}) \<lparr>bs_breaker = ?b2, bs_permits = []\<rparr>"
    by (rule reach_step)
  moreover have "circuit_acquire ?b2 ''a'' 2 = (Inr ?q, snd (circuit_acquire ?b2 ''a'' 2))" by (simp add: breaker_ops)
  then have "breaker_step {''a''} \<lparr>bs_breaker = ?b2, bs_permits = []\<rparr> probing_system"
    using breaker_admits [of "''a''" "{''a''}" "\<lparr>bs_breaker = ?b2, bs_permits = []\<rparr>" 2 ?q]
    by (simp add: probing_system_def breaker_ops)
  ultimately show ?thesis by (rule reach_step)
qed

section \<open>Counting failures\<close>

text \<open>Calls of one provider that all fail: acquire at one time, report the failure at another.\<close>

fun failing_calls :: "circuit_breaker \<Rightarrow> string \<Rightarrow> (rat \<times> rat) list \<Rightarrow> circuit_breaker" where
  "failing_calls cb key [] = cb"
| "failing_calls cb key ((t, t') # ts) =
     (case circuit_acquire cb key t of
        (Inl e, cb') \<Rightarrow> failing_calls cb' key ts
      | (Inr permit, cb') \<Rightarrow> failing_calls (record_failure cb' permit True t') key ts)"

lemma failing_call:
  assumes inv: "circuit_inv cb" and key: "key \<noteq> []" and x: "circuits cb key = Some x" "cn_state x = CLOSED"
  shows "\<exists>permit cb' y. circuit_acquire cb key t = (Inr permit, cb') \<and>
    circuit_inv (record_failure cb' permit True t') \<and>
    cb_threshold (record_failure cb' permit True t') = cb_threshold cb \<and>
    circuits (record_failure cb' permit True t') key = Some y \<and>
    cn_failures y = cn_failures x + 1 \<and>
    cn_state y = (if cn_failures x + 1 < cb_threshold cb then CLOSED else OPEN)"
proof -
  let ?x = "x\<lparr>cn_in_flight := cn_in_flight x + 1\<rparr>" and ?cb = "snd (circuit_acquire cb key t)"
  let ?p = "\<lparr>cp_provider = key, cp_generation = cn_generation x, cp_probe = False\<rparr>"
  have acq: "fst (circuit_acquire cb key t) = Inr ?p" "circuits ?cb key = Some ?x"
    using circuit_acquire_known [OF inv key x(1), of t] x(2)
    by (simp_all add: acquired_entry_def Let_def del: map_of_eq_Some_iff)
  have "circuit_inv (record_failure ?cb ?p True t')"
    using inv by (intro circuit_step_inv [OF step_failure] circuit_acquire_inv)
  moreover have "circuits (record_failure ?cb ?p True t') key =
      Some (failure_entry (cb_threshold cb) ?p True t' ?x)"
    using acq(2) by (simp add: record_failure_def record_result_circuits del: map_of_eq_Some_iff)
  ultimately show ?thesis
    using acq(1) x(2)
    by (intro exI [of _ ?p] exI [of _ ?cb] exI [of _ "failure_entry (cb_threshold cb) ?p True t' ?x"])
      (auto simp: prod_eq_iff record_failure_def failure_entry_def open_circuit_def Let_def)
qed

lemma failing_calls_state:
  assumes "circuit_inv cb" "key \<noteq> []" "circuits cb key = Some x" "cn_state x = CLOSED"
    and "int (length ts) \<le> cb_threshold cb - cn_failures x"
  shows "circuit_snapshot (failing_calls cb key ts) key =
    Some (if cn_failures x + int (length ts) < cb_threshold cb then CLOSED else OPEN,
      cn_failures x + int (length ts))"
  using assms
proof (induction ts arbitrary: cb x)
  case Nil
  then have "entry_ok (cb_threshold cb) x" unfolding circuit_inv_def entries_fine_def by blast
  with Nil show ?case by (simp add: circuit_snapshot_def entry_ok_def del: map_of_eq_Some_iff)
next
  case (Cons p ts)
  obtain t t' where p: "p = (t, t')" by fastforce
  from failing_call [OF Cons.prems(1-4), of t t'] obtain permit cb' y where
    call: "circuit_acquire cb key t = (Inr permit, cb')"
    and y: "circuit_inv (record_failure cb' permit True t')"
      "cb_threshold (record_failure cb' permit True t') = cb_threshold cb"
      "circuits (record_failure cb' permit True t') key = Some y"
      "cn_failures y = cn_failures x + 1"
      "cn_state y = (if cn_failures x + 1 < cb_threshold cb then CLOSED else OPEN)" by blast
  show ?case
  proof (cases "cn_failures x + 1 < cb_threshold cb")
    case True
    with Cons.IH [OF y(1) Cons.prems(2) y(3)] y Cons.prems(5) show ?thesis
      by (simp add: p call algebra_simps)
  next
    case False
    with Cons.prems(5) have "ts = []" by (cases ts) auto
    with False y show ?thesis by (simp add: p call circuit_snapshot_def del: map_of_eq_Some_iff)
  qed
qed

section \<open>The executor\<close>

declare execute_loop.simps [simp del]

text \<open>A counter of the outside world that counts exactly the provider calls.\<close>

definition counts_calls :: "('e, 'a) provider_env \<Rightarrow> ('e \<Rightarrow> nat) \<Rightarrow> bool" where
  "counts_calls env f \<longleftrightarrow> (\<forall>e. f (snd (pe_clock env e)) = f e) \<and>
     (\<forall>e. f (snd (pe_breaker_clock env e)) = f e) \<and> (\<forall>e. f (snd (pe_call env e)) = Suc (f e)) \<and>
     (\<forall>d e. f (pe_sleep env d e) = f e)"

text \<open>A failure after which the policy may repeat the call.\<close>

definition repeatable :: "('e, 'a) provider_env \<Rightarrow> operation_spec \<Rightarrow> execution_request \<Rightarrow> bool" where
  "repeatable env operation request \<longleftrightarrow>
     (\<exists>code category retryable details. let e = HubError code category retryable details in
        rt_allowed (retry_decide e operation request (classified env e)))"

definition calls_in_flight :: "circuit_breaker \<Rightarrow> string \<Rightarrow> int" where
  "calls_in_flight cb key = (case circuits cb key of None \<Rightarrow> 0 | Some x \<Rightarrow> cn_in_flight x)"

definition half_open :: "circuit_breaker \<Rightarrow> string \<Rightarrow> bool" where
  "half_open cb key \<longleftrightarrow> (\<exists>x. circuits cb key = Some x \<and> cn_state x = HALF_OPEN)"

text \<open>\<open>settled\<close>: no call and no probe of the provider was left open in between.\<close>

definition settled :: "string \<Rightarrow> circuit_breaker \<Rightarrow> circuit_breaker \<Rightarrow> bool" where
  "settled key cb cb' \<longleftrightarrow> circuit_inv cb' \<and>
     (calls_in_flight cb' key = calls_in_flight cb key \<or> calls_in_flight cb' key = 0) \<and>
     (half_open cb' key \<longrightarrow> half_open cb key)"

lemma settled_trans: "settled key a b \<Longrightarrow> settled key b c \<Longrightarrow> settled key a c"
  by (auto simp: settled_def)

lemma attempt_count:
  assumes "counts_calls env f"
  shows "f (snd (snd (execute_attempt policy env operation request key deadline n s))) \<le> Suc (f (snd s))"
    and "fst (execute_attempt policy env operation request key deadline n s) = Inr u \<Longrightarrow>
      repeatable env operation request"
proof -
  have f: "f e' = f e" if "pe_clock env e = (t, e')" for e t e'
    using assms that by (metis counts_calls_def snd_conv)
  have g: "f e' = f e" if "pe_breaker_clock env e = (t, e')" for e t e'
    using assms that by (metis counts_calls_def snd_conv)
  have h: "f e' = Suc (f e)" if "pe_call env e = (t, e')" for e t e'
    using assms that by (metis counts_calls_def snd_conv)
  have i: "f (pe_sleep env d e) = f e" for d e using assms by (simp add: counts_calls_def)
  show "f (snd (snd (execute_attempt policy env operation request key deadline n s))) \<le> Suc (f (snd s))"
    by (auto simp: execute_attempt_def Let_def i split: prod.split sum.split exn.split call_outcome.split
        dest!: f g h)
  show "fst (execute_attempt policy env operation request key deadline n s) = Inr u \<Longrightarrow>
      repeatable env operation request"
    unfolding repeatable_def Let_def
    by (auto simp: execute_attempt_def Let_def split: prod.splits if_splits sum.splits exn.splits
        call_outcome.splits)
qed

lemma loop_done: "execute_attempt policy env operation request key deadline n s = (Inl r, s') \<Longrightarrow>
  execute_loop policy env operation request key deadline n s = (r, s')"
  by (simp add: execute_loop.simps [of policy env operation request key deadline n s])

lemma loop_again: "execute_attempt policy env operation request key deadline n s = (Inr u, s') \<Longrightarrow>
  execute_loop policy env operation request key deadline n s =
  execute_loop policy env operation request key deadline (n + 1) s'"
  by (simp add: execute_loop.simps [of policy env operation request key deadline n s])

lemma loop_count:
  assumes "counts_calls env f" "n < rp_max_attempts policy"
  shows "int (f (snd (snd (execute_loop policy env operation request key deadline n s)))) \<le>
    int (f (snd s)) + (if repeatable env operation request then rp_max_attempts policy - n else 1)"
  using assms
proof (induction policy env operation request key deadline n s rule: execute_loop.induct)
  case (1 policy env operation request key deadline n s)
  obtain r s' where att: "execute_attempt policy env operation request key deadline n s = (r, s')"
    by (rule prod.exhaust)
  have c: "f (snd s') \<le> Suc (f (snd s))"
    using attempt_count(1) [OF "1.prems"(1), of policy operation request key deadline n s] att by simp
  show ?case
  proof (cases r)
    case (Inl x)
    with att c "1.prems"(2) show ?thesis by (simp add: loop_done)
  next
    case (Inr u)
    with att have again: "(Inr (), s') = execute_attempt policy env operation request key deadline n s" by simp
    have rep: "repeatable env operation request"
      using attempt_count(2) [OF "1.prems"(1)] att Inr by (metis fst_conv)
    have "n + 1 < rp_max_attempts policy" using again by (rule execute_attempt_again)
    with "1.IH" [OF again refl "1.prems"(1)] rep c att Inr show ?thesis
      by (simp add: loop_again)
  qed
qed

text \<open>Acquiring and reporting settles the permit, whatever the report.\<close>

lemma acquire_entry_state:
  assumes inv: "circuit_inv cb" and acq: "circuit_acquire cb key now = (Inr permit, cb1)"
  obtains y where "circuits cb1 key = Some y" "cp_provider permit = key" "cp_generation permit = cn_generation y"
    "cp_probe permit \<and> cn_state y = HALF_OPEN \<and> cn_in_flight y = 0 \<or>
     \<not> cp_probe permit \<and> cn_state y = CLOSED \<and> cn_in_flight y = calls_in_flight cb key + 1 \<and>
       0 \<le> calls_in_flight cb key"
    "circuit_inv cb1"
proof -
  have ok: "key \<noteq> []" "\<exists>x d. circuit_lookup cb key = Inr (x, d)"
    using acq by (auto simp: circuit_acquire_def split: if_splits sum.splits)
  then obtain x d where look: "circuit_lookup cb key = Inr (x, d)" by blast
  note e = circuit_acquire_entry [OF inv ok(1) look, of now]
  note l = circuit_lookup_ok [OF inv look]
  let ?y = "snd (acquired_entry (cb_recovery cb) now x)"
  have f: "calls_in_flight cb key = cn_in_flight x"
    using l(4) by (auto simp: calls_in_flight_def new_circuit_entry_def simp del: map_of_eq_Some_iff)
  have "circuits cb1 key = Some ?y" using e(2) acq by simp
  moreover have "cp_provider permit = key \<and> cp_generation permit = cn_generation ?y \<and>
      (cp_probe permit \<and> cn_state ?y = HALF_OPEN \<and> cn_in_flight ?y = 0 \<or>
       \<not> cp_probe permit \<and> cn_state ?y = CLOSED \<and> cn_in_flight ?y = cn_in_flight x + 1 \<and> 0 \<le> cn_in_flight x)"
    using e(1) acq l(3)
    by (auto simp: acquired_entry_def entry_ok_def Let_def split: circuit_state.splits if_splits)
  moreover have "circuit_inv cb1" using circuit_acquire_inv [OF inv, of key now] acq by simp
  ultimately show ?thesis using that f by metis
qed

lemma settled_after_record:
  assumes inv: "circuit_inv cb" and acq: "circuit_acquire cb key now = (Inr permit, cb1)"
  shows "settled key cb (record_success cb1 permit)"
    "settled key cb (record_failure cb1 permit countable now')"
proof -
  obtain y where y: "circuits cb1 key = Some y" "cp_provider permit = key" "cp_generation permit = cn_generation y"
    "cp_probe permit \<and> cn_state y = HALF_OPEN \<and> cn_in_flight y = 0 \<or>
     \<not> cp_probe permit \<and> cn_state y = CLOSED \<and> cn_in_flight y = calls_in_flight cb key + 1 \<and>
       0 \<le> calls_in_flight cb key"
    "circuit_inv cb1" using inv acq by (rule acquire_entry_state)
  have s: "circuit_inv (record_success cb1 permit)" "circuit_inv (record_failure cb1 permit countable now')"
    using y(5) by (blast intro: circuit_step_inv circuit_step.intros)+
  have "circuits (record_success cb1 permit) key = Some (success_entry permit y)"
    using y(1-3) by (simp add: record_success_def record_result_circuits del: map_of_eq_Some_iff)
  then show "settled key cb (record_success cb1 permit)"
    using s(1) y(4) by (auto simp: settled_def calls_in_flight_def half_open_def success_entry_def
        simp del: map_of_eq_Some_iff)
  have "circuits (record_failure cb1 permit countable now') key =
      Some (failure_entry (cb_threshold cb1) permit countable now' y)"
    using y(1-3) by (simp add: record_failure_def record_result_circuits del: map_of_eq_Some_iff)
  then show "settled key cb (record_failure cb1 permit countable now')"
    using s(2) y(4) by (auto simp: settled_def calls_in_flight_def half_open_def failure_entry_def
        open_circuit_def Let_def simp del: map_of_eq_Some_iff)
qed

lemma settled_acquire_error:
  assumes inv: "circuit_inv cb" and acq: "circuit_acquire cb key now = (Inl e, cb1)"
  shows "settled key cb cb1"
proof (cases "key = [] \<or> (\<exists>e. circuit_lookup cb key = Inl e)")
  case True
  then have "snd (circuit_acquire cb key now) = cb" using circuit_acquire_error by metis
  then have "cb1 = cb" using acq by simp
  with inv show ?thesis by (simp add: settled_def)
next
  case False
  then obtain x d where look: "key \<noteq> []" "circuit_lookup cb key = Inr (x, d)"
    by (cases "circuit_lookup cb key") auto
  note e = circuit_acquire_entry [OF inv look, of now]
  note l = circuit_lookup_ok [OF inv look(2)]
  have "snd (acquired_entry (cb_recovery cb) now x) = x \<and> cn_state x \<noteq> CLOSED"
    using e(1) acq by (auto simp: acquired_entry_def Let_def split: circuit_state.splits if_splits)
  moreover from this have "circuits cb key = Some x"
    using l(4) by (auto simp: new_circuit_entry_def simp del: map_of_eq_Some_iff)
  moreover have "circuit_inv cb1" using circuit_acquire_inv [OF inv, of key now] acq by simp
  ultimately show ?thesis using e(2) acq
    by (auto simp: settled_def calls_in_flight_def half_open_def simp del: map_of_eq_Some_iff)
qed

lemma attempt_settled:
  assumes "circuit_inv (fst s)"
    and "fst (execute_attempt policy env operation request key deadline n s) \<noteq> Inl None"
  shows "settled key (fst s) (fst (snd (execute_attempt policy env operation request key deadline n s)))"
proof -
  obtain cb e where s: "s = (cb, e)" by fastforce
  have r: "settled key cb cb" using assms(1) s by (simp add: settled_def)
  from assms r show ?thesis
    by (auto simp: s execute_attempt_def Let_def intro: settled_after_record settled_acquire_error
        split: prod.splits sum.splits call_outcome.splits exn.splits)
qed

lemma loop_settled:
  assumes "circuit_inv (fst s)"
    and "fst (execute_loop policy env operation request key deadline n s) \<noteq> None"
  shows "settled key (fst s) (fst (snd (execute_loop policy env operation request key deadline n s)))"
  using assms
proof (induction policy env operation request key deadline n s rule: execute_loop.induct)
  case (1 policy env operation request key deadline n s)
  obtain r s' where att: "execute_attempt policy env operation request key deadline n s = (r, s')"
    by (rule prod.exhaust)
  show ?case
  proof (cases r)
    case (Inl x)
    with att "1.prems" have "x \<noteq> None" by (auto simp: loop_done)
    with Inl att attempt_settled [OF "1.prems"(1), of policy env operation request key deadline n] show ?thesis
      by (simp add: loop_done)
  next
    case (Inr u)
    with att have again: "execute_attempt policy env operation request key deadline n s = (Inr (), s')" by simp
    have one: "settled key (fst s) (fst s')"
      using attempt_settled [OF "1.prems"(1), of policy env operation request key deadline n] again by simp
    then have "circuit_inv (fst s')" by (simp add: settled_def)
    moreover have "fst (execute_loop policy env operation request key deadline (n + 1) s') \<noteq> None"
      using "1.prems"(2) by (simp add: loop_again [OF again])
    ultimately have "settled key (fst s') (fst (snd (execute_loop policy env operation request key deadline (n + 1) s')))"
      by (rule "1.IH" [OF again [symmetric] refl])
    with one show ?thesis unfolding loop_again [OF again] by (rule settled_trans)
  qed
qed

section \<open>Examples\<close>

definition example_breaker :: circuit_breaker where
  "example_breaker = \<lparr>cb_threshold = 2, cb_recovery = 5, cb_max_entries = 1, cb_entries = []\<rparr>"

definition example_closed :: circuit_breaker where
  "example_closed = record_success (snd (circuit_acquire example_breaker ''a'' 0))
     \<lparr>cp_provider = ''a'', cp_generation = 0, cp_probe = False\<rparr>"

definition example_open :: circuit_breaker where
  "example_open = failing_calls example_closed ''a'' [(1, 1), (2, 2)]"

lemma example_breaker_reachable: "reach circuit_init circuit_step example_breaker"
proof (rule reach_init)
  have "new_circuit_breaker 2 (PyInt 5) 1 = Inr example_breaker"
    by (simp add: new_circuit_breaker_def example_breaker_def)
  then show "circuit_init example_breaker" unfolding circuit_init_def by blast
qed

lemma example_closed_reachable: "reach circuit_init circuit_step example_closed"
  unfolding example_closed_def
  by (rule reach_step [OF reach_step [OF example_breaker_reachable step_acquire] step_success])

lemma example_closed_entries:
  "example_closed = example_breaker\<lparr>cb_entries := [(''a'', new_circuit_entry)]\<rparr>"
  by (simp add: example_closed_def example_breaker_def circuit_acquire_def circuit_lookup_def
      new_circuit_entry_def record_success_def record_result_def success_entry_def move_to_end_def Let_def)

lemma example_open_entries: "cb_entries example_open = [(''a'', \<lparr>cn_state = OPEN, cn_failures = 2,
    cn_opened_at = Some 2, cn_probe = False, cn_in_flight = 0, cn_generation = 1\<rparr>)]"
  by (simp add: example_open_def example_closed_entries example_breaker_def circuit_acquire_def
      circuit_lookup_def new_circuit_entry_def record_failure_def record_result_def failure_entry_def
      open_circuit_def move_to_end_def Let_def)

lemma failing_calls_run: "circuit_step\<^sup>*\<^sup>* cb (failing_calls cb key ts)"
proof (induction ts arbitrary: cb)
  case (Cons p ts)
  obtain t t' where p: "p = (t, t')" by fastforce
  obtain r cb1 where acq: "circuit_acquire cb key t = (r, cb1)" by fastforce
  have step: "circuit_step cb cb1" using step_acquire [of cb key t] acq by simp
  show ?case
  proof (cases r)
    case (Inl e)
    with step Cons show ?thesis by (auto simp: p acq intro: converse_rtranclp_into_rtranclp)
  next
    case (Inr permit)
    have "circuit_step cb1 (record_failure cb1 permit True t')" by (rule step_failure)
    with Inr step Cons show ?thesis
      by (auto simp: p acq intro: converse_rtranclp_into_rtranclp)
  qed
qed simp

lemma example_open_reachable: "reach circuit_init circuit_step example_open"
  unfolding example_open_def by (rule reach_run [OF example_closed_reachable failing_calls_run])

section \<open>Properties\<close>

text \<open>
  What \<open>acquire\<close> answers for a known provider of a reachable breaker: a closed circuit
  admits the call and counts it; an open one refuses until the recovery timeout has passed since
  it opened and then admits one probe under a new generation; a half-open one refuses. The number
  of entries never exceeds its bound.
\<close>

theorem circuit_gate:
  fixes now :: rat
  assumes "reach circuit_init circuit_step cb" "key \<noteq> []" "circuits cb key = Some x"
  defines "r \<equiv> fst (circuit_acquire cb key now)" and "x' \<equiv> circuits (snd (circuit_acquire cb key now)) key"
  shows "int (length (cb_entries cb)) \<le> cb_max_entries cb \<and>
    (case cn_state x of
       CLOSED \<Rightarrow> r = Inr \<lparr>cp_provider = key, cp_generation = cn_generation x, cp_probe = False\<rparr> \<and>
         x' = Some (x\<lparr>cn_in_flight := cn_in_flight x + 1\<rparr>)
     | OPEN \<Rightarrow> (\<exists>t. cn_opened_at x = Some t \<and>
         (if now < t + cb_recovery cb then r = Inl (circuit_error ''provider_circuit_open'') \<and> x' = Some x
          else r = Inr \<lparr>cp_provider = key, cp_generation = cn_generation x + 1, cp_probe = True\<rparr> \<and>
            x' = Some (x\<lparr>cn_state := HALF_OPEN, cn_generation := cn_generation x + 1, cn_probe := True\<rparr>)))
     | HALF_OPEN \<Rightarrow> r = Inl (circuit_error ''provider_circuit_open'') \<and> x' = Some x)"
proof -
  have inv: "circuit_inv cb" using assms(1) by (rule circuit.reachable_inv)
  have "entry_ok (cb_threshold cb) x" "int (length (cb_entries cb)) \<le> cb_max_entries cb"
    using inv assms(3) unfolding circuit_inv_def entries_fine_def by blast+
  then show ?thesis
    unfolding r_def x'_def circuit_acquire_known [OF inv assms(2,3), of now]
    by (cases "cn_state x") (auto simp: acquired_entry_def entry_ok_def Let_def algebra_simps)
qed

theorem circuit_gate_witness:
  "fst (circuit_acquire example_open ''a'' 3) = Inl (circuit_error ''provider_circuit_open'')"
  using circuit_gate [OF example_open_reachable, of "''a''" "snd (hd (cb_entries example_open))" 3]
  by (simp add: example_open_entries) (simp add: example_open_def example_closed_entries example_breaker_def
      circuit_acquire_def circuit_lookup_def new_circuit_entry_def record_failure_def record_result_def
      failure_entry_def open_circuit_def move_to_end_def Let_def)

text \<open>
  C28. One probe at a time. A breaker is called for the providers of a set \<open>K\<close>, no more
  than it has entries for (so that no entry is evicted), and every permit it gave is reported at most
  once. At any moment of any such history, while a probe permit has not been reported, no other probe
  of its provider is in flight and every further call to the provider is refused, at any time. (When
  entries are evicted, late reports of calls of an evicted entry are accepted, see
  \<open>circuit_stale_permit_charged\<close>, and this need not hold.)
\<close>

theorem circuit_single_probe:
  assumes "reach (breaker_init K) (breaker_step K) s" "p \<in> set (bs_permits s)" "cp_probe p"
  shows "fst (circuit_acquire (bs_breaker s) (cp_provider p) now) = Inl (circuit_error ''provider_circuit_open'') \<and>
    filter (\<lambda>q. cp_provider q = cp_provider p \<and> cp_probe q) (bs_permits s) = [p]"
  using probe_refuses [OF breakers.reachable_inv [OF assms(1)] assms(2,3)] by blast

theorem circuit_single_probe_witness:
  "fst (circuit_acquire (bs_breaker probing_system) ''a'' 1000) = Inl (circuit_error ''provider_circuit_open'') \<and>
   length (bs_permits probing_system) = 1"
  using circuit_single_probe [OF probing_system_reachable,
      of "\<lparr>cp_provider = ''a'', cp_generation = 2, cp_probe = True\<rparr>" 1000]
  by (simp add: probing_system_value)

text \<open>
  The circuit trips exactly at the threshold: from a closed entry with \<open>f\<close> failures, a
  sequence of failing calls leaves the circuit closed, with every failure counted, as long as the
  count stays below the threshold, and open as soon as it reaches it.
\<close>

theorem circuit_trips_at_threshold:
  assumes "reach circuit_init circuit_step cb" "key \<noteq> []" "circuit_snapshot cb key = Some (CLOSED, f)"
    and "int (length ts) \<le> cb_threshold cb - f"
  shows "circuit_snapshot (failing_calls cb key ts) key =
    Some (if f + int (length ts) < cb_threshold cb then CLOSED else OPEN, f + int (length ts))"
proof -
  from assms(3) obtain x where "circuits cb key = Some x" "cn_state x = CLOSED" "cn_failures x = f"
    by (auto simp: circuit_snapshot_def)
  with failing_calls_state [OF circuit.reachable_inv [OF assms(1)] assms(2)] assms(4) show ?thesis by blast
qed

theorem circuit_trips_at_threshold_witness:
  "circuit_snapshot (failing_calls example_closed ''a'' [(1, 1)]) ''a'' = Some (CLOSED, 1) \<and>
   circuit_snapshot (failing_calls example_closed ''a'' [(1, 1), (2, 2)]) ''a'' = Some (OPEN, 2)"
proof -
  have "circuit_snapshot example_closed ''a'' = Some (CLOSED, 0)" "cb_threshold example_closed = 2"
    by (simp_all add: circuit_snapshot_def example_closed_entries example_breaker_def new_circuit_entry_def)
  with circuit_trips_at_threshold [OF example_closed_reachable, of "''a''" 0 "[(1, 1)]"]
    circuit_trips_at_threshold [OF example_closed_reachable, of "''a''" 0 "[(1, 1), (2, 2)]"]
  show ?thesis by simp
qed

text \<open>
  A permit outlives the entry it was given for: an entry is evicted when it is closed with no
  call in flight, but opening the circuit has reset that count, so a call may still be running.
  Its provider gets a fresh entry whose generations start again at 0, and the late failure of the
  old call is then charged to it. Here one late failure opens the circuit of a provider that has
  not failed since.
\<close>

definition stale_start :: circuit_breaker where
  "stale_start = \<lparr>cb_threshold = 1, cb_recovery = 0, cb_max_entries = 1, cb_entries = []\<rparr>"

theorem circuit_stale_permit_charged:
  "let (p1, b1) = circuit_acquire stale_start ''a'' 0;
       (p2, b2) = circuit_acquire b1 ''a'' 0;
       b3 = record_failure b2 (projr p2) True 1;
       (p3, b4) = circuit_acquire b3 ''a'' 2;
       b5 = record_success b4 (projr p3);
       (p4, b6) = circuit_acquire b5 ''b'' 3;
       b7 = record_success b6 (projr p4);
       (p5, b8) = circuit_acquire b7 ''a'' 4;
       b9 = record_success b8 (projr p5);
       b10 = record_failure b9 (projr p1) True 5
   in circuit_snapshot b5 ''a'' = Some (CLOSED, 0) \<and> circuit_snapshot b6 ''a'' = None \<and>
      circuit_snapshot b9 ''a'' = Some (CLOSED, 0) \<and> circuit_snapshot b10 ''a'' = Some (OPEN, 1)"
  by (simp add: stale_start_def circuit_acquire_def circuit_lookup_def new_circuit_entry_def
      record_failure_def record_success_def record_result_def failure_entry_def success_entry_def
      open_circuit_def move_to_end_def circuit_snapshot_def Let_def)

text \<open>
  C29. Execution terminates after at most \<open>max_attempts\<close> provider calls, and after at most one
  when no failure may be repeated: nothing is classified as not applied, the operation is
  irreversible, or it is a reversible write without a non-blank idempotency key.
\<close>

theorem execute_bounded_calls:
  assumes "counts_calls env calls" "1 \<le> rp_max_attempts policy"
  shows "int (calls (snd (snd (provider_execute policy env operation request key seconds s)))) \<le>
      int (calls (snd s)) + rp_max_attempts policy \<and>
    ((\<forall>e. classified env e \<noteq> NOT_APPLIED) \<or> op_side_effect operation = IRREVERSIBLE \<or>
      op_side_effect operation = REVERSIBLE_WRITE \<and>
        (\<forall>k. rq_idempotency_key request = Some k \<longrightarrow> strip k = []) \<longrightarrow>
     int (calls (snd (snd (provider_execute policy env operation request key seconds s)))) \<le>
       int (calls (snd s)) + 1)"
proof -
  have clock: "calls (snd (pe_clock env e)) = calls e" for e using assms(1) by (simp add: counts_calls_def)
  have "int (calls (snd (snd (provider_execute policy env operation request key seconds s)))) \<le>
      int (calls (snd s)) + (if repeatable env operation request then rp_max_attempts policy else 1)"
    using loop_count [OF assms(1), of 0 policy operation request key] assms(2) clock
    by (auto simp: provider_execute_def Let_def split: sum.split prod.split)
       (metis fst_conv snd_conv)+
  moreover have "\<not> repeatable env operation request"
    if "(\<forall>e. classified env e \<noteq> NOT_APPLIED) \<or> op_side_effect operation = IRREVERSIBLE \<or>
      op_side_effect operation = REVERSIBLE_WRITE \<and>
        (\<forall>k. rq_idempotency_key request = Some k \<longrightarrow> strip k = [])"
    using that by (auto simp: repeatable_def retry_decide_def Let_def split: option.splits)
  ultimately show ?thesis using assms(2) by (auto split: if_splits)
qed

definition example_env :: "(nat, nat) provider_env" where
  "example_env = \<lparr>pe_clock = (\<lambda>e. (0, e)), pe_breaker_clock = (\<lambda>e. (0, e)),
     pe_call = (\<lambda>e. (Raised (HubError ''cli_start_failed'' PROVIDER True []), Suc e)),
     pe_classify = (\<lambda>e. Some (classify_adapter_failure e)), pe_sleep = (\<lambda>d e. e)\<rparr>"

definition example_policy :: retry_policy where
  "example_policy = \<lparr>rp_max_attempts = 3, rp_initial = 0, rp_multiplier = 2, rp_max_backoff = 2\<rparr>"

definition example_operation :: operation_spec where
  "example_operation = \<lparr>op_name = ''read'', op_type = EXECUTE, op_input_schema = [],
     op_output_schema = [], op_side_effect = READ, op_requires_approval = False\<rparr>"

definition example_request :: execution_request where
  "example_request = \<lparr>rq_execution_ref = ''x'', rq_operation = ''read'', rq_arguments = [],
     rq_task_id = ''t'', rq_approval_ref = None, rq_idempotency_key = None\<rparr>"

theorem execute_bounded_calls_witness:
  "int (id (snd (snd (provider_execute example_policy example_env example_operation example_request
     ''a'' (PyInt 10) (example_breaker, 0))))) \<le> 3"
proof -
  have "counts_calls example_env id" by (simp add: counts_calls_def example_env_def)
  from execute_bounded_calls [OF this, of example_policy example_operation example_request "''a''"
      "PyInt 10" "(example_breaker, 0)"]
  show ?thesis by (simp add: example_policy_def)
qed

text \<open>
  Every permit is settled: an execution that is not aborted leaves the provider's number of
  calls in flight as it was, or at 0 where the circuit opened, and never leaves a probe open.
\<close>

theorem execute_settles_permits:
  assumes "reach circuit_init circuit_step (fst s)"
    and "fst (provider_execute policy env operation request key seconds s) = Some result"
  shows "let cb' = fst (snd (provider_execute policy env operation request key seconds s)) in
    (calls_in_flight cb' key = calls_in_flight (fst s) key \<or> calls_in_flight cb' key = 0) \<and>
    (half_open cb' key \<longrightarrow> half_open (fst s) key)"
proof -
  have inv: "circuit_inv (fst s)" using assms(1) by (rule circuit.reachable_inv)
  have "settled key (fst s) (fst (snd (provider_execute policy env operation request key seconds s)))"
  proof (cases "finite_number seconds")
    case (Inl e)
    with inv show ?thesis by (simp add: provider_execute_def settled_def)
  next
    case (Inr d)
    obtain t e where t: "pe_clock env (snd s) = (t, e)" by fastforce
    show ?thesis
    proof (cases "d < 0")
      case True
      with Inr inv show ?thesis by (simp add: provider_execute_def settled_def)
    next
      case False
      with Inr t assms(2) loop_settled [of "(fst s, e)" policy env operation request key "t + d" 0] inv
      show ?thesis by (simp add: provider_execute_def)
    qed
  qed
  then show ?thesis by (simp add: settled_def Let_def)
qed

definition example_ok_env :: "(nat, nat) provider_env" where
  "example_ok_env = example_env\<lparr>pe_call := (\<lambda>e. (Returned 7, Suc e))\<rparr>"

theorem execute_settles_permits_witness:
  "fst (provider_execute example_policy example_ok_env example_operation example_request
     ''a'' (PyInt 10) (example_closed, 0)) = Some (Inr 7) \<and>
   calls_in_flight (fst (snd (provider_execute example_policy example_ok_env example_operation example_request
     ''a'' (PyInt 10) (example_closed, 0)))) ''a'' = 0"
proof -
  have r: "fst (provider_execute example_policy example_ok_env example_operation example_request
     ''a'' (PyInt 10) (example_closed, 0)) = Some (Inr 7)"
    by (simp add: provider_execute_def example_ok_env_def example_env_def execute_loop.simps
        execute_attempt_def example_closed_entries example_breaker_def circuit_acquire_def
        circuit_lookup_def new_circuit_entry_def Let_def)
  moreover have "calls_in_flight example_closed ''a'' = 0"
    by (simp add: calls_in_flight_def example_closed_entries new_circuit_entry_def)
  ultimately show ?thesis
    using execute_settles_permits [of "(example_closed, 0)", OF _ r] example_closed_reachable
    by (simp add: Let_def)
qed

end
