(* ===== verification/Policy.thy ===== *)
theory Policy
  imports Capabilities Resilience
begin

text \<open>
  The decisions that stand between a request and a provider: the deny-by-default policy of
  \<open>policy.py\<close>, the dependency decisions of \<open>degraded.py\<close> and the live observations of
  \<open>dependency_observer.py\<close> they are taken on. Times are the rationals the floats denote.
\<close>

section \<open>The reference policy (policy.py)\<close>

datatype policy_outcome = Policy_Allow | Policy_Deny | Policy_Approval_Required

fun outcome_value :: "policy_outcome \<Rightarrow> string" where
  "outcome_value Policy_Allow = ''allow''"
| "outcome_value Policy_Deny = ''deny''"
| "outcome_value Policy_Approval_Required = ''approval_required''"

record policy_decision =
  pd_outcome :: policy_outcome
  pd_reasons :: "string list"

record policy_context =
  pc_granted :: "string set"
  pc_approved :: bool
  pc_allow_irreversible :: bool

definition missing_permissions :: "capability_manifest \<Rightarrow> string set \<Rightarrow> string list" where
  "missing_permissions m granted = sort (remdups (filter (\<lambda>p. p \<notin> granted) (cm_permissions m)))"

definition policy_decide ::
  "capability_manifest \<Rightarrow> operation_spec \<Rightarrow> policy_context \<Rightarrow> policy_decision" where
  "policy_decide m op ctx =
     (let missing = missing_permissions m (pc_granted ctx) in
      if missing \<noteq> [] then \<lparr>pd_outcome = Policy_Deny, pd_reasons = ''missing_permission'' # missing\<rparr>
      else if op_side_effect op = IRREVERSIBLE \<and> \<not> pc_allow_irreversible ctx
      then \<lparr>pd_outcome = Policy_Deny, pd_reasons = [''irreversible_disallowed'']\<rparr>
      else if op_requires_approval op \<and> \<not> pc_approved ctx
      then \<lparr>pd_outcome = Policy_Approval_Required, pd_reasons = [''operation_requires_approval'']\<rparr>
      else if op_side_effect op = REVERSIBLE_WRITE \<and> \<not> pc_approved ctx
      then \<lparr>pd_outcome = Policy_Approval_Required, pd_reasons = [''write_requires_approval'']\<rparr>
      else \<lparr>pd_outcome = Policy_Allow, pd_reasons = [''policy_allow'']\<rparr>)"

lemma missing_permissions_Nil: "missing_permissions m granted = [] \<longleftrightarrow> set (cm_permissions m) \<subseteq> granted"
proof -
  have "missing_permissions m granted = [] \<longleftrightarrow> set (missing_permissions m granted) = {}" by simp
  then show ?thesis by (auto simp: missing_permissions_def simp del: set_empty)
qed

text \<open>The whole decision table in one equivalence.\<close>

lemma policy_allows_iff:
  "pd_outcome (policy_decide m op ctx) = Policy_Allow \<longleftrightarrow>
     set (cm_permissions m) \<subseteq> pc_granted ctx \<and>
     (op_side_effect op = IRREVERSIBLE \<longrightarrow> pc_allow_irreversible ctx) \<and>
     (op_requires_approval op \<or> op_side_effect op = REVERSIBLE_WRITE \<longrightarrow> pc_approved ctx)"
  using missing_permissions_Nil [of m "pc_granted ctx"] by (auto simp: policy_decide_def Let_def)

text \<open>
  An irreversible operation that does not ask for approval itself is allowed without one: the
  approval rule for writes names reversible writes only.
\<close>

lemma irreversible_without_approval:
  assumes "set (cm_permissions m) \<subseteq> pc_granted ctx" "pc_allow_irreversible ctx"
    and "op_side_effect op = IRREVERSIBLE" "\<not> op_requires_approval op"
  shows "pd_outcome (policy_decide m op (ctx\<lparr>pc_approved := False\<rparr>)) = Policy_Allow"
  using assms by (simp add: policy_allows_iff)

section \<open>Dependency decisions (degraded.py)\<close>

datatype dependency = Dep_Registry | Dep_Index | Dep_Policy | Dep_Provider

datatype dependency_status = Available | Unavailable | Stale | Unknown

datatype dependency_operation = Do_Search | Do_Load | Do_Execute | Do_Lifecycle

datatype decision_outcome = Outcome_Allow | Outcome_Degraded | Outcome_Deny

fun dependency_value :: "dependency \<Rightarrow> string" where
  "dependency_value Dep_Registry = ''registry''"
| "dependency_value Dep_Index = ''index''"
| "dependency_value Dep_Policy = ''policy''"
| "dependency_value Dep_Provider = ''provider''"

fun status_value :: "dependency_status \<Rightarrow> string" where
  "status_value Available = ''available''"
| "status_value Unavailable = ''unavailable''"
| "status_value Stale = ''stale''"
| "status_value Unknown = ''unknown''"

fun operation_value :: "dependency_operation \<Rightarrow> string" where
  "operation_value Do_Search = ''search''"
| "operation_value Do_Load = ''load''"
| "operation_value Do_Execute = ''execute''"
| "operation_value Do_Lifecycle = ''lifecycle''"

fun required_dependencies :: "dependency_operation \<Rightarrow> dependency list" where
  "required_dependencies Do_Search = [Dep_Registry, Dep_Index]"
| "required_dependencies Do_Load = [Dep_Registry, Dep_Policy, Dep_Provider]"
| "required_dependencies Do_Execute = [Dep_Registry, Dep_Policy, Dep_Provider]"
| "required_dependencies Do_Lifecycle = [Dep_Registry, Dep_Policy, Dep_Provider]"

record dependency_observation =
  ob_dependency :: dependency
  ob_status :: dependency_status
  ob_observed_at :: rat
  ob_ttl :: rat

record dependency_assessment =
  as_dependency :: dependency
  as_declared :: dependency_status
  as_effective :: dependency_status
  as_observed_at :: "rat option"
  as_ttl :: "rat option"
  as_age :: "rat option"

record safe_fallback =
  fb_operation :: dependency_operation
  fb_dependency :: dependency
  fb_name :: string
  fb_statuses :: "dependency_status list"
  fb_max_age :: "rat option"

record degraded_decision =
  dd_operation :: dependency_operation
  dd_outcome :: decision_outcome
  dd_reasons :: "string list"
  dd_dependencies :: "dependency_assessment list"
  dd_fallbacks :: "string list"

text \<open>\<open>math.isfinite\<close> raises for what is not a number and for integers no float holds.\<close>

fun finite_time :: "pyval \<Rightarrow> rat result" where
  "finite_time (PyInt n) =
     (if 2 ^ 1024 - 2 ^ 970 \<le> \<bar>n\<bar> then Inl OverflowError
      else if n < 0 then Inl ValueError else Inr (of_int n))"
| "finite_time (PyBool b) = Inr (of_bool b)"
| "finite_time (PyFloat x) = (if x < 0 then Inl ValueError else Inr x)"
| "finite_time PyNonFinite = Inl ValueError"
| "finite_time _ = Inl TypeError"

definition make_observation ::
  "dependency \<Rightarrow> dependency_status \<Rightarrow> pyval \<Rightarrow> pyval \<Rightarrow> dependency_observation result" where
  "make_observation d s seen ttl = rbind (finite_time seen) (\<lambda>t. rbind (finite_time ttl) (\<lambda>u.
     Inr \<lparr>ob_dependency = d, ob_status = s, ob_observed_at = t, ob_ttl = u\<rparr>))"

definition make_fallback ::
  "dependency_operation \<Rightarrow> dependency \<Rightarrow> string \<Rightarrow> dependency_status list \<Rightarrow> pyval \<Rightarrow> safe_fallback result" where
  "make_fallback op d name statuses max_age =
     (if name = [] \<or> 64 < length name \<or> (\<exists>c \<in> set name. is_space c) then Inl ValueError
      else if statuses = [] \<or> \<not> distinct statuses then Inl ValueError
      else if Available \<in> set statuses then Inl ValueError
      else rbind (if max_age = PyNone then Inr None else rbind (finite_time max_age) (\<lambda>t. Inr (Some t)))
        (\<lambda>age. Inr \<lparr>fb_operation = op, fb_dependency = d, fb_name = name, fb_statuses = statuses,
           fb_max_age = age\<rparr>))"

fun observation_map ::
  "dependency_observation list \<Rightarrow> (dependency \<rightharpoonup> dependency_observation) \<Rightarrow> (dependency \<rightharpoonup> dependency_observation) result" where
  "observation_map [] m = Inr m"
| "observation_map (x # xs) m =
     (if m (ob_dependency x) \<noteq> None then Inl ValueError
      else observation_map xs (m(ob_dependency x \<mapsto> x)))"

fun fallback_map ::
  "dependency_operation \<Rightarrow> safe_fallback list \<Rightarrow> (dependency \<rightharpoonup> safe_fallback) \<Rightarrow> (dependency \<rightharpoonup> safe_fallback) result" where
  "fallback_map op [] m = Inr m"
| "fallback_map op (x # xs) m =
     (if fb_operation x \<noteq> op then fallback_map op xs m
      else if m (fb_dependency x) \<noteq> None then Inl ValueError
      else fallback_map op xs (m(fb_dependency x \<mapsto> x)))"

definition assess :: "dependency \<Rightarrow> dependency_observation option \<Rightarrow> rat \<Rightarrow> dependency_assessment" where
  "assess d observation now =
     (case observation of
        None \<Rightarrow> \<lparr>as_dependency = d, as_declared = Unknown, as_effective = Unknown, as_observed_at = None,
          as_ttl = None, as_age = None\<rparr>
      | Some x \<Rightarrow>
          (let age = now - ob_observed_at x;
               effective = (if age < 0 then Unknown
                  else if ob_status x = Available \<and> ob_ttl x < age then Stale else ob_status x)
           in \<lparr>as_dependency = d, as_declared = ob_status x, as_effective = effective,
                as_observed_at = Some (ob_observed_at x), as_ttl = Some (ob_ttl x), as_age = Some (max age 0)\<rparr>))"

definition fallback_applies :: "safe_fallback \<Rightarrow> dependency_assessment \<Rightarrow> bool" where
  "fallback_applies f a \<longleftrightarrow> as_effective a \<in> set (fb_statuses f) \<and>
     (case fb_max_age f of None \<Rightarrow> True
      | Some limit \<Rightarrow> (case as_age a of None \<Rightarrow> False | Some age \<Rightarrow> age \<le> limit))"

text \<open>The loop over the required dependencies: reasons, fallbacks used, denied, degraded.\<close>

fun decide_loop ::
  "(dependency \<Rightarrow> dependency_assessment) \<Rightarrow> (dependency \<rightharpoonup> safe_fallback) \<Rightarrow> dependency list \<Rightarrow>
   string list \<times> string list \<times> bool \<times> bool \<Rightarrow> string list \<times> string list \<times> bool \<times> bool" where
  "decide_loop assessed fallbacks [] acc = acc"
| "decide_loop assessed fallbacks (d # ds) (reasons, used, denied, degraded) =
     (let a = assessed d in
      if as_effective a = Available then decide_loop assessed fallbacks ds (reasons, used, denied, degraded)
      else (let reasons' = reasons @ [''dependency.'' @ dependency_value d @ ''.'' @ status_value (as_effective a)]
        in case fallbacks d of
             Some f \<Rightarrow>
               if fallback_applies f a
               then decide_loop assessed fallbacks ds
                 (reasons' @ [''fallback.'' @ dependency_value d @ ''.'' @ fb_name f], used @ [fb_name f], denied, True)
               else decide_loop assessed fallbacks ds
                 (reasons' @ [''fallback.'' @ dependency_value d @ ''.missing''], used, True, degraded)
           | None \<Rightarrow> decide_loop assessed fallbacks ds
               (reasons' @ [''fallback.'' @ dependency_value d @ ''.missing''], used, True, degraded)))"

definition all_dependencies :: "dependency list" where
  "all_dependencies = [Dep_Registry, Dep_Index, Dep_Policy, Dep_Provider]"

definition dependency_decide ::
  "dependency_operation \<Rightarrow> dependency_observation list \<Rightarrow> safe_fallback list \<Rightarrow> pyval \<Rightarrow> degraded_decision result" where
  "dependency_decide op observations safe_fallbacks clock =
     rbind (finite_time clock) (\<lambda>now.
     rbind (observation_map observations Map.empty) (\<lambda>observed.
     rbind (fallback_map op safe_fallbacks Map.empty) (\<lambda>fallbacks.
       (let assessed = (\<lambda>d. assess d (observed d) now);
            (reasons, used, denied, degraded) =
              decide_loop assessed fallbacks (required_dependencies op) ([], [], False, False)
        in Inr \<lparr>dd_operation = op,
             dd_outcome = (if denied then Outcome_Deny else if degraded then Outcome_Degraded else Outcome_Allow),
             dd_reasons = (if reasons = [] then [''dependencies.fresh''] else reasons),
             dd_dependencies = map assessed all_dependencies, dd_fallbacks = used\<rparr>))))"

section \<open>Live observations (dependency_observer.py)\<close>

record observation_source =
  os_id :: string
  os_dependency :: dependency
  os_ttl :: rat

text \<open>What a call of a source's probe did: returned a status, returned something else, raised.\<close>

datatype probe_result = Probed dependency_status | Probed_Other | Probe_Raised

fun severity :: "dependency_status \<Rightarrow> nat" where
  "severity Available = 0"
| "severity Unknown = 1"
| "severity Stale = 2"
| "severity Unavailable = 3"

definition make_source :: "string \<Rightarrow> dependency \<Rightarrow> pyval \<Rightarrow> observation_source result" where
  "make_source i d ttl =
     (if i = [] \<or> 64 < length i \<or> (\<exists>c \<in> set i. is_space c) then Inl ValueError
      else if d \<noteq> Dep_Policy \<and> d \<noteq> Dep_Provider then Inl ValueError
      else rbind (finite_time ttl) (\<lambda>t.
        if 0 < t \<and> t \<le> 300 then Inr \<lparr>os_id = i, os_dependency = d, os_ttl = t\<rparr> else Inl ValueError))"

definition new_observer :: "observation_source list \<Rightarrow> observation_source list result" where
  "new_observer sources =
     (let selected = sort_key (\<lambda>s. (dependency_value (os_dependency s), os_id s)) sources in
      if selected = [] \<or> 64 < length selected then Inl ValueError
      else if \<not> distinct (map (\<lambda>s. (os_dependency s, os_id s)) selected) then Inl ValueError
      else Inr selected)"

fun probe_status :: "probe_result \<Rightarrow> dependency_status" where
  "probe_status (Probed s) = s"
| "probe_status Probed_Other = Unknown"
| "probe_status Probe_Raised = Unavailable"

fun worst_status :: "dependency_status \<Rightarrow> dependency_status list \<Rightarrow> dependency_status" where
  "worst_status s [] = s"
| "worst_status s (t # ts) = worst_status (if severity s < severity t then t else s) ts"

text \<open>
  One observation per dependency that has a source, policy before provider: the worst status of its
  sources with their smallest lifetime.
\<close>

definition observe ::
  "observation_source list \<Rightarrow> (observation_source \<Rightarrow> probe_result) \<Rightarrow> pyval \<Rightarrow> dependency_observation list result" where
  "observe sources probe clock =
     rbind (finite_time clock) (\<lambda>t.
       Inr (concat (map (\<lambda>d. case filter (\<lambda>s. os_dependency s = d) sources of
              [] \<Rightarrow> []
            | s # ss \<Rightarrow> [\<lparr>ob_dependency = d,
                ob_status = worst_status (probe_status (probe s)) (map (\<lambda>x. probe_status (probe x)) ss),
                ob_observed_at = t, ob_ttl = Min (set (map os_ttl (s # ss)))\<rparr>])
          [Dep_Index, Dep_Policy, Dep_Provider, Dep_Registry])))"

text \<open>The two probes of the module; a circuit snapshot that is missing makes the answer unknown.\<close>

fun policy_revision_probe :: "pyval \<Rightarrow> probe_result" where
  "policy_revision_probe (PyInt n) = Probed (if 0 \<le> n then Available else Unavailable)"
| "policy_revision_probe _ = Probed Unknown"

definition provider_circuit_probe :: "(circuit_state \<times> int) option list \<Rightarrow> probe_result" where
  "provider_circuit_probe snapshots =
     (let states = map (\<lambda>x. map_option fst x) snapshots in
      if states = [] \<or> None \<in> set states then Probed Unknown
      else if Some OPEN \<in> set states then Probed Unavailable
      else if Some HALF_OPEN \<in> set states then Probed Stale
      else Probed Available)"

section \<open>When a dependency decision denies\<close>

definition dependency_excused ::
  "(dependency \<Rightarrow> dependency_assessment) \<Rightarrow> (dependency \<rightharpoonup> safe_fallback) \<Rightarrow> dependency \<Rightarrow> bool" where
  "dependency_excused assessed fallbacks d \<longleftrightarrow> as_effective (assessed d) = Available \<or>
     (\<exists>f. fallbacks d = Some f \<and> fallback_applies f (assessed d))"

lemma decide_loop_flags:
  "decide_loop assessed fallbacks ds (reasons, used, denied, degraded) = (reasons', used', denied', degraded') \<Longrightarrow>
    (denied' \<longleftrightarrow> denied \<or> (\<exists>d \<in> set ds. \<not> dependency_excused assessed fallbacks d)) \<and>
    (degraded' \<longleftrightarrow> degraded \<or> (\<exists>d \<in> set ds. as_effective (assessed d) \<noteq> Available \<and>
       dependency_excused assessed fallbacks d))"
proof (induction ds arbitrary: reasons used denied degraded)
  case (Cons d ds)
  show ?case
  proof (cases "as_effective (assessed d) = Available")
    case True
    with Cons show ?thesis by (simp add: dependency_excused_def)
  next
    case False
    show ?thesis
    proof (cases "\<exists>f. fallbacks d = Some f \<and> fallback_applies f (assessed d)")
      case True
      then obtain f where "fallbacks d = Some f" "fallback_applies f (assessed d)" by blast
      with Cons.prems Cons.IH False show ?thesis
        by (auto simp: dependency_excused_def Let_def split: option.splits)
    next
      case unexcused: False
      with Cons.prems obtain rs where
        "decide_loop assessed fallbacks ds (rs, used, True, degraded) = (reasons', used', denied', degraded')"
        using False by (auto simp: Let_def split: option.splits if_splits)
      from Cons.IH [OF this] False unexcused show ?thesis by (auto simp: dependency_excused_def)
    qed
  qed
qed simp

text \<open>
  A decision denies exactly when a required dependency is neither available, as assessed at the
  time of the decision, nor covered by an applicable fallback of the operation.
\<close>

lemma dependency_outcome:
  assumes "dependency_decide op observations safe_fallbacks clock = Inr decision"
  obtains now observed fallbacks where "finite_time clock = Inr now"
    "observation_map observations Map.empty = Inr observed" "fallback_map op safe_fallbacks Map.empty = Inr fallbacks"
    "dd_outcome decision = Outcome_Deny \<longleftrightarrow> (\<exists>d \<in> set (required_dependencies op).
       \<not> dependency_excused (\<lambda>d. assess d (observed d) now) fallbacks d)"
    "dd_outcome decision = Outcome_Allow \<longleftrightarrow> (\<forall>d \<in> set (required_dependencies op).
       as_effective (assess d (observed d) now) = Available)"
proof -
  from assms obtain now observed fallbacks where
    maps: "finite_time clock = Inr now" "observation_map observations Map.empty = Inr observed"
      "fallback_map op safe_fallbacks Map.empty = Inr fallbacks"
    unfolding dependency_decide_def rbind_eq_Inr by blast
  obtain reasons used denied degraded where
    l: "decide_loop (\<lambda>d. assess d (observed d) now) fallbacks (required_dependencies op) ([], [], False, False) =
      (reasons, used, denied, degraded)"
    by (metis prod.exhaust)
  have out: "dd_outcome decision = (if denied then Outcome_Deny else if degraded then Outcome_Degraded else Outcome_Allow)"
    using assms maps l by (auto simp: dependency_decide_def)
  have "dd_outcome decision = Outcome_Deny \<longleftrightarrow> (\<exists>d \<in> set (required_dependencies op).
       \<not> dependency_excused (\<lambda>d. assess d (observed d) now) fallbacks d)"
    using decide_loop_flags [OF l] out by auto
  moreover have "dd_outcome decision = Outcome_Allow \<longleftrightarrow> (\<forall>d \<in> set (required_dependencies op).
       as_effective (assess d (observed d) now) = Available)"
    using decide_loop_flags [OF l] out by (auto simp: dependency_excused_def)
  ultimately show ?thesis using that maps by blast
qed

end
