(* ===== verification/Idempotency.thy ===== *)
theory Idempotency
  imports Capabilities Json_Parser
begin

text \<open>
  \<open>idempotency.py\<close>: execution records in SQLite, keyed by a digest of the slot. A method is one
  transaction; the clock is read once per call and is an argument. Rows are what the store's own
  statements write. \<open>wait\<close> polls a table other processes change: its argument lists the tables
  the later polls see, and the list ends where the deadline has passed.
\<close>

type_synonym idem_slot = "string \<times> string \<times> string \<times> string \<times> string"

datatype idem_status = In_Progress | Complete | Uncertain | Conflict

record idem_record =
  ir_arguments :: string
  ir_status :: idem_status
  ir_result :: "execution_result option"

record idem_row =
  iw_arguments :: string
  iw_status :: idem_status
  iw_result_json :: "string option"
  iw_updated :: rat

record idem_store =
  is_rows :: "(string \<times> idem_row) list"
  is_persist :: bool
  is_ttl :: int
  is_max_bytes :: int
  is_scope_key :: "nat list option"

section \<open>Slots and results as text\<close>

fun slot_value :: "idem_slot \<Rightarrow> pyval" where
  "slot_value (scope, task, revision, operation, key) =
     PyList [PyStr scope, PyStr task, PyStr revision, PyStr operation, PyStr key]"

definition slot_domain :: "nat list" where
  "slot_domain = utf8 ''capabilityhub-idempotency-slot-v1'' @ [0]"

definition slot_digest :: "(pyval \<Rightarrow> string) \<Rightarrow> nat list option \<Rightarrow> idem_slot \<Rightarrow> string" where
  "slot_digest fr scope_key slot =
     (case scope_key of
        None \<Rightarrow> sha256_hex (canonical_json fr (slot_value slot))
      | Some k \<Rightarrow> hmac_hex k (slot_domain @ utf8 (canonical_json fr (slot_value slot))))"

definition encode_result :: "(pyval \<Rightarrow> string) \<Rightarrow> execution_result \<Rightarrow> string" where
  "encode_result fr r = canonical_json fr (PyDict [(''audit_id'', PyStr (ex_audit_id r)),
     (''capability_revision'', PyStr (ex_revision r)), (''operation'', PyStr (ex_operation r)),
     (''output'', ex_output r), (''portable_tokens'', PyInt (ex_portable_tokens r)),
     (''provider'', PyStr (ex_provider r))])"

text \<open>
  \<open>_decode_result\<close> does not check the types of the fields; here fields of another type than
  \<open>_encode_result\<close> writes count as unreadable.
\<close>

definition decode_result :: "string option \<Rightarrow> execution_result option" where
  "decode_result raw =
     (case Option.bind raw json_loads of
        Some (PyDict d) \<Rightarrow>
          (case (map_of d ''capability_revision'', map_of d ''operation'', map_of d ''output'',
                 map_of d ''provider'', map_of d ''portable_tokens'', map_of d ''audit_id'') of
             (Some (PyStr revision), Some (PyStr operation), Some out, Some (PyStr provider),
              Some (PyInt tokens), Some (PyStr audit)) \<Rightarrow>
               Some \<lparr>ex_revision = revision, ex_operation = operation, ex_output = out, ex_provider = provider,
                 ex_portable_tokens = tokens, ex_audit_id = audit\<rparr>
           | _ \<Rightarrow> None)
      | _ \<Rightarrow> None)"

section \<open>Operations\<close>

definition abandon_rows :: "rat \<Rightarrow> (string \<times> idem_row) list \<Rightarrow> (string \<times> idem_row) list" where
  "abandon_rows now rows = map (\<lambda>(k, r). (k, if iw_status r = In_Progress
     then r\<lparr>iw_status := Uncertain, iw_updated := now\<rparr> else r)) rows"

text \<open>\<open>__init__\<close> on an existing table; recovery of abandoned executions is opt-in.\<close>

definition open_idem_store ::
  "(string \<times> idem_row) list \<Rightarrow> bool \<Rightarrow> bool \<Rightarrow> int \<Rightarrow> int \<Rightarrow> nat list option \<Rightarrow> rat \<Rightarrow> idem_store result" where
  "open_idem_store rows persist recover_abandoned ttl max_bytes scope_key now =
     (if ttl < 1 \<or> 86400 < ttl then Inl ValueError
      else if max_bytes < 1024 \<or> 4000000 < max_bytes then Inl ValueError
      else if (\<exists>k. scope_key = Some k \<and> length k < 16) then Inl ValueError
      else Inr \<lparr>is_rows = (if recover_abandoned then abandon_rows now rows else rows),
        is_persist = persist, is_ttl = ttl, is_max_bytes = max_bytes, is_scope_key = scope_key\<rparr>)"

definition row_record :: "idem_row \<Rightarrow> idem_record" where
  "row_record r = \<lparr>ir_arguments = iw_arguments r, ir_status = iw_status r,
     ir_result = decode_result (iw_result_json r)\<rparr>"

definition expired_row :: "idem_store \<Rightarrow> rat \<Rightarrow> idem_row \<Rightarrow> bool" where
  "expired_row st now r \<longleftrightarrow> iw_status r = Complete \<and> of_int (is_ttl st) \<le> now - iw_updated r"

text \<open>\<open>reserve\<close>: \<open>None\<close> means the caller has been admitted.\<close>

definition idem_reserve ::
  "(pyval \<Rightarrow> string) \<Rightarrow> idem_store \<Rightarrow> idem_slot \<Rightarrow> string \<Rightarrow> rat \<Rightarrow> idem_record option \<times> idem_store" where
  "idem_reserve fr st slot digest now =
     (let key = slot_digest fr (is_scope_key st) slot;
          fresh = \<lparr>iw_arguments = digest, iw_status = In_Progress, iw_result_json = None, iw_updated = now\<rparr>
      in case map_of (is_rows st) key of
           None \<Rightarrow> (None, st\<lparr>is_rows := AList.update key fresh (is_rows st)\<rparr>)
         | Some r \<Rightarrow>
             if expired_row st now r
             then (None, st\<lparr>is_rows := AList.update key fresh (AList.delete key (is_rows st))\<rparr>)
             else (Some (row_record r), st))"

text \<open>\<open>UPDATE .. WHERE slot_digest = ? AND status = 'in_progress'\<close>.\<close>

definition update_in_progress :: "idem_store \<Rightarrow> string \<Rightarrow> (idem_row \<Rightarrow> idem_row) \<Rightarrow> idem_store" where
  "update_in_progress st key f =
     (case map_of (is_rows st) key of
        Some r \<Rightarrow> if iw_status r = In_Progress
          then st\<lparr>is_rows := AList.update key (f r) (is_rows st)\<rparr> else st
      | None \<Rightarrow> st)"

definition idem_complete ::
  "(pyval \<Rightarrow> string) \<Rightarrow> idem_store \<Rightarrow> idem_slot \<Rightarrow> execution_result \<Rightarrow> rat \<Rightarrow> idem_store" where
  "idem_complete fr st slot r now =
     (let encoded = (if is_persist st then Some (encode_result fr r) else None);
          kept = (case encoded of None \<Rightarrow> None
            | Some s \<Rightarrow> if is_max_bytes st < int (length (utf8 s)) then None else Some s)
      in update_in_progress st (slot_digest fr (is_scope_key st) slot)
           (\<lambda>row. row\<lparr>iw_status := Complete, iw_result_json := kept, iw_updated := now\<rparr>))"

definition idem_uncertain :: "(pyval \<Rightarrow> string) \<Rightarrow> idem_store \<Rightarrow> idem_slot \<Rightarrow> rat \<Rightarrow> idem_store" where
  "idem_uncertain fr st slot now =
     update_in_progress st (slot_digest fr (is_scope_key st) slot)
       (\<lambda>row. row\<lparr>iw_status := Uncertain, iw_updated := now\<rparr>)"

definition wait_conflict :: idem_record where
  "wait_conflict = \<lparr>ir_arguments = [], ir_status = Conflict, ir_result = None\<rparr>"

fun idem_wait ::
  "string \<Rightarrow> string \<Rightarrow> (string \<times> idem_row) list \<Rightarrow> (string \<times> idem_row) list list \<Rightarrow> idem_record" where
  "idem_wait key digest rows later =
     (case map_of rows key of
        None \<Rightarrow> wait_conflict
      | Some r \<Rightarrow>
          if iw_arguments r \<noteq> digest then wait_conflict
          else if iw_status r \<noteq> In_Progress then row_record r
          else (case later of [] \<Rightarrow> row_record r
                | rows' # later' \<Rightarrow> idem_wait key digest rows' later'))"

section \<open>What is kept\<close>

lemma decode_encode_result:
  assumes "json_plain (ex_output r)"
  shows "decode_result (Some (encode_result fr r)) = Some (r\<lparr>ex_output := canonical (ex_output r)\<rparr>)"
proof -
  let ?d = "PyDict [(''audit_id'', PyStr (ex_audit_id r)), (''capability_revision'', PyStr (ex_revision r)),
     (''operation'', PyStr (ex_operation r)), (''output'', ex_output r),
     (''portable_tokens'', PyInt (ex_portable_tokens r)), (''provider'', PyStr (ex_provider r))]"
  have "json_plain ?d" using assms by simp
  then have "json_loads (encode_result fr r) = Some (canonical ?d)"
    unfolding encode_result_def canonical_json_def by (rule loads_dumps)
  moreover have "canonical ?d = PyDict [(''audit_id'', PyStr (ex_audit_id r)),
     (''capability_revision'', PyStr (ex_revision r)), (''operation'', PyStr (ex_operation r)),
     (''output'', canonical (ex_output r)), (''portable_tokens'', PyInt (ex_portable_tokens r)),
     (''provider'', PyStr (ex_provider r))]"
    by simp
  ultimately show ?thesis by (simp add: decode_result_def)
qed

text \<open>A slot is blocked while its row forbids another admission at that time.\<close>

definition slot_blocked :: "(pyval \<Rightarrow> string) \<Rightarrow> idem_store \<Rightarrow> idem_slot \<Rightarrow> rat \<Rightarrow> bool" where
  "slot_blocked fr st slot now \<longleftrightarrow>
     (\<exists>r. map_of (is_rows st) (slot_digest fr (is_scope_key st) slot) = Some r \<and> \<not> expired_row st now r)"

lemma reserve_admits_iff: "fst (idem_reserve fr st slot digest now) = None \<longleftrightarrow> \<not> slot_blocked fr st slot now"
  by (auto simp: idem_reserve_def slot_blocked_def Let_def split: option.splits)

lemma reserve_blocks: "0 < is_ttl st \<Longrightarrow> slot_blocked fr (snd (idem_reserve fr st slot digest now)) slot now"
  by (auto simp: idem_reserve_def slot_blocked_def Let_def expired_row_def split: option.splits)

lemma uncertain_blocks_forever:
  assumes "slot_blocked fr st slot now" "map_of (is_rows st) (slot_digest fr (is_scope_key st) slot) = Some r"
    and "iw_status r = In_Progress"
  shows "slot_blocked fr (idem_uncertain fr st slot t) slot later"
  using assms by (auto simp: slot_blocked_def idem_uncertain_def update_in_progress_def expired_row_def)

text \<open>The configuration of a store never changes.\<close>

definition same_config :: "idem_store \<Rightarrow> idem_store \<Rightarrow> bool" where
  "same_config st st' \<longleftrightarrow> st' = st\<lparr>is_rows := is_rows st'\<rparr>"

lemma config_kept [simp]:
  "same_config st (snd (idem_reserve fr st slot digest now))"
  "same_config st (idem_complete fr st slot r now)"
  "same_config st (idem_uncertain fr st slot now)"
  by (auto simp: same_config_def idem_reserve_def idem_complete_def idem_uncertain_def update_in_progress_def
      Let_def split: option.splits)

text \<open>\<open>wait\<close> answers with a settled record, a conflict, or the unsettled record it saw last.\<close>

lemma wait_settled:
  assumes "ir_status (idem_wait key digest rows later) = In_Progress"
  shows "\<exists>r. map_of (last (rows # later)) key = Some r \<and> iw_status r = In_Progress \<and> iw_arguments r = digest"
  using assms
  by (induction key digest rows later rule: idem_wait.induct)
    (auto simp: wait_conflict_def row_record_def split: option.splits if_splits list.splits)

end
