(* ===== verification/Service.thy ===== *)
theory Service
  imports Policy Registry References Idempotency Budget
begin

text \<open>
  \<open>service.py\<close> without \<open>execute\<close>: the caller's context, the state a service shares between its
  catalogues, progressive loading with signed rehydration handles, and approvals.

  The registry is the immutable catalogue of one service. Parameters of the configuration stand for
  what is not under the service's control: the JSON-schema validator (the \<open>jsonschema\<close> package), the
  dependency decider, the parameter authorizer of a context, the rendering of floats. The reference
  clock is read once per operation and is an argument, like the random identifier of a budget
  reservation. The audit sink appends to a list and does not fail.
\<close>

section \<open>Data\<close>

record authorization =
  au_allowed :: bool
  au_reasons :: "string list"

type_synonym authorizer =
  "capability_manifest \<Rightarrow> capability_manifest list \<Rightarrow> (string \<times> pyval) list option \<Rightarrow> authorization"

record service_context =
  sx_tenant :: string
  sx_principal :: string
  sx_session :: string
  sx_granted :: "string set"
  sx_authorizer :: "authorizer option"
  sx_allow_irreversible :: bool
  sx_deadline_ms :: int
  sx_max_output_tokens :: int

record execution_grant =
  eg_revision :: string
  eg_operations :: "string set"

record audit_event =
  ae_id :: string
  ae_sequence :: int
  ae_task :: string
  ae_type :: string
  ae_revision :: "string option"
  ae_outcome :: string
  ae_portable_tokens :: int
  ae_payload_bytes :: int
  ae_reasons :: "string list"
  ae_metadata :: "(string \<times> pyval) list option"

record service_state =
  sv_budget :: budget_heap
  sv_grants :: "(string \<times> execution_grant) list"
  sv_idempotency :: "(idem_slot \<times> idem_record) list"
  sv_store :: "idem_store option"
  sv_sequence :: int
  sv_audit :: "audit_event list"

record service_config =
  sc_registry :: registry
  sc_providers :: "string list"
  sc_key :: "nat list"
  sc_load_ttl :: int
  sc_execution_ttl :: int
  sc_decider :: "(dependency_operation \<Rightarrow> degraded_decision result) option"
  sc_valid :: "(string \<times> pyval) list \<Rightarrow> pyval \<Rightarrow> bool"
  sc_floats :: "pyval \<Rightarrow> string"

definition make_context :: "service_context \<Rightarrow> service_context result" where
  "make_context ctx =
     (if sx_tenant ctx = [] \<or> sx_principal ctx = [] \<or> sx_session ctx = [] then Inl ValueError
      else if sx_deadline_ms ctx \<le> 0 \<or> sx_max_output_tokens ctx \<le> 0 then Inl ValueError
      else Inr ctx)"

definition reference_scope :: "(pyval \<Rightarrow> string) \<Rightarrow> service_context \<Rightarrow> string" where
  "reference_scope fr ctx = canonical_json fr (PyDict [(''principal'', PyStr (sx_principal ctx)),
     (''session'', PyStr (sx_session ctx)), (''tenant'', PyStr (sx_tenant ctx))])"

definition make_service ::
  "string list \<Rightarrow> int \<Rightarrow> unit result" where
  "make_service provider_names execution_ttl =
     (if execution_ttl \<le> 0 then Inl ValueError
      else if [] \<in> set provider_names \<or> \<not> distinct provider_names then Inl ValueError else Inr ())"

section \<open>Shared steps\<close>

definition svc_reference :: "string \<Rightarrow> exn" where
  "svc_reference code = HubError code REFERENCE False []"

definition svc_policy :: "string \<Rightarrow> exn" where
  "svc_policy code = HubError code POLICY False []"

definition svc_budget :: "string \<Rightarrow> (string \<times> pyval) list \<Rightarrow> exn" where
  "svc_budget code details = HubError code BUDGET False details"

fun positive_budget :: "pyval \<Rightarrow> int result" where
  "positive_budget (PyInt n) = (if n < 1 then Inl (svc_budget ''invalid_output_budget'' []) else Inr n)"
| "positive_budget _ = Inl (svc_budget ''invalid_output_budget'' [])"

definition enforce_dependency_decision :: "degraded_decision \<Rightarrow> unit result" where
  "enforce_dependency_decision d =
     (if dd_outcome d \<noteq> Outcome_Deny then Inr ()
      else Inl (HubError (''dependency_'' @ operation_value (dd_operation d) @ ''_denied'') DEPENDENCY False
        [(''reason_codes'', PyList (map PyStr (dd_reasons d)))]))"

definition guard_dependencies :: "service_config \<Rightarrow> dependency_operation \<Rightarrow> unit result" where
  "guard_dependencies cfg op =
     (case sc_decider cfg of None \<Rightarrow> Inr () | Some decide \<Rightarrow> rbind (decide op) enforce_dependency_decision)"

definition event_id :: "int \<Rightarrow> string" where
  "event_id n = (let ds = show_int n in ''evt-'' @ replicate (8 - length ds) CHR ''0'' @ ds)"

definition emit_event ::
  "service_state \<Rightarrow> string \<Rightarrow> string \<Rightarrow> string option \<Rightarrow> string \<Rightarrow> int \<Rightarrow> int \<Rightarrow> string list \<Rightarrow>
   (string \<times> pyval) list option \<Rightarrow> service_state" where
  "emit_event st task event_type revision outcome tokens bytes reasons metadata =
     (let n = sv_sequence st + 1 in
      st\<lparr>sv_sequence := n, sv_audit := sv_audit st @ [\<lparr>ae_id = event_id n, ae_sequence = n, ae_task = task,
        ae_type = event_type, ae_revision = revision, ae_outcome = outcome, ae_portable_tokens = tokens,
        ae_payload_bytes = bytes, ae_reasons = reasons, ae_metadata = metadata\<rparr>]\<rparr>)"

text \<open>
  A handler's \<open>except CapabilityHubError\<close>: the failure is recorded and the error raised again;
  other exceptions pass without a record.
\<close>

fun record_failure_event :: "service_state \<Rightarrow> string \<Rightarrow> string \<Rightarrow> string option \<Rightarrow> exn \<Rightarrow> service_state" where
  "record_failure_event st task event_type revision (HubError code category retryable details) =
     emit_event st task event_type revision ''failure'' 0 0 [code] None"
| "record_failure_event st task event_type revision e = st"

definition service_manifest :: "service_config \<Rightarrow> string \<Rightarrow> capability_manifest result" where
  "service_manifest cfg revision =
     (case find_revision (sc_registry cfg) revision of
        Inl e \<Rightarrow> Inl (svc_reference ''stale_revision'')
      | Inr m \<Rightarrow>
          if map_of (rg_active (sc_registry cfg)) (manifest_coordinate m) \<noteq> Some revision
          then Inl (svc_reference ''stale_revision'') else Inr m)"

definition find_grant :: "service_state \<Rightarrow> string \<Rightarrow> execution_grant result" where
  "find_grant st execution_ref =
     (case map_of (sv_grants st) execution_ref of
        None \<Rightarrow> Inl (svc_reference ''unknown_execution_grant'') | Some g \<Rightarrow> Inr g)"

definition dependency_manifests :: "service_config \<Rightarrow> capability_manifest \<Rightarrow> capability_manifest list" where
  "dependency_manifests cfg m =
     List.map_filter (\<lambda>d. case active_manifest (sc_registry cfg) (dp_coordinate d) of Inr t \<Rightarrow> Some t | Inl _ \<Rightarrow> None)
       (filter (\<lambda>d. map_of (rg_active (sc_registry cfg)) (dp_coordinate d) \<noteq> None) (cm_dependencies m))"

text \<open>\<open>_visible_revisions\<close>: what a search may show to a context.\<close>

definition visible_revisions :: "service_config \<Rightarrow> service_context \<Rightarrow> string set" where
  "visible_revisions cfg ctx =
     {r \<in> snd ` set (rg_active (sc_registry cfg)).
        \<exists>m. find_revision (sc_registry cfg) r = Inr m \<and>
          (case sx_authorizer ctx of
             Some authorize \<Rightarrow> au_allowed (authorize m (dependency_manifests cfg m) None)
           | None \<Rightarrow> set (cm_permissions m) \<subseteq> sx_granted ctx)}"

section \<open>What a load answers\<close>

definition select_sections :: "capability_manifest \<Rightarrow> string list option \<Rightarrow> section_descriptor list result" where
  "select_sections m names =
     (case names of
        None \<Rightarrow> Inr (cm_sections m)
      | Some requested \<Rightarrow>
          if set requested \<subseteq> sd_name ` set (cm_sections m)
          then Inr (filter (\<lambda>s. sd_name s \<in> set requested) (cm_sections m))
          else Inl (svc_reference ''unknown_section''))"

definition select_operations :: "capability_manifest \<Rightarrow> string list option \<Rightarrow> operation_spec list result" where
  "select_operations m names =
     (case names of
        None \<Rightarrow> Inr (cm_operations m)
      | Some requested \<Rightarrow>
          if set requested \<subseteq> op_name ` set (cm_operations m)
          then Inr (filter (\<lambda>p. op_name p \<in> set requested) (cm_operations m))
          else Inl (svc_reference ''unknown_operation''))"

definition rehydration_selector :: "(pyval \<Rightarrow> string) \<Rightarrow> string \<Rightarrow> omission_kind \<Rightarrow> string \<Rightarrow> string" where
  "rehydration_selector fr revision kind name = ''sha256:'' @ json_digest fr
     (PyDict [(''kind'', PyStr (omission_value kind)), (''name'', PyStr name), (''revision'', PyStr revision)])"

definition rehydration_purpose :: "omission_kind \<Rightarrow> string \<Rightarrow> string" where
  "rehydration_purpose kind selector = ''rehydration:'' @ omission_value kind @ '':'' @ selector"

definition omitted_targets ::
  "capability_manifest \<Rightarrow> section_descriptor list \<Rightarrow> operation_spec list \<Rightarrow> (omission_kind \<times> string) list" where
  "omitted_targets m sections operations =
     map (\<lambda>s. (Omitted_Section, sd_name s)) (filter (\<lambda>s. sd_name s \<notin> sd_name ` set sections) (cm_sections m)) @
     map (\<lambda>p. (Omitted_Operation, op_name p)) (filter (\<lambda>p. op_name p \<notin> op_name ` set operations) (cm_operations m))"

definition max_rehydration_handles :: nat where
  "max_rehydration_handles = 4"

definition max_omission_names :: nat where
  "max_omission_names = 8"

definition max_load_notices :: nat where
  "max_load_notices = 4"

fun make_handles ::
  "service_config \<Rightarrow> rat \<Rightarrow> string \<Rightarrow> string \<Rightarrow> (omission_kind \<times> string) list \<Rightarrow> rehydration_handle list result" where
  "make_handles cfg now scope revision [] = Inr []"
| "make_handles cfg now scope revision ((kind, name) # targets) =
     (let selector = rehydration_selector (sc_floats cfg) revision kind name;
          purpose = rehydration_purpose kind selector
      in rbind (issue_reference (sc_key cfg) revision scope (PyInt (sc_load_ttl cfg)) purpose now) (\<lambda>reference.
         rbind (verify_reference (sc_key cfg) reference scope (Some revision) purpose now) (\<lambda>claims.
         rbind (make_handle kind selector reference (cl_expires claims)) (\<lambda>h.
         rbind (make_handles cfg now scope revision targets) (\<lambda>hs. Inr (h # hs))))))"

definition rehydration_handles ::
  "service_config \<Rightarrow> rat \<Rightarrow> service_context \<Rightarrow> capability_manifest \<Rightarrow> section_descriptor list \<Rightarrow>
   operation_spec list \<Rightarrow> rehydration_handle list result" where
  "rehydration_handles cfg now ctx m sections operations =
     make_handles cfg now (reference_scope (sc_floats cfg) ctx) (manifest_revision m)
       (take max_rehydration_handles (omitted_targets m sections operations))"

definition all_notices :: "capability_manifest \<Rightarrow> capability_notice list" where
  "all_notices m =
     map (\<lambda>d. \<lparr>no_kind = ''dependency'',
         no_code = (if dp_optional d then ''dependency.optional'' else ''dependency.required''),
         no_attributes = [(''coordinate'', PyStr (dp_coordinate d)), (''optional'', PyBool (dp_optional d)),
           (''version_constraint'', PyStr (dp_constraint d))]\<rparr>) (sort_key dp_coordinate (cm_dependencies m)) @
     map (\<lambda>c. \<lparr>no_kind = ''conflict'', no_code = ''conflict.declared'',
         no_attributes = [(''type'', PyStr (cf_type c)), (''value_digest'', PyStr (''sha256:'' @ sha256_hex (cf_value c)))]\<rparr>)
       (sort_key (\<lambda>c. (cf_type c, cf_value c)) (cm_conflicts m))"

definition manifest_notices :: "capability_manifest \<Rightarrow> capability_notice list \<times> int" where
  "manifest_notices m = (let ns = all_notices m in
     (take max_load_notices ns, max 0 (int (length ns) - int max_load_notices)))"

definition loaded_dict :: "loaded_capability \<Rightarrow> pyval" where
  "loaded_dict l = PyDict [
     (''execution_ref'', PyStr (ld_execution_ref l)),
     (''notices'', PyList (map (\<lambda>n. PyDict [(''attributes'', PyDict (no_attributes n)), (''code'', PyStr (no_code n)),
        (''kind'', PyStr (no_kind n))]) (ld_notices l))),
     (''omitted_notice_count'', PyInt (ld_omitted_notice_count l)),
     (''omitted_operation_count'', PyInt (ld_omitted_operation_count l)),
     (''omitted_operations'', PyList (map PyStr (ld_omitted_operations l))),
     (''omitted_section_count'', PyInt (ld_omitted_section_count l)),
     (''omitted_sections'', PyList (map PyStr (ld_omitted_sections l))),
     (''operations'', PyList (map (\<lambda>p. PyDict [(''input_schema'', PyDict (op_input_schema p)), (''name'', PyStr (op_name p)),
        (''operation_type'', PyStr (operation_type_value (op_type p))), (''output_schema'', PyDict (op_output_schema p)),
        (''requires_approval'', PyBool (op_requires_approval p)),
        (''side_effect'', PyStr (side_effect_value (op_side_effect p)))]) (ld_operations l))),
     (''permissions'', PyList (map PyStr (ld_permissions l))),
     (''portable_tokens'', PyInt (ld_portable_tokens l)),
     (''rehydration_handles'', PyList (map (\<lambda>h. PyDict [(''expires_at'', PyInt (rh_expires h)),
        (''kind'', PyStr (omission_value (rh_kind h))), (''reference'', PyStr (rh_reference h)),
        (''selector_digest'', PyStr (rh_selector h))]) (ld_handles l))),
     (''revision'', PyStr (ld_revision l)),
     (''sections'', PyList (map (\<lambda>s. PyDict [(''content'', PyStr (sd_content s)), (''media_type'', PyStr (sd_media_type s)),
        (''name'', PyStr (sd_name s)), (''portable_tokens'', PyInt (sd_portable_tokens s)),
        (''sensitive'', PyBool (sd_sensitive s))]) (ld_sections l))),
     (''unhandled_omission_count'', PyInt (ld_unhandled_omission_count l))]"

text \<open>
  The token count of a response is part of the response: the loop looks four times for a count that
  measures as itself and then answers with the last measure.
\<close>

fun measure_loop :: "(pyval \<Rightarrow> string) \<Rightarrow> nat \<Rightarrow> loaded_capability \<Rightarrow> int \<Rightarrow> int \<Rightarrow> loaded_capability \<times> int" where
  "measure_loop fr 0 l tokens bytes = (l\<lparr>ld_portable_tokens := tokens\<rparr>, bytes)"
| "measure_loop fr (Suc n) l tokens bytes =
     (let loaded = l\<lparr>ld_portable_tokens := tokens\<rparr>; m = measure_text (canonical_json fr (loaded_dict loaded))
      in if pm_portable_tokens m = tokens \<and> pm_utf8_bytes m = bytes then (loaded, bytes)
         else measure_loop fr n l (pm_portable_tokens m) (pm_utf8_bytes m))"

definition loaded_response ::
  "(pyval \<Rightarrow> string) \<Rightarrow> capability_manifest \<Rightarrow> section_descriptor list \<Rightarrow> operation_spec list \<Rightarrow> string \<Rightarrow>
   capability_notice list \<Rightarrow> rehydration_handle list \<Rightarrow> int \<Rightarrow> loaded_capability \<times> int" where
  "loaded_response fr m sections operations execution_ref notices handles omitted_notices =
     (let all_sections = map sd_name (filter (\<lambda>s. s \<notin> set sections) (cm_sections m));
          all_operations = map op_name (filter (\<lambda>p. p \<notin> set operations) (cm_operations m))
      in measure_loop fr 4
        \<lparr>ld_revision = manifest_revision m, ld_sections = sections, ld_operations = operations,
          ld_permissions = cm_permissions m, ld_portable_tokens = 0, ld_execution_ref = execution_ref,
          ld_omitted_sections = take max_omission_names all_sections,
          ld_omitted_operations = take max_omission_names all_operations, ld_notices = notices,
          ld_handles = handles, ld_omitted_section_count = int (length all_sections),
          ld_omitted_operation_count = int (length all_operations), ld_omitted_notice_count = omitted_notices,
          ld_unhandled_omission_count = max 0 (int (length all_sections) + int (length all_operations) - int (length handles))\<rparr>
        0 0)"

section \<open>Loading\<close>

text \<open>The part of \<open>load\<close> up to the known manifest, and the part that builds the response.\<close>

definition load_target ::
  "service_config \<Rightarrow> rat \<Rightarrow> service_context \<Rightarrow> string \<Rightarrow> pyval \<Rightarrow> (capability_manifest \<times> int) result" where
  "load_target cfg now ctx capability_ref max_tokens =
     rbind (guard_dependencies cfg Do_Load) (\<lambda>_.
     rbind (positive_budget max_tokens) (\<lambda>limit.
     rbind (verify_reference (sc_key cfg) capability_ref (reference_scope (sc_floats cfg) ctx) None ''load'' now) (\<lambda>claims.
     rbind (service_manifest cfg (cl_revision claims)) (\<lambda>m. Inr (m, limit)))))"

definition load_material ::
  "service_config \<Rightarrow> rat \<Rightarrow> service_context \<Rightarrow> capability_manifest \<Rightarrow> string list option \<Rightarrow> string list option \<Rightarrow> int \<Rightarrow>
   (loaded_capability \<times> int) result" where
  "load_material cfg now ctx m section_names operation_names limit =
     rbind (select_sections m section_names) (\<lambda>sections.
       if (\<exists>s \<in> set sections. sd_sensitive s) \<and> ''content.sensitive'' \<notin> sx_granted ctx
       then Inl (svc_policy ''sensitive_section_denied'')
       else rbind (select_operations m operation_names) (\<lambda>operations.
         rbind (rehydration_handles cfg now ctx m sections operations) (\<lambda>handles.
         rbind (if cm_kind m = SKILL then Inr []
                else issue_reference (sc_key cfg) (manifest_revision m) (reference_scope (sc_floats cfg) ctx)
                  (PyInt (sc_execution_ttl cfg)) ''execution'' now) (\<lambda>execution_ref.
           (let (notices, omitted_notices) = manifest_notices m;
                (loaded, bytes) = loaded_response (sc_floats cfg) m sections operations execution_ref notices handles omitted_notices
            in if limit < ld_portable_tokens loaded
               then Inl (svc_budget ''load_output_budget_exceeded''
                 [(''required_tokens'', PyInt (ld_portable_tokens loaded)), (''max_output_tokens'', PyInt limit)])
               else Inr (loaded, bytes))))))"

definition load_spend :: "loaded_capability \<Rightarrow> int \<Rightarrow> (string \<times> pyval) list" where
  "load_spend loaded bytes = [(''bytes'', PyInt bytes), (''loads'', PyInt 1),
     (''portable_tokens'', PyInt (ld_portable_tokens loaded))]"

definition service_load ::
  "service_config \<Rightarrow> service_state \<Rightarrow> rat \<Rightarrow> string \<Rightarrow> string \<Rightarrow> string \<Rightarrow> service_context \<Rightarrow> nat \<Rightarrow>
   string list option \<Rightarrow> string list option \<Rightarrow> pyval \<Rightarrow> loaded_capability result \<times> service_state" where
  "service_load cfg st now fresh capability_ref task ctx budget section_names operation_names max_tokens =
     (case load_target cfg now ctx capability_ref max_tokens of
        Inl e \<Rightarrow> (Inl e, record_failure_event st task ''load'' None e)
      | Inr (m, limit) \<Rightarrow>
        (case load_material cfg now ctx m section_names operation_names limit of
           Inl e \<Rightarrow> (Inl e, record_failure_event st task ''load'' (Some (manifest_revision m)) e)
         | Inr (loaded, bytes) \<Rightarrow>
           (case budget_spend (sv_budget st) budget (load_spend loaded bytes) fresh of
              (Inl e, h) \<Rightarrow> (Inl e, record_failure_event (st\<lparr>sv_budget := h\<rparr>) task ''load'' (Some (manifest_revision m)) e)
            | (Inr _, h) \<Rightarrow>
              (Inr loaded, emit_event
                 (st\<lparr>sv_budget := h, sv_grants := (if ld_execution_ref loaded = [] then sv_grants st
                    else AList.update (ld_execution_ref loaded) \<lparr>eg_revision = manifest_revision m,
                      eg_operations = op_name ` set (ld_operations loaded)\<rparr> (sv_grants st))\<rparr>)
                 task ''load'' (Some (manifest_revision m)) ''success'' (ld_portable_tokens loaded) bytes []
                 (Some [(''operation_count'', PyInt (int (length (ld_operations loaded)))),
                    (''section_count'', PyInt (int (length (ld_sections loaded)))),
                    (''skill_load_only'', PyBool (cm_kind m = SKILL))])))))"

definition resolve_target ::
  "(pyval \<Rightarrow> string) \<Rightarrow> capability_manifest \<Rightarrow> omission_kind \<Rightarrow> string \<Rightarrow> string result" where
  "resolve_target fr m kind selector =
     (case filter (\<lambda>name. rehydration_selector fr (manifest_revision m) kind name = selector)
        (case kind of Omitted_Section \<Rightarrow> map sd_name (cm_sections m) | Omitted_Operation \<Rightarrow> map op_name (cm_operations m)) of
        [name] \<Rightarrow> Inr name
      | _ \<Rightarrow> Inl (svc_reference ''rehydration_target_invalid''))"

definition service_rehydrate ::
  "service_config \<Rightarrow> service_state \<Rightarrow> rat \<Rightarrow> string \<Rightarrow> rehydration_handle \<Rightarrow> string \<Rightarrow> service_context \<Rightarrow> nat \<Rightarrow>
   pyval \<Rightarrow> loaded_capability result \<times> service_state" where
  "service_rehydrate cfg st now fresh h task ctx budget max_tokens =
     (case
        rbind (verify_reference (sc_key cfg) (rh_reference h) (reference_scope (sc_floats cfg) ctx) None
            (rehydration_purpose (rh_kind h) (rh_selector h)) now) (\<lambda>claims.
          if cl_expires claims \<noteq> rh_expires h then Inl (svc_reference ''rehydration_expiry_mismatch'')
          else rbind (service_manifest cfg (cl_revision claims)) (\<lambda>m.
            rbind (resolve_target (sc_floats cfg) m (rh_kind h) (rh_selector h)) (\<lambda>target.
            rbind (issue_reference (sc_key cfg) (manifest_revision m) (reference_scope (sc_floats cfg) ctx)
                (PyInt (sc_load_ttl cfg)) ''load'' now) (\<lambda>load_ref. Inr (target, load_ref))))) of
        Inl e \<Rightarrow> (Inl e, st)
      | Inr (target, load_ref) \<Rightarrow>
          service_load cfg st now fresh load_ref task ctx budget
            (Some (if rh_kind h = Omitted_Section then [target] else []))
            (Some (if rh_kind h = Omitted_Operation then [target] else [])) max_tokens)"

section \<open>Approvals\<close>

definition approval_scope ::
  "(pyval \<Rightarrow> string) \<Rightarrow> service_context \<Rightarrow> string \<Rightarrow> (string \<times> pyval) list \<Rightarrow> string" where
  "approval_scope fr ctx operation arguments = canonical_json fr (PyDict
     [(''actor_sha256'', PyStr (sha256_hex (reference_scope fr ctx))),
      (''arguments_sha256'', PyStr (json_digest fr (PyDict arguments))), (''operation'', PyStr operation)])"

definition issue_approval ::
  "service_config \<Rightarrow> service_state \<Rightarrow> rat \<Rightarrow> string \<Rightarrow> string \<Rightarrow> (string \<times> pyval) list \<Rightarrow> string \<Rightarrow>
   service_context \<Rightarrow> pyval \<Rightarrow> string result \<times> service_state" where
  "issue_approval cfg st now revision operation arguments task ctx ttl =
     (case rbind (service_manifest cfg revision) (\<lambda>m.
        if manifest_operation m operation = None then Inl (svc_reference ''unknown_operation'')
        else issue_reference (sc_key cfg) revision (approval_scope (sc_floats cfg) ctx operation arguments) ttl ''approval'' now) of
        Inl e \<Rightarrow> (Inl e, st)
      | Inr r \<Rightarrow> (Inr r, emit_event st task ''approval_issue'' (Some revision) ''success'' 0 0 []
          (Some [(''operation'', PyStr operation)])))"

end
