(* ===== verification/Execution.thy ===== *)
theory Execution
  imports Service
begin

text \<open>
  \<open>CapabilityHubService.execute\<close> and its idempotency records. A call runs in two parts, because
  other calls run while the provider works: \<open>execute_admit\<close> is everything up to the provider's
  invocation, \<open>execute_settle\<close> everything after it. What the invocation does (provider, supervisor,
  retries) is its outcome, an argument of the second part. An invocation that is interrupted
  (\<open>KeyboardInterrupt\<close>) never settles. SQLite errors of the durable store are left out.
\<close>

section \<open>Data\<close>

record pending_execution =
  pe_request :: execution_request
  pe_manifest :: capability_manifest
  pe_operation :: operation_spec
  pe_limit :: int
  pe_reservation :: nat
  pe_slot :: "idem_slot option"

datatype provider_outcome =
    Provider_Returned execution_result
  | Provider_Other \<comment> \<open>an object that is no \<open>ExecutionResult\<close>\<close>
  | Provider_Raised exn

datatype admission =
    Answered "execution_result result"
  | Invoking pending_execution

definition invalid_provider_result :: exn where
  "invalid_provider_result = HubError ''invalid_provider_result'' PROVIDER False []"

definition unhandled_provider_error :: exn where
  "unhandled_provider_error = HubError ''provider_unhandled_error'' PROVIDER False []"

section \<open>Checks\<close>

text \<open>An empty schema and a bare reference are not validated.\<close>

definition schema_skipped :: "(string \<times> pyval) list \<Rightarrow> bool" where
  "schema_skipped schema \<longleftrightarrow> schema = [] \<or> fst ` set schema = {''$ref''}"

definition validate_arguments :: "service_config \<Rightarrow> operation_spec \<Rightarrow> (string \<times> pyval) list \<Rightarrow> unit result" where
  "validate_arguments cfg op arguments =
     (if schema_skipped (op_input_schema op) \<or> sc_valid cfg (op_input_schema op) (PyDict arguments) then Inr ()
      else Inl (HubError ''invalid_operation_arguments'' INPUT False []))"

definition validate_provider_output :: "service_config \<Rightarrow> operation_spec \<Rightarrow> pyval \<Rightarrow> unit result" where
  "validate_provider_output cfg op out =
     (if schema_skipped (op_output_schema op) \<or> sc_valid cfg (op_output_schema op) out then Inr ()
      else Inl invalid_provider_result)"

definition normalize_result ::
  "service_config \<Rightarrow> capability_manifest \<Rightarrow> execution_request \<Rightarrow> string \<Rightarrow> execution_result \<Rightarrow> execution_result result" where
  "normalize_result cfg m request provider r =
     (if ex_revision r \<noteq> manifest_revision m \<or> ex_operation r \<noteq> rq_operation request
         \<or> ex_provider r \<noteq> provider \<or> ex_portable_tokens r < 0
      then Inl invalid_provider_result
      else Inr (r\<lparr>ex_portable_tokens :=
        pm_portable_tokens (measure_text (canonical_json (sc_floats cfg) (ex_output r)))\<rparr>))"

section \<open>Idempotency\<close>

definition idempotency_slot ::
  "service_config \<Rightarrow> service_context \<Rightarrow> execution_request \<Rightarrow> string \<Rightarrow> string \<Rightarrow> idem_slot" where
  "idempotency_slot cfg ctx request revision key =
     (reference_scope (sc_floats cfg) ctx, rq_task_id request, revision, rq_operation request, key)"

definition execution_digest :: "service_config \<Rightarrow> execution_request \<Rightarrow> side_effect \<Rightarrow> string" where
  "execution_digest cfg request effect = json_digest (sc_floats cfg)
     (PyDict [(''arguments'', PyDict (rq_arguments request)), (''side_effect'', PyStr (side_effect_value effect))])"

definition judge_record :: "idem_record \<Rightarrow> string \<Rightarrow> execution_result result" where
  "judge_record r digest =
     (if ir_arguments r \<noteq> digest then Inl (HubError ''idempotency_conflict'' CONFLICT False [])
      else case (ir_status r, ir_result r) of
        (Complete, Some x) \<Rightarrow> Inr x
      | (Complete, None) \<Rightarrow> Inl (HubError ''idempotency_result_unavailable'' CONFLICT False [])
      | (In_Progress, _) \<Rightarrow> Inl (HubError ''idempotency_in_progress'' CONFLICT True [])
      | _ \<Rightarrow> Inl (HubError ''idempotency_outcome_unknown'' CONFLICT False []))"

text \<open>
  \<open>_admit_idempotency\<close>: a result to replay, or the slot this execution has taken. \<open>later\<close> is what
  the polls of the durable store see while it waits for another process.
\<close>

definition admit_idempotency ::
  "service_config \<Rightarrow> service_state \<Rightarrow> rat \<Rightarrow> (string \<times> idem_row) list list \<Rightarrow> service_context \<Rightarrow> execution_request \<Rightarrow>
   string \<Rightarrow> side_effect \<Rightarrow> (execution_result option \<times> idem_slot option) result \<times> service_state" where
  "admit_idempotency cfg st now later ctx request revision effect =
     (case rq_idempotency_key request of
        None \<Rightarrow> (Inr (None, None), st)
      | Some key \<Rightarrow>
        if key = [] \<or> 256 < length key then (Inl (HubError ''invalid_idempotency_key'' INPUT False []), st)
        else
          (let slot = idempotency_slot cfg ctx request revision key;
               digest = execution_digest cfg request effect;
               judged = (\<lambda>r. rbind (judge_record r digest) (\<lambda>x. Inr (Some x, Some slot)))
           in case sv_store st of
                Some store \<Rightarrow>
                  (case idem_reserve (sc_floats cfg) store slot digest now of
                     (None, store') \<Rightarrow> (Inr (None, Some slot), st\<lparr>sv_store := Some store'\<rparr>)
                   | (Some r, store') \<Rightarrow>
                       (if ir_status r = In_Progress
                        then judged (idem_wait (slot_digest (sc_floats cfg) (is_scope_key store) slot) digest (is_rows store') later)
                        else judged r, st\<lparr>sv_store := Some store'\<rparr>))
              | None \<Rightarrow>
                  (case map_of (sv_idempotency st) slot of
                     None \<Rightarrow> (Inr (None, Some slot), st\<lparr>sv_idempotency := AList.update slot
                       \<lparr>ir_arguments = digest, ir_status = In_Progress, ir_result = None\<rparr> (sv_idempotency st)\<rparr>)
                   | Some r \<Rightarrow> (judged r, st))))"

definition complete_idempotency ::
  "service_config \<Rightarrow> service_state \<Rightarrow> rat \<Rightarrow> idem_slot option \<Rightarrow> execution_result \<Rightarrow> service_state" where
  "complete_idempotency cfg st now slot_opt r =
     (case slot_opt of
        None \<Rightarrow> st
      | Some slot \<Rightarrow>
        (case sv_store st of
           Some store \<Rightarrow> st\<lparr>sv_store := Some (idem_complete (sc_floats cfg) store slot r now)\<rparr>
         | None \<Rightarrow>
           (case map_of (sv_idempotency st) slot of
              None \<Rightarrow> st
            | Some x \<Rightarrow> st\<lparr>sv_idempotency := AList.update slot (x\<lparr>ir_status := Complete, ir_result := Some r\<rparr>)
                (sv_idempotency st)\<rparr>)))"

definition mark_uncertain :: "service_config \<Rightarrow> service_state \<Rightarrow> rat \<Rightarrow> idem_slot option \<Rightarrow> service_state" where
  "mark_uncertain cfg st now slot_opt =
     (case slot_opt of
        None \<Rightarrow> st
      | Some slot \<Rightarrow>
        (case sv_store st of
           Some store \<Rightarrow> st\<lparr>sv_store := Some (idem_uncertain (sc_floats cfg) store slot now)\<rparr>
         | None \<Rightarrow>
           (case map_of (sv_idempotency st) slot of
              None \<Rightarrow> st
            | Some x \<Rightarrow> if ir_status x = In_Progress
                then st\<lparr>sv_idempotency := AList.update slot (x\<lparr>ir_status := Uncertain\<rparr>) (sv_idempotency st)\<rparr> else st)))"

section \<open>Execution\<close>

text \<open>The gates in the order of the code, each an early error.\<close>

definition execute_target ::
  "service_config \<Rightarrow> rat \<Rightarrow> service_context \<Rightarrow> execution_request \<Rightarrow> pyval option \<Rightarrow> (capability_manifest \<times> int) result" where
  "execute_target cfg now ctx request max_tokens =
     rbind (positive_budget (case max_tokens of None \<Rightarrow> PyInt (sx_max_output_tokens ctx) | Some v \<Rightarrow> v)) (\<lambda>limit.
     rbind (verify_reference (sc_key cfg) (rq_execution_ref request) (reference_scope (sc_floats cfg) ctx) None ''execution'' now) (\<lambda>claims.
     rbind (service_manifest cfg (cl_revision claims)) (\<lambda>m. Inr (m, limit))))"

definition granted_operation ::
  "service_state \<Rightarrow> capability_manifest \<Rightarrow> execution_request \<Rightarrow> operation_spec result" where
  "granted_operation st m request =
     (if cm_kind m = SKILL then Inl (svc_policy ''skill_execution_not_supported'')
      else rbind (find_grant st (rq_execution_ref request)) (\<lambda>g.
        if eg_revision g \<noteq> manifest_revision m \<or> rq_operation request \<notin> eg_operations g
        then Inl (svc_reference ''operation_not_loaded'')
        else case manifest_operation m (rq_operation request) of
          None \<Rightarrow> Inl (svc_reference ''unknown_operation'') | Some op \<Rightarrow> Inr op))"

definition authorize_arguments ::
  "service_config \<Rightarrow> service_context \<Rightarrow> capability_manifest \<Rightarrow> execution_request \<Rightarrow> unit result" where
  "authorize_arguments cfg ctx m request =
     (case sx_authorizer ctx of
        None \<Rightarrow> Inr ()
      | Some authorize \<Rightarrow>
          (let decision = authorize m (dependency_manifests cfg m) (Some (rq_arguments request))
           in if au_allowed decision then Inr ()
              else Inl (HubError ''argument_authorization_denied'' POLICY False
                [(''reason_codes'', PyList (map PyStr (au_reasons decision)))])))"

definition check_approval ::
  "service_config \<Rightarrow> rat \<Rightarrow> service_context \<Rightarrow> capability_manifest \<Rightarrow> execution_request \<Rightarrow> bool result" where
  "check_approval cfg now ctx m request =
     (case rq_approval_ref request of
        None \<Rightarrow> Inr False
      | Some approval \<Rightarrow> rbind (verify_reference (sc_key cfg) approval
          (approval_scope (sc_floats cfg) ctx (rq_operation request) (rq_arguments request))
          (Some (manifest_revision m)) ''approval'' now) (\<lambda>_. Inr True))"

definition enforce_policy ::
  "service_context \<Rightarrow> capability_manifest \<Rightarrow> operation_spec \<Rightarrow> bool \<Rightarrow> unit result" where
  "enforce_policy ctx m op approved =
     (let d = policy_decide m op \<lparr>pc_granted = sx_granted ctx, pc_approved = approved,
        pc_allow_irreversible = sx_allow_irreversible ctx\<rparr>
      in if pd_outcome d = Policy_Allow then Inr ()
         else Inl (HubError (outcome_value (pd_outcome d))
           (if pd_outcome d = Policy_Approval_Required then APPROVAL else POLICY) False
           [(''reason_codes'', PyList (map PyStr (pd_reasons d)))]))"

definition execute_gate ::
  "service_config \<Rightarrow> service_state \<Rightarrow> rat \<Rightarrow> service_context \<Rightarrow> execution_request \<Rightarrow> capability_manifest \<Rightarrow>
   operation_spec result" where
  "execute_gate cfg st now ctx request m =
     rbind (granted_operation st m request) (\<lambda>op.
     rbind (validate_arguments cfg op (rq_arguments request)) (\<lambda>_.
     rbind (authorize_arguments cfg ctx m request) (\<lambda>_.
     rbind (guard_dependencies cfg Do_Execute) (\<lambda>_.
     rbind (check_approval cfg now ctx m request) (\<lambda>approved.
     rbind (enforce_policy ctx m op approved) (\<lambda>_.
       if op_side_effect op \<in> {REVERSIBLE_WRITE, IRREVERSIBLE} \<and> rq_idempotency_key request = None
       then Inl (HubError ''idempotency_key_required'' POLICY False [])
       else if cm_provider m \<notin> set (sc_providers cfg)
       then Inl (HubError ''provider_not_configured'' PROVIDER False [])
       else Inr op))))))"

text \<open>
  The two \<open>except\<close> blocks: charge an execution for a reservation that is still active, mark the slot
  uncertain, record the failure, raise. An error of the charge itself passes through.
\<close>

definition raised_error :: "exn \<Rightarrow> exn" where
  "raised_error e = (case e of HubError _ _ _ _ \<Rightarrow> e | _ \<Rightarrow> unhandled_provider_error)"

definition charge_failure :: "budget_heap \<Rightarrow> nat option \<Rightarrow> unit result \<times> budget_heap" where
  "charge_failure h reservation =
     (case reservation of
        None \<Rightarrow> (Inr (), h)
      | Some rid \<Rightarrow> if rid < length (reservations h) \<and> r_active (reservations h ! rid)
          then budget_reconcile h rid [(''executions'', PyInt 1)] else (Inr (), h))"

definition execute_failed ::
  "service_config \<Rightarrow> service_state \<Rightarrow> rat \<Rightarrow> string \<Rightarrow> string option \<Rightarrow> nat option \<Rightarrow> idem_slot option \<Rightarrow> exn \<Rightarrow>
   execution_result result \<times> service_state" where
  "execute_failed cfg st now task revision reservation slot e =
     (case charge_failure (sv_budget st) reservation of
        (Inl e', h) \<Rightarrow> (Inl e', st\<lparr>sv_budget := h\<rparr>)
      | (Inr _, h) \<Rightarrow>
          (Inl (raised_error e), record_failure_event (mark_uncertain cfg (st\<lparr>sv_budget := h\<rparr>) now slot)
             task ''execute'' revision (raised_error e)))"

definition execution_amounts :: "int \<Rightarrow> (string \<times> pyval) list" where
  "execution_amounts tokens = [(''executions'', PyInt 1), (''portable_tokens'', PyInt tokens)]"

definition execute_admit ::
  "service_config \<Rightarrow> service_state \<Rightarrow> rat \<Rightarrow> string \<Rightarrow> (string \<times> idem_row) list list \<Rightarrow> service_context \<Rightarrow> nat \<Rightarrow>
   execution_request \<Rightarrow> pyval option \<Rightarrow> admission \<times> service_state" where
  "execute_admit cfg st now fresh later ctx budget request max_tokens =
     (let task = rq_task_id request;
          failed = (\<lambda>st revision reservation e.
            (case execute_failed cfg st now task revision reservation None e of (r, st') \<Rightarrow> (Answered r, st')))
      in case execute_target cfg now ctx request max_tokens of
           Inl e \<Rightarrow> failed st None None e
         | Inr (m, limit) \<Rightarrow>
           (case execute_gate cfg st now ctx request m of
              Inl e \<Rightarrow> failed st (Some (manifest_revision m)) None e
            | Inr op \<Rightarrow>
              (case budget_reserve (sv_budget st) budget (execution_amounts limit) None fresh of
                 (Inl e, h) \<Rightarrow> failed (st\<lparr>sv_budget := h\<rparr>) (Some (manifest_revision m)) None e
               | (Inr rid, h) \<Rightarrow>
                 (case admit_idempotency cfg (st\<lparr>sv_budget := h\<rparr>) now later ctx request (manifest_revision m) (op_side_effect op) of
                    (Inl e, st1) \<Rightarrow>
                      (case budget_cancel (sv_budget st1) rid of
                         (Inl e', h') \<Rightarrow> failed (st1\<lparr>sv_budget := h'\<rparr>) (Some (manifest_revision m)) (Some rid) e'
                       | (Inr _, h') \<Rightarrow> failed (st1\<lparr>sv_budget := h'\<rparr>) (Some (manifest_revision m)) None e)
                  | (Inr (Some replay, slot), st1) \<Rightarrow>
                      (case budget_cancel (sv_budget st1) rid of
                         (Inl e', h') \<Rightarrow>
                           (case execute_failed cfg (st1\<lparr>sv_budget := h'\<rparr>) now task (Some (manifest_revision m)) (Some rid) slot e' of
                              (r, st') \<Rightarrow> (Answered r, st'))
                       | (Inr _, h') \<Rightarrow>
                           (Answered (Inr replay), emit_event (st1\<lparr>sv_budget := h'\<rparr>) task ''execute''
                              (Some (manifest_revision m)) ''success'' (ex_portable_tokens replay) 0 [''idempotent_replay'']
                              (Some [(''operation'', PyStr (ex_operation replay)), (''provider'', PyStr (ex_provider replay))])))
                  | (Inr (None, slot), st1) \<Rightarrow>
                      (Invoking \<lparr>pe_request = request, pe_manifest = m, pe_operation = op, pe_limit = limit,
                         pe_reservation = rid, pe_slot = slot\<rparr>, st1)))))"

definition checked_result ::
  "service_config \<Rightarrow> pending_execution \<Rightarrow> provider_outcome \<Rightarrow> execution_result result" where
  "checked_result cfg p outcome =
     (case outcome of
        Provider_Raised e \<Rightarrow> Inl e
      | Provider_Other \<Rightarrow> Inl invalid_provider_result
      | Provider_Returned r \<Rightarrow>
          rbind (normalize_result cfg (pe_manifest p) (pe_request p) (cm_provider (pe_manifest p)) r) (\<lambda>r'.
          rbind (validate_provider_output cfg (pe_operation p) (ex_output r')) (\<lambda>_. Inr r')))"

definition execute_settle ::
  "service_config \<Rightarrow> service_state \<Rightarrow> rat \<Rightarrow> pending_execution \<Rightarrow> provider_outcome \<Rightarrow>
   execution_result result \<times> service_state" where
  "execute_settle cfg st now p outcome =
     (let task = rq_task_id (pe_request p); revision = Some (manifest_revision (pe_manifest p));
          failed = (\<lambda>st reservation e. execute_failed cfg st now task revision reservation (pe_slot p) e)
      in case checked_result cfg p outcome of
           Inl e \<Rightarrow> failed st (Some (pe_reservation p)) e
         | Inr r \<Rightarrow>
           if pe_limit p < ex_portable_tokens r
           then (case budget_reconcile (sv_budget st) (pe_reservation p) (execution_amounts (pe_limit p)) of
                   (Inl e, h) \<Rightarrow> failed (st\<lparr>sv_budget := h\<rparr>) (Some (pe_reservation p)) e
                 | (Inr _, h) \<Rightarrow> failed (st\<lparr>sv_budget := h\<rparr>) None
                     (svc_budget ''provider_output_budget_exceeded'' [(''max_output_tokens'', PyInt (pe_limit p))]))
           else (case budget_reconcile (sv_budget st) (pe_reservation p) (execution_amounts (ex_portable_tokens r)) of
                   (Inl e, h) \<Rightarrow> failed (st\<lparr>sv_budget := h\<rparr>) (Some (pe_reservation p)) e
                 | (Inr _, h) \<Rightarrow>
                     (Inr r, emit_event (complete_idempotency cfg (st\<lparr>sv_budget := h\<rparr>) now (pe_slot p) r) task ''execute''
                        revision ''success'' (ex_portable_tokens r) 0 []
                        (Some [(''operation'', PyStr (ex_operation r)), (''provider'', PyStr (ex_provider r))]))))"

text \<open>One call alone: the provider is asked only when the admission says so.\<close>

definition service_execute ::
  "service_config \<Rightarrow> service_state \<Rightarrow> rat \<Rightarrow> rat \<Rightarrow> string \<Rightarrow> (string \<times> idem_row) list list \<Rightarrow> service_context \<Rightarrow> nat \<Rightarrow>
   execution_request \<Rightarrow> pyval option \<Rightarrow> (pending_execution \<Rightarrow> provider_outcome) \<Rightarrow> execution_result result \<times> service_state" where
  "service_execute cfg st now now' fresh later ctx budget request max_tokens provider =
     (case execute_admit cfg st now fresh later ctx budget request max_tokens of
        (Answered r, st') \<Rightarrow> (r, st')
      | (Invoking p, st') \<Rightarrow> execute_settle cfg st' now' p (provider p))"

section \<open>Reservations that cover their charge\<close>

lemma same_shape_refl [simp]: "same_shape ls ls"
  by (simp add: same_shape_def)

lemma same_shape_trans: "same_shape ls ls' \<Longrightarrow> same_shape ls' ls'' \<Longrightarrow> same_shape ls ls''"
  by (simp add: same_shape_def)

lemma budget_ledger_bound:
  assumes "budget_inv h" "j < length (ledgers h)" "l_limits (ledgers h ! j) c = Some limit"
  shows "getd (l_used (ledgers h ! j)) c + getd (l_reserved (ledgers h ! j)) c \<le> limit"
  using assms by (simp add: budget_inv_def ledger_ok_def)

definition deactivated :: "budget_heap \<Rightarrow> nat \<Rightarrow> budget_heap \<Rightarrow> bool" where
  "deactivated h k h' \<longleftrightarrow> budget_inv h' \<and> same_shape (ledgers h) (ledgers h') \<and>
     reservations h' = (reservations h)[k := (reservations h ! k)\<lparr>r_active := False\<rparr>]"

text \<open>A charge within the reserved amounts can always be reconciled.\<close>

lemma reconcile_covered:
  assumes inv: "budget_inv h" and k: "k < length (reservations h)" and act: "r_active (reservations h ! k)"
    and raw: "dict_ok actual" "validate_amounts True actual = Inr charged"
    and le: "\<forall>(c, n) \<in> set charged. n \<le> amt (r_amounts (reservations h ! k)) c"
  shows "\<exists>h'. budget_reconcile h k actual = (Inr (), h') \<and> deactivated h k h'"
proof -
  define r where "r = reservations h ! k"
  let ?ids = "rev (ancestors (ledgers h) (r_ledger r))"
  have r: "r_ledger r < length (ledgers h)"
    using inv k by (auto simp: budget_inv_def reservation_ok_def r_def)
  have "check_capacity (ledgers h) ?ids charged (r_amounts r) = Inr ()"
    unfolding check_capacity_ok check_ledger_ok
  proof (intro ballI, clarify)
    fix j c n limit assume "j \<in> set ?ids" and cn: "(c, n) \<in> set charged" and lim: "l_limits (ledgers h ! j) c = Some limit"
    then have "j < length (ledgers h)" using r by (auto dest: ancestors_le)
    from budget_ledger_bound [OF inv this lim] le cn
    show "getd (l_used (ledgers h ! j)) c + getd (l_reserved (ledgers h ! j)) c - amt (r_amounts r) c + n \<le> limit"
      by (fastforce simp: r_def)
  qed
  with k act raw(2) budget_inv_chain [OF inv r] have eq: "budget_reconcile h k actual = settle h k ?ids (Some charged)"
    by (simp add: budget_reconcile_def r_def Let_def)
  obtain q h' where s: "settle h k ?ids (Some charged) = (q, h')" by fastforce
  have "dict_ok charged \<and> (\<forall>(c, n) \<in> set charged. 0 \<le> n)" using validate_amounts_ok [OF raw(2,1)] by auto
  with settle_inv [OF inv k act, of "Some charged" q h']
    \<open>check_capacity (ledgers h) ?ids charged (r_amounts r) = Inr ()\<close> s
  have "q = Inr () \<and> budget_inv h' \<and> (\<exists>ls'. h' = h\<lparr>ledgers := ls', reservations :=
       (reservations h)[k := (reservations h ! k)\<lparr>r_active := False\<rparr>]\<rparr>)"
    by (simp add: r_def)
  moreover obtain ls' where "snd (settle h k ?ids (Some charged)) = h\<lparr>ledgers := ls',
      reservations := (reservations h)[k := r\<lparr>r_active := False\<rparr>]\<rparr>" "same_shape (ledgers h) ls'"
    unfolding r_def by (rule settle_ok [OF inv k act, of "Some charged"]) (simp add: that r_def)
  ultimately show ?thesis
    using eq s by (auto simp: deactivated_def r_def)
qed

lemma cancel_active:
  assumes inv: "budget_inv h" and k: "k < length (reservations h)" and act: "r_active (reservations h ! k)"
  shows "\<exists>h'. budget_cancel h k = (Inr (), h') \<and> deactivated h k h'"
proof -
  let ?ids = "rev (ancestors (ledgers h) (r_ledger (reservations h ! k)))"
  have r: "r_ledger (reservations h ! k) < length (ledgers h)"
    using inv k by (auto simp: budget_inv_def reservation_ok_def)
  with k act budget_inv_chain [OF inv r] have eq: "budget_cancel h k = settle h k ?ids None"
    by (simp add: budget_cancel_def Let_def)
  obtain ls' where s: "settle h k ?ids None = (Inr (), h\<lparr>ledgers := ls',
      reservations := (reservations h)[k := (reservations h ! k)\<lparr>r_active := False\<rparr>]\<rparr>)" "same_shape (ledgers h) ls'"
    by (rule settle_ok [OF inv k act, of None])
  with budget_cancel_inv [OF inv, of k] eq show ?thesis
    by (auto simp: deactivated_def)
qed

lemma reserve_effect:
  assumes "budget_inv h" "i < length (ledgers h)" "dict_ok raw" "budget_reserve h i raw None fresh = (Inr k, h')"
    and "validate_amounts True raw = Inr xs"
  shows "budget_inv h' \<and> k = length (reservations h) \<and> same_shape (ledgers h) (ledgers h') \<and>
    reservations h' = reservations h @ [\<lparr>r_ledger = i, r_id = fresh, r_amounts = xs, r_active = True\<rparr>]"
proof -
  from assms(4,1,2) obtain ys where "validate_amounts True raw = Inr ys" "k = length (reservations h)"
    "ledgers h' = hold_all (ledgers h) (rev (ancestors (ledgers h) i)) ys"
    "reservations h' = reservations h @ [\<lparr>r_ledger = i, r_id = fresh, r_amounts = ys, r_active = True\<rparr>]"
    by (rule budget_reserve_ok) simp
  with budget_reserve_inv [OF assms(1-4)] hold_all_shape [OF assms(2)] assms(5) show ?thesis by simp
qed

lemma spend_effect:
  assumes "budget_inv h" "i < length (ledgers h)" "dict_ok raw" "fresh \<noteq> []" "budget_spend h i raw fresh = (q, h')"
    and xs: "validate_amounts True raw = Inr xs"
  shows "budget_inv h' \<and> same_shape (ledgers h) (ledgers h') \<and> (h' = h \<or>
    reservations h' = reservations h @ [\<lparr>r_ledger = i, r_id = fresh, r_amounts = xs, r_active = False\<rparr>])"
proof (cases "budget_reserve h i raw None fresh")
  case (Pair p h1)
  show ?thesis
  proof (cases p)
    case (Inl e)
    with Pair assms budget_reserve_error [of h i raw None fresh e h1] show ?thesis by (simp add: budget_spend_def)
  next
    case (Inr k)
    with Pair reserve_effect [OF assms(1-3) _ xs] have h1: "budget_inv h1" "k = length (reservations h)"
      "same_shape (ledgers h) (ledgers h1)"
      "reservations h1 = reservations h @ [\<lparr>r_ledger = i, r_id = fresh, r_amounts = xs, r_active = True\<rparr>]"
      by auto
    have "\<forall>(c, n) \<in> set xs. n \<le> amt xs c"
      using validate_amounts_ok [OF xs assms(3)] by (auto simp: amt_def getd_def)
    then obtain h2 where "budget_reconcile h1 k raw = (Inr (), h2)" "deactivated h1 k h2"
      using reconcile_covered [OF h1(1) _ _ assms(3) xs, of k] h1(2,4) by (auto simp: nth_append)
    with Pair Inr h1 assms(5) show ?thesis by (auto simp: budget_spend_def deactivated_def list_update_append intro: same_shape_trans)
  qed
qed

section \<open>What the two parts of an execution do\<close>

text \<open>Only reservations that are settled again were added.\<close>

definition budget_quiet :: "budget_heap \<Rightarrow> budget_heap \<Rightarrow> bool" where
  "budget_quiet h h' \<longleftrightarrow> budget_inv h' \<and> same_shape (ledgers h) (ledgers h') \<and>
     (\<exists>extra. reservations h' = reservations h @ extra \<and> (\<forall>r \<in> set extra. \<not> r_active r))"

lemma budget_quiet_refl: "budget_inv h \<Longrightarrow> budget_quiet h h"
  by (simp add: budget_quiet_def)

text \<open>Parts of the state an event leaves alone.\<close>

definition same_core :: "service_state \<Rightarrow> service_state \<Rightarrow> bool" where
  "same_core st st' \<longleftrightarrow> sv_budget st' = sv_budget st \<and> sv_grants st' = sv_grants st \<and>
     sv_idempotency st' = sv_idempotency st \<and> sv_store st' = sv_store st"

lemma emit_core [simp]: "same_core st (emit_event st task ty rvn out tok bytes rs md)"
  by (simp add: same_core_def emit_event_def Let_def)

lemma failure_core [simp]: "same_core st (record_failure_event st task ty rvn e)"
  by (cases e) (simp_all add: same_core_def emit_event_def Let_def)

text \<open>The audit log: every event has the next number.\<close>

definition audit_ok :: "service_state \<Rightarrow> bool" where
  "audit_ok st \<longleftrightarrow> 0 \<le> sv_sequence st \<and> map ae_sequence (sv_audit st) = [1..sv_sequence st]"

lemma audit_emit: "audit_ok st \<Longrightarrow> audit_ok (emit_event st task ty rvn out tok bytes rs md)"
  by (simp add: audit_ok_def emit_event_def Let_def upto_rec2 [of 1 "sv_sequence st + 1"])

lemma audit_failure: "audit_ok st \<Longrightarrow> audit_ok (record_failure_event st task ty rvn e)"
  by (cases e) (simp_all add: audit_emit)

lemma audit_budget [simp]: "audit_ok (st\<lparr>sv_budget := h\<rparr>) = audit_ok st" "audit_ok (st\<lparr>sv_grants := g\<rparr>) = audit_ok st"
  "audit_ok (st\<lparr>sv_idempotency := x\<rparr>) = audit_ok st" "audit_ok (st\<lparr>sv_store := y\<rparr>) = audit_ok st"
  by (simp_all add: audit_ok_def)

lemma mark_uncertain_frame:
  "sv_budget (mark_uncertain cfg st now slot) = sv_budget st \<and> sv_grants (mark_uncertain cfg st now slot) = sv_grants st \<and>
   audit_ok (mark_uncertain cfg st now slot) = audit_ok st"
  by (auto simp: mark_uncertain_def audit_ok_def split: option.splits)

lemma complete_frame:
  "sv_budget (complete_idempotency cfg st now slot r) = sv_budget st \<and> sv_grants (complete_idempotency cfg st now slot r) = sv_grants st \<and>
   audit_ok (complete_idempotency cfg st now slot r) = audit_ok st"
  by (auto simp: complete_idempotency_def audit_ok_def split: option.splits)

lemma mark_uncertain_None [simp]: "mark_uncertain cfg st now None = st"
  by (simp add: mark_uncertain_def)

lemma execute_failed_None [simp]:
  "execute_failed cfg st now task revision None slot e =
    (Inl (raised_error e), record_failure_event (mark_uncertain cfg st now slot) task ''execute'' revision (raised_error e))"
  by (simp add: execute_failed_def charge_failure_def)

text \<open>The amounts of an execution's reservation; they cover every charge the two parts make.\<close>

definition execution_hold :: "int \<Rightarrow> (string \<times> int) list" where
  "execution_hold limit = [(''executions'', 1), (''portable_tokens'', limit)]"

lemma validate_execution: "1 \<le> n \<Longrightarrow> validate_amounts True (execution_amounts n) = Inr (execution_hold n)"
  "validate_amounts True (execution_amounts 0) = Inr [(''executions'', 1)]"
  "validate_amounts True [(''executions'', PyInt 1)] = Inr [(''executions'', 1)]"
  by (simp_all add: execution_amounts_def execution_hold_def)

lemma dict_execution [simp]: "dict_ok (execution_amounts n)" "dict_ok (execution_hold n)"
  by (simp_all add: execution_amounts_def execution_hold_def)

definition holds_execution :: "budget_heap \<Rightarrow> nat \<Rightarrow> int \<Rightarrow> bool" where
  "holds_execution h k limit \<longleftrightarrow> k < length (reservations h) \<and> r_active (reservations h ! k) \<and>
     r_amounts (reservations h ! k) = execution_hold limit \<and> 1 \<le> limit"

lemma charge_execution:
  assumes "budget_inv h" "holds_execution h k limit" "0 \<le> n" "n \<le> limit"
  shows "\<exists>h'. budget_reconcile h k (execution_amounts n) = (Inr (), h') \<and> deactivated h k h'"
proof (cases "n = 0")
  case True
  with assms show ?thesis
    by (intro reconcile_covered [where charged = "[(''executions'', 1)]"])
      (auto simp: validate_execution holds_execution_def execution_hold_def)
next
  case False
  with assms show ?thesis
    by (intro reconcile_covered [where charged = "execution_hold n"])
      (auto simp: validate_execution holds_execution_def execution_hold_def)
qed

lemma charge_failed_execution:
  assumes "budget_inv h" "holds_execution h k limit"
  shows "\<exists>h'. charge_failure h (Some k) = (Inr (), h') \<and> deactivated h k h'"
proof -
  have "\<exists>h'. budget_reconcile h k [(''executions'', PyInt 1)] = (Inr (), h') \<and> deactivated h k h'"
    using assms by (intro reconcile_covered [where charged = "[(''executions'', 1)]"])
      (auto simp: validate_execution holds_execution_def execution_hold_def)
  with assms show ?thesis by (simp add: charge_failure_def holds_execution_def)
qed

lemma execute_failed_Some:
  assumes "budget_inv (sv_budget st)" "holds_execution (sv_budget st) k limit"
  shows "\<exists>h. deactivated (sv_budget st) k h \<and> execute_failed cfg st now task revision (Some k) slot e =
    (Inl (raised_error e), record_failure_event (mark_uncertain cfg (st\<lparr>sv_budget := h\<rparr>) now slot) task ''execute'' revision (raised_error e))"
  using charge_failed_execution [OF assms] by (auto simp: execute_failed_def)

text \<open>An admission changes idempotency records only when it takes a slot.\<close>

lemma admit_idempotency_cases:
  assumes "admit_idempotency cfg st now later ctx request revision effect = (q, st')"
  shows "sv_budget st' = sv_budget st \<and> sv_grants st' = sv_grants st \<and> audit_ok st' = audit_ok st \<and>
    (case q of
       Inr (None, Some slot) \<Rightarrow>
         (case sv_store st of
            None \<Rightarrow> map_of (sv_idempotency st) slot = None \<and> sv_store st' = None \<and>
              sv_idempotency st' = AList.update slot \<lparr>ir_arguments = execution_digest cfg request effect,
                ir_status = In_Progress, ir_result = None\<rparr> (sv_idempotency st)
          | Some store \<Rightarrow> \<not> slot_blocked (sc_floats cfg) store slot now \<and> sv_idempotency st' = sv_idempotency st \<and>
              sv_store st' = Some (snd (idem_reserve (sc_floats cfg) store slot (execution_digest cfg request effect) now)))
     | _ \<Rightarrow> sv_idempotency st' = sv_idempotency st \<and> sv_store st' = sv_store st)"
proof (cases "rq_idempotency_key request")
  case None
  with assms show ?thesis by (auto simp: admit_idempotency_def)
next
  case (Some key)
  let ?slot = "idempotency_slot cfg ctx request revision key"
  show ?thesis
  proof (cases "key = [] \<or> 256 < length key")
    case True
    with Some assms show ?thesis by (auto simp: admit_idempotency_def)
  next
    case False
    note defs = admit_idempotency_def Let_def Some False
    show ?thesis
    proof (cases "sv_store st")
      case None
      with assms False Some show ?thesis
        by (auto simp: admit_idempotency_def Let_def rbind_def audit_ok_def simp del: map_of_eq_None_iff map_of_eq_Some_iff
            split: option.splits sum.splits prod.splits)
    next
      case (Some store)
      obtain r store' where r: "idem_reserve (sc_floats cfg) store ?slot (execution_digest cfg request effect) now = (r, store')"
        by fastforce
      show ?thesis
      proof (cases r)
        case None
        then have "\<not> slot_blocked (sc_floats cfg) store ?slot now"
          using reserve_admits_iff [of "sc_floats cfg" store ?slot "execution_digest cfg request effect" now] r by simp
        with None Some r assms False \<open>rq_idempotency_key request = _\<close> show ?thesis
          by (auto simp: admit_idempotency_def Let_def audit_ok_def)
      next
        case kept: (Some x)
        then have "store' = store"
          using r by (auto simp: idem_reserve_def Let_def split: option.splits if_splits)
        with kept Some r assms False \<open>rq_idempotency_key request = _\<close> show ?thesis
          by (auto simp: admit_idempotency_def Let_def rbind_def audit_ok_def split: sum.splits if_splits)
      qed
    qed
  qed
qed

text \<open>What the admission decides, with its effects.\<close>

lemma positive_budget_ok: "positive_budget v = Inr n \<Longrightarrow> v = PyInt n \<and> 1 \<le> n"
  by (cases v) (auto split: if_splits)

lemma target_limit: "execute_target cfg now ctx request mx = Inr (m, limit) \<Longrightarrow> 1 \<le> limit"
  by (auto simp: execute_target_def rbind_eq_Inr dest: positive_budget_ok)

lemma quiet_cancelled:
  assumes "reservations h1 = reservations h @ [r]" "same_shape (ledgers h) (ledgers h1)"
    "deactivated h1 (length (reservations h)) h2"
  shows "budget_quiet h h2"
  using assms by (auto simp: budget_quiet_def deactivated_def nth_append list_update_append intro: same_shape_trans)

lemma admit_effect:
  assumes inv: "budget_inv (sv_budget st)" and i: "i < length (ledgers (sv_budget st))" and fresh: "fresh \<noteq> []"
    and run: "execute_admit cfg st now fresh later ctx i request mx = (a, st')"
  shows "sv_grants st' = sv_grants st \<and> (audit_ok st \<longrightarrow> audit_ok st') \<and>
    (case a of
       Answered r \<Rightarrow> budget_quiet (sv_budget st) (sv_budget st') \<and> sv_idempotency st' = sv_idempotency st \<and>
         sv_store st' = sv_store st
     | Invoking p \<Rightarrow> \<exists>m limit op rid h. execute_target cfg now ctx request mx = Inr (m, limit) \<and>
         execute_gate cfg st now ctx request m = Inr op \<and>
         budget_reserve (sv_budget st) i (execution_amounts limit) None fresh = (Inr rid, h) \<and> sv_budget st' = h \<and>
         p = \<lparr>pe_request = request, pe_manifest = m, pe_operation = op, pe_limit = limit, pe_reservation = rid,
           pe_slot = pe_slot p\<rparr> \<and>
         admit_idempotency cfg (st\<lparr>sv_budget := h\<rparr>) now later ctx request (manifest_revision m) (op_side_effect op) =
           (Inr (None, pe_slot p), st'))"
proof (cases "execute_target cfg now ctx request mx")
  case (Inl e)
  with run have "a = Answered (Inl (raised_error e))"
    "st' = record_failure_event st (rq_task_id request) ''execute'' None (raised_error e)"
    by (simp_all add: execute_admit_def)
  with inv show ?thesis
    using failure_core [of st] by (simp add: same_core_def budget_quiet_refl audit_failure)
next
  case (Inr ml)
  obtain m limit where t: "execute_target cfg now ctx request mx = Inr (m, limit)" using Inr by (cases ml) auto
  show ?thesis
  proof (cases "execute_gate cfg st now ctx request m")
    case (Inl e)
    with run t have "a = Answered (Inl (raised_error e))"
      "st' = record_failure_event st (rq_task_id request) ''execute'' (Some (manifest_revision m)) (raised_error e)"
      by (simp_all add: execute_admit_def)
    with inv show ?thesis
      using failure_core [of st] by (simp add: same_core_def budget_quiet_refl audit_failure)
  next
    case (Inr op)
    note g = this
    obtain q h where res: "budget_reserve (sv_budget st) i (execution_amounts limit) None fresh = (q, h)" by fastforce
    show ?thesis
    proof (cases q)
      case (Inl e)
      with res fresh have "h = sv_budget st" by (auto dest: budget_reserve_error)
      with run t g res Inl have "a = Answered (Inl (raised_error e))"
        "st' = record_failure_event st (rq_task_id request) ''execute'' (Some (manifest_revision m)) (raised_error e)"
        by (simp_all add: execute_admit_def)
      with inv show ?thesis
        using failure_core [of st] by (simp add: same_core_def budget_quiet_refl audit_failure)
    next
      case (Inr rid)
      note limit = target_limit [OF t]
      have h: "budget_inv h" "rid = length (reservations (sv_budget st))" "same_shape (ledgers (sv_budget st)) (ledgers h)"
        "reservations h = reservations (sv_budget st) @ [\<lparr>r_ledger = i, r_id = fresh, r_amounts = execution_hold limit, r_active = True\<rparr>]"
        using reserve_effect [OF inv i dict_execution(1) _ validate_execution(1) [OF limit], of fresh rid h] res Inr by auto
      obtain u st1 where ad: "admit_idempotency cfg (st\<lparr>sv_budget := h\<rparr>) now later ctx request (manifest_revision m) (op_side_effect op) = (u, st1)"
        by fastforce
      have st1: "sv_budget st1 = h" "sv_grants st1 = sv_grants st" "audit_ok st1 = audit_ok st"
        using admit_idempotency_cases [OF ad] by simp_all
      obtain h2 where h2: "budget_cancel h rid = (Inr (), h2)" "deactivated h rid h2"
        using cancel_active [OF h(1), of rid] h(2,4) by (auto simp: nth_append)
      have quiet: "budget_quiet (sv_budget st) h2"
        using quiet_cancelled [OF h(4,3)] h2(2) h(2) by simp
      show ?thesis
      proof (cases u)
        case (Inl e)
        let ?s = "st1\<lparr>sv_budget := h2\<rparr>"
        from run t g res \<open>q = Inr rid\<close> ad Inl h2 st1(1) have "a = Answered (Inl (raised_error e))"
          "st' = record_failure_event ?s (rq_task_id request) ''execute'' (Some (manifest_revision m)) (raised_error e)"
          by (simp_all add: execute_admit_def)
        with quiet show ?thesis
          using failure_core [of ?s] st1 admit_idempotency_cases [OF ad] Inl by (simp add: same_core_def audit_failure)
      next
        case (Inr v)
        obtain replay slot where v: "v = (replay, slot)" by (cases v)
        show ?thesis
        proof (cases replay)
          case None
          with run t g res \<open>q = Inr rid\<close> ad Inr v st1 show ?thesis
            by (auto simp: execute_admit_def)
        next
          case (Some x)
          let ?s = "st1\<lparr>sv_budget := h2\<rparr>"
          from run t g res \<open>q = Inr rid\<close> ad Inr v Some h2 st1(1) have "a = Answered (Inr x)"
            "st' = emit_event ?s (rq_task_id request) ''execute'' (Some (manifest_revision m)) ''success'' (ex_portable_tokens x) 0
               [''idempotent_replay''] (Some [(''operation'', PyStr (ex_operation x)), (''provider'', PyStr (ex_provider x))])"
            by (simp_all add: execute_admit_def)
          with quiet show ?thesis
            using emit_core [of ?s] st1 admit_idempotency_cases [OF ad] Inr v Some by (simp add: same_core_def audit_emit)
        qed
      qed
    qed
  qed
qed

text \<open>What the second part does: it settles the reservation and the slot, whatever the outcome.\<close>

definition settled_slot :: "service_config \<Rightarrow> service_state \<Rightarrow> rat \<Rightarrow> idem_slot option \<Rightarrow> execution_result result \<Rightarrow> service_state \<Rightarrow> bool" where
  "settled_slot cfg st now slot r st' \<longleftrightarrow>
     (let done = (case r of Inr x \<Rightarrow> complete_idempotency cfg st now slot x | Inl _ \<Rightarrow> mark_uncertain cfg st now slot)
      in sv_idempotency st' = sv_idempotency done \<and> sv_store st' = sv_store done)"

lemma measured_nonneg: "checked_result cfg p outcome = Inr r \<Longrightarrow> 0 \<le> ex_portable_tokens r"
  by (auto simp: checked_result_def normalize_result_def rbind_eq_Inr split: provider_outcome.splits if_splits)

lemma idempotency_of_budget:
  "sv_idempotency (mark_uncertain cfg (st\<lparr>sv_budget := h\<rparr>) now slot) = sv_idempotency (mark_uncertain cfg st now slot)"
  "sv_store (mark_uncertain cfg (st\<lparr>sv_budget := h\<rparr>) now slot) = sv_store (mark_uncertain cfg st now slot)"
  "sv_idempotency (complete_idempotency cfg (st\<lparr>sv_budget := h\<rparr>) now slot x) = sv_idempotency (complete_idempotency cfg st now slot x)"
  "sv_store (complete_idempotency cfg (st\<lparr>sv_budget := h\<rparr>) now slot x) = sv_store (complete_idempotency cfg st now slot x)"
  by (auto simp: mark_uncertain_def complete_idempotency_def split: option.splits)

lemma settle_effect:
  assumes inv: "budget_inv (sv_budget st)" and held: "holds_execution (sv_budget st) (pe_reservation p) (pe_limit p)"
    and run: "execute_settle cfg st now p outcome = (r, st')"
  shows "deactivated (sv_budget st) (pe_reservation p) (sv_budget st') \<and> sv_grants st' = sv_grants st \<and>
    (audit_ok st \<longrightarrow> audit_ok st') \<and> settled_slot cfg st now (pe_slot p) r st' \<and>
    (\<forall>x. r = Inr x \<longleftrightarrow> checked_result cfg p outcome = Inr x \<and> ex_portable_tokens x \<le> pe_limit p)"
proof (cases "checked_result cfg p outcome")
  case (Inl e)
  obtain h where h: "deactivated (sv_budget st) (pe_reservation p) h"
    "execute_failed cfg st now (rq_task_id (pe_request p)) (Some (manifest_revision (pe_manifest p))) (Some (pe_reservation p)) (pe_slot p) e =
      (Inl (raised_error e), record_failure_event (mark_uncertain cfg (st\<lparr>sv_budget := h\<rparr>) now (pe_slot p))
        (rq_task_id (pe_request p)) ''execute'' (Some (manifest_revision (pe_manifest p))) (raised_error e))"
    using execute_failed_Some [OF inv held] by blast
  with run Inl have "r = Inl (raised_error e)" "st' = record_failure_event (mark_uncertain cfg (st\<lparr>sv_budget := h\<rparr>) now (pe_slot p))
        (rq_task_id (pe_request p)) ''execute'' (Some (manifest_revision (pe_manifest p))) (raised_error e)"
    by (simp_all add: execute_settle_def)
  with h(1) Inl show ?thesis
    using failure_core [of "mark_uncertain cfg (st\<lparr>sv_budget := h\<rparr>) now (pe_slot p)"] mark_uncertain_frame [of cfg "st\<lparr>sv_budget := h\<rparr>"]
    by (simp add: same_core_def settled_slot_def audit_failure idempotency_of_budget)
next
  case (Inr x)
  have pos: "0 \<le> pe_limit p" using held by (simp add: holds_execution_def)
  show ?thesis
  proof (cases "pe_limit p < ex_portable_tokens x")
    case True
    let ?e = "svc_budget ''provider_output_budget_exceeded'' [(''max_output_tokens'', PyInt (pe_limit p))]"
    obtain h where h: "budget_reconcile (sv_budget st) (pe_reservation p) (execution_amounts (pe_limit p)) = (Inr (), h)"
      "deactivated (sv_budget st) (pe_reservation p) h"
      using charge_execution [OF inv held pos] by auto
    with run Inr True have "r = Inl (raised_error ?e)" "st' = record_failure_event (mark_uncertain cfg (st\<lparr>sv_budget := h\<rparr>) now (pe_slot p))
        (rq_task_id (pe_request p)) ''execute'' (Some (manifest_revision (pe_manifest p))) (raised_error ?e)"
      by (simp_all add: execute_settle_def)
    with h(2) Inr True show ?thesis
      using failure_core [of "mark_uncertain cfg (st\<lparr>sv_budget := h\<rparr>) now (pe_slot p)"] mark_uncertain_frame [of cfg "st\<lparr>sv_budget := h\<rparr>"]
      by (simp add: same_core_def settled_slot_def audit_failure idempotency_of_budget)
  next
    case False
    then obtain h where h: "budget_reconcile (sv_budget st) (pe_reservation p) (execution_amounts (ex_portable_tokens x)) = (Inr (), h)"
      "deactivated (sv_budget st) (pe_reservation p) h"
      using charge_execution [OF inv held measured_nonneg [OF Inr]] by auto
    let ?s = "complete_idempotency cfg (st\<lparr>sv_budget := h\<rparr>) now (pe_slot p) x"
    from h run Inr False have "r = Inr x" "st' = emit_event ?s (rq_task_id (pe_request p)) ''execute''
        (Some (manifest_revision (pe_manifest p))) ''success'' (ex_portable_tokens x) 0 []
        (Some [(''operation'', PyStr (ex_operation x)), (''provider'', PyStr (ex_provider x))])"
      by (simp_all add: execute_settle_def)
    with h(2) Inr False show ?thesis
      using emit_core [of ?s] complete_frame [of cfg "st\<lparr>sv_budget := h\<rparr>"]
      by (auto simp: same_core_def settled_slot_def audit_emit idempotency_of_budget)
  qed
qed

end
