(* ===== verification/Service_Runs.thy ===== *)
theory Service_Runs
  imports Execution
begin

text \<open>
  A service with executions in flight. Between the two parts of an execution any other calls may
  run: further executions, loads, rehydrations, approvals, new ledgers. The invariant ties the
  active reservations and the idempotency records to the executions in flight; the ghost list
  \<open>xs_started\<close> names the slots for which a provider was asked.
\<close>

record execution_system =
  xs_service :: service_state
  xs_pending :: "pending_execution list"
  xs_started :: "idem_slot list"

definition system_init :: "execution_system \<Rightarrow> bool" where
  "system_init s \<longleftrightarrow> budget_init (sv_budget (xs_service s)) \<and> sv_grants (xs_service s) = [] \<and>
     sv_idempotency (xs_service s) = [] \<and> sv_sequence (xs_service s) = 0 \<and> sv_audit (xs_service s) = [] \<and>
     xs_pending s = [] \<and> xs_started s = []"

inductive execution_step :: "service_config \<Rightarrow> execution_system \<Rightarrow> execution_system \<Rightarrow> bool" for cfg where
  step_answered: "i < length (ledgers (sv_budget (xs_service s))) \<Longrightarrow> fresh \<noteq> [] \<Longrightarrow>
    execute_admit cfg (xs_service s) now fresh later ctx i request mx = (Answered r, sv) \<Longrightarrow>
    execution_step cfg s (s\<lparr>xs_service := sv\<rparr>)"
| step_invoking: "i < length (ledgers (sv_budget (xs_service s))) \<Longrightarrow> fresh \<noteq> [] \<Longrightarrow>
    execute_admit cfg (xs_service s) now fresh later ctx i request mx = (Invoking p, sv) \<Longrightarrow>
    execution_step cfg s (s\<lparr>xs_service := sv, xs_pending := xs_pending s @ [p],
      xs_started := xs_started s @ (case pe_slot p of None \<Rightarrow> [] | Some slot \<Rightarrow> [slot])\<rparr>)"
| step_settle: "p \<in> set (xs_pending s) \<Longrightarrow> execute_settle cfg (xs_service s) now p outcome = (r, sv) \<Longrightarrow>
    execution_step cfg s (s\<lparr>xs_service := sv, xs_pending := remove1 p (xs_pending s)\<rparr>)"
| step_load: "i < length (ledgers (sv_budget (xs_service s))) \<Longrightarrow> fresh \<noteq> [] \<Longrightarrow>
    execution_step cfg s (s\<lparr>xs_service := snd (service_load cfg (xs_service s) now fresh ref task ctx i sections operations mx)\<rparr>)"
| step_rehydrate: "i < length (ledgers (sv_budget (xs_service s))) \<Longrightarrow> fresh \<noteq> [] \<Longrightarrow>
    execution_step cfg s (s\<lparr>xs_service := snd (service_rehydrate cfg (xs_service s) now fresh h task ctx i mx)\<rparr>)"
| step_approval:
    "execution_step cfg s (s\<lparr>xs_service := snd (issue_approval cfg (xs_service s) now revision operation arguments task ctx ttl)\<rparr>)"
| step_ledger: "dict_ok limits \<Longrightarrow> (\<forall>p. parent = Some p \<longrightarrow> p < length (ledgers (sv_budget (xs_service s)))) \<Longrightarrow>
    execution_step cfg s (s\<lparr>xs_service := (xs_service s)\<lparr>sv_budget := snd (new_ledger (sv_budget (xs_service s)) scope limits parent)\<rparr>\<rparr>)"

fun pending_slots :: "pending_execution list \<Rightarrow> idem_slot list" where
  "pending_slots [] = []"
| "pending_slots (p # ps) = (case pe_slot p of None \<Rightarrow> pending_slots ps | Some k \<Rightarrow> k # pending_slots ps)"

lemma pending_slots_append: "pending_slots (ps @ qs) = pending_slots ps @ pending_slots qs"
  by (induction ps) (auto split: option.split)

lemma pending_slots_mem: "k \<in> set (pending_slots ps) \<longleftrightarrow> (\<exists>p \<in> set ps. pe_slot p = Some k)"
  by (induction ps) (auto split: option.split)

lemma pending_slots_subset: "set (pending_slots (remove1 p ps)) \<subseteq> set (pending_slots ps)"
  unfolding subset_iff pending_slots_mem using set_remove1_subset [of p ps] by blast

lemma pending_slots_remove: "distinct (pending_slots ps) \<Longrightarrow> distinct (pending_slots (remove1 p ps))"
proof (induction ps)
  case (Cons q ps)
  with pending_slots_subset [of p ps] show ?case by (auto split: option.splits)
qed simp

lemma pending_slots_gone:
  "distinct (pending_slots ps) \<Longrightarrow> p \<in> set ps \<Longrightarrow> pe_slot p = Some k \<Longrightarrow> k \<notin> set (pending_slots (remove1 p ps))"
proof (induction ps)
  case (Cons q ps)
  have "k \<in> set (pending_slots ps)" if "p \<in> set ps" using that Cons.prems(3) by (auto simp: pending_slots_mem)
  with Cons show ?case by (auto split: option.splits if_splits)
qed simp

definition budget_matched :: "budget_heap \<Rightarrow> pending_execution list \<Rightarrow> bool" where
  "budget_matched h ps \<longleftrightarrow> budget_inv h \<and> distinct (map pe_reservation ps) \<and>
     (\<forall>p \<in> set ps. holds_execution h (pe_reservation p) (pe_limit p)) \<and>
     (\<forall>k < length (reservations h). r_active (reservations h ! k) \<longrightarrow> k \<in> pe_reservation ` set ps)"

definition pending_digest :: "service_config \<Rightarrow> pending_execution \<Rightarrow> string" where
  "pending_digest cfg p = execution_digest cfg (pe_request p) (op_side_effect (pe_operation p))"

definition slots_matched ::
  "service_config \<Rightarrow> (idem_slot \<times> idem_record) list \<Rightarrow> pending_execution list \<Rightarrow> idem_slot list \<Rightarrow> bool" where
  "slots_matched cfg records ps started \<longleftrightarrow> dict_ok records \<and> distinct started \<and> set started \<subseteq> fst ` set records \<and>
     distinct (pending_slots ps) \<and>
     (\<forall>p \<in> set ps. \<forall>k. pe_slot p = Some k \<longrightarrow>
        map_of records k = Some \<lparr>ir_arguments = pending_digest cfg p, ir_status = In_Progress, ir_result = None\<rparr>)"

definition system_inv :: "service_config \<Rightarrow> execution_system \<Rightarrow> bool" where
  "system_inv cfg s \<longleftrightarrow> audit_ok (xs_service s) \<and> budget_matched (sv_budget (xs_service s)) (xs_pending s) \<and>
     (sv_store (xs_service s) = None \<longrightarrow> slots_matched cfg (sv_idempotency (xs_service s)) (xs_pending s) (xs_started s))"

section \<open>Budgets\<close>

lemma matched_quiet:
  assumes "budget_matched h ps" "budget_quiet h h'"
  shows "budget_matched h' ps"
proof -
  from assms(2) obtain extra where x: "reservations h' = reservations h @ extra" "\<forall>r \<in> set extra. \<not> r_active r"
    and inv: "budget_inv h'" by (auto simp: budget_quiet_def)
  have "holds_execution h' k l" if "holds_execution h k l" for k l
    using that x by (simp add: holds_execution_def nth_append)
  moreover have "k < length (reservations h) \<and> r_active (reservations h ! k)"
    if "k < length (reservations h')" "r_active (reservations h' ! k)" for k
  proof (cases "k < length (reservations h)")
    case False
    with that x have "reservations h' ! k \<in> set extra" by (simp add: nth_append)
    with x(2) that show ?thesis by blast
  qed (use that x in \<open>simp add: nth_append\<close>)
  ultimately show ?thesis using assms(1) inv by (auto simp: budget_matched_def)
qed

lemma matched_reserved:
  assumes "budget_matched h ps" "budget_inv h'" "reservations h' = reservations h @ [r]" "r_active r"
    "r_amounts r = execution_hold (pe_limit p)" "1 \<le> pe_limit p" "pe_reservation p = length (reservations h)"
  shows "budget_matched h' (ps @ [p])"
proof -
  have old: "q \<in> set ps \<Longrightarrow> pe_reservation q < length (reservations h)" for q
    using assms(1) by (auto simp: budget_matched_def holds_execution_def)
  have "holds_execution h' k l" if "holds_execution h k l" for k l
    using that assms(3) by (simp add: holds_execution_def nth_append)
  moreover have "holds_execution h' (pe_reservation p) (pe_limit p)"
    using assms by (simp add: holds_execution_def nth_append)
  moreover have "k \<in> pe_reservation ` set (ps @ [p])"
    if "k < length (reservations h')" "r_active (reservations h' ! k)" for k
    using that assms(1,3,7) by (cases "k = length (reservations h)") (auto simp: budget_matched_def nth_append)
  ultimately show ?thesis using assms(1,2,7) old by (force simp: budget_matched_def)
qed

lemma matched_settled:
  assumes "budget_matched h ps" "p \<in> set ps" "deactivated h (pe_reservation p) h'"
  shows "budget_matched h' (remove1 p ps)"
proof -
  let ?k = "pe_reservation p"
  have dist: "distinct (map pe_reservation ps)" and k: "?k < length (reservations h)"
    using assms by (auto simp: budget_matched_def holds_execution_def)
  then have "distinct ps" by (simp add: distinct_map)
  then have rem: "set (remove1 p ps) = set ps - {p}" by simp
  have other: "pe_reservation q \<noteq> ?k" if "q \<in> set (remove1 p ps)" for q
    using that dist assms(2) rem by (auto simp: distinct_map inj_on_def)
  have res: "reservations h' = (reservations h)[?k := (reservations h ! ?k)\<lparr>r_active := False\<rparr>]"
    using assms(3) by (simp add: deactivated_def)
  have "holds_execution h' (pe_reservation q) (pe_limit q)" if "q \<in> set (remove1 p ps)" for q
    using that other [OF that] assms(1) rem by (auto simp: budget_matched_def holds_execution_def res)
  moreover have "j \<in> pe_reservation ` set (remove1 p ps)"
    if "j < length (reservations h')" "r_active (reservations h' ! j)" for j
  proof -
    have "j \<noteq> ?k" using that k by (auto simp: res)
    with that have "j < length (reservations h)" "r_active (reservations h ! j)" by (simp_all add: res)
    then have "j \<in> pe_reservation ` set ps" using assms(1) by (simp add: budget_matched_def)
    with \<open>j \<noteq> ?k\<close> rem show ?thesis by auto
  qed
  moreover have "distinct (map pe_reservation (remove1 p ps))"
    using dist rem by (simp add: distinct_map inj_on_def)
  ultimately show ?thesis using assms(3) by (simp add: budget_matched_def deactivated_def)
qed

lemma spend_quiet:
  assumes "budget_inv h" "i < length (ledgers h)" "dict_ok raw" "fresh \<noteq> []" "budget_spend h i raw fresh = (q, h')"
  shows "budget_quiet h h'"
proof (cases "validate_amounts True raw")
  case (Inl e)
  with assms show ?thesis by (auto simp: budget_spend_def budget_reserve_def budget_quiet_refl)
next
  case (Inr xs)
  from spend_effect [OF assms Inr] show ?thesis by (auto simp: budget_quiet_def)
qed

lemma ledger_quiet:
  assumes "budget_inv h" "dict_ok limits" "\<forall>p. parent = Some p \<longrightarrow> p < length (ledgers h)"
  shows "budget_inv (snd (new_ledger h scope limits parent)) \<and>
    reservations (snd (new_ledger h scope limits parent)) = reservations h"
proof
  show "budget_inv (snd (new_ledger h scope limits parent))"
  proof (cases parent)
    case None
    with assms show ?thesis by (auto intro: budget_step_inv step_root)
  next
    case (Some p)
    with assms have "budget_step h (snd (create_child_ledger h p scope limits))" by (intro step_child) auto
    with assms(1) Some show ?thesis by (simp add: create_child_ledger_def budget_step_inv)
  qed
qed (auto simp: new_ledger_def split: sum.split)

lemma load_effect:
  assumes inv: "budget_inv (sv_budget st)" and i: "i < length (ledgers (sv_budget st))" and fresh: "fresh \<noteq> []"
  shows "budget_quiet (sv_budget st) (sv_budget (snd (service_load cfg st now fresh ref task ctx i sections operations mx))) \<and>
    sv_idempotency (snd (service_load cfg st now fresh ref task ctx i sections operations mx)) = sv_idempotency st \<and>
    sv_store (snd (service_load cfg st now fresh ref task ctx i sections operations mx)) = sv_store st \<and>
    (audit_ok st \<longrightarrow> audit_ok (snd (service_load cfg st now fresh ref task ctx i sections operations mx)))"
proof -
  have failed: "budget_quiet (sv_budget st) h \<Longrightarrow>
      budget_quiet (sv_budget st) (sv_budget (record_failure_event (st\<lparr>sv_budget := h\<rparr>) task ''load'' rvn e)) \<and>
      sv_idempotency (record_failure_event (st\<lparr>sv_budget := h\<rparr>) task ''load'' rvn e) = sv_idempotency st \<and>
      sv_store (record_failure_event (st\<lparr>sv_budget := h\<rparr>) task ''load'' rvn e) = sv_store st \<and>
      (audit_ok st \<longrightarrow> audit_ok (record_failure_event (st\<lparr>sv_budget := h\<rparr>) task ''load'' rvn e))" for rvn e h
    using failure_core [of "st\<lparr>sv_budget := h\<rparr>" task "''load''" rvn e] by (simp add: same_core_def audit_failure)
  have same: "st\<lparr>sv_budget := sv_budget st\<rparr> = st" by simp
  note unchanged = failed [OF budget_quiet_refl [OF inv], unfolded same]
  show ?thesis
  proof (cases "load_target cfg now ctx ref mx")
    case (Inl e)
    with unchanged show ?thesis by (simp add: service_load_def)
  next
    case (Inr ml)
    obtain m limit where ml: "ml = (m, limit)" by (cases ml)
    show ?thesis
    proof (cases "load_material cfg now ctx m sections operations limit")
      case (Inl e)
      with unchanged Inr ml show ?thesis by (simp add: service_load_def)
    next
      case lb: (Inr x)
      obtain loaded bytes where x: "x = (loaded, bytes)" by (cases x)
      obtain q h where s: "budget_spend (sv_budget st) i (load_spend loaded bytes) fresh = (q, h)" by fastforce
      have quiet: "budget_quiet (sv_budget st) h"
        by (rule spend_quiet [OF inv i _ fresh s]) (simp add: load_spend_def)
      show ?thesis
      proof (cases q)
        case (Inl e)
        with failed [OF quiet] Inr ml lb x s show ?thesis by (simp add: service_load_def)
      next
        case (Inr u)
        with quiet \<open>load_target cfg now ctx ref mx = Inr ml\<close> ml lb x s show ?thesis
          using emit_core by (simp add: service_load_def same_core_def audit_emit)
      qed
    qed
  qed
qed

section \<open>Slots\<close>

lemma settled_records:
  assumes "settled_slot cfg st now slot r st'" "sv_store st = None"
  shows "sv_store st' = None \<and>
    (case slot of
       None \<Rightarrow> sv_idempotency st' = sv_idempotency st
     | Some k \<Rightarrow>
         (\<forall>x. map_of (sv_idempotency st) k = Some x \<and> ir_status x = In_Progress \<longrightarrow>
           sv_idempotency st' = AList.update k (case r of
             Inr y \<Rightarrow> x\<lparr>ir_status := Complete, ir_result := Some y\<rparr> | Inl _ \<Rightarrow> x\<lparr>ir_status := Uncertain\<rparr>) (sv_idempotency st)))"
  using assms
  by (cases slot; cases r) (auto simp: settled_slot_def Let_def mark_uncertain_def complete_idempotency_def
      simp del: map_of_eq_Some_iff split: option.splits)

lemma slots_settled:
  assumes "slots_matched cfg records ps started" "p \<in> set ps"
    and "case pe_slot p of None \<Rightarrow> records' = records | Some k \<Rightarrow> \<exists>y. records' = AList.update k y records"
  shows "slots_matched cfg records' (remove1 p ps) started"
proof -
  have keep: "map_of records' k = map_of records k" if "q \<in> set (remove1 p ps)" "pe_slot q = Some k" for k q
  proof (cases "pe_slot p")
    case (Some k')
    from that have "k \<in> set (pending_slots (remove1 p ps))" unfolding pending_slots_mem by blast
    with pending_slots_gone [of ps p k'] assms(1,2) Some have "k \<noteq> k'" by (auto simp: slots_matched_def)
    with Some assms(3) show ?thesis by (auto simp del: map_of_eq_Some_iff)
  qed (use assms(3) in simp)
  have "dict_ok records' \<and> fst ` set records \<subseteq> fst ` set records'"
  proof (cases "pe_slot p")
    case (Some k)
    then obtain y where y: "records' = AList.update k y records" using assms(3) by auto
    have "dom (map_of records') = insert k (dom (map_of records))" unfolding y by simp
    then have "fst ` set records \<subseteq> fst ` set records'" unfolding dom_map_of_conv_image_fst by blast
    with assms(1) y show ?thesis by (simp add: slots_matched_def)
  qed (use assms in \<open>simp add: slots_matched_def\<close>)
  then show ?thesis
    using assms(1) keep pending_slots_remove [of ps p] notin_set_remove1
    unfolding slots_matched_def by (metis (no_types, lifting) order_trans)
qed

lemma slots_started:
  assumes "slots_matched cfg records ps started"
    and "case pe_slot p of None \<Rightarrow> records' = records
      | Some k \<Rightarrow> map_of records k = None \<and> records' = AList.update k
          \<lparr>ir_arguments = pending_digest cfg p, ir_status = In_Progress, ir_result = None\<rparr> records"
  shows "slots_matched cfg records' (ps @ [p]) (started @ (case pe_slot p of None \<Rightarrow> [] | Some k \<Rightarrow> [k]))"
proof (cases "pe_slot p")
  case None
  with assms show ?thesis by (simp add: slots_matched_def pending_slots_append del: map_of_eq_Some_iff)
next
  case (Some k)
  let ?r = "\<lparr>ir_arguments = pending_digest cfg p, ir_status = In_Progress, ir_result = None\<rparr>"
  from Some assms(2) have none: "map_of records k = None" and r: "records' = AList.update k ?r records"
    by (simp_all del: map_of_eq_None_iff)
  then have fresh: "k \<notin> fst ` set records" by (simp add: map_of_eq_None_iff)
  have other: "k' \<noteq> k" if "q \<in> set ps" "pe_slot q = Some k'" for q k'
  proof
    assume "k' = k"
    with that assms(1) have "map_of records k \<noteq> None" unfolding slots_matched_def by blast
    with none show False by blast
  qed
  then have "k \<notin> set (pending_slots ps)" unfolding pending_slots_mem by blast
  moreover have "fst ` set records' = insert k (fst ` set records)"
    using r(1) fresh by (simp add: update_fresh image_Un)
  moreover have "map_of records' k' = Some \<lparr>ir_arguments = pending_digest cfg q, ir_status = In_Progress, ir_result = None\<rparr>"
    if "q \<in> set (ps @ [p])" "pe_slot q = Some k'" for q k'
  proof (cases "q = p")
    case True
    with that Some show ?thesis by (simp add: r del: map_of_eq_Some_iff)
  next
    case False
    with that have "q \<in> set ps" by simp
    with assms(1) that have "map_of records k' = Some \<lparr>ir_arguments = pending_digest cfg q, ir_status = In_Progress, ir_result = None\<rparr>"
      unfolding slots_matched_def by blast
    with other [OF \<open>q \<in> set ps\<close> that(2)] show ?thesis by (simp add: r del: map_of_eq_Some_iff)
  qed
  ultimately show ?thesis
    using assms(1) Some fresh r unfolding slots_matched_def by (auto simp: pending_slots_append simp del: map_of_eq_Some_iff)
qed

section \<open>The invariant\<close>

lemma rehydrate_is_load:
  "snd (service_rehydrate cfg st now fresh h task ctx i mx) = st \<or>
   (\<exists>ref sections operations. service_rehydrate cfg st now fresh h task ctx i mx =
      service_load cfg st now fresh ref task ctx i sections operations mx)"
  by (auto simp: service_rehydrate_def split: sum.splits prod.splits)

lemma same_core_refl [simp]: "same_core st st"
  by (simp add: same_core_def)

lemma approval_core:
  "same_core st (snd (issue_approval cfg st now revision operation arguments task ctx ttl)) \<and>
   (audit_ok st \<longrightarrow> audit_ok (snd (issue_approval cfg st now revision operation arguments task ctx ttl)))"
  by (simp add: issue_approval_def audit_emit split: sum.split)

lemma system_inv_core:
  assumes "system_inv cfg s" "budget_quiet (sv_budget (xs_service s)) (sv_budget sv)"
    "sv_idempotency sv = sv_idempotency (xs_service s)" "sv_store sv = sv_store (xs_service s)" "audit_ok sv"
  shows "system_inv cfg (s\<lparr>xs_service := sv\<rparr>)"
  using assms matched_quiet by (auto simp: system_inv_def)

lemma system_step_inv:
  assumes inv: "system_inv cfg s" and step: "execution_step cfg s s'"
  shows "system_inv cfg s'"
proof -
  have b: "budget_inv (sv_budget (xs_service s))" and matched: "budget_matched (sv_budget (xs_service s)) (xs_pending s)"
    and audit: "audit_ok (xs_service s)"
    using inv by (auto simp: system_inv_def budget_matched_def)
  note refl = budget_quiet_refl [OF b]
  from step show ?thesis
  proof cases
    case (step_answered i fresh now later ctx request mx r sv)
    with admit_effect [OF b step_answered(2-4)] audit inv show ?thesis by (auto intro: system_inv_core)
  next
    case (step_invoking i fresh now later ctx request mx p sv)
    from admit_effect [OF b step_invoking(2-4)] obtain m limit op rid h where
      t: "execute_target cfg now ctx request mx = Inr (m, limit)"
      and res: "budget_reserve (sv_budget (xs_service s)) i (execution_amounts limit) None fresh = (Inr rid, h)" "sv_budget sv = h"
      and p: "p = \<lparr>pe_request = request, pe_manifest = m, pe_operation = op, pe_limit = limit, pe_reservation = rid, pe_slot = pe_slot p\<rparr>"
      and ad: "admit_idempotency cfg ((xs_service s)\<lparr>sv_budget := h\<rparr>) now later ctx request (manifest_revision m) (op_side_effect op) =
        (Inr (None, pe_slot p), sv)"
      and aud: "audit_ok sv" using audit by auto
    have pf: "pe_limit p = limit" "pe_reservation p = rid" "pe_request p = request" "pe_operation p = op"
      by (subst p, simp)+
    from reserve_effect [OF b step_invoking(2) dict_execution(1) res(1) validate_execution(1) [OF target_limit [OF t]]]
    have "budget_matched h (xs_pending s @ [p])"
      using target_limit [OF t] by (intro matched_reserved [OF matched]) (auto simp: pf)
    moreover have "slots_matched cfg (sv_idempotency sv) (xs_pending s @ [p])
        (xs_started s @ (case pe_slot p of None \<Rightarrow> [] | Some k \<Rightarrow> [k]))" if "sv_store sv = None"
    proof -
      from admit_idempotency_cases [OF ad] that have "sv_store (xs_service s) = None"
        by (cases "pe_slot p") (auto split: option.splits)
      with inv have "slots_matched cfg (sv_idempotency (xs_service s)) (xs_pending s) (xs_started s)" by (simp add: system_inv_def)
      then show ?thesis
        by (rule slots_started) (use admit_idempotency_cases [OF ad] \<open>sv_store (xs_service s) = None\<close> in
          \<open>auto split: option.splits simp: pending_digest_def pf simp del: map_of_eq_None_iff\<close>)
    qed
    ultimately show ?thesis using step_invoking(1) res(2) aud by (simp add: system_inv_def)
  next
    case (step_settle p now outcome r sv)
    have "holds_execution (sv_budget (xs_service s)) (pe_reservation p) (pe_limit p)"
      using matched step_settle(2) by (simp add: budget_matched_def)
    from settle_effect [OF b this step_settle(3)] audit
    have e: "deactivated (sv_budget (xs_service s)) (pe_reservation p) (sv_budget sv)" "audit_ok sv"
      "settled_slot cfg (xs_service s) now (pe_slot p) r sv" by auto
    have "slots_matched cfg (sv_idempotency sv) (remove1 p (xs_pending s)) (xs_started s)" if "sv_store sv = None"
    proof -
      have none: "sv_store (xs_service s) = None"
        using e(3) that by (auto simp: settled_slot_def Let_def mark_uncertain_def complete_idempotency_def split: sum.splits option.splits)
      with inv have sm: "slots_matched cfg (sv_idempotency (xs_service s)) (xs_pending s) (xs_started s)" by (simp add: system_inv_def)
      have "case pe_slot p of None \<Rightarrow> sv_idempotency sv = sv_idempotency (xs_service s)
          | Some k \<Rightarrow> \<exists>y. sv_idempotency sv = AList.update k y (sv_idempotency (xs_service s))"
      proof (cases "pe_slot p")
        case None
        with settled_records [OF e(3) none] show ?thesis by simp
      next
        case (Some k)
        with sm step_settle(2) obtain x where "map_of (sv_idempotency (xs_service s)) k = Some x" "ir_status x = In_Progress"
          unfolding slots_matched_def by fastforce
        with settled_records [OF e(3) none] Some show ?thesis by (auto simp del: map_of_eq_Some_iff)
      qed
      with sm step_settle(2) show ?thesis by (rule slots_settled)
    qed
    with step_settle e matched_settled [OF matched step_settle(2) e(1)] show ?thesis by (simp add: system_inv_def)
  next
    case (step_load i fresh now ref task ctx sections operations mx)
    with load_effect [OF b step_load(2,3), of cfg now ref task ctx sections operations mx] audit inv show ?thesis
      by (auto intro!: system_inv_core)
  next
    case (step_rehydrate i fresh now h task ctx mx)
    show ?thesis
      using rehydrate_is_load [of cfg "xs_service s" now fresh h task ctx i mx]
    proof
      assume "snd (service_rehydrate cfg (xs_service s) now fresh h task ctx i mx) = xs_service s"
      with step_rehydrate(1) inv show ?thesis by simp
    next
      assume "\<exists>ref sections operations. service_rehydrate cfg (xs_service s) now fresh h task ctx i mx =
        service_load cfg (xs_service s) now fresh ref task ctx i sections operations mx"
      then obtain ref sections operations where eq: "service_rehydrate cfg (xs_service s) now fresh h task ctx i mx =
        service_load cfg (xs_service s) now fresh ref task ctx i sections operations mx" by blast
      with step_rehydrate(1) load_effect [OF b step_rehydrate(2,3), of cfg now ref task ctx sections operations mx] audit inv
      show ?thesis by (auto intro!: system_inv_core)
    qed
  next
    case (step_approval now revision operation arguments task ctx ttl)
    with approval_core [of "xs_service s" cfg now revision operation arguments task ctx ttl] refl audit inv show ?thesis
      by (auto simp: same_core_def intro!: system_inv_core)
  next
    case (step_ledger limits parent scope)
    let ?h = "snd (new_ledger (sv_budget (xs_service s)) scope limits parent)"
    have "budget_inv ?h" "reservations ?h = reservations (sv_budget (xs_service s))"
      using ledger_quiet [OF b step_ledger(2,3)] by auto
    then have "budget_matched ?h (xs_pending s)"
      using matched by (simp add: budget_matched_def holds_execution_def)
    with step_ledger inv show ?thesis by (simp add: system_inv_def)
  qed
qed

lemma system_init_inv: "system_init s \<Longrightarrow> system_inv cfg s"
  by (auto simp: system_init_def system_inv_def audit_ok_def budget_matched_def slots_matched_def budget_init_inv)
    (simp add: budget_init_def)

text \<open>A step changes at most one record, and only one that is new or in progress.\<close>

definition open_record :: "(idem_slot \<times> idem_record) list \<Rightarrow> idem_slot \<Rightarrow> bool" where
  "open_record records k \<longleftrightarrow> map_of records k = None \<or> (\<exists>x. map_of records k = Some x \<and> ir_status x = In_Progress)"

lemma step_records:
  assumes inv: "system_inv cfg s" and step: "execution_step cfg s s'" and none: "sv_store (xs_service s) = None"
  shows "sv_store (xs_service s') = None \<and> (sv_idempotency (xs_service s') = sv_idempotency (xs_service s) \<or>
    (\<exists>k y. open_record (sv_idempotency (xs_service s)) k \<and>
       sv_idempotency (xs_service s') = AList.update k y (sv_idempotency (xs_service s))))"
proof -
  have b: "budget_inv (sv_budget (xs_service s))" and matched: "budget_matched (sv_budget (xs_service s)) (xs_pending s)"
    and sm: "slots_matched cfg (sv_idempotency (xs_service s)) (xs_pending s) (xs_started s)"
    using inv none by (auto simp: system_inv_def budget_matched_def)
  from step show ?thesis
  proof cases
    case (step_answered i fresh now later ctx request mx r sv)
    with admit_effect [OF b step_answered(2-4)] none show ?thesis by simp
  next
    case (step_invoking i fresh now later ctx request mx p sv)
    from admit_effect [OF b step_invoking(2-4)] obtain m limit op rid h where
      "execute_target cfg now ctx request mx = Inr (m, limit)" "execute_gate cfg (xs_service s) now ctx request m = Inr op"
      "budget_reserve (sv_budget (xs_service s)) i (execution_amounts limit) None fresh = (Inr rid, h)"
      and ad: "admit_idempotency cfg ((xs_service s)\<lparr>sv_budget := h\<rparr>) now later ctx request (manifest_revision m) (op_side_effect op) =
        (Inr (None, pe_slot p), sv)" by auto
    show ?thesis
    proof (cases "pe_slot p")
      case None
      with admit_idempotency_cases [OF ad] step_invoking(1) none show ?thesis by simp
    next
      case (Some k)
      with admit_idempotency_cases [OF ad] none have "sv_store sv = None" "map_of (sv_idempotency (xs_service s)) k = None"
        "\<exists>y. sv_idempotency sv = AList.update k y (sv_idempotency (xs_service s))"
        by (auto simp del: map_of_eq_None_iff)
      then obtain y where "sv_store (xs_service s') = None" "open_record (sv_idempotency (xs_service s)) k"
        "sv_idempotency (xs_service s') = AList.update k y (sv_idempotency (xs_service s))"
        using step_invoking(1) by (auto simp: open_record_def simp del: map_of_eq_None_iff)
      then show ?thesis by blast
    qed
  next
    case (step_settle p now outcome r sv)
    have "holds_execution (sv_budget (xs_service s)) (pe_reservation p) (pe_limit p)"
      using matched step_settle(2) by (simp add: budget_matched_def)
    from settle_effect [OF b this step_settle(3)] have e: "settled_slot cfg (xs_service s) now (pe_slot p) r sv" by auto
    show ?thesis
    proof (cases "pe_slot p")
      case None
      with settled_records [OF e none] step_settle(1) show ?thesis by simp
    next
      case (Some k)
      with sm step_settle(2) obtain x where "map_of (sv_idempotency (xs_service s)) k = Some x" "ir_status x = In_Progress"
        unfolding slots_matched_def by fastforce
      with settled_records [OF e none] Some step_settle(1) obtain y where "sv_store (xs_service s') = None"
        "open_record (sv_idempotency (xs_service s)) k"
        "sv_idempotency (xs_service s') = AList.update k y (sv_idempotency (xs_service s))"
        by (auto simp: open_record_def simp del: map_of_eq_Some_iff)
      then show ?thesis by blast
    qed
  next
    case (step_load i fresh now ref task ctx sections operations mx)
    with load_effect [OF b step_load(2,3), of cfg now ref task ctx sections operations mx] none show ?thesis by simp
  next
    case (step_rehydrate i fresh now h task ctx mx)
    from rehydrate_is_load [of cfg "xs_service s" now fresh h task ctx i mx] show ?thesis
    proof
      assume "\<exists>ref sections operations. service_rehydrate cfg (xs_service s) now fresh h task ctx i mx =
        service_load cfg (xs_service s) now fresh ref task ctx i sections operations mx"
      then obtain ref sections operations where "service_rehydrate cfg (xs_service s) now fresh h task ctx i mx =
        service_load cfg (xs_service s) now fresh ref task ctx i sections operations mx" by blast
      with step_rehydrate(1) load_effect [OF b step_rehydrate(2,3), of cfg now ref task ctx sections operations mx] none
      show ?thesis by simp
    qed (use step_rehydrate(1) none in simp)
  next
    case (step_approval now revision operation arguments task ctx ttl)
    with approval_core [of "xs_service s" cfg now revision operation arguments task ctx ttl] none show ?thesis
      by (simp add: same_core_def)
  qed (use none in simp)
qed

definition records_kept :: "execution_system \<Rightarrow> execution_system \<Rightarrow> bool" where
  "records_kept s t \<longleftrightarrow> (sv_store (xs_service s) = None \<longrightarrow> sv_store (xs_service t) = None \<and>
     (\<forall>k. \<not> open_record (sv_idempotency (xs_service s)) k \<longrightarrow>
        map_of (sv_idempotency (xs_service t)) k = map_of (sv_idempotency (xs_service s)) k))"

lemma records_kept_trans: "records_kept s t \<Longrightarrow> records_kept t u \<Longrightarrow> records_kept s u"
  unfolding records_kept_def open_record_def by metis

lemma records_kept_step:
  assumes "system_inv cfg s" "execution_step cfg s t"
  shows "records_kept s t"
  unfolding records_kept_def
proof (intro impI conjI allI)
  assume "sv_store (xs_service s) = None"
  from step_records [OF assms this] show "sv_store (xs_service t) = None" by simp
next
  fix k assume none: "sv_store (xs_service s) = None" and k: "\<not> open_record (sv_idempotency (xs_service s)) k"
  from step_records [OF assms none] consider "sv_idempotency (xs_service t) = sv_idempotency (xs_service s)"
    | j y where "open_record (sv_idempotency (xs_service s)) j"
      "sv_idempotency (xs_service t) = AList.update j y (sv_idempotency (xs_service s))" by blast
  then show "map_of (sv_idempotency (xs_service t)) k = map_of (sv_idempotency (xs_service s)) k"
  proof cases
    case 2
    with k have "k \<noteq> j" by blast
    with 2 show ?thesis by simp
  qed simp
qed

interpretation runs: monotone_system system_init "execution_step cfg" "system_inv cfg" records_kept for cfg
proof unfold_locales
  show "records_kept s s" for s by (simp add: records_kept_def)
qed (auto intro: system_init_inv system_step_inv records_kept_step elim: records_kept_trans)

section \<open>Properties\<close>

text \<open>
  The slot of a key is taken by an admission: it was free (in the durable store: had no row, or a
  completed one past its time to live), and it now has a record in progress for these arguments.
\<close>

definition slot_taken :: "service_config \<Rightarrow> service_state \<Rightarrow> service_state \<Rightarrow> rat \<Rightarrow> idem_slot \<Rightarrow> string \<Rightarrow> bool" where
  "slot_taken cfg st st' now slot digest \<longleftrightarrow>
     (case sv_store st of
        None \<Rightarrow> map_of (sv_idempotency st) slot = None \<and>
          map_of (sv_idempotency st') slot = Some \<lparr>ir_arguments = digest, ir_status = In_Progress, ir_result = None\<rparr>
      | Some store \<Rightarrow> \<not> slot_blocked (sc_floats cfg) store slot now \<and>
          (\<exists>store' row. sv_store st' = Some store' \<and>
             map_of (is_rows store') (slot_digest (sc_floats cfg) (is_scope_key store) slot) = Some row \<and>
             iw_arguments row = digest \<and> iw_status row = In_Progress))"



lemma slot_taken_budget [simp]: "slot_taken cfg (st\<lparr>sv_budget := h\<rparr>) st' now slot digest = slot_taken cfg st st' now slot digest"
  by (cases "sv_store st") (simp_all add: slot_taken_def)




text \<open>
  C3. No reservation leaks: in every reachable state of a service with executions in flight, the
  active reservations are exactly those of the executions in flight, each for one execution and the
  token limit of its call; so without executions in flight nothing is reserved, whatever failed.
\<close>

theorem no_leaked_reservation:
  assumes "reach system_init (execution_step cfg) s"
  shows "{k. k < length (reservations (sv_budget (xs_service s))) \<and> r_active (reservations (sv_budget (xs_service s)) ! k)} =
      pe_reservation ` set (xs_pending s) \<and>
    (\<forall>p \<in> set (xs_pending s). r_amounts (reservations (sv_budget (xs_service s)) ! pe_reservation p) =
      [(''executions'', 1), (''portable_tokens'', pe_limit p)]) \<and> distinct (map pe_reservation (xs_pending s))"
  using runs.reachable_inv [OF assms]
  by (auto simp: system_inv_def budget_matched_def holds_execution_def execution_hold_def)

text \<open>
  C2. One request, one ask: in a service that keeps its idempotency records in memory, over any
  interleaving of executions, the provider executor is called at most once for each scope, task,
  revision, operation and key. (Retries inside that call belong to the executor. The durable store,
  where completed records expire, is not covered.)
\<close>

theorem provider_asked_once:
  assumes "reach system_init (execution_step cfg) s" "sv_store (xs_service s) = None"
  shows "distinct (xs_started s)"
  using runs.reachable_inv [OF assms(1)] assms(2) by (simp add: system_inv_def slots_matched_def)

text \<open>
  C14. A replay is the first result: in a service that keeps its idempotency records in memory, once
  an execution with a key has returned a result, any later execution with the same slot never asks the
  provider again, whatever ran in between; it fails or returns that very result, and it does return it
  when the call passes the gates, its budget can be reserved and its arguments and side effect are the
  same. (The durable store is not covered.)
\<close>

theorem replay_same_result:
  assumes s: "reach system_init (execution_step cfg) s" and none: "sv_store (xs_service s) = None"
    and p: "p \<in> set (xs_pending s)" "pe_slot p = Some slot"
    and settled: "execute_settle cfg (xs_service s) now p outcome = (Inr r, sv)"
    and run: "(execution_step cfg)\<^sup>*\<^sup>* (s\<lparr>xs_service := sv, xs_pending := remove1 p (xs_pending s)\<rparr>) t"
    and again: "i < length (ledgers (sv_budget (xs_service t)))" "fresh \<noteq> []"
      "execute_admit cfg (xs_service t) later fresh polls ctx i request mx = (a, sv')"
    and target: "execute_target cfg later ctx request mx = Inr (m, limit)"
    and key: "rq_idempotency_key request = Some key" "key \<noteq> []" "length key \<le> 256"
      "idempotency_slot cfg ctx request (manifest_revision m) key = slot"
  shows "(\<exists>x. a = Answered x \<and> (\<forall>y. x = Inr y \<longrightarrow> y = r)) \<and>
    (\<forall>op rid h. execute_gate cfg (xs_service t) later ctx request m = Inr op \<longrightarrow>
      budget_reserve (sv_budget (xs_service t)) i (execution_amounts limit) None fresh = (Inr rid, h) \<longrightarrow>
      execution_digest cfg request (op_side_effect op) = execution_digest cfg (pe_request p) (op_side_effect (pe_operation p)) \<longrightarrow>
      a = Answered (Inr r))"
proof -
  let ?s1 = "s\<lparr>xs_service := sv, xs_pending := remove1 p (xs_pending s)\<rparr>"
  have inv: "system_inv cfg s" by (rule runs.reachable_inv [OF s])
  have step: "execution_step cfg s ?s1" using p(1) settled by (rule step_settle)
  have inv1: "system_inv cfg ?s1" by (rule system_step_inv [OF inv step])
  have invt: "system_inv cfg t" by (rule runs.run_inv [OF inv1 run])
  have b: "budget_inv (sv_budget (xs_service s))" "holds_execution (sv_budget (xs_service s)) (pe_reservation p) (pe_limit p)"
    and sm: "slots_matched cfg (sv_idempotency (xs_service s)) (xs_pending s) (xs_started s)"
    using inv none p(1) by (auto simp: system_inv_def budget_matched_def)
  let ?old = "\<lparr>ir_arguments = pending_digest cfg p, ir_status = In_Progress, ir_result = None\<rparr>"
  let ?new = "\<lparr>ir_arguments = pending_digest cfg p, ir_status = Complete, ir_result = Some r\<rparr>"
  have "map_of (sv_idempotency (xs_service s)) slot = Some ?old" using sm p unfolding slots_matched_def by blast
  then have "sv_store sv = None" "map_of (sv_idempotency sv) slot = Some ?new"
    using settle_effect [OF b settled] settled_records [of cfg "xs_service s" now "pe_slot p" "Inr r" sv] none p(2)
    by (auto simp del: map_of_eq_Some_iff)
  moreover from this(2) have "\<not> open_record (sv_idempotency sv) slot" by (simp add: open_record_def del: map_of_eq_Some_iff)
  ultimately have rec: "sv_store (xs_service t) = None" "map_of (sv_idempotency (xs_service t)) slot = Some ?new"
    using runs.run_progress [OF inv1 run] by (simp_all add: records_kept_def del: map_of_eq_Some_iff split_paired_All)
  have bt: "budget_inv (sv_budget (xs_service t))" using invt by (simp add: system_inv_def budget_matched_def)
  have judged: "admit_idempotency cfg ((xs_service t)\<lparr>sv_budget := h\<rparr>) later polls ctx request (manifest_revision m) effect =
      (if execution_digest cfg request effect = pending_digest cfg p then Inr (Some r, Some slot)
       else Inl (HubError ''idempotency_conflict'' CONFLICT False []), (xs_service t)\<lparr>sv_budget := h\<rparr>)" for h effect
    using rec key by (simp add: admit_idempotency_def Let_def judge_record_def del: map_of_eq_Some_iff)
  show ?thesis
  proof (cases a)
    case (Invoking q)
    from admit_effect [OF bt again] Invoking target obtain op rid h where
      "execute_gate cfg (xs_service t) later ctx request m = Inr op"
      "budget_reserve (sv_budget (xs_service t)) i (execution_amounts limit) None fresh = (Inr rid, h)"
      "admit_idempotency cfg ((xs_service t)\<lparr>sv_budget := h\<rparr>) later polls ctx request (manifest_revision m) (op_side_effect op) =
        (Inr (None, pe_slot q), sv')" by auto
    then show ?thesis unfolding judged by (auto split: if_splits)
  next
    case (Answered x)
    show ?thesis
    proof (cases "execute_gate cfg (xs_service t) later ctx request m")
      case (Inl e)
      with target again(3) have "a = Answered (Inl (raised_error e))" by (simp add: execute_admit_def)
      with Inl show ?thesis by simp
    next
      case (Inr op)
      obtain q h where res: "budget_reserve (sv_budget (xs_service t)) i (execution_amounts limit) None fresh = (q, h)" by fastforce
      show ?thesis
      proof (cases q)
        case (Inl e)
        with target again(3) Inr res have "a = Answered (Inl (raised_error e))" by (simp add: execute_admit_def)
        with Inl res show ?thesis by simp
      next
        case rid: (Inr rid)
        note e = reserve_effect [OF bt again(1) dict_execution(1) _ validate_execution(1) [OF target_limit [OF target]], of fresh rid h]
        with res rid obtain h2 where "budget_cancel h rid = (Inr (), h2)"
          using cancel_active [of h rid] by (auto simp: nth_append)
        then have "a = Answered (if execution_digest cfg request (op_side_effect op) = pending_digest cfg p then Inr r
            else Inl (HubError ''idempotency_conflict'' CONFLICT False []))"
          using target again(3) Inr res rid judged [of h "op_side_effect op"]
          by (simp add: execute_admit_def raised_error_def split: if_splits)
        then show ?thesis using Inr by (auto simp: pending_digest_def)
      qed
    qed
  qed
qed

text \<open>The audit trail has no gap: the events are numbered from one without a hole, in order.\<close>

theorem audit_numbered:
  assumes "reach system_init (execution_step cfg) s"
  shows "map ae_sequence (sv_audit (xs_service s)) = [1..sv_sequence (xs_service s)]"
  using runs.reachable_inv [OF assms] by (simp add: system_inv_def audit_ok_def)

section \<open>An example run\<close>

text \<open>A single ledger without limits.\<close>

definition unlimited :: "budget_heap \<Rightarrow> bool" where
  "unlimited h \<longleftrightarrow> budget_inv h \<and> length (ledgers h) = 1 \<and> l_limits (ledgers h ! 0) = Map.empty"

lemma unlimited_shape: "unlimited h \<Longrightarrow> same_shape (ledgers h) (ledgers h') \<Longrightarrow> budget_inv h' \<Longrightarrow> unlimited h'"
  by (simp add: unlimited_def same_shape_def)

lemma reserve_unlimited:
  assumes u: "unlimited h" and raw: "dict_ok raw" "validate_amounts True raw = Inr xs" and fresh: "fresh \<noteq> []"
  shows "\<exists>h'. budget_reserve h 0 raw None fresh = (Inr (length (reservations h)), h') \<and> unlimited h'"
proof -
  have inv: "budget_inv h" "0 < length (ledgers h)" using u by (simp_all add: unlimited_def)
  have "check_capacity (ledgers h) (rev (ancestors (ledgers h) 0)) xs [] = Inr ()"
    unfolding check_capacity_ok check_ledger_ok using u by (auto simp: unlimited_def dest: ancestors_le)
  then obtain h' where h': "budget_reserve h 0 raw None fresh = (Inr (length (reservations h)), h')"
    using budget_inv_chain [OF inv] raw fresh by (simp add: budget_reserve_def Let_def)
  with reserve_effect [OF inv raw(1) h' raw(2)] unlimited_shape [OF u] show ?thesis by auto
qed

lemma spend_unlimited:
  assumes u: "unlimited h" and raw: "dict_ok raw" "validate_amounts True raw = Inr xs" and fresh: "fresh \<noteq> []"
  shows "\<exists>h'. budget_spend h 0 raw fresh = (Inr (), h') \<and> unlimited h'"
proof -
  have inv: "budget_inv h" "0 < length (ledgers h)" using u by (simp_all add: unlimited_def)
  obtain h1 where h1: "budget_reserve h 0 raw None fresh = (Inr (length (reservations h)), h1)"
    using reserve_unlimited [OF assms] by blast
  note e = reserve_effect [OF inv raw(1) h1 raw(2)]
  have "\<forall>(c, n) \<in> set xs. n \<le> amt xs c"
    using validate_amounts_ok [OF raw(2,1)] by (auto simp: amt_def getd_def)
  with e obtain h2 where h2: "budget_reconcile h1 (length (reservations h)) raw = (Inr (), h2)"
    "deactivated h1 (length (reservations h)) h2"
    using reconcile_covered [of h1 "length (reservations h)" raw xs] raw by (auto simp: nth_append)
  have "unlimited h2" using unlimited_shape [OF u] e h2(2) by (auto simp: deactivated_def intro: same_shape_trans)
  with h1 h2(1) show ?thesis by (simp add: budget_spend_def)
qed

lemma measure_loop_frame:
  assumes "measure_loop fr n l tokens bytes = (l', bytes')" "0 \<le> tokens" "0 \<le> bytes"
  shows "0 \<le> bytes' \<and> (\<exists>t \<ge> 0. l' = l\<lparr>ld_portable_tokens := t\<rparr>)"
  using assms
proof (induction fr n l tokens bytes rule: measure_loop.induct)
  case (2 fr n l tokens bytes)
  show ?case
  proof (cases "pm_portable_tokens (measure_text (canonical_json fr (loaded_dict (l\<lparr>ld_portable_tokens := tokens\<rparr>)))) = tokens \<and>
      pm_utf8_bytes (measure_text (canonical_json fr (loaded_dict (l\<lparr>ld_portable_tokens := tokens\<rparr>)))) = bytes")
    case True
    with "2.prems" show ?thesis by (auto simp: Let_def)
  next
    case False
    with 2 show ?thesis by (simp add: Let_def)
  qed
qed auto

lemma loaded_response_frame:
  assumes "loaded_response fr m sections operations er notices handles omitted = (l, bytes)"
  shows "0 \<le> bytes \<and> 0 \<le> ld_portable_tokens l \<and> ld_execution_ref l = er \<and> ld_sections l = sections \<and>
    ld_operations l = operations \<and> ld_revision l = manifest_revision m \<and> ld_handles l = handles"
  using measure_loop_frame [OF assms [unfolded loaded_response_def Let_def]] by auto

text \<open>Loading everything of a capability without sensitive sections.\<close>

lemma load_everything:
  assumes "sc_decider cfg = None" "verify_reference (sc_key cfg) ref (reference_scope (sc_floats cfg) ctx) None ''load'' now = Inr claims"
    and m: "service_manifest cfg (cl_revision claims) = Inr m" "cm_kind m \<noteq> SKILL" "\<forall>s \<in> set (cm_sections m). \<not> sd_sensitive s"
    and er: "issue_reference (sc_key cfg) (manifest_revision m) (reference_scope (sc_floats cfg) ctx) (PyInt (sc_execution_ttl cfg)) ''execution'' now = Inr er" "er \<noteq> []"
    and u: "unlimited (sv_budget st)" and fresh: "fresh \<noteq> []"
  shows "\<exists>limit loaded st'. service_load cfg st now fresh ref task ctx 0 None None (PyInt limit) = (Inr loaded, st') \<and>
    ld_execution_ref loaded = er \<and> ld_operations loaded = cm_operations m \<and>
    sv_grants st' = AList.update er \<lparr>eg_revision = manifest_revision m, eg_operations = op_name ` set (cm_operations m)\<rparr> (sv_grants st) \<and>
    unlimited (sv_budget st') \<and> sv_store st' = sv_store st \<and> sv_idempotency st' = sv_idempotency st"
proof -
  obtain notices omitted where n: "manifest_notices m = (notices, omitted)" by fastforce
  obtain loaded bytes where l: "loaded_response (sc_floats cfg) m (cm_sections m) (cm_operations m) er notices [] omitted = (loaded, bytes)"
    by fastforce
  note frame = loaded_response_frame [OF l]
  define limit where "limit = max 1 (ld_portable_tokens loaded)"
  have "omitted_targets m (cm_sections m) (cm_operations m) = []"
    by (auto simp: omitted_targets_def filter_empty_conv)
  then have mat: "load_material cfg now ctx m None None limit = Inr (loaded, bytes)"
    using m er(1) n l by (simp add: load_material_def select_sections_def select_operations_def rehydration_handles_def limit_def)
  have target: "load_target cfg now ctx ref (PyInt limit) = Inr (m, limit)"
    using assms(1,2) m(1) by (simp add: load_target_def guard_dependencies_def limit_def)
  have "\<exists>xs. validate_amounts True (load_spend loaded bytes) = Inr xs" "dict_ok (load_spend loaded bytes)"
    using frame by (simp_all add: load_spend_def)
  then obtain h where h: "budget_spend (sv_budget st) 0 (load_spend loaded bytes) fresh = (Inr (), h)" "unlimited h"
    using spend_unlimited [OF u _ _ fresh] by blast
  from target mat h frame er(2) show ?thesis
    by (intro exI [of _ limit] exI [of _ loaded]) (simp add: service_load_def emit_event_def Let_def)
qed

lemma verify_own:
  assumes r: "issue_reference key revision scope (PyInt seconds) purpose now = Inr r"
    and ascii: "is_ascii revision" "is_ascii scope" "is_ascii purpose"
    and time: "int_time later < int_time now + seconds" "int_time now \<le> int_time later + 60"
    and expected: "expected = None \<or> expected = Some revision"
  shows "verify_reference key r scope expected purpose later = Inr (issued_claims revision scope seconds purpose now)"
proof -
  have ne: "scope \<noteq> []" "purpose \<noteq> []" using issue_cases [OF r] by blast+
  show ?thesis
    unfolding verify_issued [OF r ne] using ascii time expected
    by (subst check_claims_ascii) (auto simp: issued_claims_def)
qed

lemma reference_scope_plain:
  assumes "is_ascii (sx_tenant ctx)" "is_ascii (sx_principal ctx)" "is_ascii (sx_session ctx)"
  shows "is_ascii (reference_scope fr ctx) \<and> reference_scope fr ctx \<noteq> []"
  using assms by (simp add: reference_scope_def canonical_json_def order_keys_def ascii_json_string)

lemma approval_scope_plain:
  assumes "is_ascii operation"
  shows "is_ascii (approval_scope fr ctx operation arguments) \<and> approval_scope fr ctx operation arguments \<noteq> []"
proof -
  have "is_ascii (json_dumps True False fr v) \<and> json_dumps True False fr v \<noteq> []"
    if "v = PyDict [(''actor_sha256'', PyStr a), (''arguments_sha256'', PyStr b), (''operation'', PyStr operation)]"
      "is_ascii a" "is_ascii b" for v a b
    using that assms by (simp add: order_keys_def ascii_json_string)
  from this [OF refl ascii_hex ascii_hex] show ?thesis
    unfolding approval_scope_def canonical_json_def json_digest_def by blast
qed

text \<open>A service with one capability, whose only operation is a reversible write.\<close>

definition example_operation :: operation_spec where
  "example_operation = \<lparr>op_name = ''run'', op_type = EXECUTE, op_input_schema = [], op_output_schema = [],
     op_side_effect = REVERSIBLE_WRITE, op_requires_approval = False\<rparr>"

definition example_capability :: capability_manifest where
  "example_capability = (example_manifest ''tool'' ''1.0.0'' [])\<lparr>cm_operations := [example_operation]\<rparr>"

definition example_catalog :: registry where
  "example_catalog = \<lparr>rg_revisions = [(''x/tool@1.0.0#d'', example_capability)], rg_by_coordinate = [],
     rg_active = [(''x/tool'', ''x/tool@1.0.0#d'')], rg_by_kind = (\<lambda>_. {}), rg_frozen = True,
     rg_policy = \<lparr>pp_strategy = By_Isolation, pp_selected = None\<rparr>,
     rg_resolution = \<lparr>pr_strategy = By_Isolation, pr_claims = [], pr_collisions = [], pr_decisions = []\<rparr>\<rparr>"

definition example_config :: service_config where
  "example_config = \<lparr>sc_registry = example_catalog, sc_providers = [''p''], sc_key = [1, 2, 3], sc_load_ttl = 300,
     sc_execution_ttl = 300, sc_decider = None, sc_valid = (\<lambda>_ _. True), sc_floats = (\<lambda>_. [])\<rparr>"

definition example_context :: service_context where
  "example_context = \<lparr>sx_tenant = ''t'', sx_principal = ''p'', sx_session = ''s'', sx_granted = {}, sx_authorizer = None,
     sx_allow_irreversible = False, sx_deadline_ms = 1000, sx_max_output_tokens = 100\<rparr>"

definition example_request :: "string \<Rightarrow> string \<Rightarrow> execution_request" where
  "example_request execution_ref approval = \<lparr>rq_execution_ref = execution_ref, rq_operation = ''run'', rq_arguments = [],
     rq_task_id = ''task'', rq_approval_ref = Some approval, rq_idempotency_key = Some ''k''\<rparr>"

definition example_slot :: idem_slot where
  "example_slot = (reference_scope (\<lambda>_. []) example_context, ''task'', ''x/tool@1.0.0#d'', ''run'', ''k'')"

lemma example_fields [simp]:
  "sc_floats example_config = (\<lambda>_. [])" "sc_decider example_config = None" "sc_key example_config = [1, 2, 3]"
  "sc_execution_ttl example_config = 300" "sc_load_ttl example_config = 300" "sc_providers example_config = [''p'']"
  "cm_operations example_capability = [example_operation]" "cm_sections example_capability = []"
  "cm_kind example_capability = API" "manifest_revision example_capability = ''x/tool@1.0.0#d''"
  "cm_permissions example_capability = []" "cm_provider example_capability = ''p''" "op_name example_operation = ''run''"
  "service_manifest example_config ''x/tool@1.0.0#d'' = Inr example_capability"
  by (simp_all add: example_config_def example_capability_def example_manifest_def example_operation_def revision_of_def
      coordinate_of_def service_manifest_def find_revision_def example_catalog_def)

lemma example_scope: "is_ascii (reference_scope (\<lambda>_. []) example_context)" "reference_scope (\<lambda>_. []) example_context \<noteq> []"
  using reference_scope_plain [of example_context] by (simp_all add: example_context_def)

lemma example_claims [simp]: "cl_revision (issued_claims ''x/tool@1.0.0#d'' scope n purpose t) = ''x/tool@1.0.0#d''"
  by (simp add: issued_claims_def)

lemma reference_not_empty: "issue_reference key revision scope ttl purpose now = Inr r \<Longrightarrow> r \<noteq> []"
  by (erule issue_cases) simp

definition example_start :: execution_system where
  "example_start = \<lparr>xs_service = \<lparr>sv_budget = \<lparr>ledgers = [], reservations = []\<rparr>, sv_grants = [], sv_idempotency = [],
     sv_store = None, sv_sequence = 0, sv_audit = []\<rparr>, xs_pending = [], xs_started = []\<rparr>"

text \<open>The capability loaded: a state with a grant for the execution reference and nothing in flight.\<close>

lemma example_loaded:
  obtains s er where "reach system_init (execution_step example_config) s" "unlimited (sv_budget (xs_service s))"
    "xs_pending s = []" "xs_started s = []" "sv_store (xs_service s) = None" "sv_idempotency (xs_service s) = []"
    "sv_grants (xs_service s) = [(er, \<lparr>eg_revision = ''x/tool@1.0.0#d'', eg_operations = {''run''}\<rparr>)]"
    "issue_reference [1, 2, 3] ''x/tool@1.0.0#d'' (reference_scope (\<lambda>_. []) example_context) (PyInt 300) ''execution'' 1000 = Inr er"
proof -
  let ?scope = "reference_scope (\<lambda>_. []) example_context"
  let ?h = "snd (new_ledger \<lparr>ledgers = [], reservations = []\<rparr> ''root'' [] None)"
  let ?s1 = "example_start\<lparr>xs_service := (xs_service example_start)\<lparr>sv_budget := ?h\<rparr>\<rparr>"
  have "system_init example_start" by (simp add: system_init_def example_start_def budget_init_def)
  then have start: "reach system_init (execution_step example_config) example_start" by (rule reach_init)
  have "execution_step example_config example_start ?s1"
    using step_ledger [of "[]" None example_start example_config "''root''"] by (simp add: example_start_def)
  with start have s1: "reach system_init (execution_step example_config) ?s1" by (rule reach_step)
  have "budget_inv \<lparr>ledgers = [], reservations = []\<rparr>" by (simp add: budget_inv_def wf_parents_def)
  then have "budget_inv ?h" using ledger_quiet [of "\<lparr>ledgers = [], reservations = []\<rparr>" "[]" None "''root''"] by simp
  then have u1: "unlimited (sv_budget (xs_service ?s1))" by (simp add: unlimited_def new_ledger_def)
  define s1 where "s1 = ?s1"
  have s1: "reach system_init (execution_step example_config) s1" "unlimited (sv_budget (xs_service s1))" "xs_pending s1 = []"
    "xs_started s1 = []" "sv_store (xs_service s1) = None" "sv_idempotency (xs_service s1) = []" "sv_grants (xs_service s1) = []"
    using s1 u1 by (simp_all add: s1_def) (simp_all add: example_start_def)
  then have len: "0 < length (ledgers (sv_budget (xs_service s1)))" by (simp add: unlimited_def)
  obtain lr where lr: "issue_reference [1, 2, 3] ''x/tool@1.0.0#d'' ?scope (PyInt 300) ''load'' 1000 = Inr lr"
    using issue_ok [of "''x/tool@1.0.0#d''" ?scope "''load''" 300] example_scope by auto
  obtain er where er: "issue_reference [1, 2, 3] ''x/tool@1.0.0#d'' ?scope (PyInt 300) ''execution'' 1000 = Inr er"
    using issue_ok [of "''x/tool@1.0.0#d''" ?scope "''execution''" 300] example_scope by auto
  have "verify_reference [1, 2, 3] lr ?scope None ''load'' 1000 = Inr (issued_claims ''x/tool@1.0.0#d'' ?scope 300 ''load'' 1000)"
    using example_scope by (intro verify_own [OF lr]) (simp_all add: is_ascii_def int_time_def)
  then obtain limit loaded sv where l: "service_load example_config (xs_service s1) 1000 ''u'' lr ''task'' example_context 0 None None (PyInt limit) = (Inr loaded, sv)"
    "sv_grants sv = AList.update er \<lparr>eg_revision = ''x/tool@1.0.0#d'', eg_operations = {''run''}\<rparr> (sv_grants (xs_service s1))"
    "unlimited (sv_budget sv)" "sv_store sv = sv_store (xs_service s1)" "sv_idempotency sv = sv_idempotency (xs_service s1)"
    using load_everything [of example_config lr example_context 1000 _ example_capability er "xs_service s1" "''u''" "''task''"]
      er reference_not_empty [OF er] s1(2) by auto
  have "execution_step example_config s1 (s1\<lparr>xs_service := sv\<rparr>)"
    using step_load [OF len, of "''u''" example_config 1000 lr "''task''" example_context None None "PyInt limit"] l(1) by simp
  with s1(1) have "reach system_init (execution_step example_config) (s1\<lparr>xs_service := sv\<rparr>)" by (rule reach_step)
  then show ?thesis by (rule that) (use l er s1 in simp_all)
qed

text \<open>What the gates answer in the example, whenever the references are fresh.\<close>

lemma example_approval:
  obtains ar where "issue_reference [1, 2, 3] ''x/tool@1.0.0#d'' (approval_scope (\<lambda>_. []) example_context ''run'' []) (PyInt 300) ''approval'' 1000 = Inr ar"
proof -
  have "approval_scope (\<lambda>_. []) example_context ''run'' [] \<noteq> []" using approval_scope_plain [of "''run''"] by simp
  from issue_ok [OF _ this, of "''x/tool@1.0.0#d''" "''approval''" 300 "[1, 2, 3]" 1000] that show ?thesis by auto
qed

lemma example_gates:
  assumes er: "issue_reference [1, 2, 3] ''x/tool@1.0.0#d'' (reference_scope (\<lambda>_. []) example_context) (PyInt 300) ''execution'' 1000 = Inr er"
    and ar: "issue_reference [1, 2, 3] ''x/tool@1.0.0#d'' (approval_scope (\<lambda>_. []) example_context ''run'' []) (PyInt 300) ''approval'' 1000 = Inr ar"
    and grant: "map_of (sv_grants st) er = Some \<lparr>eg_revision = ''x/tool@1.0.0#d'', eg_operations = {''run''}\<rparr>"
  shows "execute_target example_config 1000 example_context (example_request er ar) None = Inr (example_capability, 100)"
    "execute_gate example_config st 1000 example_context (example_request er ar) example_capability = Inr example_operation"
proof -
  have "verify_reference [1, 2, 3] er (reference_scope (\<lambda>_. []) example_context) None ''execution'' 1000 =
      Inr (issued_claims ''x/tool@1.0.0#d'' (reference_scope (\<lambda>_. []) example_context) 300 ''execution'' 1000)"
    using example_scope by (intro verify_own [OF er]) (simp_all add: int_time_def)
  then show "execute_target example_config 1000 example_context (example_request er ar) None = Inr (example_capability, 100)"
    by (simp add: execute_target_def example_request_def) (simp add: example_context_def)
  have "verify_reference [1, 2, 3] ar (approval_scope (\<lambda>_. []) example_context ''run'' []) (Some ''x/tool@1.0.0#d'') ''approval'' 1000 =
      Inr (issued_claims ''x/tool@1.0.0#d'' (approval_scope (\<lambda>_. []) example_context ''run'' []) 300 ''approval'' 1000)"
    using approval_scope_plain [of "''run''"] by (intro verify_own [OF ar]) (simp_all add: int_time_def)
  then have approval: "check_approval example_config 1000 example_context example_capability (example_request er ar) = Inr True"
    by (simp add: check_approval_def example_request_def)
  have op: "granted_operation st example_capability (example_request er ar) = Inr example_operation"
    using grant by (simp add: granted_operation_def find_grant_def example_request_def manifest_operation_def del: map_of_eq_Some_iff)
  have "pd_outcome (policy_decide example_capability example_operation \<lparr>pc_granted = sx_granted example_context, pc_approved = True,
      pc_allow_irreversible = sx_allow_irreversible example_context\<rparr>) = Policy_Allow"
    by (simp add: policy_allows_iff) (simp add: example_operation_def)
  then have "enforce_policy example_context example_capability example_operation True = Inr ()"
    by (simp add: enforce_policy_def)
  moreover have "op_input_schema example_operation = []" "sx_authorizer example_context = None"
    by (simp_all add: example_operation_def example_context_def)
  ultimately show "execute_gate example_config st 1000 example_context (example_request er ar) example_capability = Inr example_operation"
    using op approval by (simp add: execute_gate_def validate_arguments_def schema_skipped_def authorize_arguments_def
        guard_dependencies_def) (simp add: example_request_def)
qed

lemma example_slot_eq: "idempotency_slot example_config example_context (example_request er ar) ''x/tool@1.0.0#d'' ''k'' = example_slot"
  by (simp add: idempotency_slot_def example_slot_def example_request_def)

lemma admit_first:
  assumes "rq_idempotency_key request = Some key" "key \<noteq> []" "length key \<le> 256" "sv_store st = None" "sv_idempotency st = []"
  shows "admit_idempotency cfg st now later ctx request revision effect =
    (Inr (None, Some (idempotency_slot cfg ctx request revision key)),
      st\<lparr>sv_idempotency := [(idempotency_slot cfg ctx request revision key, \<lparr>ir_arguments = execution_digest cfg request effect,
        ir_status = In_Progress, ir_result = None\<rparr>)]\<rparr>)"
  using assms by (simp add: admit_idempotency_def Let_def)

lemma admit_invokes:
  assumes "execute_target cfg now ctx request mx = Inr (m, limit)" "execute_gate cfg st now ctx request m = Inr op"
    and "budget_reserve (sv_budget st) i (execution_amounts limit) None fresh = (Inr rid, h)"
    and "admit_idempotency cfg (st\<lparr>sv_budget := h\<rparr>) now later ctx request (manifest_revision m) (op_side_effect op) = (Inr (None, slot), st')"
  shows "execute_admit cfg st now fresh later ctx i request mx = (Invoking \<lparr>pe_request = request, pe_manifest = m,
    pe_operation = op, pe_limit = limit, pe_reservation = rid, pe_slot = slot\<rparr>, st')"
  using assms by (simp add: execute_admit_def)

text \<open>The write is in flight.\<close>

lemma example_in_flight:
  obtains s er ar p where "reach system_init (execution_step example_config) s" "unlimited (sv_budget (xs_service s))"
    "xs_pending s = [p]" "xs_started s = [example_slot]" "sv_store (xs_service s) = None" "pe_slot p = Some example_slot"
    "pe_request p = example_request er ar" "pe_manifest p = example_capability" "pe_operation p = example_operation" "pe_limit p = 100"
    "map_of (sv_grants (xs_service s)) er = Some \<lparr>eg_revision = ''x/tool@1.0.0#d'', eg_operations = {''run''}\<rparr>"
    "issue_reference [1, 2, 3] ''x/tool@1.0.0#d'' (reference_scope (\<lambda>_. []) example_context) (PyInt 300) ''execution'' 1000 = Inr er"
    "issue_reference [1, 2, 3] ''x/tool@1.0.0#d'' (approval_scope (\<lambda>_. []) example_context ''run'' []) (PyInt 300) ''approval'' 1000 = Inr ar"
    "\<exists>s0 sv. unlimited (sv_budget s0) \<and> execute_admit example_config s0 1000 ''u'' [] example_context 0 (example_request er ar) None = (Invoking p, sv)"
proof -
  obtain s er where s: "reach system_init (execution_step example_config) s" "unlimited (sv_budget (xs_service s))"
    "xs_pending s = []" "xs_started s = []" "sv_store (xs_service s) = None" "sv_idempotency (xs_service s) = []"
    "sv_grants (xs_service s) = [(er, \<lparr>eg_revision = ''x/tool@1.0.0#d'', eg_operations = {''run''}\<rparr>)]"
    and er: "issue_reference [1, 2, 3] ''x/tool@1.0.0#d'' (reference_scope (\<lambda>_. []) example_context) (PyInt 300) ''execution'' 1000 = Inr er"
    by (rule example_loaded)
  obtain ar where ar: "issue_reference [1, 2, 3] ''x/tool@1.0.0#d'' (approval_scope (\<lambda>_. []) example_context ''run'' []) (PyInt 300) ''approval'' 1000 = Inr ar"
    by (rule example_approval)
  let ?sv = "xs_service s"
  have grant: "map_of (sv_grants ?sv) er = Some \<lparr>eg_revision = ''x/tool@1.0.0#d'', eg_operations = {''run''}\<rparr>" by (simp add: s)
  note gates = example_gates [OF er ar grant]
  obtain h where h: "budget_reserve (sv_budget ?sv) 0 (execution_amounts 100) None ''u'' = (Inr (length (reservations (sv_budget ?sv))), h)"
    "unlimited h"
    using reserve_unlimited [OF s(2) dict_execution(1) validate_execution(1) [of 100], of "''u''"] by auto
  define p where "p = \<lparr>pe_request = example_request er ar, pe_manifest = example_capability, pe_operation = example_operation,
    pe_limit = 100, pe_reservation = length (reservations (sv_budget ?sv)), pe_slot = Some example_slot\<rparr>"
  define sv where "sv = ?sv\<lparr>sv_budget := h, sv_idempotency := [(example_slot, \<lparr>ir_arguments =
    execution_digest example_config (example_request er ar) (op_side_effect example_operation), ir_status = In_Progress, ir_result = None\<rparr>)]\<rparr>"
  have "rq_idempotency_key (example_request er ar) = Some ''k''" by (simp add: example_request_def)
  then have "admit_idempotency example_config (?sv\<lparr>sv_budget := h\<rparr>) 1000 [] example_context (example_request er ar)
      (manifest_revision example_capability) (op_side_effect example_operation) = (Inr (None, Some example_slot), sv)"
    by (subst admit_first [where key = "''k''"]) (simp_all only: example_fields example_slot_eq sv_def, simp_all add: s)
  then have admit: "execute_admit example_config ?sv 1000 ''u'' [] example_context 0 (example_request er ar) None = (Invoking p, sv)"
    unfolding p_def by (rule admit_invokes [OF gates h(1)])
  have len: "0 < length (ledgers (sv_budget ?sv))" using s(2) by (simp add: unlimited_def)
  have "reach system_init (execution_step example_config) (s\<lparr>xs_service := sv, xs_pending := [p], xs_started := [example_slot]\<rparr>)"
    using reach_step [OF s(1) step_invoking [OF len _ admit]] s(3,4) by (simp add: p_def)
  then show ?thesis
    by (rule that) (use s(2,5) er ar h grant admit in \<open>auto simp: sv_def p_def\<close>)
qed


theorem no_leaked_reservation_witness:
  "\<exists>s. reach system_init (execution_step example_config) s \<and> length (xs_pending s) = 1 \<and>
    {k. k < length (reservations (sv_budget (xs_service s))) \<and> r_active (reservations (sv_budget (xs_service s)) ! k)} =
      pe_reservation ` set (xs_pending s)"
proof -
  obtain s p where s: "reach system_init (execution_step example_config) s" "xs_pending s = [p]" by (rule example_in_flight)
  with no_leaked_reservation [OF s(1)] show ?thesis by (intro exI [of _ s]) simp
qed

theorem provider_asked_once_witness:
  "\<exists>s. reach system_init (execution_step example_config) s \<and> xs_started s = [example_slot] \<and> distinct (xs_started s)"
proof -
  obtain s where s: "reach system_init (execution_step example_config) s" "xs_started s = [example_slot]"
    "sv_store (xs_service s) = None" by (rule example_in_flight)
  with provider_asked_once [OF s(1,3)] show ?thesis by blast
qed

theorem audit_numbered_witness:
  "\<exists>s. reach system_init (execution_step example_config) s \<and> xs_started s \<noteq> [] \<and>
    map ae_sequence (sv_audit (xs_service s)) = [1..sv_sequence (xs_service s)]"
proof -
  obtain s where s: "reach system_init (execution_step example_config) s" "xs_started s = [example_slot]" by (rule example_in_flight)
  with audit_numbered [OF s(1)] show ?thesis by (intro exI [of _ s]) simp
qed

definition example_result :: execution_result where
  "example_result = \<lparr>ex_revision = ''x/tool@1.0.0#d'', ex_operation = ''run'', ex_output = PyNone, ex_provider = ''p'',
     ex_portable_tokens = 0, ex_audit_id = ''a''\<rparr>"

text \<open>The write settles with a result, and the same call is made again.\<close>

lemma example_settles:
  assumes "budget_inv (sv_budget st)" "holds_execution (sv_budget st) (pe_reservation p) (pe_limit p)"
    and "pe_request p = example_request er ar" "pe_manifest p = example_capability" "pe_operation p = example_operation" "pe_limit p = 100"
  shows "\<exists>r sv. execute_settle example_config st 1000 p (Provider_Returned example_result) = (Inr r, sv)"
proof -
  obtain r sv where run: "execute_settle example_config st 1000 p (Provider_Returned example_result) = (r, sv)" by fastforce
  have "pm_portable_tokens (measure_text ''null'') \<le> 100" by code_simp
  then have "ex_portable_tokens x \<le> 100" if "checked_result example_config p (Provider_Returned example_result) = Inr x" for x
    using that by (auto simp: checked_result_def normalize_result_def rbind_eq_Inr example_result_def canonical_json_def
        split: if_splits)
  moreover have "\<exists>x. checked_result example_config p (Provider_Returned example_result) = Inr x"
    using assms(3-5) by (simp add: checked_result_def normalize_result_def example_result_def
        validate_provider_output_def schema_skipped_def)
      (simp add: example_request_def example_operation_def)
  ultimately show ?thesis using settle_effect [OF assms(1,2) run] run assms(6) by fastforce
qed

theorem replay_same_result_witness:
  "\<exists>s p r sv er ar sv'. reach system_init (execution_step example_config) s \<and> p \<in> set (xs_pending s) \<and>
    execute_settle example_config (xs_service s) 1000 p (Provider_Returned example_result) = (Inr r, sv) \<and>
    execute_admit example_config sv 1000 ''u'' [] example_context 0 (example_request er ar) None = (Answered (Inr r), sv')"
proof -
  obtain s er ar p where s: "reach system_init (execution_step example_config) s" "unlimited (sv_budget (xs_service s))"
    "xs_pending s = [p]" "sv_store (xs_service s) = None" "pe_slot p = Some example_slot"
    and p: "pe_request p = example_request er ar" "pe_manifest p = example_capability" "pe_operation p = example_operation" "pe_limit p = 100"
    and grant: "map_of (sv_grants (xs_service s)) er = Some \<lparr>eg_revision = ''x/tool@1.0.0#d'', eg_operations = {''run''}\<rparr>"
    and refs: "issue_reference [1, 2, 3] ''x/tool@1.0.0#d'' (reference_scope (\<lambda>_. []) example_context) (PyInt 300) ''execution'' 1000 = Inr er"
      "issue_reference [1, 2, 3] ''x/tool@1.0.0#d'' (approval_scope (\<lambda>_. []) example_context ''run'' []) (PyInt 300) ''approval'' 1000 = Inr ar"
    by (rule example_in_flight)
  have "system_inv example_config s" by (rule runs.reachable_inv [OF s(1)])
  then have b: "budget_inv (sv_budget (xs_service s))" "holds_execution (sv_budget (xs_service s)) (pe_reservation p) (pe_limit p)"
    using s(3) by (simp_all add: system_inv_def budget_matched_def)
  obtain r sv where settled: "execute_settle example_config (xs_service s) 1000 p (Provider_Returned example_result) = (Inr r, sv)"
    using example_settles [OF b p] by blast
  from settle_effect [OF b settled] have eff: "sv_grants sv = sv_grants (xs_service s)" "unlimited (sv_budget sv)"
    using unlimited_shape [OF s(2)] by (simp_all add: deactivated_def)
  then have len: "0 < length (ledgers (sv_budget sv))" by (simp add: unlimited_def)
  obtain h where h: "budget_reserve (sv_budget sv) 0 (execution_amounts 100) None ''u'' = (Inr (length (reservations (sv_budget sv))), h)"
    using reserve_unlimited [OF eff(2) dict_execution(1) validate_execution(1) [of 100], of "''u''"] by auto
  obtain a sv' where run: "execute_admit example_config sv 1000 ''u'' [] example_context 0 (example_request er ar) None = (a, sv')"
    by fastforce
  have "p \<in> set (xs_pending s)" using s(3) by simp
  note replay = replay_same_result [OF s(1,4) this s(5) settled rtranclp.rtrancl_refl, where i = 0 and fresh = "''u''" and later = 1000
      and polls = "[]" and ctx = example_context and request = "example_request er ar" and mx = None and a = a and sv' = sv'
      and m = example_capability and limit = 100 and key = "''k''"]
  note gates = example_gates [OF refs, of sv]
  have "a = Answered (Inr r)"
    by (rule replay [THEN conjunct2, rule_format])
      (use len run gates grant eff(1) h p example_slot_eq in \<open>simp_all del: map_of_eq_Some_iff\<close>, simp_all add: example_request_def)
  with s(1) run settled \<open>p \<in> set (xs_pending s)\<close> show ?thesis by blast
qed

end
