(* ===== verification/Drained.thy ===== *)
theory Drained
  imports Draining Update_Store Service_Runs
begin

text \<open>
  The lifecycle wrapper of the service, \<open>drained_service.py\<close>: an execution is resolved to its
  revision, pins that revision in the staged revision store and in the drain controller, runs, and
  releases both. As in the service an execution has two parts, so several executions, updates and
  drains interleave between them. The pin callbacks are the ones the runtime passes, the methods of
  the revision store; the pin identifiers, the cancellability and the cancel callback are
  parameters.
\<close>

section \<open>Bindings\<close>

definition wrapper_error :: "string \<Rightarrow> exn" where
  "wrapper_error code = HubError code INTERNAL False []"

record execution_binding =
  eb_coordinate :: string
  eb_revision :: string
  eb_operation :: operation_spec
  eb_cancellable :: bool

definition make_binding :: "execution_binding \<Rightarrow> execution_binding result" where
  "make_binding b = (if eb_coordinate b = [] \<or> eb_revision b = [] then Inl ValueError else Inr b)"

text \<open>
  A callback either raises or returns; \<open>Inr None\<close> is a value of another type than the one the
  wrapper asks for.
\<close>

record drained_config =
  dg_service :: service_config
  dg_cancellable :: "capability_manifest \<Rightarrow> operation_spec \<Rightarrow> bool option result"
  dg_pin_id :: "execution_request \<Rightarrow> execution_binding \<Rightarrow> string option result"
  dg_pinning :: bool \<comment> \<open>the revision callbacks are supplied\<close>

definition resolve_binding ::
  "drained_config \<Rightarrow> rat \<Rightarrow> service_context \<Rightarrow> execution_request \<Rightarrow> execution_binding result" where
  "resolve_binding cfg now ctx request =
     rbind (verify_reference (sc_key (dg_service cfg)) (rq_execution_ref request)
       (reference_scope (sc_floats (dg_service cfg)) ctx) None ''execution'' now) (\<lambda>claims.
     rbind (find_revision (sc_registry (dg_service cfg)) (cl_revision claims)) (\<lambda>m.
       case manifest_operation m (rq_operation request) of
         None \<Rightarrow> Inl (svc_reference ''unknown_operation'')
       | Some op \<Rightarrow>
           (case dg_cancellable cfg m op of
              Inl (HubError c k r d) \<Rightarrow> Inl (HubError c k r d)
            | Inl _ \<Rightarrow> Inl (wrapper_error ''execution_cancellability_resolution_failed'')
            | Inr None \<Rightarrow> Inl (wrapper_error ''execution_cancellability_resolution_failed'')
            | Inr (Some cancellable) \<Rightarrow> make_binding \<lparr>eb_coordinate = manifest_coordinate m,
                eb_revision = manifest_revision m, eb_operation = op, eb_cancellable = cancellable\<rparr>)))"

section \<open>Execution\<close>

record drained_state =
  dr_service :: service_state
  dr_drain :: drain_controller
  dr_store :: update_store
  dr_active :: "string set"

text \<open>The pins an execution holds: its identifier, and which of the two it has taken.\<close>

record execution_pins =
  xp_id :: string
  xp_store :: bool
  xp_drain :: "string option" \<comment> \<open>\<open>pin.pin_id\<close>\<close>

record drained_flight =
  fl_pending :: pending_execution
  fl_binding :: execution_binding
  fl_pins :: execution_pins

datatype drained_admission =
    Drained_Answered "execution_result result"
  | Drained_Invoking drained_flight

text \<open>The two \<open>finally\<close> blocks: an exception of a release replaces the outcome.\<close>

definition drained_finish ::
  "drained_state \<Rightarrow> execution_pins \<Rightarrow> execution_result result \<Rightarrow> execution_result result \<times> drained_state" where
  "drained_finish st x outcome =
     (let (r, dc) = (case xp_drain x of
            None \<Rightarrow> (outcome, dr_drain st)
          | Some p \<Rightarrow> (case drain_release (dr_drain st) p of
                (Inl e, dc) \<Rightarrow> (Inl e, dc) | (Inr _, dc) \<Rightarrow> (outcome, dc)));
          (failed, us) = (if xp_store x then (case release_pin (dr_store st) (xp_id x) of
                (Inl _, us) \<Rightarrow> (True, us) | (Inr released, us) \<Rightarrow> (\<not> released, us))
              else (False, dr_store st))
      in (if failed then Inl (wrapper_error ''execution_revision_release_failed'') else r,
          st\<lparr>dr_drain := dc, dr_store := us, dr_active := dr_active st - {xp_id x}\<rparr>))"

text \<open>The \<open>try\<close> block, entered with the identifier taken.\<close>

definition drained_answer ::
  "drained_state \<Rightarrow> execution_pins \<Rightarrow> execution_result result \<Rightarrow> drained_admission \<times> drained_state" where
  "drained_answer st x r = (Drained_Answered (fst (drained_finish st x r)), snd (drained_finish st x r))"

definition revision_pin_of :: "drained_config \<Rightarrow> update_store \<Rightarrow> execution_binding \<Rightarrow> string \<Rightarrow> revision_pin result \<times> update_store" where
  "revision_pin_of cfg us b i =
     (if dg_pinning cfg then pin_active us (eb_coordinate b) i
      else (Inr \<lparr>pn_coordinate = eb_coordinate b, pn_revision = eb_revision b\<rparr>, us))"

definition drained_try ::
  "drained_config \<Rightarrow> drained_state \<Rightarrow> execution_binding \<Rightarrow> string \<Rightarrow> rat \<Rightarrow> string \<Rightarrow> (string \<times> idem_row) list list \<Rightarrow>
   service_context \<Rightarrow> nat \<Rightarrow> execution_request \<Rightarrow> pyval option \<Rightarrow> drained_admission \<times> drained_state" where
  "drained_try cfg st b i now fresh later ctx budget request max_tokens =
     (case revision_pin_of cfg (dr_store st) b i of
        (Inl e, us) \<Rightarrow> drained_answer (st\<lparr>dr_store := us\<rparr>) \<lparr>xp_id = i, xp_store = False, xp_drain = None\<rparr>
          (Inl (case e of HubError _ _ _ _ \<Rightarrow> e | _ \<Rightarrow> wrapper_error ''execution_revision_pin_failed''))
      | (Inr pin, us) \<Rightarrow>
        if pn_revision pin \<noteq> eb_revision b
        then drained_answer (st\<lparr>dr_store := us\<rparr>) \<lparr>xp_id = i, xp_store = dg_pinning cfg, xp_drain = None\<rparr>
               (Inl (lifecycle_error ''lifecycle_not_accepting''))
        else case drain_admit (dr_drain st) (eb_coordinate b) (eb_revision b) i (eb_cancellable b) of
          (Inl e, dc) \<Rightarrow> drained_answer (st\<lparr>dr_store := us, dr_drain := dc\<rparr>)
            \<lparr>xp_id = i, xp_store = dg_pinning cfg, xp_drain = None\<rparr> (Inl e)
        | (Inr p, dc) \<Rightarrow>
          (case execute_admit (dg_service cfg) (dr_service st) now fresh later ctx budget request max_tokens of
             (Answered r, sv) \<Rightarrow> drained_answer (st\<lparr>dr_service := sv, dr_drain := dc, dr_store := us\<rparr>)
               \<lparr>xp_id = i, xp_store = dg_pinning cfg, xp_drain = Some (ap_id p)\<rparr> r
           | (Invoking q, sv) \<Rightarrow>
               (Drained_Invoking \<lparr>fl_pending = q, fl_binding = b,
                  fl_pins = \<lparr>xp_id = i, xp_store = dg_pinning cfg, xp_drain = Some (ap_id p)\<rparr>\<rparr>,
                st\<lparr>dr_service := sv, dr_drain := dc, dr_store := us\<rparr>)))"

definition drained_admit ::
  "drained_config \<Rightarrow> drained_state \<Rightarrow> rat \<Rightarrow> string \<Rightarrow> (string \<times> idem_row) list list \<Rightarrow> service_context \<Rightarrow> nat \<Rightarrow>
   execution_request \<Rightarrow> pyval option \<Rightarrow> drained_admission \<times> drained_state" where
  "drained_admit cfg st now fresh later ctx budget request max_tokens =
     (case resolve_binding cfg now ctx request of
        Inl e \<Rightarrow> (Drained_Answered (Inl e), st)
      | Inr b \<Rightarrow>
        if op_name (eb_operation b) \<noteq> rq_operation request
        then (Drained_Answered (Inl (wrapper_error ''execution_binding_mismatch'')), st)
        else case dg_pin_id cfg request b of
          Inl e \<Rightarrow> (Drained_Answered (Inl (wrapper_error ''execution_pin_creation_failed'')), st)
        | Inr None \<Rightarrow> (Drained_Answered (Inl (wrapper_error ''execution_pin_creation_failed'')), st)
        | Inr (Some i) \<Rightarrow>
          if i = [] then (Drained_Answered (Inl (wrapper_error ''execution_pin_creation_failed'')), st)
          else if i \<in> dr_active st then (Drained_Answered (Inl (wrapper_error ''execution_pin_conflict'')), st)
          else drained_try cfg (st\<lparr>dr_active := insert i (dr_active st)\<rparr>) b i now fresh later ctx budget request max_tokens)"

definition drained_settle ::
  "drained_config \<Rightarrow> drained_state \<Rightarrow> rat \<Rightarrow> drained_flight \<Rightarrow> provider_outcome \<Rightarrow>
   execution_result result \<times> drained_state" where
  "drained_settle cfg st now fl outcome =
     (case execute_settle (dg_service cfg) (dr_service st) now (fl_pending fl) outcome of
        (r, sv) \<Rightarrow> drained_finish (st\<lparr>dr_service := sv\<rparr>) (fl_pins fl) r)"

section \<open>Draining\<close>

record cancellation_dispatch =
  cd_progress :: drain_progress
  cd_attempted :: nat
  cd_succeeded :: nat
  cd_failed :: nat

text \<open>\<open>cancel\<close> is \<open>None\<close> when it is not supplied; it answers whether the call returned a true value.\<close>

definition drained_advance ::
  "drained_state \<Rightarrow> (string \<Rightarrow> bool) option \<Rightarrow> string \<Rightarrow> string option \<Rightarrow> pyval \<Rightarrow> pyval option \<Rightarrow> pyval \<Rightarrow>
   cancellation_dispatch result \<times> drained_state" where
  "drained_advance st cancel coordinate revision deadline now clock =
     (case drain_advance (dr_drain st) coordinate revision deadline now clock of
        (Inl e, dc) \<Rightarrow> (Inl e, st\<lparr>dr_drain := dc\<rparr>)
      | (Inr progress, dc) \<Rightarrow>
          (let done = filter (\<lambda>t. case cancel of None \<Rightarrow> False | Some f \<Rightarrow> f t) (dp_requests progress)
           in (Inr \<lparr>cd_progress = progress, cd_attempted = length (dp_requests progress), cd_succeeded = length done,
                    cd_failed = length (dp_requests progress) - length done\<rparr>, st\<lparr>dr_drain := dc\<rparr>)))"

definition drained_begin ::
  "drained_state \<Rightarrow> string \<Rightarrow> string \<Rightarrow> string \<Rightarrow> lifecycle_snapshot result \<times> drained_state" where
  "drained_begin st coordinate revision reason =
     (case begin_drain (dr_drain st) coordinate (Some revision) reason of (r, dc) \<Rightarrow> (r, st\<lparr>dr_drain := dc\<rparr>))"

section \<open>Pins that are held are not retired\<close>

text \<open>Only \<open>force_retire\<close>, which the wrapper does not offer, retires a revision that is in use.\<close>

definition unretired :: "drain_controller \<Rightarrow> bool" where
  "unretired dc \<longleftrightarrow> (\<forall>p x. pins dc p = Some x \<longrightarrow> revs dc (pin_key x) \<noteq> Some RETIRED)"

lemma unretired_register:
  assumes "unretired dc"
  shows "unretired (snd (drain_register dc coordinate revision))" "pins (snd (drain_register dc coordinate revision)) = pins dc"
  using assms by (auto simp: drain_register_def Let_def unretired_def split: sum.splits option.splits)

lemma unretired_admit:
  assumes "unretired dc"
  shows "unretired (snd (drain_admit dc coordinate revision pin_id cancellable))"
proof (cases rule: drain_admit_cases [of dc coordinate revision pin_id cancellable])
  case (admitted c r p pin)
  then show ?thesis using assms by (auto simp: unretired_def pin_key_def simp del: map_of_eq_Some_iff)
qed (use assms in simp)

lemma unretired_release:
  assumes "drain_inv dc" "unretired dc"
  shows "unretired (snd (drain_release dc pin_id))"
proof (cases rule: drain_release_cases [of dc pin_id])
  case (released p pin)
  note eff = drain_release_effect(2,3) [OF assms(1) released]
  show ?thesis
    unfolding unretired_def eff
    using assms(2) by (auto simp: unretired_def held_by_def ran_def simp del: map_of_eq_Some_iff split: if_splits)
qed (use assms in simp)

lemma unretired_begin:
  assumes "drain_inv dc" "unretired dc"
  shows "unretired (snd (begin_drain dc coordinate (Some revision) reason))"
    "pins (snd (begin_drain dc coordinate (Some revision) reason)) = pins dc"
proof -
  have dicts: "dicts_ok dc" using assms(1) by (simp add: drain_inv_def)
  have "unretired (snd (begin_drain dc coordinate (Some revision) reason)) \<and>
      pins (snd (begin_drain dc coordinate (Some revision) reason)) = pins dc"
  proof (cases rule: begin_drain_cases [of dc coordinate "Some revision" reason])
    case (revision c r why)
    have "held_by (pins dc) (pin_key x)" if "pins dc p = Some x" for p x
      using that by (auto simp: held_by_def ran_def)
    with revision assms(2) show ?thesis
      by (auto simp: begin_revision_drain_effect begin_revision_drain_effect(3) [OF dicts] unretired_def
          simp del: map_of_eq_Some_iff) (metis)
  qed (use assms in simp_all)
  then show "unretired (snd (begin_drain dc coordinate (Some revision) reason))"
    "pins (snd (begin_drain dc coordinate (Some revision) reason)) = pins dc" by blast+
qed

lemma mark_key [simp]: "pin_key (mark_pin S x) = pin_key x"
  by (simp add: pin_key_def)

lemma unretired_advance:
  assumes "drain_inv dc" "unretired dc"
  shows "unretired (snd (drain_advance dc coordinate revision deadline now clock))"
    "map_option pin_key (pins (snd (drain_advance dc coordinate revision deadline now clock)) p) = map_option pin_key (pins dc p)"
  using assms(2)
  by (cases rule: drain_advance_cases [OF assms(1), of coordinate revision deadline now clock];
      auto simp: unretired_def Let_def option.map_comp comp_def simp del: map_of_eq_Some_iff)+

section \<open>The pins are the executions in flight\<close>

definition flight_held :: "drained_config \<Rightarrow> drained_state \<Rightarrow> drained_flight \<Rightarrow> bool" where
  "flight_held cfg st fl \<longleftrightarrow>
     (let x = fl_pins fl; b = fl_binding fl in
      xp_drain x = Some (xp_id x) \<and> xp_store x = dg_pinning cfg \<and> drain_identifier (xp_id x) = Inr (xp_id x) \<and>
      (\<exists>pin c r. pins (dr_drain st) (xp_id x) = Some pin \<and> drain_identifier (eb_coordinate b) = Inr c \<and>
         drain_identifier (eb_revision b) = Inr r \<and> pin_key pin = (c, r)) \<and>
      (dg_pinning cfg \<longrightarrow> map_of (st_pins (dr_store st)) (xp_id x) =
         Some \<lparr>pn_coordinate = eb_coordinate b, pn_revision = eb_revision b\<rparr>))"

abbreviation flight_id :: "drained_flight \<Rightarrow> string" where
  "flight_id fl \<equiv> xp_id (fl_pins fl)"

text \<open>\<open>base\<close> holds the pins the revision store had at the start, of earlier processes.\<close>

definition drained_inv ::
  "drained_config \<Rightarrow> (string \<rightharpoonup> revision_pin) \<Rightarrow> drained_state \<Rightarrow> drained_flight list \<Rightarrow> bool" where
  "drained_inv cfg base st fls \<longleftrightarrow> drain_inv (dr_drain st) \<and> unretired (dr_drain st) \<and> distinct (map flight_id fls) \<and>
     dr_active st = set (map flight_id fls) \<and> dom (pins (dr_drain st)) = set (map flight_id fls) \<and>
     (\<forall>fl \<in> set fls. flight_held cfg st fl) \<and>
     (\<forall>i. (dg_pinning cfg \<longrightarrow> i \<notin> set (map flight_id fls)) \<longrightarrow> map_of (st_pins (dr_store st)) i \<in> {None, base i})"

text \<open>The identifiers the factory makes are not changed by the controller's normalization.\<close>

definition clean_ids :: "drained_config \<Rightarrow> bool" where
  "clean_ids cfg \<longleftrightarrow> (\<forall>request b i p. dg_pin_id cfg request b = Inr (Some i) \<longrightarrow> drain_identifier i = Inr p \<longrightarrow> p = i)"

lemma clean_not_empty: "drain_identifier i = Inr i \<Longrightarrow> i \<noteq> []"
  by (auto simp: drain_identifier_def clean_text_def Let_def strip_def split: option.splits if_splits)

lemma held_frame:
  assumes "flight_held cfg st fl"
    "map_option pin_key (pins (dr_drain st') (flight_id fl)) = map_option pin_key (pins (dr_drain st) (flight_id fl))"
    "map_of (st_pins (dr_store st')) (flight_id fl) = map_of (st_pins (dr_store st)) (flight_id fl)"
  shows "flight_held cfg st' fl"
proof -
  let ?i = "flight_id fl" and ?b = "fl_binding fl"
  obtain pin c r where pin: "pins (dr_drain st) ?i = Some pin" "drain_identifier (eb_coordinate ?b) = Inr c"
    "drain_identifier (eb_revision ?b) = Inr r" "pin_key pin = (c, r)"
    using assms(1) by (auto simp: flight_held_def Let_def)
  moreover obtain pin' where "pins (dr_drain st') ?i = Some pin'" "pin_key pin' = pin_key pin"
    using assms(2) pin(1) by (auto simp: map_option_case split: option.splits)
  ultimately show ?thesis
    using assms(1,3) by (simp add: flight_held_def Let_def del: map_of_eq_Some_iff)
qed

lemma finish_held:
  assumes inv: "drained_inv cfg base st fls" and fl: "fl \<in> set fls"
  shows "fst (drained_finish st (fl_pins fl) r) = r" "drained_inv cfg base (snd (drained_finish st (fl_pins fl) r)) (remove1 fl fls)"
    "dr_service (snd (drained_finish st (fl_pins fl) r)) = dr_service st"
proof -
  let ?i = "flight_id fl" and ?dc = "dr_drain st"
  have fh: "flight_held cfg st fl" and dinv: "drain_inv ?dc" "unretired ?dc" and dist: "distinct (map flight_id fls)"
    using inv fl by (simp_all add: drained_inv_def)
  from fh obtain pin where h: "xp_drain (fl_pins fl) = Some ?i" "xp_store (fl_pins fl) = dg_pinning cfg"
    "drain_identifier ?i = Inr ?i" "pins ?dc ?i = Some pin"
    by (auto simp: flight_held_def Let_def)
  note eff = drain_release_effect [OF dinv(1) h(3,4)]
  obtain dc' where rel: "drain_release ?dc ?i = (Inr True, dc')" using eff(1) by (metis prod.collapse)
  define us where "us = (if dg_pinning cfg then (dr_store st)\<lparr>st_pins := AList.delete ?i (st_pins (dr_store st))\<rparr> else dr_store st)"
  have "dg_pinning cfg \<longrightarrow> map_of (st_pins (dr_store st)) ?i \<noteq> None" using fh by (simp add: flight_held_def Let_def)
  moreover have "?i \<noteq> []" using h(3) by (rule clean_not_empty)
  ultimately have fin: "drained_finish st (fl_pins fl) r = (r, st\<lparr>dr_drain := dc', dr_store := us, dr_active := dr_active st - {?i}\<rparr>)"
    unfolding drained_finish_def h(1,2) option.case by (auto simp: rel release_pin_def us_def Let_def)
  show "fst (drained_finish st (fl_pins fl) r) = r" "dr_service (snd (drained_finish st (fl_pins fl) r)) = dr_service st"
    by (simp_all add: fin)
  have ids: "set (map flight_id (remove1 fl fls)) = set (map flight_id fls) - {?i}" and dist': "distinct (map flight_id (remove1 fl fls))"
  proof -
    have "distinct fls" using dist by (simp add: distinct_map)
    then have rem: "set (remove1 fl fls) = set fls - {fl}" by (rule set_remove1_eq)
    have inj: "inj_on flight_id (set fls)" using dist by (simp add: distinct_map)
    show "set (map flight_id (remove1 fl fls)) = set (map flight_id fls) - {?i}"
      using inj fl unfolding set_map rem by (subst inj_on_image_set_diff [OF inj]) auto
    show "distinct (map flight_id (remove1 fl fls))"
      using dist inj rem by (auto simp: distinct_map intro: inj_on_subset)
  qed
  have "flight_held cfg (st\<lparr>dr_drain := dc', dr_store := us, dr_active := dr_active st - {?i}\<rparr>) g" if g: "g \<in> set (remove1 fl fls)" for g
  proof (rule held_frame [of cfg st])
    show "flight_held cfg st g" using inv g set_remove1_subset [of fl fls] by (auto simp: drained_inv_def)
    have "flight_id g \<noteq> ?i" using g ids by (metis DiffE image_eqI insertI1 set_map)
    then show "map_option pin_key (pins (dr_drain (st\<lparr>dr_drain := dc', dr_store := us, dr_active := dr_active st - {?i}\<rparr>)) (flight_id g)) =
        map_option pin_key (pins ?dc (flight_id g))"
      "map_of (st_pins (dr_store (st\<lparr>dr_drain := dc', dr_store := us, dr_active := dr_active st - {?i}\<rparr>))) (flight_id g) =
        map_of (st_pins (dr_store st)) (flight_id g)"
      using eff(2) by (simp_all add: rel us_def)
  qed
  moreover have "drain_inv dc'" using drain_release_good [OF dinv(1), of ?i] by (simp add: drain_good_def rel)
  moreover have "unretired dc'" using unretired_release [OF dinv, of ?i] by (simp add: rel)
  moreover have "map_of (st_pins us) j \<in> {None, base j}" if "dg_pinning cfg \<longrightarrow> j \<notin> set (map flight_id (remove1 fl fls))" for j
  proof -
    have "(dg_pinning cfg \<longrightarrow> j \<notin> set (map flight_id fls)) \<longrightarrow> map_of (st_pins (dr_store st)) j \<in> {None, base j}"
      using inv by (simp add: drained_inv_def)
    then show ?thesis using that unfolding ids us_def by (cases "dg_pinning cfg"; cases "j = ?i") simp_all
  qed
  ultimately show "drained_inv cfg base (snd (drained_finish st (fl_pins fl) r)) (remove1 fl fls)"
    using inv dist' unfolding drained_inv_def fin ids using eff(2) by (auto simp: rel simp del: map_of_eq_Some_iff map_of_eq_None_iff)
qed

lemma pin_active_Inr:
  assumes "pin_active us c i = (Inr pin, us')"
  shows "us_active (read_state us c) = Some (pn_revision pin) \<and> pn_coordinate pin = c \<and>
    map_of (st_pins us') i = Some pin \<and> (\<forall>j. j \<noteq> i \<longrightarrow> map_of (st_pins us') j = map_of (st_pins us) j)"
  using assms by (auto simp: pin_active_def Let_def simp del: map_of_eq_Some_iff split: sum.splits option.splits if_splits)

lemma pin_active_Inl: "pin_active us c i = (Inl e, us') \<Longrightarrow> us' = us"
  by (auto simp: pin_active_def Let_def split: sum.splits option.splits if_splits)

lemma drain_admit_Inl: "drain_admit dc c r i k = (Inl e, dc') \<Longrightarrow> dc' = dc"
  by (cases rule: drain_admit_cases [of dc c r i k]) auto

lemma drain_admit_Inr:
  assumes "drain_admit dc c r i k = (Inr p, dc')"
  obtains c' r' where "drain_identifier c = Inr c'" "drain_identifier r = Inr r'" "drain_identifier i = Inr (ap_id p)"
    "pin_key p = (c', r')" "coords dc c' = Some ACCEPTING" "revs dc (c', r') = Some ACCEPTING" "pins dc (ap_id p) = None"
    "pins dc' = (pins dc)(ap_id p \<mapsto> p)"
  | c' r' q where "drain_identifier c = Inr c'" "drain_identifier r = Inr r'" "drain_identifier i = Inr q"
    "coords dc c' = Some ACCEPTING" "revs dc (c', r') = Some ACCEPTING" "pins dc q = Some p" "dc' = dc"
proof (cases rule: drain_admit_cases [of dc c r i k])
  case kept
  from assms obtain x where "rbind (drain_identifier c) (\<lambda>c. rbind (drain_identifier r)
         (\<lambda>r. rbind (drain_identifier i) (\<lambda>p. Inr (c, r, p)))) = Inr x"
    by (cases "rbind (drain_identifier c) (\<lambda>c. rbind (drain_identifier r)
         (\<lambda>r. rbind (drain_identifier i) (\<lambda>p. Inr (c, r, p))))") (simp_all add: drain_admit_def)
  then obtain c' r' q where ids: "drain_identifier c = Inr c'" "drain_identifier r = Inr r'" "drain_identifier i = Inr q"
    by (auto simp: rbind_eq_Inr)
  have live: "revs dc (c', r') = Some ACCEPTING" "coords dc c' = Some ACCEPTING"
    using assms ids by (cases "revs dc (c', r')"; cases "coords dc c'"; simp add: drain_admit_def split: if_splits)+
  show thesis
  proof (cases "pins dc q")
    case None
    with assms ids live have "pins dc' q \<noteq> None"
      by (auto simp: drain_admit_def Let_def simp del: map_of_eq_None_iff split: if_splits)
    with kept assms None show thesis by simp
  next
    case (Some x)
    with assms ids live kept show thesis by (intro that(2)) (auto simp: drain_admit_def simp del: map_of_eq_Some_iff split: if_splits)
  qed
next
  case (admitted c' r' q pin)
  with assms show thesis by (intro that(1) [of c' r']) (auto simp: pin_key_def)
qed

text \<open>A state with one more identifier taken, and no pin in the controller.\<close>

lemma finish_unheld:
  assumes inv: "drained_inv cfg base st fls" and i: "i \<notin> dr_active st"
    and us: "\<forall>j. j \<noteq> i \<or> \<not> s \<longrightarrow> map_of (st_pins us) j = map_of (st_pins (dr_store st)) j" and ne: "i \<noteq> []"
    and fin: "drained_finish (st\<lparr>dr_active := insert i (dr_active st), dr_store := us\<rparr>) \<lparr>xp_id = i, xp_store = s, xp_drain = None\<rparr> r = (r', st')"
  shows "drained_inv cfg base st' fls"
proof -
  have st': "dr_drain st' = dr_drain st" "dr_active st' = dr_active st" "\<forall>j. j \<noteq> i \<longrightarrow> map_of (st_pins (dr_store st')) j = map_of (st_pins (dr_store st)) j"
    "map_of (st_pins (dr_store st')) i \<in> {None, map_of (st_pins (dr_store st)) i}"
    using fin i us ne by (auto simp: drained_finish_def release_pin_def Let_def simp del: map_of_eq_Some_iff map_of_eq_None_iff split: if_splits)
  moreover have "flight_held cfg st' fl" if "fl \<in> set fls" for fl
  proof (rule held_frame [of cfg st])
    show "flight_held cfg st fl" using inv that by (simp add: drained_inv_def)
    have "flight_id fl \<noteq> i" using inv i that by (auto simp: drained_inv_def)
    then show "map_option pin_key (pins (dr_drain st') (flight_id fl)) = map_option pin_key (pins (dr_drain st) (flight_id fl))"
      "map_of (st_pins (dr_store st')) (flight_id fl) = map_of (st_pins (dr_store st)) (flight_id fl)"
      using st' by simp_all
  qed
  moreover have "map_of (st_pins (dr_store st')) j \<in> {None, base j}" if "dg_pinning cfg \<longrightarrow> j \<notin> set (map flight_id fls)" for j
  proof -
    have "map_of (st_pins (dr_store st)) j \<in> {None, base j}" using inv that by (simp add: drained_inv_def)
    with st'(3,4) show ?thesis by (cases "j = i") auto
  qed
  ultimately show ?thesis using inv by (simp add: drained_inv_def)
qed

text \<open>What taking the pins of one more execution establishes.\<close>

definition admitted_live :: "drained_config \<Rightarrow> drained_state \<Rightarrow> execution_binding \<Rightarrow> bool" where
  "admitted_live cfg st b \<longleftrightarrow>
     (dg_pinning cfg \<longrightarrow> us_active (read_state (dr_store st) (eb_coordinate b)) = Some (eb_revision b)) \<and>
     (\<exists>c r. drain_identifier (eb_coordinate b) = Inr c \<and> drain_identifier (eb_revision b) = Inr r \<and>
        coords (dr_drain st) c = Some ACCEPTING \<and> revs (dr_drain st) (c, r) = Some ACCEPTING)"

lemma flight_start:
  assumes inv: "drained_inv cfg base st fls" and i: "i \<notin> dr_active st" "\<forall>q. drain_identifier i = Inr q \<longrightarrow> q = i"
    and us: "revision_pin_of cfg (dr_store st) b i = (Inr pin, us)"
      "pn_revision pin = eb_revision b"
    and dc: "drain_admit (dr_drain st) (eb_coordinate b) (eb_revision b) i (eb_cancellable b) = (Inr p, dc)"
  shows "admitted_live cfg st b" "ap_id p = i"
    "drained_inv cfg base (st\<lparr>dr_service := sv, dr_drain := dc, dr_store := us, dr_active := insert i (dr_active st)\<rparr>)
       (fls @ [\<lparr>fl_pending = q, fl_binding = b, fl_pins = \<lparr>xp_id = i, xp_store = dg_pinning cfg, xp_drain = Some i\<rparr>\<rparr>])"
proof -
  let ?fl = "\<lparr>fl_pending = q, fl_binding = b, fl_pins = \<lparr>xp_id = i, xp_store = dg_pinning cfg, xp_drain = Some i\<rparr>\<rparr>"
  let ?st = "st\<lparr>dr_service := sv, dr_drain := dc, dr_store := us, dr_active := insert i (dr_active st)\<rparr>"
  have both: "(dg_pinning cfg \<longrightarrow> us_active (read_state (dr_store st) (eb_coordinate b)) = Some (eb_revision b) \<and>
      map_of (st_pins us) i = Some \<lparr>pn_coordinate = eb_coordinate b, pn_revision = eb_revision b\<rparr>) \<and>
    (\<forall>j. j \<noteq> i \<longrightarrow> map_of (st_pins us) j = map_of (st_pins (dr_store st)) j)"
  proof (cases "dg_pinning cfg")
    case True
    with us(1) have "pin_active (dr_store st) (eb_coordinate b) i = (Inr pin, us)" by (simp add: revision_pin_of_def)
    note a = pin_active_Inr [OF this]
    then have "pin = \<lparr>pn_coordinate = eb_coordinate b, pn_revision = eb_revision b\<rparr>" using us(2) by (cases pin) simp
    with a us(2) show ?thesis by (simp del: map_of_eq_Some_iff)
  qed (use us in \<open>simp add: revision_pin_of_def\<close>)
  then have store: "dg_pinning cfg \<longrightarrow> us_active (read_state (dr_store st) (eb_coordinate b)) = Some (eb_revision b) \<and>
      map_of (st_pins us) i = Some \<lparr>pn_coordinate = eb_coordinate b, pn_revision = eb_revision b\<rparr>"
    and others: "\<forall>j. j \<noteq> i \<longrightarrow> map_of (st_pins us) j = map_of (st_pins (dr_store st)) j" by blast+
  have free: "pins (dr_drain st) i = None" using inv i(1) by (auto simp: drained_inv_def domIff)
  obtain c r where live: "drain_identifier (eb_coordinate b) = Inr c" "drain_identifier (eb_revision b) = Inr r"
      "drain_identifier i = Inr i" "ap_id p = i" "pin_key p = (c, r)" "coords (dr_drain st) c = Some ACCEPTING"
      "revs (dr_drain st) (c, r) = Some ACCEPTING" "pins dc = (pins (dr_drain st))(i \<mapsto> p)"
  proof (rule drain_admit_Inr [OF dc])
    fix c r
    assume a: "drain_identifier (eb_coordinate b) = Inr c" "drain_identifier (eb_revision b) = Inr r"
      "drain_identifier i = Inr (ap_id p)" "pin_key p = (c, r)" "coords (dr_drain st) c = Some ACCEPTING"
      "revs (dr_drain st) (c, r) = Some ACCEPTING" "pins dc = (pins (dr_drain st))(ap_id p \<mapsto> p)"
    then have "ap_id p = i" using i(2) by blast
    with a show thesis by (intro that) simp_all
  next
    fix c r q
    assume "drain_identifier i = Inr q" "pins (dr_drain st) q = Some p"
    with i(2) free show thesis by force
  qed
  show "ap_id p = i" by (fact live)
  show "admitted_live cfg st b" using store live by (auto simp: admitted_live_def)
  have "flight_held cfg ?st ?fl"
    using store live by (auto simp: flight_held_def Let_def simp del: map_of_eq_Some_iff)
  moreover have "flight_held cfg ?st fl" if "fl \<in> set fls" for fl
  proof (rule held_frame [of cfg st])
    show "flight_held cfg st fl" using inv that by (simp add: drained_inv_def)
    have "flight_id fl \<noteq> i" using inv i that by (auto simp: drained_inv_def)
    then show "map_option pin_key (pins (dr_drain ?st) (flight_id fl)) = map_option pin_key (pins (dr_drain st) (flight_id fl))"
      "map_of (st_pins (dr_store ?st)) (flight_id fl) = map_of (st_pins (dr_store st)) (flight_id fl)"
      using live others by simp_all
  qed
  moreover have "drain_inv dc" "unretired dc"
    using inv drain_admit_good [of "dr_drain st" "eb_coordinate b" "eb_revision b" i "eb_cancellable b"]
      unretired_admit [of "dr_drain st" "eb_coordinate b" "eb_revision b" i "eb_cancellable b"]
    by (simp_all add: drained_inv_def drain_good_def dc)
  moreover have "map_of (st_pins us) j \<in> {None, base j}" if "dg_pinning cfg \<longrightarrow> j \<notin> set (map flight_id (fls @ [?fl]))" for j
  proof -
    have "map_of (st_pins (dr_store st)) j \<in> {None, base j}" using inv that by (simp add: drained_inv_def)
    moreover have "map_of (st_pins us) j = map_of (st_pins (dr_store st)) j"
      using that others us(1) by (cases "dg_pinning cfg") (auto simp: revision_pin_of_def)
    ultimately show ?thesis by simp
  qed
  ultimately show "drained_inv cfg base ?st (fls @ [?fl])"
    using inv i(1) live by (auto simp: drained_inv_def simp del: map_of_eq_Some_iff map_of_eq_None_iff)
qed

lemma drained_admit_effect:
  assumes inv: "drained_inv cfg base st fls" and clean: "clean_ids cfg"
    and eq: "drained_admit cfg st now fresh later ctx budget request mx = (res, st')"
  shows "case res of
      Drained_Answered r \<Rightarrow> drained_inv cfg base st' fls
    | Drained_Invoking fl \<Rightarrow> drained_inv cfg base st' (fls @ [fl]) \<and>
        resolve_binding cfg now ctx request = Inr (fl_binding fl) \<and> admitted_live cfg st (fl_binding fl) \<and>
        flight_id fl \<notin> dr_active st \<and>
        execute_admit (dg_service cfg) (dr_service st) now fresh later ctx budget request mx = (Invoking (fl_pending fl), dr_service st')"
proof (cases "\<exists>b i. resolve_binding cfg now ctx request = Inr b \<and> op_name (eb_operation b) = rq_operation request \<and>
    dg_pin_id cfg request b = Inr (Some i) \<and> i \<noteq> [] \<and> i \<notin> dr_active st")
  case False
  with eq have "(\<exists>r. res = Drained_Answered r) \<and> st' = st"
    by (auto simp: drained_admit_def Let_def split: sum.splits option.splits if_splits)
  with inv show ?thesis by auto
next
  case True
  then obtain b i where b: "resolve_binding cfg now ctx request = Inr b" "op_name (eb_operation b) = rq_operation request"
    "dg_pin_id cfg request b = Inr (Some i)" "i \<noteq> []" and i: "i \<notin> dr_active st" by blast
  have ci: "\<forall>q. drain_identifier i = Inr q \<longrightarrow> q = i" using clean b(3) by (simp add: clean_ids_def)
  let ?st1 = "st\<lparr>dr_active := insert i (dr_active st)\<rparr>"
  let ?pin = "revision_pin_of cfg (dr_store st) b i"
  have unheld: "case res of Drained_Answered r \<Rightarrow> drained_inv cfg base st' fls | Drained_Invoking fl \<Rightarrow> P fl"
    if "(res, st') = drained_answer (?st1\<lparr>dr_store := us\<rparr>) \<lparr>xp_id = i, xp_store = s, xp_drain = None\<rparr> r"
      "\<forall>j. j \<noteq> i \<or> \<not> s \<longrightarrow> map_of (st_pins us) j = map_of (st_pins (dr_store st)) j" for us s r P
    using that(1) finish_unheld [OF inv i that(2) b(4) prod.collapse [symmetric]] by (simp add: drained_answer_def)
  have body: "(res, st') = drained_try cfg ?st1 b i now fresh later ctx budget request mx"
    unfolding eq [symmetric] drained_admit_def using b i by simp
  show ?thesis
  proof (cases ?pin)
    case (Pair pr us)
    have others: "\<forall>j. j \<noteq> i \<or> \<not> dg_pinning cfg \<longrightarrow> map_of (st_pins us) j = map_of (st_pins (dr_store st)) j"
    proof (cases "dg_pinning cfg")
      case True
      with Pair have p: "pin_active (dr_store st) (eb_coordinate b) i = (pr, us)" by (simp add: revision_pin_of_def)
      show ?thesis
      proof (cases pr)
        case (Inl e)
        with p pin_active_Inl show ?thesis by blast
      next
        case (Inr pin)
        from pin_active_Inr [OF p [unfolded Inr]] True show ?thesis by blast
      qed
    qed (use Pair in \<open>simp add: revision_pin_of_def\<close>)
    show ?thesis
    proof (cases pr)
      case (Inl e)
      then have "\<forall>j. map_of (st_pins us) j = map_of (st_pins (dr_store st)) j"
        using Pair by (auto simp: revision_pin_of_def split: if_splits dest!: pin_active_Inl)
      with Inl body Pair show ?thesis by (intro unheld [where s = False]) (auto simp: drained_try_def)
    next
      case (Inr pin)
      note p1 = Pair [unfolded Inr]
      show ?thesis
      proof (cases "pn_revision pin = eb_revision b")
        case False
        with body p1 show ?thesis by (intro unheld [OF _ others]) (auto simp: drained_try_def)
      next
        case True
        obtain ar dc where ar: "drain_admit (dr_drain st) (eb_coordinate b) (eb_revision b) i (eb_cancellable b) = (ar, dc)"
          by (cases "drain_admit (dr_drain st) (eb_coordinate b) (eb_revision b) i (eb_cancellable b)")
        show ?thesis
        proof (cases ar)
          case (Inl e)
          with ar drain_admit_Inl have "dc = dr_drain st" by blast
          with body p1 True ar Inl show ?thesis by (intro unheld [of us "dg_pinning cfg" "Inl e", OF _ others]) (auto simp: drained_try_def)
        next
          case (Inr p)
          note start = flight_start [OF inv i ci p1 True ar [unfolded Inr]]
          obtain ad sv where ad: "execute_admit (dg_service cfg) (dr_service st) now fresh later ctx budget request mx = (ad, sv)"
            by (cases "execute_admit (dg_service cfg) (dr_service st) now fresh later ctx budget request mx")
          let ?fl = "\<lambda>q. \<lparr>fl_pending = q, fl_binding = b, fl_pins = \<lparr>xp_id = i, xp_store = dg_pinning cfg, xp_drain = Some i\<rparr>\<rparr>"
          let ?st2 = "st\<lparr>dr_service := sv, dr_drain := dc, dr_store := us, dr_active := insert i (dr_active st)\<rparr>"
          have upd: "st\<lparr>dr_active := insert i (dr_active st), dr_service := sv, dr_drain := dc, dr_store := us\<rparr> = ?st2" by simp
          show ?thesis
          proof (cases ad)
            case (Invoking q)
            have "(res, st') = (Drained_Invoking (?fl q), ?st2)"
              unfolding body by (simp add: drained_try_def p1 True ar Inr ad Invoking start(2))
            then have "res = Drained_Invoking (?fl q)" "st' = ?st2" by simp_all
            with start(1) start(3) [of sv q] b(1) i ad Invoking show ?thesis by simp
          next
            case (Answered r)
            have held: "drained_inv cfg base ?st2 (fls @ [?fl undefined])" by (rule start(3))
            have "i \<notin> flight_id ` set fls" using inv i by (simp add: drained_inv_def)
            then have "?fl undefined \<notin> set fls" by force
            then have gone: "remove1 (?fl undefined) (fls @ [?fl undefined]) = fls" by (simp add: remove1_append)
            have "(res, st') = drained_answer ?st2 (fl_pins (?fl undefined)) r"
              unfolding body by (simp add: drained_try_def p1 True ar Inr ad Answered start(2) upd)
            then have "\<exists>r'. res = Drained_Answered r'" "st' = snd (drained_finish ?st2 (fl_pins (?fl undefined)) r)"
              by (simp_all add: drained_answer_def)
            with finish_held(2) [OF held, of "?fl undefined" r] gone show ?thesis by auto
          qed
        qed
      qed
    qed
  qed
qed

lemma drained_inv_frame:
  assumes "drained_inv cfg base st fls" "drain_inv (dr_drain st')" "unretired (dr_drain st')" "dr_active st' = dr_active st"
    "\<And>p. map_option pin_key (pins (dr_drain st') p) = map_option pin_key (pins (dr_drain st) p)"
    "map_of (st_pins (dr_store st')) = map_of (st_pins (dr_store st))"
  shows "drained_inv cfg base st' fls"
proof -
  have "pins (dr_drain st') p = None \<longleftrightarrow> pins (dr_drain st) p = None" for p
    using assms(5) [of p] by (metis map_option_is_None)
  then have "dom (pins (dr_drain st')) = dom (pins (dr_drain st))" by (simp add: dom_def)
  moreover have "flight_held cfg st' fl" if "fl \<in> set fls" for fl
    by (rule held_frame [of cfg st]) (use assms that in \<open>simp_all add: drained_inv_def\<close>)
  ultimately show ?thesis using assms(1-4,6) by (simp add: drained_inv_def)
qed

record drained_system =
  ds_state :: drained_state
  ds_flights :: "drained_flight list"

definition drained_init :: "drained_system \<Rightarrow> bool" where
  "drained_init s \<longleftrightarrow> drain_init (dr_drain (ds_state s)) \<and> dr_active (ds_state s) = {} \<and> ds_flights s = []"

text \<open>
  Executions begin and end; between them revisions are registered and drained, updates are staged,
  checked, activated and rolled back, and the service answers any other call.
\<close>

inductive drained_step :: "drained_config \<Rightarrow> drained_system \<Rightarrow> drained_system \<Rightarrow> bool" for cfg where
  drained_answered: "drained_admit cfg (ds_state s) now fresh later ctx budget request mx = (Drained_Answered r, st) \<Longrightarrow>
    drained_step cfg s (s\<lparr>ds_state := st\<rparr>)"
| drained_invoking: "drained_admit cfg (ds_state s) now fresh later ctx budget request mx = (Drained_Invoking fl, st) \<Longrightarrow>
    drained_step cfg s (s\<lparr>ds_state := st, ds_flights := ds_flights s @ [fl]\<rparr>)"
| drained_settled: "fl \<in> set (ds_flights s) \<Longrightarrow>
    drained_step cfg s (s\<lparr>ds_state := snd (drained_settle cfg (ds_state s) now fl outcome), ds_flights := remove1 fl (ds_flights s)\<rparr>)"
| drained_registers: "drained_step cfg s (s\<lparr>ds_state := (ds_state s)\<lparr>dr_drain := snd (drain_register (dr_drain (ds_state s)) coordinate revision)\<rparr>\<rparr>)"
| drained_begins: "drained_step cfg s (s\<lparr>ds_state := snd (drained_begin (ds_state s) coordinate revision reason)\<rparr>)"
| drained_advances: "drained_step cfg s (s\<lparr>ds_state := snd (drained_advance (ds_state s) cancel coordinate target deadline now clock)\<rparr>)"
| drained_updates: "st_pins us = st_pins (dr_store (ds_state s)) \<Longrightarrow>
    drained_step cfg s (s\<lparr>ds_state := (ds_state s)\<lparr>dr_store := us\<rparr>\<rparr>)"
| drained_serves: "drained_step cfg s (s\<lparr>ds_state := (ds_state s)\<lparr>dr_service := sv\<rparr>\<rparr>)"

lemma advance_state: "snd (drained_advance st cancel c r deadline now clock) =
    st\<lparr>dr_drain := snd (drain_advance (dr_drain st) c r deadline now clock)\<rparr>"
  by (simp add: drained_advance_def Let_def case_prod_beta split: sum.split)

lemma begin_state: "snd (drained_begin st c r reason) = st\<lparr>dr_drain := snd (begin_drain (dr_drain st) c (Some r) reason)\<rparr>"
  by (simp add: drained_begin_def case_prod_beta)

lemma settle_state: "snd (drained_settle cfg st now fl outcome) =
    snd (drained_finish (st\<lparr>dr_service := snd (execute_settle (dg_service cfg) (dr_service st) now (fl_pending fl) outcome)\<rparr>)
      (fl_pins fl) (fst (execute_settle (dg_service cfg) (dr_service st) now (fl_pending fl) outcome)))"
  by (simp add: drained_settle_def case_prod_beta)

lemma drained_inv_service: "drained_inv cfg base st fls \<Longrightarrow> drained_inv cfg base (st\<lparr>dr_service := sv\<rparr>) fls"
  by (rule drained_inv_frame [of cfg base st]) (simp_all add: drained_inv_def)

lemma drained_step_inv:
  assumes "drained_step cfg s s'" "drained_inv cfg base (ds_state s) (ds_flights s)" "clean_ids cfg"
  shows "drained_inv cfg base (ds_state s') (ds_flights s')"
  using assms(1,2)
proof (cases rule: drained_step.cases)
  case (drained_answered now fresh later ctx budget request mx r st)
  with drained_admit_effect [OF assms(2,3) drained_answered(2)] show ?thesis by simp
next
  case (drained_invoking now fresh later ctx budget request mx fl st)
  with drained_admit_effect [OF assms(2,3) drained_invoking(2)] show ?thesis by simp
next
  case (drained_settled fl now outcome)
  with finish_held(2) [OF drained_inv_service [OF assms(2)] drained_settled(2)] show ?thesis by (simp add: settle_state)
next
  case (drained_registers coordinate revision)
  let ?dc = "dr_drain (ds_state s)"
  have "drain_inv (snd (drain_register ?dc coordinate revision))" "unretired (snd (drain_register ?dc coordinate revision))"
    "pins (snd (drain_register ?dc coordinate revision)) = pins ?dc"
    using assms(2) drain_register_good [of ?dc coordinate revision] unretired_register [of ?dc coordinate revision]
    by (simp_all add: drained_inv_def drain_good_def)
  with drained_registers show ?thesis
    by (simp add: drained_inv_frame [OF assms(2)])
next
  case (drained_begins coordinate revision reason)
  let ?dc = "dr_drain (ds_state s)"
  have "drain_inv (snd (begin_drain ?dc coordinate (Some revision) reason))" "unretired (snd (begin_drain ?dc coordinate (Some revision) reason))"
    "pins (snd (begin_drain ?dc coordinate (Some revision) reason)) = pins ?dc"
    using assms(2) begin_drain_good [of ?dc coordinate "Some revision" reason] unretired_begin [of ?dc coordinate revision reason]
    by (simp_all add: drained_inv_def drain_good_def)
  with drained_begins show ?thesis
    by (simp add: drained_inv_frame [OF assms(2)] begin_state)
next
  case (drained_advances cancel coordinate target deadline now clock)
  let ?dc = "dr_drain (ds_state s)"
  have "drain_inv (snd (drain_advance ?dc coordinate target deadline now clock))"
    "unretired (snd (drain_advance ?dc coordinate target deadline now clock))"
    "\<And>p. map_option pin_key (pins (snd (drain_advance ?dc coordinate target deadline now clock)) p) = map_option pin_key (pins ?dc p)"
    using assms(2) drain_advance_good [of ?dc coordinate target deadline now clock]
      unretired_advance [of ?dc coordinate target deadline now clock]
    by (simp_all add: drained_inv_def drain_good_def)
  with drained_advances show ?thesis
    by (simp add: drained_inv_frame [OF assms(2)] advance_state)
next
  case (drained_updates us)
  have "drained_inv cfg base ((ds_state s)\<lparr>dr_store := us\<rparr>) (ds_flights s)"
    by (rule drained_inv_frame [OF assms(2)]) (use assms(2) drained_updates(2) in \<open>simp_all add: drained_inv_def\<close>)
  with drained_updates show ?thesis by simp
next
  case (drained_serves sv)
  with drained_inv_service [OF assms(2)] show ?thesis by simp
qed

lemma drained_init_inv:
  assumes s: "drained_init s"
  shows "drained_inv cfg (map_of (st_pins (dr_store (ds_state s)))) (ds_state s) (ds_flights s)"
proof -
  from s
  obtain a b c d where "new_controller a b c d = Inr (dr_drain (ds_state s))"
    by (auto simp: drained_init_def drain_init_def)
  then have "dc_pins (dr_drain (ds_state s)) = []"
    by (cases "dr_drain (ds_state s)") (auto simp: new_controller_def split: if_splits)
  with s drain_init_inv show ?thesis by (simp add: drained_init_def drained_inv_def unretired_def)
qed

interpretation drained: step_system "\<lambda>s. drained_init s \<and> map_of (st_pins (dr_store (ds_state s))) = base" "drained_step cfg"
    "\<lambda>s. clean_ids cfg \<longrightarrow> drained_inv cfg base (ds_state s) (ds_flights s)" for cfg base
  by unfold_locales (auto intro: drained_init_inv drained_step_inv)

lemma drained_run_inv:
  assumes "drained_init s0" "(drained_step cfg)\<^sup>*\<^sup>* s0 s" "clean_ids cfg"
  shows "drained_inv cfg (map_of (st_pins (dr_store (ds_state s0)))) (ds_state s) (ds_flights s)"
  using drained.run_inv [of cfg "map_of (st_pins (dr_store (ds_state s0)))" s0 s] drained_init_inv [OF assms(1), of cfg] assms by blast

lemma invoking_target:
  "execute_admit cfg st now fresh later ctx i request mx = (Invoking p, sv) \<Longrightarrow>
     \<exists>limit. execute_target cfg now ctx request mx = Inr (pe_manifest p, limit)"
  by (auto simp: execute_admit_def execute_failed_def Let_def split: sum.splits prod.splits option.splits)

lemma resolved_manifest:
  assumes "resolve_binding cfg now ctx request = Inr b" "execute_target (dg_service cfg) now ctx request mx = Inr (m, limit)"
  shows "eb_coordinate b = manifest_coordinate m" "eb_revision b = manifest_revision m"
  using assms
  by (auto simp: resolve_binding_def execute_target_def service_manifest_def make_binding_def rbind_eq_Inr
      split: option.splits sum.splits exn.splits if_splits)

section \<open>Properties\<close>

text \<open>
  C5. The pins are the executions in flight. From a system without executions, over any interleaving
  of executions, updates and drains, with pin identifiers the controller does not change: the
  identifiers of the executions in flight are distinct, they are the active identifiers and the pinned
  identifiers of the drain controller; the revision of each is accepting or draining there, never
  retired, and, when the revision callbacks are supplied, is the one the revision store has pinned for
  it; and every other pin in the revision store was there at the start.
\<close>

theorem pins_are_executions:
  assumes "drained_init s0" "(drained_step cfg)\<^sup>*\<^sup>* s0 s" "clean_ids cfg"
  shows "distinct (map flight_id (ds_flights s)) \<and>
    dr_active (ds_state s) = set (map flight_id (ds_flights s)) \<and>
    dom (pins (dr_drain (ds_state s))) = set (map flight_id (ds_flights s)) \<and>
    (\<forall>fl \<in> set (ds_flights s). \<exists>c r.
       drain_identifier (eb_coordinate (fl_binding fl)) = Inr c \<and> drain_identifier (eb_revision (fl_binding fl)) = Inr r \<and>
       revs (dr_drain (ds_state s)) (c, r) \<in> {Some ACCEPTING, Some DRAINING} \<and>
       (dg_pinning cfg \<longrightarrow> map_of (st_pins (dr_store (ds_state s))) (flight_id fl) =
          Some \<lparr>pn_coordinate = eb_coordinate (fl_binding fl), pn_revision = eb_revision (fl_binding fl)\<rparr>)) \<and>
    (\<forall>i. i \<notin> set (map flight_id (ds_flights s)) \<longrightarrow>
       map_of (st_pins (dr_store (ds_state s))) i \<in> {None, map_of (st_pins (dr_store (ds_state s0))) i})"
proof -
  let ?dc = "dr_drain (ds_state s)"
  have inv: "drained_inv cfg (map_of (st_pins (dr_store (ds_state s0)))) (ds_state s) (ds_flights s)"
    using assms by (rule drained_run_inv)
  have "\<exists>c r. drain_identifier (eb_coordinate (fl_binding fl)) = Inr c \<and> drain_identifier (eb_revision (fl_binding fl)) = Inr r \<and>
       revs ?dc (c, r) \<in> {Some ACCEPTING, Some DRAINING} \<and>
       (dg_pinning cfg \<longrightarrow> map_of (st_pins (dr_store (ds_state s))) (flight_id fl) =
          Some \<lparr>pn_coordinate = eb_coordinate (fl_binding fl), pn_revision = eb_revision (fl_binding fl)\<rparr>)"
    if fl: "fl \<in> set (ds_flights s)" for fl
  proof -
    from inv fl have fh: "flight_held cfg (ds_state s) fl" by (simp add: drained_inv_def)
    then obtain pin c r where pin: "pins ?dc (flight_id fl) = Some pin" "drain_identifier (eb_coordinate (fl_binding fl)) = Inr c"
      "drain_identifier (eb_revision (fl_binding fl)) = Inr r" "pin_key pin = (c, r)"
      by (auto simp: flight_held_def Let_def)
    have core: "drain_core (coords ?dc) (revs ?dc) (pins ?dc)" and un: "unretired ?dc"
      using inv by (simp_all add: drained_inv_def drain_inv_def)
    have "revs ?dc (c, r) \<noteq> None" using pin_has_revision(2) [OF core pin(1)] pin(4) by simp
    moreover have "revs ?dc (c, r) \<noteq> Some RETIRED" using un pin(1,4) unfolding unretired_def by metis
    ultimately have "revs ?dc (c, r) \<in> {Some ACCEPTING, Some DRAINING}"
      by (cases "the (revs ?dc (c, r))") auto
    moreover have "dg_pinning cfg \<longrightarrow> map_of (st_pins (dr_store (ds_state s))) (flight_id fl) =
        Some \<lparr>pn_coordinate = eb_coordinate (fl_binding fl), pn_revision = eb_revision (fl_binding fl)\<rparr>"
      using fh unfolding flight_held_def Let_def by blast
    ultimately show ?thesis using pin(2,3) by blast
  qed
  with inv show ?thesis by (simp add: drained_inv_def)
qed

text \<open>
  C19. An execution is admitted only for the live revision its reference names: when the wrapper asks
  for the provider, in any state reached from a system without executions by any interleaving of
  executions, updates and drains, with pin identifiers the controller does not change, then the
  execution reference verifies for the caller's scope and names the revision of the capability that is
  asked; the drain controller accepts its coordinate and its revision; and, when the revision
  callbacks are supplied, the revision store has the revision active.
\<close>

theorem admitted_revision_live:
  assumes "drained_init s0" "(drained_step cfg)\<^sup>*\<^sup>* s0 s" "clean_ids cfg"
    "drained_admit cfg (ds_state s) now fresh later ctx i request mx = (Drained_Invoking fl, st)"
  shows "\<exists>claims c r. verify_reference (sc_key (dg_service cfg)) (rq_execution_ref request)
      (reference_scope (sc_floats (dg_service cfg)) ctx) None ''execution'' now = Inr claims \<and>
    find_revision (sc_registry (dg_service cfg)) (cl_revision claims) = Inr (pe_manifest (fl_pending fl)) \<and>
    drain_identifier (manifest_coordinate (pe_manifest (fl_pending fl))) = Inr c \<and>
    drain_identifier (manifest_revision (pe_manifest (fl_pending fl))) = Inr r \<and>
    coords (dr_drain (ds_state s)) c = Some ACCEPTING \<and> revs (dr_drain (ds_state s)) (c, r) = Some ACCEPTING \<and>
    (dg_pinning cfg \<longrightarrow> us_active (read_state (dr_store (ds_state s)) (manifest_coordinate (pe_manifest (fl_pending fl)))) =
       Some (manifest_revision (pe_manifest (fl_pending fl))))"
proof -
  note inv = drained_run_inv [OF assms(1-3)]
  from drained_admit_effect [OF inv assms(3,4)] have fl: "resolve_binding cfg now ctx request = Inr (fl_binding fl)"
    "admitted_live cfg (ds_state s) (fl_binding fl)"
    "execute_admit (dg_service cfg) (dr_service (ds_state s)) now fresh later ctx i request mx = (Invoking (fl_pending fl), dr_service st)"
    by simp_all
  from invoking_target [OF fl(3)] obtain limit where t: "execute_target (dg_service cfg) now ctx request mx = Inr (pe_manifest (fl_pending fl), limit)"
    by blast
  note m = resolved_manifest [OF fl(1) t]
  from t obtain claims where c: "verify_reference (sc_key (dg_service cfg)) (rq_execution_ref request)
      (reference_scope (sc_floats (dg_service cfg)) ctx) None ''execution'' now = Inr claims"
    "service_manifest (dg_service cfg) (cl_revision claims) = Inr (pe_manifest (fl_pending fl))"
    by (auto simp: execute_target_def rbind_eq_Inr)
  then have "find_revision (sc_registry (dg_service cfg)) (cl_revision claims) = Inr (pe_manifest (fl_pending fl))"
    by (auto simp: service_manifest_def simp del: map_of_eq_Some_iff split: sum.splits if_splits)
  with c(1) fl(2) show ?thesis unfolding admitted_live_def m by blast
qed

section \<open>Long references\<close>

lemma strip_solid: "s \<noteq> [] \<Longrightarrow> \<not> is_space (hd s) \<Longrightarrow> \<not> is_space (last s) \<Longrightarrow> strip s = s"
proof -
  assume s: "s \<noteq> []" "\<not> is_space (hd s)" "\<not> is_space (last s)"
  have keep: "dropWhile is_space t = t" if "t \<noteq> []" "\<not> is_space (hd t)" for t
    using that by (cases t) simp_all
  have "dropWhile is_space (rev s) = rev s" using s by (intro keep) (simp_all add: hd_rev)
  with s show "strip s = s" by (simp add: strip_def keep)
qed

lemma b64_char_solid: "n < 64 \<Longrightarrow> \<not> is_space (b64_char n)"
proof -
  assume "n < 64"
  then consider "n < 26" | "26 \<le> n" "n < 52" | "52 \<le> n" "n < 62" | "n = 62" | "n = 63" by linarith
  then show ?thesis by cases (auto simp: b64_char_def is_space_def Let_def)
qed

lemma b64_last_solid: "list_all (\<lambda>b. b < 256) bs \<Longrightarrow> bs \<noteq> [] \<Longrightarrow> \<not> is_space (last (b64_encode bs)) \<and> b64_encode bs \<noteq> []"
proof (induction bs rule: b64_encode.induct)
  case (1 a b c r)
  then have "c mod 64 < 64" by simp
  with 1 show ?case by (cases "r = []") (auto simp: b64_char_solid)
next
  case (2 a b)
  then have "b mod 16 * 4 < 64" by auto
  then show ?case by (simp add: b64_char_solid)
next
  case (3 a)
  then have "a mod 4 * 16 < 64" by auto
  then show ?case by (simp add: b64_char_solid)
qed simp

lemma b64_encode_longer: "length bs \<le> length (b64_encode bs)"
  by (induction bs rule: b64_encode.induct) simp_all

lemma reference_solid:
  assumes "issue_reference key revision scope ttl purpose now = Inr r"
  shows "strip r = r"
proof -
  obtain encoded m where r: "r = ''chref1.'' @ encoded @ ''.'' @ b64_encode (hmac_bytes key m)"
    using assms by (rule issue_cases) blast
  have "\<not> is_space (last r)"
  proof (cases "hmac_bytes key m = []")
    case True
    then show ?thesis by (simp add: r is_space_def)
  next
    case False
    with b64_last_solid [OF hmac_bytes_bytes] show ?thesis by (simp add: r)
  qed
  then show ?thesis by (intro strip_solid) (simp_all add: r is_space_def)
qed

lemma long_reference: "strip r = r \<Longrightarrow> 512 < length r \<Longrightarrow> drain_identifier r = Inl ValueError"
  by (auto simp: drain_identifier_def clean_text_def Let_def)

text \<open>
  C22. The runtime uses the execution reference as the identifier of the pin, and the controller
  takes identifiers of at most 512 characters: an execution whose reference is longer is never
  passed to the provider, it ends with an error whatever the state is.
\<close>

theorem long_reference_never_executes:
  assumes "\<forall>request b. dg_pin_id cfg request b = Inr (Some (rq_execution_ref request))"
    "issue_reference key revision scope ttl purpose issued = Inr (rq_execution_ref request)"
    "512 < length (rq_execution_ref request)"
  shows "\<exists>e. fst (drained_admit cfg st now fresh later ctx i request mx) = Drained_Answered (Inl e)"
proof -
  let ?r = "rq_execution_ref request"
  have "\<exists>e. fst (drain_admit dc c v ?r k) = Inl e" for dc c v k
    using long_reference [OF reference_solid [OF assms(2)] assms(3)]
    by (cases "drain_identifier c"; cases "drain_identifier v") (simp_all add: drain_admit_def)
  then have no_pin: "drain_admit dc c v ?r k \<noteq> (Inr p, dc')" for dc c v k p dc' by (metis fst_conv Inl_Inr_False)
  have answer: "\<exists>e. fst (drained_answer st x (Inl e')) = Drained_Answered (Inl e)" for st x e'
    by (auto simp: drained_answer_def drained_finish_def Let_def split: option.split sum.split prod.split)
  have "\<exists>e. fst (drained_try cfg st b ?r now fresh later ctx i request mx) = Drained_Answered (Inl e)" for st b
    using answer no_pin by (auto simp: drained_try_def split: sum.split prod.split)
  then show ?thesis
    using assms(1) by (auto simp: drained_admit_def split: sum.split)
qed

lemma comma_sep_length: "s \<in> set ss \<Longrightarrow> length s \<le> length (comma_sep ss)"
proof (induction ss)
  case (Cons t ss)
  then show ?case by (cases ss) auto
qed simp

lemma json_string_longer: "length s \<le> length (json_string a s)"
proof -
  have "length s \<le> length (concat (map (json_char a) s))"
  proof (induction s)
    case (Cons c s)
    have "1 \<le> length (json_char a c)" by (simp add: json_char_def json_unicode_def Let_def)
    with Cons show ?case by (simp del: length_greater_0_conv)
  qed simp
  then show ?thesis by (simp add: json_string_def)
qed

lemma utf8_longer: "length s \<le> length (utf8 s)"
  by (induction s) (simp_all add: utf8_def Let_def)

lemma dumps_member: "(k, PyStr s) \<in> set d \<Longrightarrow> length s \<le> length (json_dumps True a fr (PyDict d))"
proof -
  let ?e = "\<lambda>(k, v). json_string a k @ '':'' @ json_dumps True a fr v"
  assume "(k, PyStr s) \<in> set d"
  then have "?e (k, PyStr s) \<in> set (map ?e (sort_key fst d))" by force
  then have "length (?e (k, PyStr s)) \<le> length (comma_sep (map ?e (sort_key fst d)))" by (rule comma_sep_length)
  then show ?thesis using json_string_longer [of s a] unfolding dumps_dict by simp
qed

text \<open>A reference is longer than the scope it is issued for.\<close>

lemma reference_longer_than_scope:
  assumes "issue_reference key revision scope ttl purpose now = Inr r"
  shows "length scope \<le> length r"
proof -
  obtain n e m where e: "e = b64_encode (utf8 (json_dumps True False (\<lambda>_. []) (claims_payload (issued_claims revision scope n purpose now))))"
    and r: "r = ''chref1.'' @ e @ ''.'' @ b64_encode m"
    using assms by (rule issue_cases) blast
  have "length scope \<le> length (json_dumps True False (\<lambda>_. []) (claims_payload (issued_claims revision scope n purpose now)))"
    unfolding claims_payload_def by (rule dumps_member [where k = "''scope''"]) (simp add: issued_claims_def)
  also have "\<dots> \<le> length e" unfolding e using utf8_longer b64_encode_longer order_trans by blast
  finally show ?thesis by (simp add: r)
qed

definition example_wrapped :: "(execution_request \<Rightarrow> execution_binding \<Rightarrow> string option result) \<Rightarrow> drained_config" where
  "example_wrapped pin_id = \<lparr>dg_service = example_config, dg_cancellable = (\<lambda>_ _. Inr (Some True)),
     dg_pin_id = pin_id, dg_pinning = True\<rparr>"

lemma long_reference_never_executes_witness:
  "\<exists>r. issue_reference [1, 2, 3] ''x/tool@1.0.0#d'' (replicate 600 (CHR ''a'')) (PyInt 300) ''execution'' 1000 = Inr r \<and>
     (\<forall>st. \<exists>e. fst (drained_admit (example_wrapped (\<lambda>request b. Inr (Some (rq_execution_ref request)))) st 1000 ''u'' []
        example_context 0 (example_request r ''a'') None) = Drained_Answered (Inl e))"
proof -
  let ?scope = "replicate 600 (CHR ''a'')"
  obtain r where r: "issue_reference [1, 2, 3] ''x/tool@1.0.0#d'' ?scope (PyInt 300) ''execution'' 1000 = Inr r"
    using issue_ok [of "''x/tool@1.0.0#d''" ?scope "''execution''" 300] by auto
  have l: "512 < length r" using reference_longer_than_scope [OF r] by simp
  have "rq_execution_ref (example_request r ''a'') = r" by (simp add: example_request_def)
  then have "\<exists>e. fst (drained_admit (example_wrapped (\<lambda>request b. Inr (Some (rq_execution_ref request)))) st 1000 ''u'' []
        example_context 0 (example_request r ''a'') None) = Drained_Answered (Inl e)" for st
    using r l by (intro long_reference_never_executes) (simp_all add: example_wrapped_def)
  with r show ?thesis by blast
qed

definition example_registered :: drain_controller where
  "example_registered = snd (drain_register (projr (new_controller 10 10 10 5)) ''x/tool'' ''x/tool@1.0.0#d'')"

definition example_activated :: update_store where
  "example_activated = snd (bootstrap_active new_store ''x/tool'' ''x/tool@1.0.0#d'')"

lemma example_tool_ids [simp]: "drain_identifier ''x/tool'' = Inr ''x/tool''" "drain_identifier ''x/tool@1.0.0#d'' = Inr ''x/tool@1.0.0#d''"
  by code_simp+

lemma example_activated_eq: "example_activated = \<lparr>st_updates = [(''x/tool'', \<lparr>us_active = Some ''x/tool@1.0.0#d'',
    us_previous = None, us_staged = None, us_health = None\<rparr>)], st_pins = []\<rparr>"
  by code_simp

lemma example_registered_fields:
  "dc_coordinates example_registered = [(''x/tool'', ACCEPTING)]"
  "dc_revisions example_registered = [((''x/tool'', ''x/tool@1.0.0#d''), ACCEPTING)]"
  "dc_pins example_registered = []" "dc_max_in_flight example_registered = 10"
  by (simp_all add: example_registered_def new_example drain_register_def Let_def set_coordinate_def set_revision_def record_lifecycle_def)

lemma example_wrapped_fields:
  "dg_service (example_wrapped f) = example_config" "dg_pin_id (example_wrapped f) = f" "dg_pinning (example_wrapped f)"
  by (simp_all add: example_wrapped_def)

lemma example_wrapped_admit:
  obtains s fl st er ar where "drained_init s"
    "drained_admit (example_wrapped (\<lambda>_ _. Inr (Some ''p''))) ((ds_state s)\<lparr>dr_drain := example_registered\<rparr>) 1000 ''u'' [] example_context 0
       (example_request er ar) None = (Drained_Invoking fl, st)"
    "dr_drain (ds_state s) = projr (new_controller 10 10 10 5)" "pe_manifest (fl_pending fl) = example_capability"
    "flight_id fl = ''p''"
proof -
  let ?cfg = "example_wrapped (\<lambda>_ _. Inr (Some ''p''))"
  obtain s0 er ar p sv where admit: "execute_admit example_config s0 1000 ''u'' [] example_context 0 (example_request er ar) None = (Invoking p, sv)"
    and m: "pe_manifest p = example_capability"
    by (rule example_in_flight) blast
  let ?st = "\<lparr>dr_service = s0, dr_drain = example_registered, dr_store = example_activated, dr_active = {}\<rparr>"
  let ?s = "\<lparr>ds_state = ?st\<lparr>dr_drain := projr (new_controller 10 10 10 5)\<rparr>, ds_flights = []\<rparr>"
  from invoking_target [OF admit] m obtain limit where "execute_target example_config 1000 example_context (example_request er ar) None = Inr (example_capability, limit)"
    by auto
  then obtain claims where claims: "verify_reference [1, 2, 3] (rq_execution_ref (example_request er ar))
      (reference_scope (\<lambda>_. []) example_context) None ''execution'' 1000 = Inr claims"
    "service_manifest example_config (cl_revision claims) = Inr example_capability"
    by (auto simp: execute_target_def rbind_eq_Inr)
  have found: "find_revision example_catalog (cl_revision claims) = Inr example_capability"
    using claims(2) by (cases "find_revision example_catalog (cl_revision claims)")
      (auto simp: service_manifest_def example_config_def split: if_splits)
  have fields: "sc_registry example_config = example_catalog" "rq_operation (example_request er ar) = ''run''"
    "manifest_operation example_capability ''run'' = Some example_operation"
    "manifest_coordinate example_capability = ''x/tool''"
    by (simp_all add: example_config_def example_request_def manifest_operation_def example_capability_def example_manifest_def
        coordinate_of_def example_operation_def)
  let ?b = "\<lparr>eb_coordinate = ''x/tool'', eb_revision = ''x/tool@1.0.0#d'', eb_operation = example_operation, eb_cancellable = True\<rparr>"
  have b: "resolve_binding ?cfg 1000 example_context (example_request er ar) = Inr ?b"
    using claims(1) found fields by (simp add: resolve_binding_def example_wrapped_def make_binding_def)
  have pin: "\<exists>us. revision_pin_of ?cfg example_activated ?b ''p'' = (Inr \<lparr>pn_coordinate = ''x/tool'', pn_revision = ''x/tool@1.0.0#d''\<rparr>, us)"
    by (simp add: revision_pin_of_def example_wrapped_def pin_active_def require_text_def example_activated_eq read_state_def Let_def)
  then obtain us where us: "revision_pin_of ?cfg example_activated ?b ''p'' = (Inr \<lparr>pn_coordinate = ''x/tool'', pn_revision = ''x/tool@1.0.0#d''\<rparr>, us)"
    by blast
  obtain dc q where dc: "drain_admit example_registered ''x/tool'' ''x/tool@1.0.0#d'' ''p'' True = (Inr q, dc)"
    by (simp add: drain_admit_def example_registered_fields Let_def)
  have "\<exists>fl st. drained_admit ?cfg ?st 1000 ''u'' [] example_context 0 (example_request er ar) None = (Drained_Invoking fl, st) \<and>
      pe_manifest (fl_pending fl) = example_capability \<and> flight_id fl = ''p''"
    using m by (simp add: drained_admit_def drained_try_def b us dc admit fields example_wrapped_fields)
  then obtain fl st where "drained_admit ?cfg ?st 1000 ''u'' [] example_context 0 (example_request er ar) None = (Drained_Invoking fl, st)"
    "pe_manifest (fl_pending fl) = example_capability" "flight_id fl = ''p''" by blast
  moreover have "drained_init ?s"
    unfolding drained_init_def drain_init_def using new_example by force
  ultimately show thesis by (intro that [of ?s er ar fl st]) simp_all
qed

lemma example_wrapped_clean: "clean_ids (example_wrapped (\<lambda>_ _. Inr (Some ''p'')))"
  by (auto simp: clean_ids_def example_wrapped_def)

lemma example_wrapped_run:
  obtains s0 s fl st er ar where "drained_init s0" "(drained_step (example_wrapped (\<lambda>_ _. Inr (Some ''p''))))\<^sup>*\<^sup>* s0 s"
    "drained_admit (example_wrapped (\<lambda>_ _. Inr (Some ''p''))) (ds_state s) 1000 ''u'' [] example_context 0
       (example_request er ar) None = (Drained_Invoking fl, st)"
    "pe_manifest (fl_pending fl) = example_capability" "flight_id fl = ''p''"
    "(drained_step (example_wrapped (\<lambda>_ _. Inr (Some ''p''))))\<^sup>*\<^sup>* s0 (s\<lparr>ds_state := st, ds_flights := ds_flights s @ [fl]\<rparr>)"
proof -
  let ?cfg = "example_wrapped (\<lambda>_ _. Inr (Some ''p''))"
  obtain s fl st er ar where s: "drained_init s"
    "drained_admit ?cfg ((ds_state s)\<lparr>dr_drain := example_registered\<rparr>) 1000 ''u'' [] example_context 0
       (example_request er ar) None = (Drained_Invoking fl, st)"
    "dr_drain (ds_state s) = projr (new_controller 10 10 10 5)" "pe_manifest (fl_pending fl) = example_capability" "flight_id fl = ''p''"
    by (rule example_wrapped_admit)
  let ?s = "s\<lparr>ds_state := (ds_state s)\<lparr>dr_drain := example_registered\<rparr>\<rparr>"
  have "drained_step ?cfg s ?s"
    using drained_registers [of ?cfg s "''x/tool''" "''x/tool@1.0.0#d''"] by (simp add: s(3) example_registered_def)
  then have run: "(drained_step ?cfg)\<^sup>*\<^sup>* s ?s" by (rule r_into_rtranclp)
  have admit: "drained_admit ?cfg (ds_state ?s) 1000 ''u'' [] example_context 0 (example_request er ar) None =
      (Drained_Invoking fl, st)" using s(2) by simp
  then have "drained_step ?cfg ?s (?s\<lparr>ds_state := st, ds_flights := ds_flights ?s @ [fl]\<rparr>)" by (rule drained_invoking)
  with run have "(drained_step ?cfg)\<^sup>*\<^sup>* s (?s\<lparr>ds_state := st, ds_flights := ds_flights ?s @ [fl]\<rparr>)"
    by (rule rtranclp.rtrancl_into_rtrancl)
  with s(1) run admit s(4,5) show thesis by (rule that)
qed

lemma pins_are_executions_witness:
  "\<exists>s0 s. drained_init s0 \<and> (drained_step (example_wrapped (\<lambda>_ _. Inr (Some ''p''))))\<^sup>*\<^sup>* s0 s \<and> ds_flights s \<noteq> [] \<and>
     dom (pins (dr_drain (ds_state s))) = set (map flight_id (ds_flights s))"
proof -
  obtain s0 s fl st where s0: "drained_init s0"
    and run: "(drained_step (example_wrapped (\<lambda>_ _. Inr (Some ''p''))))\<^sup>*\<^sup>* s0 (s\<lparr>ds_state := st, ds_flights := ds_flights s @ [fl]\<rparr>)"
    by (rule example_wrapped_run)
  then obtain t where t: "(drained_step (example_wrapped (\<lambda>_ _. Inr (Some ''p''))))\<^sup>*\<^sup>* s0 t" "ds_flights t = ds_flights s @ [fl]"
    by force
  then have "ds_flights t \<noteq> []" by simp
  with pins_are_executions [OF s0 t(1) example_wrapped_clean] s0 t(1) show ?thesis by blast
qed

lemma admitted_revision_live_witness:
  "\<exists>s0 s fl st er ar. drained_init s0 \<and> (drained_step (example_wrapped (\<lambda>_ _. Inr (Some ''p''))))\<^sup>*\<^sup>* s0 s \<and>
     drained_admit (example_wrapped (\<lambda>_ _. Inr (Some ''p''))) (ds_state s) 1000 ''u'' [] example_context 0
       (example_request er ar) None = (Drained_Invoking fl, st) \<and>
     us_active (read_state (dr_store (ds_state s)) ''x/tool'') = Some ''x/tool@1.0.0#d''"
proof -
  obtain s0 s fl st er ar where s: "drained_init s0" "(drained_step (example_wrapped (\<lambda>_ _. Inr (Some ''p''))))\<^sup>*\<^sup>* s0 s"
    "drained_admit (example_wrapped (\<lambda>_ _. Inr (Some ''p''))) (ds_state s) 1000 ''u'' [] example_context 0
       (example_request er ar) None = (Drained_Invoking fl, st)" "pe_manifest (fl_pending fl) = example_capability"
    by (rule example_wrapped_run)
  have "dg_pinning (example_wrapped (\<lambda>_ _. Inr (Some ''p'')))" "manifest_coordinate example_capability = ''x/tool''"
    by (simp_all add: example_wrapped_def example_capability_def example_manifest_def coordinate_of_def)
  with admitted_revision_live [OF s(1,2) example_wrapped_clean s(3)]
  have "us_active (read_state (dr_store (ds_state s)) ''x/tool'') = Some ''x/tool@1.0.0#d''" by (auto simp: s(4))
  with s(1-3) show ?thesis by blast
qed

end
