(* ===== verification/Authorization.thy ===== *)
theory Authorization
  imports Admission
begin

text \<open>
  The deny-by-default parameter authorizer of \<open>authorization.py\<close>: constrained grants, their
  normalization, and the decision over a capability, its dependencies and the arguments of a call.
  What the operating system and the network libraries answer is a parameter: \<open>Path.resolve\<close> (the
  text of the resolved path, or the exception), \<open>ipaddress.ip_address\<close> and the \<open>idna\<close> codec.
\<close>

section \<open>Constraints\<close>

record permission_constraint =
  pc_roots :: "string list"
  pc_hosts :: "string set"
  pc_methods :: "string set"
  pc_commands :: "string set"
  pc_profiles :: "string set"
  pc_aliases :: "string set"

record authorization_decision =
  ad_allowed :: bool
  ad_reasons :: "string list"
  ad_required :: "string list"
  ad_effective :: "string list"

record host_env =
  he_resolve :: "string \<Rightarrow> string result"
  he_ip :: "string \<Rightarrow> string option"
  he_idna :: "string \<Rightarrow> string option"

datatype permission_category = Filesystem | Network | Process | Secret | Unconstrained

definition filesystem_permissions :: "string list" where
  "filesystem_permissions = [''filesystem'', ''filesystem.read'', ''filesystem.write'']"

definition network_permissions :: "string list" where
  "network_permissions = [''network'', ''network.http'']"

definition process_permissions :: "string list" where
  "process_permissions = [''process'', ''process.execute'']"

definition secret_permissions :: "string list" where
  "secret_permissions = [''secret'', ''secret.use'']"

definition supported_permissions :: "string list" where
  "supported_permissions =
     filesystem_permissions @ network_permissions @ process_permissions @ secret_permissions @ [''content.sensitive'']"

definition http_methods :: "string list" where
  "http_methods = [''GET'', ''HEAD'', ''POST'', ''PUT'', ''PATCH'', ''DELETE'', ''OPTIONS'']"

definition permission_category :: "string \<Rightarrow> permission_category" where
  "permission_category p =
     (if p \<in> set filesystem_permissions then Filesystem else if p \<in> set network_permissions then Network
      else if p \<in> set process_permissions then Process else if p \<in> set secret_permissions then Secret
      else Unconstrained)"

section \<open>Paths, hosts and names\<close>

text \<open>
  \<open>Path(s)\<close>: the slashes in front (exactly two are kept) and the parts; empty parts and
  \<open>.\<close> are dropped, \<open>..\<close> stays.
\<close>

definition path_anchor :: "string \<Rightarrow> string" where
  "path_anchor s = (let n = length (takeWhile (\<lambda>c. c = CHR ''/'') s) in
     if n = 0 then [] else if n = 2 then ''//'' else ''/'')"

definition path_parts :: "string \<Rightarrow> string list" where
  "path_parts s = filter (\<lambda>p. p \<noteq> [] \<and> p \<noteq> ''.'') (path_components [] s)"

definition relative_to :: "string \<Rightarrow> string \<Rightarrow> bool" where
  "relative_to p q \<longleftrightarrow> path_anchor p = path_anchor q \<and> take (length (path_parts q)) (path_parts p) = path_parts q"

definition check_root :: "host_env \<Rightarrow> string \<Rightarrow> string result" where
  "check_root env s = (if is_absolute s then he_resolve env s else Inl ValueError)"

text \<open>
  \<open>str.casefold\<close> and \<open>str.upper\<close>. The micro sign and \<open>y\<close> with diaeresis, whose images are no
  code points below 256, are kept: \<open>idna\<close> maps the one to the same text, and no method has either.
\<close>

fun casefold_char :: "char \<Rightarrow> string" where
  "casefold_char c = (let n = code_point c in
     if 65 \<le> n \<and> n \<le> 90 \<or> 192 \<le> n \<and> n \<le> 222 \<and> n \<noteq> 215 then [char_of (n + 32)]
     else if n = 223 then ''ss'' else [c])"

definition casefold :: "string \<Rightarrow> string" where
  "casefold s = concat (map casefold_char s)"

fun upper_char :: "char \<Rightarrow> string" where
  "upper_char c = (let n = code_point c in
     if 97 \<le> n \<and> n \<le> 122 \<or> 224 \<le> n \<and> n \<le> 254 \<and> n \<noteq> 247 then [char_of (n - 32)]
     else if n = 223 then ''SS'' else [c])"

definition upper :: "string \<Rightarrow> string" where
  "upper s = concat (map upper_char s)"

definition strip_dots :: "string \<Rightarrow> string" where
  "strip_dots s = rev (dropWhile (\<lambda>c. c = CHR ''.'') (rev s))"

definition alnum_lower :: "char \<Rightarrow> bool" where
  "alnum_lower c \<longleftrightarrow> is_lower c \<or> is_digit c"

definition host_label :: "string \<Rightarrow> bool" where
  "host_label s \<longleftrightarrow> s \<noteq> [] \<and> length s \<le> 63 \<and> alnum_lower (hd s) \<and> alnum_lower (last s)
     \<and> list_all (\<lambda>c. alnum_lower c \<or> c = CHR ''-'') s"

definition normal_host :: "host_env \<Rightarrow> string \<Rightarrow> string result" where
  "normal_host env s =
     (if s = [] \<or> list_ex is_space s then Inl ValueError
      else let selected = casefold (strip_dots s)
        in if CHR ''/'' \<in> set selected \<or> CHR ''@'' \<in> set selected then Inl ValueError
           else case he_ip env selected of
             Some address \<Rightarrow> Inr address
           | None \<Rightarrow> (case he_idna env selected of
               None \<Rightarrow> Inl ValueError
             | Some encoded \<Rightarrow>
                 if 253 < length encoded \<or> \<not> list_all host_label (split_dots encoded)
                 then Inl ValueError else Inr encoded))"

definition name_char :: "char \<Rightarrow> bool" where
  "name_char c \<longleftrightarrow> is_lower c \<or> is_upper c \<or> is_digit c"

definition safe_name :: "string \<Rightarrow> bool" where
  "safe_name s \<longleftrightarrow> s \<noteq> [] \<and> length s \<le> 256 \<and> name_char (hd s) \<and> list_all (\<lambda>c. name_char c \<or> c \<in> set ''._:@/+-'') s"

section \<open>Normalization\<close>

fun rmap :: "('a \<Rightarrow> 'b result) \<Rightarrow> 'a list \<Rightarrow> 'b list result" where
  "rmap f [] = Inr []"
| "rmap f (x # xs) = rbind (f x) (\<lambda>y. rbind (rmap f xs) (\<lambda>ys. Inr (y # ys)))"

definition normal_hosts :: "host_env \<Rightarrow> string set \<Rightarrow> string set result" where
  "normal_hosts env hosts =
     (if \<forall>h \<in> hosts. \<not> isl (normal_host env h) then Inr ((\<lambda>h. projr (normal_host env h)) ` hosts) else Inl ValueError)"

definition normal_names :: "string set \<Rightarrow> string set result" where
  "normal_names names = (if \<forall>s \<in> names. safe_name s then Inr names else Inl ValueError)"

text \<open>
  The required fields of the category are populated, and nothing else is: then
  \<open>populated_values == allowed_fields\<close>.
\<close>

definition populated :: "permission_category \<Rightarrow> permission_constraint \<Rightarrow> bool" where
  "populated k c = (case k of
     Filesystem \<Rightarrow> pc_roots c \<noteq> []
   | Network \<Rightarrow> pc_hosts c \<noteq> {} \<and> pc_methods c \<noteq> {}
   | Process \<Rightarrow> pc_commands c \<noteq> {} \<and> pc_profiles c \<noteq> {}
   | Secret \<Rightarrow> pc_aliases c \<noteq> {}
   | Unconstrained \<Rightarrow> True)"

definition only_category :: "permission_category \<Rightarrow> permission_constraint \<Rightarrow> bool" where
  "only_category k c \<longleftrightarrow>
     (k \<noteq> Filesystem \<longrightarrow> pc_roots c = []) \<and> (k \<noteq> Network \<longrightarrow> pc_hosts c = {} \<and> pc_methods c = {})
     \<and> (k \<noteq> Process \<longrightarrow> pc_commands c = {} \<and> pc_profiles c = {}) \<and> (k \<noteq> Secret \<longrightarrow> pc_aliases c = {})"

definition normalize_constraint :: "host_env \<Rightarrow> string \<Rightarrow> permission_constraint \<Rightarrow> permission_constraint result" where
  "normalize_constraint env p c =
     rbind (rmap (check_root env) (pc_roots c)) (\<lambda>roots.
     rbind (normal_hosts env (pc_hosts c)) (\<lambda>hosts.
     rbind (normal_names (pc_commands c)) (\<lambda>commands.
     rbind (normal_names (pc_profiles c)) (\<lambda>profiles.
     rbind (normal_names (pc_aliases c)) (\<lambda>aliases.
       (let n = \<lparr>pc_roots = roots, pc_hosts = hosts, pc_methods = upper ` pc_methods c, pc_commands = commands,
                 pc_profiles = profiles, pc_aliases = aliases\<rparr>
        in if \<not> pc_methods n \<subseteq> set http_methods then Inl ValueError
           else if \<not> populated (permission_category p) n then Inl ValueError
           else if \<not> only_category (permission_category p) n then Inl ValueError
           else Inr n))))))"

type_synonym authorizer = "(string \<times> permission_constraint) list"

fun make_authorizer :: "host_env \<Rightarrow> (string \<times> permission_constraint) list \<Rightarrow> authorizer result" where
  "make_authorizer env [] = Inr []"
| "make_authorizer env ((p, c) # gs) =
     (if p \<notin> set supported_permissions then Inl ValueError
      else rbind (normalize_constraint env p c) (\<lambda>n. rbind (make_authorizer env gs) (\<lambda>z. Inr ((p, n) # z))))"

section \<open>The decision\<close>

type_synonym call_arguments = "(string \<times> pyval) list"

definition reason_order :: "string list" where
  "reason_order = [''unknown_permission'', ''permission_not_granted'', ''permission_constraint_missing'',
     ''arguments_invalid'', ''privilege_not_declared'', ''path_outside_allowed_roots'', ''host_not_allowed'',
     ''http_method_not_allowed'', ''command_not_allowed'', ''profile_not_allowed'', ''secret_value_not_allowed'',
     ''secret_alias_not_allowed'']"

definition ordered_reasons :: "string list \<Rightarrow> string list" where
  "ordered_reasons rs = filter (\<lambda>r. r \<in> set rs) reason_order"

definition raw_secret_fields :: "string list" where
  "raw_secret_fields = [''api_key'', ''authorization'', ''credential'', ''credentials'', ''secret'', ''secret_value'', ''token'']"

fun grants_of :: "authorizer \<Rightarrow> string list \<Rightarrow> permission_constraint list result" where
  "grants_of z [] = Inr []"
| "grants_of z (p # ps) = (case map_of z p of
     None \<Rightarrow> Inl KeyError | Some c \<Rightarrow> rbind (grants_of z ps) (\<lambda>cs. Inr (c # cs)))"

definition path_reasons :: "host_env \<Rightarrow> authorizer \<Rightarrow> string list \<Rightarrow> pyval option \<Rightarrow> string list result" where
  "path_reasons env z ps raw = (case raw of
     Some (PyStr p) \<Rightarrow>
       if \<not> is_absolute p then Inr [''arguments_invalid'']
       else (case he_resolve env p of
         Inl OSError \<Rightarrow> Inr [''path_outside_allowed_roots'']
       | Inl e \<Rightarrow> Inl e
       | Inr selected \<Rightarrow> rbind (grants_of z ps) (\<lambda>cs.
           Inr (if \<forall>c \<in> set cs. \<exists>root \<in> set (pc_roots c). relative_to selected root then []
                else [''path_outside_allowed_roots''])))
   | _ \<Rightarrow> Inr [''arguments_invalid''])"

definition network_reasons ::
  "host_env \<Rightarrow> authorizer \<Rightarrow> string list \<Rightarrow> pyval option \<Rightarrow> pyval option \<Rightarrow> string list result" where
  "network_reasons env z ps raw_host raw_method = (case (raw_host, raw_method) of
     (Some (PyStr h), Some (PyStr m)) \<Rightarrow>
       (case normal_host env h of
          Inl e \<Rightarrow> Inr [''host_not_allowed'']
        | Inr host \<Rightarrow> rbind (grants_of z ps) (\<lambda>cs.
            Inr (ordered_reasons (
              (if \<forall>c \<in> set cs. host \<in> pc_hosts c then [] else [''host_not_allowed'']) @
              (if \<forall>c \<in> set cs. upper m \<in> pc_methods c then [] else [''http_method_not_allowed''])))))
   | _ \<Rightarrow> Inr [''arguments_invalid''])"

definition process_reasons :: "authorizer \<Rightarrow> string list \<Rightarrow> pyval option \<Rightarrow> pyval option \<Rightarrow> string list result" where
  "process_reasons z ps raw_command raw_profile = (case (raw_command, raw_profile) of
     (Some (PyStr command), Some (PyStr profile)) \<Rightarrow>
       rbind (grants_of z ps) (\<lambda>cs.
         Inr (ordered_reasons (
           (if \<forall>c \<in> set cs. command \<in> pc_commands c then [] else [''command_not_allowed'']) @
           (if \<forall>c \<in> set cs. profile \<in> pc_profiles c then [] else [''profile_not_allowed'']))))
   | _ \<Rightarrow> Inr [''arguments_invalid''])"

definition secret_reasons :: "authorizer \<Rightarrow> string list \<Rightarrow> pyval option \<Rightarrow> string list result" where
  "secret_reasons z ps raw = (case raw of
     Some (PyStr alias) \<Rightarrow> rbind (grants_of z ps) (\<lambda>cs.
       Inr (if \<forall>c \<in> set cs. alias \<in> pc_aliases c then [] else [''secret_alias_not_allowed'']))
   | _ \<Rightarrow> Inr [''arguments_invalid''])"

definition undeclared_reasons :: "string list \<Rightarrow> string list \<Rightarrow> string list \<Rightarrow> string list \<Rightarrow> call_arguments \<Rightarrow> string list" where
  "undeclared_reasons fs net proc sec args =
     (let keys = map fst args in
      (if ''path'' \<in> set keys \<and> fs = [] then [''privilege_not_declared''] else []) @
      (if (''host'' \<in> set keys \<or> ''http_method'' \<in> set keys) \<and> net = [] then [''privilege_not_declared''] else []) @
      (if (''command'' \<in> set keys \<or> ''profile'' \<in> set keys) \<and> proc = [] then [''privilege_not_declared''] else []) @
      (if ''secret_alias'' \<in> set keys \<and> sec = [] then [''privilege_not_declared''] else []) @
      (if \<exists>k \<in> set keys. casefold k \<in> set raw_secret_fields then [''secret_value_not_allowed''] else []))"

definition among :: "string list \<Rightarrow> string list \<Rightarrow> string list" where
  "among xs required = sort (remdups (filter (\<lambda>p. p \<in> set xs) required))"

definition argument_reasons :: "host_env \<Rightarrow> authorizer \<Rightarrow> string list \<Rightarrow> call_arguments \<Rightarrow> string list result" where
  "argument_reasons env z required args =
     (let fs = among filesystem_permissions required; net = among network_permissions required;
          proc = among process_permissions required; sec = among secret_permissions required; get = map_of args
      in rbind (if fs = [] then Inr [] else path_reasons env z fs (get ''path'')) (\<lambda>r1.
         rbind (if net = [] then Inr [] else network_reasons env z net (get ''host'') (get ''http_method'')) (\<lambda>r2.
         rbind (if proc = [] then Inr [] else process_reasons z proc (get ''command'') (get ''profile'')) (\<lambda>r3.
         rbind (if sec = [] then Inr [] else secret_reasons z sec (get ''secret_alias'')) (\<lambda>r4.
           Inr (ordered_reasons (undeclared_reasons fs net proc sec args @ r1 @ r2 @ r3 @ r4)))))))"

definition required_permissions :: "capability_manifest \<Rightarrow> capability_manifest list \<Rightarrow> string list" where
  "required_permissions m deps = remdups (concat (map cm_permissions (m # deps)))"

definition decide_authorization ::
  "host_env \<Rightarrow> authorizer \<Rightarrow> capability_manifest \<Rightarrow> capability_manifest list \<Rightarrow> call_arguments option \<Rightarrow>
   authorization_decision result" where
  "decide_authorization env z m deps arguments =
     (let required = required_permissions m deps;
          early = (if set required \<subseteq> set supported_permissions then [] else [''unknown_permission'']) @
                  (if set required \<subseteq> fst ` set z then [] else [''permission_not_granted''])
      in rbind (case arguments of
             Some args \<Rightarrow> if early = [] then argument_reasons env z required args else Inr early
           | None \<Rightarrow> Inr early) (\<lambda>reasons.
           let ordered = ordered_reasons reasons in
           Inr \<lparr>ad_allowed = (ordered = []),
             ad_reasons = (if ordered = [] then [''authorization_allow''] else ordered),
             ad_required = among supported_permissions required,
             ad_effective = among (map fst z) required\<rparr>))"

section \<open>What an allowed call satisfies\<close>

text \<open>A grant covers the arguments of its category.\<close>

definition covers :: "host_env \<Rightarrow> permission_constraint \<Rightarrow> permission_category \<Rightarrow> call_arguments \<Rightarrow> bool" where
  "covers env c k args = (case k of
     Filesystem \<Rightarrow> (case map_of args ''path'' of
         Some (PyStr p) \<Rightarrow> is_absolute p \<and> (case he_resolve env p of
             Inr selected \<Rightarrow> \<exists>root \<in> set (pc_roots c). relative_to selected root | Inl _ \<Rightarrow> False)
       | _ \<Rightarrow> False)
   | Network \<Rightarrow> (case (map_of args ''host'', map_of args ''http_method'') of
         (Some (PyStr h), Some (PyStr m)) \<Rightarrow>
           (case normal_host env h of Inr host \<Rightarrow> host \<in> pc_hosts c \<and> upper m \<in> pc_methods c | Inl _ \<Rightarrow> False)
       | _ \<Rightarrow> False)
   | Process \<Rightarrow> (case (map_of args ''command'', map_of args ''profile'') of
         (Some (PyStr command), Some (PyStr profile)) \<Rightarrow> command \<in> pc_commands c \<and> profile \<in> pc_profiles c
       | _ \<Rightarrow> False)
   | Secret \<Rightarrow> (case map_of args ''secret_alias'' of Some (PyStr alias) \<Rightarrow> alias \<in> pc_aliases c | _ \<Rightarrow> False)
   | Unconstrained \<Rightarrow> True)"

text \<open>Every privileged argument belongs to a declared category, and none carries a raw secret.\<close>

definition declares :: "string set \<Rightarrow> call_arguments \<Rightarrow> bool" where
  "declares required args \<longleftrightarrow>
     (let keys = fst ` set args; has = (\<lambda>k. k \<in> permission_category ` required)
      in (''path'' \<in> keys \<longrightarrow> has Filesystem) \<and> (''host'' \<in> keys \<or> ''http_method'' \<in> keys \<longrightarrow> has Network)
       \<and> (''command'' \<in> keys \<or> ''profile'' \<in> keys \<longrightarrow> has Process) \<and> (''secret_alias'' \<in> keys \<longrightarrow> has Secret)
       \<and> \<not> (\<exists>k \<in> keys. casefold k \<in> set raw_secret_fields))"

lemma set_ordered [simp]: "set (ordered_reasons rs) = set rs \<inter> set reason_order"
  by (auto simp: ordered_reasons_def)

lemma ordered_Nil: "ordered_reasons rs = [] \<longleftrightarrow> set rs \<inter> set reason_order = {}"
  by (simp flip: set_empty)

lemma grants_of_known: "set ps \<subseteq> fst ` set z \<Longrightarrow>
    \<exists>cs. grants_of z ps = Inr cs \<and> set cs = {c. \<exists>p \<in> set ps. map_of z p = Some c}"
proof (induction ps)
  case (Cons p ps)
  then obtain c cs where "map_of z p = Some c" "grants_of z ps = Inr cs" "set cs = {c. \<exists>p \<in> set ps. map_of z p = Some c}"
    by (metis (no_types, lifting) insert_subset list.simps(15) map_of_eq_None_iff not_None_eq)
  then show ?case by auto
qed simp

lemma all_granted: "set ps \<subseteq> fst ` set z \<Longrightarrow>
    (\<forall>c \<in> {c. \<exists>p \<in> set ps. map_of z p = Some c}. P c) \<longleftrightarrow> (\<forall>p \<in> set ps. \<exists>c. map_of z p = Some c \<and> P c)"
  by (auto simp: subset_iff) (metis image_eqI map_of_eq_None_iff not_None_eq)+

lemma path_reasons_iff:
  assumes "path_reasons env z ps (map_of args ''path'') = Inr rs" "set ps \<subseteq> fst ` set z" "ps \<noteq> []"
  shows "set rs \<inter> set reason_order = {} \<longleftrightarrow> (\<forall>p \<in> set ps. \<exists>c. map_of z p = Some c \<and> covers env c Filesystem args)"
proof -
  obtain cs where "grants_of z ps = Inr cs" "set cs = {c. \<exists>p \<in> set ps. map_of z p = Some c}"
    using grants_of_known [OF assms(2)] by blast
  moreover obtain p where "p \<in> set ps" using assms(3) by (cases ps) auto
  ultimately show ?thesis
    using assms(1) all_granted [OF assms(2), of "\<lambda>c. \<exists>root \<in> set (pc_roots c). relative_to selected root" for selected]
    by (auto simp: path_reasons_def covers_def reason_order_def split: option.splits pyval.splits if_splits sum.splits exn.splits)
qed

lemma two_texts:
  "\<nexists>h m. x = Some (PyStr h) \<and> y = Some (PyStr m) \<Longrightarrow>
     (case x of Some (PyStr h) \<Rightarrow> (case y of Some (PyStr m) \<Rightarrow> f h m | _ \<Rightarrow> d) | _ \<Rightarrow> d) = d"
  by (cases x; cases y) (auto split: pyval.splits)

lemma network_reasons_iff:
  assumes "network_reasons env z ps (map_of args ''host'') (map_of args ''http_method'') = Inr rs"
    "set ps \<subseteq> fst ` set z" "ps \<noteq> []"
  shows "set rs \<inter> set reason_order = {} \<longleftrightarrow> (\<forall>p \<in> set ps. \<exists>c. map_of z p = Some c \<and> covers env c Network args)"
proof -
  obtain cs where "grants_of z ps = Inr cs" "set cs = {c. \<exists>p \<in> set ps. map_of z p = Some c}"
    using grants_of_known [OF assms(2)] by blast
  moreover obtain p where "p \<in> set ps" using assms(3) by (cases ps) auto
  ultimately have p: "p \<in> set ps" and cs: "grants_of z ps = Inr cs" "set cs = {c. \<exists>p \<in> set ps. map_of z p = Some c}" by auto
  show ?thesis
  proof (cases "\<exists>h m. map_of args ''host'' = Some (PyStr h) \<and> map_of args ''http_method'' = Some (PyStr m)")
    case True
    then obtain h m where hm: "map_of args ''host'' = Some (PyStr h)" "map_of args ''http_method'' = Some (PyStr m)" by blast
    show ?thesis
    proof (cases "normal_host env h")
      case (Inr host)
      have "set rs \<inter> set reason_order = {} \<longleftrightarrow> (\<forall>c \<in> set cs. host \<in> pc_hosts c \<and> upper m \<in> pc_methods c)"
        using assms(1) by (auto simp: network_reasons_def hm Inr cs(1) reason_order_def simp del: map_of_eq_Some_iff split: if_splits)
      also have "\<dots> \<longleftrightarrow> (\<forall>p \<in> set ps. \<exists>c. map_of z p = Some c \<and> covers env c Network args)"
        unfolding cs(2) all_granted [OF assms(2), of "\<lambda>c. host \<in> pc_hosts c \<and> upper m \<in> pc_methods c"] by (simp add: covers_def hm Inr)
      finally show ?thesis .
    qed (use assms(1) p in \<open>auto simp: network_reasons_def covers_def hm reason_order_def\<close>)
  next
    case False
    then have "\<not> covers env c Network args" for c
      by (simp add: covers_def two_texts)
    moreover have "rs = [''arguments_invalid'']"
      using assms(1) False by (simp add: network_reasons_def two_texts)
    ultimately show ?thesis using p by (auto simp: reason_order_def)
  qed
qed

lemma process_reasons_iff:
  assumes "process_reasons z ps (map_of args ''command'') (map_of args ''profile'') = Inr rs"
    "set ps \<subseteq> fst ` set z" "ps \<noteq> []"
  shows "set rs \<inter> set reason_order = {} \<longleftrightarrow> (\<forall>p \<in> set ps. \<exists>c. map_of z p = Some c \<and> covers env c Process args)"
proof -
  obtain cs where "grants_of z ps = Inr cs" "set cs = {c. \<exists>p \<in> set ps. map_of z p = Some c}"
    using grants_of_known [OF assms(2)] by blast
  moreover obtain p where "p \<in> set ps" using assms(3) by (cases ps) auto
  ultimately have p: "p \<in> set ps" and cs: "grants_of z ps = Inr cs" "set cs = {c. \<exists>p \<in> set ps. map_of z p = Some c}" by auto
  show ?thesis
  proof (cases "\<exists>h m. map_of args ''command'' = Some (PyStr h) \<and> map_of args ''profile'' = Some (PyStr m)")
    case True
    then obtain h m where hm: "map_of args ''command'' = Some (PyStr h)" "map_of args ''profile'' = Some (PyStr m)" by blast
    have "set rs \<inter> set reason_order = {} \<longleftrightarrow> (\<forall>c \<in> set cs. h \<in> pc_commands c \<and> m \<in> pc_profiles c)"
      using assms(1) by (auto simp: process_reasons_def hm cs(1) reason_order_def split: if_splits)
    also have "\<dots> \<longleftrightarrow> (\<forall>p \<in> set ps. \<exists>c. map_of z p = Some c \<and> covers env c Process args)"
      unfolding cs(2) all_granted [OF assms(2), of "\<lambda>c. h \<in> pc_commands c \<and> m \<in> pc_profiles c"] by (simp add: covers_def hm)
    finally show ?thesis .
  next
    case False
    then have "\<not> covers env c Process args" for c
      by (simp add: covers_def two_texts)
    moreover have "rs = [''arguments_invalid'']"
      using assms(1) False by (simp add: process_reasons_def two_texts)
    ultimately show ?thesis using p by (auto simp: reason_order_def)
  qed
qed

lemma secret_reasons_iff:
  assumes "secret_reasons z ps (map_of args ''secret_alias'') = Inr rs" "set ps \<subseteq> fst ` set z" "ps \<noteq> []"
  shows "set rs \<inter> set reason_order = {} \<longleftrightarrow> (\<forall>p \<in> set ps. \<exists>c. map_of z p = Some c \<and> covers env c Secret args)"
proof -
  obtain cs where "grants_of z ps = Inr cs" "set cs = {c. \<exists>p \<in> set ps. map_of z p = Some c}"
    using grants_of_known [OF assms(2)] by blast
  moreover obtain p where "p \<in> set ps" using assms(3) by (cases ps) auto
  ultimately show ?thesis
    using assms(1) all_granted [OF assms(2), of "\<lambda>c. a \<in> pc_aliases c" for a]
    by (auto simp: secret_reasons_def covers_def reason_order_def split: option.splits pyval.splits if_splits)
qed

lemma set_among [simp]: "set (among xs required) = set xs \<inter> set required"
  by (auto simp: among_def)

lemma category_iff:
  "p \<in> set filesystem_permissions \<longleftrightarrow> permission_category p = Filesystem"
  "p \<in> set network_permissions \<longleftrightarrow> permission_category p = Network"
  "p \<in> set process_permissions \<longleftrightarrow> permission_category p = Process"
  "p \<in> set secret_permissions \<longleftrightarrow> permission_category p = Secret"
  by (auto simp: permission_category_def filesystem_permissions_def network_permissions_def
      process_permissions_def secret_permissions_def)

lemma among_empty: "(\<And>p. p \<in> set xs \<longleftrightarrow> permission_category p = k) \<Longrightarrow>
    among xs required = [] \<longleftrightarrow> k \<notin> permission_category ` set required"
  unfolding set_empty [symmetric] set_among by auto

lemmas among_Nil = category_iff [THEN among_empty]

lemma optional_reason:
  "set ((if P then [r] else []) @ rs) \<inter> set reason_order = {} \<longleftrightarrow>
     (P \<longrightarrow> r \<notin> set reason_order) \<and> set rs \<inter> set reason_order = {}"
  "set (if P then [r] else []) \<inter> set reason_order = {} \<longleftrightarrow> (P \<longrightarrow> r \<notin> set reason_order)"
  by auto

lemma known_reasons: "''privilege_not_declared'' \<in> set reason_order" "''secret_value_not_allowed'' \<in> set reason_order"
  by (simp_all add: reason_order_def)

lemma undeclared_iff:
  "set (undeclared_reasons (among filesystem_permissions rq) (among network_permissions rq) (among process_permissions rq)
     (among secret_permissions rq) args) \<inter> set reason_order = {} \<longleftrightarrow> declares (set rq) args"
  by (simp only: undeclared_reasons_def declares_def Let_def optional_reason known_reasons among_Nil set_map simp_thms) argo

lemma ordered_twice: "ordered_reasons (ordered_reasons rs) = [] \<longleftrightarrow> set rs \<inter> set reason_order = {}"
  by (simp add: ordered_Nil Int_assoc)

lemma reasons_append: "(xs \<union> ys) \<inter> set reason_order = {} \<longleftrightarrow> xs \<inter> set reason_order = {} \<and> ys \<inter> set reason_order = {}"
  by auto

lemma all_categories:
  "(\<forall>k. k \<noteq> Unconstrained \<longrightarrow> Q k) \<longleftrightarrow> Q Filesystem \<and> Q Network \<and> Q Process \<and> Q Secret"
proof
  assume q: "Q Filesystem \<and> Q Network \<and> Q Process \<and> Q Secret"
  show "\<forall>k. k \<noteq> Unconstrained \<longrightarrow> Q k"
  proof (intro allI impI)
    fix k assume "k \<noteq> Unconstrained"
    with q show "Q k" by (cases k) simp_all
  qed
qed simp

lemma argument_reasons_iff:
  assumes "argument_reasons env z rq args = Inr rs" "set rq \<subseteq> fst ` set z"
  shows "ordered_reasons rs = [] \<longleftrightarrow> declares (set rq) args \<and>
    (\<forall>p \<in> set rq. \<exists>c. map_of z p = Some c \<and> covers env c (permission_category p) args)"
proof -
  let ?fs = "among filesystem_permissions rq" and ?net = "among network_permissions rq"
    and ?proc = "among process_permissions rq" and ?sec = "among secret_permissions rq"
  let ?cov = "\<lambda>k. \<forall>p \<in> set rq. permission_category p = k \<longrightarrow> (\<exists>c. map_of z p = Some c \<and> covers env c k args)"
  from assms(1) obtain r1 r2 r3 r4 where
    r1: "(if ?fs = [] then Inr [] else path_reasons env z ?fs (map_of args ''path'')) = Inr r1" and
    r2: "(if ?net = [] then Inr [] else network_reasons env z ?net (map_of args ''host'') (map_of args ''http_method'')) = Inr r2" and
    r3: "(if ?proc = [] then Inr [] else process_reasons z ?proc (map_of args ''command'') (map_of args ''profile'')) = Inr r3" and
    r4: "(if ?sec = [] then Inr [] else secret_reasons z ?sec (map_of args ''secret_alias'')) = Inr r4" and
    rs: "rs = ordered_reasons (undeclared_reasons ?fs ?net ?proc ?sec args @ r1 @ r2 @ r3 @ r4)"
    unfolding argument_reasons_def Let_def rbind_eq_Inr by blast
  have known: "set (among xs rq) \<subseteq> fst ` set z" for xs using assms(2) by auto
  have "set r1 \<inter> set reason_order = {} \<longleftrightarrow> ?cov Filesystem"
  proof (cases "?fs = []")
    case True with r1 show ?thesis by (auto simp: among_Nil image_iff)
  next
    case False with r1 path_reasons_iff [of env z ?fs args r1] known show ?thesis by (auto simp: category_iff)
  qed
  moreover have "set r2 \<inter> set reason_order = {} \<longleftrightarrow> ?cov Network"
  proof (cases "?net = []")
    case True with r2 show ?thesis by (auto simp: among_Nil image_iff)
  next
    case False with r2 network_reasons_iff [of env z ?net args r2] known show ?thesis by (auto simp: category_iff)
  qed
  moreover have "set r3 \<inter> set reason_order = {} \<longleftrightarrow> ?cov Process"
  proof (cases "?proc = []")
    case True with r3 show ?thesis by (auto simp: among_Nil image_iff)
  next
    case False with r3 process_reasons_iff [of z ?proc args r3 env] known show ?thesis by (auto simp: category_iff)
  qed
  moreover have "set r4 \<inter> set reason_order = {} \<longleftrightarrow> ?cov Secret"
  proof (cases "?sec = []")
    case True with r4 show ?thesis by (auto simp: among_Nil image_iff)
  next
    case False with r4 secret_reasons_iff [of z ?sec args r4 env] known show ?thesis by (auto simp: category_iff)
  qed
  moreover have "(\<forall>p \<in> set rq. \<exists>c. map_of z p = Some c \<and> covers env c (permission_category p) args) \<longleftrightarrow>
      ?cov Filesystem \<and> ?cov Network \<and> ?cov Process \<and> ?cov Secret"
  proof -
    have "\<exists>c. map_of z p = Some c \<and> covers env c Unconstrained args" if "p \<in> set rq" for p
      using that assms(2) by (auto simp: covers_def subset_iff) (metis image_eqI map_of_eq_None_iff not_None_eq)
    then have "(\<exists>c. map_of z p = Some c \<and> covers env c (permission_category p) args) \<longleftrightarrow>
        (\<forall>k. k \<noteq> Unconstrained \<longrightarrow> permission_category p = k \<longrightarrow> (\<exists>c. map_of z p = Some c \<and> covers env c k args))"
      if "p \<in> set rq" for p
      using that by (cases "permission_category p") simp_all
    then have "(\<forall>p \<in> set rq. \<exists>c. map_of z p = Some c \<and> covers env c (permission_category p) args) \<longleftrightarrow>
        (\<forall>k. k \<noteq> Unconstrained \<longrightarrow> ?cov k)" by blast
    then show ?thesis unfolding all_categories .
  qed
  ultimately show ?thesis
    unfolding rs by (simp only: ordered_twice set_append reasons_append undeclared_iff)
qed

lemma make_authorizer_Inr:
  "make_authorizer env gs = Inr z \<Longrightarrow> map fst z = map fst gs \<and> fst ` set gs \<subseteq> set supported_permissions \<and>
     (\<forall>p n. map_of z p = Some n \<longleftrightarrow> (\<exists>c. map_of gs p = Some c \<and> normalize_constraint env p c = Inr n))"
proof (induction gs arbitrary: z)
  case (Cons g gs)
  then show ?case by (cases g) (fastforce simp: rbind_eq_Inr simp del: map_of_eq_Some_iff split: if_splits)
qed simp

lemma set_required: "set (required_permissions m deps) = (\<Union>n \<in> insert m (set deps). set (cm_permissions n))"
  by (simp add: required_permissions_def)

lemma decide_allows_iff:
  assumes "make_authorizer env gs = Inr z" "decide_authorization env z m deps (Some args) = Inr d"
  shows "ad_allowed d \<longleftrightarrow>
    declares (\<Union>n \<in> insert m (set deps). set (cm_permissions n)) args \<and>
    (\<forall>n \<in> insert m (set deps). \<forall>p \<in> set (cm_permissions n).
       \<exists>c k. map_of gs p = Some c \<and> normalize_constraint env p c = Inr k \<and> covers env k (permission_category p) args)"
proof -
  let ?rq = "required_permissions m deps"
  note z = make_authorizer_Inr [OF assms(1)]
  then have known: "fst ` set z \<subseteq> set supported_permissions" by (metis list.set_map)
  show ?thesis
  proof (cases "set ?rq \<subseteq> fst ` set z")
    case True
    moreover have "set ?rq \<subseteq> set supported_permissions" using True known by (rule subset_trans)
    ultimately obtain rs where rs: "argument_reasons env z ?rq args = Inr rs" "ad_allowed d \<longleftrightarrow> ordered_reasons rs = []"
      using assms(2) by (cases "argument_reasons env z ?rq args") (auto simp: decide_authorization_def Let_def)
    have "(\<exists>n. map_of z p = Some n \<and> P n) \<longleftrightarrow> (\<exists>c k. map_of gs p = Some c \<and> normalize_constraint env p c = Inr k \<and> P k)"
      for p and P :: "permission_constraint \<Rightarrow> bool"
      using z by blast
    then show ?thesis
      unfolding rs(2) argument_reasons_iff [OF rs(1) True] set_required by (simp only: UN_ball_bex_simps ball_simps)
  next
    case False
    then have "\<not> ad_allowed d"
      using assms(2) by (auto simp: decide_authorization_def Let_def ordered_Nil reason_order_def)
    moreover obtain p where p: "p \<in> set ?rq" "map_of z p = None"
      using False by (auto simp: subset_iff map_of_eq_None_iff)
    then have "\<nexists>c k. map_of gs p = Some c \<and> normalize_constraint env p c = Inr k"
      using z by (metis option.distinct(1))
    ultimately show ?thesis using p(1) unfolding set_required by blast
  qed
qed

text \<open>
  C18. The authorizer built from the caller's grants allows a call exactly when every permission
  the capability or one of its dependencies declares is granted with a constraint that, once
  normalized, covers the arguments, every privileged argument belongs to a declared category, and
  no argument is named like a raw secret.
\<close>

theorem authorize_allows_iff:
  assumes "make_authorizer env gs = Inr z" "decide_authorization env z m deps (Some args) = Inr d"
  shows "ad_allowed d \<longleftrightarrow>
    declares (\<Union>n \<in> insert m (set deps). set (cm_permissions n)) args \<and>
    (\<forall>n \<in> insert m (set deps). \<forall>p \<in> set (cm_permissions n).
       \<exists>c k. map_of gs p = Some c \<and> normalize_constraint env p c = Inr k \<and> covers env k (permission_category p) args)"
  using assms by (rule decide_allows_iff)

text \<open>A host in which every path and host is already resolved.\<close>

definition plain_env :: host_env where
  "plain_env = \<lparr>he_resolve = Inr, he_ip = (\<lambda>_. None), he_idna = Some\<rparr>"

definition no_constraint :: permission_constraint where
  "no_constraint = \<lparr>pc_roots = [], pc_hosts = {}, pc_methods = {}, pc_commands = {}, pc_profiles = {}, pc_aliases = {}\<rparr>"

definition reader :: capability_manifest where
  "reader = (example_manifest ''reader'' ''1.0.0'' [])\<lparr>cm_permissions := [''filesystem.read'']\<rparr>"

lemma authorize_allows_iff_witness:
  "\<exists>z d. make_authorizer plain_env [(''filesystem.read'', no_constraint\<lparr>pc_roots := [''/data'']\<rparr>)] = Inr z \<and>
     decide_authorization plain_env z reader [] (Some [(''path'', PyStr ''/data/notes.txt'')]) = Inr d \<and> ad_allowed d"
proof -
  let ?gs = "[(''filesystem.read'', no_constraint\<lparr>pc_roots := [''/data'']\<rparr>)]"
  let ?c = "no_constraint\<lparr>pc_roots := [''/data'']\<rparr>"
  have n: "normalize_constraint plain_env ''filesystem.read'' ?c = Inr ?c"
    by (simp add: normalize_constraint_def no_constraint_def plain_env_def check_root_def is_absolute_def
        normal_hosts_def normal_names_def populated_def only_category_def permission_category_def filesystem_permissions_def)
  then have z: "make_authorizer plain_env ?gs = Inr ?gs"
    by (simp add: supported_permissions_def filesystem_permissions_def)
  have parts: "relative_to ''/data/notes.txt'' ''/data''"
    by (simp add: relative_to_def path_anchor_def path_parts_def)
  have rq: "required_permissions reader [] = [''filesystem.read'']" by (simp add: required_permissions_def reader_def)
  obtain d where d: "decide_authorization plain_env ?gs reader [] (Some [(''path'', PyStr ''/data/notes.txt'')]) = Inr d"
    using parts
    by (simp add: decide_authorization_def rq argument_reasons_def among_def filesystem_permissions_def network_permissions_def
        process_permissions_def secret_permissions_def supported_permissions_def path_reasons_def is_absolute_def plain_env_def Let_def)
  moreover have "ad_allowed d"
    unfolding authorize_allows_iff [OF z d] using n parts
    by (simp add: reader_def declares_def covers_def permission_category_def filesystem_permissions_def
        is_absolute_def plain_env_def casefold_def raw_secret_fields_def)
  ultimately show ?thesis using z by blast
qed

end
