(* ===== verification/Grants.thy ===== *)
theory Grants
  imports Authorization
begin

text \<open>
  The persistent grant policies of \<open>grant_policy.py\<close>: the JSON documents, the compare-and-set
  store keyed by an HMAC of the identity, and the authorizer that intersects the grants of the
  providers of a capability and its dependencies. Dictionaries are association lists with distinct
  keys; the SQLite tables are rows and a transaction is one step.
\<close>

section \<open>Identities (auth.py)\<close>

record auth_identity =
  au_tenant :: string
  au_principal :: string
  au_source :: string
  au_session :: string

definition safe_identifier :: "string \<Rightarrow> bool" where
  "safe_identifier s \<longleftrightarrow> s \<noteq> [] \<and> length s \<le> 256 \<and> \<not> list_ex is_space s"

definition make_identity :: "auth_identity \<Rightarrow> auth_identity result" where
  "make_identity i =
     (if list_all safe_identifier [au_tenant i, au_principal i, au_source i, au_session i] then Inr i else Inl ValueError)"

section \<open>Documents\<close>

type_synonym grant_list = "(string \<times> permission_constraint) list"
type_synonym provider_grants = "(string \<times> grant_list) list"

record grant_snapshot =
  sn_revision :: int
  sn_providers :: provider_grants
  sn_digest :: string

definition texts :: "string list \<Rightarrow> pyval" where
  "texts xs = PyList (map PyStr xs)"

definition encode_constraint :: "permission_constraint \<Rightarrow> pyval" where
  "encode_constraint c = PyDict [
     (''path_roots'', texts (pc_roots c)), (''hosts'', texts (sorted_list_of_set (pc_hosts c))),
     (''http_methods'', texts (sorted_list_of_set (pc_methods c))),
     (''commands'', texts (sorted_list_of_set (pc_commands c))),
     (''profiles'', texts (sorted_list_of_set (pc_profiles c))),
     (''secret_aliases'', texts (sorted_list_of_set (pc_aliases c)))]"

fun encode_grants :: "host_env \<Rightarrow> grant_list \<Rightarrow> (string \<times> pyval) list result" where
  "encode_grants env [] = Inr []"
| "encode_grants env ((p, c) # gs) =
     rbind (make_authorizer env [(p, c)]) (\<lambda>_. rbind (encode_grants env gs) (\<lambda>es. Inr ((p, encode_constraint c) # es)))"

fun encode_providers :: "host_env \<Rightarrow> provider_grants \<Rightarrow> (string \<times> pyval) list result" where
  "encode_providers env [] = Inr []"
| "encode_providers env ((name, gs) # ps) =
     (if name = [] then Inl ValueError
      else rbind (encode_grants env (sort_key fst gs)) (\<lambda>es.
           rbind (encode_providers env ps) (\<lambda>rest. Inr ((name, PyDict es) # rest))))"

definition encode_document :: "host_env \<Rightarrow> provider_grants \<Rightarrow> pyval result" where
  "encode_document env ps = rbind (encode_providers env (sort_key fst ps)) (\<lambda>d. Inr (PyDict d))"

definition document_text :: "pyval \<Rightarrow> string" where
  "document_text v = json_dumps True True (\<lambda>_. []) v"

definition document_digest :: "pyval \<Rightarrow> string" where
  "document_digest v = ''sha256:'' @ sha256_hex_bytes (utf8 (document_text v))"

definition constraint_fields :: "string list" where
  "constraint_fields = [''path_roots'', ''hosts'', ''http_methods'', ''commands'', ''profiles'', ''secret_aliases'']"

fun text_of :: "pyval \<Rightarrow> string result" where
  "text_of (PyStr s) = Inr s"
| "text_of _ = Inl ValueError"

fun text_list :: "pyval option \<Rightarrow> string list result" where
  "text_list (Some (PyList vs)) = rmap text_of vs"
| "text_list _ = Inl ValueError"

definition decode_constraint :: "pyval \<Rightarrow> permission_constraint result" where
  "decode_constraint v = (case v of
     PyDict raw \<Rightarrow>
       if fst ` set raw \<noteq> set constraint_fields then Inl ValueError
       else rbind (text_list (map_of raw ''path_roots'')) (\<lambda>roots.
            rbind (text_list (map_of raw ''hosts'')) (\<lambda>hosts.
            rbind (text_list (map_of raw ''http_methods'')) (\<lambda>methods.
            rbind (text_list (map_of raw ''commands'')) (\<lambda>commands.
            rbind (text_list (map_of raw ''profiles'')) (\<lambda>profiles.
            rbind (text_list (map_of raw ''secret_aliases'')) (\<lambda>aliases.
              Inr \<lparr>pc_roots = roots, pc_hosts = set hosts, pc_methods = set methods, pc_commands = set commands,
                   pc_profiles = set profiles, pc_aliases = set aliases\<rparr>))))))
   | _ \<Rightarrow> Inl ValueError)"

fun decode_grants :: "host_env \<Rightarrow> (string \<times> pyval) list \<Rightarrow> grant_list result" where
  "decode_grants env [] = Inr []"
| "decode_grants env ((p, raw) # gs) =
     rbind (decode_constraint raw) (\<lambda>c. rbind (make_authorizer env [(p, c)]) (\<lambda>_.
     rbind (decode_grants env gs) (\<lambda>ds. Inr ((p, c) # ds))))"

fun decode_providers :: "host_env \<Rightarrow> (string \<times> pyval) list \<Rightarrow> provider_grants result" where
  "decode_providers env [] = Inr []"
| "decode_providers env ((name, v) # ps) = (case v of
     PyDict gs \<Rightarrow> if name = [] then Inl ValueError
       else rbind (decode_grants env gs) (\<lambda>ds. rbind (decode_providers env ps) (\<lambda>rest. Inr ((name, ds) # rest)))
   | _ \<Rightarrow> Inl ValueError)"

definition decode_document :: "host_env \<Rightarrow> pyval \<Rightarrow> provider_grants result" where
  "decode_document env v = (case v of PyDict ps \<Rightarrow> decode_providers env ps | _ \<Rightarrow> Inl ValueError)"

section \<open>The store\<close>

record grant_row =
  gr_revision :: int
  gr_document :: string
  gr_digest :: string
  gr_updated :: rat

record grant_audit =
  ga_identity :: string
  ga_revision :: int
  ga_digest :: string
  ga_actor :: string
  ga_source :: string
  ga_created :: rat

record grant_store =
  gs_rows :: "(string \<times> grant_row) list"
  gs_audit :: "grant_audit list" \<comment> \<open>in the order of their sequence numbers\<close>

definition identity_digest :: "nat list \<Rightarrow> auth_identity \<Rightarrow> string" where
  "identity_digest key i = hmac_hex key (utf8 ''grant-policy-v1'' @ [0] @
     utf8 (json_dumps False True (\<lambda>_. []) (texts [au_tenant i, au_principal i, au_source i])))"

definition read_grants :: "host_env \<Rightarrow> nat list \<Rightarrow> grant_store \<Rightarrow> auth_identity \<Rightarrow> grant_snapshot result" where
  "read_grants env key st i = (case map_of (gs_rows st) (identity_digest key i) of
     None \<Rightarrow> Inr \<lparr>sn_revision = 0, sn_providers = [], sn_digest = document_digest (PyDict [])\<rparr>
   | Some row \<Rightarrow> (case json_loads (gr_document row) of
       None \<Rightarrow> Inl ValueError
     | Some v \<Rightarrow> rbind (decode_document env v) (\<lambda>ps.
         Inr \<lparr>sn_revision = gr_revision row, sn_providers = ps, sn_digest = gr_digest row\<rparr>)))"

definition current_revision :: "nat list \<Rightarrow> grant_store \<Rightarrow> auth_identity \<Rightarrow> int" where
  "current_revision key st i = (case map_of (gs_rows st) (identity_digest key i) of None \<Rightarrow> 0 | Some row \<Rightarrow> gr_revision row)"

definition set_grants ::
  "host_env \<Rightarrow> nat list \<Rightarrow> grant_store \<Rightarrow> auth_identity \<Rightarrow> auth_identity \<Rightarrow> provider_grants \<Rightarrow> int \<Rightarrow> rat \<Rightarrow>
   grant_snapshot result \<times> grant_store" where
  "set_grants env key st actor target ps expected now =
     (if au_source actor \<notin> {''admin-loopback'', ''remote-mtls-admin''} \<or> au_tenant actor \<noteq> au_tenant target
      then (Inl PermissionError, st)
      else if expected < 0 then (Inl ValueError, st)
      else case encode_document env ps of
        Inl e \<Rightarrow> (Inl e, st)
      | Inr encoded \<Rightarrow>
          if current_revision key st target \<noteq> expected then (Inl GrantPolicyConflictError, st)
          else (let digest = document_digest encoded; revision = current_revision key st target + 1;
                    who = identity_digest key target;
                    st' = st\<lparr>gs_rows := AList.update who \<lparr>gr_revision = revision, gr_document = document_text encoded,
                              gr_digest = digest, gr_updated = now\<rparr> (gs_rows st),
                             gs_audit := gs_audit st @ [\<lparr>ga_identity = who, ga_revision = revision, ga_digest = digest,
                              ga_actor = identity_digest key actor, ga_source = au_source actor, ga_created = now\<rparr>]\<rparr>
                in (rbind (decode_document env encoded) (\<lambda>providers.
                      Inr \<lparr>sn_revision = revision, sn_providers = providers, sn_digest = digest\<rparr>), st')))"

section \<open>The intersected authorizer\<close>

definition snapshot_permissions :: "grant_snapshot \<Rightarrow> string set" where
  "snapshot_permissions sn = \<Union> ((\<lambda>(name, gs). fst ` set gs) ` set (sn_providers sn))"

definition provider_of :: "grant_snapshot \<Rightarrow> capability_manifest \<Rightarrow> grant_list" where
  "provider_of sn m = (case map_of (sn_providers sn) (cm_provider m) of None \<Rightarrow> [] | Some gs \<Rightarrow> gs)"

definition declared_grants :: "grant_snapshot \<Rightarrow> capability_manifest list \<Rightarrow> (string \<times> permission_constraint option) list" where
  "declared_grants sn ms = concat (map (\<lambda>m. map (\<lambda>p. (p, map_of (provider_of sn m) p)) (cm_permissions m)) ms)"

definition common :: "(permission_constraint \<Rightarrow> string set) \<Rightarrow> permission_constraint list \<Rightarrow> string set" where
  "common field items = \<Inter> (field ` set items)"

definition intersect_constraints :: "host_env \<Rightarrow> string \<Rightarrow> permission_constraint list \<Rightarrow> permission_constraint option result" where
  "intersect_constraints env p items = (case items of
     [] \<Rightarrow> Inr None
   | c # cs \<Rightarrow>
       (let roots = filter (\<lambda>root. \<forall>item \<in> set cs. \<exists>candidate \<in> set (pc_roots item). relative_to root candidate) (pc_roots c);
            combined = \<lparr>pc_roots = roots, pc_hosts = common pc_hosts items, pc_methods = common pc_methods items,
                        pc_commands = common pc_commands items, pc_profiles = common pc_profiles items,
                        pc_aliases = common pc_aliases items\<rparr>
        in case make_authorizer env [(p, combined)] of
             Inl ValueError \<Rightarrow> Inr None | Inl e \<Rightarrow> Inl e | Inr _ \<Rightarrow> Inr (Some combined)))"

definition first_occurrences :: "'a list \<Rightarrow> 'a list" where
  "first_occurrences xs = rev (remdups (rev xs))"

definition grant_for :: "string \<Rightarrow> string \<times> 'c option \<Rightarrow> 'c list" where
  "grant_for p x = (if fst x \<noteq> p then [] else case snd x of None \<Rightarrow> [] | Some c \<Rightarrow> [c])"

definition constraints_for :: "string \<Rightarrow> (string \<times> 'c option) list \<Rightarrow> 'c list" where
  "constraints_for p pairs = concat (map (grant_for p) pairs)"

fun intersect_all ::
  "host_env \<Rightarrow> (string \<times> permission_constraint option) list \<Rightarrow> string list \<Rightarrow> grant_list result" where
  "intersect_all env pairs [] = Inr []"
| "intersect_all env pairs (p # ps) =
     rbind (intersect_constraints env p (constraints_for p pairs)) (\<lambda>combined.
     rbind (intersect_all env pairs ps) (\<lambda>gs.
       Inr (case combined of Some c \<Rightarrow> if (p, None) \<in> set pairs then gs else (p, c) # gs | None \<Rightarrow> gs)))"

definition policy_authorizer :: "host_env \<Rightarrow> grant_snapshot \<Rightarrow> capability_manifest list \<Rightarrow> authorizer result" where
  "policy_authorizer env sn ms =
     (let pairs = declared_grants sn ms;
          granted = first_occurrences (map fst (filter (\<lambda>(p, c). c \<noteq> None) pairs))
      in rbind (intersect_all env pairs granted) (make_authorizer env))"

definition policy_authorize ::
  "host_env \<Rightarrow> grant_snapshot \<Rightarrow> capability_manifest \<Rightarrow> capability_manifest list \<Rightarrow> call_arguments option \<Rightarrow>
   authorization_decision result" where
  "policy_authorize env sn m deps arguments =
     rbind (policy_authorizer env sn (m # deps)) (\<lambda>z. decide_authorization env z m deps arguments)"

section \<open>The intersection is covered by every grant\<close>

lemma relative_trans: "relative_to p q \<Longrightarrow> relative_to q r \<Longrightarrow> relative_to p r"
  unfolding relative_to_def by (metis min_def take_take)

definition roots_resolved :: "host_env \<Rightarrow> permission_constraint \<Rightarrow> bool" where
  "roots_resolved env c \<longleftrightarrow> (\<forall>r \<in> set (pc_roots c). is_absolute r \<and> he_resolve env r = Inr r)"

lemma resolved_roots: "roots_resolved env c \<Longrightarrow> rmap (check_root env) (pc_roots c) = Inr (pc_roots c)"
proof -
  have "\<forall>r \<in> set rs. is_absolute r \<and> he_resolve env r = Inr r \<Longrightarrow> rmap (check_root env) rs = Inr rs" for rs
    by (induction rs) (simp_all add: check_root_def)
  then show "roots_resolved env c \<Longrightarrow> ?thesis" by (simp add: roots_resolved_def)
qed

lemma normalized_fields:
  assumes "normalize_constraint env p c = Inr n"
  shows "rmap (check_root env) (pc_roots c) = Inr (pc_roots n)"
    "pc_hosts n = (\<lambda>h. projr (normal_host env h)) ` pc_hosts c" "pc_methods n = upper ` pc_methods c"
    "pc_commands n = pc_commands c" "pc_profiles n = pc_profiles c" "pc_aliases n = pc_aliases c"
  using assms
  by (auto simp: normalize_constraint_def rbind_eq_Inr normal_hosts_def normal_names_def Let_def split: if_splits)

lemma covers_mono:
  assumes "covers env c k args"
    "\<And>s. k = Filesystem \<Longrightarrow> \<exists>r \<in> set (pc_roots c). relative_to s r \<Longrightarrow> \<exists>r \<in> set (pc_roots d). relative_to s r"
    "pc_hosts c \<subseteq> pc_hosts d" "pc_methods c \<subseteq> pc_methods d" "pc_commands c \<subseteq> pc_commands d"
    "pc_profiles c \<subseteq> pc_profiles d" "pc_aliases c \<subseteq> pc_aliases d"
  shows "covers env d k args"
  using assms by (cases k) (auto simp: covers_def split: option.splits pyval.splits sum.splits)

lemma make_one: "make_authorizer env [(p, c)] = Inr z \<longleftrightarrow>
    p \<in> set supported_permissions \<and> (\<exists>n. normalize_constraint env p c = Inr n \<and> z = [(p, n)])"
  by (auto simp: rbind_eq_Inr)

text \<open>What one grant of the intersection allows, each of the intersected grants allows.\<close>

lemma intersection_covered:
  assumes "intersect_constraints env p items = Inr (Some combined)" "normalize_constraint env p combined = Inr k"
    "covers env k category args" "c \<in> set items"
    "category = Filesystem \<Longrightarrow> \<forall>c \<in> set items. roots_resolved env c" "normalize_constraint env p c = Inr n"
  shows "covers env n category args"
proof (rule covers_mono [OF assms(3)])
  obtain d ds where items: "items = d # ds" using assms(4) by (cases items) auto
  with assms(1) have roots: "pc_roots combined = filter (\<lambda>root. \<forall>item \<in> set ds. \<exists>r \<in> set (pc_roots item). relative_to root r) (pc_roots d)"
    and fields: "pc_hosts combined = common pc_hosts items" "pc_methods combined = common pc_methods items"
      "pc_commands combined = common pc_commands items" "pc_profiles combined = common pc_profiles items"
      "pc_aliases combined = common pc_aliases items"
    by (auto simp: intersect_constraints_def Let_def simp del: make_authorizer.simps split: sum.splits exn.splits)
  have sub: "common f items \<subseteq> f c" for f using assms(4) by (auto simp: common_def)
  note k = normalized_fields [OF assms(2)] and n = normalized_fields [OF assms(6)]
  show "pc_hosts k \<subseteq> pc_hosts n" "pc_methods k \<subseteq> pc_methods n" "pc_commands k \<subseteq> pc_commands n"
    "pc_profiles k \<subseteq> pc_profiles n" "pc_aliases k \<subseteq> pc_aliases n"
    using sub unfolding k n fields by (blast intro!: image_mono)+
  fix s
  assume "category = Filesystem"
  then have "roots_resolved env combined" "roots_resolved env c"
    using assms(4,5) items by (auto simp: roots_resolved_def roots)
  then have kr: "pc_roots k = pc_roots combined" and nr: "pc_roots n = pc_roots c"
    using k(1) n(1) resolved_roots by (auto dest!: resolved_roots)
  assume "\<exists>r \<in> set (pc_roots k). relative_to s r"
  then obtain r where r: "r \<in> set (pc_roots combined)" "relative_to s r" using kr by auto
  have "\<exists>q \<in> set (pc_roots c). relative_to r q"
  proof (cases "c = d")
    case True
    with r(1) roots show ?thesis by (auto simp: relative_to_def)
  next
    case False
    with assms(4) items r(1) roots show ?thesis by auto
  qed
  with r(2) relative_trans nr show "\<exists>r \<in> set (pc_roots n). relative_to s r" by metis
qed

lemma intersect_all_Inr:
  assumes "intersect_all env pairs ps = Inr gs" "map_of gs p = Some c"
  shows "(p, None) \<notin> set pairs \<and> intersect_constraints env p (constraints_for p pairs) = Inr (Some c)"
  using assms by (induction ps arbitrary: gs) (auto simp: rbind_eq_Inr simp del: map_of_eq_Some_iff split: option.splits if_splits)

lemma grant_for_mem [simp]: "c \<in> set (grant_for p x) \<longleftrightarrow> x = (p, Some c)"
  by (cases x; cases "snd x") (auto simp: grant_for_def)

lemma constraints_for_mem: "c \<in> set (constraints_for p pairs) \<longleftrightarrow> (p, Some c) \<in> set pairs"
  by (simp add: constraints_for_def)

lemma declared_mem: "(p, v) \<in> set (declared_grants sn ms) \<longleftrightarrow>
    (\<exists>n \<in> set ms. p \<in> set (cm_permissions n) \<and> v = map_of (provider_of sn n) p)"
  by (auto simp: declared_grants_def)

lemma decode_grants_wf: "decode_grants env raw = Inr gs \<Longrightarrow> (p, c) \<in> set gs \<Longrightarrow> \<exists>n. normalize_constraint env p c = Inr n"
  by (induction raw arbitrary: gs) (auto simp: rbind_eq_Inr split: if_splits)

lemma decode_providers_wf: "decode_providers env raw = Inr ps \<Longrightarrow> (name, gs) \<in> set ps \<Longrightarrow> (p, c) \<in> set gs \<Longrightarrow>
    \<exists>n. normalize_constraint env p c = Inr n"
proof (induction raw arbitrary: ps)
  case (Cons x raw)
  then show ?case
    by (cases x) (auto simp: rbind_eq_Inr split: pyval.splits if_splits, metis decode_grants_wf)
qed simp

lemma read_wf: "read_grants env key st i = Inr sn \<Longrightarrow> (name, gs) \<in> set (sn_providers sn) \<Longrightarrow> (p, c) \<in> set gs \<Longrightarrow>
    \<exists>n. normalize_constraint env p c = Inr n"
  by (auto simp: read_grants_def decode_document_def rbind_eq_Inr split: option.splits pyval.splits dest: decode_providers_wf)

lemma provider_of_grant: "map_of (provider_of sn n) p = Some c \<longleftrightarrow>
    (\<exists>gs. map_of (sn_providers sn) (cm_provider n) = Some gs \<and> map_of gs p = Some c)"
  by (auto simp: provider_of_def simp del: map_of_eq_Some_iff split: option.splits)

lemma policy_confines:
  assumes "read_grants env key st i = Inr sn"
    "permission_category p = Filesystem \<Longrightarrow> \<forall>(name, gs) \<in> set (sn_providers sn). \<forall>(q, c) \<in> set gs. q = p \<longrightarrow> roots_resolved env c"
    "policy_authorize env sn m deps (Some args) = Inr d" "ad_allowed d"
    "n \<in> insert m (set deps)" "p \<in> set (cm_permissions n)"
  shows "\<exists>gs c k. map_of (sn_providers sn) (cm_provider n) = Some gs \<and> map_of gs p = Some c \<and>
    normalize_constraint env p c = Inr k \<and> covers env k (permission_category p) args"
proof -
  let ?pairs = "declared_grants sn (m # deps)"
  obtain z granted gs' where gs': "intersect_all env ?pairs granted = Inr gs'"
    and z: "make_authorizer env gs' = Inr z" and d: "decide_authorization env z m deps (Some args) = Inr d"
    using assms(3) by (auto simp: policy_authorize_def policy_authorizer_def rbind_eq_Inr Let_def)
  obtain combined k where comb: "map_of gs' p = Some combined" "normalize_constraint env p combined = Inr k"
    "covers env k (permission_category p) args"
    using decide_allows_iff [OF z d] assms(4-6) by blast
  note all = intersect_all_Inr [OF gs' comb(1)]
  have n: "n \<in> set (m # deps)" using assms(5) by simp
  then have "map_of (provider_of sn n) p \<noteq> None"
    using all assms(6) declared_mem [of p None sn "m # deps"] by metis
  then obtain c where c: "map_of (provider_of sn n) p = Some c" by blast
  then obtain gs where gs: "map_of (sn_providers sn) (cm_provider n) = Some gs" "map_of gs p = Some c"
    using provider_of_grant by metis
  obtain nc where nc: "normalize_constraint env p c = Inr nc"
    using read_wf [OF assms(1) map_of_SomeD [OF gs(1)] map_of_SomeD [OF gs(2)]] by blast
  have resolved: "\<forall>c \<in> set (constraints_for p ?pairs). roots_resolved env c" if fs: "permission_category p = Filesystem"
  proof
    fix e
    assume "e \<in> set (constraints_for p ?pairs)"
    then obtain o' where "map_of (provider_of sn o') p = Some e"
      by (metis constraints_for_mem declared_mem)
    then obtain hs where "map_of (sn_providers sn) (cm_provider o') = Some hs" "map_of hs p = Some e"
      using provider_of_grant by metis
    then show "roots_resolved env e" using assms(2) [OF fs] by (blast dest: map_of_SomeD)
  qed
  have "c \<in> set (constraints_for p ?pairs)"
    unfolding constraints_for_mem declared_mem using n assms(6) c by metis
  then have "covers env nc (permission_category p) args"
    using intersection_covered [OF conjunct2 [OF all] comb(2,3) _ resolved nc] by blast
  with gs nc show ?thesis by blast
qed

text \<open>
  C17. A call the intersected policy allows is covered by the grant of every provider involved: for
  the capability and each dependency, and every permission it declares, the document that was read
  grants its provider that permission with a constraint that covers the arguments. For a file
  permission this assumes that the path roots the document grants for it, to any provider, are
  absolute and resolve to themselves (\<open>roots_resolved\<close>; the code does not ask for that of
  a stored document); for network, process and secret permissions nothing is assumed. (Without the
  assumption a root that is a symbolic link refutes it, see \<open>linked_root_escapes\<close>.)
\<close>

theorem policy_confines_every_provider:
  assumes "read_grants env key st i = Inr sn"
    "permission_category p = Filesystem \<Longrightarrow> \<forall>(name, gs) \<in> set (sn_providers sn). \<forall>(q, c) \<in> set gs. q = p \<longrightarrow> roots_resolved env c"
    "policy_authorize env sn m deps (Some args) = Inr d" "ad_allowed d"
    "n \<in> insert m (set deps)" "p \<in> set (cm_permissions n)"
  shows "\<exists>gs c k. map_of (sn_providers sn) (cm_provider n) = Some gs \<and> map_of gs p = Some c \<and>
    normalize_constraint env p c = Inr k \<and> covers env k (permission_category p) args"
  using assms by (rule policy_confines)

section \<open>Where the intersection is not one\<close>

text \<open>A symbolic link below the data directory.\<close>

definition linked_env :: host_env where
  "linked_env = plain_env\<lparr>he_resolve := (\<lambda>s. Inr (if s = ''/data/link'' then ''/etc'' else s))\<rparr>"

definition rooted :: "string list \<Rightarrow> permission_constraint" where
  "rooted roots = no_constraint\<lparr>pc_roots := roots\<rparr>"

definition linked_snapshot :: grant_snapshot where
  "linked_snapshot = \<lparr>sn_revision = 1,
     sn_providers = [(''left'', [(''filesystem.read'', rooted [''/data/link''])]),
                     (''right'', [(''filesystem.read'', rooted [''/data''])])],
     sn_digest = []\<rparr>"

definition reads_with :: "string \<Rightarrow> capability_manifest" where
  "reads_with provider = reader\<lparr>cm_provider := provider\<rparr>"

lemma file_read [simp]: "permission_category ''filesystem.read'' = Filesystem" "''filesystem.read'' \<in> set supported_permissions"
  by (simp_all add: permission_category_def supported_permissions_def filesystem_permissions_def)

lemma rooted_normalize: "rmap (check_root env) roots = Inr rs \<Longrightarrow> rs \<noteq> [] \<Longrightarrow>
    normalize_constraint env ''filesystem.read'' (rooted roots) = Inr (rooted rs)"
  by (simp add: rooted_def no_constraint_def normalize_constraint_def normal_hosts_def normal_names_def
      populated_def only_category_def)

lemma rooted_none: "normalize_constraint env ''filesystem.read'' (rooted []) = Inl ValueError"
  by (simp add: rooted_def no_constraint_def normalize_constraint_def normal_hosts_def normal_names_def populated_def)

lemma rooted_fields:
  "pc_roots (rooted rs) = rs" "pc_hosts (rooted rs) = {}" "pc_methods (rooted rs) = {}" "pc_commands (rooted rs) = {}"
  "pc_profiles (rooted rs) = {}" "pc_aliases (rooted rs) = {}"
  "\<lparr>pc_roots = rs, pc_hosts = {}, pc_methods = {}, pc_commands = {}, pc_profiles = {}, pc_aliases = {}\<rparr> = rooted rs"
  by (simp_all add: rooted_def no_constraint_def)

lemma rooted_intersect:
  "intersect_constraints env ''filesystem.read'' [rooted xs, rooted ys] =
     (let rs = filter (\<lambda>root. \<exists>candidate \<in> set ys. relative_to root candidate) xs
      in case make_authorizer env [(''filesystem.read'', rooted rs)] of
           Inl ValueError \<Rightarrow> Inr None | Inl e \<Rightarrow> Inl e | Inr _ \<Rightarrow> Inr (Some (rooted rs)))"
  by (simp add: intersect_constraints_def Let_def common_def rooted_fields del: make_authorizer.simps split: sum.splits exn.splits)

text \<open>The roots are taken of the first provider only, so the order of the providers decides.\<close>

lemma intersection_depends_on_order:
  "intersect_constraints plain_env ''filesystem.read'' [rooted [''/data''], rooted [''/data/a'']] = Inr None"
  "intersect_constraints plain_env ''filesystem.read'' [rooted [''/data/a''], rooted [''/data'']] = Inr (Some (rooted [''/data/a'']))"
proof -
  have rel: "\<not> relative_to ''/data'' ''/data/a''" "relative_to ''/data/a'' ''/data''"
    by (simp_all add: relative_to_def path_anchor_def path_parts_def)
  then show "intersect_constraints plain_env ''filesystem.read'' [rooted [''/data''], rooted [''/data/a'']] = Inr None"
    unfolding rooted_intersect by (simp add: rooted_none)
  have "normalize_constraint plain_env ''filesystem.read'' (rooted [''/data/a'']) = Inr (rooted [''/data/a''])"
    by (rule rooted_normalize) (simp_all add: check_root_def is_absolute_def plain_env_def)
  then show "intersect_constraints plain_env ''filesystem.read'' [rooted [''/data/a''], rooted [''/data'']] =
      Inr (Some (rooted [''/data/a'']))"
    unfolding rooted_intersect using rel by simp
qed

text \<open>
  Roots are compared before links are resolved. When the grants of one provider name a link
  inside the directory granted to the other, the intersected policy allows a read outside every
  directory granted to the other provider.
\<close>

lemma linked_root_escapes:
  "\<exists>d. policy_authorize linked_env linked_snapshot (reads_with ''left'') [reads_with ''right'']
      (Some [(''path'', PyStr ''/etc/passwd'')]) = Inr d \<and> ad_allowed d \<and>
    map_of (provider_of linked_snapshot (reads_with ''right'')) ''filesystem.read'' = Some (rooted [''/data'']) \<and>
    normalize_constraint linked_env ''filesystem.read'' (rooted [''/data'']) = Inr (rooted [''/data'']) \<and>
    \<not> covers linked_env (rooted [''/data'']) Filesystem [(''path'', PyStr ''/etc/passwd'')]"
proof -
  let ?args = "[(''path'', PyStr ''/etc/passwd'')]" and ?m = "reads_with ''left''" and ?n = "reads_with ''right''"
  have prov: "provider_of linked_snapshot ?m = [(''filesystem.read'', rooted [''/data/link''])]"
    "provider_of linked_snapshot ?n = [(''filesystem.read'', rooted [''/data''])]"
    by (simp_all add: provider_of_def linked_snapshot_def reads_with_def)
  have perms: "cm_permissions ?m = [''filesystem.read'']" "cm_permissions ?n = [''filesystem.read'']"
    by (simp_all add: reads_with_def reader_def)
  have rel: "relative_to ''/data/link'' ''/data''" "relative_to ''/etc/passwd'' ''/etc''" "\<not> relative_to ''/etc/passwd'' ''/data''"
    by (simp_all add: relative_to_def path_anchor_def path_parts_def)
  have link: "normalize_constraint linked_env ''filesystem.read'' (rooted [''/data/link'']) = Inr (rooted [''/etc''])"
    by (rule rooted_normalize) (simp_all add: check_root_def is_absolute_def linked_env_def)
  have data: "normalize_constraint linked_env ''filesystem.read'' (rooted [''/data'']) = Inr (rooted [''/data''])"
    by (rule rooted_normalize) (simp_all add: check_root_def is_absolute_def linked_env_def)
  have pairs: "declared_grants linked_snapshot [?m, ?n] =
      [(''filesystem.read'', Some (rooted [''/data/link''])), (''filesystem.read'', Some (rooted [''/data'']))]"
    by (simp add: declared_grants_def prov perms)
  have "intersect_constraints linked_env ''filesystem.read'' [rooted [''/data/link''], rooted [''/data'']] =
      Inr (Some (rooted [''/data/link'']))"
    unfolding rooted_intersect using rel link by simp
  then have z: "policy_authorizer linked_env linked_snapshot [?m, ?n] = Inr [(''filesystem.read'', rooted [''/etc''])]"
    using link by (simp add: policy_authorizer_def pairs first_occurrences_def constraints_for_def grant_for_def)
  have rq: "required_permissions ?m [?n] = [''filesystem.read'']"
    by (simp add: required_permissions_def perms)
  have early: "argument_reasons linked_env [(''filesystem.read'', rooted [''/etc''])] [''filesystem.read''] ?args = Inr []"
    using rel by (simp add: argument_reasons_def among_def filesystem_permissions_def network_permissions_def
        process_permissions_def secret_permissions_def path_reasons_def is_absolute_def linked_env_def rooted_def
        undeclared_reasons_def casefold_def raw_secret_fields_def ordered_reasons_def)
  then have d: "\<exists>d. policy_authorize linked_env linked_snapshot ?m [?n] (Some ?args) = Inr d \<and> ad_allowed d"
    using z by (simp add: policy_authorize_def decide_authorization_def rq ordered_reasons_def Let_def)
  moreover have "\<not> covers linked_env (rooted [''/data'']) Filesystem ?args"
    using rel(3) by (simp add: covers_def linked_env_def rooted_def)
  ultimately show ?thesis using data prov(2) by simp
qed

section \<open>What is set is read back\<close>

definition finite_constraint :: "permission_constraint \<Rightarrow> bool" where
  "finite_constraint c \<longleftrightarrow> finite (pc_hosts c) \<and> finite (pc_methods c) \<and> finite (pc_commands c)
     \<and> finite (pc_profiles c) \<and> finite (pc_aliases c)"

definition grant_in :: "provider_grants \<Rightarrow> string \<Rightarrow> string \<Rightarrow> permission_constraint option" where
  "grant_in ps name p = (case map_of ps name of None \<Rightarrow> None | Some gs \<Rightarrow> map_of gs p)"

lemma text_list_texts [simp]: "text_list (Some (texts xs)) = Inr xs"
proof -
  have "rmap text_of (map PyStr xs) = Inr xs" by (induction xs) simp_all
  then show ?thesis by (simp add: texts_def)
qed

lemma canonical_texts [simp]: "canonical (texts xs) = texts xs" "json_plain (texts xs)"
  by (simp_all add: texts_def comp_def list_all_iff)

lemma constraint_keys: "distinct constraint_fields"
  by (simp add: constraint_fields_def)

lemma decode_encode:
  assumes "finite_constraint c"
  shows "decode_constraint (encode_constraint c) = Inr c" "decode_constraint (canonical (encode_constraint c)) = Inr c"
    "json_plain (encode_constraint c)"
proof -
  obtain d where d: "encode_constraint c = PyDict d" "map fst d = constraint_fields" "list_all (\<lambda>(k, v). json_plain v) d"
    "text_list (map_of d ''path_roots'') = Inr (pc_roots c)" "text_list (map_of d ''hosts'') = Inr (sorted_list_of_set (pc_hosts c))"
    "text_list (map_of d ''http_methods'') = Inr (sorted_list_of_set (pc_methods c))"
    "text_list (map_of d ''commands'') = Inr (sorted_list_of_set (pc_commands c))"
    "text_list (map_of d ''profiles'') = Inr (sorted_list_of_set (pc_profiles c))"
    "text_list (map_of d ''secret_aliases'') = Inr (sorted_list_of_set (pc_aliases c))"
    "\<forall>(k, v) \<in> set d. canonical v = v"
    by (simp add: encode_constraint_def constraint_fields_def)
  then have ok: "dict_ok d" using constraint_keys by simp
  have keys: "fst ` set d = set constraint_fields" using d(2) by (metis list.set_map)
  show one: "decode_constraint (encode_constraint c) = Inr c"
    using d keys assms by (simp add: decode_constraint_def finite_constraint_def)
  have "map (\<lambda>(k, v). (k, canonical v)) (sort_key fst d) = sort_key fst d"
    using d(10) by (intro map_idI) auto
  then have "canonical (encode_constraint c) = PyDict (sort_key fst d)" by (simp add: d(1) canonical_dict del: canonical.simps)
  moreover have "map_of (sort_key fst d) = map_of d" using ok by (rule map_of_sort_key)
  ultimately show "decode_constraint (canonical (encode_constraint c)) = Inr c"
    using one keys by (simp add: decode_constraint_def d(1) del: canonical.simps)
  show "json_plain (encode_constraint c)" using d ok by simp
qed

lemma encode_grants_back:
  assumes "encode_grants env gs = Inr es" "\<forall>(p, c) \<in> set gs. finite_constraint c"
  shows "decode_grants env es = Inr gs" "decode_grants env (map (\<lambda>(k, v). (k, canonical v)) es) = Inr gs"
    "map fst es = map fst gs" "list_all (\<lambda>(k, v). json_plain v) es"
  using assms
  by (induction gs arbitrary: es)
    (auto simp: rbind_eq_Inr decode_encode simp del: canonical.simps json_plain.simps make_authorizer.simps)

abbreviation ordered_grants :: "provider_grants \<Rightarrow> provider_grants" where
  "ordered_grants ps \<equiv> map (\<lambda>(name, gs). (name, sort_key fst gs)) ps"

definition grants_ok :: "provider_grants \<Rightarrow> bool" where
  "grants_ok ps \<longleftrightarrow> dict_ok ps \<and> (\<forall>(name, gs) \<in> set ps. dict_ok gs \<and> (\<forall>(p, c) \<in> set gs. finite_constraint c))"

lemma encode_providers_back:
  assumes "encode_providers env ps = Inr d" "\<forall>(name, gs) \<in> set ps. dict_ok gs \<and> (\<forall>(p, c) \<in> set gs. finite_constraint c)"
  shows "decode_providers env d = Inr (ordered_grants ps)"
    "decode_providers env (map (\<lambda>(k, v). (k, canonical v)) d) = Inr (ordered_grants ps)"
    "map fst d = map fst ps" "list_all (\<lambda>(k, v). json_plain v) d"
proof -
  have "decode_providers env d = Inr (ordered_grants ps) \<and>
      decode_providers env (map (\<lambda>(k, v). (k, canonical v)) d) = Inr (ordered_grants ps) \<and>
      map fst d = map fst ps \<and> list_all (\<lambda>(k, v). json_plain v) d"
    using assms
  proof (induction ps arbitrary: d)
    case (Cons x ps)
    obtain name gs where x: "x = (name, gs)" by (cases x)
    with Cons.prems obtain es rest where es: "encode_grants env (sort_key fst gs) = Inr es"
      and rest: "encode_providers env ps = Inr rest" and d: "d = (name, PyDict es) # rest" and name: "name \<noteq> []"
      by (auto simp: rbind_eq_Inr split: if_splits)
    have fin: "\<forall>(p, c) \<in> set (sort_key fst gs). finite_constraint c" and ok: "dict_ok (sort_key fst gs)"
      using Cons.prems(2) x by auto
    note rt = encode_grants_back [OF es fin]
    have "sorted (map fst es)" unfolding rt(3) by (rule sorted_sort_key)
    then have "canonical (PyDict es) = PyDict (map (\<lambda>(k, v). (k, canonical v)) es)"
      by (simp add: canonical_dict sort_key_id_if_sorted del: canonical.simps)
    moreover have "json_plain (PyDict es)" using rt(3,4) ok by simp
    ultimately show ?case
      using Cons.IH [OF rest] Cons.prems(2) rt(1,2) name x d by (simp del: canonical.simps json_plain.simps)
  qed simp
  then show "decode_providers env d = Inr (ordered_grants ps)"
    "decode_providers env (map (\<lambda>(k, v). (k, canonical v)) d) = Inr (ordered_grants ps)"
    "map fst d = map fst ps" "list_all (\<lambda>(k, v). json_plain v) d" by blast+
qed

lemma document_back:
  assumes "encode_document env ps = Inr v" "grants_ok ps"
  shows "decode_document env v = Inr (ordered_grants (sort_key fst ps))"
    "json_loads (document_text v) = Some (canonical v)" "decode_document env (canonical v) = decode_document env v"
proof -
  obtain d where d: "encode_providers env (sort_key fst ps) = Inr d" "v = PyDict d"
    using assms(1) by (auto simp: encode_document_def rbind_eq_Inr)
  have "\<forall>(name, gs) \<in> set (sort_key fst ps). dict_ok gs \<and> (\<forall>(p, c) \<in> set gs. finite_constraint c)"
    using assms(2) by (simp add: grants_ok_def)
  note rt = encode_providers_back [OF d(1) this]
  show one: "decode_document env v = Inr (ordered_grants (sort_key fst ps))"
    using rt(1) by (simp add: decode_document_def d(2))
  have "dict_ok (sort_key fst ps)" using assms(2) by (simp add: grants_ok_def)
  then have "json_plain v" using rt(3,4) by (simp add: d(2))
  then show "json_loads (document_text v) = Some (canonical v)"
    unfolding document_text_def by (rule loads_dumps)
  have "sorted (map fst d)" unfolding rt(3) by (rule sorted_sort_key)
  then have "canonical v = PyDict (map (\<lambda>(k, v). (k, canonical v)) d)"
    by (simp add: d(2) canonical_dict sort_key_id_if_sorted del: canonical.simps)
  then show "decode_document env (canonical v) = decode_document env v"
    using rt(2) one by (simp add: decode_document_def)
qed

lemma grant_in_ordered: "grants_ok ps \<Longrightarrow> grant_in (ordered_grants (sort_key fst ps)) name p = grant_in ps name p"
proof -
  assume ok: "grants_ok ps"
  have "map_of (ordered_grants (sort_key fst ps)) name = map_option (sort_key fst) (map_of (sort_key fst ps) name)"
    by (simp add: map_of_map)
  also have "map_of (sort_key fst ps) = map_of ps" using ok by (intro map_of_sort_key) (simp add: grants_ok_def)
  finally have eq: "map_of (ordered_grants (sort_key fst ps)) name = map_option (sort_key fst) (map_of ps name)" .
  show ?thesis
  proof (cases "map_of ps name")
    case (Some gs)
    then have "dict_ok gs" using ok by (auto simp: grants_ok_def dest: map_of_SomeD)
    with Some eq show ?thesis by (simp add: grant_in_def map_of_sort_key del: map_of_eq_Some_iff)
  qed (simp add: eq grant_in_def)
qed

text \<open>The message an identity digest is computed from determines the tenant, the principal and the source.\<close>

definition identity_message :: "auth_identity \<Rightarrow> nat list" where
  "identity_message i = utf8 ''grant-policy-v1'' @ [0] @
     utf8 (json_dumps False True (\<lambda>_. []) (texts [au_tenant i, au_principal i, au_source i]))"

definition same_actor :: "auth_identity \<Rightarrow> auth_identity \<Rightarrow> bool" where
  "same_actor i j \<longleftrightarrow> au_tenant i = au_tenant j \<and> au_principal i = au_principal j \<and> au_source i = au_source j"

lemma identity_message_inj: "identity_message i = identity_message j \<longleftrightarrow> same_actor i j"
  by (auto simp: identity_message_def texts_def same_actor_def)

lemma identity_digest_message: "identity_digest key i = hmac_hex key (identity_message i)"
  by (simp add: identity_digest_def identity_message_def)

lemma same_actor_digest: "same_actor i j \<Longrightarrow> identity_digest key i = identity_digest key j"
  by (metis identity_digest_message identity_message_inj)

text \<open>
  C40. A policy change that succeeds was made on the expected revision. Reading the target's policy
  afterwards gives the returned snapshot, with the next revision and exactly the grants that were
  set, after the JSON text was parsed and validated again; every identity with the target's tenant,
  principal and source, whatever its session, reads that snapshot. Every other identity reads what
  it read before, unless the HMAC messages of that identity and of the target, which then differ,
  have the same HMAC. The grants set name each provider, and each permission of a provider, once,
  and their sets are finite (\<open>grants_ok\<close>).
\<close>

theorem grants_read_back:
  assumes "set_grants env key st actor target ps expected now = (Inr sn, st')" "grants_ok ps"
  shows "current_revision key st target = expected \<and> sn_revision sn = expected + 1 \<and>
    read_grants env key st' target = Inr sn \<and> grant_in (sn_providers sn) name p = grant_in ps name p \<and>
    (if au_tenant other = au_tenant target \<and> au_principal other = au_principal target \<and> au_source other = au_source target
     then read_grants env key st' other = Inr sn
     else read_grants env key st' other = read_grants env key st other \<or>
       identity_message other \<noteq> identity_message target \<and>
         hmac_hex key (identity_message other) = hmac_hex key (identity_message target))"
proof -
  obtain v where v: "encode_document env ps = Inr v"
    using assms(1) by (auto simp: set_grants_def split: if_splits sum.splits)
  note rt = document_back [OF v assms(2)]
  let ?row = "\<lparr>gr_revision = expected + 1, gr_document = document_text v, gr_digest = document_digest v, gr_updated = now\<rparr>"
  have rev: "current_revision key st target = expected"
    and sn: "sn = \<lparr>sn_revision = expected + 1, sn_providers = ordered_grants (sort_key fst ps), sn_digest = document_digest v\<rparr>"
    and rows: "gs_rows st' = AList.update (identity_digest key target) ?row (gs_rows st)"
    using assms(1) v rt(1) by (auto simp: set_grants_def Let_def split: if_splits)
  have read: "read_grants env key st' i =
      (if identity_digest key i = identity_digest key target then Inr sn else read_grants env key st i)" for i
    by (simp add: read_grants_def rows rt sn)
  have "if same_actor other target then read_grants env key st' other = Inr sn
     else read_grants env key st' other = read_grants env key st other \<or>
       identity_message other \<noteq> identity_message target \<and>
         hmac_hex key (identity_message other) = hmac_hex key (identity_message target)"
    using read [of other] same_actor_digest [of other target key]
    by (auto simp: identity_message_inj identity_digest_message)
  with rev read [of target] show ?thesis
    using grant_in_ordered [OF assms(2)] by (simp add: sn same_actor_def)
qed

definition example_actor :: auth_identity where
  "example_actor = \<lparr>au_tenant = ''t'', au_principal = ''root'', au_source = ''admin-loopback'', au_session = ''s''\<rparr>"

definition data_grants :: provider_grants where
  "data_grants = [(''left'', [(''filesystem.read'', rooted [''/data''])])]"

lemma data_grants_ok: "grants_ok data_grants"
  by (simp add: grants_ok_def data_grants_def finite_constraint_def rooted_fields)

lemma data_normalize: "normalize_constraint plain_env ''filesystem.read'' (rooted [''/data'']) = Inr (rooted [''/data''])"
  by (rule rooted_normalize) (simp_all add: check_root_def is_absolute_def plain_env_def)

lemma data_set:
  obtains sn st' where
    "set_grants plain_env [] \<lparr>gs_rows = [], gs_audit = []\<rparr> example_actor example_actor data_grants 0 0 = (Inr sn, st')"
    "sn_providers sn = data_grants" "read_grants plain_env [] st' example_actor = Inr sn"
proof -
  let ?st = "\<lparr>gs_rows = [], gs_audit = []\<rparr> :: grant_store"
  obtain v where v: "encode_document plain_env data_grants = Inr v"
    using data_normalize by (simp add: encode_document_def data_grants_def)
  note rt = document_back [OF v data_grants_ok]
  have ordered: "ordered_grants (sort_key fst data_grants) = data_grants" by (simp add: data_grants_def)
  obtain sn st' where set: "set_grants plain_env [] ?st example_actor example_actor data_grants 0 0 = (Inr sn, st')"
    and sn: "sn_providers sn = data_grants"
    using v rt(1) unfolding ordered by (simp add: set_grants_def example_actor_def current_revision_def Let_def)
  moreover have "read_grants plain_env [] st' example_actor = Inr sn"
    using set v rt ordered by (auto simp: set_grants_def example_actor_def current_revision_def Let_def read_grants_def)
  ultimately show thesis using that by blast
qed

lemma grants_read_back_witness:
  "\<exists>sn st'. set_grants plain_env [] \<lparr>gs_rows = [], gs_audit = []\<rparr> example_actor example_actor data_grants 0 0 = (Inr sn, st') \<and>
     read_grants plain_env [] st' (example_actor\<lparr>au_session := ''s2''\<rparr>) = Inr sn \<and> sn_revision sn = 1"
proof -
  obtain sn st' where set: "set_grants plain_env [] \<lparr>gs_rows = [], gs_audit = []\<rparr> example_actor example_actor data_grants 0 0 = (Inr sn, st')"
    using data_set by metis
  with grants_read_back [OF set data_grants_ok, of _ _ "example_actor\<lparr>au_session := ''s2''\<rparr>"] show ?thesis by auto
qed

text \<open>Whatever the provider declares, the data directory of the document can be read.\<close>

lemma data_authorized:
  assumes "cm_permissions m = [''filesystem.read'']" "cm_provider m = ''left''" "sn_providers sn = data_grants"
  obtains d where "policy_authorize plain_env sn m [] (Some [(''path'', PyStr ''/data/notes.txt'')]) = Inr d" "ad_allowed d"
proof -
  let ?args = "[(''path'', PyStr ''/data/notes.txt'')]"
  have prov: "provider_of sn m = [(''filesystem.read'', rooted [''/data''])]"
    by (simp add: provider_of_def assms data_grants_def)
  have rel: "relative_to ''/data/notes.txt'' ''/data''"
    by (simp add: relative_to_def path_anchor_def path_parts_def)
  have "intersect_constraints plain_env ''filesystem.read'' [rooted [''/data'']] = Inr (Some (rooted [''/data'']))"
    using data_normalize by (simp add: intersect_constraints_def common_def rooted_fields)
  then have z: "policy_authorizer plain_env sn [m] = Inr [(''filesystem.read'', rooted [''/data''])]"
    using data_normalize by (simp add: policy_authorizer_def declared_grants_def prov assms first_occurrences_def constraints_for_def grant_for_def)
  have rq: "required_permissions m [] = [''filesystem.read'']"
    by (simp add: required_permissions_def assms)
  have "argument_reasons plain_env [(''filesystem.read'', rooted [''/data''])] [''filesystem.read''] ?args = Inr []"
    using rel by (simp add: argument_reasons_def among_def filesystem_permissions_def network_permissions_def
        process_permissions_def secret_permissions_def path_reasons_def is_absolute_def plain_env_def rooted_def
        undeclared_reasons_def casefold_def raw_secret_fields_def ordered_reasons_def)
  then show ?thesis using z that by (simp add: policy_authorize_def decide_authorization_def rq ordered_reasons_def Let_def)
qed

lemma data_resolved: "sn_providers sn = data_grants \<Longrightarrow>
    \<forall>(name, gs) \<in> set (sn_providers sn). \<forall>(q, c) \<in> set gs. q = p \<longrightarrow> roots_resolved plain_env c"
  by (simp add: data_grants_def roots_resolved_def rooted_fields is_absolute_def plain_env_def)

lemma policy_confines_every_provider_witness:
  "\<exists>st sn d gs c k. read_grants plain_env [] st example_actor = Inr sn \<and>
     policy_authorize plain_env sn (reads_with ''left'') [] (Some [(''path'', PyStr ''/data/notes.txt'')]) = Inr d \<and> ad_allowed d \<and>
     map_of (sn_providers sn) ''left'' = Some gs \<and> map_of gs ''filesystem.read'' = Some c \<and>
     normalize_constraint plain_env ''filesystem.read'' c = Inr k \<and>
     covers plain_env k Filesystem [(''path'', PyStr ''/data/notes.txt'')]"
proof -
  let ?m = "reads_with ''left''"
  obtain st sn where rd: "read_grants plain_env [] st example_actor = Inr sn" and sn: "sn_providers sn = data_grants"
    using data_set by metis
  have perms: "cm_permissions ?m = [''filesystem.read'']" "cm_provider ?m = ''left''"
    by (simp_all add: reads_with_def reader_def)
  obtain d where d: "policy_authorize plain_env sn ?m [] (Some [(''path'', PyStr ''/data/notes.txt'')]) = Inr d" "ad_allowed d"
    using data_authorized [OF perms sn] by blast
  have "?m \<in> insert ?m (set [])" "''filesystem.read'' \<in> set (cm_permissions ?m)" using perms by simp_all
  from policy_confines_every_provider [OF rd data_resolved [OF sn] d this] rd d show ?thesis unfolding perms file_read by blast
qed

end
