(* ===== verification/Hierarchical.thy ===== *)
theory Hierarchical
  imports Budget Residency Python_Text
begin

text \<open>
  The durable hierarchical budget, \<open>src/src/capabilityhub/hierarchical_budget.py\<close>. Each SQLite
  table is an association list keyed by its primary key; a write runs in one \<open>BEGIN IMMEDIATE\<close>
  transaction that commits or leaves the tables as they were. \<open>amounts_json\<close> is kept as the
  dictionary it encodes. SQLite integers have 64 bits: a larger Python integer cannot be bound,
  and a sum computed by SQLite that leaves the range becomes a binary64 number. The key file
  functions only read and write a file and are left out.
\<close>

section \<open>Tables\<close>

record scope_row =
  sw_root :: string
  sw_parent :: "string option"
  sw_depth :: int

datatype reservation_status = ACTIVE | RECONCILED | RELEASED

record reservation_row =
  rw_root :: string
  rw_scope :: string
  rw_amounts :: "(string \<times> pyval) list"
  rw_status :: reservation_status

record budget_tables =
  bt_roots :: "string list"
  bt_scopes :: "(string \<times> scope_row) list"
  bt_limits :: "((string \<times> string) \<times> int) list"
  bt_counters :: "((string \<times> string) \<times> int \<times> int) list"
  bt_reservations :: "(string \<times> reservation_row) list"

text \<open>A \<open>HierarchicalBudgetScope\<close> names its row; it holds no counters itself.\<close>

record budget_scope =
  sc_root :: string
  sc_id :: string
  sc_parent :: "string option"
  sc_depth :: int

record durable_reservation =
  dv_scope :: budget_scope
  dv_id :: string
  dv_amounts :: "(string \<times> int) list"

abbreviation max_scopes :: int where "max_scopes \<equiv> 1000"
abbreviation max_counters :: nat where "max_counters \<equiv> 100"
abbreviation max_depth :: nat where "max_depth \<equiv> 64"

definition no_tables :: budget_tables where
  "no_tables = \<lparr>bt_roots = [], bt_scopes = [], bt_limits = [], bt_counters = [], bt_reservations = []\<rparr>"

definition corrupt_state :: exn where
  "corrupt_state = HubError ''budget_state_invalid'' INTERNAL False []"

definition unknown_scope :: exn where
  "unknown_scope = HubError ''unknown_budget_scope'' REFERENCE False []"

definition unknown_reservation :: exn where
  "unknown_reservation = HubError ''unknown_budget_reservation'' REFERENCE False []"

definition inactive_reservation :: exn where
  "inactive_reservation = HubError ''budget_reservation_inactive'' BUDGET False []"

definition budget_conflict :: "string \<Rightarrow> exn" where
  "budget_conflict code = HubError code CONFLICT False []"

section \<open>SQLite integers\<close>

definition bind_int :: "int \<Rightarrow> int result" where
  "bind_int n = (if - (2 ^ 63) \<le> n \<and> n < 2 ^ 63 then Inr n else Inl OverflowError)"

definition to_double :: "int \<Rightarrow> int" where
  "to_double n =
     (let k = bit_length (nat n) - 53
      in if k = 0 then n else round_half_even (of_int n / 2 ^ k) * 2 ^ k)"

definition sqlite_add :: "int \<Rightarrow> int \<Rightarrow> int" where
  "sqlite_add a b = (if a + b < 2 ^ 63 then a + b else to_double (to_double a + to_double b))"

section \<open>Rows\<close>

definition transaction :: "budget_tables \<Rightarrow> ('a \<times> budget_tables) result \<Rightarrow> 'a result \<times> budget_tables" where
  "transaction db r = (case r of Inl e \<Rightarrow> (Inl e, db) | Inr (x, db') \<Rightarrow> (Inr x, db'))"

definition bounded_pairs :: "((string \<times> string) \<times> 'v) list \<Rightarrow> string \<Rightarrow> (string \<times> 'v) list result" where
  "bounded_pairs table scope =
     (let rows = take (Suc max_counters)
            (sort_key fst (map (\<lambda>((s, c), v). (c, v)) (filter (\<lambda>((s, c), v). s = scope) table)))
      in if max_counters < length rows then Inl corrupt_state else Inr rows)"

definition read_limits :: "budget_tables \<Rightarrow> string \<Rightarrow> (string \<times> int) list result" where
  "read_limits db scope = bounded_pairs (bt_limits db) scope"

fun write_limits :: "budget_tables \<Rightarrow> string \<Rightarrow> (string \<times> int) list \<Rightarrow> budget_tables result" where
  "write_limits db scope [] = Inr db"
| "write_limits db scope ((c, n) # rest) =
     rbind (bind_int n) (\<lambda>n. write_limits (db\<lparr>bt_limits := AList.update (scope, c) n (bt_limits db)\<rparr>) scope rest)"

definition counter_row :: "budget_tables \<Rightarrow> string \<Rightarrow> string \<Rightarrow> int \<times> int" where
  "counter_row db scope c = (case map_of (bt_counters db) (scope, c) of None \<Rightarrow> (0, 0) | Some p \<Rightarrow> p)"

definition child_limits :: "budget_tables \<Rightarrow> string \<Rightarrow> string \<Rightarrow> string option \<Rightarrow> int list" where
  "child_limits db parent c excluding =
     List.map_filter (\<lambda>(s, row). if sw_parent row = Some parent \<and> excluding \<noteq> Some s
       then map_of (bt_limits db) (s, c) else None) (bt_scopes db)"

text \<open>\<open>SUM\<close> fails on an integer overflow.\<close>

definition child_allocation :: "budget_tables \<Rightarrow> string \<Rightarrow> string \<Rightarrow> string option \<Rightarrow> int result" where
  "child_allocation db parent c excluding =
     (let total = sum_list (child_limits db parent c excluding)
      in if total < 2 ^ 63 then Inr total else Inl DatabaseError)"

fun check_parent_allocation ::
  "budget_tables \<Rightarrow> string \<Rightarrow> (string \<times> int) list \<Rightarrow> (string \<times> int) list \<Rightarrow> string option \<Rightarrow> unit result" where
  "check_parent_allocation db parent parent_limits [] excluding = Inr ()"
| "check_parent_allocation db parent parent_limits ((c, requested) # rest) excluding =
     (case map_of parent_limits c of
        None \<Rightarrow> check_parent_allocation db parent parent_limits rest excluding
      | Some limit \<Rightarrow>
          rbind (child_allocation db parent c excluding) (\<lambda>allocated.
            if limit < allocated + requested
            then Inl (budget_exceeded parent c limit (allocated + requested))
            else check_parent_allocation db parent parent_limits rest excluding))"

definition allocation_check ::
  "budget_tables \<Rightarrow> string \<Rightarrow> (string \<times> int) list \<Rightarrow> string option \<Rightarrow> unit result" where
  "allocation_check db parent limits excluding =
     rbind (read_limits db parent) (\<lambda>pl. check_parent_allocation db parent pl limits excluding)"

definition scope_metadata :: "budget_tables \<Rightarrow> budget_scope \<Rightarrow> (string option \<times> int) result" where
  "scope_metadata db sc =
     (case map_of (bt_scopes db) (sc_id sc) of
        Some row \<Rightarrow> if sw_root row = sc_root sc then Inr (sw_parent row, sw_depth row) else Inl unknown_scope
      | None \<Rightarrow> Inl unknown_scope)"

text \<open>\<open>_chain\<close>: from the leaf up to the scope without a parent, which must be the root.\<close>

function walk_up :: "budget_tables \<Rightarrow> string \<Rightarrow> string list \<Rightarrow> string option \<Rightarrow> string list result" where
  "walk_up db rt chain current =
     (case current of
        None \<Rightarrow> Inr chain
      | Some s \<Rightarrow>
          if s \<in> set chain \<or> max_depth < length chain then Inl corrupt_state
          else case map_of (bt_scopes db) s of
            None \<Rightarrow> Inl unknown_scope
          | Some row \<Rightarrow>
              if sw_root row \<noteq> rt then Inl unknown_scope
              else walk_up db rt (chain @ [s]) (sw_parent row))"
  by pat_completeness auto
termination
  by (relation "measure (\<lambda>(_, _, chain, _). Suc max_depth - length chain)") auto

declare walk_up.simps [simp del]

definition scope_chain :: "budget_tables \<Rightarrow> string \<Rightarrow> string \<Rightarrow> string list result" where
  "scope_chain db rt leaf =
     rbind (walk_up db rt [] (Some leaf)) (\<lambda>chain.
       if chain = [] \<or> last chain \<noteq> rt then Inl corrupt_state else Inr (rev chain))"

fun check_counters ::
  "budget_tables \<Rightarrow> string \<Rightarrow> (string \<times> int) list \<Rightarrow> (string \<times> int) list \<Rightarrow> (string \<times> int) list \<Rightarrow> unit result" where
  "check_counters db scope limits replaced [] = Inr ()"
| "check_counters db scope limits replaced ((c, amount) # rest) =
     (case map_of limits c of
        None \<Rightarrow> check_counters db scope limits replaced rest
      | Some limit \<Rightarrow>
          (let (used, held) = counter_row db scope c;
               requested_total = used + held - amt replaced c + amount
           in if limit < requested_total
              then Inl (budget_exceeded scope c limit requested_total)
              else check_counters db scope limits replaced rest))"

fun check_scopes ::
  "budget_tables \<Rightarrow> string list \<Rightarrow> (string \<times> int) list \<Rightarrow> (string \<times> int) list \<Rightarrow> unit result" where
  "check_scopes db [] replaced amounts = Inr ()"
| "check_scopes db (s # ss) replaced amounts =
     rbind (read_limits db s) (\<lambda>limits.
       rbind (check_counters db s limits replaced amounts) (\<lambda>_. check_scopes db ss replaced amounts))"

definition counter_names :: "budget_tables \<Rightarrow> string \<Rightarrow> string list" where
  "counter_names db scope =
     map snd (filter (\<lambda>k. fst k = scope) (map fst (bt_limits db) @ map fst (bt_counters db)))"

fun counter_bounds :: "budget_tables \<Rightarrow> string list \<Rightarrow> (string \<times> int) list \<Rightarrow> unit result" where
  "counter_bounds db [] amounts = Inr ()"
| "counter_bounds db (s # ss) amounts =
     (if max_counters < length (remdups (counter_names db s @ map fst amounts))
      then Inl (HubError ''budget_counter_limit'' BUDGET False [])
      else counter_bounds db ss amounts)"

fun add_reserved :: "budget_tables \<Rightarrow> string \<Rightarrow> (string \<times> int) list \<Rightarrow> budget_tables result" where
  "add_reserved db scope [] = Inr db"
| "add_reserved db scope ((c, n) # rest) =
     rbind (bind_int n) (\<lambda>n.
       let (used, held) = counter_row db scope c
       in add_reserved (db\<lparr>bt_counters := AList.update (scope, c) (used, sqlite_add held n) (bt_counters db)\<rparr>)
            scope rest)"

fun add_reserved_all :: "budget_tables \<Rightarrow> string list \<Rightarrow> (string \<times> int) list \<Rightarrow> budget_tables result" where
  "add_reserved_all db [] amounts = Inr db"
| "add_reserved_all db (s # ss) amounts =
     rbind (add_reserved db s amounts) (\<lambda>db'. add_reserved_all db' ss amounts)"

text \<open>
  \<open>_replace_reserved\<close> visits the union of the two key sets; each counter is treated on its own,
  so the order only decides which of several errors is raised.
\<close>

fun replace_counters ::
  "budget_tables \<Rightarrow> string \<Rightarrow> (string \<times> int) list \<Rightarrow> (string \<times> int) list \<Rightarrow> string list \<Rightarrow> budget_tables result" where
  "replace_counters db scope held_amounts charged [] = Inr db"
| "replace_counters db scope held_amounts charged (c # rest) =
     (let (used, held) = counter_row db scope c; remaining = held - amt held_amounts c
      in if remaining < 0 then Inl corrupt_state
         else rbind (bind_int (used + amt charged c)) (\<lambda>u. rbind (bind_int remaining) (\<lambda>r.
           replace_counters (db\<lparr>bt_counters := AList.update (scope, c) (u, r) (bt_counters db)\<rparr>)
             scope held_amounts charged rest)))"

fun replace_reserved_all ::
  "budget_tables \<Rightarrow> string list \<Rightarrow> (string \<times> int) list \<Rightarrow> (string \<times> int) list \<Rightarrow> budget_tables result" where
  "replace_reserved_all db [] held_amounts charged = Inr db"
| "replace_reserved_all db (s # ss) held_amounts charged =
     rbind (replace_counters db s held_amounts charged (remdups (map fst held_amounts @ map fst charged)))
       (\<lambda>db'. replace_reserved_all db' ss held_amounts charged)"

section \<open>Inputs\<close>

definition bounded_counters :: "(string \<times> int) list \<Rightarrow> (string \<times> int) list result" where
  "bounded_counters xs = (if max_counters < length xs then Inl ValueError else Inr xs)"

definition hard_limits :: "(string \<times> pyval) list \<Rightarrow> (string \<times> int) list result" where
  "hard_limits limits =
     rbind (validate_amounts False limits) (\<lambda>xs. if xs = [] then Inl ValueError else bounded_counters xs)"

definition budget_amounts :: "(string \<times> pyval) list \<Rightarrow> (string \<times> int) list result" where
  "budget_amounts amounts = rbind (validate_amounts True amounts) bounded_counters"

definition scope_name :: "string \<Rightarrow> string result" where
  "scope_name s = (if s = [] \<or> 4096 < length s then Inl ValueError else Inr s)"

definition is_hex :: "char \<Rightarrow> bool" where
  "is_hex ch = (ch \<in> set ''0123456789abcdef'')"

definition opaque_id :: "string \<Rightarrow> unit result" where
  "opaque_id s = (if length s \<noteq> 64 \<or> \<not> list_all is_hex s then Inl unknown_scope else Inr ())"

definition reservation_id :: "string \<Rightarrow> unit result" where
  "reservation_id s = (if length s \<noteq> 32 \<or> \<not> list_all is_hex s then Inl unknown_reservation else Inr ())"

definition encode_amounts :: "(string \<times> int) list \<Rightarrow> (string \<times> pyval) list" where
  "encode_amounts xs = map (\<lambda>(c, n). (c, PyInt n)) (sort_key fst xs)"

definition decode_amounts :: "(string \<times> pyval) list \<Rightarrow> (string \<times> int) list result" where
  "decode_amounts raw = (case validate_amounts True raw of Inl _ \<Rightarrow> Inl corrupt_state | Inr xs \<Rightarrow> Inr xs)"

definition length_prefix :: "nat \<Rightarrow> nat list" where
  "length_prefix n = map (\<lambda>i. n div 256 ^ i mod 256) [7, 6, 5, 4, 3, 2, 1, 0]"

definition scope_digest :: "nat list \<Rightarrow> string \<Rightarrow> string list \<Rightarrow> string" where
  "scope_digest key label parts =
     hmac_hex key (utf8 label @ concat (map (\<lambda>p. length_prefix (length (utf8 p)) @ utf8 p) parts))"

definition dict_equal :: "('k \<times> 'v) list \<Rightarrow> ('k \<times> 'v) list \<Rightarrow> bool" where
  "dict_equal a b \<longleftrightarrow> length a = length b \<and> set a = set b"

section \<open>Operations\<close>

definition insert_scope ::
  "budget_tables \<Rightarrow> string \<Rightarrow> scope_row \<Rightarrow> (string \<times> int) list \<Rightarrow> budget_tables result" where
  "insert_scope db s row limits = write_limits (db\<lparr>bt_scopes := bt_scopes db @ [(s, row)]\<rparr>) s limits"

definition store_root ::
  "budget_tables \<Rightarrow> nat list \<Rightarrow> string \<Rightarrow> (string \<times> pyval) list \<Rightarrow> budget_scope result \<times> budget_tables" where
  "store_root db key name limits =
     (case rbind (scope_name name) (\<lambda>_. hard_limits limits) of
        Inl e \<Rightarrow> (Inl e, db)
      | Inr normalized \<Rightarrow>
          (let rt = scope_digest key ''root'' [name];
               handle = \<lparr>sc_root = rt, sc_id = rt, sc_parent = None, sc_depth = 0\<rparr>
           in transaction db
             (case map_of (bt_scopes db) rt of
                None \<Rightarrow>
                  if rt \<in> set (bt_roots db) then Inl DatabaseError
                  else rbind (insert_scope (db\<lparr>bt_roots := bt_roots db @ [rt]\<rparr>) rt
                      \<lparr>sw_root = rt, sw_parent = None, sw_depth = 0\<rparr> normalized) (\<lambda>db'. Inr (handle, db'))
              | Some row \<Rightarrow>
                  if row \<noteq> \<lparr>sw_root = rt, sw_parent = None, sw_depth = 0\<rparr>
                  then Inl (budget_conflict ''budget_scope_exists'')
                  else rbind (read_limits db rt) (\<lambda>existing.
                    if \<not> dict_equal existing normalized then Inl (budget_conflict ''budget_scope_exists'')
                    else Inr (handle, db)))))"

definition open_scope :: "budget_tables \<Rightarrow> string \<Rightarrow> string \<Rightarrow> budget_scope result" where
  "open_scope db rt s =
     rbind (opaque_id rt) (\<lambda>_. rbind (opaque_id s) (\<lambda>_.
       case map_of (bt_scopes db) s of
         Some row \<Rightarrow>
           if sw_root row = rt
           then Inr \<lparr>sc_root = rt, sc_id = s, sc_parent = sw_parent row, sc_depth = sw_depth row\<rparr>
           else Inl unknown_scope
       | None \<Rightarrow> Inl unknown_scope))"

definition snapshot_of :: "budget_tables \<Rightarrow> string \<Rightarrow> budget_snapshot result" where
  "snapshot_of db s =
     rbind (bounded_pairs (bt_limits db) s) (\<lambda>limits. rbind (bounded_pairs (bt_counters db) s) (\<lambda>counters.
       let names = map fst limits @ map fst counters;
           used = (\<lambda>c. case map_of counters c of None \<Rightarrow> 0 | Some (u, _) \<Rightarrow> u);
           held = (\<lambda>c. case map_of counters c of None \<Rightarrow> 0 | Some (_, r) \<Rightarrow> r)
       in Inr \<lparr>bs_scope = s, bs_limits = map_of limits,
         bs_used = (\<lambda>c. if c \<in> set names then Some (used c) else None),
         bs_reserved = (\<lambda>c. if c \<in> set names then Some (held c) else None),
         bs_remaining = (\<lambda>c. map_option (\<lambda>limit. max 0 (limit - used c - held c)) (map_of limits c))\<rparr>))"

definition scope_snapshot :: "budget_tables \<Rightarrow> budget_scope \<Rightarrow> budget_snapshot result" where
  "scope_snapshot db sc = rbind (scope_metadata db sc) (\<lambda>_. snapshot_of db (sc_id sc))"

fun snapshot_all :: "budget_tables \<Rightarrow> string list \<Rightarrow> budget_snapshot list result" where
  "snapshot_all db [] = Inr []"
| "snapshot_all db (s # ss) = rbind (snapshot_of db s) (\<lambda>x. rbind (snapshot_all db ss) (\<lambda>xs. Inr (x # xs)))"

definition store_snapshots :: "budget_tables \<Rightarrow> string \<Rightarrow> int \<Rightarrow> budget_snapshot list result" where
  "store_snapshots db rt limit =
     rbind (opaque_id rt) (\<lambda>_.
       if limit < 1 \<or> max_scopes < limit then Inl ValueError
       else if rt \<notin> set (bt_roots db) then Inl unknown_scope
       else snapshot_all db (take (nat limit)
         (sort (map fst (filter (\<lambda>(_, row). sw_root row = rt) (bt_scopes db))))))"

definition create_child ::
  "budget_tables \<Rightarrow> nat list \<Rightarrow> budget_scope \<Rightarrow> string \<Rightarrow> (string \<times> pyval) list \<Rightarrow>
   budget_scope result \<times> budget_tables" where
  "create_child db key parent name limits =
     (case rbind (scope_name name) (\<lambda>_. hard_limits limits) of
        Inl e \<Rightarrow> (Inl e, db)
      | Inr normalized \<Rightarrow>
          if int max_depth \<le> sc_depth parent then (Inl (budget_conflict ''budget_depth_exceeded''), db)
          else let s = scope_digest key ''scope'' [sc_root parent, sc_id parent, name] in
            transaction db
              (rbind (scope_metadata db parent) (\<lambda>(pp, depth).
                 if pp \<noteq> sc_parent parent then Inl corrupt_state
                 else rbind (scope_chain db (sc_root parent) (sc_id parent)) (\<lambda>chain.
                   if int (length chain) - 1 \<noteq> depth then Inl corrupt_state
                   else if int max_depth \<le> depth then Inl (budget_conflict ''budget_depth_exceeded'')
                   else let row = \<lparr>sw_root = sc_root parent, sw_parent = Some (sc_id parent), sw_depth = depth + 1\<rparr>;
                            handle = \<lparr>sc_root = sc_root parent, sc_id = s, sc_parent = Some (sc_id parent),
                              sc_depth = depth + 1\<rparr>
                     in case map_of (bt_scopes db) s of
                          Some existing \<Rightarrow>
                            if existing \<noteq> row then Inl (budget_conflict ''budget_scope_exists'')
                            else rbind (read_limits db s) (\<lambda>ls.
                              if \<not> dict_equal ls normalized then Inl (budget_conflict ''budget_scope_exists'')
                              else Inr (handle, db))
                        | None \<Rightarrow>
                            rbind (allocation_check db (sc_id parent) normalized None) (\<lambda>_.
                              rbind (insert_scope db s row normalized) (\<lambda>db'. Inr (handle, db')))))))"

text \<open>The loop of \<open>_configure\<close> over the changed limits.\<close>

fun check_changes :: "budget_tables \<Rightarrow> string \<Rightarrow> (string \<times> int) list \<Rightarrow> unit result" where
  "check_changes db s [] = Inr ()"
| "check_changes db s ((c, limit) # rest) =
     (let (used, held) = counter_row db s c in
      if limit < used + held then Inl (budget_exceeded s c limit (used + held))
      else rbind (child_allocation db s c None) (\<lambda>total.
        if limit < total then Inl (budget_exceeded s c limit total) else check_changes db s rest))"

definition configure ::
  "budget_tables \<Rightarrow> budget_scope \<Rightarrow> (string \<times> pyval) list \<Rightarrow> (string \<times> pyval) list \<Rightarrow> unit result \<times> budget_tables" where
  "configure db sc limits expected_limits =
     (case rbind (hard_limits limits) (\<lambda>ch. rbind (hard_limits expected_limits) (\<lambda>ex. Inr (ch, ex))) of
        Inl e \<Rightarrow> (Inl e, db)
      | Inr (changes, expected) \<Rightarrow>
          transaction db
            (rbind (scope_metadata db sc) (\<lambda>(pp, depth).
               if pp \<noteq> sc_parent sc \<or> depth \<noteq> sc_depth sc then Inl corrupt_state
               else rbind (scope_chain db (sc_root sc) (sc_id sc)) (\<lambda>chain.
                 if int (length chain) - 1 \<noteq> depth then Inl corrupt_state
                 else rbind (read_limits db (sc_id sc)) (\<lambda>current.
                   if \<not> dict_equal current expected then Inl (budget_conflict ''budget_limits_changed'')
                   else let replacement = AList.updates (map fst changes) (map snd changes) current in
                     if max_counters < length replacement then Inl ValueError
                     else rbind (check_changes db (sc_id sc) changes) (\<lambda>_.
                       rbind (case pp of None \<Rightarrow> Inr ()
                           | Some p \<Rightarrow> allocation_check db p replacement (Some (sc_id sc))) (\<lambda>_.
                         rbind (write_limits db (sc_id sc) changes) (\<lambda>db'. Inr ((), db')))))))))"

definition durable_reserve ::
  "budget_tables \<Rightarrow> budget_scope \<Rightarrow> (string \<times> pyval) list \<Rightarrow> string \<Rightarrow> durable_reservation result \<times> budget_tables" where
  "durable_reserve db sc amounts fresh =
     (case budget_amounts amounts of
        Inl e \<Rightarrow> (Inl e, db)
      | Inr requested \<Rightarrow>
          transaction db
            (rbind (scope_chain db (sc_root sc) (sc_id sc)) (\<lambda>chain.
               rbind (counter_bounds db chain requested) (\<lambda>_.
                 rbind (check_scopes db chain [] requested) (\<lambda>_.
                   if fresh \<in> fst ` set (bt_reservations db) then Inl DatabaseError
                   else let row = \<lparr>rw_root = sc_root sc, rw_scope = sc_id sc, rw_amounts = encode_amounts requested,
                              rw_status = ACTIVE\<rparr>
                     in rbind (add_reserved_all (db\<lparr>bt_reservations := bt_reservations db @ [(fresh, row)]\<rparr>)
                          chain requested)
                          (\<lambda>db'. Inr (\<lparr>dv_scope = sc, dv_id = fresh, dv_amounts = requested\<rparr>, db')))))))"

text \<open>\<open>HierarchicalBudgetScope.reserve\<close> refuses identifiers chosen by the caller.\<close>

definition scope_reserve ::
  "budget_tables \<Rightarrow> budget_scope \<Rightarrow> (string \<times> pyval) list \<Rightarrow> string option \<Rightarrow> string \<Rightarrow>
   durable_reservation result \<times> budget_tables" where
  "scope_reserve db sc amounts rid fresh =
     (if rid \<noteq> None then (Inl ValueError, db) else durable_reserve db sc amounts fresh)"

definition find_reservation :: "budget_tables \<Rightarrow> budget_scope \<Rightarrow> string \<Rightarrow> reservation_row result" where
  "find_reservation db sc rid =
     (case map_of (bt_reservations db) rid of
        Some row \<Rightarrow>
          if rw_root row = sc_root sc \<and> rw_scope row = sc_id sc then Inr row else Inl unknown_reservation
      | None \<Rightarrow> Inl unknown_reservation)"

definition open_reservation :: "budget_tables \<Rightarrow> budget_scope \<Rightarrow> string \<Rightarrow> durable_reservation result" where
  "open_reservation db sc rid =
     rbind (reservation_id rid) (\<lambda>_. rbind (find_reservation db sc rid) (\<lambda>row.
       rbind (decode_amounts (rw_amounts row)) (\<lambda>xs. Inr \<lparr>dv_scope = sc, dv_id = rid, dv_amounts = xs\<rparr>)))"

text \<open>\<open>_finish_reservation\<close>; \<open>cancel\<close> passes no actual amounts.\<close>

definition finish_reservation ::
  "budget_tables \<Rightarrow> budget_scope \<Rightarrow> string \<Rightarrow> (string \<times> pyval) list option \<Rightarrow> unit result \<times> budget_tables" where
  "finish_reservation db sc rid actual =
     (case (case actual of None \<Rightarrow> Inr None | Some a \<Rightarrow> rbind (budget_amounts a) (\<lambda>xs. Inr (Some xs))) of
        Inl e \<Rightarrow> (Inl e, db)
      | Inr charged \<Rightarrow>
          transaction db
            (rbind (find_reservation db sc rid) (\<lambda>row.
               if rw_status row \<noteq> ACTIVE then Inl inactive_reservation
               else rbind (decode_amounts (rw_amounts row)) (\<lambda>held.
                 rbind (scope_chain db (sc_root sc) (sc_id sc)) (\<lambda>chain.
                   let final = (case charged of None \<Rightarrow> [] | Some xs \<Rightarrow> xs) in
                   rbind (counter_bounds db chain final) (\<lambda>_.
                     rbind (check_scopes db chain held final) (\<lambda>_.
                       rbind (replace_reserved_all db chain held final) (\<lambda>db'.
                         Inr ((), db'\<lparr>bt_reservations := AList.update rid
                           (row\<lparr>rw_status := (if charged = None then RELEASED else RECONCILED)\<rparr>)
                           (bt_reservations db')\<rparr>))))))))) "

definition durable_active :: "budget_tables \<Rightarrow> budget_scope \<Rightarrow> string \<Rightarrow> bool result" where
  "durable_active db sc rid = rbind (find_reservation db sc rid) (\<lambda>row. Inr (rw_status row = ACTIVE))"

definition durable_spend ::
  "budget_tables \<Rightarrow> budget_scope \<Rightarrow> (string \<times> pyval) list \<Rightarrow> string \<Rightarrow> unit result \<times> budget_tables" where
  "durable_spend db sc amounts fresh =
     (case durable_reserve db sc amounts fresh of
        (Inl e, db') \<Rightarrow> (Inl e, db')
      | (Inr r, db') \<Rightarrow> finish_reservation db' sc (dv_id r) (Some amounts))"

section \<open>The provider\<close>

record budget_provider =
  bp_session :: budget_scope
  bp_task_limits :: "(string \<times> int) list"

definition child_of ::
  "nat list \<Rightarrow> string \<Rightarrow> string \<Rightarrow> (string \<times> pyval) list \<Rightarrow> budget_scope result \<times> budget_tables \<Rightarrow>
   budget_scope result \<times> budget_tables" where
  "child_of key label name limits = (\<lambda>(r, db).
     case r of Inl e \<Rightarrow> (Inl e, db)
     | Inr parent \<Rightarrow>
         (case scope_name name of Inl e \<Rightarrow> (Inl e, db) | Inr _ \<Rightarrow> create_child db key parent (label @ name) limits))"

definition new_provider ::
  "budget_tables \<Rightarrow> nat list \<Rightarrow> string \<Rightarrow> string \<Rightarrow> string \<Rightarrow> (string \<times> pyval) list \<Rightarrow> (string \<times> pyval) list \<Rightarrow>
   budget_provider result \<times> budget_tables" where
  "new_provider db key tenant who session aggregate task =
     (case scope_name tenant of
        Inl e \<Rightarrow> (Inl e, db)
      | Inr _ \<Rightarrow>
          (case child_of key ''session:'' session aggregate
             (child_of key ''principal:'' who aggregate
               (store_root db key (''tenant:'' @ tenant) aggregate)) of
             (Inl e, db') \<Rightarrow> (Inl e, db')
           | (Inr sc, db') \<Rightarrow>
               (case hard_limits task of
                  Inl e \<Rightarrow> (Inl e, db')
                | Inr xs \<Rightarrow> (Inr \<lparr>bp_session = sc, bp_task_limits = xs\<rparr>, db'))))"

definition task_budget :: "budget_tables \<Rightarrow> nat list \<Rightarrow> budget_provider \<Rightarrow> string \<Rightarrow> budget_scope result \<times> budget_tables" where
  "task_budget db key bp task =
     (case scope_name task of
        Inl e \<Rightarrow> (Inl e, db)
      | Inr _ \<Rightarrow> create_child db key (bp_session bp) (''task:'' @ task)
          (map (\<lambda>(c, n). (c, PyInt n)) (bp_task_limits bp)))"

section \<open>Rows and sums\<close>

lemma pairs_of_scope:
  assumes "dict_ok t"
  shows "dict_ok (map (\<lambda>((s, c), v). (c, v)) (filter (\<lambda>((s, c), v). s = scope) t))"
    and "map_of (map (\<lambda>((s, c), v). (c, v)) (filter (\<lambda>((s, c), v). s = scope) t)) c = map_of t (scope, c)"
proof -
  have "dict_ok (map (\<lambda>((s, c), v). (c, v)) (filter (\<lambda>((s, c), v). s = scope) t)) \<and>
    map_of (map (\<lambda>((s, c), v). (c, v)) (filter (\<lambda>((s, c), v). s = scope) t)) c = map_of t (scope, c)"
    using assms by (induction t) (force split: prod.splits)+
  then show "dict_ok (map (\<lambda>((s, c), v). (c, v)) (filter (\<lambda>((s, c), v). s = scope) t))"
    "map_of (map (\<lambda>((s, c), v). (c, v)) (filter (\<lambda>((s, c), v). s = scope) t)) c = map_of t (scope, c)"
    by blast+
qed

lemma bounded_pairs_ok:
  assumes "bounded_pairs t s = Inr xs" "dict_ok t"
  shows "dict_ok xs" "map_of xs c = map_of t (s, c)"
proof -
  let ?rows = "map (\<lambda>((s, c), v). (c, v)) (filter (\<lambda>((s, c), v). s = s) t)"
  let ?ps = "map (\<lambda>((s', c), v). (c, v)) (filter (\<lambda>((s', c), v). s' = s) t)"
  have "xs = sort_key fst ?ps"
    using assms(1) by (auto simp: bounded_pairs_def Let_def split: if_splits)
  with pairs_of_scope [OF assms(2), of s] show "dict_ok xs" "map_of xs c = map_of t (s, c)"
    by (simp_all add: map_of_sort_key)
qed

definition same_rows :: "budget_tables \<Rightarrow> budget_tables \<Rightarrow> bool" where
  "same_rows db db' \<longleftrightarrow> bt_roots db' = bt_roots db \<and> bt_scopes db' = bt_scopes db \<and>
     bt_reservations db' = bt_reservations db"

lemma bind_int_Inr [simp]: "bind_int n = Inr m \<longleftrightarrow> m = n \<and> - (2 ^ 63) \<le> n \<and> n < 2 ^ 63"
  by (auto simp: bind_int_def)

lemma write_limits_ok:
  assumes "write_limits db s xs = Inr db'" "dict_ok xs" "dict_ok (bt_limits db)"
  shows "same_rows db db' \<and> bt_counters db' = bt_counters db \<and> dict_ok (bt_limits db') \<and>
    (\<forall>(c, n) \<in> set xs. n < 2 ^ 63) \<and>
    (\<forall>k. map_of (bt_limits db') k =
      (if fst k = s \<and> snd k \<in> fst ` set xs then map_of xs (snd k) else map_of (bt_limits db) k))"
  using assms
proof (induction xs arbitrary: db)
  case Nil
  then show ?case by (simp add: same_rows_def)
next
  case (Cons x xs)
  obtain c n where x: "x = (c, n)" by fastforce
  let ?db = "db\<lparr>bt_limits := AList.update (s, c) n (bt_limits db)\<rparr>"
  have "write_limits ?db s xs = Inr db'" "n < 2 ^ 63" "dict_ok xs" "c \<notin> fst ` set xs"
    using Cons.prems(1,2) by (auto simp: x rbind_eq_Inr)
  have "dict_ok (bt_limits ?db)" using Cons.prems(3) by simp
  note ih = Cons.IH [OF \<open>write_limits ?db s xs = Inr db'\<close> \<open>dict_ok xs\<close> this]
  have lim: "map_of (bt_limits db') k = (if fst k = s \<and> snd k \<in> fst ` set xs then map_of xs (snd k)
      else map_of (bt_limits ?db) k)" for k using ih by blast
  have "map_of (bt_limits db') k = (if fst k = s \<and> snd k \<in> fst ` set (x # xs) then map_of (x # xs) (snd k)
      else map_of (bt_limits db) k)" for k
    using \<open>c \<notin> fst ` set xs\<close> lim [of k] by (cases k) (auto simp: x update_conv' split: if_splits)
  moreover have "same_rows db db'" "bt_counters db' = bt_counters db" "dict_ok (bt_limits db')"
    "\<forall>(c, n) \<in> set (x # xs). n < 2 ^ 63"
    using ih \<open>n < 2 ^ 63\<close> by (simp_all add: same_rows_def x)
  ultimately show ?case by blast
qed

lemma counter_row_update:
  "counter_row (db\<lparr>bt_counters := AList.update (s, c) p (bt_counters db)\<rparr>) s' c' =
    (if s' = s \<and> c' = c then p else counter_row db s' c')"
  by (simp add: counter_row_def)

definition same_but_counters :: "budget_tables \<Rightarrow> budget_tables \<Rightarrow> string set \<Rightarrow> bool" where
  "same_but_counters db db' S \<longleftrightarrow> same_rows db db' \<and> bt_limits db' = bt_limits db \<and>
     (dict_ok (bt_counters db) \<longrightarrow> dict_ok (bt_counters db')) \<and>
     (\<forall>k \<in> fst ` set (bt_counters db'). k \<in> fst ` set (bt_counters db) \<or> fst k \<in> S)"

lemma same_but_counters_refl: "same_but_counters db db S"
  by (simp add: same_but_counters_def same_rows_def)

lemma same_but_counters_trans:
  "same_but_counters a b S \<Longrightarrow> same_but_counters b c T \<Longrightarrow> same_but_counters a c (S \<union> T)"
  unfolding same_but_counters_def same_rows_def by (intro conjI ballI impI; (elim conjE)?; metis UnI1 UnI2)

lemma same_but_counters_update:
  "same_but_counters db (db\<lparr>bt_counters := AList.update (s, c) p (bt_counters db)\<rparr>) {s}"
  by (auto simp add: same_but_counters_def same_rows_def dom_update simp del: dict_ok_update intro: dict_ok_update)

lemma add_reserved_ok:
  assumes "add_reserved db s xs = Inr db'" "dict_ok xs"
  shows "same_but_counters db db' {s} \<and> (\<forall>(c, n) \<in> set xs. n < 2 ^ 63) \<and>
    (\<forall>s' c. counter_row db' s' c = (if s' = s \<and> c \<in> fst ` set xs
      then (fst (counter_row db s c), sqlite_add (snd (counter_row db s c)) (amt xs c)) else counter_row db s' c))"
  using assms
proof (induction xs arbitrary: db)
  case Nil
  then show ?case by (simp add: same_but_counters_refl)
next
  case (Cons x xs)
  obtain c n where x: "x = (c, n)" by fastforce
  obtain u r where row: "counter_row db s c = (u, r)" by fastforce
  let ?db = "db\<lparr>bt_counters := AList.update (s, c) (u, sqlite_add r n) (bt_counters db)\<rparr>"
  have rest: "add_reserved ?db s xs = Inr db'" "n < 2 ^ 63" "dict_ok xs" "c \<notin> fst ` set xs"
    using Cons.prems by (auto simp: x rbind_eq_Inr row)
  note ih = Cons.IH [OF rest(1,3)]
  then have "same_but_counters ?db db' {s}" by blast
  from same_but_counters_trans [OF same_but_counters_update this] have "same_but_counters db db' {s}" by simp
  moreover have "counter_row db' s' c' = (if s' = s \<and> c' \<in> fst ` set (x # xs)
      then (fst (counter_row db s c'), sqlite_add (snd (counter_row db s c')) (amt (x # xs) c'))
      else counter_row db s' c')" for s' c'
    using ih [unfolded counter_row_update] rest(4) row by (auto simp: x)
  moreover have "\<forall>(c, n) \<in> set (x # xs). n < 2 ^ 63" using ih rest(2) by (simp add: x)
  ultimately show ?case by blast
qed

lemma add_reserved_all_ok:
  assumes "add_reserved_all db ss xs = Inr db'" "dict_ok xs" "distinct ss"
  shows "same_but_counters db db' (set ss) \<and> (ss \<noteq> [] \<longrightarrow> (\<forall>(c, n) \<in> set xs. n < 2 ^ 63)) \<and>
    (\<forall>s c. counter_row db' s c = (if s \<in> set ss \<and> c \<in> fst ` set xs
      then (fst (counter_row db s c), sqlite_add (snd (counter_row db s c)) (amt xs c)) else counter_row db s c))"
  using assms
proof (induction ss arbitrary: db)
  case Nil
  then show ?case by (simp add: same_but_counters_refl)
next
  case (Cons s ss)
  then obtain db1 where db1: "add_reserved db s xs = Inr db1" "add_reserved_all db1 ss xs = Inr db'"
    by (auto simp: rbind_eq_Inr)
  note one = add_reserved_ok [OF db1(1) Cons.prems(2)]
  from Cons.IH [OF db1(2)] Cons.prems(2,3) one same_but_counters_trans [of db db1 "{s}" db' "set ss"]
  show ?case by auto
qed

lemma replace_counters_ok:
  assumes "replace_counters db s hs charged cs = Inr db'" "distinct cs"
  shows "same_but_counters db db' {s} \<and>
    (\<forall>c \<in> set cs. amt hs c \<le> snd (counter_row db s c)) \<and>
    (\<forall>s' c. counter_row db' s' c = (if s' = s \<and> c \<in> set cs
      then (fst (counter_row db s c) + amt charged c, snd (counter_row db s c) - amt hs c)
      else counter_row db s' c))"
  using assms
proof (induction cs arbitrary: db)
  case Nil
  then show ?case by (simp add: same_but_counters_refl)
next
  case (Cons c cs)
  obtain u r where row: "counter_row db s c = (u, r)" by fastforce
  let ?db = "db\<lparr>bt_counters := AList.update (s, c) (u + amt charged c, r - amt hs c) (bt_counters db)\<rparr>"
  have rest: "replace_counters ?db s hs charged cs = Inr db'" "amt hs c \<le> r" "distinct cs" "c \<notin> set cs"
    using Cons.prems by (auto simp: rbind_eq_Inr row Let_def split: if_splits)
  note ih = Cons.IH [OF rest(1,3)]
  then have "same_but_counters ?db db' {s}" by blast
  from same_but_counters_trans [OF same_but_counters_update this] have "same_but_counters db db' {s}" by simp
  moreover have "counter_row db' s' c' = (if s' = s \<and> c' \<in> set (c # cs)
      then (fst (counter_row db s c') + amt charged c', snd (counter_row db s c') - amt hs c')
      else counter_row db s' c')" for s' c'
    using ih [unfolded counter_row_update] rest(4) row by auto
  moreover have "amt hs c' \<le> snd (counter_row db s c')" if "c' \<in> set (c # cs)" for c'
    using ih [unfolded counter_row_update] rest(2,4) row that by (cases "c' = c") auto
  ultimately show ?case by blast
qed

lemma replace_reserved_all_ok:
  assumes "replace_reserved_all db ss hs charged = Inr db'" "distinct ss"
  shows "same_but_counters db db' (set ss) \<and>
    (\<forall>s \<in> set ss. \<forall>c \<in> fst ` set hs. amt hs c \<le> snd (counter_row db s c)) \<and>
    (\<forall>s c. counter_row db' s c = (if s \<in> set ss
      then (fst (counter_row db s c) + amt charged c, snd (counter_row db s c) - amt hs c)
      else counter_row db s c))"
  using assms
proof (induction ss arbitrary: db)
  case Nil
  then show ?case by (simp add: same_but_counters_refl)
next
  case (Cons s ss)
  let ?cs = "remdups (map fst hs @ map fst charged)"
  from Cons.prems obtain db1 where db1: "replace_counters db s hs charged ?cs = Inr db1"
    "replace_reserved_all db1 ss hs charged = Inr db'"
    by (auto simp: rbind_eq_Inr)
  have "distinct ?cs" by simp
  note one = replace_counters_ok [OF db1(1) this]
  have out: "c \<notin> set ?cs \<Longrightarrow> amt hs c = 0 \<and> amt charged c = 0" for c by (simp add: amt_notin)
  have "counter_row db1 s' c = (if s' = s then (fst (counter_row db s c) + amt charged c,
      snd (counter_row db s c) - amt hs c) else counter_row db s' c)" for s' c
    using one out [of c] by (cases "c \<in> set ?cs") auto
  note row1 = this
  have "distinct ss" "s \<notin> set ss" using Cons.prems(2) by auto
  note ih = Cons.IH [OF db1(2) this(1)]
  from one ih same_but_counters_trans [of db db1 "{s}" db' "set ss"]
  have same: "same_but_counters db db' (set (s # ss))" by simp
  have "counter_row db' s' c = (if s' \<in> set (s # ss)
      then (fst (counter_row db s' c) + amt charged c, snd (counter_row db s' c) - amt hs c)
      else counter_row db s' c)" for s' c
    using ih row1 \<open>s \<notin> set ss\<close> by auto
  moreover have "amt hs c \<le> snd (counter_row db t c)" if "t \<in> set (s # ss)" "c \<in> fst ` set hs" for t c
  proof (cases "t = s")
    case True
    with one that show ?thesis by simp
  next
    case False
    then have "t \<in> set ss" using that(1) by simp
    then have "amt hs c \<le> snd (counter_row db1 t c)" using ih that(2) by blast
    with row1 False show ?thesis by simp
  qed
  ultimately show ?case using same by blast
qed

section \<open>Checks\<close>

lemma check_counters_ok:
  "check_counters db s limits replaced xs = Inr () \<Longrightarrow> dict_ok xs \<Longrightarrow> c \<in> fst ` set xs \<Longrightarrow>
   map_of limits c = Some limit \<Longrightarrow>
   fst (counter_row db s c) + snd (counter_row db s c) - amt replaced c + amt xs c \<le> limit"
proof (induction xs)
  case (Cons x xs)
  obtain c' n where x: "x = (c', n)" by fastforce
  have "check_counters db s limits replaced xs = Inr ()"
    using Cons.prems(1) by (auto simp: x Let_def split: option.splits prod.splits if_splits)
  with Cons show ?case
    by (cases "c' = c") (auto simp: x Let_def split: option.splits prod.splits if_splits)
qed simp

lemma check_scopes_ok:
  assumes "check_scopes db ss replaced xs = Inr ()" "dict_ok xs" "dict_ok (bt_limits db)"
    and "s \<in> set ss" "c \<in> fst ` set xs" "map_of (bt_limits db) (s, c) = Some limit"
  shows "fst (counter_row db s c) + snd (counter_row db s c) - amt replaced c + amt xs c \<le> limit"
  using assms
proof (induction ss)
  case (Cons t ss)
  then obtain limits where "read_limits db t = Inr limits" "check_counters db t limits replaced xs = Inr ()"
    "check_scopes db ss replaced xs = Inr ()"
    by (auto simp: rbind_eq_Inr)
  with Cons show ?case
    using check_counters_ok [of db t limits replaced xs c limit] bounded_pairs_ok(2) [of "bt_limits db" t limits c]
    by (cases "t = s") (auto simp: read_limits_def)
qed simp

section \<open>Chains\<close>

lemma walk_up_ok:
  assumes "walk_up db rt chain current = Inr result" "distinct chain" "set chain \<subseteq> fst ` set (bt_scopes db)"
  shows "distinct result \<and> set result \<subseteq> fst ` set (bt_scopes db) \<and> set chain \<subseteq> set result \<and>
    (\<forall>s. current = Some s \<longrightarrow> s \<in> set result)"
  using assms
proof (induction db rt chain current rule: walk_up.induct)
  case (1 db rt chain current)
  show ?case
  proof (cases current)
    case None
    with "1.prems" show ?thesis by (simp add: walk_up.simps)
  next
    case (Some s)
    with "1.prems"(1) obtain row where row: "s \<notin> set chain" "\<not> max_depth < length chain"
      "map_of (bt_scopes db) s = Some row" "sw_root row = rt"
      "walk_up db rt (chain @ [s]) (sw_parent row) = Inr result"
      by (subst (asm) walk_up.simps) (auto split: if_splits option.splits)
    have "s \<in> fst ` set (bt_scopes db)" using row(3) by (force dest: map_of_SomeD)
    with "1.IH" [OF Some _ row(3), OF _ _ row(5)] row "1.prems"(2,3) Some show ?thesis by auto
  qed
qed

lemma scope_chain_ok:
  assumes "scope_chain db rt leaf = Inr chain"
  shows "distinct chain" "chain \<noteq> []" "leaf \<in> set chain" "set chain \<subseteq> fst ` set (bt_scopes db)"
  using assms walk_up_ok [of db rt "[]" "Some leaf"]
  by (auto simp: scope_chain_def rbind_eq_Inr split: if_splits)

section \<open>The invariant\<close>

definition scope_wf :: "budget_tables \<Rightarrow> string \<Rightarrow> scope_row \<Rightarrow> bool" where
  "scope_wf db s row \<longleftrightarrow> 0 \<le> sw_depth row \<and> sw_depth row \<le> int max_depth \<and>
     (case sw_parent row of
        None \<Rightarrow> s = sw_root row \<and> sw_depth row = 0
      | Some p \<Rightarrow> (\<exists>prow. map_of (bt_scopes db) p = Some prow \<and> sw_root prow = sw_root row \<and>
          sw_depth row = sw_depth prow + 1))"

definition kids_limit :: "budget_tables \<Rightarrow> string \<Rightarrow> string \<Rightarrow> int" where
  "kids_limit db p c = sum_list (child_limits db p c None)"

definition tables_ok :: "budget_tables \<Rightarrow> bool" where
  "tables_ok db \<longleftrightarrow> dict_ok (bt_scopes db) \<and> dict_ok (bt_limits db) \<and> dict_ok (bt_counters db) \<and>
     dict_ok (bt_reservations db) \<and>
     (\<forall>k \<in> fst ` set (bt_limits db) \<union> fst ` set (bt_counters db). fst k \<in> fst ` set (bt_scopes db)) \<and>
     (\<forall>s row. map_of (bt_scopes db) s = Some row \<longrightarrow> scope_wf db s row)"

definition caps_ok :: "budget_tables \<Rightarrow> bool" where
  "caps_ok db \<longleftrightarrow> (\<forall>s c. 0 \<le> fst (counter_row db s c) \<and> 0 \<le> snd (counter_row db s c)) \<and>
     (\<forall>s c limit. map_of (bt_limits db) (s, c) = Some limit \<longrightarrow> 0 \<le> limit \<and> limit < 2 ^ 63 \<and>
       fst (counter_row db s c) + snd (counter_row db s c) \<le> limit)"

definition allocation_ok :: "budget_tables \<Rightarrow> bool" where
  "allocation_ok db \<longleftrightarrow> (\<forall>p c limit. map_of (bt_limits db) (p, c) = Some limit \<longrightarrow> kids_limit db p c \<le> limit)"

definition stored_amounts :: "(string \<times> pyval) list \<Rightarrow> (string \<times> int) list \<Rightarrow> bool" where
  "stored_amounts raw xs \<longleftrightarrow> raw = map (\<lambda>(c, n). (c, PyInt n)) xs \<and> dict_ok xs \<and>
     (\<forall>(c, n) \<in> set xs. c \<noteq> [] \<and> 0 < n)"

definition stored_ok :: "budget_tables \<Rightarrow> bool" where
  "stored_ok db \<longleftrightarrow> (\<forall>rid row. map_of (bt_reservations db) rid = Some row \<longrightarrow>
     (\<exists>xs. stored_amounts (rw_amounts row) xs))"

definition hb_inv :: "budget_tables \<Rightarrow> bool" where
  "hb_inv db \<longleftrightarrow> tables_ok db \<and> caps_ok db \<and> allocation_ok db \<and> stored_ok db"

section \<open>Inputs\<close>

lemma hard_limits_ok:
  assumes "hard_limits raw = Inr xs" "dict_ok raw"
  shows "dict_ok xs \<and> (\<forall>(c, n) \<in> set xs. 0 \<le> n)"
  using assms validate_amounts_ok [of False raw]
  by (auto simp: hard_limits_def bounded_counters_def rbind_eq_Inr split: if_splits)

lemma budget_amounts_ok:
  assumes "budget_amounts raw = Inr xs" "dict_ok raw"
  shows "dict_ok xs \<and> (\<forall>(c, n) \<in> set xs. 0 < n)"
  using assms validate_amounts_ok [of True raw]
  by (auto simp: budget_amounts_def bounded_counters_def rbind_eq_Inr split: if_splits)

lemma dict_ok_map_value: "dict_ok (map (\<lambda>(c, v). (c, f c v)) xs) = dict_ok xs"
  by (simp add: comp_def case_prod_beta)

lemma validate_encoded:
  "\<forall>(c, n) \<in> set xs. c \<noteq> [] \<and> 0 < n \<Longrightarrow> validate_amounts True (map (\<lambda>(c, n). (c, PyInt n)) xs) = Inr xs"
  by (induction xs) auto

lemma decode_stored: "stored_amounts raw xs \<Longrightarrow> decode_amounts raw = Inr xs"
  by (simp add: stored_amounts_def decode_amounts_def validate_encoded)

lemma validate_names: "validate_amounts dz raw = Inr xs \<Longrightarrow> [] \<notin> fst ` set xs"
proof (induction raw arbitrary: xs)
  case (Cons x raw)
  obtain c v where x: "x = (c, v)" by fastforce
  with Cons.prems obtain n ys where "v = PyInt n" "validate_amounts dz raw = Inr ys" "c \<noteq> []"
    "xs = (if n \<noteq> 0 \<or> \<not> dz then (c, n) # ys else ys)"
    by (cases v) (auto simp: rbind_eq_Inr split: if_splits)
  with Cons.IH [of ys] show ?case by simp
qed simp

lemma stored_encode:
  assumes "budget_amounts raw = Inr xs" "dict_ok raw"
  shows "stored_amounts (encode_amounts xs) (sort_key fst xs)"
proof -
  have "[] \<notin> fst ` set xs"
    using assms(1) validate_names [of True raw] by (auto simp: budget_amounts_def bounded_counters_def rbind_eq_Inr split: if_splits)
  with budget_amounts_ok [OF assms] show ?thesis
    by (auto simp: stored_amounts_def encode_amounts_def) (metis fst_conv image_eqI)
qed

section \<open>Allocations\<close>

lemma kids_split:
  fixes L :: "string \<Rightarrow> int option"
  assumes "dict_ok scopes" "map_of scopes s = Some row" "sw_parent row = Some p"
  shows "sum_list (List.map_filter (\<lambda>(t, r). if sw_parent r = Some p then L t else None) scopes) =
    sum_list (List.map_filter (\<lambda>(t, r). if sw_parent r = Some p \<and> Some s \<noteq> Some t then L t else None) scopes) +
    (case L s of None \<Rightarrow> 0 | Some l \<Rightarrow> l)"
  using assms
proof (induction scopes)
  case (Cons x scopes)
  obtain t r where x: "x = (t, r)" by fastforce
  show ?case
  proof (cases "t = s")
    case True
    then have "s \<notin> fst ` set scopes" using Cons.prems(1) by (simp add: x)
    then have "List.map_filter (\<lambda>(t, r). if sw_parent r = Some p \<and> Some s \<noteq> Some t then L t else None) scopes =
      List.map_filter (\<lambda>(t, r). if sw_parent r = Some p then L t else None) scopes"
      by (induction scopes) (auto simp: List.map_filter_simps split: option.splits)
    with True Cons.prems show ?thesis by (auto simp: x List.map_filter_simps split: option.splits)
  next
    case False
    with Cons show ?thesis by (auto simp: x List.map_filter_simps split: option.splits)
  qed
qed simp

lemma kids_other:
  assumes "dict_ok scopes" "\<forall>row. map_of scopes s = Some row \<longrightarrow> sw_parent row \<noteq> Some p"
    and "\<And>t. t \<noteq> s \<Longrightarrow> L' t = L t"
  shows "List.map_filter (\<lambda>(t, r). if sw_parent r = Some p then L' t else None) scopes =
    List.map_filter (\<lambda>(t, r). if sw_parent r = Some p then L t else None) scopes"
  using assms(1,2)
proof (induction scopes)
  case (Cons x scopes)
  obtain t r where x: "x = (t, r)" by fastforce
  have "\<forall>row. map_of scopes s = Some row \<longrightarrow> sw_parent row \<noteq> Some p"
    using Cons.prems by (force simp: x dest: map_of_SomeD split: if_splits)
  with Cons.IH Cons.prems have ih: "List.map_filter (\<lambda>(t, r). if sw_parent r = Some p then L' t else None) scopes =
    List.map_filter (\<lambda>(t, r). if sw_parent r = Some p then L t else None) scopes" by simp
  show ?case
  proof (cases "t = s")
    case True
    with Cons.prems(2) have "sw_parent r \<noteq> Some p" by (simp add: x)
    with ih show ?thesis by (simp add: x List.map_filter_simps)
  next
    case False
    from assms(3) [OF False] ih show ?thesis by (cases "L t") (simp_all add: x List.map_filter_simps)
  qed
qed simp

lemma kids_excluding:
  assumes "\<And>t. t \<noteq> s \<Longrightarrow> L' t = L t"
  shows "List.map_filter (\<lambda>(t, r). if sw_parent r = Some p \<and> Some s \<noteq> Some t then L' t else None) scopes =
    List.map_filter (\<lambda>(t, r). if sw_parent r = Some p \<and> Some s \<noteq> Some t then L t else None) scopes"
proof -
  have "(\<lambda>(t, r). if sw_parent r = Some p \<and> Some s \<noteq> Some t then L' t else None) =
    (\<lambda>(t, r). if sw_parent r = Some p \<and> Some s \<noteq> Some t then L t else None)"
    using assms by (intro ext) (auto split: prod.splits)
  then show ?thesis by (rule arg_cong)
qed

lemma check_parent_allocation_ok:
  "check_parent_allocation db p pl xs ex = Inr () \<Longrightarrow> dict_ok xs \<Longrightarrow> c \<in> fst ` set xs \<Longrightarrow> map_of pl c = Some limit \<Longrightarrow>
   sum_list (child_limits db p c ex) + amt xs c \<le> limit"
proof (induction xs)
  case (Cons x xs)
  obtain c' n where x: "x = (c', n)" by fastforce
  have "check_parent_allocation db p pl xs ex = Inr ()"
    using Cons.prems(1) by (auto simp: x rbind_eq_Inr split: option.splits if_splits)
  with Cons show ?case
    by (cases "c' = c") (auto simp: x rbind_eq_Inr child_allocation_def Let_def split: option.splits if_splits)
qed simp

lemma allocation_check_ok:
  assumes "allocation_check db p xs ex = Inr ()" "dict_ok xs" "dict_ok (bt_limits db)"
    and "c \<in> fst ` set xs" "map_of (bt_limits db) (p, c) = Some limit"
  shows "sum_list (child_limits db p c ex) + amt xs c \<le> limit"
  using assms check_parent_allocation_ok [of db p _ xs ex c limit] bounded_pairs_ok(2) [of "bt_limits db" p]
  by (auto simp: allocation_check_def read_limits_def rbind_eq_Inr)

lemma check_changes_ok:
  "check_changes db s xs = Inr () \<Longrightarrow> dict_ok xs \<Longrightarrow> c \<in> fst ` set xs \<Longrightarrow>
   fst (counter_row db s c) + snd (counter_row db s c) \<le> amt xs c \<and> kids_limit db s c \<le> amt xs c"
proof (induction xs)
  case (Cons x xs)
  obtain c' n where x: "x = (c', n)" by fastforce
  have "check_changes db s xs = Inr ()"
    using Cons.prems(1) by (auto simp: x rbind_eq_Inr Let_def split: prod.splits if_splits)
  with Cons show ?case
    by (cases "c' = c") (auto simp: x rbind_eq_Inr child_allocation_def kids_limit_def Let_def split: prod.splits if_splits)
qed simp

lemma map_of_amt: "c \<in> fst ` set xs \<Longrightarrow> map_of xs c = Some (amt xs c)"
proof (induction xs)
  case (Cons x xs)
  then show ?case by (cases x) auto
qed simp

lemma kids_limit_unfold: "kids_limit db p c =
  sum_list (List.map_filter (\<lambda>(t, r). if sw_parent r = Some p then map_of (bt_limits db) (t, c) else None) (bt_scopes db))"
proof -
  have "(\<lambda>(s, row). if sw_parent row = Some p \<and> None \<noteq> Some s then map_of (bt_limits db) (s, c) else None) =
    (\<lambda>(t, r). if sw_parent r = Some p then map_of (bt_limits db) (t, c) else None)" by auto
  then show ?thesis by (simp add: kids_limit_def child_limits_def)
qed

section \<open>Creating scopes\<close>

lemma insert_scope_kids:
  assumes "insert_scope db s row xs = Inr db'" "tables_ok db" "dict_ok xs" "s \<notin> fst ` set (bt_scopes db)"
  shows "kids_limit db' p c = kids_limit db p c + (if sw_parent row = Some p then amt xs c else 0)"
proof -
  let ?db = "db\<lparr>bt_scopes := bt_scopes db @ [(s, row)]\<rparr>"
  have w: "write_limits ?db s xs = Inr db'" using assms(1) by (simp add: insert_scope_def)
  have "dict_ok (bt_limits ?db)" using assms(2) by (simp add: tables_ok_def)
  note ok = write_limits_ok [OF w assms(3) this]
  have lim: "map_of (bt_limits db') (t, c) =
      (if t = s \<and> c \<in> fst ` set xs then map_of xs c else map_of (bt_limits db) (t, c))" for t
    using ok by simp
  have scopes: "bt_scopes db' = bt_scopes db @ [(s, row)]" using ok by (simp add: same_rows_def)
  have "(s, c) \<notin> fst ` set (bt_limits db)" using assms(2,4) by (force simp: tables_ok_def)
  then have none: "map_of (bt_limits db) (s, c) = None" by (simp add: map_of_eq_None_iff)
  have "dict_ok (bt_scopes db)" "map_of (bt_scopes db) s = None"
    using assms(2,4) by (simp_all add: tables_ok_def map_of_eq_None_iff)
  then have "List.map_filter (\<lambda>(t, r). if sw_parent r = Some p then map_of (bt_limits db') (t, c) else None) (bt_scopes db) =
    List.map_filter (\<lambda>(t, r). if sw_parent r = Some p then map_of (bt_limits db) (t, c) else None) (bt_scopes db)"
    using lim by (intro kids_other [where s = s]) simp_all
  then show ?thesis
    by (auto simp: kids_limit_unfold scopes lim none map_of_amt amt_notin List.map_filter_def)
qed

lemma counter_row_cong: "bt_counters a = bt_counters b \<Longrightarrow> counter_row a = counter_row b"
  by (simp add: counter_row_def fun_eq_iff)

lemma insert_scope_fields:
  assumes "insert_scope db s row xs = Inr db'" "dict_ok xs" "dict_ok (bt_limits db)"
  shows "bt_scopes db' = bt_scopes db @ [(s, row)]" "bt_counters db' = bt_counters db"
    "bt_reservations db' = bt_reservations db" "dict_ok (bt_limits db')" "\<forall>(c, n) \<in> set xs. n < 2 ^ 63"
    "map_of (bt_limits db') (t, c) =
      (if t = s \<and> c \<in> fst ` set xs then map_of xs c else map_of (bt_limits db) (t, c))"
  using write_limits_ok [of "db\<lparr>bt_scopes := bt_scopes db @ [(s, row)]\<rparr>" s xs db'] assms
  by (simp_all add: insert_scope_def same_rows_def)

lemma counter_row_unknown: "tables_ok db \<Longrightarrow> s \<notin> fst ` set (bt_scopes db) \<Longrightarrow> counter_row db s c = (0, 0)"
  by (force simp: tables_ok_def counter_row_def split: option.splits dest: map_of_SomeD)

lemma kids_unknown:
  assumes "tables_ok db" "p \<notin> fst ` set (bt_scopes db)"
  shows "kids_limit db p c = 0"
proof -
  have "sw_parent r \<noteq> Some p" if "(t, r) \<in> set (bt_scopes db)" for t r
  proof
    assume "sw_parent r = Some p"
    moreover have "scope_wf db t r" using assms(1) that by (simp add: tables_ok_def)
    ultimately show False using assms(2) by (force simp: scope_wf_def dest: map_of_SomeD)
  qed
  then have "List.map_filter (\<lambda>(t, r). if sw_parent r = Some p then map_of (bt_limits db) (t, c) else None) (bt_scopes db) = []"
    by (induction "bt_scopes db") (auto simp: List.map_filter_def filter_empty_conv)
  then show ?thesis by (simp add: kids_limit_unfold)
qed

lemma scope_wf_extend:
  assumes "scope_wf db t r" "bt_scopes db' = bt_scopes db @ extra"
  shows "scope_wf db' t r"
  using assms by (auto simp: scope_wf_def map_add_def split: option.splits)

lemma insert_scope_inv:
  assumes ins: "insert_scope db s row xs = Inr db'" and inv: "hb_inv db" and xs: "dict_ok xs" "\<forall>(c, n) \<in> set xs. 0 \<le> n"
    and new: "s \<notin> fst ` set (bt_scopes db)" and row: "scope_wf db s row"
    and alloc: "\<And>p. sw_parent row = Some p \<Longrightarrow> allocation_check db p xs None = Inr ()"
  shows "hb_inv db'"
proof -
  have t: "tables_ok db" "caps_ok db" "allocation_ok db" "stored_ok db" using inv by (simp_all add: hb_inv_def)
  have dl: "dict_ok (bt_limits db)" using t(1) by (simp add: tables_ok_def)
  note f = insert_scope_fields [OF ins xs(1) dl]
  have none: "map_of (bt_limits db) (s, c) = None" for c
    using t(1) new by (force simp: tables_ok_def map_of_eq_None_iff)
  have lim: "map_of (bt_limits db') (t, c) = (if t = s then map_of xs c else map_of (bt_limits db) (t, c))" for t c
  proof -
    have "map_of xs c = None" if "c \<notin> fst ` set xs" using that by (simp add: map_of_eq_None_iff)
    then show ?thesis using f(6) [of t c] none [of c] by (auto simp del: map_of_eq_None_iff)
  qed
  have keys: "fst k \<in> fst ` set (bt_scopes db')" if "k \<in> fst ` set (bt_limits db') \<union> fst ` set (bt_counters db')" for k
  proof -
    have "fst k = s \<or> k \<in> fst ` set (bt_limits db) \<union> fst ` set (bt_counters db)"
    proof (cases "fst k = s")
      case False
      then have "map_of (bt_limits db') k = map_of (bt_limits db) k"
        using lim [of "fst k" "snd k"] by (simp del: map_of_eq_Some_iff)
      then show ?thesis using that f(2) by (metis Un_iff map_of_eq_None_iff)
    qed simp
    then show ?thesis using t(1) f(1) by (auto simp: tables_ok_def)
  qed
  have wf: "scope_wf db' t' r" if "map_of (bt_scopes db') t' = Some r" for t' r
  proof -
    have "scope_wf db t' r"
      using that t(1) row by (auto simp: f(1) tables_ok_def map_add_def split: option.splits if_splits)
    then show ?thesis using f(1) by (rule scope_wf_extend)
  qed
  have "dict_ok (bt_scopes db')" using t(1) new by (simp add: f(1) tables_ok_def)
  then have "tables_ok db'" using t(1) keys wf f(2,3,4) by (simp add: tables_ok_def del: map_of_eq_Some_iff)
  moreover have "caps_ok db'"
  proof -
    have "counter_row db' = counter_row db" using f(2) by (rule counter_row_cong)
    moreover have "0 \<le> n \<and> n < 2 ^ 63" if "map_of xs c = Some n" for c n
      using xs(2) f(5) map_of_SomeD [OF that] by auto
    ultimately show ?thesis
      using t(2) counter_row_unknown [OF t(1) new] by (auto simp: caps_ok_def lim simp del: map_of_eq_Some_iff)
  qed
  moreover have "allocation_ok db'"
    unfolding allocation_ok_def
  proof (intro allI impI)
    fix p c limit
    assume l: "map_of (bt_limits db') (p, c) = Some limit"
    note k = insert_scope_kids [OF ins t(1) xs(1) new, of p c]
    show "kids_limit db' p c \<le> limit"
    proof (cases "p = s")
      case True
      have "sw_parent row \<noteq> Some s" using row new by (force simp: scope_wf_def dest: map_of_SomeD)
      moreover have "0 \<le> limit" using l xs(2) by (force simp: lim True dest: map_of_SomeD)
      ultimately show ?thesis using k kids_unknown [OF t(1) new] by (simp add: True)
    next
      case False
      with l have old: "map_of (bt_limits db) (p, c) = Some limit" by (simp add: lim del: map_of_eq_Some_iff)
      then have "kids_limit db p c \<le> limit" using t(3) by (simp add: allocation_ok_def del: map_of_eq_Some_iff)
      moreover have "kids_limit db p c + amt xs c \<le> limit" if "sw_parent row = Some p" "c \<in> fst ` set xs"
        using allocation_check_ok [OF alloc [OF that(1)] xs(1) dl that(2) old] by (simp add: kids_limit_def)
      ultimately show ?thesis using k by (cases "c \<in> fst ` set xs") (auto simp: amt_notin)
    qed
  qed
  moreover have "stored_ok db'" using t(4) f(3) by (simp add: stored_ok_def)
  ultimately show ?thesis by (simp add: hb_inv_def)
qed

section \<open>Changing limits\<close>

lemma scope_wf_same: "bt_scopes db' = bt_scopes db \<Longrightarrow> scope_wf db' = scope_wf db"
  by (intro ext iffI; erule scope_wf_extend [where extra = "[]"]) simp_all

lemma write_limits_inv:
  assumes w: "write_limits db s xs = Inr db'" and inv: "hb_inv db" and xs: "dict_ok xs" "\<forall>(c, n) \<in> set xs. 0 \<le> n"
    and row: "map_of (bt_scopes db) s = Some row" and changes: "check_changes db s xs = Inr ()"
    and parent: "\<And>p c limit. sw_parent row = Some p \<Longrightarrow> map_of (bt_limits db) (p, c) = Some limit \<Longrightarrow> c \<in> fst ` set xs \<Longrightarrow>
      sum_list (child_limits db p c (Some s)) + amt xs c \<le> limit"
  shows "hb_inv db'"
proof -
  have t: "tables_ok db" "caps_ok db" "allocation_ok db" "stored_ok db" using inv by (simp_all add: hb_inv_def)
  have dl: "dict_ok (bt_limits db)" and ds: "dict_ok (bt_scopes db)" using t(1) by (simp_all add: tables_ok_def)
  note ok = write_limits_ok [OF w xs(1) dl]
  have same: "bt_scopes db' = bt_scopes db" "bt_counters db' = bt_counters db" "bt_reservations db' = bt_reservations db"
    using ok by (simp_all add: same_rows_def)
  have lim: "map_of (bt_limits db') (t, c) =
      (if t = s \<and> c \<in> fst ` set xs then map_of xs c else map_of (bt_limits db) (t, c))" for t c
    using ok by simp
  have s: "s \<in> fst ` set (bt_scopes db)" using row by (force dest: map_of_SomeD)
  have "fst k \<in> fst ` set (bt_scopes db)" if "k \<in> fst ` set (bt_limits db')" for k
  proof (cases "fst k = s")
    case False
    then have "map_of (bt_limits db') k = map_of (bt_limits db) k"
      using lim [of "fst k" "snd k"] by (simp del: map_of_eq_Some_iff)
    then have "k \<in> fst ` set (bt_limits db)" using that by (metis map_of_eq_None_iff)
    then show ?thesis using t(1) by (auto simp: tables_ok_def)
  qed (use s in simp)
  moreover have "scope_wf db' = scope_wf db" by (rule scope_wf_same) (rule same(1))
  ultimately have "tables_ok db'" using t(1) ok by (auto simp: tables_ok_def same simp del: map_of_eq_Some_iff)
  moreover have "caps_ok db'"
  proof -
    have cr: "counter_row db' = counter_row db" using same(2) by (rule counter_row_cong)
    have "0 \<le> n \<and> n < 2 ^ 63" if "map_of xs c = Some n" for c n
      using xs(2) ok map_of_SomeD [OF that] by auto
    moreover have "fst (counter_row db s c) + snd (counter_row db s c) \<le> n" if "map_of xs c = Some n" for c n
      using check_changes_ok [OF changes xs(1), of c] that map_of_amt [of c xs] by (force dest: map_of_SomeD)
    ultimately show ?thesis using t(2) by (auto simp: caps_ok_def lim cr simp del: map_of_eq_Some_iff)
  qed
  moreover have "allocation_ok db'"
    unfolding allocation_ok_def
  proof (intro allI impI)
    fix p c limit
    assume l: "map_of (bt_limits db') (p, c) = Some limit"
    have old: "map_of (bt_limits db) (p, c) = Some limit \<Longrightarrow> kids_limit db p c \<le> limit"
      using t(3) by (simp add: allocation_ok_def del: map_of_eq_Some_iff)
    let ?kids = "\<lambda>db. List.map_filter (\<lambda>(t, r). if sw_parent r = Some p then map_of (bt_limits db) (t, c) else None) (bt_scopes db)"
    show "kids_limit db' p c \<le> limit"
    proof (cases "sw_parent row = Some p \<and> c \<in> fst ` set xs")
      case True
      then have "p \<noteq> s" using t(1) row by (fastforce simp: tables_ok_def scope_wf_def simp del: map_of_eq_Some_iff)
      with l have l': "map_of (bt_limits db) (p, c) = Some limit" by (simp add: lim del: map_of_eq_Some_iff)
      have "kids_limit db' p c = sum_list (child_limits db p c (Some s)) + amt xs c"
        using kids_split [OF ds row, of p "\<lambda>t. map_of (bt_limits db') (t, c)"] True
          kids_excluding [of s "\<lambda>t. map_of (bt_limits db') (t, c)" "\<lambda>t. map_of (bt_limits db) (t, c)" p "bt_scopes db"] lim
        by (simp add: kids_limit_unfold child_limits_def same map_of_amt)
      with parent [OF _ l'] True show ?thesis by simp
    next
      case False
      have "?kids db' = ?kids db"
      proof (cases "sw_parent row = Some p")
        case True
        with False have "c \<notin> fst ` set xs" by simp
        then show ?thesis by (simp add: same lim cong: if_cong)
      next
        case other: False
        then show ?thesis unfolding same using lim row
          by (intro kids_other [OF ds, where s = s]) (simp_all del: map_of_eq_Some_iff)
      qed
      then have k: "kids_limit db' p c = kids_limit db p c" by (simp add: kids_limit_unfold)
      show ?thesis
      proof (cases "p = s \<and> c \<in> fst ` set xs")
        case True
        then have "limit = amt xs c" using l by (simp add: lim map_of_amt)
        then show ?thesis using check_changes_ok [OF changes xs(1), of c] True k by simp
      next
        case False
        with l have "map_of (bt_limits db) (p, c) = Some limit" by (auto simp add: lim simp del: map_of_eq_Some_iff split: if_splits)
        with old k show ?thesis by simp
      qed
    qed
  qed
  moreover have "stored_ok db'" using t(4) by (simp add: stored_ok_def same)
  ultimately show ?thesis by (simp add: hb_inv_def)
qed

lemma dict_updates:
  assumes "dict_ok ys"
  shows "map_of (AList.updates (map fst ys) (map snd ys) xs) c = (if c \<in> fst ` set ys then Some (amt ys c) else map_of xs c)"
  using assms
proof (induction ys arbitrary: xs)
  case (Cons y ys)
  then show ?case by (cases y) (auto simp: update_conv' amt_notin)
qed simp

lemma transaction_cases:
  obtains (failed) e where "r = Inl e" "transaction db r = (Inl e, db)"
  | (committed) x db' where "r = Inr (x, db')" "transaction db r = (Inr x, db')"
  by (cases r) (auto simp: transaction_def)

lemma read_limits_ok:
  "read_limits db s = Inr xs \<Longrightarrow> dict_ok (bt_limits db) \<Longrightarrow> dict_ok xs \<and> map_of xs c = map_of (bt_limits db) (s, c)"
  unfolding read_limits_def using bounded_pairs_ok by blast

lemma configure_inv:
  assumes inv: "hb_inv db" and d: "dict_ok limits"
  shows "hb_inv (snd (configure db sc limits expected_limits))"
proof (cases "fst (configure db sc limits expected_limits)")
  case (Inl e)
  then have "snd (configure db sc limits expected_limits) = db"
    by (auto simp: configure_def transaction_def split: sum.splits prod.splits)
  with inv show ?thesis by simp
next
  case (Inr u)
  let ?s = "sc_id sc"
  from Inr obtain changes expected pp depth chain current db' where
    ch: "hard_limits limits = Inr changes"
    and meta: "scope_metadata db sc = Inr (pp, depth)"
    and cur: "read_limits db ?s = Inr current"
    and chk: "check_changes db ?s changes = Inr ()"
    and par: "(case pp of None \<Rightarrow> Inr () | Some p \<Rightarrow> allocation_check db p
        (AList.updates (map fst changes) (map snd changes) current) (Some ?s)) = Inr ()"
    and w: "write_limits db ?s changes = Inr db'"
    and res: "snd (configure db sc limits expected_limits) = db'"
    by (auto simp: configure_def transaction_def rbind_eq_Inr Let_def split: sum.splits prod.splits if_splits)
  from meta obtain row where row: "map_of (bt_scopes db) ?s = Some row" "sw_parent row = pp"
    by (auto simp: scope_metadata_def simp del: map_of_eq_Some_iff split: option.splits if_splits)
  have dl: "dict_ok (bt_limits db)" using inv by (simp add: hb_inv_def tables_ok_def)
  note xs = hard_limits_ok [OF ch d]
  let ?new = "AList.updates (map fst changes) (map snd changes) current"
  have new: "dict_ok ?new" using read_limits_ok [OF cur dl] by (simp add: distinct_updates)
  have "hb_inv db'"
  proof (rule write_limits_inv [OF w inv _ _ row(1) chk])
    show "dict_ok changes" "\<forall>(c, n) \<in> set changes. 0 \<le> n" using xs by blast+
    fix p c limit
    assume p: "sw_parent row = Some p" and l: "map_of (bt_limits db) (p, c) = Some limit" and c: "c \<in> fst ` set changes"
    then have m: "map_of ?new c = Some (amt changes c)" using dict_updates [of changes current c] xs by simp
    then have "c \<in> fst ` set ?new" by (force dest: map_of_SomeD)
    moreover have "allocation_check db p ?new (Some ?s) = Inr ()" using par p row(2) by simp
    ultimately show "sum_list (child_limits db p c (Some ?s)) + amt changes c \<le> limit"
      using allocation_check_ok [OF _ new dl _ l, of "Some ?s"] m by (simp add: amt_def getd_def del: map_of_eq_Some_iff)
  qed
  with res show ?thesis by simp
qed

section \<open>Reservations\<close>

lemma round_half_even_nonneg: "0 \<le> q \<Longrightarrow> 0 \<le> round_half_even q"
  by (simp add: round_half_even_def Let_def)

lemma to_double_nonneg: "0 \<le> n \<Longrightarrow> 0 \<le> to_double n"
  by (simp add: to_double_def Let_def round_half_even_nonneg)

lemma sqlite_add_nonneg: "0 \<le> a \<Longrightarrow> 0 \<le> b \<Longrightarrow> 0 \<le> sqlite_add a b"
  by (simp add: sqlite_add_def to_double_nonneg)

lemma sqlite_add_exact: "a + b < 2 ^ 63 \<Longrightarrow> sqlite_add a b = a + b"
  by (simp add: sqlite_add_def)

lemma kids_limit_cong: "bt_scopes a = bt_scopes b \<Longrightarrow> bt_limits a = bt_limits b \<Longrightarrow> kids_limit a = kids_limit b"
  by (intro ext) (simp only: kids_limit_def child_limits_def)

lemma same_but_counters_inv:
  assumes "same_but_counters db db' S" "tables_ok db" "S \<subseteq> fst ` set (bt_scopes db)"
  shows "tables_ok db'" "allocation_ok db \<Longrightarrow> allocation_ok db'" "stored_ok db \<Longrightarrow> stored_ok db'"
proof -
  have same: "bt_scopes db' = bt_scopes db" "bt_limits db' = bt_limits db" "bt_reservations db' = bt_reservations db"
    using assms(1) by (simp_all add: same_but_counters_def same_rows_def)
  have "fst k \<in> fst ` set (bt_scopes db)" if "k \<in> fst ` set (bt_counters db')" for k
  proof -
    have "k \<in> fst ` set (bt_counters db) \<or> fst k \<in> S"
      using assms(1) that unfolding same_but_counters_def by blast
    with assms(2,3) show ?thesis by (auto simp: tables_ok_def)
  qed
  then have keys: "\<forall>k \<in> fst ` set (bt_limits db) \<union> fst ` set (bt_counters db'). fst k \<in> fst ` set (bt_scopes db)"
    using assms(2) unfolding tables_ok_def by blast
  have "dict_ok (bt_counters db')" using assms(1,2) by (simp add: same_but_counters_def tables_ok_def)
  with keys show "tables_ok db'"
    using assms(2) scope_wf_same [OF same(1)] unfolding tables_ok_def same by simp
  show "allocation_ok db \<Longrightarrow> allocation_ok db'"
    using kids_limit_cong [OF same(1,2)] by (simp add: allocation_ok_def same)
  show "stored_ok db \<Longrightarrow> stored_ok db'" by (simp add: stored_ok_def same)
qed

lemma durable_reserve_cases:
  assumes "durable_reserve db sc amounts fresh = (Inr r, db')"
  obtains xs chain where "budget_amounts amounts = Inr xs" "scope_chain db (sc_root sc) (sc_id sc) = Inr chain"
    "check_scopes db chain [] xs = Inr ()" "fresh \<notin> fst ` set (bt_reservations db)"
    "add_reserved_all (db\<lparr>bt_reservations := bt_reservations db @ [(fresh, \<lparr>rw_root = sc_root sc, rw_scope = sc_id sc,
       rw_amounts = encode_amounts xs, rw_status = ACTIVE\<rparr>)]\<rparr>) chain xs = Inr db'"
    "r = \<lparr>dv_scope = sc, dv_id = fresh, dv_amounts = xs\<rparr>"
  using assms
  by (auto simp: durable_reserve_def transaction_def rbind_eq_Inr Let_def split: sum.splits prod.splits if_splits)

lemma durable_reserve_error: "durable_reserve db sc amounts fresh = (Inl e, db') \<Longrightarrow> db' = db"
  by (auto simp: durable_reserve_def transaction_def split: sum.splits prod.splits)

lemma durable_reserve_inv:
  assumes res: "durable_reserve db sc amounts fresh = (Inr r, db')" and inv: "hb_inv db" and d: "dict_ok amounts"
  shows "hb_inv db'"
proof -
  obtain xs chain where xs: "budget_amounts amounts = Inr xs" and chain: "scope_chain db (sc_root sc) (sc_id sc) = Inr chain"
    and chk: "check_scopes db chain [] xs = Inr ()" and fresh: "fresh \<notin> fst ` set (bt_reservations db)"
    and add: "add_reserved_all (db\<lparr>bt_reservations := bt_reservations db @ [(fresh, \<lparr>rw_root = sc_root sc, rw_scope = sc_id sc,
       rw_amounts = encode_amounts xs, rw_status = ACTIVE\<rparr>)]\<rparr>) chain xs = Inr db'"
    by (rule durable_reserve_cases [OF res])
  have t: "tables_ok db" "caps_ok db" "allocation_ok db" "stored_ok db" using inv by (simp_all add: hb_inv_def)
  note bo = budget_amounts_ok [OF xs d]
  let ?row = "\<lparr>rw_root = sc_root sc, rw_scope = sc_id sc, rw_amounts = encode_amounts xs, rw_status = ACTIVE\<rparr>"
  let ?db = "db\<lparr>bt_reservations := bt_reservations db @ [(fresh, ?row)]\<rparr>"
  have wf: "scope_wf ?db = scope_wf db" by (rule scope_wf_same) simp
  have tdb: "tables_ok ?db" using t(1) fresh wf by (simp add: tables_ok_def)
  have "stored_ok ?db"
    using t(4) fresh stored_encode [OF xs d]
    by (auto simp: stored_ok_def map_add_def simp del: map_of_eq_Some_iff split: option.splits if_splits)
  moreover have "kids_limit ?db = kids_limit db" by (rule kids_limit_cong) simp_all
  then have "allocation_ok ?db" using t(3) by (simp add: allocation_ok_def)
  moreover note ok = add_reserved_all_ok [OF add _ scope_chain_ok(1) [OF chain]]
  have ok: "same_but_counters ?db db' (set chain)" "\<forall>(c, n) \<in> set xs. n < 2 ^ 63"
    "\<And>s c. counter_row db' s c = (if s \<in> set chain \<and> c \<in> fst ` set xs
      then (fst (counter_row ?db s c), sqlite_add (snd (counter_row ?db s c)) (amt xs c)) else counter_row ?db s c)"
    using ok bo scope_chain_ok(2) [OF chain] by blast+
  have sub: "set chain \<subseteq> fst ` set (bt_scopes ?db)" using scope_chain_ok(4) [OF chain] by simp
  ultimately have "tables_ok db'" "allocation_ok db'" "stored_ok db'"
    using same_but_counters_inv [OF ok(1) tdb sub] by blast+
  moreover have "caps_ok db'"
  proof -
    have cr: "counter_row ?db = counter_row db" by (rule counter_row_cong) simp
    have lim: "bt_limits db' = bt_limits db" using ok(1) by (simp add: same_but_counters_def)
    have nonneg: "0 \<le> amt xs c" for c using bo by (intro amt_nonneg) auto
    have "fst (counter_row db' s c) + snd (counter_row db' s c) \<le> limit"
      if l: "map_of (bt_limits db) (s, c) = Some limit" for s c limit
    proof (cases "s \<in> set chain \<and> c \<in> fst ` set xs")
      case True
      then have "fst (counter_row db s c) + snd (counter_row db s c) + amt xs c \<le> limit"
        using check_scopes_ok [OF chk _ _ _ _ l] bo t(1) by (simp add: tables_ok_def)
      moreover have "limit < 2 ^ 63" "0 \<le> fst (counter_row db s c)" using t(2) l by (auto simp: caps_ok_def simp del: map_of_eq_Some_iff)
      ultimately show ?thesis using ok(3) [of s c] True by (simp add: cr sqlite_add_exact)
    next
      case False
      with ok(3) [of s c] t(2) l show ?thesis by (auto simp: cr caps_ok_def simp del: map_of_eq_Some_iff)
    qed
    moreover have "0 \<le> fst (counter_row db' s c) \<and> 0 \<le> snd (counter_row db' s c)" for s c
      using ok(3) [of s c] t(2) nonneg [of c] by (simp add: cr caps_ok_def sqlite_add_nonneg)
    ultimately show ?thesis using t(2) by (simp add: caps_ok_def lim del: map_of_eq_Some_iff)
  qed
  ultimately show ?thesis by (simp add: hb_inv_def)
qed

lemma finish_error: "finish_reservation db sc rid actual = (Inl e, db') \<Longrightarrow> db' = db"
  by (auto simp: finish_reservation_def transaction_def split: sum.splits prod.splits)

lemma finish_cases:
  assumes "finish_reservation db sc rid actual = (Inr u, db')"
  obtains charged row hs chain db1 where
    "(case actual of None \<Rightarrow> Inr None | Some a \<Rightarrow> rbind (budget_amounts a) (\<lambda>xs. Inr (Some xs))) = Inr charged"
    "find_reservation db sc rid = Inr row" "rw_status row = ACTIVE" "decode_amounts (rw_amounts row) = Inr hs"
    "scope_chain db (sc_root sc) (sc_id sc) = Inr chain"
    "check_scopes db chain hs (case charged of None \<Rightarrow> [] | Some xs \<Rightarrow> xs) = Inr ()"
    "replace_reserved_all db chain hs (case charged of None \<Rightarrow> [] | Some xs \<Rightarrow> xs) = Inr db1"
    "db' = db1\<lparr>bt_reservations := AList.update rid
       (row\<lparr>rw_status := (if charged = None then RELEASED else RECONCILED)\<rparr>) (bt_reservations db1)\<rparr>"
  using assms
  by (auto simp: finish_reservation_def transaction_def rbind_eq_Inr Let_def split: sum.splits prod.splits if_splits)

lemma finish_inv:
  assumes res: "finish_reservation db sc rid actual = (Inr u, db')" and inv: "hb_inv db"
    and d: "\<And>a. actual = Some a \<Longrightarrow> dict_ok a"
  shows "hb_inv db'"
proof -
  obtain charged row hs chain db1 where
    ch: "(case actual of None \<Rightarrow> Inr None | Some a \<Rightarrow> rbind (budget_amounts a) (\<lambda>xs. Inr (Some xs))) = Inr charged"
    and row: "find_reservation db sc rid = Inr row" "rw_status row = ACTIVE" and hs: "decode_amounts (rw_amounts row) = Inr hs"
    and chain: "scope_chain db (sc_root sc) (sc_id sc) = Inr chain"
    and chk: "check_scopes db chain hs (case charged of None \<Rightarrow> [] | Some xs \<Rightarrow> xs) = Inr ()"
    and rep: "replace_reserved_all db chain hs (case charged of None \<Rightarrow> [] | Some xs \<Rightarrow> xs) = Inr db1"
    and db': "db' = db1\<lparr>bt_reservations := AList.update rid
       (row\<lparr>rw_status := (if charged = None then RELEASED else RECONCILED)\<rparr>) (bt_reservations db1)\<rparr>"
    by (rule finish_cases [OF res])
  define final where "final = (case charged of None \<Rightarrow> [] | Some xs \<Rightarrow> xs)"
  have t: "tables_ok db" "caps_ok db" "allocation_ok db" "stored_ok db" using inv by (simp_all add: hb_inv_def)
  have fin: "dict_ok final" "\<forall>(c, n) \<in> set final. 0 < n"
  proof -
    have "final = [] \<or> (\<exists>a. budget_amounts a = Inr final \<and> dict_ok a)"
      using ch d by (cases actual) (auto simp: final_def rbind_eq_Inr)
    then have "dict_ok final \<and> (\<forall>(c, n) \<in> set final. 0 < n)" using budget_amounts_ok by fastforce
    then show "dict_ok final" "\<forall>(c, n) \<in> set final. 0 < n" by blast+
  qed
  have rid: "map_of (bt_reservations db) rid = Some row"
    using row(1) by (auto simp: find_reservation_def simp del: map_of_eq_Some_iff split: option.splits if_splits)
  then obtain xs where "stored_amounts (rw_amounts row) xs" using t(4) unfolding stored_ok_def by blast
  with hs decode_stored have st: "stored_amounts (rw_amounts row) hs" by fastforce
  then have hsn: "0 \<le> amt hs c" for c by (intro amt_nonneg) (auto simp: stored_amounts_def)
  note ok = replace_reserved_all_ok [OF rep [folded final_def] scope_chain_ok(1) [OF chain]]
  have sub: "set chain \<subseteq> fst ` set (bt_scopes db)" by (rule scope_chain_ok(4) [OF chain])
  have cnt: "same_but_counters db db1 (set chain)" using ok by blast
  note t1 = same_but_counters_inv [OF cnt t(1) sub]
  have same: "bt_scopes db' = bt_scopes db1" "bt_limits db' = bt_limits db" "bt_limits db1 = bt_limits db"
    "bt_reservations db1 = bt_reservations db" "bt_counters db' = bt_counters db1"
    using cnt by (simp_all add: same_but_counters_def same_rows_def db')
  have "tables_ok db'" using t1(1) scope_wf_same [OF same(1)] unfolding tables_ok_def db' by simp
  moreover have "allocation_ok db'"
    using t1(2) [OF t(3)] kids_limit_cong [of db' db1] by (simp add: allocation_ok_def same)
  moreover have "stored_ok db'"
    using t(4) st by (auto simp: stored_ok_def db' same(4) update_conv' simp del: map_of_eq_Some_iff split: if_splits)
  moreover have "caps_ok db'"
  proof -
    have cr: "counter_row db' = counter_row db1" using same(5) by (rule counter_row_cong)
    have cr1: "counter_row db1 s c = (if s \<in> set chain then (fst (counter_row db s c) + amt final c,
        snd (counter_row db s c) - amt hs c) else counter_row db s c)" for s c using ok by blast
    have le: "s \<in> set chain \<Longrightarrow> amt hs c \<le> snd (counter_row db s c)" for s c
      using ok t(2) by (cases "c \<in> fst ` set hs") (auto simp: amt_notin caps_ok_def)
    have fn: "0 \<le> amt final c" for c using fin by (intro amt_nonneg) auto
    have "fst (counter_row db1 s c) + snd (counter_row db1 s c) \<le> limit"
      if l: "map_of (bt_limits db) (s, c) = Some limit" for s c limit
    proof (cases "s \<in> set chain \<and> c \<in> fst ` set final")
      case True
      then have "fst (counter_row db s c) + snd (counter_row db s c) - amt hs c + amt final c \<le> limit"
        using check_scopes_ok [OF chk [folded final_def] fin(1) _ _ _ l] t(1) by (simp add: tables_ok_def)
      with True show ?thesis by (simp add: cr1)
    next
      case False
      have "fst (counter_row db s c) + snd (counter_row db s c) \<le> limit"
        using t(2) l unfolding caps_ok_def by blast
      with False hsn [of c] show ?thesis by (auto simp: cr1 amt_notin)
    qed
    moreover have "0 \<le> fst (counter_row db1 s c) \<and> 0 \<le> snd (counter_row db1 s c)" for s c
      using t(2) fn [of c] le [of s c] by (auto simp: cr1 caps_ok_def)
    ultimately show ?thesis using t(2) unfolding caps_ok_def cr same by blast
  qed
  ultimately show ?thesis by (simp add: hb_inv_def)
qed

lemma transaction_Inr [simp]: "transaction db r = (Inr x, db') \<longleftrightarrow> r = Inr (x, db')"
  by (auto simp: transaction_def split: sum.splits)

lemma transaction_Inl [simp]: "transaction db r = (Inl e, db') \<longleftrightarrow> r = Inl e \<and> db' = db"
  by (auto simp: transaction_def split: sum.splits)

lemma store_root_error: "store_root db key name limits = (Inl e, db') \<Longrightarrow> db' = db"
  by (simp add: store_root_def Let_def split: sum.splits)

lemma create_child_error: "create_child db key parent name limits = (Inl e, db') \<Longrightarrow> db' = db"
  by (simp add: create_child_def Let_def split: sum.splits if_splits)

lemma store_root_cases:
  assumes "store_root db key name limits = (Inr h, db')"
  shows "\<exists>xs. hard_limits limits = Inr xs \<and> (db' = db \<or>
    map_of (bt_scopes db) (scope_digest key ''root'' [name]) = None \<and>
    insert_scope (db\<lparr>bt_roots := bt_roots db @ [scope_digest key ''root'' [name]]\<rparr>) (scope_digest key ''root'' [name])
      \<lparr>sw_root = scope_digest key ''root'' [name], sw_parent = None, sw_depth = 0\<rparr> xs = Inr db')"
  using assms
  by (cases "map_of (bt_scopes db) (scope_digest key ''root'' [name])"; cases "hard_limits limits")
    (simp_all add: store_root_def rbind_eq_Inr Let_def split: sum.splits if_splits)

lemma create_child_cases:
  assumes "create_child db key parent name limits = (Inr h, db')"
  shows "\<exists>xs pp depth. hard_limits limits = Inr xs \<and> scope_metadata db parent = Inr (pp, depth) \<and> \<not> int max_depth \<le> depth \<and>
    (db' = db \<or>
     map_of (bt_scopes db) (scope_digest key ''scope'' [sc_root parent, sc_id parent, name]) = None \<and>
     allocation_check db (sc_id parent) xs None = Inr () \<and>
     insert_scope db (scope_digest key ''scope'' [sc_root parent, sc_id parent, name])
       \<lparr>sw_root = sc_root parent, sw_parent = Some (sc_id parent), sw_depth = depth + 1\<rparr> xs = Inr db')"
  using assms
  by (cases "map_of (bt_scopes db) (scope_digest key ''scope'' [sc_root parent, sc_id parent, name])"; cases "hard_limits limits")
    (simp_all add: create_child_def rbind_eq_Inr Let_def split: sum.splits if_splits)

lemma store_root_inv:
  assumes inv: "hb_inv db" and d: "dict_ok limits"
  shows "hb_inv (snd (store_root db key name limits))"
proof (cases "fst (store_root db key name limits)")
  case (Inl e)
  then have "snd (store_root db key name limits) = db"
    by (cases "store_root db key name limits") (auto dest: store_root_error)
  with inv show ?thesis by simp
next
  case (Inr h)
  define rt where "rt = scope_digest key ''root'' [name]"
  let ?row = "\<lparr>sw_root = rt, sw_parent = None, sw_depth = 0\<rparr>"
  obtain xs where xs: "hard_limits limits = Inr xs"
    and cases: "snd (store_root db key name limits) = db \<or>
      (map_of (bt_scopes db) rt = None \<and>
       insert_scope (db\<lparr>bt_roots := bt_roots db @ [rt]\<rparr>) rt ?row xs = Inr (snd (store_root db key name limits)))"
    using store_root_cases [of db key name limits h "snd (store_root db key name limits)"] Inr
    unfolding rt_def by (cases "store_root db key name limits") auto
  let ?db = "db\<lparr>bt_roots := bt_roots db @ [rt]\<rparr>"
  have "scope_wf ?db = scope_wf db" by (rule scope_wf_same) simp
  moreover have "kids_limit ?db = kids_limit db" by (rule kids_limit_cong) simp_all
  moreover have "counter_row ?db = counter_row db" by (rule counter_row_cong) simp
  ultimately have idb: "hb_inv ?db"
    using inv by (simp add: hb_inv_def tables_ok_def caps_ok_def allocation_ok_def stored_ok_def)
  from cases show ?thesis
  proof
    assume new: "map_of (bt_scopes db) rt = None \<and> insert_scope ?db rt ?row xs = Inr (snd (store_root db key name limits))"
    have row: "scope_wf ?db rt ?row" by (simp add: scope_wf_def)
    have "rt \<notin> fst ` set (bt_scopes ?db)" using new by (simp add: map_of_eq_None_iff)
    from insert_scope_inv [OF conjunct2 [OF new] idb _ _ this row] hard_limits_ok [OF xs d] show ?thesis by simp
  qed (use inv in simp)
qed

lemma create_child_inv:
  assumes inv: "hb_inv db" and d: "dict_ok limits"
  shows "hb_inv (snd (create_child db key parent name limits))"
proof (cases "fst (create_child db key parent name limits)")
  case (Inl e)
  then have "snd (create_child db key parent name limits) = db"
    by (cases "create_child db key parent name limits") (auto dest: create_child_error)
  with inv show ?thesis by simp
next
  case (Inr h)
  define s where "s = scope_digest key ''scope'' [sc_root parent, sc_id parent, name]"
  obtain xs pp depth where xs: "hard_limits limits = Inr xs"
    and meta: "scope_metadata db parent = Inr (pp, depth)" and deep: "\<not> int max_depth \<le> depth"
    and cases: "snd (create_child db key parent name limits) = db \<or>
      (map_of (bt_scopes db) s = None \<and> allocation_check db (sc_id parent) xs None = Inr () \<and>
       insert_scope db s \<lparr>sw_root = sc_root parent, sw_parent = Some (sc_id parent), sw_depth = depth + 1\<rparr> xs =
         Inr (snd (create_child db key parent name limits)))"
    using create_child_cases [of db key parent name limits h "snd (create_child db key parent name limits)"] Inr
    unfolding s_def by (cases "create_child db key parent name limits") auto
  let ?row = "\<lparr>sw_root = sc_root parent, sw_parent = Some (sc_id parent), sw_depth = depth + 1\<rparr>"
  obtain prow where prow: "map_of (bt_scopes db) (sc_id parent) = Some prow" "sw_root prow = sc_root parent" "sw_depth prow = depth"
    using meta by (auto simp: scope_metadata_def simp del: map_of_eq_Some_iff split: option.splits if_splits)
  have "scope_wf db (sc_id parent) prow" using inv prow(1) unfolding hb_inv_def tables_ok_def by blast
  with deep prow have row: "scope_wf db s ?row" by (simp add: scope_wf_def)
  from cases show ?thesis
  proof
    assume new: "map_of (bt_scopes db) s = None \<and> allocation_check db (sc_id parent) xs None = Inr () \<and>
      insert_scope db s ?row xs = Inr (snd (create_child db key parent name limits))"
    then have "s \<notin> fst ` set (bt_scopes db)" by (simp add: map_of_eq_None_iff)
    from insert_scope_inv [OF _ inv _ _ this row, of xs] hard_limits_ok [OF xs d] new show ?thesis by auto
  qed (use inv in simp)
qed

section \<open>Runs\<close>

inductive durable_step :: "budget_tables \<Rightarrow> budget_tables \<Rightarrow> bool" where
  step_root: "dict_ok limits \<Longrightarrow> durable_step db (snd (store_root db key name limits))"
| step_child: "dict_ok limits \<Longrightarrow> durable_step db (snd (create_child db key parent name limits))"
| step_configure: "dict_ok limits \<Longrightarrow> durable_step db (snd (configure db sc limits expected_limits))"
| step_reserve: "dict_ok amounts \<Longrightarrow> durable_step db (snd (durable_reserve db sc amounts fresh))"
| step_reconcile: "dict_ok actual \<Longrightarrow> durable_step db (snd (finish_reservation db sc rid (Some actual)))"
| step_cancel: "durable_step db (snd (finish_reservation db sc rid None))"

definition durable_init :: "budget_tables \<Rightarrow> bool" where
  "durable_init db \<longleftrightarrow> db = no_tables"

text \<open>A reservation that was reconciled or released keeps its row.\<close>

definition finished_stay :: "budget_tables \<Rightarrow> budget_tables \<Rightarrow> bool" where
  "finished_stay db db' \<longleftrightarrow> (\<forall>rid row. map_of (bt_reservations db) rid = Some row \<longrightarrow> rw_status row \<noteq> ACTIVE \<longrightarrow>
     map_of (bt_reservations db') rid = Some row)"

lemma durable_init_inv: "durable_init db \<Longrightarrow> hb_inv db"
  by (simp add: durable_init_def no_tables_def hb_inv_def tables_ok_def caps_ok_def allocation_ok_def
      stored_ok_def counter_row_def)

lemma durable_reserve_step_inv: "hb_inv db \<Longrightarrow> dict_ok amounts \<Longrightarrow> hb_inv (snd (durable_reserve db sc amounts fresh))"
  by (cases "durable_reserve db sc amounts fresh"; cases "fst (durable_reserve db sc amounts fresh)")
    (auto dest: durable_reserve_inv durable_reserve_error)

lemma finish_step_inv:
  "hb_inv db \<Longrightarrow> (\<And>a. actual = Some a \<Longrightarrow> dict_ok a) \<Longrightarrow> hb_inv (snd (finish_reservation db sc rid actual))"
  by (cases "finish_reservation db sc rid actual"; cases "fst (finish_reservation db sc rid actual)")
    (auto dest: finish_inv finish_error)

lemma durable_step_inv: "durable_step db db' \<Longrightarrow> hb_inv db \<Longrightarrow> hb_inv db'"
  by (induction rule: durable_step.induct)
    (auto intro: store_root_inv create_child_inv configure_inv durable_reserve_step_inv finish_step_inv)

lemma write_limits_reservations: "write_limits db s xs = Inr db' \<Longrightarrow> bt_reservations db' = bt_reservations db"
  by (induction xs arbitrary: db) (auto simp: rbind_eq_Inr)

lemma finished_stay_refl: "finished_stay db db"
  by (simp add: finished_stay_def)

lemma finished_stay_same: "bt_reservations db' = bt_reservations db \<Longrightarrow> finished_stay db db'"
  by (simp add: finished_stay_def)

lemma configure_reservations: "bt_reservations (snd (configure db sc limits ex)) = bt_reservations db"
proof (cases "configure db sc limits ex")
  case (Pair r db')
  show ?thesis
  proof (cases r)
    case (Inl e)
    with Pair have "db' = db" by (auto simp: configure_def split: sum.splits prod.splits)
    with Pair show ?thesis by simp
  next
    case (Inr u)
    with Pair obtain changes where "write_limits db (sc_id sc) changes = Inr db'"
      by (auto simp: configure_def rbind_eq_Inr Let_def split: sum.splits prod.splits if_splits)
    with Pair show ?thesis by (simp add: write_limits_reservations)
  qed
qed

lemma store_root_reservations: "bt_reservations (snd (store_root db key name limits)) = bt_reservations db"
proof (cases "store_root db key name limits")
  case (Pair r db')
  show ?thesis
  proof (cases r)
    case (Inl e)
    with Pair show ?thesis by (auto dest: store_root_error)
  next
    case (Inr h)
    with Pair store_root_cases [of db key name limits h db'] show ?thesis
      by (auto simp: insert_scope_def dest: write_limits_reservations)
  qed
qed

lemma create_child_reservations: "bt_reservations (snd (create_child db key parent name limits)) = bt_reservations db"
proof (cases "create_child db key parent name limits")
  case (Pair r db')
  show ?thesis
  proof (cases r)
    case (Inl e)
    with Pair show ?thesis by (auto dest: create_child_error)
  next
    case (Inr h)
    with Pair create_child_cases [of db key parent name limits h db'] show ?thesis
      by (auto simp: insert_scope_def dest: write_limits_reservations)
  qed
qed

lemma reserve_finished:
  assumes "durable_reserve db sc amounts fresh = (Inr r, db')" "hb_inv db" "dict_ok amounts"
  shows "finished_stay db db'"
proof -
  obtain xs chain where xs: "budget_amounts amounts = Inr xs" "scope_chain db (sc_root sc) (sc_id sc) = Inr chain"
    and "check_scopes db chain [] xs = Inr ()" and fresh: "fresh \<notin> fst ` set (bt_reservations db)"
    and add: "add_reserved_all (db\<lparr>bt_reservations := bt_reservations db @ [(fresh, \<lparr>rw_root = sc_root sc, rw_scope = sc_id sc,
       rw_amounts = encode_amounts xs, rw_status = ACTIVE\<rparr>)]\<rparr>) chain xs = Inr db'"
    by (rule durable_reserve_cases [OF assms(1)])
  have "bt_reservations db' = bt_reservations db @ [(fresh, \<lparr>rw_root = sc_root sc, rw_scope = sc_id sc,
       rw_amounts = encode_amounts xs, rw_status = ACTIVE\<rparr>)]"
    using add_reserved_all_ok [OF add _ scope_chain_ok(1) [OF xs(2)]] budget_amounts_ok [OF xs(1) assms(3)]
    by (simp add: same_but_counters_def same_rows_def)
  then show ?thesis by (auto simp: finished_stay_def map_add_def simp del: map_of_eq_Some_iff)
qed

lemma finish_rows:
  assumes "finish_reservation db sc rid actual = (Inr u, db')"
  obtains row status where "map_of (bt_reservations db) rid = Some row" "rw_status row = ACTIVE" "status \<noteq> ACTIVE"
    "map_of (bt_reservations db') = (map_of (bt_reservations db))(rid \<mapsto> row\<lparr>rw_status := status\<rparr>)"
    "rw_root row = sc_root sc" "rw_scope row = sc_id sc"
proof -
  obtain charged row hs chain db1 where
    "(case actual of None \<Rightarrow> Inr None | Some a \<Rightarrow> rbind (budget_amounts a) (\<lambda>xs. Inr (Some xs))) = Inr charged"
    and row: "find_reservation db sc rid = Inr row" "rw_status row = ACTIVE" and "decode_amounts (rw_amounts row) = Inr hs"
    and chain: "scope_chain db (sc_root sc) (sc_id sc) = Inr chain"
    and "check_scopes db chain hs (case charged of None \<Rightarrow> [] | Some xs \<Rightarrow> xs) = Inr ()"
    and rep: "replace_reserved_all db chain hs (case charged of None \<Rightarrow> [] | Some xs \<Rightarrow> xs) = Inr db1"
    and db': "db' = db1\<lparr>bt_reservations := AList.update rid
       (row\<lparr>rw_status := (if charged = None then RELEASED else RECONCILED)\<rparr>) (bt_reservations db1)\<rparr>"
    by (rule finish_cases [OF assms])
  have "bt_reservations db1 = bt_reservations db"
    using replace_reserved_all_ok [OF rep scope_chain_ok(1) [OF chain]] by (simp add: same_but_counters_def same_rows_def)
  moreover have "map_of (bt_reservations db) rid = Some row" "rw_root row = sc_root sc" "rw_scope row = sc_id sc"
    using row(1) by (auto simp: find_reservation_def simp del: map_of_eq_Some_iff split: option.splits if_splits)
  ultimately show ?thesis
    using that [of row "if charged = None then RELEASED else RECONCILED"] row(2) by (simp add: db' update_conv')
qed

lemma finish_finished: "finish_reservation db sc rid actual = (Inr u, db') \<Longrightarrow> finished_stay db db'"
  by (erule finish_rows) (auto simp: finished_stay_def simp del: map_of_eq_Some_iff)

lemma durable_step_finished: "durable_step db db' \<Longrightarrow> hb_inv db \<Longrightarrow> finished_stay db db'"
proof (induction rule: durable_step.induct)
  case (step_reserve amounts db sc fresh)
  then show ?case
    by (cases "durable_reserve db sc amounts fresh"; cases "fst (durable_reserve db sc amounts fresh)")
      (auto dest: reserve_finished durable_reserve_error intro: finished_stay_refl)
next
  case (step_reconcile actual db sc rid)
  then show ?case
    by (cases "finish_reservation db sc rid (Some actual)"; cases "fst (finish_reservation db sc rid (Some actual))")
      (auto dest: finish_finished finish_error intro: finished_stay_refl)
next
  case (step_cancel db sc rid)
  then show ?case
    by (cases "finish_reservation db sc rid None"; cases "fst (finish_reservation db sc rid None)")
      (auto dest: finish_finished finish_error intro: finished_stay_refl)
qed (simp_all add: finished_stay_same store_root_reservations create_child_reservations configure_reservations)

interpretation durable: monotone_system durable_init durable_step hb_inv finished_stay
proof unfold_locales
  show "finished_stay db db" for db by (rule finished_stay_refl)
  show "finished_stay a c" if "finished_stay a b" "finished_stay b c" for a b c
    using that unfolding finished_stay_def by blast
qed (auto intro: durable_init_inv durable_step_inv durable_step_finished)

section \<open>Properties\<close>

text \<open>
  A tenant of 10 tokens with a task of 6 below it, and a reservation of 4 by the task: the
  database the witnesses run on. The digests stay uninterpreted.
\<close>

definition example_key :: "nat list" where
  "example_key = replicate 32 7"

definition tenant_id :: string where
  "tenant_id = scope_digest example_key ''root'' [''acme'']"

definition task_id :: string where
  "task_id = scope_digest example_key ''scope'' [tenant_id, tenant_id, ''task'']"

definition tenant_scope :: budget_scope where
  "tenant_scope = \<lparr>sc_root = tenant_id, sc_id = tenant_id, sc_parent = None, sc_depth = 0\<rparr>"

definition tenant_db :: budget_tables where
  "tenant_db = snd (store_root no_tables example_key ''acme'' [(''tokens'', PyInt 10)])"

definition reserved_db :: budget_tables where
  "reserved_db = snd (durable_reserve tenant_db tenant_scope [(''tokens'', PyInt 4)] ''r1'')"

lemma tenant_db_eq: "tenant_db = \<lparr>bt_roots = [tenant_id],
    bt_scopes = [(tenant_id, \<lparr>sw_root = tenant_id, sw_parent = None, sw_depth = 0\<rparr>)],
    bt_limits = [((tenant_id, ''tokens''), 10)], bt_counters = [], bt_reservations = []\<rparr>"
  by (simp add: tenant_db_def store_root_def no_tables_def transaction_def scope_name_def hard_limits_def
      bounded_counters_def insert_scope_def bind_int_def Let_def flip: tenant_id_def)

lemma tenant_chain: "bt_scopes db = [(tenant_id, \<lparr>sw_root = tenant_id, sw_parent = None, sw_depth = 0\<rparr>)] \<Longrightarrow>
  scope_chain db tenant_id tenant_id = Inr [tenant_id]"
  by (simp add: scope_chain_def walk_up.simps)

lemmas table_simps = transaction_def budget_amounts_def bounded_counters_def bounded_pairs_def read_limits_def
  counter_row_def counter_names_def encode_amounts_def tenant_scope_def bind_int_def sqlite_add_def Let_def

lemma reserve_eq: "durable_reserve tenant_db tenant_scope [(''tokens'', PyInt 4)] ''r1'' =
  (Inr \<lparr>dv_scope = tenant_scope, dv_id = ''r1'', dv_amounts = [(''tokens'', 4)]\<rparr>,
   tenant_db\<lparr>bt_counters := [((tenant_id, ''tokens''), 0, 4)],
     bt_reservations := [(''r1'', \<lparr>rw_root = tenant_id, rw_scope = tenant_id,
       rw_amounts = [(''tokens'', PyInt 4)], rw_status = ACTIVE\<rparr>)]\<rparr>)"
  by (simp add: durable_reserve_def tenant_db_eq tenant_chain table_simps)

lemma reserved_db_eq: "reserved_db = tenant_db\<lparr>bt_counters := [((tenant_id, ''tokens''), 0, 4)],
     bt_reservations := [(''r1'', \<lparr>rw_root = tenant_id, rw_scope = tenant_id,
       rw_amounts = [(''tokens'', PyInt 4)], rw_status = ACTIVE\<rparr>)]\<rparr>"
  by (simp add: reserved_db_def reserve_eq)

lemma reconcile_eq: "finish_reservation reserved_db tenant_scope ''r1'' (Some [(''tokens'', PyInt 5)]) =
  (Inr (), tenant_db\<lparr>bt_counters := [((tenant_id, ''tokens''), 5, 0)],
     bt_reservations := [(''r1'', \<lparr>rw_root = tenant_id, rw_scope = tenant_id,
       rw_amounts = [(''tokens'', PyInt 4)], rw_status = RECONCILED\<rparr>)]\<rparr>)"
  by (simp add: finish_reservation_def reserved_db_eq tenant_db_eq tenant_chain table_simps
      find_reservation_def decode_amounts_def)

lemma reserved_db_reachable: "reach durable_init durable_step reserved_db"
proof -
  have "reach durable_init durable_step no_tables" by (rule reach_init) (simp add: durable_init_def)
  then have "reach durable_init durable_step tenant_db"
    unfolding tenant_db_def by (rule reach_step) (rule step_root, simp)
  then show ?thesis
    unfolding reserved_db_def by (rule reach_step) (rule step_reserve, simp)
qed

text \<open>
  C8. The durable hard cap: in every reachable state of the database, on every scope and counter
  with a hard limit, the used and the reserved amounts are natural numbers whose sum is within the
  limit.
\<close>

theorem durable_hard_cap:
  assumes "reach durable_init durable_step db" and "map_of (bt_limits db) (s, c) = Some limit"
  shows "0 \<le> fst (counter_row db s c) \<and> 0 \<le> snd (counter_row db s c) \<and>
    fst (counter_row db s c) + snd (counter_row db s c) \<le> limit"
  using durable.reachable_inv [OF assms(1)] assms(2) unfolding hb_inv_def caps_ok_def by blast

theorem durable_hard_cap_witness:
  "fst (counter_row reserved_db tenant_id ''tokens'') + snd (counter_row reserved_db tenant_id ''tokens'') \<le> 10"
  using durable_hard_cap [OF reserved_db_reachable, of tenant_id "''tokens''" 10]
  by (simp add: reserved_db_eq tenant_db_eq)

text \<open>
  Limits are handed down, never multiplied: in every reachable state the hard limits of the
  children of a scope sum up to at most the scope's own limit for that counter.
\<close>

theorem durable_allocation_bounded:
  assumes "reach durable_init durable_step db" and "map_of (bt_limits db) (p, c) = Some limit"
  shows "sum_list (child_limits db p c None) \<le> limit"
  using durable.reachable_inv [OF assms(1)] assms(2) unfolding hb_inv_def allocation_ok_def kids_limit_def by blast

theorem durable_allocation_bounded_witness:
  "sum_list (child_limits reserved_db tenant_id ''tokens'' None) \<le> 10"
  using durable_allocation_bounded [OF reserved_db_reachable, of tenant_id "''tokens''" 10]
  by (simp add: reserved_db_eq tenant_db_eq)

text \<open>
  A durable reservation is single-use: once it was reconciled or cancelled in a reachable
  state, then after any further operations every reconciliation of it with valid amounts and every
  cancellation is refused and changes nothing.
\<close>

theorem durable_single_use:
  assumes "reach durable_init durable_step db" and "finish_reservation db sc rid actual = (Inr (), db1)"
    and "\<And>a. actual = Some a \<Longrightarrow> dict_ok a" and "durable_step\<^sup>*\<^sup>* db1 db2"
    and "\<And>a. again = Some a \<Longrightarrow> \<exists>xs. budget_amounts a = Inr xs"
  shows "finish_reservation db2 sc rid again = (Inl inactive_reservation, db2)"
proof -
  have inv: "hb_inv db1" using finish_inv [OF assms(2) durable.reachable_inv [OF assms(1)] assms(3)] by blast
  obtain row status where row: "status \<noteq> ACTIVE" "rw_root row = sc_root sc" "rw_scope row = sc_id sc"
    "map_of (bt_reservations db1) = (map_of (bt_reservations db))(rid \<mapsto> row\<lparr>rw_status := status\<rparr>)"
    by (rule finish_rows [OF assms(2)])
  then have "map_of (bt_reservations db1) rid = Some (row\<lparr>rw_status := status\<rparr>)" by simp
  then have "map_of (bt_reservations db2) rid = Some (row\<lparr>rw_status := status\<rparr>)"
    using durable.run_progress [OF inv assms(4)] row(1) by (simp add: finished_stay_def del: map_of_eq_Some_iff)
  with row assms(5) show ?thesis
    by (cases again) (auto simp: finish_reservation_def find_reservation_def transaction_def simp del: map_of_eq_Some_iff)
qed

theorem durable_single_use_witness:
  "finish_reservation (snd (finish_reservation reserved_db tenant_scope ''r1'' (Some [(''tokens'', PyInt 5)])))
     tenant_scope ''r1'' None =
   (Inl inactive_reservation,
    snd (finish_reservation reserved_db tenant_scope ''r1'' (Some [(''tokens'', PyInt 5)])))"
  unfolding reconcile_eq snd_conv
  by (rule durable_single_use [OF reserved_db_reachable reconcile_eq]) simp_all

end
