(* ===== verification/Supply_Chain.thy ===== *)
theory Supply_Chain
  imports References Projections
begin

text \<open>
  \<open>supply_chain.py\<close>: artifact provenance. HMAC evidence is computed with the SHA-256 model; the
  verification of Ed25519 signatures (the \<open>cryptography\<close> package) is a parameter, \<open>None\<close> when the
  package cannot be imported. Artifacts and keys are bytes, times are integers.
\<close>

section \<open>Data\<close>

definition supply_chain_error :: "string \<Rightarrow> exn" where
  "supply_chain_error code = HubError code POLICY False []"

datatype trust_environment = Development | Production

record hmac_key =
  hk_id :: string
  hk_publisher :: string
  hk_registry :: string
  hk_secret :: "nat list"
  hk_algorithm :: string
  hk_not_before :: int
  hk_expires :: "int option"
  hk_revoked :: bool

record ed_key =
  ek_id :: string
  ek_publisher :: string
  ek_registry :: string
  ek_public :: "nat list"
  ek_issuer :: "string option"
  ek_subject :: "string option"
  ek_not_before :: int
  ek_expires :: "int option"
  ek_revoked :: bool

record trust_policy =
  tp_environment :: trust_environment
  tp_publishers :: "string set"
  tp_registries :: "string set"
  tp_keys :: "(string \<times> hmac_key) list"
  tp_ed_keys :: "(string \<times> ed_key) list"
  tp_revoked_keys :: "string set"
  tp_revoked_publishers :: "string set"
  tp_allow_unsigned :: bool
  tp_issuers :: "string set"
  tp_subjects :: "string set"
  tp_require_transparency :: bool

record attestation =
  at_revision :: string
  at_digest :: string
  at_publisher :: string
  at_registry :: string
  at_key_id :: string
  at_algorithm :: string
  at_issued :: int
  at_expires :: int
  at_signature :: string
  at_issuer :: "string option"
  at_subject :: "string option"
  at_log_id :: "string option"
  at_entry_digest :: "string option"

record artifact_material =
  am_artifact :: "nat list"
  am_publisher :: string
  am_registry :: string
  am_attestation :: "attestation option"
  am_bundled :: bool

record trust_evidence =
  te_revision :: string
  te_digest :: string
  te_publisher :: string
  te_registry :: string
  te_environment :: trust_environment
  te_signed :: bool
  te_algorithm :: "string option"
  te_key_id :: "string option"
  te_expires :: "int option"

definition hmac_algorithm :: string where
  "hmac_algorithm = ''hmac-sha256''"

definition ed_algorithm :: string where
  "ed_algorithm = ''ed25519''"

definition expiry_after :: "int option \<Rightarrow> int \<Rightarrow> bool" where
  "expiry_after expires t = (case expires of None \<Rightarrow> True | Some e \<Rightarrow> t < e)"

definition make_hmac_key :: "hmac_key \<Rightarrow> hmac_key result" where
  "make_hmac_key k =
     (if hk_id k = [] \<or> hk_publisher k = [] \<or> hk_registry k = [] \<or> hk_secret k = []
         \<or> hk_algorithm k \<noteq> hmac_algorithm \<or> \<not> expiry_after (hk_expires k) (hk_not_before k)
      then Inl ValueError else Inr k)"

definition make_ed_key :: "ed_key \<Rightarrow> ed_key result" where
  "make_ed_key k =
     (if ek_id k = [] \<or> ek_publisher k = [] \<or> ek_registry k = [] \<or> length (ek_public k) \<noteq> 32
         \<or> (ek_issuer k = None) \<noteq> (ek_subject k = None) \<or> \<not> expiry_after (ek_expires k) (ek_not_before k)
      then Inl ValueError else Inr k)"

definition make_trust_policy :: "trust_policy \<Rightarrow> trust_policy result" where
  "make_trust_policy p =
     (if tp_publishers p = {} \<or> tp_registries p = {}
         \<or> (\<exists>(i, k) \<in> set (tp_keys p). i \<noteq> hk_id k) \<or> (\<exists>(i, k) \<in> set (tp_ed_keys p). i \<noteq> ek_id k)
         \<or> fst ` set (tp_keys p) \<inter> fst ` set (tp_ed_keys p) \<noteq> {}
      then Inl ValueError else Inr p)"

definition make_material :: "artifact_material \<Rightarrow> artifact_material result" where
  "make_material m = (if am_publisher m = [] \<or> am_registry m = [] then Inl ValueError else Inr m)"

section \<open>Payload and signatures\<close>

fun opt_text :: "string option \<Rightarrow> pyval" where
  "opt_text None = PyNone"
| "opt_text (Some s) = PyStr s"

definition attestation_payload :: "attestation \<Rightarrow> nat list" where
  "attestation_payload a = utf8 (json_dumps True False (\<lambda>_. []) (PyDict [
     (''algorithm'', PyStr (at_algorithm a)), (''artifact_digest'', PyStr (at_digest a)),
     (''certificate_issuer'', opt_text (at_issuer a)), (''certificate_subject'', opt_text (at_subject a)),
     (''expires_at'', PyInt (at_expires a)), (''issued_at'', PyInt (at_issued a)), (''key_id'', PyStr (at_key_id a)),
     (''publisher'', PyStr (at_publisher a)), (''registry'', PyStr (at_registry a)),
     (''revision'', PyStr (at_revision a)), (''transparency_entry_digest'', opt_text (at_entry_digest a)),
     (''transparency_log_id'', opt_text (at_log_id a)), (''version'', PyInt 1)]))"

definition attestation_domain :: "nat list" where
  "attestation_domain = utf8 ''capabilityhub-local-artifact-attestation-v1'' @ [0]"

definition public_domain :: "nat list" where
  "public_domain = utf8 ''capabilityhub-public-artifact-attestation-v1'' @ [0]"

text \<open>\<open>bytes.fromhex\<close>: white space is allowed between bytes, not inside one.\<close>

fun from_hex :: "string \<Rightarrow> nat list option" where
  "from_hex [] = Some []"
| "from_hex (c # s) =
     (if code_point c = 32 \<or> (9 \<le> code_point c \<and> code_point c < 14) then from_hex s
      else case s of
        [] \<Rightarrow> None
      | d # r \<Rightarrow> (case (hex_nibble c, hex_nibble d) of
          (Some h, Some l) \<Rightarrow> map_option (Cons (16 * h + l)) (from_hex r) | _ \<Rightarrow> None))"

definition create_hmac_attestation ::
  "string \<Rightarrow> string \<Rightarrow> hmac_key \<Rightarrow> int \<Rightarrow> int \<Rightarrow> attestation result" where
  "create_hmac_attestation revision digest k issued expires =
     (if revision = [] \<or> digest = [] then Inl ValueError
      else if expires \<le> issued then Inl ValueError
      else (let unsigned = \<lparr>at_revision = revision, at_digest = digest, at_publisher = hk_publisher k,
              at_registry = hk_registry k, at_key_id = hk_id k, at_algorithm = hk_algorithm k, at_issued = issued,
              at_expires = expires, at_signature = [], at_issuer = None, at_subject = None, at_log_id = None,
              at_entry_digest = None\<rparr>
            in Inr (unsigned\<lparr>at_signature := hmac_hex (hk_secret k) (attestation_domain @ attestation_payload unsigned)\<rparr>)))"

text \<open>\<open>_unb64\<close> accepts exactly the canonical encodings.\<close>

definition canonical_b64 :: "string \<Rightarrow> nat list option" where
  "canonical_b64 s = (case b64_decode s of Inr bs \<Rightarrow> if b64_encode bs = s then Some bs else None | Inl _ \<Rightarrow> None)"

section \<open>Verification\<close>

definition check_source :: "trust_policy \<Rightarrow> string \<Rightarrow> string \<Rightarrow> unit result" where
  "check_source p publisher source =
     (if publisher = [] \<or> publisher \<notin> tp_publishers p then Inl (supply_chain_error ''publisher_not_trusted'')
      else if source = [] \<or> source \<notin> tp_registries p then Inl (supply_chain_error ''registry_not_trusted'')
      else if publisher \<in> tp_revoked_publishers p then Inl (supply_chain_error ''signing_authority_revoked'')
      else Inr ())"

definition check_bindings :: "attestation \<Rightarrow> string \<Rightarrow> string \<Rightarrow> string \<Rightarrow> string \<Rightarrow> unit result" where
  "check_bindings a revision digest publisher source =
     (if [] \<in> {at_revision a, at_digest a, at_publisher a, at_registry a, at_key_id a, at_algorithm a, at_signature a}
      then Inl (supply_chain_error ''invalid_attestation'')
      else if at_revision a \<noteq> revision then Inl (supply_chain_error ''attestation_binding_mismatch'')
      else rbind (compare_text (at_digest a) digest) (\<lambda>same.
        if \<not> same \<or> at_publisher a \<noteq> publisher \<or> at_registry a \<noteq> source
        then Inl (supply_chain_error ''attestation_binding_mismatch'')
        else if at_expires a \<le> at_issued a then Inl (supply_chain_error ''invalid_attestation'') else Inr ()))"

text \<open>The checks both signature schemes make of the key and the attestation's times.\<close>

definition check_authority ::
  "trust_policy \<Rightarrow> string \<Rightarrow> string \<Rightarrow> string \<Rightarrow> string \<Rightarrow> string \<Rightarrow> bool \<Rightarrow> int \<Rightarrow> int option \<Rightarrow> attestation \<Rightarrow> int \<Rightarrow> unit result" where
  "check_authority p publisher source key_publisher key_registry key_id revoked not_before expires a now =
     (if key_publisher \<noteq> publisher \<or> key_registry \<noteq> source
      then Inl (supply_chain_error ''signing_key_scope_mismatch'')
      else if revoked \<or> key_id \<in> tp_revoked_keys p \<or> publisher \<in> tp_revoked_publishers p
      then Inl (supply_chain_error ''signing_authority_revoked'')
      else if at_expires a \<le> now then Inl (supply_chain_error ''attestation_expired'')
      else if now + 60 < at_issued a then Inl (supply_chain_error ''attestation_not_yet_valid'')
      else if at_issued a < not_before \<or> \<not> expiry_after expires (at_issued a) \<or> \<not> expiry_after expires now
      then Inl (supply_chain_error ''signing_key_expired'')
      else Inr ())"

definition check_certificate :: "trust_policy \<Rightarrow> ed_key \<Rightarrow> attestation \<Rightarrow> unit result" where
  "check_certificate p k a =
     (if (at_issuer a = None) \<noteq> (at_subject a = None) then Inl (supply_chain_error ''invalid_certificate_identity'')
      else case ek_issuer k of
        None \<Rightarrow> if at_issuer a \<noteq> None \<or> at_subject a \<noteq> None
          then Inl (supply_chain_error ''certificate_identity_mismatch'') else Inr ()
      | Some issuer \<Rightarrow>
          if at_issuer a \<noteq> Some issuer \<or> at_subject a \<noteq> ek_subject k
          then Inl (supply_chain_error ''certificate_identity_mismatch'')
          else if issuer \<notin> tp_issuers p \<or> (\<forall>s. ek_subject k = Some s \<longrightarrow> s \<notin> tp_subjects p)
          then Inl (supply_chain_error ''certificate_identity_not_trusted'') else Inr ())"

definition check_transparency :: "trust_policy \<Rightarrow> attestation \<Rightarrow> unit result" where
  "check_transparency p a =
     (if tp_require_transparency p \<and> (at_log_id a = None \<or> at_entry_digest a = None)
      then Inl (supply_chain_error ''transparency_evidence_required'')
      else case (at_log_id a, at_entry_digest a) of
        (None, None) \<Rightarrow> Inr ()
      | (Some entry, Some digest) \<Rightarrow>
          if entry = [] \<or> length digest \<noteq> 64 \<or> \<not> set digest \<subseteq> set hex_char_set
          then Inl (supply_chain_error ''invalid_transparency_evidence'') else Inr ()
      | _ \<Rightarrow> Inl (supply_chain_error ''invalid_transparency_evidence''))"

type_synonym ed_verifier = "nat list \<Rightarrow> nat list \<Rightarrow> nat list \<Rightarrow> bool"

definition verify_ed25519 ::
  "trust_policy \<Rightarrow> ed_verifier option \<Rightarrow> string \<Rightarrow> string \<Rightarrow> attestation \<Rightarrow> int \<Rightarrow> unit result" where
  "verify_ed25519 p ed publisher source a now =
     (case map_of (tp_ed_keys p) (at_key_id a) of
        None \<Rightarrow> Inl (supply_chain_error ''unknown_signing_key'')
      | Some k \<Rightarrow>
          rbind (check_authority p publisher source (ek_publisher k) (ek_registry k) (ek_id k) (ek_revoked k)
            (ek_not_before k) (ek_expires k) a now) (\<lambda>_.
          rbind (check_certificate p k a) (\<lambda>_.
          rbind (check_transparency p a) (\<lambda>_.
            case ed of
              None \<Rightarrow> Inl (supply_chain_error ''public_key_verifier_unavailable'')
            | Some valid \<Rightarrow>
                (case canonical_b64 (at_signature a) of
                   None \<Rightarrow> Inl (supply_chain_error ''invalid_artifact_signature'')
                 | Some sig \<Rightarrow>
                     if valid (ek_public k) sig (public_domain @ attestation_payload a) then Inr ()
                     else Inl (supply_chain_error ''invalid_artifact_signature''))))))"

definition verify_hmac :: "trust_policy \<Rightarrow> string \<Rightarrow> string \<Rightarrow> attestation \<Rightarrow> int \<Rightarrow> unit result" where
  "verify_hmac p publisher source a now =
     (case map_of (tp_keys p) (at_key_id a) of
        None \<Rightarrow> Inl (supply_chain_error ''unknown_signing_key'')
      | Some k \<Rightarrow>
          if hk_algorithm k \<noteq> at_algorithm a then Inl (supply_chain_error ''signature_algorithm_mismatch'')
          else rbind (check_authority p publisher source (hk_publisher k) (hk_registry k) (hk_id k) (hk_revoked k)
            (hk_not_before k) (hk_expires k) a now) (\<lambda>_.
            case from_hex (at_signature a) of
              None \<Rightarrow> Inl (supply_chain_error ''invalid_artifact_signature'')
            | Some sig \<Rightarrow>
                if sig = hmac_bytes (hk_secret k) (attestation_domain @ attestation_payload a) then Inr ()
                else Inl (supply_chain_error ''invalid_artifact_signature'')))"

definition artifact_digest :: "nat list \<Rightarrow> string" where
  "artifact_digest artifact = ''sha256:'' @ sha256_hex_bytes artifact"

definition trust_verify ::
  "trust_policy \<Rightarrow> ed_verifier option \<Rightarrow> int \<Rightarrow> capability_manifest \<Rightarrow> artifact_material \<Rightarrow> trust_evidence result" where
  "trust_verify p ed now m material =
     (let publisher = am_publisher material; source = am_registry material; digest = artifact_digest (am_artifact material)
      in if am_bundled material then Inl (supply_chain_error ''unsupported_transparency_bundle'')
         else rbind (compare_text digest (ci_digest (cm_identity m))) (\<lambda>same.
           if \<not> same then Inl (supply_chain_error ''artifact_digest_mismatch'')
           else rbind (check_source p publisher source) (\<lambda>_.
             case am_attestation material of
               None \<Rightarrow>
                 if tp_environment p = Production \<or> \<not> tp_allow_unsigned p
                 then Inl (supply_chain_error ''artifact_signature_required'')
                 else Inr \<lparr>te_revision = manifest_revision m, te_digest = digest, te_publisher = publisher,
                   te_registry = source, te_environment = tp_environment p, te_signed = False, te_algorithm = None,
                   te_key_id = None, te_expires = None\<rparr>
             | Some a \<Rightarrow>
                 rbind (check_bindings a (manifest_revision m) digest publisher source) (\<lambda>_.
                 rbind (if at_algorithm a = ed_algorithm then verify_ed25519 p ed publisher source a now
                        else if at_algorithm a \<noteq> hmac_algorithm
                        then Inl (supply_chain_error ''unsupported_signature_algorithm'')
                        else verify_hmac p publisher source a now) (\<lambda>_.
                   Inr \<lparr>te_revision = manifest_revision m, te_digest = digest, te_publisher = publisher,
                     te_registry = source, te_environment = tp_environment p, te_signed = True,
                     te_algorithm = Some (at_algorithm a), te_key_id = Some (at_key_id a),
                     te_expires = Some (at_expires a)\<rparr>)))))"

lemma nibble_code: "n < 16 \<Longrightarrow> code_point (hex_digit n) \<ge> 48"
  by (auto simp: hex_digit_def)

lemma from_hex_pair: "h < 16 \<Longrightarrow> l < 16 \<Longrightarrow>
    from_hex (hex_digit h # hex_digit l # s) = map_option (Cons (16 * h + l)) (from_hex s)"
  using nibble_code [of h] by simp

lemma from_hex_bytes: "list_all (\<lambda>b. b < 256) bs \<Longrightarrow>
    from_hex (concat (map (\<lambda>b. [hex_digit (b div 16), hex_digit (b mod 16)]) bs)) = Some bs"
proof (induction bs)
  case (Cons b bs)
  moreover from Cons.prems have "b div 16 < 16" by (simp add: less_mult_imp_div_less)
  ultimately show ?case by (simp add: from_hex_pair del: from_hex.simps)
qed simp

lemma byte_nibbles: "n mod 256 div 16 = n div 16 mod (16 :: nat)" "n mod 256 mod 16 = n mod (16 :: nat)"
proof -
  have n: "n mod 256 = 16 * (n div 16 mod 16) + n mod 16" using mod_mult2_eq [of n 16 16] by simp
  show "n mod 256 div 16 = n div 16 mod 16" unfolding n by simp
  show "n mod 256 mod 16 = n mod 16" unfolding n by simp
qed

lemma word_hex_bytes: "word_hex w = concat (map (\<lambda>b. [hex_digit (b div 16), hex_digit (b mod 16)]) (word_bytes w))"
  by (simp add: word_hex_def word_bytes_def byte_nibbles div_mult2_eq [symmetric])

lemma from_hex_hmac: "from_hex (hmac_hex k m) = Some (hmac_bytes k m)"
proof -
  have "concat (map word_hex ws) =
      concat (map (\<lambda>b. [hex_digit (b div 16), hex_digit (b mod 16)]) (concat (map word_bytes ws)))" for ws
    by (induction ws) (simp_all add: word_hex_bytes)
  then show ?thesis by (simp add: hmac_hex_def hmac_bytes_def from_hex_bytes words_bytes)
qed

lemma authority_valid:
  assumes "check_authority p publisher source key_publisher key_registry key_id revoked not_before expires a now = Inr ()"
  shows "key_publisher = publisher \<and> key_registry = source \<and> \<not> revoked \<and> key_id \<notin> tp_revoked_keys p \<and>
    now < at_expires a \<and> at_issued a \<le> now + 60 \<and> not_before \<le> at_issued a \<and>
    expiry_after expires (at_issued a) \<and> expiry_after expires now"
  using assms by (auto simp: check_authority_def split: if_splits)

text \<open>
  C7. Accepted artifacts are trusted: when verification returns evidence, the manifest's digest is
  the SHA-256 of the artifact, the publisher and the registry are trusted and the publisher is not
  revoked; unsigned artifacts pass only in a development environment that allows them, and signed
  ones name this revision and digest, are issued at most a minute ahead and not expired, and carry,
  under a key of the policy that is not revoked, belongs to that publisher and registry and was valid
  both when the attestation was issued and now, an HMAC tag of the attestation or, with the
  certificate and transparency requirements of the policy met, a signature the Ed25519 verifier
  accepts.
\<close>

theorem trust_sound:
  assumes "trust_verify p ed now m material = Inr e"
  shows "ci_digest (cm_identity m) = artifact_digest (am_artifact material) \<and>
    am_publisher material \<in> tp_publishers p - tp_revoked_publishers p \<and> am_registry material \<in> tp_registries p \<and>
    te_revision e = manifest_revision m \<and>
    (case am_attestation material of
       None \<Rightarrow> tp_environment p = Development \<and> tp_allow_unsigned p \<and> \<not> te_signed e
     | Some a \<Rightarrow> te_signed e \<and> at_revision a = manifest_revision m \<and> at_digest a = ci_digest (cm_identity m) \<and>
         at_publisher a = am_publisher material \<and> at_registry a = am_registry material \<and>
         now < at_expires a \<and> at_issued a \<le> now + 60 \<and>
         ((\<exists>k. map_of (tp_keys p) (at_key_id a) = Some k \<and> hk_algorithm k = at_algorithm a \<and>
             hk_id k \<notin> tp_revoked_keys p \<and> \<not> hk_revoked k \<and>
             hk_publisher k = am_publisher material \<and> hk_registry k = am_registry material \<and>
             hk_not_before k \<le> at_issued a \<and> expiry_after (hk_expires k) (at_issued a) \<and> expiry_after (hk_expires k) now \<and>
             from_hex (at_signature a) = Some (hmac_bytes (hk_secret k) (attestation_domain @ attestation_payload a))) \<or>
          (\<exists>k valid sig. map_of (tp_ed_keys p) (at_key_id a) = Some k \<and> ek_id k \<notin> tp_revoked_keys p \<and> \<not> ek_revoked k \<and>
             ek_publisher k = am_publisher material \<and> ek_registry k = am_registry material \<and>
             ek_not_before k \<le> at_issued a \<and> expiry_after (ek_expires k) (at_issued a) \<and> expiry_after (ek_expires k) now \<and>
             check_certificate p k a = Inr () \<and> check_transparency p a = Inr () \<and>
             ed = Some valid \<and> b64_encode sig = at_signature a \<and>
             valid (ek_public k) sig (public_domain @ attestation_payload a))))"
proof (cases "am_attestation material")
  case None
  with assms show ?thesis
    by (auto simp: trust_verify_def rbind_eq_Inr check_source_def compare_text_def Let_def split: if_splits)
      (cases "tp_environment p"; simp)
next
  case (Some a)
  have source: "ci_digest (cm_identity m) = artifact_digest (am_artifact material)"
    "am_publisher material \<in> tp_publishers p - tp_revoked_publishers p" "am_registry material \<in> tp_registries p"
    "te_revision e = manifest_revision m" "te_signed e"
    using assms Some by (auto simp: trust_verify_def rbind_eq_Inr check_source_def compare_text_def Let_def split: if_splits)
  have bound: "at_revision a = manifest_revision m" "at_digest a = artifact_digest (am_artifact material)"
    "at_publisher a = am_publisher material" "at_registry a = am_registry material"
    using assms Some by (auto simp: trust_verify_def rbind_eq_Inr check_bindings_def compare_text_def Let_def split: if_splits)
  have "verify_ed25519 p ed (am_publisher material) (am_registry material) a now = Inr () \<or>
      verify_hmac p (am_publisher material) (am_registry material) a now = Inr ()"
    using assms Some by (auto simp: trust_verify_def rbind_eq_Inr Let_def split: if_splits)
  then show ?thesis
  proof
    assume "verify_ed25519 p ed (am_publisher material) (am_registry material) a now = Inr ()"
    then obtain k valid sig where k: "map_of (tp_ed_keys p) (at_key_id a) = Some k"
        "check_authority p (am_publisher material) (am_registry material) (ek_publisher k) (ek_registry k) (ek_id k) (ek_revoked k)
           (ek_not_before k) (ek_expires k) a now = Inr ()"
      and sig: "check_certificate p k a = Inr ()" "check_transparency p a = Inr ()" "ed = Some valid" "b64_encode sig = at_signature a"
        "valid (ek_public k) sig (public_domain @ attestation_payload a)"
      by (auto simp: verify_ed25519_def rbind_eq_Inr canonical_b64_def simp del: map_of_eq_Some_iff
          split: option.splits if_splits sum.splits)
    from authority_valid [OF k(2)] k(1) sig Some source bound show ?thesis by (simp del: map_of_eq_Some_iff) blast
  next
    assume "verify_hmac p (am_publisher material) (am_registry material) a now = Inr ()"
    then obtain k where k: "map_of (tp_keys p) (at_key_id a) = Some k" "hk_algorithm k = at_algorithm a"
        "check_authority p (am_publisher material) (am_registry material) (hk_publisher k) (hk_registry k) (hk_id k) (hk_revoked k)
           (hk_not_before k) (hk_expires k) a now = Inr ()"
        "from_hex (at_signature a) = Some (hmac_bytes (hk_secret k) (attestation_domain @ attestation_payload a))"
      by (auto simp: verify_hmac_def rbind_eq_Inr simp del: map_of_eq_Some_iff split: option.splits if_splits)
    from authority_valid [OF k(3)] k(1,2,4) Some source bound show ?thesis by (simp del: map_of_eq_Some_iff)
  qed
qed

lemma digest_plain: "is_ascii (artifact_digest bs)" "artifact_digest bs \<noteq> []"
proof -
  have "is_ascii (word_hex w)" for w by (simp add: word_hex_def ascii_hex_digit)
  then show "is_ascii (artifact_digest bs)"
    unfolding artifact_digest_def sha256_hex_bytes_def is_ascii_append by (intro conjI is_ascii_concat) auto
qed (simp add: artifact_digest_def)

lemma local_attestation_accepts:
  assumes "create_hmac_attestation (manifest_revision m) (artifact_digest artifact) k issued expires = Inr a"
    and "make_hmac_key k = Inr k" "map_of (tp_keys p) (hk_id k) = Some k"
    and "ci_digest (cm_identity m) = artifact_digest artifact"
  shows "(\<exists>e. trust_verify p ed now m \<lparr>am_artifact = artifact, am_publisher = hk_publisher k, am_registry = hk_registry k,
      am_attestation = Some a, am_bundled = False\<rparr> = Inr e) \<longleftrightarrow>
    hk_publisher k \<in> tp_publishers p - tp_revoked_publishers p \<and> hk_registry k \<in> tp_registries p \<and>
    \<not> hk_revoked k \<and> hk_id k \<notin> tp_revoked_keys p \<and> now < expires \<and> issued \<le> now + 60 \<and>
    hk_not_before k \<le> issued \<and> expiry_after (hk_expires k) issued \<and> expiry_after (hk_expires k) now"
proof -
  let ?u = "\<lparr>at_revision = manifest_revision m, at_digest = artifact_digest artifact, at_publisher = hk_publisher k,
     at_registry = hk_registry k, at_key_id = hk_id k, at_algorithm = hk_algorithm k, at_issued = issued,
     at_expires = expires, at_signature = [], at_issuer = None, at_subject = None, at_log_id = None, at_entry_digest = None\<rparr>"
  have a: "a = ?u\<lparr>at_signature := hmac_hex (hk_secret k) (attestation_domain @ attestation_payload ?u)\<rparr>"
    "manifest_revision m \<noteq> []" "issued < expires"
    using assms(1) by (auto simp: create_hmac_attestation_def Let_def split: if_splits)
  have payload: "attestation_payload a = attestation_payload ?u" by (simp add: a attestation_payload_def)
  have k: "hk_algorithm k = hmac_algorithm" "hk_id k \<noteq> []" "hk_publisher k \<noteq> []" "hk_registry k \<noteq> []"
    using assms(2) by (auto simp: make_hmac_key_def split: if_splits)
  have sig: "from_hex (at_signature a) = Some (hmac_bytes (hk_secret k) (attestation_domain @ attestation_payload a))"
    unfolding payload by (simp add: a from_hex_hmac)
  have "[] \<noteq> hmac_hex x y" for x y using length_hmac_hex [of x y] by auto
  then have bound: "check_bindings a (manifest_revision m) (artifact_digest artifact) (hk_publisher k) (hk_registry k) = Inr ()"
    using a k digest_plain [of artifact] by (simp add: check_bindings_def compare_text_def hmac_algorithm_def)
  have fields: "at_algorithm a = hmac_algorithm" "at_key_id a = hk_id k" "at_issued a = issued" "at_expires a = expires"
    using k by (simp_all add: a)
  have alg: "hmac_algorithm \<noteq> ed_algorithm" by (simp add: hmac_algorithm_def ed_algorithm_def)
  have "verify_hmac p (hk_publisher k) (hk_registry k) a now = Inr () \<longleftrightarrow>
      check_authority p (hk_publisher k) (hk_registry k) (hk_publisher k) (hk_registry k) (hk_id k) (hk_revoked k)
        (hk_not_before k) (hk_expires k) a now = Inr ()"
    using sig k fields assms(3) by (simp add: verify_hmac_def rbind_eq_Inr del: map_of_eq_Some_iff)
  also have "\<dots> \<longleftrightarrow> \<not> hk_revoked k \<and> hk_id k \<notin> tp_revoked_keys p \<and> hk_publisher k \<notin> tp_revoked_publishers p \<and>
      now < expires \<and> issued \<le> now + 60 \<and> hk_not_before k \<le> issued \<and> expiry_after (hk_expires k) issued \<and>
      expiry_after (hk_expires k) now"
    using fields by (auto simp: check_authority_def)
  finally have v: "verify_hmac p (hk_publisher k) (hk_registry k) a now = Inr () \<longleftrightarrow> \<dots>" .
  have "check_source p (hk_publisher k) (hk_registry k) = Inr () \<longleftrightarrow>
      hk_publisher k \<in> tp_publishers p - tp_revoked_publishers p \<and> hk_registry k \<in> tp_registries p"
    using k by (auto simp: check_source_def)
  then show ?thesis
    using bound v fields alg digest_plain [of artifact] assms(4)
    by (auto simp: trust_verify_def rbind_eq_Inr compare_text_def Let_def)
qed

text \<open>
  C37. Local evidence is accepted exactly in its window: an attestation created with a key of the
  policy for an artifact's digest and a manifest's revision makes verification succeed if and only
  if publisher and registry are trusted, neither the publisher nor the key is revoked, the
  attestation has not expired and is not more than a minute ahead, and the key was valid when it was
  issued and still is.
\<close>

theorem local_attestation_accepted_iff:
  assumes "create_hmac_attestation (manifest_revision m) (artifact_digest artifact) k issued expires = Inr a"
    and "make_hmac_key k = Inr k" "map_of (tp_keys p) (hk_id k) = Some k"
    and "ci_digest (cm_identity m) = artifact_digest artifact"
  shows "(\<exists>e. trust_verify p ed now m \<lparr>am_artifact = artifact, am_publisher = hk_publisher k, am_registry = hk_registry k,
      am_attestation = Some a, am_bundled = False\<rparr> = Inr e) \<longleftrightarrow>
    hk_publisher k \<in> tp_publishers p - tp_revoked_publishers p \<and> hk_registry k \<in> tp_registries p \<and>
    \<not> hk_revoked k \<and> hk_id k \<notin> tp_revoked_keys p \<and> now < expires \<and> issued \<le> now + 60 \<and>
    hk_not_before k \<le> issued \<and> expiry_after (hk_expires k) issued \<and> expiry_after (hk_expires k) now"
  using assms by (rule local_attestation_accepts)

definition example_key :: hmac_key where
  "example_key = \<lparr>hk_id = ''k1'', hk_publisher = ''acme'', hk_registry = ''main'', hk_secret = [7], hk_algorithm = hmac_algorithm,
     hk_not_before = 0, hk_expires = None, hk_revoked = False\<rparr>"

definition example_policy :: trust_policy where
  "example_policy = \<lparr>tp_environment = Production, tp_publishers = {''acme''}, tp_registries = {''main''},
     tp_keys = [(''k1'', example_key)], tp_ed_keys = [], tp_revoked_keys = {}, tp_revoked_publishers = {},
     tp_allow_unsigned = False, tp_issuers = {}, tp_subjects = {}, tp_require_transparency = False\<rparr>"

definition example_artifact :: capability_manifest where
  "example_artifact = \<lparr>cm_identity = \<lparr>ci_namespace = ''x'', ci_name = ''tool'', ci_version = ''1'', ci_digest = artifact_digest [1]\<rparr>,
     cm_kind = API, cm_summary = [], cm_provider = ''p'', cm_operations = [], cm_sections = [],
     cm_permissions = [], cm_dependencies = [], cm_conflicts = [], cm_tags = [],
     cm_trust_tier = [], cm_source = [], cm_metadata = []\<rparr>"

lemma example_attested:
  obtains a where "create_hmac_attestation (manifest_revision example_artifact) (artifact_digest [1]) example_key 100 200 = Inr a"
proof -
  have "manifest_revision example_artifact \<noteq> []" by (simp add: revision_of_def example_artifact_def coordinate_of_def)
  with that digest_plain(2) [of "[1]"] show ?thesis by (auto simp: create_hmac_attestation_def Let_def)
qed

theorem local_attestation_accepted_iff_witness:
  "\<exists>a e. create_hmac_attestation (manifest_revision example_artifact) (artifact_digest [1]) example_key 100 200 = Inr a \<and>
    trust_verify example_policy None 150 example_artifact \<lparr>am_artifact = [1], am_publisher = ''acme'', am_registry = ''main'',
      am_attestation = Some a, am_bundled = False\<rparr> = Inr e"
proof -
  obtain a where a: "create_hmac_attestation (manifest_revision example_artifact) (artifact_digest [1]) example_key 100 200 = Inr a"
    by (rule example_attested)
  have "make_hmac_key example_key = Inr example_key" "map_of (tp_keys example_policy) (hk_id example_key) = Some example_key"
    "ci_digest (cm_identity example_artifact) = artifact_digest [1]"
    by (simp_all add: make_hmac_key_def example_key_def example_policy_def hmac_algorithm_def expiry_after_def example_artifact_def)
  from local_attestation_accepted_iff [OF a this, of None 150] a show ?thesis
    by (auto simp: example_policy_def example_key_def expiry_after_def)
qed

theorem trust_sound_witness:
  "\<exists>a e k. trust_verify example_policy None 150 example_artifact \<lparr>am_artifact = [1], am_publisher = ''acme'', am_registry = ''main'',
      am_attestation = Some a, am_bundled = False\<rparr> = Inr e \<and> te_signed e \<and>
    map_of (tp_keys example_policy) (at_key_id a) = Some k \<and> hk_not_before k \<le> at_issued a \<and> expiry_after (hk_expires k) 150"
proof -
  obtain a where a: "create_hmac_attestation (manifest_revision example_artifact) (artifact_digest [1]) example_key 100 200 = Inr a"
    by (rule example_attested)
  let ?m = "\<lparr>am_artifact = [1], am_publisher = ''acme'', am_registry = ''main'', am_attestation = Some a, am_bundled = False\<rparr>"
  have "make_hmac_key example_key = Inr example_key" "map_of (tp_keys example_policy) (hk_id example_key) = Some example_key"
    "ci_digest (cm_identity example_artifact) = artifact_digest [1]"
    by (simp_all add: make_hmac_key_def example_key_def example_policy_def hmac_algorithm_def expiry_after_def example_artifact_def)
  from local_attestation_accepts [OF a this, of None 150] obtain e where e: "trust_verify example_policy None 150 example_artifact ?m = Inr e"
    by (auto simp: example_policy_def example_key_def expiry_after_def)
  have "tp_ed_keys example_policy = []" by (simp add: example_policy_def)
  with trust_sound [OF e] have "te_signed e \<and> (\<exists>k. map_of (tp_keys example_policy) (at_key_id a) = Some k \<and>
      hk_not_before k \<le> at_issued a \<and> expiry_after (hk_expires k) 150)" by (simp del: map_of_eq_Some_iff) blast
  with e show ?thesis by blast
qed

end
