(* ===== verification/Lifecycle.thy ===== *)
theory Lifecycle
  imports Supply_Chain Registry Update_Store
begin

text \<open>
  \<open>lifecycle.py\<close>: \<open>StagedUpdateManager\<close>, which puts artifact trust and registry validation around
  the staged revision store. The verifier is \<open>trust_verify\<close> of the theory \<open>Supply_Chain\<close> at some policy
  and time, or the Sigstore bundle verifier; the acquirer of artifact bytes is a callback.
\<close>

datatype acquisition =
    Acquired artifact_material
  | Acquire_Refused string \<comment> \<open>a \<open>SupplyChainError\<close> with its code\<close>
  | Acquire_Failed \<comment> \<open>any other exception\<close>

type_synonym artifact_verifier = "capability_manifest \<Rightarrow> artifact_material \<Rightarrow> trust_evidence result"

record update_manager =
  um_drivers :: driver_claims
  um_registry :: registry
  um_verifier :: "artifact_verifier option"
  um_acquirer :: "(string \<Rightarrow> acquisition) option"

definition verify_artifact :: "update_manager \<Rightarrow> string \<Rightarrow> trust_evidence result" where
  "verify_artifact mg revision =
     (case (um_verifier mg, um_acquirer mg) of
        (Some check, Some acquire) \<Rightarrow>
          rbind (find_revision (um_registry mg) revision) (\<lambda>m.
            case acquire revision of
              Acquired material \<Rightarrow> check m material
            | Acquire_Refused code \<Rightarrow> Inl (supply_chain_error code)
            | Acquire_Failed \<Rightarrow> Inl (supply_chain_error ''artifact_acquisition_failed''))
      | _ \<Rightarrow> Inl (supply_chain_error ''artifact_trust_not_configured''))"

text \<open>\<open>dict(activations)\<close> updated with the pointers.\<close>

definition combine_pointers :: "(string \<times> string) list \<Rightarrow> (string \<times> string) list \<Rightarrow> (string \<times> string) list" where
  "combine_pointers active ps = foldl (\<lambda>d (c, r). AList.update c r d) active ps"

fun check_coordinates :: "registry \<Rightarrow> (string \<times> string) list \<Rightarrow> unit result" where
  "check_coordinates rg [] = Inr ()"
| "check_coordinates rg ((c, r) # ps) =
     rbind (find_revision rg r) (\<lambda>m.
       if manifest_coordinate m \<noteq> c then Inl ValueError else check_coordinates rg ps)"

definition manager_validate :: "update_manager \<Rightarrow> (string \<times> string) list \<Rightarrow> unit result" where
  "manager_validate mg ps =
     (let combined = combine_pointers (rg_active (um_registry mg)) ps
      in rbind (check_coordinates (um_registry mg) combined) (\<lambda>_.
         validate_staged (um_drivers mg) (um_registry mg) (Some (map snd combined))))"

text \<open>What \<open>stage\<close>, \<open>record_health\<close> and \<open>activate\<close> do first.\<close>

definition trusted_manifest :: "update_manager \<Rightarrow> string \<Rightarrow> capability_manifest result" where
  "trusted_manifest mg revision =
     rbind (find_revision (um_registry mg) revision) (\<lambda>m. rbind (verify_artifact mg revision) (\<lambda>_. Inr m))"

definition manager_stage ::
  "update_manager \<Rightarrow> update_store \<Rightarrow> string \<Rightarrow> string option \<Rightarrow> update_state result \<times> update_store" where
  "manager_stage mg st revision expected =
     (case trusted_manifest mg revision of
        Inl e \<Rightarrow> (Inl e, st) | Inr m \<Rightarrow> stage_revision st (manifest_coordinate m) revision expected)"

definition manager_bootstrap ::
  "update_manager \<Rightarrow> update_store \<Rightarrow> string \<Rightarrow> string \<Rightarrow> update_state result \<times> update_store" where
  "manager_bootstrap mg st coordinate revision =
     (case find_revision (um_registry mg) revision of
        Inl e \<Rightarrow> (Inl e, st)
      | Inr m \<Rightarrow> if manifest_coordinate m \<noteq> coordinate then (Inl ValueError, st)
          else bootstrap_active st coordinate revision)"

definition manager_health ::
  "update_manager \<Rightarrow> update_store \<Rightarrow> string \<Rightarrow> bool \<Rightarrow> update_state result \<times> update_store" where
  "manager_health mg st revision passed =
     (case trusted_manifest mg revision of
        Inl e \<Rightarrow> (Inl e, st) | Inr m \<Rightarrow> record_health st (manifest_coordinate m) revision passed)"

definition manager_activate ::
  "update_manager \<Rightarrow> update_store \<Rightarrow> string \<Rightarrow> string option \<Rightarrow> update_state result \<times> update_store" where
  "manager_activate mg st revision expected =
     (case trusted_manifest mg revision of
        Inl e \<Rightarrow> (Inl e, st)
      | Inr m \<Rightarrow> activate_revision st (manifest_coordinate m) revision expected (manager_validate mg))"

definition manager_rollback ::
  "update_manager \<Rightarrow> update_store \<Rightarrow> string \<Rightarrow> string \<Rightarrow> update_state result \<times> update_store" where
  "manager_rollback mg st coordinate expected =
     rollback_revision st coordinate expected (manager_validate mg)"

section \<open>What validation of the combined pointers accepts\<close>

lemma dict_ok_combine: "dict_ok d \<Longrightarrow> dict_ok (combine_pointers d ps)"
  unfolding combine_pointers_def by (induction ps arbitrary: d) auto

lemma map_of_combine: "map_of (combine_pointers d ps) = map_of d ++ map_of (rev ps)"
  unfolding combine_pointers_def
  by (induction ps arbitrary: d) (auto simp: update_conv' simp del: fun_upd_apply)

lemma check_coordinates_iff:
  "check_coordinates rg ps = Inr () \<longleftrightarrow> (\<forall>(c, r) \<in> set ps. \<exists>m. find_revision rg r = Inr m \<and> manifest_coordinate m = c)"
  by (induction rg ps rule: check_coordinates.induct) (auto simp: rbind_eq_Inr)

lemma find_list_iff: "find_list rg rs = Inr ms \<longleftrightarrow> list_all2 (\<lambda>r m. find_revision rg r = Inr m) rs ms"
  by (induction rs arbitrary: ms) (auto simp: rbind_eq_Inr list_all2_Cons1)

lemma group_single:
  assumes "distinct (map manifest_coordinate ms)" "m \<in> set ms"
  shows "filter (\<lambda>x. manifest_coordinate x = manifest_coordinate m) ms = [m]"
  using assms by (induction ms) (auto simp: filter_empty_conv intro: rev_image_eqI)

lemma selected_distinct:
  assumes "distinct (map manifest_coordinate ms)"
  shows "set (selected_manifests ms) = (\<lambda>m. (manifest_coordinate m, m)) ` set ms \<and> dict_ok (selected_manifests ms)"
proof -
  have sel: "selected_manifests ms = map (\<lambda>c. (c, hd (filter (\<lambda>m. manifest_coordinate m = c) ms)))
      (sort (map manifest_coordinate ms))"
  proof -
    have "List.map_filter (\<lambda>(c, xs). map_option (Pair c) (best_revision xs))
        (map (\<lambda>c. (c, filter (\<lambda>m. manifest_coordinate m = c) ms)) cs) =
      map (\<lambda>c. (c, hd (filter (\<lambda>m. manifest_coordinate m = c) ms))) cs"
      if "set cs \<subseteq> manifest_coordinate ` set ms" for cs
      using that
    proof (induction cs)
      case (Cons c cs)
      then obtain m where m: "m \<in> set ms" "c = manifest_coordinate m" by auto
      with Cons group_single [OF assms m(1)] show ?case by (simp add: List.map_filter_def)
    qed (simp add: List.map_filter_def)
    then show ?thesis using assms by (simp add: selected_manifests_def group_by_coordinate_def distinct_remdups_id)
  qed
  have "hd (filter (\<lambda>x. manifest_coordinate x = manifest_coordinate m) ms) = m" if "m \<in> set ms" for m
    using group_single [OF assms that] by simp
  then have "set (selected_manifests ms) = (\<lambda>m. (manifest_coordinate m, m)) ` set ms"
    unfolding sel by (force simp: image_iff)
  moreover have "map fst (selected_manifests ms) = sort (map manifest_coordinate ms)"
    by (simp add: sel comp_def)
  ultimately show ?thesis using assms by (simp del: map_map)
qed

text \<open>The declared relations only depend on the set of selected capabilities.\<close>

lemma selection_same:
  assumes "set s = set t" "dict_ok s" "dict_ok t"
  shows "dependencies_met s = dependencies_met t" "depends s = depends t" "conflict_free s = conflict_free t"
proof -
  have "map_of s = map_of t" using assms by (simp add: map_of_inject_set)
  then show "dependencies_met s = dependencies_met t" "depends s = depends t" "conflict_free s = conflict_free t"
    using assms by (auto simp: dependencies_met_def depends_def conflict_free_def)
qed

lemma manager_validate_sound:
  assumes "manager_validate mg ps = Inr ()" "dict_ok (rg_active (um_registry mg))"
  shows "\<exists>selected. find_all (um_registry mg) (combine_pointers (rg_active (um_registry mg)) ps) = Inr selected \<and>
    (\<forall>(c, m) \<in> set selected. manifest_coordinate m = c) \<and>
    dependencies_met selected \<and> acyclic (depends selected) \<and> conflict_free selected"
proof -
  let ?rg = "um_registry mg" and ?c = "combine_pointers (rg_active (um_registry mg)) ps"
  have ok: "dict_ok ?c" using assms(2) by (rule dict_ok_combine)
  from assms(1) obtain ms where coord: "\<forall>(c, r) \<in> set ?c. \<exists>m. find_revision ?rg r = Inr m \<and> manifest_coordinate m = c"
    and ms: "find_list ?rg (map snd ?c) = Inr ms" "validate_dependencies False (selected_manifests ms) = Inr ()"
      "validate_conflicts (selected_manifests ms) = Inr ()"
    by (auto simp: manager_validate_def validate_staged_def Let_def rbind_eq_Inr check_coordinates_iff)
  have lms: "list_all2 (\<lambda>p m. find_revision ?rg (snd p) = Inr m) ?c ms"
    using ms(1) by (simp add: find_list_iff list_all2_map1)
  then have m: "ms = map (\<lambda>p. projr (find_revision ?rg (snd p))) ?c"
    by (induction rule: list_all2_induct) auto
  have coords: "map manifest_coordinate ms = map fst ?c"
    unfolding m using coord by (force simp: comp_def)
  let ?s = "map (\<lambda>m. (manifest_coordinate m, m)) ms"
  have fst: "map fst ?s = map fst ?c" using coords by (simp add: comp_def)
  have "find_all ?rg ?c = Inr ?s"
    unfolding find_all_iff m list_all2_map2 using coord
    by (force simp: list_all2_same find_revision_def split: option.splits)
  moreover from selected_distinct [of ms] ok coords have sel: "set (selected_manifests ms) = set ?s" "dict_ok (selected_manifests ms)"
    by simp_all
  have "dict_ok ?s" using ok fst by simp
  with sel selection_same [of "selected_manifests ms" ?s] ms(2,3)
  have "dependencies_met ?s" "acyclic (depends ?s)" "conflict_free ?s"
    by (simp_all add: validate_dependencies_iff validate_conflicts_iff)
  ultimately show ?thesis by (intro exI [of _ ?s]) auto
qed

text \<open>
  C13. \<open>activate\<close> of the manager (not \<open>bootstrap\<close>, which takes a revision live unverified, nor \<open>rollback\<close>) makes
  an update live only trusted and consistent: when it succeeds, the artifact of the revision has just been
  acquired and verified, the revision was the staged one with a passed health check, the active revision
  was the expected one, and with the new pointer the active capabilities (the registry's own
  activations overridden by the stored pointers) have their dependencies in admitted versions, no cycle
  and no conflict. The registry has one active pointer per coordinate (\<open>dict_ok\<close>), as every reachable
  one has.
\<close>

theorem update_goes_live_trusted:
  assumes "dict_ok (rg_active (um_registry mg))"
    and "manager_activate mg st revision expected = (Inr u, st')"
  shows "\<exists>m check acquire material evidence selected. find_revision (um_registry mg) revision = Inr m \<and>
    um_verifier mg = Some check \<and> um_acquirer mg = Some acquire \<and> acquire revision = Acquired material \<and>
    check m material = Inr evidence \<and>
    us_active (read_state st (manifest_coordinate m)) = expected \<and>
    us_staged (read_state st (manifest_coordinate m)) = Some revision \<and>
    us_health (read_state st (manifest_coordinate m)) = Some ''passed'' \<and>
    find_all (um_registry mg) (combine_pointers (rg_active (um_registry mg))
      (AList.update (manifest_coordinate m) revision (stored_pointers st))) = Inr selected \<and>
    dependencies_met selected \<and> acyclic (depends selected) \<and> conflict_free selected \<and>
    us_active (read_state st' (manifest_coordinate m)) = Some revision"
proof -
  from assms(2) obtain m where m: "trusted_manifest mg revision = Inr m"
    and act: "activate_revision st (manifest_coordinate m) revision expected (manager_validate mg) = (Inr u, st')"
    by (auto simp: manager_activate_def split: sum.splits)
  from m obtain e where rev: "find_revision (um_registry mg) revision = Inr m" and e: "verify_artifact mg revision = Inr e"
    by (auto simp: trusted_manifest_def rbind_eq_Inr)
  from e rev obtain check acquire material where v: "um_verifier mg = Some check" "um_acquirer mg = Some acquire"
    "acquire revision = Acquired material" "check m material = Inr e"
    by (auto simp: verify_artifact_def split: option.splits acquisition.splits)
  let ?new = "AList.update (manifest_coordinate m) revision (stored_pointers st)"
  from act have val: "manager_validate mg ?new = Inr ()" and us: "us_active (read_state st (manifest_coordinate m)) = expected"
    "us_staged (read_state st (manifest_coordinate m)) = Some revision"
    "us_health (read_state st (manifest_coordinate m)) = Some ''passed''"
    "us_active (read_state st' (manifest_coordinate m)) = Some revision"
    by (auto simp: activate_revision_def Let_def commit_def rbind_eq_Inr expect_active_def split: sum.splits if_splits)
  from manager_validate_sound [OF val assms(1)] obtain selected where
    "find_all (um_registry mg) (combine_pointers (rg_active (um_registry mg)) ?new) = Inr selected"
    "dependencies_met selected" "acyclic (depends selected)" "conflict_free selected" by blast
  with rev v us show ?thesis by blast
qed

definition example_manager :: "registry \<Rightarrow> update_manager" where
  "example_manager rg = \<lparr>um_drivers = no_drivers, um_registry = rg,
     um_verifier = Some (\<lambda>m x. Inr \<lparr>te_revision = manifest_revision m, te_digest = [], te_publisher = am_publisher x,
       te_registry = am_registry x, te_environment = Development, te_signed = False, te_algorithm = None, te_key_id = None,
       te_expires = None\<rparr>),
     um_acquirer = Some (\<lambda>_. Acquired \<lparr>am_artifact = [], am_publisher = ''acme'', am_registry = ''main'',
       am_attestation = None, am_bundled = False\<rparr>)\<rparr>"

definition example_updates :: update_store where
  "example_updates = \<lparr>st_updates = [(''x/tool'', \<lparr>us_active = None, us_previous = None, us_staged = Some ''x/tool@2.0.0#d'',
     us_health = Some ''passed''\<rparr>)], st_pins = []\<rparr>"

theorem update_goes_live_trusted_witness:
  "\<exists>mg u st'. manager_activate mg example_updates ''x/tool@2.0.0#d'' None = (Inr u, st') \<and>
    us_active (read_state st' ''x/tool'') = Some ''x/tool@2.0.0#d''"
proof -
  obtain rg where rg: "reach (registry_init no_drivers) (registry_step no_drivers) rg"
    "rg_revisions rg = [(''x/base@1.4.0#d'', example_base), (''x/tool@2.0.0#d'', example_tool)]"
    "rg_active rg = [(''x/base'', ''x/base@1.4.0#d'')]" "pp_strategy (rg_policy rg) = By_Isolation"
    by (rule example_registry)
  let ?mg = "example_manager rg"
  have found: "find_revision rg ''x/tool@2.0.0#d'' = Inr example_tool" "find_revision rg ''x/base@1.4.0#d'' = Inr example_base"
    by (simp_all add: find_revision_def rg)
  have sel: "set (selected_manifests [example_base, example_tool]) = set example_selection"
    "dict_ok (selected_manifests [example_base, example_tool])"
    using selected_distinct [of "[example_base, example_tool]"] by (simp_all add: example_selection_def)
  have dict: "dict_ok example_selection" by (simp add: example_selection_def)
  note same = selection_same [OF sel dict]
  have "validate_dependencies False (selected_manifests [example_base, example_tool]) = Inr ()"
    "validate_conflicts (selected_manifests [example_base, example_tool]) = Inr ()"
    using example_selection_ok by (simp_all add: validate_dependencies_iff validate_conflicts_iff sel(2) same)
  moreover have "snd ` set example_selection = {example_base, example_tool}" by (simp add: example_selection_def)
  then have "\<forall>m \<in> set (map snd (selected_manifests [example_base, example_tool])). map_of (cm_metadata m) ''driver'' = None"
    using sel(1) by (auto simp: example_base_def example_tool_def example_manifest_def)
  then have "\<exists>res. resolve_projections no_drivers (rg_policy rg) (map snd (selected_manifests [example_base, example_tool])) = Inr res"
    using resolve_plain [OF _ rg(4)] by blast
  moreover have "stored_pointers example_updates = []" by (simp add: stored_pointers_def example_updates_def)
  moreover have "combine_pointers (rg_active rg) [(''x/tool'', ''x/tool@2.0.0#d'')] =
      [(''x/base'', ''x/base@1.4.0#d''), (''x/tool'', ''x/tool@2.0.0#d'')]"
    by (simp add: combine_pointers_def rg)
  ultimately have val: "manager_validate ?mg (AList.update ''x/tool'' ''x/tool@2.0.0#d'' (stored_pointers example_updates)) = Inr ()"
    using found by (auto simp: manager_validate_def validate_staged_def example_manager_def Let_def)
  have "trusted_manifest ?mg ''x/tool@2.0.0#d'' = Inr example_tool"
    by (simp add: trusted_manifest_def verify_artifact_def example_manager_def found)
  then obtain u st' where run: "manager_activate ?mg example_updates ''x/tool@2.0.0#d'' None = (Inr u, st')"
    using val by (simp add: manager_activate_def activate_revision_def example_updates_def read_state_def expect_active_def)
  have "find_revision (um_registry ?mg) ''x/tool@2.0.0#d'' = Inr m \<Longrightarrow> manifest_coordinate m = ''x/tool''" for m
    using found by (simp add: example_manager_def)
  moreover have "dict_ok (rg_active (um_registry ?mg))" by (simp add: example_manager_def rg)
  ultimately show ?thesis using update_goes_live_trusted [OF _ run] run by metis
qed

end
