(* ===== verification/Loading.thy ===== *)
theory Loading
  imports Service_Runs
begin

text \<open>
  What a load discloses, what its rehydration handles mean and what an approval is good for:
  properties of \<open>load\<close>, \<open>rehydrate\<close> and \<open>issue_approval\<close> in \<open>service.py\<close> as the theory \<open>Service\<close>
  models them.
\<close>

lemma ascii_operation_value: "is_ascii (omission_value kind)"
  by (cases kind) (simp_all add: is_ascii_def)

lemma selector_ascii: "is_ascii (rehydration_selector fr revision kind name)"
  by (simp add: rehydration_selector_def json_digest_def ascii_hex)

lemma purpose_ascii: "is_ascii (rehydration_purpose kind (rehydration_selector fr revision kind name))"
  "rehydration_purpose kind selector \<noteq> []"
  by (simp_all add: rehydration_purpose_def selector_ascii ascii_operation_value)

text \<open>Each handle carries a reference for its own purpose, issued by that load.\<close>

lemma make_handles_mem:
  assumes "make_handles cfg now scope revision targets = Inr hs" "h \<in> set hs"
  shows "\<exists>kind name. (kind, name) \<in> set targets \<and> rh_kind h = kind \<and>
    rh_selector h = rehydration_selector (sc_floats cfg) revision kind name \<and>
    issue_reference (sc_key cfg) revision scope (PyInt (sc_load_ttl cfg)) (rehydration_purpose kind (rh_selector h)) now = Inr (rh_reference h) \<and>
    (\<exists>claims. verify_reference (sc_key cfg) (rh_reference h) scope (Some revision) (rehydration_purpose kind (rh_selector h)) now = Inr claims \<and>
      rh_expires h = cl_expires claims)"
  using assms
proof (induction cfg now scope revision targets arbitrary: hs rule: make_handles.induct)
  case (2 cfg now scope revision kind name targets)
  let ?sel = "rehydration_selector (sc_floats cfg) revision kind name"
  let ?purpose = "rehydration_purpose kind ?sel"
  from "2.prems"(1) obtain r claims h' hs' where
    r: "issue_reference (sc_key cfg) revision scope (PyInt (sc_load_ttl cfg)) ?purpose now = Inr r"
    "verify_reference (sc_key cfg) r scope (Some revision) ?purpose now = Inr claims"
    "make_handle kind ?sel r (cl_expires claims) = Inr h'" "make_handles cfg now scope revision targets = Inr hs'" "hs = h' # hs'"
    by (auto simp: rbind_eq_Inr Let_def)
  then have h': "h' = \<lparr>rh_kind = kind, rh_selector = ?sel, rh_reference = r, rh_expires = cl_expires claims\<rparr>"
    by (auto simp: make_handle_def Let_def split: if_splits)
  show ?case
  proof (cases "h = h'")
    case True
    with r h' show ?thesis by (intro exI [of _ kind] exI [of _ name]) simp
  next
    case False
    with "2.prems"(2) r(5) have "h \<in> set hs'" by simp
    from "2.IH" [OF refl refl r(4) this] show ?thesis by fastforce
  qed
qed simp

text \<open>The answer of a load, in its parts.\<close>

lemma load_cases:
  assumes "service_load cfg st now fresh ref task ctx i section_names operation_names mx = (Inr loaded, st')"
  obtains m limit bytes h sections operations handles where
    "load_target cfg now ctx ref mx = Inr (m, limit)"
    "load_material cfg now ctx m section_names operation_names limit = Inr (loaded, bytes)"
    "budget_spend (sv_budget st) i (load_spend loaded bytes) fresh = (Inr (), h)" "sv_budget st' = h"
    "sv_grants st' = (if ld_execution_ref loaded = [] then sv_grants st
       else AList.update (ld_execution_ref loaded) \<lparr>eg_revision = manifest_revision m, eg_operations = op_name ` set (ld_operations loaded)\<rparr> (sv_grants st))"
    "select_sections m section_names = Inr sections" "select_operations m operation_names = Inr operations"
    "rehydration_handles cfg now ctx m sections operations = Inr handles"
    "ld_sections loaded = sections" "ld_operations loaded = operations" "ld_handles loaded = handles"
    "ld_revision loaded = manifest_revision m" "ld_portable_tokens loaded \<le> limit"
    "\<forall>s \<in> set sections. sd_sensitive s \<longrightarrow> ''content.sensitive'' \<in> sx_granted ctx"
    "if cm_kind m = SKILL then ld_execution_ref loaded = [] else
       issue_reference (sc_key cfg) (manifest_revision m) (reference_scope (sc_floats cfg) ctx) (PyInt (sc_execution_ttl cfg)) ''execution'' now = Inr (ld_execution_ref loaded)"
proof -
  obtain m limit where t: "load_target cfg now ctx ref mx = Inr (m, limit)"
    using assms by (auto simp: service_load_def split: sum.splits)
  obtain bytes where mat: "load_material cfg now ctx m section_names operation_names limit = Inr (loaded, bytes)"
    and s: "\<exists>h. budget_spend (sv_budget st) i (load_spend loaded bytes) fresh = (Inr (), h) \<and> sv_budget st' = h \<and>
      sv_grants st' = (if ld_execution_ref loaded = [] then sv_grants st
       else AList.update (ld_execution_ref loaded) \<lparr>eg_revision = manifest_revision m, eg_operations = op_name ` set (ld_operations loaded)\<rparr> (sv_grants st))"
    using assms t by (auto simp: service_load_def emit_event_def Let_def split: sum.splits prod.splits)
  obtain notices omitted where n: "manifest_notices m = (notices, omitted)" by fastforce
  from mat obtain sections operations handles er where
    parts: "select_sections m section_names = Inr sections" "select_operations m operation_names = Inr operations"
    "rehydration_handles cfg now ctx m sections operations = Inr handles"
    "\<forall>s \<in> set sections. sd_sensitive s \<longrightarrow> ''content.sensitive'' \<in> sx_granted ctx"
    "(if cm_kind m = SKILL then Inr [] else issue_reference (sc_key cfg) (manifest_revision m) (reference_scope (sc_floats cfg) ctx)
       (PyInt (sc_execution_ttl cfg)) ''execution'' now) = Inr er"
    and tail: "(let (l, b) = loaded_response (sc_floats cfg) m sections operations er notices handles omitted in
       if limit < ld_portable_tokens l then Inl (svc_budget ''load_output_budget_exceeded''
         [(''required_tokens'', PyInt (ld_portable_tokens l)), (''max_output_tokens'', PyInt limit)]) else Inr (l, b)) = Inr (loaded, bytes)"
    unfolding load_material_def rbind_eq_Inr n Let_def prod.case by (auto simp: rbind_eq_Inr simp del: if_image_distrib split: if_split_asm)
  from tail have resp: "loaded_response (sc_floats cfg) m sections operations er notices handles omitted = (loaded, bytes)"
    and limit: "ld_portable_tokens loaded \<le> limit" by (auto split: prod.splits if_splits)
  from s obtain h where h: "budget_spend (sv_budget st) i (load_spend loaded bytes) fresh = (Inr (), h)" "sv_budget st' = h"
    "sv_grants st' = (if ld_execution_ref loaded = [] then sv_grants st
       else AList.update (ld_execution_ref loaded) \<lparr>eg_revision = manifest_revision m, eg_operations = op_name ` set (ld_operations loaded)\<rparr> (sv_grants st))"
    by blast
  note frame = loaded_response_frame [OF resp]
  have er: "if cm_kind m = SKILL then ld_execution_ref loaded = [] else
       issue_reference (sc_key cfg) (manifest_revision m) (reference_scope (sc_floats cfg) ctx) (PyInt (sc_execution_ttl cfg)) ''execution'' now = Inr (ld_execution_ref loaded)"
    using parts(5) frame by (cases "cm_kind m = SKILL") auto
  show ?thesis using frame by (intro that [OF t mat h parts(1-3) _ _ _ _ limit parts(4) er]) simp_all
qed

lemma select_sections_Inr: "select_sections m names = Inr xs \<longleftrightarrow>
    (case names of None \<Rightarrow> xs = cm_sections m | Some ns \<Rightarrow> set ns \<subseteq> sd_name ` set (cm_sections m) \<and>
      xs = filter (\<lambda>s. sd_name s \<in> set ns) (cm_sections m))"
  by (auto simp: select_sections_def split: option.splits)

lemma select_operations_Inr: "select_operations m names = Inr xs \<longleftrightarrow>
    (case names of None \<Rightarrow> xs = cm_operations m | Some ns \<Rightarrow> set ns \<subseteq> op_name ` set (cm_operations m) \<and>
      xs = filter (\<lambda>s. op_name s \<in> set ns) (cm_operations m))"
  by (auto simp: select_operations_def split: option.splits)

lemma load_target_Inr: "load_target cfg now ctx ref mx = Inr (m, limit) \<Longrightarrow> mx = PyInt limit \<and> 1 \<le> limit \<and>
    (\<exists>claims. verify_reference (sc_key cfg) ref (reference_scope (sc_floats cfg) ctx) None ''load'' now = Inr claims \<and>
      service_manifest cfg (cl_revision claims) = Inr m)"
  by (auto simp: load_target_def rbind_eq_Inr dest: positive_budget_ok)

lemma service_manifest_Inr: "service_manifest cfg r = Inr m \<longleftrightarrow> find_revision (sc_registry cfg) r = Inr m \<and>
    map_of (rg_active (sc_registry cfg)) (manifest_coordinate m) = Some r"
  by (auto simp: service_manifest_def simp del: map_of_eq_Some_iff split: sum.splits)

text \<open>
  C15. A load discloses what was asked for and no more: when it succeeds, its reference verified for
  the caller's scope and names the active revision of a capability; the sections and operations
  are exactly those requested of that capability; a sensitive section is among them only for a caller who may see sensitive
  content; the tokens stay within the limit of the call; and the load grants execution of exactly
  the loaded operations under its new execution reference, or, for a skill, of nothing.
\<close>

theorem load_discloses:
  assumes "service_load cfg st now fresh ref task ctx i section_names operation_names mx = (Inr loaded, st')"
  shows "\<exists>claims m limit. mx = PyInt limit \<and>
    verify_reference (sc_key cfg) ref (reference_scope (sc_floats cfg) ctx) None ''load'' now = Inr claims \<and>
    find_revision (sc_registry cfg) (cl_revision claims) = Inr m \<and>
    map_of (rg_active (sc_registry cfg)) (manifest_coordinate m) = Some (cl_revision claims) \<and>
    ld_sections loaded = (case section_names of None \<Rightarrow> cm_sections m
      | Some names \<Rightarrow> filter (\<lambda>s. sd_name s \<in> set names) (cm_sections m)) \<and>
    ld_operations loaded = (case operation_names of None \<Rightarrow> cm_operations m
      | Some names \<Rightarrow> filter (\<lambda>p. op_name p \<in> set names) (cm_operations m)) \<and>
    (\<forall>s \<in> set (ld_sections loaded). sd_sensitive s \<longrightarrow> ''content.sensitive'' \<in> sx_granted ctx) \<and>
    ld_portable_tokens loaded \<le> limit \<and>
    (if cm_kind m = SKILL then ld_execution_ref loaded = [] \<and> sv_grants st' = sv_grants st
     else map_of (sv_grants st') (ld_execution_ref loaded) =
         Some \<lparr>eg_revision = manifest_revision m, eg_operations = op_name ` set (ld_operations loaded)\<rparr> \<and>
       (\<forall>r. r \<noteq> ld_execution_ref loaded \<longrightarrow> map_of (sv_grants st') r = map_of (sv_grants st) r))"
proof -
  from assms obtain m limit bytes h sections operations handles where t: "load_target cfg now ctx ref mx = Inr (m, limit)"
    and g: "sv_grants st' = (if ld_execution_ref loaded = [] then sv_grants st
       else AList.update (ld_execution_ref loaded) \<lparr>eg_revision = manifest_revision m, eg_operations = op_name ` set (ld_operations loaded)\<rparr> (sv_grants st))"
    and sel: "select_sections m section_names = Inr (ld_sections loaded)" "select_operations m operation_names = Inr (ld_operations loaded)"
    and rest: "ld_portable_tokens loaded \<le> limit" "\<forall>s \<in> set (ld_sections loaded). sd_sensitive s \<longrightarrow> ''content.sensitive'' \<in> sx_granted ctx"
    and er: "if cm_kind m = SKILL then ld_execution_ref loaded = [] else
       issue_reference (sc_key cfg) (manifest_revision m) (reference_scope (sc_floats cfg) ctx) (PyInt (sc_execution_ttl cfg)) ''execution'' now = Inr (ld_execution_ref loaded)"
    by (elim load_cases) simp
  have ne: "cm_kind m \<noteq> SKILL \<Longrightarrow> ld_execution_ref loaded \<noteq> []" using er by (auto dest: reference_not_empty)
  from load_target_Inr [OF t] obtain claims where c: "mx = PyInt limit"
    "verify_reference (sc_key cfg) ref (reference_scope (sc_floats cfg) ctx) None ''load'' now = Inr claims"
    "find_revision (sc_registry cfg) (cl_revision claims) = Inr m"
    "map_of (rg_active (sc_registry cfg)) (manifest_coordinate m) = Some (cl_revision claims)"
    by (auto simp: service_manifest_Inr simp del: map_of_eq_Some_iff)
  have "ld_sections loaded = (case section_names of None \<Rightarrow> cm_sections m
      | Some names \<Rightarrow> filter (\<lambda>s. sd_name s \<in> set names) (cm_sections m))"
    "ld_operations loaded = (case operation_names of None \<Rightarrow> cm_operations m
      | Some names \<Rightarrow> filter (\<lambda>p. op_name p \<in> set names) (cm_operations m))"
    using sel by (auto simp: select_sections_Inr select_operations_Inr split: option.splits)
  moreover have "if cm_kind m = SKILL then ld_execution_ref loaded = [] \<and> sv_grants st' = sv_grants st
     else map_of (sv_grants st') (ld_execution_ref loaded) =
         Some \<lparr>eg_revision = manifest_revision m, eg_operations = op_name ` set (ld_operations loaded)\<rparr> \<and>
       (\<forall>r. r \<noteq> ld_execution_ref loaded \<longrightarrow> map_of (sv_grants st') r = map_of (sv_grants st) r)"
    using g er ne by (simp del: map_of_eq_Some_iff)
  ultimately show ?thesis using c rest by blast
qed

text \<open>
  An approval is bound to the revision, the operation, the arguments and the actor, and to
  nothing else: an approval issued for one task passes the approval check of a request of any other
  task, as often as it is shown, until it expires.
\<close>

lemma approval_ignores_task:
  assumes "issue_approval cfg st now revision operation arguments task ctx (PyInt ttl) = (Inr approval, st')"
    and "is_ascii revision" "is_ascii operation"
    and "int_time later < int_time now + ttl" "int_time now \<le> int_time later + 60"
    and "manifest_revision m = revision" "rq_operation request = operation" "rq_arguments request = arguments"
    "rq_approval_ref request = Some approval"
  shows "check_approval cfg later ctx m request = Inr True \<and>
    check_approval cfg later ctx m (request\<lparr>rq_task_id := other\<rparr>) = Inr True"
proof -
  have "issue_reference (sc_key cfg) revision (approval_scope (sc_floats cfg) ctx operation arguments) (PyInt ttl) ''approval'' now = Inr approval"
    using assms(1) by (auto simp: issue_approval_def rbind_def split: sum.splits if_splits)
  from verify_own [OF this, of later "Some revision"] assms(2-5) approval_scope_plain [OF assms(3)]
  have "\<exists>c. verify_reference (sc_key cfg) approval (approval_scope (sc_floats cfg) ctx operation arguments) (Some revision) ''approval'' later = Inr c"
    by (simp add: is_ascii_def)
  with assms(6-9) show ?thesis by (auto simp: check_approval_def)
qed

lemma example_load:
  obtains st lr limit loaded st' where
    "service_load example_config st 1000 ''u'' lr ''task'' example_context 0 None None (PyInt limit) = (Inr loaded, st')"
    "unlimited (sv_budget st)"
proof -
  let ?scope = "reference_scope (\<lambda>_. []) example_context"
  obtain s :: execution_system where s: "unlimited (sv_budget (xs_service s))" by (rule example_loaded) (rule that)
  obtain lr where lr: "issue_reference [1, 2, 3] ''x/tool@1.0.0#d'' ?scope (PyInt 300) ''load'' 1000 = Inr lr"
    using issue_ok [of "''x/tool@1.0.0#d''" ?scope "''load''" 300] example_scope by auto
  obtain er where er: "issue_reference [1, 2, 3] ''x/tool@1.0.0#d'' ?scope (PyInt 300) ''execution'' 1000 = Inr er"
    using issue_ok [of "''x/tool@1.0.0#d''" ?scope "''execution''" 300] example_scope by auto
  have "verify_reference [1, 2, 3] lr ?scope None ''load'' 1000 = Inr (issued_claims ''x/tool@1.0.0#d'' ?scope 300 ''load'' 1000)"
    using example_scope by (intro verify_own [OF lr]) (simp_all add: is_ascii_def int_time_def)
  then obtain limit loaded sv where "service_load example_config (xs_service s) 1000 ''u'' lr ''task'' example_context 0 None None (PyInt limit) = (Inr loaded, sv)"
    using load_everything [of example_config lr example_context 1000 _ example_capability er "xs_service s" "''u''" "''task''"]
      er reference_not_empty [OF er] s by auto
  from that [OF this s] show ?thesis .
qed

theorem load_discloses_witness:
  "\<exists>st lr limit loaded st'. service_load example_config st 1000 ''u'' lr ''task'' example_context 0 None None (PyInt limit) = (Inr loaded, st') \<and>
    (\<forall>s \<in> set (ld_sections loaded). sd_sensitive s \<longrightarrow> ''content.sensitive'' \<in> sx_granted example_context) \<and> ld_portable_tokens loaded \<le> limit"
proof -
  obtain st lr limit loaded st' where l: "service_load example_config st 1000 ''u'' lr ''task'' example_context 0 None None (PyInt limit) = (Inr loaded, st')"
    by (rule example_load)
  from load_discloses [OF l] have "\<forall>s \<in> set (ld_sections loaded). sd_sensitive s \<longrightarrow> ''content.sensitive'' \<in> sx_granted example_context"
    "ld_portable_tokens loaded \<le> limit" by blast+
  with l show ?thesis by blast
qed

lemma approval_ignores_task_witness:
  "\<exists>st st' approval. issue_approval example_config st 1000 ''x/tool@1.0.0#d'' ''run'' [] ''task'' example_context (PyInt 300) = (Inr approval, st') \<and>
    check_approval example_config 1200 example_context example_capability
      ((example_request [] approval)\<lparr>rq_task_id := ''another''\<rparr>) = Inr True"
proof -
  obtain approval where "issue_reference [1, 2, 3] ''x/tool@1.0.0#d'' (approval_scope (\<lambda>_. []) example_context ''run'' []) (PyInt 300) ''approval'' 1000 = Inr approval"
    by (rule example_approval)
  then obtain st st' where i: "issue_approval example_config st 1000 ''x/tool@1.0.0#d'' ''run'' [] ''task'' example_context (PyInt 300) = (Inr approval, st')"
    by (simp add: issue_approval_def manifest_operation_def)
  have r: "rq_operation (example_request [] approval) = ''run''" "rq_arguments (example_request [] approval) = []"
    "rq_approval_ref (example_request [] approval) = Some approval" by (simp_all add: example_request_def)
  have "check_approval example_config 1200 example_context example_capability
      ((example_request [] approval)\<lparr>rq_task_id := ''another''\<rparr>) = Inr True"
    using approval_ignores_task [OF i _ _ _ _ _ r, of 1200 example_capability "''another''"] by (simp add: is_ascii_def int_time_def)
  with i show ?thesis by blast
qed

end
