(* ===== verification/Secrets.thy ===== *)
theory Secrets
  imports Json "HOL-Library.Sublist"
begin

text \<open>
  The scoped secret broker of \<open>secret_broker.py\<close>: leases for environment aliases behind opaque
  handles, spent inside trusted consumers. The clock, the random tokens, the environment and the
  consumers' outcomes are arguments. Of the operating-system stores the keyring envelope is
  modelled, with the keyring as a parameter; the Windows data protection calls are not.
\<close>

section \<open>Scopes, leases and events\<close>

definition secret_error :: "string \<Rightarrow> exn" where
  "secret_error code = HubError code POLICY False []"

definition alias_start :: "char \<Rightarrow> bool" where
  "alias_start c \<longleftrightarrow> is_lower c \<or> is_upper c \<or> c = CHR ''_''"

definition secret_alias :: "string \<Rightarrow> bool" where
  "secret_alias s \<longleftrightarrow> s \<noteq> [] \<and> length s \<le> 128 \<and> alias_start (hd s) \<and> list_all (\<lambda>c. alias_start c \<or> is_digit c) s"

record secret_scope =
  ss_tenant :: string
  ss_principal :: string
  ss_session :: string
  ss_task :: string
  ss_provider :: string
  ss_operation :: string
  ss_policy_revision :: string

definition make_secret_scope :: "secret_scope \<Rightarrow> secret_scope result" where
  "make_secret_scope s =
     (if [] \<in> {ss_tenant s, ss_principal s, ss_session s, ss_task s, ss_provider s, ss_operation s, ss_policy_revision s}
      then Inl ValueError else Inr s)"

record secret_lease =
  le_alias :: string
  le_scope :: secret_scope
  le_expires :: int
  le_uses :: int

record secret_context =
  sc_scope :: secret_scope
  sc_handle :: string
  sc_remaining :: int

record secret_receipt =
  sr_handle :: string
  sr_scope :: string
  sr_remaining :: int
  sr_consumed :: int

record secret_event =
  sv_event :: string
  sv_outcome :: string
  sv_handle :: string
  sv_scope :: string
  sv_timestamp :: int
  sv_error :: "string option"

definition secret_digest :: "string \<Rightarrow> string" where
  "secret_digest value = ''sha256:'' @ sha256_hex value"

definition secret_scope_digest :: "secret_scope \<Rightarrow> string" where
  "secret_scope_digest s = secret_digest (json_dumps True False (\<lambda>_. []) (PyDict [
     (''operation'', PyStr (ss_operation s)), (''policy_revision'', PyStr (ss_policy_revision s)),
     (''principal'', PyStr (ss_principal s)), (''provider'', PyStr (ss_provider s)), (''session'', PyStr (ss_session s)),
     (''task'', PyStr (ss_task s)), (''tenant'', PyStr (ss_tenant s))]))"

section \<open>The broker\<close>

text \<open>
  The trusted consumers are the provider names that have a callback; what a callback answers is an
  argument of the consumption. \<open>bk_observed\<close> says whether an audit sink is given; the sink sees the
  events in order and its own exceptions are dropped.
\<close>

record secret_broker =
  bk_consumers :: "string list"
  bk_observed :: bool
  bk_leases :: "(string \<times> secret_lease) list"
  bk_events :: "secret_event list"

definition make_secret_broker :: "string list \<Rightarrow> bool \<Rightarrow> secret_broker result" where
  "make_secret_broker consumers observed =
     (if consumers = [] \<or> [] \<in> set consumers then Inl ValueError
      else Inr \<lparr>bk_consumers = consumers, bk_observed = observed, bk_leases = [], bk_events = []\<rparr>)"

definition emit_secret_event ::
  "secret_broker \<Rightarrow> string \<Rightarrow> string \<Rightarrow> string \<Rightarrow> secret_scope option \<Rightarrow> int \<Rightarrow> string option \<Rightarrow> secret_broker" where
  "emit_secret_event b event outcome token scope t code =
     (if bk_observed b
      then b\<lparr>bk_events := bk_events b @ [\<lparr>sv_event = event, sv_outcome = outcome, sv_handle = secret_digest token,
        sv_scope = (case scope of Some s \<Rightarrow> secret_scope_digest s | None \<Rightarrow> ''unavailable''), sv_timestamp = t, sv_error = code\<rparr>]\<rparr>
      else b)"

definition timestamp_of :: "int \<Rightarrow> pyval option \<Rightarrow> int result" where
  "timestamp_of clock now = (case now of None \<Rightarrow> Inr clock | Some (PyInt n) \<Rightarrow> Inr n | _ \<Rightarrow> Inl ValueError)"

definition int_from_to :: "int \<Rightarrow> int \<Rightarrow> pyval \<Rightarrow> int result" where
  "int_from_to low high v = (case v of PyInt n \<Rightarrow> if low \<le> n \<and> n \<le> high then Inr n else Inl ValueError | _ \<Rightarrow> Inl ValueError)"

text \<open>\<open>secrets.token_urlsafe\<close> is asked until the token is new: the loop ends when some draw is.\<close>

partial_function (option) draw_token :: "(nat \<Rightarrow> string) \<Rightarrow> string set \<Rightarrow> nat \<Rightarrow> string option" where
  "draw_token draws taken i = (if draws i \<in> taken then draw_token draws taken (Suc i) else Some (draws i))"

definition broker_issue ::
  "secret_broker \<Rightarrow> (nat \<Rightarrow> string) \<Rightarrow> string \<Rightarrow> secret_scope \<Rightarrow> pyval \<Rightarrow> pyval \<Rightarrow> pyval option \<Rightarrow> int \<Rightarrow>
   (string result \<times> secret_broker) option" where
  "broker_issue b draws name scope ttl_seconds max_uses now clock =
     (if \<not> secret_alias name then Some (Inl ValueError, b)
      else if ss_provider scope \<notin> set (bk_consumers b) then Some (Inl (secret_error ''untrusted_secret_consumer''), b)
      else case int_from_to 1 3600 ttl_seconds of
        Inl e \<Rightarrow> Some (Inl e, b)
      | Inr ttl \<Rightarrow> (case int_from_to 1 32 max_uses of
          Inl e \<Rightarrow> Some (Inl e, b)
        | Inr uses \<Rightarrow> (case timestamp_of clock now of
            Inl e \<Rightarrow> Some (Inl e, b)
          | Inr t \<Rightarrow> (case draw_token draws (fst ` set (bk_leases b)) 0 of
              None \<Rightarrow> None
            | Some token \<Rightarrow> Some (Inr token, emit_secret_event (b\<lparr>bk_leases := AList.update token
                \<lparr>le_alias = name, le_scope = scope, le_expires = t + ttl, le_uses = uses\<rparr> (bk_leases b)\<rparr>)
                ''issue'' ''success'' token (Some scope) t None)))))"

definition admit_lease :: "secret_broker \<Rightarrow> string \<Rightarrow> secret_scope \<Rightarrow> int \<Rightarrow> (string \<times> int) result \<times> secret_broker" where
  "admit_lease b token scope t =
     (case map_of (bk_leases b) token of
        None \<Rightarrow> (Inl (secret_error ''secret_handle_consumed''), b)
      | Some l \<Rightarrow>
          if le_expires l \<le> t
          then (Inl (secret_error ''secret_handle_expired''), b\<lparr>bk_leases := AList.delete token (bk_leases b)\<rparr>)
          else if le_scope l \<noteq> scope then (Inl (secret_error ''secret_scope_mismatch''), b)
          else if ss_provider scope \<notin> set (bk_consumers b) then (Inl (secret_error ''untrusted_secret_consumer''), b)
          else (Inr (le_alias l, le_uses l - 1),
                b\<lparr>bk_leases := (if le_uses l - 1 = 0 then AList.delete token (bk_leases b)
                   else AList.update token (l\<lparr>le_uses := le_uses l - 1\<rparr>) (bk_leases b))\<rparr>))"

text \<open>
  What follows an admission does not touch the leases: the environment is read and the consumer
  called, each returning or raising, and the outcome is recorded.
\<close>

definition resolve_secret ::
  "(string \<Rightarrow> string option result) \<Rightarrow> (string \<Rightarrow> secret_context \<Rightarrow> unit result) \<Rightarrow> secret_context \<Rightarrow> string \<Rightarrow> unit result" where
  "resolve_secret environment consumer context name =
     (case environment name of
        Inr (Some value) \<Rightarrow>
          if value = [] then Inl (secret_error ''secret_alias_unavailable'')
          else (case consumer value context of
                  Inl _ \<Rightarrow> Inl (secret_error ''trusted_secret_consumer_failed'') | Inr _ \<Rightarrow> Inr ())
      | _ \<Rightarrow> Inl (secret_error ''secret_alias_unavailable''))"

definition finish_consume ::
  "secret_broker \<Rightarrow> string \<Rightarrow> secret_scope \<Rightarrow> int \<Rightarrow> int result \<Rightarrow> secret_receipt result \<times> secret_broker" where
  "finish_consume b token scope t outcome =
     (case outcome of
        Inl e \<Rightarrow> (Inl e, emit_secret_event b ''consume'' ''failure'' token (Some scope) t (Some (err_code e)))
      | Inr remaining \<Rightarrow>
          (Inr \<lparr>sr_handle = secret_digest token, sr_scope = secret_scope_digest scope, sr_remaining = remaining, sr_consumed = t\<rparr>,
           emit_secret_event b ''consume'' ''success'' token (Some scope) t None))"

definition broker_consume ::
  "secret_broker \<Rightarrow> (string \<Rightarrow> string option result) \<Rightarrow> (string \<Rightarrow> secret_context \<Rightarrow> unit result) \<Rightarrow>
   string \<Rightarrow> secret_scope \<Rightarrow> pyval option \<Rightarrow> int \<Rightarrow> secret_receipt result \<times> secret_broker" where
  "broker_consume b environment consumer token scope now clock =
     (case timestamp_of clock now of
        Inl e \<Rightarrow> (Inl e, b)
      | Inr t \<Rightarrow> (case admit_lease b token scope t of
          (Inl e, b') \<Rightarrow> finish_consume b' token scope t (Inl e)
        | (Inr (name, remaining), b') \<Rightarrow>
            finish_consume b' token scope t
              (rbind (resolve_secret environment consumer
                 \<lparr>sc_scope = scope, sc_handle = secret_digest token, sc_remaining = remaining\<rparr> name) (\<lambda>_. Inr remaining))))"

definition broker_revoke :: "secret_broker \<Rightarrow> string \<Rightarrow> pyval option \<Rightarrow> int \<Rightarrow> bool result \<times> secret_broker" where
  "broker_revoke b token now clock =
     (case timestamp_of clock now of
        Inl e \<Rightarrow> (Inl e, b)
      | Inr t \<Rightarrow>
          (let removed = map_of (bk_leases b) token
           in (Inr (removed \<noteq> None), emit_secret_event (b\<lparr>bk_leases := AList.delete token (bk_leases b)\<rparr>)
                ''revoke'' (if removed = None then ''not_found'' else ''success'') token (map_option le_scope removed) t None)))"

definition active_count :: "secret_broker \<Rightarrow> nat" where
  "active_count b = length (bk_leases b)"

section \<open>Runs\<close>

text \<open>
  The history records every lease as it was issued and every admission, with its token, scope,
  alias and time. Between an admission and its end other operations run.
\<close>

record secret_system =
  sy_broker :: secret_broker
  sy_issued :: "(string \<times> secret_lease) list"
  sy_spent :: "(string \<times> secret_scope \<times> string \<times> int) list"

definition secret_init :: "secret_system \<Rightarrow> bool" where
  "secret_init s \<longleftrightarrow> (\<exists>consumers observed. make_secret_broker consumers observed = Inr (sy_broker s)) \<and> sy_issued s = [] \<and> sy_spent s = []"

inductive secret_step :: "secret_system \<Rightarrow> secret_system \<Rightarrow> bool" where
  step_issued: "broker_issue (sy_broker s) draws name scope ttl uses now clock = Some (Inr token, b) \<Longrightarrow>
    map_of (bk_leases b) token = Some l \<Longrightarrow>
    secret_step s (s\<lparr>sy_broker := b, sy_issued := sy_issued s @ [(token, l)]\<rparr>)"
| step_not_issued: "broker_issue (sy_broker s) draws name scope ttl uses now clock = Some (Inl e, b) \<Longrightarrow>
    secret_step s (s\<lparr>sy_broker := b\<rparr>)"
| step_admitted: "admit_lease (sy_broker s) token scope t = (Inr (name, remaining), b) \<Longrightarrow>
    secret_step s (s\<lparr>sy_broker := b, sy_spent := sy_spent s @ [(token, scope, name, t)]\<rparr>)"
| step_not_admitted: "admit_lease (sy_broker s) token scope t = (Inl e, b) \<Longrightarrow> secret_step s (s\<lparr>sy_broker := b\<rparr>)"
| step_consumed: "finish_consume (sy_broker s) token scope t outcome = (r, b) \<Longrightarrow> secret_step s (s\<lparr>sy_broker := b\<rparr>)"
| step_revoked: "broker_revoke (sy_broker s) token now clock = (r, b) \<Longrightarrow> secret_step s (s\<lparr>sy_broker := b\<rparr>)"

definition remaining_uses :: "secret_broker \<Rightarrow> string \<Rightarrow> int" where
  "remaining_uses b token = (case map_of (bk_leases b) token of None \<Rightarrow> 0 | Some l \<Rightarrow> le_uses l)"

definition issued_uses :: "(string \<times> secret_lease) list \<Rightarrow> string \<Rightarrow> int" where
  "issued_uses issued token = sum_list (map (\<lambda>x. le_uses (snd x)) (filter (\<lambda>x. fst x = token) issued))"

definition spent_uses :: "(string \<times> secret_scope \<times> string \<times> int) list \<Rightarrow> string \<Rightarrow> int" where
  "spent_uses spent token = int (length (filter (\<lambda>x. fst x = token) spent))"

definition issued_as :: "(string \<times> secret_lease) list \<Rightarrow> string \<Rightarrow> secret_lease \<Rightarrow> bool" where
  "issued_as issued token l \<longleftrightarrow> (\<exists>l'. (token, l') \<in> set issued \<and> le_alias l' = le_alias l \<and> le_scope l' = le_scope l \<and>
     le_expires l' = le_expires l)"

definition secret_inv :: "secret_system \<Rightarrow> bool" where
  "secret_inv s \<longleftrightarrow> (\<forall>token. spent_uses (sy_spent s) token + remaining_uses (sy_broker s) token \<le> issued_uses (sy_issued s) token) \<and>
     (\<forall>token l. map_of (bk_leases (sy_broker s)) token = Some l \<longrightarrow> 1 \<le> le_uses l \<and> issued_as (sy_issued s) token l) \<and>
     (\<forall>(token, scope, name, t) \<in> set (sy_spent s). \<exists>l. (token, l) \<in> set (sy_issued s) \<and> le_scope l = scope \<and>
        le_alias l = name \<and> t < le_expires l \<and> ss_provider scope \<in> set (bk_consumers (sy_broker s)))"

lemma emit_fields [simp]:
  "bk_leases (emit_secret_event b e out tok sc t c) = bk_leases b" "bk_consumers (emit_secret_event b e out tok sc t c) = bk_consumers b"
  "bk_observed (emit_secret_event b e out tok sc t c) = bk_observed b"
  by (simp_all add: emit_secret_event_def)

lemma remaining_emit [simp]: "remaining_uses (emit_secret_event b e out tok sc t c) = remaining_uses b"
  by (simp add: remaining_uses_def fun_eq_iff)

lemma issued_uses_append [simp]:
  "issued_uses (xs @ [(token, l)]) k = issued_uses xs k + (if token = k then le_uses l else 0)"
  by (simp add: issued_uses_def)

lemma spent_uses_append [simp]: "spent_uses (xs @ [(token, y)]) k = spent_uses xs k + (if token = k then 1 else 0)"
  by (simp add: spent_uses_def)

lemma issued_as_append: "issued_as xs token l \<Longrightarrow> issued_as (xs @ ys) token l"
  by (auto simp: issued_as_def)

lemma draw_fresh: "draw_token draws taken i = Some token \<Longrightarrow> token \<notin> taken"
  by (rule draw_token.raw_induct [of "\<lambda>d tk i token. token \<notin> tk", rotated]) (auto split: if_splits)

text \<open>The draws end as soon as one of them is new.\<close>

lemma draw_token_returns:
  assumes "draws k \<notin> taken" "i \<le> k"
  shows "\<exists>token. draw_token draws taken i = Some token"
  using assms(2)
proof (induction "k - i" arbitrary: i)
  case 0
  with assms(1) show ?case by (subst draw_token.simps) simp
next
  case (Suc n)
  then have "\<exists>token. draw_token draws taken (Suc i) = Some token" by simp
  then show ?case by (subst draw_token.simps) simp
qed

lemma int_from_to_Inr: "int_from_to low high v = Inr n \<longleftrightarrow> v = PyInt n \<and> low \<le> n \<and> n \<le> high"
  by (auto simp: int_from_to_def split: pyval.splits)

lemma issue_Inr:
  assumes "broker_issue b draws name scope ttl_seconds max_uses now clock = Some (Inr token, b')"
  obtains ttl uses t where "ttl_seconds = PyInt ttl" "1 \<le> ttl" "ttl \<le> 3600" "max_uses = PyInt uses" "1 \<le> uses" "uses \<le> 32"
    "timestamp_of clock now = Inr t" "token \<notin> fst ` set (bk_leases b)" "ss_provider scope \<in> set (bk_consumers b)" "secret_alias name"
    "bk_leases b' = bk_leases b @ [(token, \<lparr>le_alias = name, le_scope = scope, le_expires = t + ttl, le_uses = uses\<rparr>)]"
    "bk_consumers b' = bk_consumers b"
proof -
  from assms obtain ttl uses t where c: "secret_alias name" "ss_provider scope \<in> set (bk_consumers b)"
      "int_from_to 1 3600 ttl_seconds = Inr ttl" "int_from_to 1 32 max_uses = Inr uses" "timestamp_of clock now = Inr t"
      "draw_token draws (fst ` set (bk_leases b)) 0 = Some token"
    and b': "b' = emit_secret_event (b\<lparr>bk_leases := AList.update token
                \<lparr>le_alias = name, le_scope = scope, le_expires = t + ttl, le_uses = uses\<rparr> (bk_leases b)\<rparr>)
                ''issue'' ''success'' token (Some scope) t None"
    by (auto simp: broker_issue_def split: if_splits sum.splits option.splits)
  with that [of ttl uses t] draw_fresh [OF c(6)] show ?thesis by (simp add: int_from_to_Inr update_fresh)
qed

lemma issue_Inl: "broker_issue b draws name scope ttl uses now clock = Some (Inl e, b') \<Longrightarrow> b' = b"
  by (auto simp: broker_issue_def split: if_splits sum.splits option.splits)

lemma admit_Inr:
  assumes "admit_lease b token scope t = (Inr (name, remaining), b')"
  obtains l where "map_of (bk_leases b) token = Some l" "t < le_expires l" "le_scope l = scope" "le_alias l = name"
    "ss_provider scope \<in> set (bk_consumers b)" "remaining = le_uses l - 1" "bk_consumers b' = bk_consumers b"
    "map_of (bk_leases b') = (map_of (bk_leases b))(token := if remaining = 0 then None else Some (l\<lparr>le_uses := remaining\<rparr>))"
proof (cases "map_of (bk_leases b) token")
  case None
  with assms show ?thesis by (simp add: admit_lease_def)
next
  case (Some l)
  with assms have c: "t < le_expires l" "le_scope l = scope" "ss_provider scope \<in> set (bk_consumers b)" "name = le_alias l"
      "remaining = le_uses l - 1"
    and b': "b' = b\<lparr>bk_leases := (if remaining = 0 then AList.delete token (bk_leases b)
       else AList.update token (l\<lparr>le_uses := remaining\<rparr>) (bk_leases b))\<rparr>"
    by (auto simp: admit_lease_def simp del: map_of_eq_Some_iff split: if_splits)
  show ?thesis by (rule that [OF Some]) (use c b' in simp_all)
qed

lemma admit_Inl:
  assumes "admit_lease b token scope t = (Inl e, b')"
  shows "bk_consumers b' = bk_consumers b \<and>
    (map_of (bk_leases b') = map_of (bk_leases b) \<or> map_of (bk_leases b') = (map_of (bk_leases b))(token := None))"
  using assms by (cases "map_of (bk_leases b) token")
    (auto simp: admit_lease_def simp del: map_of_eq_Some_iff map_of_eq_None_iff split: if_splits)

lemma revoke_leases:
  assumes "broker_revoke b token now clock = (r, b')"
  shows "bk_consumers b' = bk_consumers b \<and>
    (map_of (bk_leases b') = map_of (bk_leases b) \<or> map_of (bk_leases b') = (map_of (bk_leases b))(token := None))"
  using assms by (auto simp: broker_revoke_def Let_def split: sum.splits)

lemma finish_leases:
  assumes "finish_consume b token scope t outcome = (r, b')"
  shows "bk_consumers b' = bk_consumers b \<and>
    (map_of (bk_leases b') = map_of (bk_leases b) \<or> map_of (bk_leases b') = (map_of (bk_leases b))(token := None))"
  using assms by (auto simp: finish_consume_def split: sum.splits)

text \<open>What drops a lease, or none, keeps the invariant.\<close>

lemma secret_inv_drop:
  assumes inv: "secret_inv s" and b: "bk_consumers b = bk_consumers (sy_broker s) \<and>
    (map_of (bk_leases b) = map_of (bk_leases (sy_broker s)) \<or> map_of (bk_leases b) = (map_of (bk_leases (sy_broker s)))(token := None))"
  shows "secret_inv (s\<lparr>sy_broker := b\<rparr>)"
proof -
  have pos: "map_of (bk_leases (sy_broker s)) k = Some l \<Longrightarrow> 1 \<le> le_uses l" for k l
    using inv by (simp add: secret_inv_def)
  then have "0 \<le> remaining_uses (sy_broker s) k" for k
    by (cases "map_of (bk_leases (sy_broker s)) k")
      (auto simp: remaining_uses_def simp del: map_of_eq_Some_iff map_of_eq_None_iff dest!: pos)
  then have "remaining_uses b k \<le> remaining_uses (sy_broker s) k" for k
    using b by (cases "k = token") (auto simp: remaining_uses_def)
  then have "spent_uses (sy_spent s) k + remaining_uses b k \<le> issued_uses (sy_issued s) k" for k
    using inv by (meson add_left_mono order_trans secret_inv_def)
  moreover have "map_of (bk_leases b) k = Some l \<Longrightarrow> map_of (bk_leases (sy_broker s)) k = Some l" for k l
    using b by (auto simp del: map_of_eq_Some_iff split: if_splits)
  ultimately show ?thesis using inv b unfolding secret_inv_def by (simp del: map_of_eq_Some_iff) blast
qed

lemma secret_inv_issue:
  assumes inv: "secret_inv s"
    and run: "broker_issue (sy_broker s) draws name scope ttl uses now clock = Some (Inr token, b)"
    and l: "map_of (bk_leases b) token = Some l"
  shows "secret_inv (s\<lparr>sy_broker := b, sy_issued := sy_issued s @ [(token, l)]\<rparr>)"
proof -
  obtain n u t where n: "1 \<le> u" "token \<notin> fst ` set (bk_leases (sy_broker s))" "bk_consumers b = bk_consumers (sy_broker s)"
      "bk_leases b = bk_leases (sy_broker s) @ [(token, \<lparr>le_alias = name, le_scope = scope, le_expires = t + n, le_uses = u\<rparr>)]"
    using run by (rule issue_Inr)
  have fresh: "map_of (bk_leases (sy_broker s)) token = None" using n(2) by (simp add: map_of_eq_None_iff)
  have m: "map_of (bk_leases b) = (map_of (bk_leases (sy_broker s)))(token \<mapsto> l)" and u: "1 \<le> le_uses l"
    using l fresh n(1,4) by (auto simp: map_add_def fun_eq_iff simp del: map_of_eq_Some_iff map_of_eq_None_iff split: option.splits)
  have "spent_uses (sy_spent s) k + remaining_uses b k \<le> issued_uses (sy_issued s @ [(token, l)]) k" for k
  proof -
    have "spent_uses (sy_spent s) k + remaining_uses (sy_broker s) k \<le> issued_uses (sy_issued s) k"
      using inv by (simp add: secret_inv_def)
    then show ?thesis using m fresh by (auto simp: remaining_uses_def simp del: map_of_eq_None_iff split: option.splits)
  qed
  moreover have "1 \<le> le_uses l' \<and> issued_as (sy_issued s @ [(token, l)]) k l'" if "map_of (bk_leases b) k = Some l'" for k l'
  proof (cases "k = token")
    case True
    with that m u show ?thesis by (auto simp: issued_as_def)
  next
    case False
    with that m have "map_of (bk_leases (sy_broker s)) k = Some l'" by simp
    with inv show ?thesis by (simp add: secret_inv_def issued_as_append del: map_of_eq_Some_iff)
  qed
  ultimately show ?thesis using inv n(3) unfolding secret_inv_def by (simp del: map_of_eq_Some_iff) blast
qed

lemma secret_inv_admit:
  assumes inv: "secret_inv s" and run: "admit_lease (sy_broker s) token scope t = (Inr (name, remaining), b)"
  shows "secret_inv (s\<lparr>sy_broker := b, sy_spent := sy_spent s @ [(token, scope, name, t)]\<rparr>)"
proof -
  obtain l where l: "map_of (bk_leases (sy_broker s)) token = Some l" "t < le_expires l" "le_scope l = scope" "le_alias l = name"
    "ss_provider scope \<in> set (bk_consumers (sy_broker s))" "remaining = le_uses l - 1" "bk_consumers b = bk_consumers (sy_broker s)"
    "map_of (bk_leases b) = (map_of (bk_leases (sy_broker s)))(token := if remaining = 0 then None else Some (l\<lparr>le_uses := remaining\<rparr>))"
    using run by (rule admit_Inr)
  have pos: "1 \<le> le_uses l" "issued_as (sy_issued s) token l" using inv l(1) by (simp_all add: secret_inv_def)
  have "spent_uses (sy_spent s @ [(token, scope, name, t)]) k + remaining_uses b k \<le> issued_uses (sy_issued s) k" for k
  proof -
    have "spent_uses (sy_spent s) k + remaining_uses (sy_broker s) k \<le> issued_uses (sy_issued s) k"
      using inv by (simp add: secret_inv_def)
    then show ?thesis using l(1,6,8) by (auto simp: remaining_uses_def simp del: map_of_eq_Some_iff)
  qed
  moreover have "1 \<le> le_uses l' \<and> issued_as (sy_issued s) k l'" if "map_of (bk_leases b) k = Some l'" for k l'
    using that l(6,8) pos inv
    by (cases "k = token") (auto simp: secret_inv_def issued_as_def simp del: map_of_eq_Some_iff split: if_splits)
  moreover have "\<exists>l'. (token, l') \<in> set (sy_issued s) \<and> le_scope l' = scope \<and> le_alias l' = name \<and> t < le_expires l'"
    using pos(2) l(2,3,4) by (auto simp: issued_as_def)
  ultimately show ?thesis using inv l(5,7) unfolding secret_inv_def by (simp del: map_of_eq_Some_iff)
qed

lemma make_broker_leases: "make_secret_broker consumers observed = Inr b \<Longrightarrow> bk_leases b = []"
  by (auto simp: make_secret_broker_def split: if_splits)

lemma secret_inv_init: "secret_init s \<Longrightarrow> secret_inv s"
proof -
  assume init: "secret_init s"
  then have "bk_leases (sy_broker s) = []" by (auto simp: secret_init_def make_broker_leases)
  with init show ?thesis by (simp add: secret_init_def secret_inv_def spent_uses_def issued_uses_def remaining_uses_def)
qed

lemma secret_inv_step: "secret_inv s \<Longrightarrow> secret_step s s' \<Longrightarrow> secret_inv s'"
proof (erule secret_step.cases, goal_cases)
  case 1
  then show ?case using secret_inv_issue by blast
next
  case 2
  then show ?case using issue_Inl secret_inv_drop by metis
next
  case 3
  then show ?case using secret_inv_admit by blast
next
  case 4
  then show ?case using admit_Inl secret_inv_drop by metis
next
  case 5
  then show ?case using finish_leases secret_inv_drop by metis
next
  case 6
  then show ?case using revoke_leases secret_inv_drop by metis
qed

interpretation secrets: step_system secret_init secret_step secret_inv
  by unfold_locales (auto intro: secret_inv_init secret_inv_step)

section \<open>The keyring of the system\<close>

text \<open>
  The keyring backend is a parameter: setting a password may raise, reading one may raise or find
  none. It is admitted for the platforms whose own stores are known.
\<close>

record 'k keyring_api =
  kr_set :: "string \<Rightarrow> string \<Rightarrow> string \<Rightarrow> 'k \<Rightarrow> unit result \<times> 'k"
  kr_get :: "string \<Rightarrow> string \<Rightarrow> 'k \<Rightarrow> string option result"

definition keyring_admitted :: "string \<Rightarrow> string \<Rightarrow> string \<Rightarrow> int \<Rightarrow> unit result" where
  "keyring_admitted service platform backend priority =
     (if service = [] then Inl ValueError
      else if \<not> (platform = ''darwin'' \<and> prefix ''keyring.backends.macOS'' backend \<or>
                 prefix ''linux'' platform \<and> prefix ''keyring.backends.SecretService'' backend) \<or> priority \<le> 0
      then Inl (secret_error ''secret_store_unsupported'') else Inr ())"

definition keyring_put :: "'k keyring_api \<Rightarrow> string \<Rightarrow> string \<Rightarrow> string \<Rightarrow> 'k \<Rightarrow> string result \<times> 'k" where
  "keyring_put api service name text k =
     (if \<not> secret_alias name \<or> text = [] then (Inl ValueError, k)
      else case kr_set api service (secret_digest name) text k of
        (Inl _, k') \<Rightarrow> (Inl (secret_error ''secret_store_unavailable''), k')
      | (Inr _, k') \<Rightarrow> (Inr (secret_digest name), k'))"

definition keyring_read :: "'k keyring_api \<Rightarrow> string \<Rightarrow> string \<Rightarrow> 'k \<Rightarrow> string result" where
  "keyring_read api service name k =
     (if \<not> secret_alias name then Inl ValueError
      else case kr_get api service (secret_digest name) k of
        Inr (Some text) \<Rightarrow> if text = [] then Inl (secret_error ''secret_store_unavailable'') else Inr text
      | _ \<Rightarrow> Inl (secret_error ''secret_store_unavailable''))"

record keyring_envelope =
  ke_aliases :: "string list"
  ke_consumed :: bool

primrec put_all :: "'k keyring_api \<Rightarrow> string \<Rightarrow> (string \<times> string) list \<Rightarrow> 'k \<Rightarrow> unit result \<times> 'k" where
  "put_all api service [] k = (Inr (), k)"
| "put_all api service (x # xs) k = (case keyring_put api service (fst x) (snd x) k of
     (Inl e, k') \<Rightarrow> (Inl e, k') | (Inr _, k') \<Rightarrow> put_all api service xs k')"

definition seal_secrets :: "'k keyring_api \<Rightarrow> string \<Rightarrow> (string \<times> string) list \<Rightarrow> 'k \<Rightarrow> keyring_envelope result \<times> 'k" where
  "seal_secrets api service secrets k =
     (case put_all api service (sort_key fst secrets) k of
        (Inl e, k') \<Rightarrow> (Inl e, k')
      | (Inr _, k') \<Rightarrow> (Inr \<lparr>ke_aliases = map fst (sort_key fst secrets), ke_consumed = False\<rparr>, k'))"

primrec read_all :: "'k keyring_api \<Rightarrow> string \<Rightarrow> string list \<Rightarrow> 'k \<Rightarrow> (string \<times> string) list result" where
  "read_all api service [] k = Inr []"
| "read_all api service (n # ns) k = rbind (keyring_read api service n k) (\<lambda>text.
     rbind (read_all api service ns k) (\<lambda>rest. Inr ((n, text) # rest)))"

definition open_secrets ::
  "'k keyring_api \<Rightarrow> string \<Rightarrow> keyring_envelope \<Rightarrow> 'k \<Rightarrow> (string \<times> string) list result \<times> keyring_envelope" where
  "open_secrets api service e k =
     (if ke_consumed e then (Inl (secret_error ''secret_transport_consumed''), e)
      else (case read_all api service (ke_aliases e) k of
              Inl _ \<Rightarrow> Inl (secret_error ''secret_transport_invalid'') | Inr secrets \<Rightarrow> Inr secrets,
            e\<lparr>ke_consumed := True\<rparr>))"

text \<open>Inside a worker: \<open>EnvironmentAliases\<close> and the resolver over the values of the scope.\<close>

definition alias_bindings :: "(string \<times> string) list \<Rightarrow> (string \<times> string) list result" where
  "alias_bindings sources =
     (if list_ex (\<lambda>(target, name). target = [] \<or> \<not> secret_alias name) sources then Inl ValueError else Inr sources)"

definition bound_secret :: "(string \<times> string) list \<Rightarrow> (string \<times> string) list option \<Rightarrow> string \<Rightarrow> string result" where
  "bound_secret sources environment target =
     (case map_of (rev sources) target of
        None \<Rightarrow> Inl KeyError
      | Some name \<Rightarrow> (case environment of
          None \<Rightarrow> Inl (secret_error ''secret_worker_scope_unavailable'')
        | Some env \<Rightarrow> (case map_of env name of
            None \<Rightarrow> Inl (secret_error ''secret_worker_scope_unavailable'') | Some text \<Rightarrow> Inr text)))"

definition resolve_worker_alias :: "(string \<times> string) list option \<Rightarrow> string \<Rightarrow> string option" where
  "resolve_worker_alias environment name = (case environment of None \<Rightarrow> None | Some env \<Rightarrow> map_of env name)"

text \<open>
  What is sealed is what opening gives back, once, when the keyring returns what was set and the
  digests of the aliases differ.
\<close>

definition keyring_laws :: "'k keyring_api \<Rightarrow> string \<Rightarrow> bool" where
  "keyring_laws api service \<longleftrightarrow> (\<forall>user text k k'. kr_set api service user text k = (Inr (), k') \<longrightarrow>
     kr_get api service user k' = Inr (Some text) \<and>
     (\<forall>other. other \<noteq> user \<longrightarrow> kr_get api service other k' = kr_get api service other k))"

lemma keyring_put_read:
  assumes "keyring_laws api service" "keyring_put api service name text k = (Inr d, k')"
  shows "keyring_read api service name k' = Inr text \<and>
    (\<forall>other. secret_digest other \<noteq> secret_digest name \<longrightarrow> keyring_read api service other k' = keyring_read api service other k)"
proof -
  from assms(2) have n: "secret_alias name" "text \<noteq> []" and s: "kr_set api service (secret_digest name) text k = (Inr (), k')"
    by (auto simp: keyring_put_def split: if_splits prod.splits sum.splits)
  from assms(1) s have "kr_get api service (secret_digest name) k' = Inr (Some text)"
    "\<forall>other. other \<noteq> secret_digest name \<longrightarrow> kr_get api service other k' = kr_get api service other k"
    by (simp_all add: keyring_laws_def)
  with n show ?thesis by (simp add: keyring_read_def)
qed

lemma put_all_frame:
  assumes "keyring_laws api service" "put_all api service xs k = (Inr (), k')" "secret_digest n \<notin> secret_digest ` fst ` set xs"
  shows "keyring_read api service n k' = keyring_read api service n k"
  using assms(2,3)
proof (induction xs arbitrary: k)
  case (Cons x xs)
  then obtain d k1 where "keyring_put api service (fst x) (snd x) k = (Inr d, k1)" "put_all api service xs k1 = (Inr (), k')"
    by (auto split: prod.splits sum.splits)
  with Cons keyring_put_read [OF assms(1)] show ?case by auto
qed simp

lemma put_all_read:
  assumes "keyring_laws api service" "put_all api service xs k = (Inr (), k')" "distinct (map (\<lambda>x. secret_digest (fst x)) xs)"
    "x \<in> set xs"
  shows "keyring_read api service (fst x) k' = Inr (snd x)"
  using assms(2-4)
proof (induction xs arbitrary: k)
  case (Cons y ys)
  then obtain d k1 where k1: "keyring_put api service (fst y) (snd y) k = (Inr d, k1)" "put_all api service ys k1 = (Inr (), k')"
    by (auto split: prod.splits sum.splits)
  show ?case
  proof (cases "x \<in> set ys")
    case False
    with Cons.prems(3) have x: "x = y" by simp
    with Cons.prems(2) have "secret_digest (fst x) \<notin> secret_digest ` fst ` set ys" by (auto simp: image_iff)
    from put_all_frame [OF assms(1) k1(2) this] keyring_put_read [OF assms(1) k1(1)] x show ?thesis by simp
  qed (use Cons k1 in auto)
qed simp

section \<open>Properties\<close>

text \<open>
  C36. In every run, with any interleaving, the admissions of a token never exceed the uses its leases
  were issued with in all, and each was made before the expiry of a lease issued for exactly that
  token, scope and alias, for a trusted consumer.
\<close>

theorem secret_uses_bounded:
  assumes "reach secret_init secret_step s"
  shows "spent_uses (sy_spent s) token \<le> issued_uses (sy_issued s) token \<and>
    (\<forall>(token, scope, name, t) \<in> set (sy_spent s). \<exists>l. (token, l) \<in> set (sy_issued s) \<and> le_scope l = scope \<and>
       le_alias l = name \<and> t < le_expires l \<and> ss_provider scope \<in> set (bk_consumers (sy_broker s)))"
proof -
  have inv: "secret_inv s" using assms by (rule secrets.reachable_inv)
  then have "0 \<le> remaining_uses (sy_broker s) token"
    by (fastforce simp: remaining_uses_def secret_inv_def simp del: map_of_eq_Some_iff map_of_eq_None_iff split: option.split)
  moreover have "spent_uses (sy_spent s) token + remaining_uses (sy_broker s) token \<le> issued_uses (sy_issued s) token"
    using inv by (simp add: secret_inv_def)
  ultimately have "spent_uses (sy_spent s) token \<le> issued_uses (sy_issued s) token" by linarith
  with inv show ?thesis unfolding secret_inv_def by blast
qed

text \<open>
  C39. At a valid time, a consumption answers a receipt exactly when the handle has a lease that has
  not expired, for the same scope and a trusted consumer, the environment has a text for the alias and
  the consumer returns; a lease spends a use as soon as it is admitted, whatever follows.
\<close>

theorem consume_receipt_iff:
  assumes "timestamp_of clock now = Inr t"
  shows "((\<exists>receipt. fst (broker_consume b environment consumer token scope now clock) = Inr receipt) \<longleftrightarrow>
    (\<exists>l text. map_of (bk_leases b) token = Some l \<and> t < le_expires l \<and> le_scope l = scope \<and>
      ss_provider scope \<in> set (bk_consumers b) \<and> environment (le_alias l) = Inr (Some text) \<and> text \<noteq> [] \<and>
      consumer text \<lparr>sc_scope = scope, sc_handle = secret_digest token, sc_remaining = le_uses l - 1\<rparr> = Inr ())) \<and>
    (\<forall>l. map_of (bk_leases b) token = Some l \<and> t < le_expires l \<and> le_scope l = scope \<and> ss_provider scope \<in> set (bk_consumers b) \<longrightarrow>
      remaining_uses (snd (broker_consume b environment consumer token scope now clock)) token = le_uses l - 1)"
proof (cases "map_of (bk_leases b) token")
  case None
  then show ?thesis using assms by (simp add: broker_consume_def admit_lease_def finish_consume_def)
next
  case (Some l)
  let ?admitted = "t < le_expires l \<and> le_scope l = scope \<and> ss_provider scope \<in> set (bk_consumers b)"
  show ?thesis
  proof (cases ?admitted)
    case False
    then show ?thesis using Some assms by (auto simp: broker_consume_def admit_lease_def finish_consume_def simp del: map_of_eq_Some_iff)
  next
    case True
    let ?c = "\<lparr>sc_scope = scope, sc_handle = secret_digest token, sc_remaining = le_uses l - 1\<rparr>"
    have run: "broker_consume b environment consumer token scope now clock =
        finish_consume (snd (admit_lease b token scope t)) token scope t
          (rbind (resolve_secret environment consumer ?c (le_alias l)) (\<lambda>_. Inr (le_uses l - 1)))"
      using True Some assms by (simp add: broker_consume_def admit_lease_def del: map_of_eq_Some_iff)
    have left: "remaining_uses (snd (admit_lease b token scope t)) token = le_uses l - 1"
      using True Some by (auto simp: admit_lease_def remaining_uses_def simp del: map_of_eq_Some_iff)
    have keep: "remaining_uses (snd (finish_consume b' token scope t r)) token = remaining_uses b' token" for b' r
      by (cases r) (simp_all add: finish_consume_def)
    have fin: "(\<exists>receipt. fst (finish_consume b' token scope t r) = Inr receipt) \<longleftrightarrow> (\<exists>n. r = Inr n)" for b' r
      by (cases r) (simp_all add: finish_consume_def)
    have res: "(\<exists>n. rbind (resolve_secret environment consumer ?c (le_alias l)) (\<lambda>_. Inr (le_uses l - 1)) = Inr n) \<longleftrightarrow>
       (\<exists>text. environment (le_alias l) = Inr (Some text) \<and> text \<noteq> [] \<and> consumer text ?c = Inr ())"
      by (auto simp: resolve_secret_def rbind_eq_Inr split: sum.splits option.splits)
    show ?thesis unfolding run fin res keep left using True Some by (simp del: map_of_eq_Some_iff)
  qed
qed

definition example_scope_of :: "string \<Rightarrow> secret_scope" where
  "example_scope_of task = \<lparr>ss_tenant = ''t'', ss_principal = ''p'', ss_session = ''s'', ss_task = task, ss_provider = ''git'',
     ss_operation = ''push'', ss_policy_revision = ''1''\<rparr>"

definition example_broker :: secret_broker where
  "example_broker = \<lparr>bk_consumers = [''git''], bk_observed = False, bk_leases = [], bk_events = []\<rparr>"

definition example_lease :: secret_lease where
  "example_lease = \<lparr>le_alias = ''TOKEN'', le_scope = example_scope_of ''a'', le_expires = 160, le_uses = 1\<rparr>"

lemma example_broker_issue:
  "broker_issue example_broker (\<lambda>_. ''h'') ''TOKEN'' (example_scope_of ''a'') (PyInt 60) (PyInt 1) (Some (PyInt 100)) 0 =
     Some (Inr ''h'', example_broker\<lparr>bk_leases := [(''h'', example_lease)]\<rparr>)"
  by (simp add: broker_issue_def secret_alias_def alias_start_def is_lower_def is_upper_def is_digit_def example_scope_of_def
      example_broker_def int_from_to_def timestamp_of_def draw_token.simps emit_secret_event_def example_lease_def)

lemma example_admits:
  "admit_lease (example_broker\<lparr>bk_leases := [(''h'', example_lease)]\<rparr>) ''h'' (example_scope_of ''a'') 120 =
     (Inr (''TOKEN'', 0), example_broker)"
  by (simp add: admit_lease_def example_broker_def example_lease_def) (simp add: example_scope_of_def)

lemma secret_uses_bounded_witness:
  "\<exists>s. reach secret_init secret_step s \<and> sy_spent s = [(''h'', example_scope_of ''a'', ''TOKEN'', 120)] \<and>
     spent_uses (sy_spent s) ''h'' \<le> issued_uses (sy_issued s) ''h'' \<and> issued_uses (sy_issued s) ''h'' = 1"
proof -
  let ?s0 = "\<lparr>sy_broker = example_broker, sy_issued = [], sy_spent = []\<rparr>"
  let ?b1 = "example_broker\<lparr>bk_leases := [(''h'', example_lease)]\<rparr>"
  let ?s1 = "\<lparr>sy_broker = ?b1, sy_issued = [(''h'', example_lease)], sy_spent = []\<rparr>"
  let ?s2 = "\<lparr>sy_broker = example_broker, sy_issued = [(''h'', example_lease)], sy_spent = [(''h'', example_scope_of ''a'', ''TOKEN'', 120)]\<rparr>"
  have "make_secret_broker [''git''] False = Inr example_broker" by (simp add: make_secret_broker_def example_broker_def)
  then have "secret_init ?s0" by (auto simp: secret_init_def)
  then have "reach secret_init secret_step ?s0" by (rule reach_init)
  moreover have "secret_step ?s0 ?s1"
    using step_issued [of ?s0 "\<lambda>_. ''h''", simplified, OF example_broker_issue, of example_lease] by simp
  ultimately have "reach secret_init secret_step ?s1" by (rule reach_step)
  moreover have "secret_step ?s1 ?s2"
    using step_admitted [of ?s1, simplified, OF example_admits] by simp
  ultimately have r: "reach secret_init secret_step ?s2" by (rule reach_step)
  with secret_uses_bounded [OF r, of "''h''"] show ?thesis
    by (intro exI [of _ ?s2]) (simp add: issued_uses_def example_lease_def)
qed

lemma consume_receipt_iff_witness:
  "timestamp_of 0 (Some (PyInt 120)) = Inr 120 \<and>
   (\<exists>receipt. fst (broker_consume (example_broker\<lparr>bk_leases := [(''h'', example_lease)]\<rparr>) (\<lambda>_. Inr (Some ''v'')) (\<lambda>_ _. Inr ())
      ''h'' (example_scope_of ''a'') (Some (PyInt 120)) 0) = Inr receipt)"
proof -
  have t: "timestamp_of 0 (Some (PyInt 120)) = Inr 120" by (simp add: timestamp_of_def)
  let ?b = "example_broker\<lparr>bk_leases := [(''h'', example_lease)]\<rparr>"
  have l: "map_of (bk_leases ?b) ''h'' = Some example_lease" "120 < le_expires example_lease" "le_scope example_lease = example_scope_of ''a''"
    "ss_provider (example_scope_of ''a'') \<in> set (bk_consumers ?b)"
    by (simp_all add: example_lease_def example_broker_def) (simp add: example_scope_of_def)
  have "\<exists>receipt. fst (broker_consume ?b (\<lambda>_. Inr (Some ''v'')) (\<lambda>_ _. Inr ()) ''h'' (example_scope_of ''a'') (Some (PyInt 120)) 0) = Inr receipt"
    by (rule iffD2 [OF conjunct1 [OF consume_receipt_iff [OF t]]], intro exI [of _ example_lease] exI [of _ "''v''"]) (use l in simp)
  with t show ?thesis by simp
qed

text \<open>
  Secrets sealed into the keyring are opened once: opening gives back the sealed texts, in the order
  of their aliases, and a second opening is refused. The keyring returns what was set last for a user
  and keeps the others (\<open>keyring_laws\<close>), and the digests of the aliases differ.
\<close>

theorem sealed_secrets_open_once:
  assumes "keyring_laws api service" "distinct (map (\<lambda>x. secret_digest (fst x)) secrets)"
    "seal_secrets api service secrets k = (Inr e, k')"
  shows "\<exists>opened. open_secrets api service e k' = (Inr (sort_key fst secrets), opened) \<and>
    fst (open_secrets api service opened k') = Inl (secret_error ''secret_transport_consumed'')"
proof -
  let ?xs = "sort_key fst secrets"
  from assms(3) have put: "put_all api service ?xs k = (Inr (), k')" and e: "e = \<lparr>ke_aliases = map fst ?xs, ke_consumed = False\<rparr>"
    by (auto simp: seal_secrets_def split: prod.splits sum.splits)
  have "distinct (map (\<lambda>x. secret_digest (fst x)) ?xs)"
    using assms(2) by (simp add: distinct_map)
  note read = put_all_read [OF assms(1) put this]
  have "set ys \<subseteq> set ?xs \<Longrightarrow> read_all api service (map fst ys) k' = Inr ys" for ys
    by (induction ys) (auto simp: read)
  from this [of ?xs] show ?thesis by (simp add: open_secrets_def e)
qed

end
