(* ===== verification/Spec2Isabelle.thy ===== *)
theory Spec2Isabelle
  imports Admission Advice Approvals Budget Context_State Drained Draining Grants Hierarchical Json Lifecycle Loading Secrets
    Orchestration References Resilience Update_Store
begin

text \<open>
  A verification of CapabilityHub (\<open>src/src/capabilityhub/\<close>), a service that lets clients discover, load
  and execute capabilities of providers under signed references, policies, budgets and draining. All
  file names below are in that directory.

  \<^bold>\<open>How the parts interact.\<close> A client loads sections of an active capability revision and receives an
  execution reference, an HMAC-signed text (\<open>references.py\<close>). Executing it (\<open>service.py\<close>) verifies the
  reference for the caller's scope, finds the revision in the immutable registry (\<open>registry.py\<close>),
  checks grant, policy, approval, schema, parameter authorization and dependencies, reserves an
  execution in the budget forest (\<open>budget.py\<close>), takes an idempotency slot (in memory or in
  \<open>idempotency.py\<close>) and asks the provider. The wrapper \<open>drained_service.py\<close> pins the revision in the
  staged revision store (\<open>update_store.py\<close>) and in the drain controller (\<open>draining.py\<close>) around such an
  execution. New revisions reach the registry through \<open>admission.py\<close> and become active through
  \<open>lifecycle.py\<close>, which verifies the artifact (\<open>supply_chain.py\<close>). Around this stand the durable
  budget, approval and tenant stores, the context inventory, the reasoning advice, the circuit breaker
  and the secret broker.

  \<^bold>\<open>Theories and sources.\<close>
    \<^item> Common ground: \<open>Hub_Prelude\<close> (Python values, exceptions as the type \<open>exn\<close> of \<open>errors.py\<close>,
      dictionaries, the locales \<open>step_system\<close> and \<open>monotone_system\<close> that lift invariants and progress to
      reachable states), \<open>Python_Text\<close> (texts, UTF-8, SHA-256, HMAC), \<open>Json\<close> and \<open>Json_Parser\<close>
      (\<open>json.dumps\<close> and \<open>json.loads\<close>), \<open>Models\<close> and \<open>Capabilities\<close> (\<open>models.py\<close>, \<open>metering.py\<close>).
    \<^item> Execution: \<open>References\<close> (\<open>references.py\<close>), \<open>Policy\<close> (\<open>policy.py\<close>, \<open>degraded.py\<close>,
      \<open>dependency_observer.py\<close>), \<open>Idempotency\<close> (\<open>idempotency.py\<close>), \<open>Budget\<close> (\<open>budget.py\<close>), \<open>Service\<close>,
      \<open>Execution\<close>, \<open>Service_Runs\<close> and \<open>Loading\<close> (\<open>service.py\<close>). An execution is two operations, up to the
      provider's call and after it, so that any others run in between.
    \<^item> Catalogue and updates: \<open>Projections\<close> (\<open>projections.py\<close>), \<open>Registry\<close> (\<open>registry.py\<close>), \<open>Admission\<close>
      (\<open>admission.py\<close>, \<open>compatibility.py\<close>), \<open>Supply_Chain\<close> (\<open>supply_chain.py\<close>), \<open>Update_Store\<close>
      (\<open>update_store.py\<close>), \<open>Lifecycle\<close> (\<open>lifecycle.py\<close>), \<open>Draining\<close> (\<open>draining.py\<close>), \<open>Drained\<close>
      (\<open>drained_service.py\<close>).
    \<^item> Authorization: \<open>Authorization\<close> (\<open>authorization.py\<close>), \<open>Grants\<close> (\<open>grant_policy.py\<close>, the identities of
      \<open>auth.py\<close>), \<open>Secrets\<close> (\<open>secret_broker.py\<close>). This theory joins the persistent grants to the service.
    \<^item> Durable stores: \<open>Hierarchical\<close> (\<open>hierarchical_budget.py\<close>), \<open>Tenancy\<close> (\<open>tenancy.py\<close>), \<open>Approvals\<close>
      (\<open>approval_store.py\<close>).
    \<^item> Context and advice: \<open>Residency\<close> (\<open>residency.py\<close>), \<open>Context_State\<close> (\<open>context_state.py\<close>),
      \<open>Reasoning\<close> (\<open>reasoning.py\<close>, \<open>reasoning_store.py\<close>), \<open>Orchestration\<close> and \<open>Advice\<close>
      (\<open>orchestration.py\<close>), \<open>Resilience\<close> (\<open>resilience.py\<close>).

  \<^bold>\<open>How code is translated.\<close> A class is a record of its state and a method a function from arguments and
  state to a result and the new state; \<open>Inl\<close> of an \<open>exn\<close> is a raised exception. Methods run under one
  lock or in one SQLite transaction, so each is one atomic step; a transaction that raises leaves the
  tables as they were. Clocks, random tokens, callbacks, the network libraries, the resolution of paths
  and third-party verifiers are arguments. Runs are step relations, and what is claimed of every run is
  an invariant of one of them, proved through an interpretation of \<open>step_system\<close>.

  \<^bold>\<open>What the lemmas show.\<close> For each component: the invariant of its state and that every operation keeps
  it (\<open>..._inv\<close>, \<open>..._step_inv\<close>); what an operation answers on each branch (\<open>..._cases\<close>, \<open>..._Inr\<close>,
  \<open>..._iff\<close>); frames (what is left unchanged). On these rest the numbered properties: the gates of an
  execution, one provider call for each idempotency key, no leaked reservation and no leaked pin, hard
  caps of both budgets, the closure of active pointers, trust of accepted artifacts, separation of
  tenants, approvals consumed once, round trips of references, JSON texts, grants and advice, and the
  irreversibility and completion of draining. Where the code relies on a hash, a property names the two
  texts that would have to collide; nothing is assumed of SHA-256.

  \<^bold>\<open>Bounds and recursion.\<close> Recursions are structural or have a measure (\<open>execute_loop\<close>: the attempts left;
  the depth-first search of the registry: the revisions not yet visited). The JSON parser is bounded by
  the length of its text, which \<open>loads_dumps\<close> shows to be enough for printed texts. \<open>draw_token\<close> of the
  secret broker repeats until a random token is new; it is a partial function, and
  \<open>draw_token_returns\<close> shows that it ends when some draw is new.

  \<^bold>\<open>Limits of the model.\<close> Texts have code points below 256. Finite floats are the rationals they denote;
  only the quotients of the context inventory are rounded. Failures of SQLite and of the file system are
  left out, except where an operation handles them. The circuit breaker's single-probe property is about
  breakers that evict no entry, the idempotency properties about records in memory.

  \<^bold>\<open>Not modelled.\<close> Ranking of search results (it grants nothing), manifest parsing and export, protocol
  records, activation locks, the flat durable budget, scoped context state, composition of the runtime
  (\<open>runtime.py\<close>, \<open>service_adapter.py\<close>), audit and metric sinks; process isolation, providers, servers,
  command line and dashboards, which are I/O; the Windows data protection calls; Sigstore bundles, which a
  third-party package verifies.
\<close>

section \<open>Executions behind the persistent grants\<close>

text \<open>
  The authorizer of a request, \<open>PrincipalPolicyAuthorizer\<close> of the caller's grants, as the service calls it.
  An exception of it ends the execution like a refusal: the provider is not asked.
\<close>

definition grants_authorizer :: "host_env \<Rightarrow> grant_snapshot \<Rightarrow> Service.authorizer" where
  "grants_authorizer env sn m deps arguments =
     (case policy_authorize env sn m deps arguments of
        Inr d \<Rightarrow> \<lparr>au_allowed = ad_allowed d, au_reasons = ad_reasons d\<rparr>
      | Inl _ \<Rightarrow> \<lparr>au_allowed = False, au_reasons = []\<rparr>)"

text \<open>
  C4. When the caller's authorizer is the one of its stored grants, an execution is only admitted to
  its provider with arguments that the grants cover: for the capability and each of its active direct
  dependencies, and every permission they declare, the grants of that capability's provider hold the
  permission with a constraint that covers the arguments. For a file permission this assumes that the
  path roots granted for it, to any provider, are absolute and resolve to themselves
  (\<open>roots_resolved\<close>; the code does not ask for that of stored grants, and a root that is a symbolic link
  refutes it otherwise); for network, process and secret permissions nothing is assumed of the grants.
  The budget forest satisfies the invariant of reachable ones (\<open>budget_inv\<close>), the ledger exists and
  the fresh identifier is not empty.
\<close>

theorem asked_within_grants:
  assumes "read_grants env key grants identity = Inr sn"
    "permission_category p = Filesystem \<Longrightarrow> \<forall>(name, gs) \<in> set (sn_providers sn). \<forall>(q, c) \<in> set gs. q = p \<longrightarrow> roots_resolved env c"
    "sx_authorizer ctx = Some (grants_authorizer env sn)"
    "budget_inv (sv_budget st)" "i < length (ledgers (sv_budget st))" "fresh \<noteq> []"
    "execute_admit cfg st now fresh later ctx i request mx = (Invoking pe, st')"
    "n \<in> insert (pe_manifest pe) (set (dependency_manifests cfg (pe_manifest pe)))" "p \<in> set (cm_permissions n)"
  shows "\<exists>gs c k. map_of (sn_providers sn) (cm_provider n) = Some gs \<and> map_of gs p = Some c \<and>
    normalize_constraint env p c = Inr k \<and> covers env k (permission_category p) (rq_arguments request)"
proof -
  from admit_effect [OF assms(4-7)] obtain m limit op rid where gate: "execute_gate cfg st now ctx request m = Inr op"
    and pe: "pe = \<lparr>pe_request = request, pe_manifest = m, pe_operation = op, pe_limit = limit, pe_reservation = rid,
      pe_slot = pe_slot pe\<rparr>" by auto
  have "pe_manifest pe = m" by (subst pe) simp
  with gate have gate: "execute_gate cfg st now ctx request (pe_manifest pe) = Inr op" by simp
  then have "authorize_arguments cfg ctx (pe_manifest pe) request = Inr ()"
    by (auto simp: execute_gate_def rbind_eq_Inr)
  then obtain d where "policy_authorize env sn (pe_manifest pe) (dependency_manifests cfg (pe_manifest pe))
      (Some (rq_arguments request)) = Inr d" "ad_allowed d"
    by (auto simp: authorize_arguments_def assms(3) grants_authorizer_def Let_def split: sum.splits if_splits)
  from policy_confines [OF assms(1,2) this assms(8,9)] show ?thesis .
qed

text \<open>A reader of the data directory, in a catalog of its own.\<close>

definition read_operation :: operation_spec where
  "read_operation = \<lparr>op_name = ''run'', op_type = EXECUTE, op_input_schema = [], op_output_schema = [],
     op_side_effect = READ, op_requires_approval = False\<rparr>"

definition reading_capability :: capability_manifest where
  "reading_capability = example_capability\<lparr>cm_operations := [read_operation], cm_permissions := [''filesystem.read''],
     cm_provider := ''left''\<rparr>"

definition reading_config :: service_config where
  "reading_config = example_config\<lparr>sc_registry := example_catalog\<lparr>rg_revisions := [(''x/tool@1.0.0#d'', reading_capability)]\<rparr>,
     sc_providers := [''left'']\<rparr>"

definition reading_context :: "grant_snapshot \<Rightarrow> service_context" where
  "reading_context sn = example_context\<lparr>sx_granted := {''filesystem.read''}, sx_authorizer := Some (grants_authorizer plain_env sn)\<rparr>"

definition reading_request :: "string \<Rightarrow> execution_request" where
  "reading_request er = \<lparr>rq_execution_ref = er, rq_operation = ''run'', rq_arguments = [(''path'', PyStr ''/data/notes.txt'')],
     rq_task_id = ''task'', rq_approval_ref = None, rq_idempotency_key = None\<rparr>"

lemma reading_fields [simp]:
  "sc_key reading_config = [1, 2, 3]" "sc_floats reading_config = (\<lambda>_. [])" "sc_decider reading_config = None"
  "sc_providers reading_config = [''left'']" "service_manifest reading_config ''x/tool@1.0.0#d'' = Inr reading_capability"
  "cm_permissions reading_capability = [''filesystem.read'']" "cm_provider reading_capability = ''left''"
  "manifest_revision reading_capability = ''x/tool@1.0.0#d''" "dependency_manifests reading_config reading_capability = []"
  "cm_operations reading_capability = [read_operation]" "cm_kind reading_capability = API"
  by (simp_all add: reading_config_def reading_capability_def example_config_def example_capability_def example_catalog_def
      example_manifest_def revision_of_def coordinate_of_def service_manifest_def find_revision_def dependency_manifests_def map_filter_simps)

lemma reading_gates:
  assumes er: "issue_reference [1, 2, 3] ''x/tool@1.0.0#d'' (reference_scope (\<lambda>_. []) example_context) (PyInt 300) ''execution'' 1000 = Inr er"
    and sn: "sn_providers sn = data_grants"
    and grant: "map_of (sv_grants st) er = Some \<lparr>eg_revision = ''x/tool@1.0.0#d'', eg_operations = {''run''}\<rparr>"
  shows "execute_target reading_config 1000 (reading_context sn) (reading_request er) None = Inr (reading_capability, 100)"
    "execute_gate reading_config st 1000 (reading_context sn) (reading_request er) reading_capability = Inr read_operation"
proof -
  have "reference_scope (\<lambda>_. []) (reading_context sn) = reference_scope (\<lambda>_. []) example_context"
    by (simp add: reference_scope_def reading_context_def)
  moreover have "verify_reference [1, 2, 3] er (reference_scope (\<lambda>_. []) example_context) None ''execution'' 1000 =
      Inr (issued_claims ''x/tool@1.0.0#d'' (reference_scope (\<lambda>_. []) example_context) 300 ''execution'' 1000)"
    using example_scope by (intro verify_own [OF er]) (simp_all add: int_time_def)
  ultimately show "execute_target reading_config 1000 (reading_context sn) (reading_request er) None = Inr (reading_capability, 100)"
    by (simp add: execute_target_def reading_request_def) (simp add: reading_context_def example_context_def)
  have "op_name read_operation = ''run''" by (simp add: read_operation_def)
  then have op: "granted_operation st reading_capability (reading_request er) = Inr read_operation"
    using grant by (simp add: granted_operation_def find_grant_def reading_request_def manifest_operation_def del: map_of_eq_Some_iff)
  obtain d where "policy_authorize plain_env sn reading_capability [] (Some [(''path'', PyStr ''/data/notes.txt'')]) = Inr d" "ad_allowed d"
    by (rule data_authorized [of reading_capability sn]) (simp_all add: sn)
  then have "authorize_arguments reading_config (reading_context sn) reading_capability (reading_request er) = Inr ()"
    by (simp add: authorize_arguments_def reading_context_def grants_authorizer_def reading_request_def)
  moreover have "pd_outcome (policy_decide reading_capability read_operation \<lparr>pc_granted = sx_granted (reading_context sn), pc_approved = a,
      pc_allow_irreversible = sx_allow_irreversible (reading_context sn)\<rparr>) = Policy_Allow" for a
    by (simp add: policy_allows_iff) (simp add: read_operation_def reading_context_def)
  then have "enforce_policy (reading_context sn) reading_capability read_operation a = Inr ()" for a
    by (simp add: enforce_policy_def)
  moreover have "check_approval reading_config 1000 (reading_context sn) reading_capability (reading_request er) = Inr False"
    by (simp add: check_approval_def reading_request_def)
  ultimately show "execute_gate reading_config st 1000 (reading_context sn) (reading_request er) reading_capability = Inr read_operation"
    using op by (simp add: execute_gate_def validate_arguments_def schema_skipped_def guard_dependencies_def read_operation_def)
qed

definition unlimited_heap :: budget_heap where
  "unlimited_heap = snd (new_ledger \<lparr>ledgers = [], reservations = []\<rparr> ''root'' [] None)"

lemma unlimited_heap: "unlimited unlimited_heap"
proof -
  have "budget_inv \<lparr>ledgers = [], reservations = []\<rparr>" by (simp add: budget_inv_def wf_parents_def)
  then have "budget_inv unlimited_heap"
    unfolding unlimited_heap_def using ledger_quiet [of "\<lparr>ledgers = [], reservations = []\<rparr>" "[]" None "''root''"] by simp
  then show ?thesis by (simp add: unlimited_def) (simp add: unlimited_heap_def new_ledger_def)
qed

theorem asked_within_grants_witness:
  "\<exists>grants sn st er pe sv gs c k. read_grants plain_env [] grants example_actor = Inr sn \<and>
     execute_admit reading_config st 1000 ''u'' [] (reading_context sn) 0 (reading_request er) None = (Invoking pe, sv) \<and>
     map_of (sn_providers sn) ''left'' = Some gs \<and> map_of gs ''filesystem.read'' = Some c \<and>
     normalize_constraint plain_env ''filesystem.read'' c = Inr k \<and>
     covers plain_env k Filesystem [(''path'', PyStr ''/data/notes.txt'')]"
proof -
  obtain grants sn where rd: "read_grants plain_env [] grants example_actor = Inr sn" and sn: "sn_providers sn = data_grants"
    using data_set by metis
  obtain er where er: "issue_reference [1, 2, 3] ''x/tool@1.0.0#d'' (reference_scope (\<lambda>_. []) example_context) (PyInt 300) ''execution'' 1000 = Inr er"
    using issue_ok [of "''x/tool@1.0.0#d''" "reference_scope (\<lambda>_. []) example_context" "''execution''" 300] example_scope by auto
  define st where "st = \<lparr>sv_budget = unlimited_heap, sv_grants = [(er, \<lparr>eg_revision = ''x/tool@1.0.0#d'', eg_operations = {''run''}\<rparr>)],
    sv_idempotency = [], sv_store = None, sv_sequence = 0, sv_audit = []\<rparr>"
  have u: "unlimited (sv_budget st)" by (simp add: st_def unlimited_heap)
  then have b: "budget_inv (sv_budget st)" "0 < length (ledgers (sv_budget st))" by (simp_all add: unlimited_def)
  have grant: "map_of (sv_grants st) er = Some \<lparr>eg_revision = ''x/tool@1.0.0#d'', eg_operations = {''run''}\<rparr>" by (simp add: st_def)
  note gates = reading_gates [OF er sn grant]
  obtain rid h where h: "budget_reserve (sv_budget st) 0 (execution_amounts 100) None ''u'' = (Inr rid, h)"
    using reserve_unlimited [OF u dict_execution(1) validate_execution(1) [of 100], of "''u''"] by auto
  have "admit_idempotency reading_config (st\<lparr>sv_budget := h\<rparr>) 1000 [] (reading_context sn) (reading_request er)
      (manifest_revision reading_capability) (op_side_effect read_operation) = (Inr (None, None), st\<lparr>sv_budget := h\<rparr>)"
    by (simp add: admit_idempotency_def reading_request_def)
  from admit_invokes [OF gates h this] obtain pe sv where
    run: "execute_admit reading_config st 1000 ''u'' [] (reading_context sn) 0 (reading_request er) None = (Invoking pe, sv)"
    and pe: "pe_manifest pe = reading_capability" by simp
  have ctx: "sx_authorizer (reading_context sn) = Some (grants_authorizer plain_env sn)" by (simp add: reading_context_def)
  have "reading_capability \<in> insert (pe_manifest pe) (set (dependency_manifests reading_config (pe_manifest pe)))"
    "''filesystem.read'' \<in> set (cm_permissions reading_capability)" by (simp_all add: pe)
  from asked_within_grants [OF rd data_resolved [OF sn] ctx b _ run this]
  have "\<exists>gs c k. map_of (sn_providers sn) ''left'' = Some gs \<and> map_of gs ''filesystem.read'' = Some c \<and>
     normalize_constraint plain_env ''filesystem.read'' c = Inr k \<and>
     covers plain_env k Filesystem [(''path'', PyStr ''/data/notes.txt'')]"
    by (simp del: map_of_eq_Some_iff add: reading_request_def)
  with rd run show ?thesis by blast
qed

end
